(* ===== verification/Prelude.thy ===== *)
theory Prelude
  imports Main "HOL-Library.Word" "HOL-Library.Monad_Syntax" "HOL-Library.Signed_Division"
begin

unbundle bit_operations_syntax

section \<open>Prelude: machine integers, traps and shared automation\<close>

text \<open>
  The machine the simulator is built for is a 32-bit one: \<open>autoconf.h\<close> of ns-2.35 records
  \<open>SIZEOF_LONG 4\<close>, and the object files kept in the tree are i386 COFF. With the macros of
  \<open>tcp/linux/ns-linux-util.h\<close> (\<open>__u32\<close> is \<open>unsigned long\<close>, \<open>__u16\<close> is
  \<open>unsigned int\<close>, \<open>__u8\<close> is \<open>unsigned char\<close>, \<open>__u64\<close> is
  \<open>unsigned long long\<close>) the widths are the ones below; note that \<open>u16\<close> has 32 bits.
  C's \<open>int\<close> and \<open>long\<close> are 32-bit words as well, read with \<open>sint\<close> where the code
  compares or divides them as signed values.
\<close>

type_synonym u8 = "8 word"
type_synonym u16 = "32 word"
type_synonym u32 = "32 word"
type_synonym u64 = "64 word"
type_synonym s32 = "32 word"
type_synonym s64 = "64 word"

subsection \<open>Division traps\<close>

text \<open>
  An integer division by zero ends the simulation with a hardware trap (SIGFPE). Every division
  of the source whose divisor is not a constant goes through \<open>cdiv\<close>; \<open>None\<close> is
  ``does not return normally'', for a trap and for a loop that does not end.
\<close>

definition cdiv :: "'a::len word \<Rightarrow> 'a word \<Rightarrow> 'a word option" where
  "cdiv a b = (if b = 0 then None else Some (a div b))"

lemma cdiv_Some [simp]: "b \<noteq> 0 \<Longrightarrow> cdiv a b = Some (a div b)"
  by (simp add: cdiv_def)

lemma cdiv_0 [simp]: "cdiv a 0 = None"
  by (simp add: cdiv_def)

lemma cdiv_eq_Some_iff: "cdiv a b = Some q \<longleftrightarrow> b \<noteq> 0 \<and> q = a div b"
  by (auto simp: cdiv_def)

lemma cdiv_eq_None_iff: "cdiv a b = None \<longleftrightarrow> b = 0"
  by (simp add: cdiv_def)

subsection \<open>Shared rule collections\<close>

named_theorems tcp_simps \<open>unfolding rules for the operations of the model\<close>
named_theorems bounds \<open>bounds of machine-integer expressions, as facts on natural numbers\<close>

subsection \<open>Words as natural numbers\<close>

lemma unat_lt_u32 [bounds]: "unat (x :: u32) < 4294967296"
  using unsigned_less [of x, where 'a = nat] by simp

lemma unat_lt_u64 [bounds]: "unat (x :: u64) < 18446744073709551616"
  using unsigned_less [of x, where 'a = nat] by simp

lemma unat_lt_u8 [bounds]: "unat (x :: u8) < 256"
  using unsigned_less [of x, where 'a = nat] by simp

lemma unat_div_word: "unat (a div b :: 'a::len word) = unat a div unat b"
  by (rule unat_div)

lemma unat_drop_bit_div: "unat (drop_bit n (a :: 'a::len word)) = unat a div 2 ^ n"
  by (simp add: unat_drop_bit_eq flip: drop_bit_eq_div)

lemma unat_add_nowrap:
  "unat a + unat b < 2 ^ LENGTH('a) \<Longrightarrow> unat (a + b :: 'a::len word) = unat a + unat b"
  by (simp add: unat_add_lem)

lemma unat_mult_nowrap:
  "unat a * unat b < 2 ^ LENGTH('a) \<Longrightarrow> unat (a * b :: 'a::len word) = unat a * unat b"
  by (simp add: unat_mult_lem)

lemma unat_push_bit_nowrap:
  assumes "unat a * 2 ^ n < 2 ^ LENGTH('a)"
  shows "unat (push_bit n a :: 'a::len word) = unat a * 2 ^ n"
proof -
  have "unat (push_bit n a) = take_bit LENGTH('a) (push_bit n (unat a))"
    by (simp add: unsigned_push_bit_eq)
  also have "\<dots> = unat a * 2 ^ n"
    using assms by (simp only: push_bit_eq_mult take_bit_nat_eq_self)
  finally show ?thesis .
qed

lemma unat_sub_le: "b \<le> a \<Longrightarrow> unat (a - b :: 'a::len word) = unat a - unat b"
  by (simp add: unat_sub)

lemma unat_Suc_less:
  "(a :: 'a::len word) < b \<Longrightarrow> unat (a + 1) = Suc (unat a)"
proof -
  assume "a < b"
  then have "Suc (unat a) \<le> unat b"
    by (simp add: word_less_nat_alt)
  also have "unat b < 2 ^ LENGTH('a)"
    by (rule unsigned_less)
  finally show ?thesis
    by (simp add: unat_word_ariths)
qed

lemma uint_eq_sint:
  assumes "0 \<le> sint (x :: u32)"
  shows "uint x = sint x"
proof -
  have "uint (word_of_int (sint x) :: u32) = sint x"
    unfolding uint_word_of_int_eq using assms sint_less [of x] by (simp add: take_bit_int_eq_self)
  then show ?thesis by simp
qed

lemma unat_inc: "unat (a :: u32) < 4294967295 \<Longrightarrow> unat (a + 1) = Suc (unat a)"
  using unat_add_nowrap [of a 1] by simp

lemma unat_max: "unat (max a b :: 'a::len word) = max (unat a) (unat b)"
  by (auto simp: max_def word_le_nat_alt)

lemma unat_min: "unat (min a b :: 'a::len word) = min (unat a) (unat b)"
  by (auto simp: min_def word_le_nat_alt)

lemma word_neq_0_iff_unat: "(a :: 'a::len word) \<noteq> 0 \<longleftrightarrow> 0 < unat a"
  by (simp add: unat_gt_0)

lemma max_2_neq_0 [simp]: "max a 2 \<noteq> (0 :: u32)" "2 \<le> max a (2 :: u32)"
  by (auto simp: max_def word_le_nat_alt)

lemma two_le_neq_0: "2 \<le> (x :: u32) \<Longrightarrow> x \<noteq> 0"
  by (auto simp: word_le_nat_alt)

lemma unat_ucast_u64: "unat (ucast (x :: u32) :: u64) = unat x"
  using unat_lt_u32 [of x] by (simp add: unsigned_ucast_eq take_bit_nat_eq_self)

lemma unat_ucast_u32: "unat (x :: u64) < 4294967296 \<Longrightarrow> unat (ucast x :: u32) = unat x"
  by (simp add: unsigned_ucast_eq take_bit_nat_eq_self)

lemma ucast_u64_eq_0_iff [simp]: "(ucast (x :: u32) :: u64) = 0 \<longleftrightarrow> x = 0"
  using unat_eq_zero [of x] unat_eq_zero [of "ucast x :: u64"] by (simp add: unat_ucast_u64)

lemmas word_as_nat = word_less_nat_alt word_le_nat_alt word_neq_0_iff_unat

lemmas unat_ops = unat_max unat_min unat_div_word unat_drop_bit_div

subsection \<open>Signed words that are not negative\<close>

lemma sint_eq_unat:
  assumes "unat (x :: 'a::len word) < 2 ^ (LENGTH('a) - 1)"
  shows "sint x = int (unat x)"
proof -
  define n where "n = LENGTH('a) - 1"
  have "int (unat x) < int (2 ^ n)" using assms by (simp only: of_nat_less_iff n_def)
  then have "int (unat x) < 2 ^ n" by (simp only: of_nat_power of_nat_numeral)
  moreover have "- (2 ^ n) \<le> int (unat x)" by (rule order_trans [of _ 0]) simp_all
  ultimately have "signed_take_bit n (int (unat x)) = int (unat x)"
    by (intro signed_take_bit_int_eq_self)
  then show ?thesis by (simp only: sint_uint uint_nat n_def One_nat_def)
qed

lemma sint_ucast_u32: "sint (ucast (x :: u32) :: s64) = int (unat x)"
  using unat_lt_u32 [of x] by (subst sint_eq_unat) (simp_all add: unat_ucast_u64)

lemma asr_nonneg:
  assumes "unat (x :: s64) < 2 ^ 63"
  shows "signed_drop_bit n x = drop_bit n x"
proof -
  have u: "unat (drop_bit n x) \<le> unat x" by (simp add: unat_drop_bit_div)
  have "sint (signed_drop_bit n x) = drop_bit n (int (unat x))"
    using assms by (simp only: sint_signed_drop_bit_eq sint_eq_unat) (simp add: sint_eq_unat)
  also have "\<dots> = int (unat (drop_bit n x))"
    by (simp only: unat_drop_bit_div) (simp only: drop_bit_eq_div zdiv_int of_nat_power of_nat_numeral)
  also have "\<dots> = sint (drop_bit n x)" using u assms by (subst sint_eq_unat) simp_all
  finally have "(word_of_int (sint (signed_drop_bit n x)) :: s64) = word_of_int (sint (drop_bit n x))" by (rule arg_cong)
  then show ?thesis by simp
qed

subsection \<open>The option monad\<close>

lemma bind_SomeI: "m = Some x \<Longrightarrow> f x = r \<Longrightarrow> Option.bind m f = r"
  by simp

lemma if_Some_neq_None [simp]: "(if b then Some x else Some y) \<noteq> None"
  by simp

text \<open>An operation repeated, stopping at the first trap.\<close>

fun run_opt :: "nat \<Rightarrow> ('a \<Rightarrow> 'a option) \<Rightarrow> 'a \<Rightarrow> 'a option" where
  "run_opt 0 f x = Some x"
| "run_opt (Suc n) f x = do { y \<leftarrow> f x; run_opt n f y }"

lemma run_opt_add: "run_opt (m + n) f x = do { y \<leftarrow> run_opt m f x; run_opt n f y }"
  by (induction m f x rule: run_opt.induct) (auto split: Option.bind_split)

text \<open>A measured count: \<open>f\<close> takes the \<open>i\<close>-th state to the next, \<open>n\<close> times.\<close>

lemma run_opt_states:
  assumes "\<And>i. i < n \<Longrightarrow> f (g i) = Some (g (Suc i))"
  shows "run_opt n f (g 0) = Some (g n)"
  using assms
proof (induction n)
  case (Suc n)
  then have "run_opt n f (g 0) = Some (g n)" by simp
  then show ?case using Suc.prems [of n] run_opt_add [of n 1 f "g 0"] by simp
qed simp

end
