(* ===== verification/Tcp_Sock.thy ===== *)
theory Tcp_Sock
  imports Prelude
begin

section \<open>The socket, the kernel globals and the congestion-control interface\<close>

text \<open>
  The C data of \<open>tcp/linux/ns-linux-util.h\<close>: the options a segment carried
  (\<open>struct tcp_options_received\<close>), the part of the socket that congestion control reads and
  writes (\<open>struct tcp_sock\<close>), the events and states of the interface, and the global
  variables the modules share (\<open>kern\<close>: the clock \<open>tcp_time_stamp\<close> in milliseconds,
  \<open>ktime_get_real\<close> in nanoseconds, the system parameters of \<open>ns-linux-param.c\<close> and
  \<open>tcp_cong.c\<close>). The private area \<open>icsk_ca_priv\<close> of a socket is a record of its own for
  each module, passed beside the socket.
\<close>

record tcp_options_received =
  rcv_tsval :: u32
  rcv_tsecr :: u32
  saw_tstamp :: bool

record tcp_sock =
  sk_state :: s32
  snd_nxt :: u32
  snd_una :: u32
  mss_cache :: u32
  srtt :: u32
  rx_opt :: tcp_options_received
  snd_ssthresh :: u32
  snd_cwnd :: u32
  snd_cwnd_cnt :: u16
  snd_cwnd_clamp :: u16
  snd_cwnd_stamp :: u32
  bytes_acked :: u32
  icsk_ca_ops :: nat
  icsk_ca_state :: u8

record kern =
  tcp_time_stamp :: u32
  ktime_get_real :: s64
  sysctl_tcp_abc :: u8
  tcp_max_burst :: u8
  sysctl_tcp_max_ssthresh :: s32

abbreviation (input) HZ :: u32 where "HZ \<equiv> 1000"

text \<open>\<open>msecs_to_jiffies\<close> and \<open>jiffies_to_usecs\<close>: one jiffy is one millisecond.\<close>

definition msecs_to_jiffies :: "u32 \<Rightarrow> u32" where
  "msecs_to_jiffies x = (1000 div 1000) * x"

subsection \<open>Events and states\<close>

datatype tcp_ca_event =
    CA_EVENT_TX_START
  | CA_EVENT_CWND_RESTART
  | CA_EVENT_COMPLETE_CWR
  | CA_EVENT_FRTO
  | CA_EVENT_LOSS
  | CA_EVENT_FAST_ACK
  | CA_EVENT_SLOW_ACK

abbreviation (input) TCP_CA_Open :: u8 where "TCP_CA_Open \<equiv> 0"
abbreviation (input) TCP_CA_Disorder :: u8 where "TCP_CA_Disorder \<equiv> 1"
abbreviation (input) TCP_CA_CWR :: u8 where "TCP_CA_CWR \<equiv> 2"
abbreviation (input) TCP_CA_Recovery :: u8 where "TCP_CA_Recovery \<equiv> 3"
abbreviation (input) TCP_CA_Loss :: u8 where "TCP_CA_Loss \<equiv> 4"

subsection \<open>The operations table\<close>

text \<open>
  \<open>struct tcp_congestion_ops\<close>: a required operation is a function, an optional one an option
  (\<open>None\<close> is a null pointer). An operation takes the globals and the socket with the module's
  private area and returns the new pair, or \<open>None\<close> where the C code traps or does not return.
  The link fields of the table are the subject of \<open>Cong_List\<close>; \<open>get_info\<close> only fills a
  diagnostic structure and is kept out of the table.
\<close>

type_synonym 'ca sock = "tcp_sock \<times> 'ca"

record 'ca tcp_congestion_ops =
  op_flags :: u32
  op_name :: string
  op_init :: "(kern \<Rightarrow> 'ca sock \<Rightarrow> 'ca sock option) option"
  op_ssthresh :: "kern \<Rightarrow> 'ca sock \<Rightarrow> (u32 \<times> 'ca sock) option"
  op_min_cwnd :: "(kern \<Rightarrow> 'ca sock \<Rightarrow> u32 option) option"
  op_cong_avoid :: "kern \<Rightarrow> u32 \<Rightarrow> u32 \<Rightarrow> u32 \<Rightarrow> s32 \<Rightarrow> 'ca sock \<Rightarrow> 'ca sock option"
  op_rtt_sample :: "(kern \<Rightarrow> u32 \<Rightarrow> 'ca sock \<Rightarrow> 'ca sock option) option"
  op_set_state :: "(kern \<Rightarrow> u8 \<Rightarrow> 'ca sock \<Rightarrow> 'ca sock option) option"
  op_cwnd_event :: "(kern \<Rightarrow> tcp_ca_event \<Rightarrow> 'ca sock \<Rightarrow> 'ca sock option) option"
  op_undo_cwnd :: "(kern \<Rightarrow> 'ca sock \<Rightarrow> (u32 \<times> 'ca sock) option) option"
  op_pkts_acked :: "(kern \<Rightarrow> u32 \<Rightarrow> s64 \<Rightarrow> 'ca sock \<Rightarrow> 'ca sock option) option"

abbreviation (input) TCP_CONG_NON_RESTRICTED :: u32 where "TCP_CONG_NON_RESTRICTED \<equiv> 1"
abbreviation (input) TCP_CONG_RTT_STAMP :: u32 where "TCP_CONG_RTT_STAMP \<equiv> 2"

subsection \<open>Macros of \<open>ns-linux-c.h\<close>\<close>

definition tcp_is_cwnd_limited :: "tcp_sock \<Rightarrow> u32 \<Rightarrow> bool" where
  "tcp_is_cwnd_limited sk in_flight = (snd_cwnd sk \<le> in_flight)"

text \<open>The simulator's \<open>after\<close> and \<open>between\<close>: \<open>after\<close> is a plain unsigned
  comparison, not the kernel's comparison modulo \<open>2 ^ 32\<close>.\<close>

definition after :: "u32 \<Rightarrow> u32 \<Rightarrow> bool" where
  "after seq1 seq2 = (seq2 < seq1)"

definition between :: "u32 \<Rightarrow> u32 \<Rightarrow> u32 \<Rightarrow> bool" where
  "between seq1 seq2 seq3 = (seq1 - seq2 \<le> seq3 - seq2)"

subsection \<open>Time\<close>

definition net_invalid_timestamp :: s64 where
  "net_invalid_timestamp = 0"

definition ktime_equal :: "s64 \<Rightarrow> s64 \<Rightarrow> bool" where
  "ktime_equal cmp1 cmp2 = (cmp1 = cmp2)"

text \<open>The signed division of C rounds towards zero.\<close>

definition ktime_to_us :: "s64 \<Rightarrow> s64" where
  "ktime_to_us kt = word_of_int (sint kt sdiv 1000)"

definition net_timedelta :: "kern \<Rightarrow> s64 \<Rightarrow> s64" where
  "net_timedelta k t = ktime_get_real k - t"

end
