(* ===== verification/Cong_List.thy ===== *)
theory Cong_List
  imports Prelude
begin

section \<open>The list of congestion-control tables (\<open>tcp/linux/ns-linux-util.h\<close>)\<close>

text \<open>
  The tables of the modules are chained in a circular doubly linked list through the \<open>list_head\<close> at their
  start; the list head is the global \<open>ns_tcp_cong_list\<close>. The macros \<open>list_add_rcu\<close>,
  \<open>list_add_tail_rcu\<close>, \<open>list_del_rcu\<close> and \<open>list_move\<close> are assignments to these
  links, in the order of the code. The lemmas show that they refine insertion at either end, removal
  and moving to the front of a plain list, and that the walk of \<open>list_for_each_entry_rcu\<close> returns that list.
\<close>

subsection \<open>Nodes and links\<close>

text \<open>A node is the list head or the \<open>list_head\<close> of the table at an address.\<close>

datatype node = List_Head | Ops nat

record list_links =
  link_next :: "node \<Rightarrow> node"
  link_prev :: "node \<Rightarrow> node"
  link_file_name :: "node \<Rightarrow> string option"
  last_added :: node
  cc_list_changed :: bool

definition set_next :: "node \<Rightarrow> node \<Rightarrow> list_links \<Rightarrow> list_links" where
  "set_next p q h = h\<lparr>link_next := (link_next h)(p := q)\<rparr>"

definition set_prev :: "node \<Rightarrow> node \<Rightarrow> list_links \<Rightarrow> list_links" where
  "set_prev p q h = h\<lparr>link_prev := (link_prev h)(p := q)\<rparr>"

text \<open>The initial state: an empty circle, nothing added.\<close>

definition ns_tcp_cong_list :: list_links where
  "ns_tcp_cong_list =
     \<lparr>link_next = (\<lambda>_. List_Head), link_prev = (\<lambda>_. List_Head), link_file_name = (\<lambda>_. None),
      last_added = List_Head, cc_list_changed = False\<rparr>"

subsection \<open>The macros\<close>

definition list_add_rcu :: "node \<Rightarrow> list_links \<Rightarrow> list_links" where
  "list_add_rcu a h =
     (let h = set_next a (link_next h List_Head) h;
          h = set_prev a List_Head h;
          h = set_prev (link_next h List_Head) a h;
          h = set_next List_Head a h
      in h\<lparr>last_added := a, cc_list_changed := True\<rparr>)"

definition list_add_tail_rcu :: "node \<Rightarrow> list_links \<Rightarrow> list_links" where
  "list_add_tail_rcu a h =
     (let h = set_prev a (link_prev h List_Head) h;
          h = set_next a List_Head h;
          h = set_next (link_prev h List_Head) a h;
          h = set_prev List_Head a h
      in h\<lparr>last_added := a, cc_list_changed := True\<rparr>)"

definition list_del_rcu :: "node \<Rightarrow> list_links \<Rightarrow> list_links" where
  "list_del_rcu a h =
     (let h = set_next (link_prev h a) (link_next h a) h;
          h = set_prev (link_next h a) (link_prev h a) h
      in h\<lparr>cc_list_changed := True\<rparr>)"

definition list_move :: "node \<Rightarrow> list_links \<Rightarrow> list_links" where
  "list_move a h = list_add_rcu a (list_del_rcu a h)"

text \<open>\<open>list_for_each_entry_rcu\<close>: the addresses of the tables from a node on. A list whose links do not
  come back to the head would be walked for ever.\<close>

partial_function (option) walk_from :: "list_links \<Rightarrow> node \<Rightarrow> nat list option" where
  "walk_from h p =
     (case p of
        List_Head \<Rightarrow> Some []
      | Ops n \<Rightarrow> do { ns \<leftarrow> walk_from h (link_next h p); Some (n # ns) })"

definition list_for_each_entry_rcu :: "list_links \<Rightarrow> nat list option" where
  "list_for_each_entry_rcu h = walk_from h (link_next h List_Head)"

text \<open>\<open>set_linux_file_name\<close> of \<open>ns-linux-c.c\<close> names the file of the table added last.\<close>

definition set_linux_file_name :: "string \<Rightarrow> list_links \<Rightarrow> list_links" where
  "set_linux_file_name name h =
     (if last_added h \<noteq> List_Head
      then h\<lparr>link_file_name := (link_file_name h)(last_added h := Some name)\<rparr> else h)"

subsection \<open>The abstraction\<close>

text \<open>\<open>segment h p ns q\<close>: following the links from \<open>p\<close>, in both directions, passes exactly the tables
  \<open>ns\<close> and then reaches \<open>q\<close>.\<close>

fun segment :: "list_links \<Rightarrow> node \<Rightarrow> nat list \<Rightarrow> node \<Rightarrow> bool" where
  "segment h p [] q \<longleftrightarrow> link_next h p = q \<and> link_prev h q = p"
| "segment h p (n # ns) q \<longleftrightarrow> link_next h p = Ops n \<and> link_prev h (Ops n) = p \<and> segment h (Ops n) ns q"

definition represents :: "list_links \<Rightarrow> nat list \<Rightarrow> bool" where
  "represents h ns \<longleftrightarrow> distinct ns \<and> segment h List_Head ns List_Head"

lemma segment_append:
  "segment h p (ns @ n # ms) q \<longleftrightarrow> segment h p ns (Ops n) \<and> segment h (Ops n) ms q"
  by (induction ns arbitrary: p) auto

text \<open>A segment only depends on the next links of its start and the previous links of its end, and on the
  links of the nodes between.\<close>

lemma segment_frame:
  assumes "segment h p ns q" "\<forall>r \<in> insert p (Ops ` set ns). link_next h' r = link_next h r"
    and "\<forall>r \<in> insert q (Ops ` set ns). link_prev h' r = link_prev h r"
  shows "segment h' p ns q"
  using assms by (induction ns arbitrary: p) auto

text \<open>Opening a segment at its first and at its last link.\<close>

lemma segment_start: "segment h p ns q \<Longrightarrow> link_next h p = (case ns of [] \<Rightarrow> q | n # _ \<Rightarrow> Ops n)"
  by (cases ns) auto

lemma segment_end: "segment h p ns q \<Longrightarrow> link_prev h q = (if ns = [] then p else Ops (last ns))"
  by (induction ns arbitrary: p) auto

lemma represents_empty: "represents ns_tcp_cong_list []"
  by (simp add: represents_def ns_tcp_cong_list_def)

lemma walk_from_segment: "segment h p ns List_Head \<Longrightarrow> walk_from h (link_next h p) = Some ns"
proof (induction ns arbitrary: p)
  case Nil
  then show ?case by (subst walk_from.simps) simp
next
  case (Cons n ns)
  then show ?case by (subst walk_from.simps) simp
qed

lemma walk_represents: "represents h ns \<Longrightarrow> list_for_each_entry_rcu h = Some ns"
  by (simp add: represents_def list_for_each_entry_rcu_def walk_from_segment)

subsection \<open>The macros refine operations on a list\<close>

lemma list_add_links:
  assumes "a \<noteq> List_Head"
  shows "link_next (list_add_rcu a h) = (link_next h)(a := link_next h List_Head, List_Head := a)"
    and "link_prev (list_add_rcu a h) = (link_prev h)(a := List_Head, link_next h List_Head := a)"
  using assms by (simp_all add: list_add_rcu_def set_next_def set_prev_def Let_def)

lemma list_add_tail_links:
  assumes "a \<noteq> List_Head"
  shows "link_next (list_add_tail_rcu a h) = (link_next h)(a := List_Head, link_prev h List_Head := a)"
    and "link_prev (list_add_tail_rcu a h) = (link_prev h)(a := link_prev h List_Head, List_Head := a)"
  using assms by (simp_all add: list_add_tail_rcu_def set_next_def set_prev_def Let_def)

lemma list_del_links:
  "link_next (list_del_rcu a h) = (link_next h)(link_prev h a := link_next h a)"
  "link_prev (list_del_rcu a h) = (link_prev h)(link_next h a := link_prev h a)"
  by (simp_all add: list_del_rcu_def set_next_def set_prev_def Let_def)

lemma list_file_names [simp]:
  "link_file_name (list_add_rcu a h) = link_file_name h"
  "link_file_name (list_add_tail_rcu a h) = link_file_name h"
  "link_file_name (list_del_rcu a h) = link_file_name h"
  by (simp_all add: list_add_rcu_def list_add_tail_rcu_def list_del_rcu_def set_next_def set_prev_def Let_def)

lemma list_marks [simp]:
  "last_added (list_add_rcu a h) = a" "cc_list_changed (list_add_rcu a h)"
  "last_added (list_add_tail_rcu a h) = a" "cc_list_changed (list_add_tail_rcu a h)"
  "last_added (list_del_rcu a h) = last_added h" "cc_list_changed (list_del_rcu a h)"
  by (simp_all add: list_add_rcu_def list_add_tail_rcu_def list_del_rcu_def set_next_def set_prev_def Let_def)

lemma represents_add:
  assumes "represents h ns" "n \<notin> set ns"
  shows "represents (list_add_rcu (Ops n) h) (n # ns)"
proof (cases ns)
  case Nil
  then show ?thesis using assms by (simp add: represents_def list_add_links)
next
  case (Cons m ms)
  have "segment h (Ops m) ms List_Head" "link_next h List_Head = Ops m"
    using assms(1) Cons by (simp_all add: represents_def)
  moreover have "segment (list_add_rcu (Ops n) h) (Ops m) ms List_Head"
    by (rule segment_frame [OF calculation(1)])
      (use assms Cons calculation(2) in \<open>auto simp: represents_def list_add_links\<close>)
  ultimately show ?thesis using assms Cons by (auto simp: represents_def list_add_links)
qed

lemma represents_add_tail:
  assumes "represents h ns" "n \<notin> set ns"
  shows "represents (list_add_tail_rcu (Ops n) h) (ns @ [n])"
proof (cases ns rule: rev_cases)
  case Nil
  then show ?thesis using assms by (simp add: represents_def list_add_tail_links)
next
  case (snoc ms m)
  have seg: "segment h List_Head ms (Ops m)" and prev: "link_prev h List_Head = Ops m"
    using assms(1) snoc by (simp_all add: represents_def segment_append)
  have "segment (list_add_tail_rcu (Ops n) h) List_Head ms (Ops m)"
    by (rule segment_frame [OF seg]) (use assms snoc prev in \<open>auto simp: represents_def list_add_tail_links\<close>)
  then show ?thesis using assms snoc prev by (auto simp: represents_def segment_append list_add_tail_links)
qed

lemma segment_unlink:
  assumes "segment h p (xs @ n # ys) q" "distinct (xs @ n # ys)"
    and "p \<notin> Ops ` set (xs @ n # ys)" "q \<notin> Ops ` set (xs @ n # ys)"
  shows "segment (list_del_rcu (Ops n) h) p (xs @ ys) q"
  using assms
proof (induction xs arbitrary: p)
  case Nil
  show ?case
  proof (cases ys)
    case Nil
    then show ?thesis using Nil.prems by (simp add: list_del_links)
  next
    case (Cons m ms)
    have "segment (list_del_rcu (Ops n) h) (Ops m) ms q"
      by (rule segment_frame [of h]) (use Nil.prems Cons in \<open>auto simp: list_del_links image_iff\<close>)
    then show ?thesis using Nil.prems Cons by (simp add: list_del_links)
  qed
next
  case (Cons x xs)
  have start: "link_prev h (Ops n) = (if xs = [] then Ops x else Ops (last xs))"
    using Cons.prems(1) segment_end [of h "Ops x" xs "Ops n"] by (auto simp: segment_append)
  have stop: "link_next h (Ops n) = (case ys of [] \<Rightarrow> q | m # _ \<Rightarrow> Ops m)"
    using Cons.prems(1) segment_start [of h "Ops n" ys q] by (auto simp: segment_append)
  have "segment (list_del_rcu (Ops n) h) (Ops x) (xs @ ys) q"
    by (rule Cons.IH) (use Cons.prems in auto)
  moreover have "link_next (list_del_rcu (Ops n) h) p = Ops x"
    using Cons.prems(1,3) start by (cases "xs = []") (auto simp: list_del_links)
  moreover have "link_prev (list_del_rcu (Ops n) h) (Ops x) = p"
    using Cons.prems(1,2,4) stop by (cases ys) (auto simp: list_del_links)
  ultimately show ?case by simp
qed

lemma represents_del:
  assumes "represents h ns" "n \<in> set ns"
  shows "represents (list_del_rcu (Ops n) h) (remove1 n ns)"
proof -
  obtain xs ys where ns: "ns = xs @ n # ys" "n \<notin> set xs" using split_list_first [OF assms(2)] by blast
  have "segment (list_del_rcu (Ops n) h) List_Head (xs @ ys) List_Head"
    by (rule segment_unlink) (use assms(1) ns in \<open>auto simp: represents_def\<close>)
  then show ?thesis using assms(1) ns by (simp add: represents_def remove1_append)
qed

lemma represents_move:
  assumes "represents h ns" "n \<in> set ns"
  shows "represents (list_move (Ops n) h) (n # remove1 n ns)"
  unfolding list_move_def
  by (rule represents_add [OF represents_del]) (use assms in \<open>auto simp: represents_def\<close>)

lemma represents_frame:
  assumes "represents h ns" "link_next h' = link_next h" "link_prev h' = link_prev h"
  shows "represents h' ns"
  using assms segment_frame [of h List_Head ns List_Head h'] by (simp add: represents_def)

lemma represents_file_name: "represents h ns \<Longrightarrow> represents (set_linux_file_name f h) ns"
  by (erule represents_frame) (simp_all add: set_linux_file_name_def)

end
