(* ===== verification/Cong_Registry.thy ===== *)
theory Cong_Registry
  imports Tcp_Sock Cong_List
begin

section \<open>The registry of congestion-control modules (\<open>tcp/linux/src/tcp_cong.c\<close>)\<close>

text \<open>
  The registry is the list of tables of \<open>Cong_List\<close> together with the tables themselves: registration,
  removal, the default and the list of allowed modules, the printed lists, and the choice of a module for a socket. The lemmas show that
  the operations refine a catalogue, a list of distinct names with a mark for the allowed ones.
\<close>

subsection \<open>Tables and results\<close>

text \<open>\<open>struct tcp_congestion_ops\<close> as it is before registration: the required operations may be
  null. The private area \<open>'ca\<close> of a socket is the same for all tables.\<close>

record 'ca cong_table =
  ct_name :: string
  ct_flags :: u32
  ct_init :: "('ca sock \<Rightarrow> 'ca sock option) option"
  ct_release :: "('ca sock \<Rightarrow> 'ca sock option) option"
  ct_ssthresh :: "('ca sock \<Rightarrow> (u32 \<times> 'ca sock) option) option"
  ct_cong_avoid :: "(u32 \<Rightarrow> u32 \<Rightarrow> u32 \<Rightarrow> s32 \<Rightarrow> 'ca sock \<Rightarrow> 'ca sock option) option"

record 'ca registry =
  links :: list_links
  tables :: "nat \<Rightarrow> 'ca cong_table"

text \<open>The negative return values of the operations, which leave the registry as it was; a return value of
  0 is \<open>Inr\<close> of the new state. \<open>None\<close> stands for a walk that does not end.\<close>

datatype errno = EINVAL | EEXIST | ENOENT | EBUSY | ENOMEM | EPERM

subsection \<open>Lookup, registration and removal\<close>

partial_function (option) ca_find_from :: "'ca registry \<Rightarrow> string \<Rightarrow> node \<Rightarrow> nat option option" where
  "ca_find_from r name p =
     (case p of
        List_Head \<Rightarrow> Some None
      | Ops n \<Rightarrow> if ct_name (tables r n) = name then Some (Some n)
                 else ca_find_from r name (link_next (links r) p))"

definition tcp_ca_find :: "string \<Rightarrow> 'ca registry \<Rightarrow> nat option option" where
  "tcp_ca_find name r = ca_find_from r name (link_next (links r) List_Head)"

definition tcp_register_congestion_control :: "nat \<Rightarrow> 'ca registry \<Rightarrow> (errno + 'ca registry) option" where
  "tcp_register_congestion_control ca r =
     (if ct_ssthresh (tables r ca) = None \<or> ct_cong_avoid (tables r ca) = None then Some (Inl EINVAL)
      else do {
        e \<leftarrow> tcp_ca_find (ct_name (tables r ca)) r;
        Some (if e \<noteq> None then Inl EEXIST else Inr (r\<lparr>links := list_add_tail_rcu (Ops ca) (links r)\<rparr>))
      })"

definition tcp_unregister_congestion_control :: "nat \<Rightarrow> 'ca registry \<Rightarrow> 'ca registry" where
  "tcp_unregister_congestion_control ca r = r\<lparr>links := list_del_rcu (Ops ca) (links r)\<rparr>"

text \<open>\<open>module_init\<close> runs the registration of a module, whatever it returns, and then records the file
  of the module.\<close>

definition module_init :: "nat \<Rightarrow> string \<Rightarrow> 'ca registry \<Rightarrow> 'ca registry option" where
  "module_init ca file r = do {
     e \<leftarrow> tcp_register_congestion_control ca r;
     let r = (case e of Inl _ \<Rightarrow> r | Inr r' \<Rightarrow> r');
     Some (r\<lparr>links := set_linux_file_name file (links r)\<rparr>)
   }"

subsection \<open>The default and the allowed modules\<close>

definition set_flags :: "nat \<Rightarrow> u32 \<Rightarrow> 'ca registry \<Rightarrow> 'ca registry" where
  "set_flags n f r = r\<lparr>tables := (tables r)(n := (tables r n)\<lparr>ct_flags := f\<rparr>)\<rparr>"

definition allow :: "nat \<Rightarrow> 'ca registry \<Rightarrow> 'ca registry" where
  "allow n r = set_flags n (ct_flags (tables r n) OR TCP_CONG_NON_RESTRICTED) r"

definition restrict :: "nat \<Rightarrow> 'ca registry \<Rightarrow> 'ca registry" where
  "restrict n r = set_flags n (ct_flags (tables r n) AND NOT TCP_CONG_NON_RESTRICTED) r"

definition tcp_set_default_congestion_control :: "string \<Rightarrow> 'ca registry \<Rightarrow> (errno + 'ca registry) option" where
  "tcp_set_default_congestion_control name r = do {
     e \<leftarrow> tcp_ca_find name r;
     Some (case e of
             None \<Rightarrow> Inl ENOENT
           | Some ca \<Rightarrow> (let r = allow ca r in Inr (r\<lparr>links := list_move (Ops ca) (links r)\<rparr>)))
   }"

text \<open>\<open>strsep\<close> splits off the first field; a null rest ends the loop, and so does an empty field.\<close>

fun strsep :: "string option \<Rightarrow> (string \<times> string option) option" where
  "strsep None = None"
| "strsep (Some s) =
     Some (takeWhile (\<lambda>c. c \<noteq> CHR '' '') s,
           case dropWhile (\<lambda>c. c \<noteq> CHR '' '') s of [] \<Rightarrow> None | _ # rest \<Rightarrow> Some rest)"

function field_names :: "string option \<Rightarrow> string list" where
  "field_names s =
     (case strsep s of
        None \<Rightarrow> []
      | Some (name, rest) \<Rightarrow> if name = [] then [] else name # field_names rest)"
  by pat_completeness simp_all
termination
proof (relation "measure (\<lambda>s. case s of None \<Rightarrow> 0 | Some t \<Rightarrow> Suc (length t))", simp)
  fix s and p :: "string \<times> string option" and name rest
  assume "strsep s = Some p" "(name, rest) = p" "name \<noteq> []"
  then obtain t where t: "s = Some t"
    "rest = (case dropWhile (\<lambda>c. c \<noteq> CHR '' '') t of [] \<Rightarrow> None | _ # rest \<Rightarrow> Some rest)"
    by (cases s) auto
  have "(case (case u of [] \<Rightarrow> None | _ # v \<Rightarrow> Some v) of None \<Rightarrow> 0 | Some v \<Rightarrow> Suc (length v)) < Suc (length t)"
    if "length u \<le> length t" for u :: string
    using that by (cases u) simp_all
  from this [OF length_dropWhile_le]
  show "(rest, s) \<in> measure (\<lambda>s. case s of None \<Rightarrow> 0 | Some t \<Rightarrow> Suc (length t))"
    using t by simp
qed

declare field_names.simps [simp del]

text \<open>The first pass looks up every name and fails on the first unknown one; then all flags are cleared, and
  the named tables are allowed. \<open>strdup\<close> may fail for lack of memory.\<close>

fun known_names :: "string list \<Rightarrow> 'ca registry \<Rightarrow> bool option" where
  "known_names [] r = Some True"
| "known_names (name # names) r = do {
     e \<leftarrow> tcp_ca_find name r;
     if e = None then Some False else known_names names r
   }"

fun allow_names :: "string list \<Rightarrow> 'ca registry \<Rightarrow> 'ca registry option" where
  "allow_names [] r = Some r"
| "allow_names (name # names) r = do {
     e \<leftarrow> tcp_ca_find name r;
     allow_names names (case e of None \<Rightarrow> r | Some ca \<Rightarrow> allow ca r)
   }"

definition tcp_set_allowed_congestion_control ::
  "bool \<Rightarrow> string \<Rightarrow> 'ca registry \<Rightarrow> (errno + 'ca registry) option" where
  "tcp_set_allowed_congestion_control strdup_ok val r =
     (if \<not> strdup_ok then Some (Inl ENOMEM)
      else do {
        ok \<leftarrow> known_names (field_names (Some val)) r;
        if \<not> ok then Some (Inl ENOENT)
        else do {
          ns \<leftarrow> list_for_each_entry_rcu (links r);
          r \<leftarrow> allow_names (field_names (Some val)) (fold restrict ns r);
          Some (Inr r)
        }
      })"

subsection \<open>Listing the modules\<close>

text \<open>A buffer is a map from offsets to the characters written so far. \<open>snprintf (buf + offs, size, s)\<close>
  writes at most \<open>size\<close> characters, the terminating null included, and returns the length of \<open>s\<close>;
  \<open>size_t\<close> has 32 bits.\<close>

type_synonym buffer = "nat \<rightharpoonup> char"

definition put_chars :: "nat \<Rightarrow> string \<Rightarrow> buffer \<Rightarrow> buffer" where
  "put_chars a cs b = (\<lambda>i. if a \<le> i \<and> i < a + length cs then Some (cs ! (i - a)) else b i)"

definition snprintf :: "u32 \<Rightarrow> u32 \<Rightarrow> string \<Rightarrow> buffer \<Rightarrow> buffer \<times> u32" where
  "snprintf offs sz s b =
     (if sz = 0 then b else put_chars (unat offs) (take (unat sz - 1) s @ [CHR 0x00]) b, of_nat (length s))"

fun print_names :: "u32 \<Rightarrow> string list \<Rightarrow> u32 \<Rightarrow> buffer \<Rightarrow> buffer" where
  "print_names maxlen [] offs b = b"
| "print_names maxlen (name # names) offs b =
     (let (b, n) = snprintf offs (maxlen - offs) ((if offs = 0 then '''' else '' '') @ name) b
      in print_names maxlen names (offs + n) b)"

definition tcp_get_available_congestion_control :: "u32 \<Rightarrow> 'ca registry \<Rightarrow> buffer \<Rightarrow> buffer option" where
  "tcp_get_available_congestion_control maxlen r b = do {
     ns \<leftarrow> list_for_each_entry_rcu (links r);
     Some (print_names maxlen (map (ct_name \<circ> tables r) ns) 0 b)
   }"

definition tcp_get_allowed_congestion_control :: "u32 \<Rightarrow> 'ca registry \<Rightarrow> buffer \<Rightarrow> buffer option" where
  "tcp_get_allowed_congestion_control maxlen r b = do {
     ns \<leftarrow> list_for_each_entry_rcu (links r);
     Some (print_names maxlen
       (map (ct_name \<circ> tables r) (filter (\<lambda>n. ct_flags (tables r n) AND TCP_CONG_NON_RESTRICTED \<noteq> 0) ns))
       0 (put_chars 0 [CHR 0x00] b))
   }"

text \<open>\<open>strncpy\<close> copies up to 16 characters and pads with nulls. On an empty list the code would read the list
  head as a table, so the model gives \<open>None\<close>.\<close>

definition tcp_get_default_congestion_control :: "'ca registry \<Rightarrow> buffer \<Rightarrow> buffer option" where
  "tcp_get_default_congestion_control r b =
     (case link_next (links r) List_Head of
        List_Head \<Rightarrow> None
      | Ops n \<Rightarrow> Some (put_chars 0 (take 16 (ct_name (tables r n) @ replicate 16 (CHR 0x00))) b))"

subsection \<open>The module of a socket\<close>

text \<open>The macros \<open>try_module_get\<close> and \<open>capable\<close> of \<open>ns-linux-c.h\<close> are the constants 0 and 1. A socket
  refers to its module by address, 0 being the null pointer; \<open>None\<close> is also the call of an operation
  through the null pointer.\<close>

definition try_module_get :: bool where "try_module_get = False"
definition capable :: bool where "capable = True"

definition call_op ::
  "('ca cong_table \<Rightarrow> ('ca sock \<Rightarrow> 'ca sock option) option) \<Rightarrow> 'ca registry \<Rightarrow> 'ca sock \<Rightarrow> 'ca sock option" where
  "call_op op r sk =
     (if icsk_ca_ops (fst sk) = 0 then None
      else case op (tables r (icsk_ca_ops (fst sk))) of None \<Rightarrow> Some sk | Some f \<Rightarrow> f sk)"

text \<open>The loop of \<open>tcp_init_congestion_control\<close> takes the first table whose module can be held.\<close>

fun first_held :: "nat list \<Rightarrow> nat \<Rightarrow> nat" where
  "first_held [] cur = cur"
| "first_held (n # ns) cur = (if try_module_get then n else first_held ns cur)"

definition tcp_init_congestion_control :: "nat \<Rightarrow> 'ca registry \<Rightarrow> 'ca sock \<Rightarrow> 'ca sock option" where
  "tcp_init_congestion_control init_ops r sk = do {
     sk \<leftarrow> (if icsk_ca_ops (fst sk) = init_ops
            then do {
              ns \<leftarrow> list_for_each_entry_rcu (links r);
              Some ((fst sk)\<lparr>icsk_ca_ops := first_held ns (icsk_ca_ops (fst sk))\<rparr>, snd sk)
            }
            else Some sk);
     call_op ct_init r sk
   }"

definition tcp_cleanup_congestion_control :: "'ca registry \<Rightarrow> 'ca sock \<Rightarrow> 'ca sock option" where
  "tcp_cleanup_congestion_control r sk = call_op ct_release r sk"

definition tcp_set_congestion_control ::
  "string \<Rightarrow> 'ca registry \<Rightarrow> 'ca sock \<Rightarrow> (errno + 'ca sock) option" where
  "tcp_set_congestion_control name r sk = do {
     e \<leftarrow> tcp_ca_find name r;
     let ca = (case e of None \<Rightarrow> 0 | Some n \<Rightarrow> n);
     if ca = icsk_ca_ops (fst sk) then Some (Inr sk)
     else if ca = 0 then Some (Inl ENOENT)
     else if \<not> (ct_flags (tables r ca) AND TCP_CONG_NON_RESTRICTED \<noteq> 0 \<or> capable) then Some (Inl EPERM)
     else if \<not> try_module_get then Some (Inl EBUSY)
     else do {
       sk \<leftarrow> tcp_cleanup_congestion_control r sk;
       let sk = ((fst sk)\<lparr>icsk_ca_ops := ca\<rparr>, snd sk);
       sk \<leftarrow> (if sk_state (fst sk) \<noteq> 0 then call_op ct_init r sk else Some sk);
       Some (Inr sk)
     }
   }"

subsection \<open>The abstract catalogue\<close>

text \<open>What the registry promises: a list of names, the default first, each with the mark that it is allowed.\<close>

type_synonym catalogue = "(string \<times> bool) list"

definition allowed :: "'ca registry \<Rightarrow> nat \<Rightarrow> bool" where
  "allowed r n \<longleftrightarrow> ct_flags (tables r n) AND TCP_CONG_NON_RESTRICTED \<noteq> 0"

definition has_required :: "'ca registry \<Rightarrow> nat \<Rightarrow> bool" where
  "has_required r n \<longleftrightarrow> ct_ssthresh (tables r n) \<noteq> None \<and> ct_cong_avoid (tables r n) \<noteq> None"

definition registry_ok :: "'ca registry \<Rightarrow> nat list \<Rightarrow> bool" where
  "registry_ok r ns \<longleftrightarrow>
     represents (links r) ns \<and> distinct (map (\<lambda>n. ct_name (tables r n)) ns) \<and> (\<forall>n \<in> set ns. has_required r n)"

definition catalogue_of :: "'ca registry \<Rightarrow> nat list \<Rightarrow> catalogue" where
  "catalogue_of r ns = map (\<lambda>n. (ct_name (tables r n), allowed r n)) ns"

definition refines :: "'ca registry \<Rightarrow> catalogue \<Rightarrow> bool" where
  "refines r c \<longleftrightarrow> (\<exists>ns. registry_ok r ns \<and> c = catalogue_of r ns)"

fun refines_result :: "(errno + 'ca registry) option \<Rightarrow> errno + catalogue \<Rightarrow> bool" where
  "refines_result (Some (Inl e)) (Inl e') = (e = e')"
| "refines_result (Some (Inr r)) (Inr c) = refines r c"
| "refines_result _ _ = False"

definition spec_register :: "bool \<Rightarrow> string \<Rightarrow> bool \<Rightarrow> catalogue \<Rightarrow> errno + catalogue" where
  "spec_register complete name a c =
     (if \<not> complete then Inl EINVAL else if name \<in> fst ` set c then Inl EEXIST else Inr (c @ [(name, a)]))"

definition spec_unregister :: "string \<Rightarrow> catalogue \<Rightarrow> catalogue" where
  "spec_unregister name c = filter (\<lambda>e. fst e \<noteq> name) c"

definition spec_default :: "string \<Rightarrow> catalogue \<Rightarrow> errno + catalogue" where
  "spec_default name c =
     (if name \<in> fst ` set c then Inr ((name, True) # spec_unregister name c) else Inl ENOENT)"

definition spec_allow :: "string list \<Rightarrow> catalogue \<Rightarrow> errno + catalogue" where
  "spec_allow names c =
     (if set names \<subseteq> fst ` set c then Inr (map (\<lambda>e. (fst e, fst e \<in> set names)) c) else Inl ENOENT)"

subsection \<open>The operations refine the catalogue\<close>

lemma ca_find_from_segment:
  "segment (links r) p ns List_Head \<Longrightarrow>
   ca_find_from r name (link_next (links r) p) = Some (find (\<lambda>n. ct_name (tables r n) = name) ns)"
proof (induction ns arbitrary: p)
  case Nil
  then show ?case by (subst ca_find_from.simps) simp
next
  case (Cons n ns)
  then show ?case by (subst ca_find_from.simps) simp
qed

lemma ca_find_represents:
  assumes "represents (links r) ns"
  shows "tcp_ca_find name r = Some (find (\<lambda>n. ct_name (tables r n) = name) ns)"
  using assms by (simp add: tcp_ca_find_def represents_def ca_find_from_segment)

lemma find_name_None_iff: "find (\<lambda>n. f n = k) ns = None \<longleftrightarrow> k \<notin> f ` set ns"
  by (auto simp: find_None_iff)

lemma find_name_SomeD: "find (\<lambda>n. f n = k) ns = Some n \<Longrightarrow> n \<in> set ns \<and> f n = k"
  by (auto simp: find_Some_iff)

lemma find_name_eq:
  assumes "distinct (map f ns)" "n \<in> set ns"
  shows "find (\<lambda>m. f m = f n) ns = Some n"
  using assms by (induction ns) auto

lemma filter_name_remove1:
  assumes "distinct (map f ns)" "n \<in> set ns"
  shows "filter (\<lambda>m. f m \<noteq> f n) ns = remove1 n ns"
  using assms
proof (induction ns)
  case (Cons m ns)
  then show ?case by (cases "n = m") (auto simp: filter_id_conv, metis imageI)
qed simp

lemma allow_bit: "(f OR 1 :: u32) AND 1 \<noteq> 0"
  by (simp add: bit.conj_disj_distrib2)

lemma restrict_bit: "(f AND - 2 :: u32) AND 1 = 0"
  by (simp add: and.assoc)

lemma set_flags_simps [simp]:
  "links (set_flags n f r) = links r"
  "ct_name (tables (set_flags n f r) m) = ct_name (tables r m)"
  "ct_ssthresh (tables (set_flags n f r) m) = ct_ssthresh (tables r m)"
  "ct_cong_avoid (tables (set_flags n f r) m) = ct_cong_avoid (tables r m)"
  "has_required (set_flags n f r) m = has_required r m"
  by (simp_all add: set_flags_def has_required_def)

lemma allow_simps [simp]:
  "links (allow n r) = links r" "ct_name (tables (allow n r) m) = ct_name (tables r m)"
  "has_required (allow n r) m = has_required r m"
  "links (restrict n r) = links r" "ct_name (tables (restrict n r) m) = ct_name (tables r m)"
  "has_required (restrict n r) m = has_required r m"
  by (simp_all add: allow_def restrict_def)

lemma allowed_allow [simp]: "allowed (allow n r) m \<longleftrightarrow> m = n \<or> allowed r m"
  by (simp add: allowed_def allow_def set_flags_def allow_bit)

lemma allowed_restrict [simp]: "allowed (restrict n r) m \<longleftrightarrow> m \<noteq> n \<and> allowed r m"
  by (simp add: allowed_def restrict_def set_flags_def restrict_bit)

text \<open>Flags do not matter for lookup, and nothing but flags changes in the passes of \<open>set_allowed\<close>.\<close>

definition same_tables :: "'ca registry \<Rightarrow> 'ca registry \<Rightarrow> bool" where
  "same_tables r r' \<longleftrightarrow> links r' = links r \<and>
     (\<forall>n. ct_name (tables r' n) = ct_name (tables r n) \<and> has_required r' n = has_required r n)"

lemma same_tables_refl: "same_tables r r"
  by (simp add: same_tables_def)

lemma same_tables_trans: "same_tables r r' \<Longrightarrow> same_tables r' r'' \<Longrightarrow> same_tables r r''"
  by (simp add: same_tables_def)

lemma same_tables_flags: "same_tables r (allow n r)" "same_tables r (restrict n r)"
  by (simp_all add: same_tables_def allow_def restrict_def)

lemma registry_ok_same: "same_tables r r' \<Longrightarrow> registry_ok r ns \<Longrightarrow> registry_ok r' ns"
  by (simp add: registry_ok_def same_tables_def)

lemma known_names_eq:
  assumes "represents (links r) ns"
  shows "known_names names r = Some (set names \<subseteq> (\<lambda>n. ct_name (tables r n)) ` set ns)"
proof (induction names)
  case (Cons name names)
  show ?case
    using Cons find_name_None_iff [of "\<lambda>n. ct_name (tables r n)" name ns]
    by (auto simp: ca_find_represents [OF assms])
qed simp

lemma fold_restrict:
  "same_tables r (fold restrict ns r) \<and> (\<forall>n. allowed (fold restrict ns r) n \<longleftrightarrow> n \<notin> set ns \<and> allowed r n)"
proof (induction ns arbitrary: r)
  case (Cons m ns)
  then show ?case using same_tables_trans [OF same_tables_flags(2) [of r m]] by auto
qed (simp add: same_tables_refl)

lemma allow_names_eq:
  assumes "registry_ok r ns"
  shows "\<exists>r'. allow_names names r = Some r' \<and> same_tables r r' \<and>
    (\<forall>n \<in> set ns. allowed r' n \<longleftrightarrow> allowed r n \<or> ct_name (tables r n) \<in> set names)"
  using assms
proof (induction names arbitrary: r)
  case Nil
  then show ?case by (simp add: same_tables_refl)
next
  case (Cons name names)
  let ?nm = "\<lambda>n. ct_name (tables r n)"
  have find: "tcp_ca_find name r = Some (find (\<lambda>n. ?nm n = name) ns)"
    using Cons.prems by (simp add: registry_ok_def ca_find_represents)
  show ?case
  proof (cases "find (\<lambda>n. ?nm n = name) ns")
    case None
    then have "name \<notin> ?nm ` set ns" by (simp add: find_name_None_iff)
    then show ?thesis using Cons.IH [OF Cons.prems] None find by auto
  next
    case (Some ca)
    then have ca: "ca \<in> set ns" "?nm ca = name" by (auto dest: find_name_SomeD)
    have same: "same_tables r (allow ca r)" by (rule same_tables_flags)
    obtain r' where r': "allow_names names (allow ca r) = Some r'" "same_tables (allow ca r) r'"
      "\<forall>n \<in> set ns. allowed r' n \<longleftrightarrow> (n = ca \<or> allowed r n) \<or> ?nm n \<in> set names"
      using Cons.IH [OF registry_ok_same [OF same Cons.prems]] same by (auto simp: same_tables_def)
    have "n = ca \<longleftrightarrow> ?nm n = name" if "n \<in> set ns" for n
      using that ca Cons.prems by (auto simp: registry_ok_def distinct_map dest: inj_onD)
    then show ?thesis using r' same_tables_trans [OF same r'(2)] Some find by auto
  qed
qed

lemma catalogue_names [simp]: "fst ` set (catalogue_of r ns) = (\<lambda>n. ct_name (tables r n)) ` set ns"
  by (force simp: catalogue_of_def)

lemma set_allowed_refines:
  assumes "registry_ok r ns"
  shows "refines_result (tcp_set_allowed_congestion_control True val r)
    (spec_allow (field_names (Some val)) (catalogue_of r ns))"
proof (cases "set (field_names (Some val)) \<subseteq> (\<lambda>n. ct_name (tables r n)) ` set ns")
  case False
  then show ?thesis
    using assms known_names_eq [of r ns]
    by (simp add: tcp_set_allowed_congestion_control_def registry_ok_def spec_allow_def)
next
  case True
  let ?r1 = "fold restrict ns r"
  have walk: "list_for_each_entry_rcu (links r) = Some ns" and rep: "represents (links r) ns"
    using assms by (simp_all add: registry_ok_def walk_represents)
  have clear: "same_tables r ?r1" "\<forall>n \<in> set ns. \<not> allowed ?r1 n" using fold_restrict [of r ns] by auto
  obtain r' where r': "allow_names (field_names (Some val)) ?r1 = Some r'" "same_tables ?r1 r'"
    "\<forall>n \<in> set ns. allowed r' n \<longleftrightarrow> ct_name (tables r n) \<in> set (field_names (Some val))"
    using allow_names_eq [OF registry_ok_same [OF clear(1) assms], of "field_names (Some val)"] clear
    by (auto simp: same_tables_def)
  have same: "same_tables r r'" by (rule same_tables_trans [OF clear(1) r'(2)])
  have "tcp_set_allowed_congestion_control True val r = Some (Inr r')"
    using r' True walk known_names_eq [OF rep] by (simp add: tcp_set_allowed_congestion_control_def)
  moreover have "map (\<lambda>e. (fst e, fst e \<in> set (field_names (Some val)))) (catalogue_of r ns) = catalogue_of r' ns"
    using r'(3) same by (simp add: catalogue_of_def same_tables_def)
  ultimately show ?thesis
    using True registry_ok_same [OF same assms] by (auto simp: spec_allow_def refines_def)
qed

lemma register_refines:
  assumes "registry_ok r ns"
  shows "refines_result (tcp_register_congestion_control ca r)
    (spec_register (has_required r ca) (ct_name (tables r ca)) (allowed r ca) (catalogue_of r ns))"
proof (cases "has_required r ca \<and> ct_name (tables r ca) \<notin> (\<lambda>n. ct_name (tables r n)) ` set ns")
  case False
  then show ?thesis
    using assms ca_find_represents [of r ns] find_name_None_iff [of "\<lambda>n. ct_name (tables r n)" "ct_name (tables r ca)" ns]
    by (auto simp: tcp_register_congestion_control_def registry_ok_def spec_register_def has_required_def)
next
  case True
  let ?r' = "r\<lparr>links := list_add_tail_rcu (Ops ca) (links r)\<rparr>"
  have "tcp_register_congestion_control ca r = Some (Inr ?r')"
    using True assms ca_find_represents [of r ns]
      find_name_None_iff [of "\<lambda>n. ct_name (tables r n)" "ct_name (tables r ca)" ns]
    by (auto simp: tcp_register_congestion_control_def registry_ok_def has_required_def)
  moreover have "registry_ok ?r' (ns @ [ca])"
    using True assms represents_add_tail [of "links r" ns ca] by (auto simp: registry_ok_def has_required_def)
  moreover have "catalogue_of ?r' (ns @ [ca]) = catalogue_of r ns @ [(ct_name (tables r ca), allowed r ca)]"
    by (simp add: catalogue_of_def allowed_def)
  ultimately show ?thesis using True by (auto simp: spec_register_def refines_def)
qed

lemma spec_unregister_catalogue:
  assumes "registry_ok r ns" "n \<in> set ns"
  shows "spec_unregister (ct_name (tables r n)) (catalogue_of r ns) = catalogue_of r (remove1 n ns)"
  using filter_name_remove1 [of "\<lambda>m. ct_name (tables r m)" ns n] assms
  by (simp add: spec_unregister_def catalogue_of_def registry_ok_def filter_map comp_def)

lemma unregister_refines:
  assumes "registry_ok r ns" "n \<in> set ns"
  shows "refines (tcp_unregister_congestion_control n r) (spec_unregister (ct_name (tables r n)) (catalogue_of r ns))"
proof -
  let ?r' = "tcp_unregister_congestion_control n r"
  have "registry_ok ?r' (remove1 n ns)"
    using assms represents_del [of "links r" ns n]
    by (auto simp: registry_ok_def tcp_unregister_congestion_control_def has_required_def distinct_map
        dest: notin_set_remove1 intro: inj_on_subset set_remove1_subset)
  moreover have "catalogue_of ?r' (remove1 n ns) = catalogue_of r (remove1 n ns)"
    by (simp add: catalogue_of_def allowed_def tcp_unregister_congestion_control_def)
  ultimately show ?thesis using spec_unregister_catalogue [OF assms] by (auto simp: refines_def)
qed

lemma default_refines:
  assumes "registry_ok r ns"
  shows "refines_result (tcp_set_default_congestion_control name r) (spec_default name (catalogue_of r ns))"
proof (cases "find (\<lambda>n. ct_name (tables r n) = name) ns")
  case None
  then show ?thesis
    using assms ca_find_represents [of r ns name] find_name_None_iff [of "\<lambda>n. ct_name (tables r n)" name ns]
    by (simp add: tcp_set_default_congestion_control_def registry_ok_def spec_default_def)
next
  case (Some ca)
  then have ca: "ca \<in> set ns" "ct_name (tables r ca) = name" by (auto dest: find_name_SomeD)
  let ?r' = "(allow ca r)\<lparr>links := list_move (Ops ca) (links r)\<rparr>" and ?ns = "remove1 ca ns"
  have result: "tcp_set_default_congestion_control name r = Some (Inr ?r')"
    using assms ca_find_represents [of r ns name] Some
    by (simp add: tcp_set_default_congestion_control_def registry_ok_def allow_def)
  have names: "ct_name (tables ?r' n) = ct_name (tables r n)" "has_required ?r' n = has_required r n"
    "allowed ?r' n \<longleftrightarrow> n = ca \<or> allowed r n" for n
    using allowed_allow [of ca r n] by (simp_all add: allow_def has_required_def allowed_def set_flags_def)
  have dist: "distinct (map (\<lambda>n. ct_name (tables r n)) ns)" "distinct ns"
    using assms by (simp_all add: registry_ok_def distinct_map)
  have "ca \<notin> set ?ns" using dist by simp
  have "registry_ok ?r' (ca # ?ns)"
    unfolding registry_ok_def
  proof (intro conjI)
    show "represents (links ?r') (ca # ?ns)"
      using assms ca represents_move [of "links r" ns ca] by (simp add: registry_ok_def)
    have "distinct (map (\<lambda>n. ct_name (tables r n)) (ca # ?ns))"
      using dist ca by (auto simp: distinct_map dest: inj_onD intro: inj_on_subset)
    then show "distinct (map (\<lambda>n. ct_name (tables ?r' n)) (ca # ?ns))" by (simp only: names)
    show "\<forall>n \<in> set (ca # ?ns). has_required ?r' n"
      using assms ca set_remove1_subset [of ca ns] by (auto simp: names registry_ok_def)
  qed
  moreover have "catalogue_of ?r' (ca # ?ns) = (name, True) # catalogue_of r ?ns"
    using \<open>ca \<notin> set ?ns\<close> ca(2) by (auto simp: catalogue_of_def names)
  moreover have "name \<in> (\<lambda>n. ct_name (tables r n)) ` set ns" using ca by auto
  ultimately have "refines ?r' ((name, True) # spec_unregister name (catalogue_of r ns))"
    using spec_unregister_catalogue [OF assms ca(1)] ca(2) by (auto simp: refines_def)
  then show ?thesis using result \<open>name \<in> _\<close> by (simp add: spec_default_def)
qed

lemma registry_ok_links:
  assumes "registry_ok r ns" "link_next l = link_next (links r)" "link_prev l = link_prev (links r)"
  shows "registry_ok (r\<lparr>links := l\<rparr>) ns"
  using assms represents_frame [of "links r" ns l] by (simp add: registry_ok_def has_required_def)

subsection \<open>The printed list\<close>

text \<open>The names with a space between them; an empty name at the start leaves no trace.\<close>

fun joined :: "string \<Rightarrow> string list \<Rightarrow> string" where
  "joined s [] = s"
| "joined s (name # names) = joined (s @ (if s = [] then '''' else '' '') @ name) names"

lemma joined_append: "joined s (xs @ ys) = joined (joined s xs) ys"
  by (induction xs arbitrary: s) auto

lemma length_joined: "length s \<le> length (joined s names)"
proof (induction names arbitrary: s)
  case (Cons name names)
  show ?case using Cons [of "s @ (if s = [] then '''' else '' '') @ name"] by simp
qed simp

lemma joined_prefix: "i < length s \<Longrightarrow> joined s names ! i = s ! i"
proof (induction names arbitrary: s)
  case (Cons name names)
  show ?case using Cons.IH [of "s @ (if s = [] then '''' else '' '') @ name"] Cons.prems by (simp add: nth_append)
qed simp

lemma put_chars_apply: "put_chars a cs b i = (if a \<le> i \<and> i < a + length cs then Some (cs ! (i - a)) else b i)"
  by (simp add: put_chars_def)

text \<open>One step of the loop, from an offset that does not wrap.\<close>

lemma print_names_step:
  assumes "length s < 2 ^ 32"
  shows "print_names maxlen (name # names) (of_nat (length s)) b =
    (let t = (if s = [] then '''' else '' '') @ name
     in print_names maxlen names (of_nat (length (s @ t)))
          (fst (snprintf (of_nat (length s)) (maxlen - of_nat (length s)) t b)))"
proof -
  have "unat (of_nat (length s) :: u32) = length s" using assms by (simp add: unat_of_nat)
  then have "(of_nat (length s) :: u32) = 0 \<longleftrightarrow> s = []" by (metis length_0_conv unat_eq_zero)
  then show ?thesis by (simp add: snprintf_def Let_def)
qed

lemma print_names_fit:
  assumes "length (joined s names) < unat maxlen"
  shows "print_names maxlen names (of_nat (length s)) b i =
    (if length s \<le> i \<and> i < length (joined s names) then Some (joined s names ! i)
     else if i = length (joined s names) \<and> names \<noteq> [] then Some (CHR 0x00) else b i)"
  using assms
proof (induction names arbitrary: s b)
  case (Cons name names)
  define t where "t = (if s = [] then '''' else '' '') @ name"
  have J: "joined s (name # names) = joined (s @ t) names" by (simp add: t_def)
  have len: "length (s @ t) \<le> length (joined (s @ t) names)" by (rule length_joined)
  have small: "length s + length t < unat maxlen" using Cons.prems len J by simp
  have s: "length s < 2 ^ 32" using small unat_lt_u32 [of maxlen] by simp
  have off: "unat (of_nat (length s) :: u32) = length s" using s by (simp add: unat_of_nat)
  have room: "unat (maxlen - of_nat (length s)) = unat maxlen - length s"
    using small off by (simp add: unat_sub_le word_le_nat_alt)
  then have "maxlen - of_nat (length s) \<noteq> 0" using small by (metis add_lessD1 unat_0 zero_less_diff less_irrefl)
  then have step: "fst (snprintf (of_nat (length s)) (maxlen - of_nat (length s)) t b) =
      put_chars (length s) (t @ [CHR 0x00]) b"
    using room off small by (simp add: snprintf_def)
  have prefix: "joined (s @ t) names ! j = (s @ t) ! j" if "j < length s + length t" for j
    using that by (intro joined_prefix) simp
  have "print_names maxlen (name # names) (of_nat (length s)) b =
      print_names maxlen names (of_nat (length (s @ t))) (put_chars (length s) (t @ [CHR 0x00]) b)"
    unfolding print_names_step [OF s] step [symmetric] by (simp add: t_def Let_def)
  moreover have "print_names maxlen names (of_nat (length (s @ t))) (put_chars (length s) (t @ [CHR 0x00]) b) i =
      (if length (s @ t) \<le> i \<and> i < length (joined (s @ t) names) then Some (joined (s @ t) names ! i)
       else if i = length (joined (s @ t) names) \<and> names \<noteq> [] then Some (CHR 0x00)
       else put_chars (length s) (t @ [CHR 0x00]) b i)"
    by (rule Cons.IH) (use Cons.prems J in simp)
  ultimately have "print_names maxlen (name # names) (of_nat (length s)) b i =
      (if length (s @ t) \<le> i \<and> i < length (joined (s @ t) names) then Some (joined (s @ t) names ! i)
       else if i = length (joined (s @ t) names) \<and> names \<noteq> [] then Some (CHR 0x00)
       else put_chars (length s) (t @ [CHR 0x00]) b i)"
    by (simp only:)
  then show ?case
    using len prefix [of i] unfolding J by (cases names) (auto simp: put_chars_apply nth_append simp del: print_names.simps)
qed auto

text \<open>When all names but the last already pass the end of the buffer, the size that is left has wrapped
  around, and the last one is written behind it.\<close>

lemma print_names_length:
  "length (joined s names) < 2 ^ 32 \<Longrightarrow>
   print_names maxlen (names @ [name]) (of_nat (length s)) b =
   (let offs = of_nat (length (joined s names))
    in fst (snprintf offs (maxlen - offs) ((if joined s names = [] then '''' else '' '') @ name)
         (print_names maxlen names (of_nat (length s)) b)))"
proof (induction names arbitrary: s b)
  case Nil
  then show ?case by (simp add: print_names_step Let_def del: print_names.simps(2))
next
  case (Cons m names)
  define t where "t = (if s = [] then '''' else '' '') @ m"
  have J: "joined s (m # names) = joined (s @ t) names" by (simp add: t_def)
  have s: "length s < 2 ^ 32" using Cons.prems length_joined [of s "m # names"] by simp
  show ?case
    unfolding append_Cons print_names_step [OF s] t_def [symmetric] Let_def J
    using Cons.IH [of "s @ t"] Cons.prems J by (simp add: Let_def del: print_names.simps)
qed

lemma print_names_overflow:
  assumes "unat maxlen < length (joined [] names)" "length (joined [] names) < 2 ^ 32"
  shows "print_names maxlen (names @ [name]) 0 b (length (joined [] names)) \<noteq> None"
proof -
  define offs :: u32 where "offs = of_nat (length (joined [] names))"
  have offs: "unat offs = length (joined [] names)" using assms(2) by (simp add: offs_def unat_of_nat)
  then have "maxlen - offs \<noteq> 0" using assms(1) by auto
  then show ?thesis
    using print_names_length [OF assms(2), of maxlen name b] offs offs_def
    by (simp add: Let_def snprintf_def put_chars_apply del: print_names.simps)
qed

subsection \<open>Properties\<close>

text \<open>
  C37. The registry refines a catalogue, a list of distinct names with a mark for the allowed ones. On links that
  represent a list of complete tables with distinct names, every operation on the doubly linked list returns, and
  returns what the catalogue does: registration appends a new name and fails with \<open>EINVAL\<close> on an incomplete
  table and with \<open>EEXIST\<close> on a known name; the default is moved to the front and becomes allowed, an unknown
  one fails with \<open>ENOENT\<close>; the allowed names replace the old ones, and one unknown name leaves all flags
  as they were; a removed table leaves the list.
\<close>

theorem cong_registry_refines:
  assumes "registry_ok r ns"
  shows "refines_result (tcp_register_congestion_control n r)
      (spec_register (has_required r n) (ct_name (tables r n)) (allowed r n) (catalogue_of r ns)) \<and>
    refines_result (tcp_set_default_congestion_control name r) (spec_default name (catalogue_of r ns)) \<and>
    refines_result (tcp_set_allowed_congestion_control True val r)
      (spec_allow (field_names (Some val)) (catalogue_of r ns)) \<and>
    (if n \<in> set ns
     then refines (tcp_unregister_congestion_control n r) (spec_unregister (ct_name (tables r n)) (catalogue_of r ns))
     else True)"
  using register_refines [OF assms] default_refines [OF assms] set_allowed_refines [OF assms]
    unregister_refines [OF assms] by simp

text \<open>Four complete tables and a registry with the first two of them.\<close>

definition example_tables :: "nat \<Rightarrow> unit cong_table" where
  "example_tables n =
     \<lparr>ct_name = (if n = 1 then ''reno'' else if n = 2 then ''vegas'' else if n = 3 then ''cubic'' else ''vegas''),
      ct_flags = 0, ct_init = None, ct_release = None,
      ct_ssthresh = Some (\<lambda>sk. Some (2, sk)), ct_cong_avoid = Some (\<lambda>ack rtt in_flight flag sk. Some sk)\<rparr>"

definition example_registry :: "unit registry" where
  "example_registry =
     \<lparr>links = list_add_tail_rcu (Ops 2) (list_add_tail_rcu (Ops 1) ns_tcp_cong_list), tables = example_tables\<rparr>"

lemma example_registry_ok: "registry_ok example_registry [1, 2]"
  using represents_add_tail [OF represents_add_tail [OF represents_empty, of 1], of 2]
  by (simp add: registry_ok_def example_registry_def example_tables_def has_required_def)

theorem cong_registry_refines_witness:
  "refines_result (tcp_register_congestion_control 3 example_registry)
     (Inr [(''reno'', False), (''vegas'', False), (''cubic'', False)]) \<and>
   refines_result (tcp_set_default_congestion_control ''vegas'' example_registry) (Inr [(''vegas'', True), (''reno'', False)])"
  using cong_registry_refines [OF example_registry_ok, of 3 "''vegas''"]
  by (simp add: spec_register_def spec_default_def spec_unregister_def catalogue_of_def allowed_def has_required_def
      example_registry_def example_tables_def)

text \<open>
  \<open>tcp_set_congestion_control\<close> never changes the module of a socket: as \<open>try_module_get\<close> is the
  constant 0 in this build, a request for another registered module fails with \<open>EBUSY\<close>, an unknown name with
  \<open>ENOENT\<close>, and only a request for the module already in use succeeds; \<open>tcp_init_congestion_control\<close> likewise
  leaves the initial module in place.
\<close>

theorem set_congestion_control_busy:
  assumes "registry_ok r ns" "0 \<notin> set ns" "icsk_ca_ops (fst sk) \<noteq> 0"
  shows "tcp_set_congestion_control name r sk =
      Some (case find (\<lambda>n. ct_name (tables r n) = name) ns of
              None \<Rightarrow> Inl ENOENT
            | Some n \<Rightarrow> if n = icsk_ca_ops (fst sk) then Inr sk else Inl EBUSY) \<and>
    tcp_init_congestion_control init_ops r sk = call_op ct_init r sk"
proof -
  have rep: "represents (links r) ns" using assms(1) by (simp add: registry_ok_def)
  have "first_held ms cur = cur" for ms cur by (induction ms) (simp_all add: try_module_get_def)
  moreover have "((fst sk)\<lparr>icsk_ca_ops := icsk_ca_ops (fst sk)\<rparr>, snd sk) = sk" by simp
  ultimately have "tcp_init_congestion_control init_ops r sk = call_op ct_init r sk"
    using walk_represents [OF rep] by (auto simp: tcp_init_congestion_control_def)
  moreover have "n \<noteq> 0" if "find (\<lambda>n. ct_name (tables r n) = name) ns = Some n" for n
    using find_name_SomeD [OF that] assms(2) by metis
  then have "tcp_set_congestion_control name r sk =
      Some (case find (\<lambda>n. ct_name (tables r n) = name) ns of
              None \<Rightarrow> Inl ENOENT
            | Some n \<Rightarrow> if n = icsk_ca_ops (fst sk) then Inr sk else Inl EBUSY)"
    using ca_find_represents [OF rep, of name] assms(3)
    by (auto simp: tcp_set_congestion_control_def capable_def try_module_get_def split: option.splits)
  ultimately show ?thesis by blast
qed

definition example_socket :: "unit sock" where
  "example_socket =
     (\<lparr>sk_state = 1, snd_nxt = 0, snd_una = 0, mss_cache = 1000, srtt = 0,
       rx_opt = \<lparr>rcv_tsval = 0, rcv_tsecr = 0, saw_tstamp = False\<rparr>, snd_ssthresh = 2, snd_cwnd = 2, snd_cwnd_cnt = 0,
       snd_cwnd_clamp = 20, snd_cwnd_stamp = 0, bytes_acked = 0, icsk_ca_ops = 1, icsk_ca_state = 0\<rparr>, ())"

theorem set_congestion_control_busy_witness:
  "tcp_set_congestion_control ''vegas'' example_registry example_socket = Some (Inl EBUSY) \<and>
   tcp_set_congestion_control ''bic'' example_registry example_socket = Some (Inl ENOENT)"
  using set_congestion_control_busy [OF example_registry_ok, of example_socket "''vegas''"]
    set_congestion_control_busy [OF example_registry_ok, of example_socket "''bic''"]
  by (simp add: example_registry_def example_tables_def example_socket_def)

text \<open>
  The printed list of modules. When the names with a space between them are shorter than the buffer, the buffer
  holds exactly them and a null character, and nothing else is written. But \<open>snprintf\<close> returns the length
  it would have needed: when the names before the last one are already longer than the buffer, the room that is left
  wraps around, and the last name is written behind the end of the buffer.
\<close>

theorem available_list_bounds:
  assumes "registry_ok r ns" "ns \<noteq> []" and names: "names = map (\<lambda>n. ct_name (tables r n)) ns"
    and "length (joined [] (butlast names)) < 2 ^ 32"
  shows "\<exists>b. tcp_get_available_congestion_control maxlen r Map.empty = Some b \<and>
    (if length (joined [] names) < unat maxlen
     then b = put_chars 0 (joined [] names @ [CHR 0x00]) Map.empty
     else if unat maxlen < length (joined [] (butlast names))
     then b (length (joined [] (butlast names))) \<noteq> None
     else True)"
proof -
  have print: "tcp_get_available_congestion_control maxlen r Map.empty = Some (print_names maxlen names 0 Map.empty)"
    using assms(1) walk_represents [of "links r" ns]
    by (simp add: tcp_get_available_congestion_control_def registry_ok_def names comp_def)
  moreover have "print_names maxlen names 0 Map.empty = put_chars 0 (joined [] names @ [CHR 0x00]) Map.empty"
    if fit: "length (joined [] names) < unat maxlen"
  proof
    fix i
    show "print_names maxlen names 0 Map.empty i = put_chars 0 (joined [] names @ [CHR 0x00]) Map.empty i"
      using print_names_fit [OF fit, of Map.empty i] assms(2) names
      by (auto simp: put_chars_apply nth_append less_Suc_eq)
  qed
  moreover have "names = butlast names @ [last names]" using assms(2) names by simp
  then have "print_names maxlen names 0 Map.empty (length (joined [] (butlast names))) \<noteq> None"
    if "unat maxlen < length (joined [] (butlast names))"
    using print_names_overflow [OF that assms(4), of "last names" Map.empty] by (simp only: HOL.not_False_eq_True)
  ultimately show ?thesis by simp
qed

theorem available_list_bounds_witness:
  "(\<exists>b. tcp_get_available_congestion_control 16 example_registry Map.empty = Some b \<and>
     b = put_chars 0 (''reno vegas'' @ [CHR 0x00]) Map.empty) \<and>
   (\<exists>b. tcp_get_available_congestion_control 3 example_registry Map.empty = Some b \<and> b (length ''reno'') \<noteq> None)"
  using available_list_bounds [OF example_registry_ok, of "[''reno'', ''vegas'']" 16]
    available_list_bounds [OF example_registry_ok, of "[''reno'', ''vegas'']" 3]
  by (simp_all add: example_registry_def example_tables_def)

end
