(* ===== verification/Cong_Manager.thy ===== *)
theory Cong_Manager
  imports Cong_Registry
begin

section \<open>Loading modules and the manager of the agent (\<open>tcp/tcp-linux.cc\<close>)\<close>

text \<open>
  The static initialisation loads the modules into the registry in an order that C++ leaves open, and the
  \<open>CongestionControlManager\<close> of the agent caches their list. The program is a step relation, \<open>live\<close>, and
  coherence of the cache its invariant; the locale \<open>catalog\<close> states what a client of registration relies on.
\<close>

subsection \<open>The manager of the agent (\<open>tcp/tcp-linux.cc\<close>)\<close>

text \<open>\<open>CongestionControlManager\<close> caches the list, behind the table of Reno, and scans again when a macro
  has marked the list as changed.\<close>

record manager =
  mgr_num :: nat
  mgr_ops_list :: "nat list"

definition manager_scan :: "nat \<Rightarrow> 'ca registry \<Rightarrow> (manager \<times> 'ca registry) option" where
  "manager_scan reno r = do {
     ns \<leftarrow> list_for_each_entry_rcu (links r);
     Some (\<lparr>mgr_num = 1 + length ns, mgr_ops_list = reno # ns\<rparr>,
           r\<lparr>links := (links r)\<lparr>cc_list_changed := False\<rparr>\<rparr>)
   }"

fun ops_by_name :: "'ca registry \<Rightarrow> string \<Rightarrow> nat list \<Rightarrow> nat \<Rightarrow> nat option" where
  "ops_by_name r name as 0 = None"
| "ops_by_name r name [] (Suc n) = None"
| "ops_by_name r name (a # as) (Suc n) = (if ct_name (tables r a) = name then Some a else ops_by_name r name as n)"

definition manager_get_ops ::
  "nat \<Rightarrow> string \<Rightarrow> manager \<Rightarrow> 'ca registry \<Rightarrow> (nat option \<times> manager \<times> 'ca registry) option" where
  "manager_get_ops reno name m r = do {
     (m, r) \<leftarrow> (if cc_list_changed (links r) then manager_scan reno r else Some (m, r));
     Some (ops_by_name r name (mgr_ops_list m) (mgr_num m), m, r)
   }"

subsection \<open>Runs of the registry and its manager\<close>

text \<open>The program as a transition system: the manager is constructed at some point of the static
  initialisation, before or after any module, and every operation may happen at any time.
  Only registered tables are removed, as nothing is known of the links of the others.\<close>

definition empty_registry :: "(nat \<Rightarrow> 'ca cong_table) \<Rightarrow> 'ca registry" where
  "empty_registry T = \<lparr>links = ns_tcp_cong_list, tables = T\<rparr>"

inductive live :: "nat \<Rightarrow> (nat \<Rightarrow> 'ca cong_table) \<Rightarrow> manager option \<times> 'ca registry \<Rightarrow> bool"
  for reno :: nat and T :: "nat \<Rightarrow> 'ca cong_table" where
  start: "live reno T (None, empty_registry T)"
| boot: "live reno T (None, r) \<Longrightarrow> manager_scan reno r = Some (m, r') \<Longrightarrow> live reno T (Some m, r')"
| load: "live reno T (mo, r) \<Longrightarrow> module_init n file r = Some r' \<Longrightarrow> live reno T (mo, r')"
| unload: "live reno T (mo, r) \<Longrightarrow> list_for_each_entry_rcu (links r) = Some ns \<Longrightarrow> n \<in> set ns \<Longrightarrow>
    live reno T (mo, tcp_unregister_congestion_control n r)"
| choose_default: "live reno T (mo, r) \<Longrightarrow> tcp_set_default_congestion_control name r = Some (Inr r') \<Longrightarrow>
    live reno T (mo, r')"
| choose_allowed: "live reno T (mo, r) \<Longrightarrow> tcp_set_allowed_congestion_control ok val r = Some (Inr r') \<Longrightarrow>
    live reno T (mo, r')"
| get: "live reno T (Some m, r) \<Longrightarrow> manager_get_ops reno name m r = Some (e, m', r') \<Longrightarrow> live reno T (Some m', r')"

inductive_cases liveE: "live reno T (mo, r)"

text \<open>The cache is the list unless the list is marked as changed.\<close>

definition cached :: "nat \<Rightarrow> manager option \<Rightarrow> bool \<Rightarrow> nat list \<Rightarrow> bool" where
  "cached reno mo changed ns \<longleftrightarrow>
     (case mo of None \<Rightarrow> True | Some m \<Rightarrow> changed \<or> mgr_ops_list m = reno # ns \<and> mgr_num m = 1 + length ns)"

definition coherent :: "nat \<Rightarrow> manager option \<times> 'ca registry \<Rightarrow> bool" where
  "coherent reno s \<longleftrightarrow>
     (\<exists>ns. registry_ok (snd s) ns \<and> cached reno (fst s) (cc_list_changed (links (snd s))) ns)"

lemma registry_ok_empty: "registry_ok (empty_registry T) []"
  by (simp add: registry_ok_def empty_registry_def represents_empty)

lemma scan_coherent:
  assumes "registry_ok r ns"
  shows "manager_scan reno r =
      Some (\<lparr>mgr_num = 1 + length ns, mgr_ops_list = reno # ns\<rparr>, r\<lparr>links := (links r)\<lparr>cc_list_changed := False\<rparr>\<rparr>)"
    and "registry_ok (r\<lparr>links := (links r)\<lparr>cc_list_changed := False\<rparr>\<rparr>) ns"
  using assms walk_represents [of "links r" ns] registry_ok_links [of r ns]
  by (simp_all add: manager_scan_def registry_ok_def)

lemma changed_coherent: "registry_ok r ns \<Longrightarrow> cc_list_changed (links r) \<Longrightarrow> coherent reno (mo, r)"
  by (auto simp: coherent_def cached_def split: option.splits)

text \<open>An operation keeps coherence when its result is in order and it either marks the list or leaves the links.\<close>

lemma refines_changed_coherent: "refines r c \<Longrightarrow> cc_list_changed (links r) \<Longrightarrow> coherent reno (mo, r)"
  by (auto simp: refines_def intro: changed_coherent)

lemma coherent_frame:
  assumes "coherent reno (mo, r)" "\<And>ns. registry_ok r ns \<Longrightarrow> registry_ok r' ns"
    and "cc_list_changed (links r') = cc_list_changed (links r)"
  shows "coherent reno (mo, r')"
  using assms unfolding coherent_def by auto

lemma coherent_links: "coherent reno (mo, r) \<Longrightarrow> same_tables r r' \<Longrightarrow> coherent reno (mo, r')"
  by (erule coherent_frame) (simp_all add: registry_ok_same, simp add: same_tables_def)

lemma file_name_coherent:
  "coherent reno (mo, r) \<Longrightarrow> coherent reno (mo, r\<lparr>links := set_linux_file_name f (links r)\<rparr>)"
  by (erule coherent_frame) (auto simp: set_linux_file_name_def intro!: registry_ok_links)

lemma load_coherent:
  assumes "coherent reno (mo, r)" "module_init n file r = Some r'"
  shows "coherent reno (mo, r')"
proof -
  obtain ns where ok: "registry_ok r ns" using assms(1) by (auto simp: coherent_def)
  obtain e where e: "tcp_register_congestion_control n r = Some e"
    "r' = (let r = (case e of Inl _ \<Rightarrow> r | Inr r' \<Rightarrow> r') in r\<lparr>links := set_linux_file_name file (links r)\<rparr>)"
    using assms(2) by (auto simp: module_init_def bind_eq_Some_conv Let_def)
  show ?thesis
  proof (cases e)
    case (Inl err)
    then show ?thesis using e(2) file_name_coherent [OF assms(1)] by simp
  next
    case (Inr r1)
    then have "refines r1 (catalogue_of r ns @ [(ct_name (tables r n), allowed r n)])"
      using register_refines [OF ok, of n] e(1) by (auto simp: spec_register_def split: if_splits)
    moreover have "cc_list_changed (links r1)"
      using e(1) Inr by (auto simp: tcp_register_congestion_control_def bind_eq_Some_conv split: if_splits)
    ultimately have "coherent reno (mo, r1)" by (rule refines_changed_coherent)
    then show ?thesis using Inr e(2) file_name_coherent by simp
  qed
qed

lemma default_coherent:
  assumes "coherent reno (mo, r)" "tcp_set_default_congestion_control name r = Some (Inr r')"
  shows "coherent reno (mo, r')"
proof -
  obtain ns where ok: "registry_ok r ns" using assms(1) by (auto simp: coherent_def)
  have "\<exists>c. refines r' c"
    using default_refines [OF ok, of name] assms(2) by (auto simp: spec_default_def split: if_splits)
  moreover have "cc_list_changed (links r')"
    using assms(2) by (auto simp: tcp_set_default_congestion_control_def bind_eq_Some_conv list_move_def split: option.splits)
  ultimately show ?thesis using refines_changed_coherent by blast
qed

lemma unload_coherent:
  assumes "coherent reno (mo, r)" "list_for_each_entry_rcu (links r) = Some ns" "n \<in> set ns"
  shows "coherent reno (mo, tcp_unregister_congestion_control n r)"
proof -
  obtain ns' where ok: "registry_ok r ns'" using assms(1) by (auto simp: coherent_def)
  then have "ns' = ns" using assms(2) walk_represents [of "links r" ns'] by (simp add: registry_ok_def)
  then show ?thesis
    using unregister_refines [of r ns n] ok assms(3) refines_changed_coherent
    by (fastforce simp: tcp_unregister_congestion_control_def)
qed

lemma allowed_coherent:
  assumes "coherent reno (mo, r)" "tcp_set_allowed_congestion_control ok val r = Some (Inr r')"
  shows "coherent reno (mo, r')"
proof -
  obtain ns where reg: "registry_ok r ns" using assms(1) by (auto simp: coherent_def)
  then have "list_for_each_entry_rcu (links r) = Some ns" by (simp add: registry_ok_def walk_represents)
  then obtain names where *: "allow_names names (fold restrict ns r) = Some r'"
    using assms(2) by (auto simp: tcp_set_allowed_congestion_control_def bind_eq_Some_conv split: if_splits)
  have same: "same_tables r (fold restrict ns r)" using fold_restrict by blast
  show ?thesis
    using allow_names_eq [OF registry_ok_same [OF same reg], of names] * same_tables_trans [OF same]
      coherent_links [OF assms(1)] by auto
qed

lemma get_ops_coherent:
  assumes "coherent reno (Some m, r)"
  shows "\<exists>ns m' r'. registry_ok r ns \<and> tables r' = tables r \<and>
    manager_get_ops reno name m r = Some (find (\<lambda>n. ct_name (tables r n) = name) (reno # ns), m', r') \<and>
    coherent reno (Some m', r')"
proof -
  have search: "ops_by_name r name as (length as) = find (\<lambda>n. ct_name (tables r n) = name) as"
    for r :: "'a registry" and as
    by (induction as) auto
  obtain ns where ns: "registry_ok r ns" "cached reno (Some m) (cc_list_changed (links r)) ns"
    using assms by (auto simp: coherent_def)
  show ?thesis
  proof (cases "cc_list_changed (links r)")
    case True
    define r' where "r' = r\<lparr>links := (links r)\<lparr>cc_list_changed := False\<rparr>\<rparr>"
    have "coherent reno (Some \<lparr>mgr_num = 1 + length ns, mgr_ops_list = reno # ns\<rparr>, r')"
      using scan_coherent(2) [OF ns(1)] by (auto simp: coherent_def cached_def r'_def)
    moreover have "tables r' = tables r" by (simp add: r'_def)
    moreover have "manager_get_ops reno name m r =
        Some (find (\<lambda>n. ct_name (tables r n) = name) (reno # ns), \<lparr>mgr_num = 1 + length ns, mgr_ops_list = reno # ns\<rparr>, r')"
      using True scan_coherent(1) [OF ns(1), of reno] search [of r' "reno # ns"]
      by (simp add: manager_get_ops_def r'_def)
    ultimately show ?thesis using ns(1) by blast
  next
    case False
    then have "mgr_ops_list m = reno # ns" "mgr_num m = length (reno # ns)" using ns(2) by (simp_all add: cached_def)
    then have "manager_get_ops reno name m r = Some (find (\<lambda>n. ct_name (tables r n) = name) (reno # ns), m, r)"
      using False search [of r "reno # ns"] by (simp only: manager_get_ops_def if_False bind.bind_lunit prod.case)
    then show ?thesis using ns(1) assms by blast
  qed
qed

lemma live_coherent: "live reno T s \<Longrightarrow> coherent reno s"
proof (induction s rule: live.induct)
  case start
  then show ?case using registry_ok_empty by (auto simp: coherent_def cached_def)
next
  case (boot r m r')
  then obtain ns where "registry_ok r ns" by (auto simp: coherent_def)
  then show ?case using scan_coherent [of r ns] boot.hyps(2) by (auto simp: coherent_def cached_def)
next
  case (load mo r n f r')
  then show ?case by (blast intro: load_coherent)
next
  case (unload mo r ns n)
  then show ?case by (blast intro: unload_coherent)
next
  case (choose_default mo r name r')
  then show ?case by (blast intro: default_coherent)
next
  case (choose_allowed mo r ok val r')
  then show ?case by (blast intro: allowed_coherent)
next
  case (get m r name e m' r')
  then show ?case using get_ops_coherent [OF get.IH, of name] by auto
qed

text \<open>A module whose name is taken still names a file: that of the table added before it.\<close>

lemma module_init_duplicate:
  assumes "registry_ok r ns" "n \<in> set ns" "ct_name (tables r m) = ct_name (tables r n)" "has_required r m"
    and "last_added (links r) \<noteq> List_Head"
  shows "\<exists>r'. module_init m file r = Some r' \<and> list_for_each_entry_rcu (links r') = Some ns \<and>
    link_file_name (links r') (last_added (links r)) = Some file"
proof -
  have "find (\<lambda>k. ct_name (tables r k) = ct_name (tables r m)) ns \<noteq> None"
    using assms(2,3) find_name_None_iff [of "\<lambda>k. ct_name (tables r k)" "ct_name (tables r m)" ns] by auto
  then have "tcp_register_congestion_control m r = Some (Inl EEXIST)"
    using assms(1,4) ca_find_represents [of r ns]
    by (auto simp: tcp_register_congestion_control_def registry_ok_def has_required_def)
  moreover have "represents (set_linux_file_name file (links r)) ns"
    using assms(1) by (simp add: registry_ok_def represents_file_name)
  ultimately show ?thesis
    using assms(5) by (simp add: module_init_def walk_represents) (simp add: set_linux_file_name_def)
qed

subsection \<open>The contract of a catalogue of modules\<close>

text \<open>What the static initialisation relies on: adding an entry never hides an earlier one, and a complete
  entry with a new name is found afterwards. The client lemma gives the outcome of any load order.\<close>

locale catalog =
  fixes inv :: "'s \<Rightarrow> bool"
    and lookup :: "string \<Rightarrow> 's \<Rightarrow> nat option"
    and add :: "'e \<Rightarrow> 's \<Rightarrow> 's"
    and addr :: "'e \<Rightarrow> nat"
    and key :: "'e \<Rightarrow> string"
    and complete :: "'e \<Rightarrow> bool"
  assumes inv_add: "inv s \<Longrightarrow> inv (add e s)"
    and lookup_add: "inv s \<Longrightarrow> lookup k (add e s) =
      (case lookup k s of Some n \<Rightarrow> Some n | None \<Rightarrow> if complete e \<and> key e = k then Some (addr e) else None)"
begin

lemma inv_fold: "inv s \<Longrightarrow> inv (fold add es s)"
  by (induction es arbitrary: s) (auto intro: inv_add)

lemma lookup_fold:
  "inv s \<Longrightarrow> lookup k (fold add es s) =
    (case lookup k s of Some n \<Rightarrow> Some n | None \<Rightarrow> map_option addr (find (\<lambda>e. complete e \<and> key e = k) es))"
  by (induction es arbitrary: s) (auto simp: inv_add lookup_add split: option.splits)

lemma lookup_fold_distinct:
  assumes "inv s" "lookup (key e) s = None" "e \<in> set es" "complete e" "distinct (map key es)"
  shows "lookup (key e) (fold add es s) = Some (addr e)"
proof -
  have "find (\<lambda>e'. complete e' \<and> key e' = key e) es = Some e"
    using assms(3-5) by (induction es) auto
  then show ?thesis using lookup_fold [OF assms(1), of "key e" es] assms(2) by simp
qed

end

text \<open>Loading a module, as a total function, and the lookup of a registry in order.\<close>

definition load_module :: "nat \<times> string \<Rightarrow> 'ca registry \<Rightarrow> 'ca registry" where
  "load_module e r = (case module_init (fst e) (snd e) r of None \<Rightarrow> r | Some r' \<Rightarrow> r')"

definition registered :: "string \<Rightarrow> 'ca registry \<Rightarrow> nat option" where
  "registered name r = Option.bind (tcp_ca_find name r) id"

lemma registered_eq:
  "registry_ok r ns \<Longrightarrow> registered name r = find (\<lambda>n. ct_name (tables r n) = name) ns"
  using ca_find_represents [of r ns name] by (simp add: registered_def registry_ok_def)

lemma load_module_ok:
  assumes "registry_ok r ns"
  shows "module_init n f r = Some (load_module (n, f) r) \<and> tables (load_module (n, f) r) = tables r \<and>
    registry_ok (load_module (n, f) r)
      (if has_required r n \<and> ct_name (tables r n) \<notin> (\<lambda>m. ct_name (tables r m)) ` set ns then ns @ [n] else ns)"
proof (cases "has_required r n \<and> ct_name (tables r n) \<notin> (\<lambda>m. ct_name (tables r m)) ` set ns")
  case True
  let ?r1 = "r\<lparr>links := list_add_tail_rcu (Ops n) (links r)\<rparr>"
  have "tcp_register_congestion_control n r = Some (Inr ?r1)"
    using True assms ca_find_represents [of r ns] find_name_None_iff [of "\<lambda>m. ct_name (tables r m)" "ct_name (tables r n)" ns]
    by (auto simp: tcp_register_congestion_control_def registry_ok_def has_required_def)
  moreover have "registry_ok ?r1 (ns @ [n])"
    using True assms represents_add_tail [of "links r" ns n] by (auto simp: registry_ok_def has_required_def)
  ultimately show ?thesis
    using True registry_ok_links [of ?r1 "ns @ [n]" "set_linux_file_name f (links ?r1)"]
    by (simp add: load_module_def module_init_def) (simp add: set_linux_file_name_def)
next
  case False
  then have "\<exists>e. tcp_register_congestion_control n r = Some (Inl e)"
    using assms ca_find_represents [of r ns] find_name_None_iff [of "\<lambda>m. ct_name (tables r m)" "ct_name (tables r n)" ns]
    by (auto simp: tcp_register_congestion_control_def registry_ok_def has_required_def)
  then show ?thesis
    using False assms registry_ok_links [of r ns "set_linux_file_name f (links r)"]
    by (auto simp: load_module_def module_init_def) (auto simp: set_linux_file_name_def)
qed

lemma find_snoc: "find P (xs @ [x]) = (case find P xs of Some y \<Rightarrow> Some y | None \<Rightarrow> if P x then Some x else None)"
  by (induction xs) auto

interpretation modules: catalog
  "\<lambda>r. tables r = T \<and> (\<exists>ns. registry_ok r ns)" registered load_module fst "\<lambda>e. ct_name (T (fst e))"
  "\<lambda>e. ct_ssthresh (T (fst e)) \<noteq> None \<and> ct_cong_avoid (T (fst e)) \<noteq> None"
  for T :: "nat \<Rightarrow> 'ca cong_table"
proof
  fix r :: "'ca registry" and e :: "nat \<times> string" and k
  assume r: "tables r = T \<and> (\<exists>ns. registry_ok r ns)"
  then obtain ns where ns: "registry_ok r ns" by blast
  obtain n f where e: "e = (n, f)" by (cases e)
  define T' where "T' = tables r"
  let ?ns = "if has_required r n \<and> ct_name (T' n) \<notin> (\<lambda>m. ct_name (T' m)) ` set ns then ns @ [n] else ns"
  have load: "tables (load_module e r) = T'" "registry_ok (load_module e r) ?ns"
    using load_module_ok [OF ns, of n f] e by (auto simp: T'_def)
  then show "tables (load_module e r) = T \<and> (\<exists>ns. registry_ok (load_module e r) ns)"
    using r by (auto simp: T'_def)
  have "find (\<lambda>m. ct_name (T' m) = k) ?ns =
      (case find (\<lambda>m. ct_name (T' m) = k) ns of Some m \<Rightarrow> Some m
       | None \<Rightarrow> if has_required r n \<and> ct_name (T' n) = k then Some n else None)"
    using find_name_None_iff [of "\<lambda>m. ct_name (T' m)" k ns] by (auto simp: find_snoc split: option.splits)
  then show "registered k (load_module e r) =
      (case registered k r of Some n \<Rightarrow> Some n
       | None \<Rightarrow> if (ct_ssthresh (T (fst e)) \<noteq> None \<and> ct_cong_avoid (T (fst e)) \<noteq> None) \<and> ct_name (T (fst e)) = k
                 then Some (fst e) else None)"
    using registered_eq [OF load(2), of k] registered_eq [OF ns, of k] load(1) r e
    by (auto simp: T'_def has_required_def split: option.splits)
qed

subsection \<open>Properties\<close>

text \<open>
  C38. The cache of the agent's manager never goes stale. Whenever the static initialisation builds it, and whatever is loaded,
  unloaded, made the default or allowed before and after, \<open>get_ops\<close> returns the table of Reno for its
  name and otherwise the table that the kernel's own lookup finds in the list.
\<close>

theorem registry_manager_coherent:
  assumes "live reno T (Some m, r)"
  shows "\<exists>m' r'. manager_get_ops reno name m r =
      Some (if name = ct_name (tables r reno) then Some reno else the (tcp_ca_find name r), m', r') \<and>
    tcp_ca_find name r \<noteq> None \<and> live reno T (Some m', r')"
proof -
  obtain ns m' r' where *: "registry_ok r ns"
    "manager_get_ops reno name m r = Some (find (\<lambda>n. ct_name (tables r n) = name) (reno # ns), m', r')"
    using get_ops_coherent [OF live_coherent [OF assms], of name] by auto
  then have "tcp_ca_find name r = Some (find (\<lambda>n. ct_name (tables r n) = name) ns)"
    by (simp add: registry_ok_def ca_find_represents)
  then show ?thesis using * live.get [OF assms *(2)] by auto
qed

theorem registry_manager_coherent_witness:
  "\<exists>m r m' r'. live 1 example_tables (Some m, r) \<and> tcp_ca_find ''cubic'' r = Some (Some 3) \<and>
     manager_get_ops 1 ''cubic'' m r = Some (Some 3, m', r')"
proof -
  let ?r0 = "empty_registry example_tables"
  obtain m r1 where scan: "manager_scan 1 ?r0 = Some (m, r1)" "registry_ok r1 []" "tables r1 = example_tables"
    using scan_coherent [OF registry_ok_empty [of example_tables]] by (auto simp: empty_registry_def)
  have "live 1 example_tables (Some m, r1)" by (rule live.boot [OF live.start scan(1)])
  then have live: "live 1 example_tables (Some m, load_module (3, ''tcp_cubic.c'') r1)"
    using load_module_ok [OF scan(2), of 3 "''tcp_cubic.c''"] by (blast intro: live.load)
  have "registry_ok (load_module (3, ''tcp_cubic.c'') r1) [3]"
    and tables: "tables (load_module (3, ''tcp_cubic.c'') r1) = example_tables"
    using load_module_ok [OF scan(2), of 3 "''tcp_cubic.c''"] scan(3)
    by (simp_all add: has_required_def example_tables_def)
  then have find: "tcp_ca_find ''cubic'' (load_module (3, ''tcp_cubic.c'') r1) = Some (Some 3)"
    using ca_find_represents [of "load_module (3, ''tcp_cubic.c'') r1" "[3]" "''cubic''"]
    by (simp add: registry_ok_def example_tables_def)
  show ?thesis
    using registry_manager_coherent [OF live, of "''cubic''"] find live tables
    by (auto simp: example_tables_def)
qed

text \<open>
  Static initialisation. Loading modules in any order from the empty registry always returns, and afterwards
  a name is found exactly when some complete module has it: the first one of that name in the load order. With distinct
  names every complete module is found.
\<close>

theorem modules_loaded:
  "registered name (fold load_module es (empty_registry T)) =
     map_option fst (find (\<lambda>e. (ct_ssthresh (T (fst e)) \<noteq> None \<and> ct_cong_avoid (T (fst e)) \<noteq> None) \<and> ct_name (T (fst e)) = name) es) \<and>
   (if distinct (map (\<lambda>e. ct_name (T (fst e))) es) \<and> (n, f) \<in> set es \<and> ct_ssthresh (T n) \<noteq> None \<and> ct_cong_avoid (T n) \<noteq> None
    then registered (ct_name (T n)) (fold load_module es (empty_registry T)) = Some n else True)"
proof -
  have inv: "tables (empty_registry T) = T \<and> (\<exists>ns. registry_ok (empty_registry T) ns)"
    using registry_ok_empty by (auto simp: empty_registry_def)
  have none: "registered k (empty_registry T) = None" for k
    using registered_eq [OF registry_ok_empty] by simp
  show ?thesis
    using modules.lookup_fold [OF inv, of name es] modules.lookup_fold_distinct [OF inv, of "(n, f)" es] none
    by (auto simp: comp_def)
qed

end
