(* ===== verification/Keyed_Store.thy ===== *)
theory Keyed_Store
  imports Prelude
begin

section \<open>Find-or-insert lists\<close>

text \<open>
  The parameters are kept in singly linked lists that are searched from the head, changed in place at the first
  match and extended at the head. This theory has the operations on such a list and, as the locale
  \<open>keyed_store\<close>, the contract their clients rely on: an update is seen under its key, keeps all others, and the last
  of several updates wins.
\<close>

fun modify_first :: "('a \<Rightarrow> bool) \<Rightarrow> ('a \<Rightarrow> 'a) \<Rightarrow> 'a list \<Rightarrow> 'a list" where
  "modify_first P f [] = []"
| "modify_first P f (x # xs) = (if P x then f x # xs else x # modify_first P f xs)"

lemma find_modify_first:
  assumes "\<forall>x. P x \<longrightarrow> P (f x)"
  shows "find P (modify_first P f xs) = map_option f (find P xs)"
  using assms by (induction xs) auto

text \<open>The order matters when the keys are disjoint: a change of one key does not move another.\<close>

lemma find_modify_first_other:
  assumes "\<forall>x. P x \<longrightarrow> \<not> Q x \<and> \<not> Q (f x)"
  shows "find Q (modify_first P f xs) = find Q xs"
  using assms by (induction xs) auto

lemma map_modify_first: "\<forall>x. P x \<longrightarrow> g (f x) = g x \<Longrightarrow> map g (modify_first P f xs) = map g xs"
  by (induction xs) auto

lemma modify_first_id: "\<forall>x \<in> set xs. \<not> P x \<Longrightarrow> modify_first P f xs = xs"
  by (induction xs) auto

locale keyed_store =
  fixes inv :: "'s \<Rightarrow> bool"
    and lookup :: "'k \<Rightarrow> 's \<Rightarrow> 'v option"
    and update :: "'k \<Rightarrow> 'v \<Rightarrow> 's \<Rightarrow> 's"
  assumes inv_update: "inv s \<Longrightarrow> inv (update k v s)"
    and lookup_update: "inv s \<Longrightarrow> lookup k' (update k v s) = (if k' = k then Some v else lookup k' s)"
begin

lemma inv_fold: "inv s \<Longrightarrow> inv (fold (\<lambda>(k, v). update k v) kvs s)"
  by (induction kvs arbitrary: s) (auto intro: inv_update)

lemma lookup_fold:
  assumes "inv s"
  shows "lookup k (fold (\<lambda>(k, v). update k v) kvs s) =
    (case map_of (rev kvs) k of Some v \<Rightarrow> Some v | None \<Rightarrow> lookup k s)"
  using assms
proof (induction kvs arbitrary: s)
  case (Cons kv kvs)
  obtain k' v' where kv: "kv = (k', v')" by (cases kv)
  show ?case
    using Cons.IH [OF inv_update [OF Cons.prems], of k' v'] lookup_update [OF Cons.prems]
    by (auto simp: kv map_add_def split: option.splits)
qed simp

end

end
