(* ===== verification/Linux_Params.thy ===== *)
theory Linux_Params
  imports Keyed_Store
begin

section \<open>Parameters of the modules (\<open>ns-linux-c.c\<close>, \<open>tcp-linux.cc\<close>)\<close>

text \<open>
  A module declares its parameters with \<open>module_param\<close>; \<open>ns-linux-c.c\<close> records them by file and name with the
  address of the variable. \<open>LinuxParamManager\<close> reads and writes the variables by these addresses, as 32-bit
  integers, and keeps the values of one connection in a \<open>ParamList\<close>, which is copied into the variables before the
  module runs (\<open>load_local\<close>) and back afterwards (\<open>restore_default\<close>). Memory is a map of bytes, so that the width of an
  access is part of the model: integers are stored with the low byte first.
\<close>

subsection \<open>Memory\<close>

type_synonym mem = "u32 \<Rightarrow> u8"

definition load_int :: "mem \<Rightarrow> u32 \<Rightarrow> s32" where
  "load_int m a =
     ucast (m a) OR push_bit 8 (ucast (m (a + 1))) OR push_bit 16 (ucast (m (a + 2))) OR push_bit 24 (ucast (m (a + 3)))"

definition store_int :: "u32 \<Rightarrow> s32 \<Rightarrow> mem \<Rightarrow> mem" where
  "store_int a v m =
     m(a := ucast v, a + 1 := ucast (drop_bit 8 v), a + 2 := ucast (drop_bit 16 v), a + 3 := ucast (drop_bit 24 v))"

definition int_bytes :: "u32 \<Rightarrow> u32 set" where
  "int_bytes a = {a, a + 1, a + 2, a + 3}"

lemma int_bytes_distinct: "a + 1 \<noteq> a" "a + 2 \<noteq> a" "a + 3 \<noteq> a" "a + 1 \<noteq> a + 2" "a + 1 \<noteq> a + 3" "a + 2 \<noteq> a + 3"
  for a :: u32
  by simp_all

lemma load_store_int: "load_int (store_int a v m) a = v"
proof -
  have "ucast (ucast v :: u8) OR push_bit 8 (ucast (ucast (drop_bit 8 v) :: u8)) OR
      push_bit 16 (ucast (ucast (drop_bit 16 v) :: u8)) OR push_bit 24 (ucast (ucast (drop_bit 24 v) :: u8)) = v"
    (is "?l = v")
  proof (rule bit_word_eqI)
    fix n assume "n < LENGTH(32)"
    then consider "n < 8" | "8 \<le> n" "n < 16" | "16 \<le> n" "n < 24" | "24 \<le> n" "n < 32" by fastforce
    then show "bit ?l n = bit v n"
      by cases (auto simp: bit_simps)
  qed
  then show ?thesis by (simp add: load_int_def store_int_def)
qed

lemma load_int_frame: "\<forall>b \<in> int_bytes a. m' b = m b \<Longrightarrow> load_int m' a = load_int m a"
  by (simp add: load_int_def int_bytes_def)

lemma store_int_frame: "b \<notin> int_bytes a \<Longrightarrow> store_int a v m b = m b"
  by (simp add: store_int_def int_bytes_def)

lemma store_int_inside: "b \<in> int_bytes a \<Longrightarrow> store_int a v m b = store_int a v m' b"
  by (auto simp: store_int_def int_bytes_def)

lemma load_store_other: "int_bytes a \<inter> int_bytes b = {} \<Longrightarrow> load_int (store_int a v m) b = load_int m b"
  by (rule load_int_frame) (auto intro: store_int_frame)

text \<open>Storing the value that is there changes nothing, and a second store to the same place undoes the first.\<close>

lemma store_load_int: "store_int a (load_int m a) m = m"
proof -
  have "ucast (load_int m a) = m a" "ucast (drop_bit 8 (load_int m a)) = m (a + 1)"
    "ucast (drop_bit 16 (load_int m a)) = m (a + 2)" "ucast (drop_bit 24 (load_int m a)) = m (a + 3)"
    by (rule bit_word_eqI, auto simp: load_int_def bit_simps dest: bit_imp_le_length)+
  then show ?thesis by (simp add: store_int_def)
qed

lemma store_store_int: "store_int a v (store_int a w m) = store_int a v m"
  by (simp add: store_int_def fun_upd_twist fun_eq_iff)

lemma store_store_other:
  assumes "int_bytes a \<inter> int_bytes b = {}"
  shows "store_int a v (store_int b w m) = store_int b w (store_int a v m)"
proof
  fix c
  show "store_int a v (store_int b w m) c = store_int b w (store_int a v m) c"
    using assms by (cases "c \<in> int_bytes a") (auto simp: store_int_def int_bytes_def)
qed

subsection \<open>The values of a connection (\<open>ParamList\<close>)\<close>

record param_node =
  pn_addr :: u32
  pn_value :: s32
  pn_default :: s32

definition ParamList_get_param :: "u32 \<Rightarrow> param_node list \<Rightarrow> s32 option" where
  "ParamList_get_param a ps = map_option pn_value (find (\<lambda>p. pn_addr p = a) ps)"

definition ParamList_set_param :: "mem \<Rightarrow> u32 \<Rightarrow> s32 \<Rightarrow> param_node list \<Rightarrow> param_node list" where
  "ParamList_set_param m a v ps =
     (if find (\<lambda>p. pn_addr p = a) ps \<noteq> None
      then modify_first (\<lambda>p. pn_addr p = a) (\<lambda>p. p\<lparr>pn_value := v\<rparr>) ps
      else \<lparr>pn_addr = a, pn_value = v, pn_default = load_int m a\<rparr> # ps)"

fun ParamList_refresh_default :: "mem \<Rightarrow> param_node list \<Rightarrow> param_node list" where
  "ParamList_refresh_default m [] = []"
| "ParamList_refresh_default m (p # ps) =
     p\<lparr>pn_default := load_int m (pn_addr p)\<rparr> # ParamList_refresh_default m ps"

fun ParamList_restore_default :: "mem \<Rightarrow> param_node list \<Rightarrow> mem \<times> param_node list" where
  "ParamList_restore_default m [] = (m, [])"
| "ParamList_restore_default m (p # ps) =
     (let p = p\<lparr>pn_value := load_int m (pn_addr p)\<rparr>;
          (m, ps) = ParamList_restore_default (store_int (pn_addr p) (pn_default p) m) ps
      in (m, p # ps))"

fun ParamList_load_local :: "mem \<Rightarrow> param_node list \<Rightarrow> mem \<times> param_node list" where
  "ParamList_load_local m [] = (m, [])"
| "ParamList_load_local m (p # ps) =
     (let p = p\<lparr>pn_default := load_int m (pn_addr p)\<rparr>;
          (m, ps) = ParamList_load_local (store_int (pn_addr p) (pn_value p) m) ps
      in (m, p # ps))"

subsection \<open>The record of the parameters (\<open>ns-linux-c.c\<close>)\<close>

record cc_param =
  par_name :: string
  par_type :: "string option"
  par_description :: "string option"
  par_ptr :: u32

type_synonym cc_list = "(string \<times> cc_param list) list"

text \<open>Both searches insert a new entry at the head when they find none, so that the caller changes the
  entry that is then found first.\<close>

definition find_cc_by_proto :: "string \<Rightarrow> cc_list \<Rightarrow> cc_list" where
  "find_cc_by_proto proto cs = (if find (\<lambda>c. fst c = proto) cs = None then (proto, []) # cs else cs)"

definition find_param_in :: "string \<Rightarrow> cc_param list \<Rightarrow> cc_param list" where
  "find_param_in name ps =
     (if find (\<lambda>p. par_name p = name) ps = None
      then \<lparr>par_name = name, par_type = None, par_description = None, par_ptr = 0\<rparr> # ps else ps)"

definition update_param_by_proto_name :: "string \<Rightarrow> string \<Rightarrow> (cc_param \<Rightarrow> cc_param) \<Rightarrow> cc_list \<Rightarrow> cc_list" where
  "update_param_by_proto_name proto name f cs =
     modify_first (\<lambda>c. fst c = proto)
       (\<lambda>c. (fst c, modify_first (\<lambda>p. par_name p = name) f (find_param_in name (snd c))))
       (find_cc_by_proto proto cs)"

definition record_linux_param :: "string \<Rightarrow> string \<Rightarrow> string \<Rightarrow> u32 \<Rightarrow> cc_list \<Rightarrow> cc_list" where
  "record_linux_param proto name type ptr =
     update_param_by_proto_name proto name (\<lambda>p. p\<lparr>par_type := Some type, par_ptr := ptr\<rparr>)"

definition record_linux_param_description :: "string \<Rightarrow> string \<Rightarrow> string \<Rightarrow> cc_list \<Rightarrow> cc_list" where
  "record_linux_param_description proto name descr =
     update_param_by_proto_name proto name (\<lambda>p. p\<lparr>par_description := Some descr\<rparr>)"

subsection \<open>The manager of the parameters (\<open>LinuxParamManager\<close>)\<close>

text \<open>The file of a module is \<open>tcp_<name>.c\<close>, in a buffer of 100 characters.\<close>

definition proto_name :: "string \<Rightarrow> string" where
  "proto_name proto = take 99 (''tcp_'' @ proto @ ''.c'')"

definition LinuxParamManager_find_cc_by_proto :: "string \<Rightarrow> cc_list \<Rightarrow> cc_param list option" where
  "LinuxParamManager_find_cc_by_proto proto cs = map_option snd (find (\<lambda>c. fst c = proto_name proto) cs)"

text \<open>Only parameters of type \<open>int\<close> are found. An entry that has a description but no type is compared through
  a null pointer: the outer \<open>None\<close>.\<close>

fun find_int_param :: "string \<Rightarrow> cc_param list \<Rightarrow> cc_param option option" where
  "find_int_param name [] = Some None"
| "find_int_param name (q # qs) =
     (if par_name q \<noteq> name then find_int_param name qs
      else case par_type q of
             None \<Rightarrow> None
           | Some t \<Rightarrow> if t = ''int'' then Some (Some q) else find_int_param name qs)"

definition LinuxParamManager_find_param :: "string \<Rightarrow> string \<Rightarrow> cc_list \<Rightarrow> cc_param option option" where
  "LinuxParamManager_find_param proto name cs =
     (case LinuxParamManager_find_cc_by_proto proto cs of None \<Rightarrow> Some None | Some qs \<Rightarrow> find_int_param name qs)"

definition set_default_param :: "string \<Rightarrow> string \<Rightarrow> s32 \<Rightarrow> cc_list \<Rightarrow> mem \<Rightarrow> (bool \<times> mem) option" where
  "set_default_param proto param v cs m = do {
     q \<leftarrow> LinuxParamManager_find_param proto param cs;
     Some (case q of None \<Rightarrow> (False, m) | Some q \<Rightarrow> (True, store_int (par_ptr q) v m))
   }"

definition get_default_param :: "string \<Rightarrow> string \<Rightarrow> cc_list \<Rightarrow> mem \<Rightarrow> s32 option option" where
  "get_default_param proto param cs m = do {
     q \<leftarrow> LinuxParamManager_find_param proto param cs;
     Some (map_option (\<lambda>q. load_int m (par_ptr q)) q)
   }"

definition set_param :: "string \<Rightarrow> string \<Rightarrow> s32 \<Rightarrow> cc_list \<Rightarrow> mem \<Rightarrow> param_node list \<Rightarrow> (bool \<times> param_node list) option" where
  "set_param proto param v cs m ps = do {
     q \<leftarrow> LinuxParamManager_find_param proto param cs;
     Some (case q of None \<Rightarrow> (False, ps) | Some q \<Rightarrow> (True, ParamList_set_param m (par_ptr q) v ps))
   }"

definition get_param :: "string \<Rightarrow> string \<Rightarrow> cc_list \<Rightarrow> mem \<Rightarrow> param_node list \<Rightarrow> s32 option option" where
  "get_param proto param cs m ps = do {
     q \<leftarrow> LinuxParamManager_find_param proto param cs;
     Some (case q of
             None \<Rightarrow> None
           | Some q \<Rightarrow> (case ParamList_get_param (par_ptr q) ps of
                          Some v \<Rightarrow> Some v | None \<Rightarrow> Some (load_int m (par_ptr q))))
   }"

text \<open>\<open>query_param\<close> prints name, value and description of every parameter of a module.\<close>

definition query_param :: "string \<Rightarrow> cc_list \<Rightarrow> mem \<Rightarrow> (string \<times> s32 \<times> string option) list option" where
  "query_param proto cs m =
     map_option (map (\<lambda>q. (par_name q, load_int m (par_ptr q), par_description q)))
       (LinuxParamManager_find_cc_by_proto proto cs)"

subsection \<open>Both lists are keyed stores\<close>

interpretation params: keyed_store "\<lambda>_. True" ParamList_get_param "ParamList_set_param m" for m :: mem
proof
  fix ps :: "param_node list" and a v b
  have "find (\<lambda>p. pn_addr p = b) (modify_first (\<lambda>p. pn_addr p = a) (\<lambda>p. p\<lparr>pn_value := v\<rparr>) ps) =
      (if b = a then map_option (\<lambda>p. p\<lparr>pn_value := v\<rparr>) (find (\<lambda>p. pn_addr p = a) ps) else find (\<lambda>p. pn_addr p = b) ps)"
    by (auto simp: find_modify_first intro!: find_modify_first_other)
  then show "ParamList_get_param b (ParamList_set_param m a v ps) = (if b = a then Some v else ParamList_get_param b ps)"
    by (auto simp: ParamList_get_param_def ParamList_set_param_def)
qed

definition recorded :: "string \<times> string \<Rightarrow> cc_list \<Rightarrow> (string \<times> u32) option" where
  "recorded k cs = do {
     c \<leftarrow> find (\<lambda>c. fst c = fst k) cs;
     p \<leftarrow> find (\<lambda>p. par_name p = snd k) (snd c);
     t \<leftarrow> par_type p;
     Some (t, par_ptr p)
   }"

definition cc_list_ok :: "cc_list \<Rightarrow> bool" where
  "cc_list_ok cs \<longleftrightarrow> distinct (map fst cs) \<and> (\<forall>c \<in> set cs. distinct (map par_name (snd c)))"

lemma find_cc_ok: "cc_list_ok cs \<Longrightarrow> cc_list_ok (find_cc_by_proto proto cs)"
  by (auto simp: find_cc_by_proto_def cc_list_ok_def find_None_iff)

lemma find_param_ok: "distinct (map par_name ps) \<Longrightarrow> distinct (map par_name (find_param_in name ps))"
  by (auto simp: find_param_in_def find_None_iff)

text \<open>What is found after an update: under the updated key the changed entry, else what was there.\<close>

definition cc_at :: "string \<Rightarrow> cc_list \<Rightarrow> string \<times> cc_param list" where
  "cc_at proto cs = (case find (\<lambda>c. fst c = proto) cs of None \<Rightarrow> (proto, []) | Some c \<Rightarrow> c)"

definition param_at :: "string \<Rightarrow> cc_param list \<Rightarrow> cc_param" where
  "param_at name ps =
     (case find (\<lambda>p. par_name p = name) ps of
        None \<Rightarrow> \<lparr>par_name = name, par_type = None, par_description = None, par_ptr = 0\<rparr> | Some p \<Rightarrow> p)"

lemma find_cc_updated:
  assumes "\<forall>c. fst (g c) = fst c"
  shows "find (\<lambda>c. fst c = proto') (modify_first (\<lambda>c. fst c = proto) g (find_cc_by_proto proto cs)) =
    (if proto' = proto then Some (g (cc_at proto cs)) else find (\<lambda>c. fst c = proto') cs)"
proof (cases "proto' = proto")
  case True
  then show ?thesis using assms
    by (cases "find (\<lambda>c. fst c = proto) cs") (simp_all add: find_modify_first find_cc_by_proto_def cc_at_def)
next
  case False
  then have "find (\<lambda>c. fst c = proto') (modify_first (\<lambda>c. fst c = proto) g (find_cc_by_proto proto cs)) =
      find (\<lambda>c. fst c = proto') (find_cc_by_proto proto cs)"
    using assms by (intro find_modify_first_other) auto
  then show ?thesis using False by (simp add: find_cc_by_proto_def)
qed

lemma find_param_updated:
  assumes "\<forall>p. par_name (f p) = par_name p"
  shows "find (\<lambda>p. par_name p = name') (modify_first (\<lambda>p. par_name p = name) f (find_param_in name ps)) =
    (if name' = name then Some (f (param_at name ps)) else find (\<lambda>p. par_name p = name') ps)"
proof (cases "name' = name")
  case True
  then show ?thesis using assms
    by (cases "find (\<lambda>p. par_name p = name) ps") (simp_all add: find_modify_first find_param_in_def param_at_def)
next
  case False
  then have "find (\<lambda>p. par_name p = name') (modify_first (\<lambda>p. par_name p = name) f (find_param_in name ps)) =
      find (\<lambda>p. par_name p = name') (find_param_in name ps)"
    using assms by (intro find_modify_first_other) auto
  then show ?thesis using False by (simp add: find_param_in_def)
qed

lemma set_modify_first: "set (modify_first P f xs) \<subseteq> set xs \<union> f ` {x \<in> set xs. P x}"
  by (induction xs) auto

lemma update_param_ok:
  assumes "cc_list_ok cs" "\<forall>p. par_name (f p) = par_name p"
  shows "cc_list_ok (update_param_by_proto_name proto name f cs)"
proof -
  let ?g = "\<lambda>c. (fst c, modify_first (\<lambda>p. par_name p = name) f (find_param_in name (snd c)))"
    and ?cs = "find_cc_by_proto proto cs"
  have ok: "cc_list_ok ?cs" using find_cc_ok assms(1) .
  have "map fst (modify_first (\<lambda>c. fst c = proto) ?g ?cs) = map fst ?cs" by (rule map_modify_first) simp
  moreover have "distinct (map par_name (snd c))" if c: "c \<in> set (modify_first (\<lambda>c. fst c = proto) ?g ?cs)" for c
  proof -
    consider "c \<in> set ?cs" | d where "d \<in> set ?cs" "c = ?g d"
      using subsetD [OF set_modify_first c] by blast
    then show ?thesis
    proof cases
      case 1
      then show ?thesis using ok by (simp add: cc_list_ok_def)
    next
      case 2
      then have "distinct (map par_name (find_param_in name (snd d)))"
        using ok find_param_ok by (simp add: cc_list_ok_def)
      then show ?thesis using 2(2) assms(2) map_modify_first [of "\<lambda>p. par_name p = name" par_name f] by simp
    qed
  qed
  ultimately show ?thesis using ok by (simp add: cc_list_ok_def update_param_by_proto_name_def)
qed

lemma recorded_update:
  "recorded k (record_linux_param proto name t a cs) = (if k = (proto, name) then Some (t, a) else recorded k cs)"
proof -
  obtain proto' name' where k: "k = (proto', name')" by (cases k)
  let ?f = "\<lambda>p. p\<lparr>par_type := Some t, par_ptr := a\<rparr>"
  let ?g = "\<lambda>c. (fst c, modify_first (\<lambda>p. par_name p = name) ?f (find_param_in name (snd c)))"
  have cc: "find (\<lambda>c. fst c = proto') (record_linux_param proto name t a cs) =
      (if proto' = proto then Some (?g (cc_at proto cs)) else find (\<lambda>c. fst c = proto') cs)"
    unfolding record_linux_param_def update_param_by_proto_name_def by (rule find_cc_updated) simp
  have par: "find (\<lambda>p. par_name p = name') (modify_first (\<lambda>p. par_name p = name) ?f (find_param_in name ps)) =
      (if name' = name then Some (?f (param_at name ps)) else find (\<lambda>p. par_name p = name') ps)" for ps
    by (rule find_param_updated) simp
  have old: "recorded (proto, name') cs =
      Option.bind (find (\<lambda>p. par_name p = name') (snd (cc_at proto cs)))
        (\<lambda>p. Option.bind (par_type p) (\<lambda>t. Some (t, par_ptr p)))"
    by (cases "find (\<lambda>c. fst c = proto) cs") (simp_all add: recorded_def cc_at_def)
  show ?thesis
  proof (cases "proto' = proto")
    case True
    then show ?thesis using cc par [of "snd (cc_at proto cs)"] old k by (simp add: recorded_def)
  next
    case False
    then show ?thesis using cc k by (simp add: recorded_def)
  qed
qed

interpretation recorded: keyed_store cc_list_ok recorded "\<lambda>k v. record_linux_param (fst k) (snd k) (fst v) (snd v)"
proof
  fix cs :: cc_list and k :: "string \<times> string" and v :: "string \<times> u32" and k'
  show "cc_list_ok cs \<Longrightarrow> cc_list_ok (record_linux_param (fst k) (snd k) (fst v) (snd v) cs)"
    unfolding record_linux_param_def by (erule update_param_ok) simp
  show "recorded k' (record_linux_param (fst k) (snd k) (fst v) (snd v) cs) = (if k' = k then Some v else recorded k' cs)"
    by (simp add: recorded_update)
qed

subsection \<open>Loading and restoring\<close>

definition param_bytes :: "param_node list \<Rightarrow> u32 set" where
  "param_bytes ps = (\<Union>p \<in> set ps. int_bytes (pn_addr p))"

text \<open>No two parameters of the list share a byte.\<close>

abbreviation separate :: "param_node list \<Rightarrow> bool" where
  "separate \<equiv> sorted_wrt (\<lambda>p q. int_bytes (pn_addr p) \<inter> int_bytes (pn_addr q) = {})"

lemma load_int_bytes: "load_int m' a = load_int m a \<Longrightarrow> b \<in> int_bytes a \<Longrightarrow> m' b = m b"
proof -
  assume eq: "load_int m' a = load_int m a" and b: "b \<in> int_bytes a"
  have "m' b = store_int a (load_int m a) m' b" using store_load_int [of a m'] eq by simp
  also have "\<dots> = store_int a (load_int m a) m b" using b by (rule store_int_inside)
  finally show ?thesis by (simp add: store_load_int)
qed

lemma load_local_spec:
  assumes "separate ps" "ParamList_load_local m ps = (m', ps')"
  shows "ps' = map (\<lambda>p. p\<lparr>pn_default := load_int m (pn_addr p)\<rparr>) ps \<and>
    (\<forall>p \<in> set ps. load_int m' (pn_addr p) = pn_value p) \<and> (\<forall>b. b \<notin> param_bytes ps \<longrightarrow> m' b = m b)"
  using assms
proof (induction ps arbitrary: m m' ps')
  case Nil
  then show ?case by simp
next
  case (Cons p ps)
  obtain qs where rest: "ParamList_load_local (store_int (pn_addr p) (pn_value p) m) ps = (m', qs)"
    "ps' = p\<lparr>pn_default := load_int m (pn_addr p)\<rparr> # qs"
    using Cons.prems(2) by (auto simp: Let_def split: prod.splits)
  have sep: "int_bytes (pn_addr p) \<inter> int_bytes (pn_addr q) = {}" if "q \<in> set ps" for q
    using Cons.prems(1) that by simp
  note IH = Cons.IH [OF _ rest(1)]
  have "load_int m' (pn_addr p) = load_int (store_int (pn_addr p) (pn_value p) m) (pn_addr p)"
    using IH Cons.prems(1) sep by (intro load_int_frame) (fastforce simp: param_bytes_def)
  moreover have "load_int (store_int (pn_addr p) (pn_value p) m) (pn_addr q) = load_int m (pn_addr q)" if "q \<in> set ps" for q
    using load_store_other [OF sep [OF that]] by simp
  ultimately show ?case
    using IH Cons.prems(1) rest(2) by (auto simp: load_store_int param_bytes_def store_int_frame)
qed

lemma restore_default_spec:
  assumes "separate ps" "ParamList_restore_default m ps = (m', ps')"
  shows "ps' = map (\<lambda>p. p\<lparr>pn_value := load_int m (pn_addr p)\<rparr>) ps \<and>
    (\<forall>p \<in> set ps. load_int m' (pn_addr p) = pn_default p) \<and> (\<forall>b. b \<notin> param_bytes ps \<longrightarrow> m' b = m b)"
  using assms
proof (induction ps arbitrary: m m' ps')
  case Nil
  then show ?case by simp
next
  case (Cons p ps)
  obtain qs where rest: "ParamList_restore_default (store_int (pn_addr p) (pn_default p) m) ps = (m', qs)"
    "ps' = p\<lparr>pn_value := load_int m (pn_addr p)\<rparr> # qs"
    using Cons.prems(2) by (auto simp: Let_def split: prod.splits)
  have sep: "int_bytes (pn_addr p) \<inter> int_bytes (pn_addr q) = {}" if "q \<in> set ps" for q
    using Cons.prems(1) that by simp
  note IH = Cons.IH [OF _ rest(1)]
  have "load_int m' (pn_addr p) = load_int (store_int (pn_addr p) (pn_default p) m) (pn_addr p)"
    using IH Cons.prems(1) sep by (intro load_int_frame) (fastforce simp: param_bytes_def)
  moreover have "load_int (store_int (pn_addr p) (pn_default p) m) (pn_addr q) = load_int m (pn_addr q)" if "q \<in> set ps" for q
    using load_store_other [OF sep [OF that]] by simp
  ultimately show ?case
    using IH Cons.prems(1) rest(2) by (auto simp: load_store_int param_bytes_def store_int_frame)
qed

text \<open>In a record without duplicates, the search for an integer parameter ends at the only entry of its name.\<close>

lemma find_int_param_distinct:
  assumes "distinct (map par_name qs)" "find (\<lambda>q. par_name q = name) qs = Some q" "par_type q = Some ''int''"
  shows "find_int_param name qs = Some (Some q)"
  using assms by (induction qs) (auto split: if_splits)

lemma find_param_recorded:
  assumes "cc_list_ok cs" "recorded (proto_name proto, name) cs = Some (''int'', a)"
  shows "\<exists>q. LinuxParamManager_find_param proto name cs = Some (Some q) \<and> par_ptr q = a"
proof -
  obtain c q where *: "find (\<lambda>c. fst c = proto_name proto) cs = Some c" "find (\<lambda>p. par_name p = name) (snd c) = Some q"
    "par_type q = Some ''int''" "par_ptr q = a"
    using assms(2) by (auto simp: recorded_def bind_eq_Some_conv)
  have "c \<in> set cs" using *(1) by (auto simp: find_Some_iff)
  then have "distinct (map par_name (snd c))" using assms(1) by (simp add: cc_list_ok_def)
  then show ?thesis
    using * find_int_param_distinct
    by (simp add: LinuxParamManager_find_param_def LinuxParamManager_find_cc_by_proto_def)
qed

subsection \<open>Properties\<close>

text \<open>
  From the declaration of a parameter to its use. Let the static initialisation record parameters in any order, the
  last record of a file and name being an \<open>int\<close> at address \<open>a\<close>. Then the manager finds it by the name of its module: a
  new default is stored at \<open>a\<close> and read back; a connection without a value of its own reads the default; and a value
  set for the connection is the one it reads, without touching memory.
\<close>

theorem declared_params_work:
  assumes "map_of (rev es) (proto_name proto, name) = Some (''int'', a)"
    and cs: "cs = fold (\<lambda>(k, v). record_linux_param (fst k) (snd k) (fst v) (snd v)) es []"
  shows "set_default_param proto name v cs m = Some (True, store_int a v m) \<and>
    get_default_param proto name cs (store_int a v m) = Some (Some v) \<and>
    get_param proto name cs m [] = Some (Some (load_int m a)) \<and>
    (\<exists>ps'. set_param proto name v cs m ps = Some (True, ps') \<and> get_param proto name cs m ps' = Some (Some v))"
proof -
  have empty: "cc_list_ok []" by (simp add: cc_list_ok_def)
  have "cc_list_ok cs" using recorded.inv_fold [OF empty, of es] by (simp add: cs)
  moreover have "recorded (proto_name proto, name) cs = Some (''int'', a)"
    using recorded.lookup_fold [OF empty, of "(proto_name proto, name)" es] assms(1) by (simp add: cs)
  ultimately obtain q where "LinuxParamManager_find_param proto name cs = Some (Some q)" "par_ptr q = a"
    using find_param_recorded by blast
  then show ?thesis
    using params.lookup_update [OF TrueI, of a m a v ps]
    by (simp add: set_default_param_def get_default_param_def get_param_def set_param_def load_store_int)
      (simp add: ParamList_get_param_def)
qed

definition example_records :: "((string \<times> string) \<times> (string \<times> u32)) list" where
  "example_records =
     [((''tcp_cubic.c'', ''beta''), (''int'', 100)), ((''tcp_bic.c'', ''beta''), (''int'', 104)),
      ((''tcp_cubic.c'', ''bic_scale''), (''int'', 108))]"

theorem declared_params_work_witness:
  "set_default_param ''cubic'' ''beta'' 717
     (fold (\<lambda>(k, v). record_linux_param (fst k) (snd k) (fst v) (snd v)) example_records []) (\<lambda>_. 0) =
   Some (True, store_int 100 717 (\<lambda>_. 0))"
  using declared_params_work [OF _ refl, of example_records "''cubic''" "''beta''" 100]
  by (simp add: example_records_def proto_name_def)


text \<open>
  C39. Round trip of the parameters of a connection, when no two of them share a byte. After \<open>load_local\<close> the variables
  hold the values of the connection and the rest of memory is as before. Whatever the module then does to memory,
  \<open>restore_default\<close> gives every byte of the variables its value from before \<open>load_local\<close>, leaves all other bytes
  to the module, and keeps what the module left in the variables as the values of the connection.
\<close>

theorem params_roundtrip:
  assumes "separate ps" "ParamList_load_local m ps = (m1, ps1)" "ParamList_restore_default m2 ps1 = (m3, ps3)"
  shows "(\<forall>p \<in> set ps. load_int m1 (pn_addr p) = pn_value p) \<and>
    (\<forall>b. b \<notin> param_bytes ps \<longrightarrow> m1 b = m b) \<and>
    (\<forall>b. m3 b = (if b \<in> param_bytes ps then m b else m2 b)) \<and>
    map (\<lambda>p. (pn_addr p, pn_value p)) ps3 = map (\<lambda>p. (pn_addr p, load_int m2 (pn_addr p))) ps"
proof -
  note load = load_local_spec [OF assms(1,2)]
  have ps1: "param_bytes ps1 = param_bytes ps" "separate ps1"
    using load assms(1) by (simp_all add: param_bytes_def sorted_wrt_map)
  note restore = restore_default_spec [OF ps1(2) assms(3)]
  have "m3 b = m b" if b: "b \<in> param_bytes ps" for b
  proof -
    obtain p where p: "p \<in> set ps" "b \<in> int_bytes (pn_addr p)" using b by (auto simp: param_bytes_def)
    then have "load_int m3 (pn_addr p) = load_int m (pn_addr p)" using load restore by auto
    then show ?thesis using p(2) by (rule load_int_bytes)
  qed
  then show ?thesis using load restore ps1 by (auto simp: comp_def)
qed

text \<open>Two parameters of CUBIC with the addresses of two adjacent integers.\<close>

definition example_params :: "param_node list" where
  "example_params = [\<lparr>pn_addr = 100, pn_value = 7, pn_default = 0\<rparr>, \<lparr>pn_addr = 104, pn_value = 9, pn_default = 0\<rparr>]"

theorem params_roundtrip_witness:
  "case ParamList_load_local (\<lambda>_. 0) example_params of (m1, ps1) \<Rightarrow>
     load_int m1 100 = 7 \<and> load_int m1 104 = 9 \<and>
     (case ParamList_restore_default m1 ps1 of (m3, ps3) \<Rightarrow> m3 = (\<lambda>_. 0))"
proof -
  obtain m1 ps1 where load: "ParamList_load_local (\<lambda>_. 0) example_params = (m1, ps1)" by fastforce
  obtain m3 ps3 where restore: "ParamList_restore_default m1 ps1 = (m3, ps3)" by fastforce
  have "separate example_params" by (simp add: example_params_def int_bytes_def)
  from params_roundtrip [OF this load restore]
  have "load_int m1 100 = 7 \<and> load_int m1 104 = 9 \<and> (\<forall>b. m3 b = 0)" by (auto simp: example_params_def)
  then show ?thesis using load restore by auto
qed

text \<open>
  The parameters of \<open>ns-linux-param.c\<close> are single bytes, but are declared as \<open>int\<close> and accessed as such.
  With \<open>sysctl_tcp_abc\<close>, \<open>tcp_max_burst\<close> and \<open>debug_level\<close> in consecutive bytes, a connection that sets
  \<open>sysctl_tcp_abc\<close> to 2 and \<open>tcp_max_burst\<close> to 4 runs with a maximum burst of 0, and afterwards the defaults of
  all connections have changed: the maximum burst is 4 and the debug level 0.
\<close>

theorem byte_params_corrupted:
  assumes "m a = 1" "m (a + 1) = 3" "m (a + 2) = 1"
  shows "case ParamList_load_local m (ParamList_set_param m (a + 1) 4 (ParamList_set_param m a 2 [])) of (m1, ps1) \<Rightarrow>
    m1 (a + 1) = 0 \<and>
    (case ParamList_restore_default m1 ps1 of (m2, ps2) \<Rightarrow> m2 a = 1 \<and> m2 (a + 1) = 4 \<and> m2 (a + 2) = 0)"
proof -
  have ne: "a + 1 + 1 = a + 2" "a + 1 + 2 = a + 3" "a + 1 + 3 = a + 4" by simp_all
  define low where "low = load_int m (a + 1)"
  define m0 where "m0 = store_int (a + 1) 4 m"
  define m1 where "m1 = store_int a 2 m0"
  have m0: "m0 a = 1" "m0 (a + 1) = 4" "m0 (a + 2) = 0" "m0 (a + 3) = 0"
    using assms by (simp_all add: m0_def store_int_def ne)
  define d where "d = load_int m0 a"
  have "store_int a d (store_int (a + 1) low m1) b = m0 b" if "b \<in> int_bytes a" for b
    using store_int_inside [OF that, of d _ m0] by (simp add: d_def store_load_int)
  then have undone: "store_int a d (store_int (a + 1) low m1) a = 1" "store_int a d (store_int (a + 1) low m1) (a + 1) = 4"
    "store_int a d (store_int (a + 1) low m1) (a + 2) = 0"
    using m0 by (simp_all add: int_bytes_def)
  moreover have "m1 (a + 1) = 0" by (simp add: m1_def store_int_def)
  moreover have "ParamList_load_local m (ParamList_set_param m (a + 1) 4 (ParamList_set_param m a 2 [])) =
      (m1, [\<lparr>pn_addr = a + 1, pn_value = 4, pn_default = low\<rparr>, \<lparr>pn_addr = a, pn_value = 2, pn_default = d\<rparr>])"
    by (simp add: ParamList_set_param_def Let_def low_def d_def m0_def m1_def)
  ultimately show ?thesis by (simp add: Let_def)
qed

theorem byte_params_corrupted_witness:
  "case ParamList_load_local (\<lambda>b. if b = 101 then 3 else 1)
      (ParamList_set_param (\<lambda>b. if b = 101 then 3 else 1) 101 4 (ParamList_set_param (\<lambda>b. if b = 101 then 3 else 1) 100 2 []))
   of (m1, ps1) \<Rightarrow> m1 101 = 0"
  using byte_params_corrupted [of "\<lambda>b. if b = 101 then 3 else 1" 100] by (auto split: prod.splits)

end
