(* ===== verification/Linux_Agent.thy ===== *)
theory Linux_Agent
  imports Tcp_Sock
begin

section \<open>The agent that drives a congestion-control module (\<open>tcp/tcp-linux.cc\<close>)\<close>

text \<open>
  \<open>LinuxTcpAgent\<close> owns a \<open>tcp_sock\<close> and calls the operations of the installed module: on
  an acknowledgement (\<open>recv\<close>), on loss or ECN (\<open>tcp_fastretrans_alert\<close>) and on a
  retransmission timeout (\<open>enter_loss\<close>). The model covers the part of the agent that calls
  the module or writes fields a module reads, with a module installed. What the rest of the
  simulator supplies to an acknowledgement (the sequence numbers, the round-trip estimate, the
  scoreboard's count of packets in flight) is the record \<open>ack_in\<close>.

  The locale \<open>cong_module\<close> is the contract between the agent and a module; inside it, the agent
  is proved never to trap and to keep the module's invariant over every sequence of events.
\<close>

subsection \<open>State and inputs\<close>

record 'ca agent =
  linux :: tcp_sock
  priv :: 'ca
  initialized :: bool
  next_pkts_in_flight :: int
  recover :: int
  highest_ack :: int
  maxseq :: int

record ack_in =
  in_kern :: kern
  in_flag :: u8
  in_ack :: u32
  in_acked :: u32
  in_prior_in_flight :: u32
  in_seq_rtt :: u32
  in_last_ackt :: s64
  in_usrtt :: "u32 option"
  in_pif :: int
  in_highest_ack :: int
  in_snd_una :: u32
  in_snd_nxt :: u32
  in_srtt :: u32
  in_rx_opt :: tcp_options_received

abbreviation (input) FLAG_ECE :: u8 where "FLAG_ECE \<equiv> 1"
abbreviation (input) FLAG_DATA_ACKED :: u8 where "FLAG_DATA_ACKED \<equiv> 4"
abbreviation (input) FLAG_DATA_LOST :: u8 where "FLAG_DATA_LOST \<equiv> 8"
abbreviation (input) FLAG_CA_ALERT :: u8 where "FLAG_CA_ALERT \<equiv> 3"

definition agent_sock :: "'ca agent \<Rightarrow> 'ca sock" where
  "agent_sock a = (linux a, priv a)"

definition set_agent_sock :: "'ca agent \<Rightarrow> 'ca sock \<Rightarrow> 'ca agent" where
  "set_agent_sock a s = a\<lparr>linux := fst s, priv := snd s\<rparr>"

text \<open>An agent as the constructor leaves it: no module initialised, no sequence seen. The constructor
  also resets the window, its counter and stamp, the byte count and the state of the socket.\<close>

definition fresh_agent :: "tcp_sock \<Rightarrow> 'ca \<Rightarrow> 'ca agent" where
  "fresh_agent tp ca =
     \<lparr>linux = tp\<lparr>snd_cwnd_stamp := 0, icsk_ca_state := TCP_CA_Open, snd_cwnd := 2, snd_cwnd_cnt := 0, bytes_acked := 0\<rparr>,
      priv = ca, initialized = False, next_pkts_in_flight = 0, recover = 0, highest_ack = 0, maxseq = 0\<rparr>"

lemma fresh_agent_simps [simp]:
  "initialized (fresh_agent tp ca) = False" "priv (fresh_agent tp ca) = ca"
  by (simp_all add: fresh_agent_def)

subsection \<open>Calls of the module\<close>

definition tcp_set_ca_state ::
  "'ca tcp_congestion_ops \<Rightarrow> kern \<Rightarrow> u8 \<Rightarrow> 'ca agent \<Rightarrow> 'ca agent option" where
  "tcp_set_ca_state ops k st a = do {
     s \<leftarrow> (case op_set_state ops of None \<Rightarrow> Some (agent_sock a) | Some f \<Rightarrow> f k st (agent_sock a));
     Some (set_agent_sock a ((fst s)\<lparr>icsk_ca_state := st\<rparr>, snd s))
   }"

definition tcp_ca_event_call ::
  "'ca tcp_congestion_ops \<Rightarrow> kern \<Rightarrow> tcp_ca_event \<Rightarrow> 'ca agent \<Rightarrow> 'ca agent option" where
  "tcp_ca_event_call ops k ev a =
     (case op_cwnd_event ops of
        None \<Rightarrow> Some a
      | Some f \<Rightarrow> map_option (set_agent_sock a) (f k ev (agent_sock a)))"

definition touch_cwnd :: "kern \<Rightarrow> tcp_sock \<Rightarrow> tcp_sock" where
  "touch_cwnd k tp = tp\<lparr>snd_cwnd_stamp := tcp_time_stamp k\<rparr>"

definition tcp_moderate_cwnd :: "kern \<Rightarrow> int \<Rightarrow> tcp_sock \<Rightarrow> tcp_sock" where
  "tcp_moderate_cwnd k pif tp =
     touch_cwnd k (tp\<lparr>snd_cwnd :=
       word_of_int (min (sint (snd_cwnd tp)) (pif + uint (tcp_max_burst k)))\<rparr>)"

subsection \<open>Loss: \<open>enter_loss\<close>\<close>

definition enter_loss :: "'ca tcp_congestion_ops \<Rightarrow> kern \<Rightarrow> 'ca agent \<Rightarrow> 'ca agent option" where
  "enter_loss ops k a = do {
     a \<leftarrow> Some (a\<lparr>linux := touch_cwnd k (linux a)\<rparr>);
     (v, s) \<leftarrow> op_ssthresh ops k (agent_sock a);
     a \<leftarrow> Some (set_agent_sock a ((fst s)\<lparr>snd_ssthresh := v\<rparr>, snd s));
     a \<leftarrow> tcp_ca_event_call ops k CA_EVENT_LOSS a;
     a \<leftarrow> Some (a\<lparr>linux := (linux a)\<lparr>snd_cwnd := 1, snd_cwnd_cnt := 0, bytes_acked := 0\<rparr>,
                recover := maxseq a\<rparr>);
     tcp_set_ca_state ops k TCP_CA_Loss a
   }"

subsection \<open>Recovery: \<open>tcp_fastretrans_alert\<close>\<close>

definition exit_recovery ::
  "'ca tcp_congestion_ops \<Rightarrow> kern \<Rightarrow> int \<Rightarrow> 'ca agent \<Rightarrow> 'ca agent option" where
  "exit_recovery ops k pif a = do {
     a \<leftarrow> Some (if snd_cwnd (linux a) < snd_ssthresh (linux a)
                then a\<lparr>linux := tcp_moderate_cwnd k pif ((linux a)\<lparr>snd_cwnd := snd_ssthresh (linux a)\<rparr>)\<rparr>
                else a);
     a \<leftarrow> tcp_set_ca_state ops k TCP_CA_Open a;
     Some (a\<lparr>next_pkts_in_flight := 0\<rparr>)
   }"

definition min_cwnd_call :: "'ca tcp_congestion_ops \<Rightarrow> kern \<Rightarrow> 'ca agent \<Rightarrow> u32 option" where
  "min_cwnd_call ops k a =
     (case op_min_cwnd ops of None \<Rightarrow> Some (snd_ssthresh (linux a)) | Some f \<Rightarrow> f k (agent_sock a))"

definition enter_recovery ::
  "'ca tcp_congestion_ops \<Rightarrow> kern \<Rightarrow> 'ca agent \<Rightarrow> 'ca agent option" where
  "enter_recovery ops k a = do {
     a \<leftarrow> Some (a\<lparr>recover := maxseq a, linux := touch_cwnd k (linux a)\<rparr>);
     a \<leftarrow> Some (a\<lparr>next_pkts_in_flight := sint (snd_cwnd (linux a))\<rparr>);
     (v, s) \<leftarrow> op_ssthresh ops k (agent_sock a);
     a \<leftarrow> Some (set_agent_sock a ((fst s)\<lparr>snd_ssthresh := v, snd_cwnd_cnt := 0, bytes_acked := 0\<rparr>, snd s));
     w \<leftarrow> min_cwnd_call ops k a;
     a \<leftarrow> Some (a\<lparr>linux := (linux a)\<lparr>snd_cwnd := w\<rparr>\<rparr>);
     tcp_set_ca_state ops k TCP_CA_Recovery a
   }"

definition tcp_fastretrans_alert ::
  "'ca tcp_congestion_ops \<Rightarrow> kern \<Rightarrow> int \<Rightarrow> u8 \<Rightarrow> 'ca agent \<Rightarrow> 'ca agent option" where
  "tcp_fastretrans_alert ops k pif flag a =
     (if icsk_ca_state (linux a) \<noteq> TCP_CA_Open \<and> recover a \<le> highest_ack a
      then exit_recovery ops k pif a
      else if icsk_ca_state (linux a) = TCP_CA_Recovery then Some a
      else if flag AND (FLAG_DATA_LOST OR FLAG_ECE) \<noteq> 0 then enter_recovery ops k a
      else Some a)"

subsection \<open>Acknowledgements: \<open>recv\<close>\<close>

definition ack_fields :: "ack_in \<Rightarrow> tcp_sock \<Rightarrow> tcp_sock" where
  "ack_fields i tp =
     tp\<lparr>bytes_acked := bytes_acked tp + in_acked i * mss_cache tp,
        snd_una := in_snd_una i, snd_nxt := in_snd_nxt i,
        srtt := in_srtt i, rx_opt := in_rx_opt i\<rparr>"

definition tcp_ack_is_dubious :: "u8 \<Rightarrow> tcp_sock \<Rightarrow> bool" where
  "tcp_ack_is_dubious flag tp \<longleftrightarrow>
     flag AND FLAG_DATA_ACKED = 0 \<or> flag AND FLAG_CA_ALERT \<noteq> 0 \<or> icsk_ca_state tp \<noteq> TCP_CA_Open"

definition tcp_may_raise_cwnd :: "u8 \<Rightarrow> tcp_sock \<Rightarrow> bool" where
  "tcp_may_raise_cwnd flag tp \<longleftrightarrow>
     (flag AND FLAG_ECE = 0 \<or> snd_cwnd tp < snd_ssthresh tp) \<and>
     icsk_ca_state tp \<noteq> TCP_CA_Recovery \<and> icsk_ca_state tp \<noteq> TCP_CA_CWR"

definition tcp_cong_avoid_call ::
  "'ca tcp_congestion_ops \<Rightarrow> ack_in \<Rightarrow> s32 \<Rightarrow> 'ca agent \<Rightarrow> 'ca agent option" where
  "tcp_cong_avoid_call ops i good a = do {
     s \<leftarrow> op_cong_avoid ops (in_kern i) (in_ack i * mss_cache (linux a)) (in_seq_rtt i)
            (in_prior_in_flight i) good (agent_sock a);
     Some (set_agent_sock a (touch_cwnd (in_kern i) (fst s), snd s))
   }"

text \<open>The calls before the window is raised: the RTT sample, \<open>init\<close> on the first
  acknowledgement, \<open>pkts_acked\<close>, and the fast or slow acknowledgement event.\<close>

definition rtt_sample_call :: "'ca tcp_congestion_ops \<Rightarrow> ack_in \<Rightarrow> 'ca agent \<Rightarrow> 'ca agent option" where
  "rtt_sample_call ops i a =
     (case (op_rtt_sample ops, in_usrtt i) of
        (Some f, Some us) \<Rightarrow> map_option (set_agent_sock a) (f (in_kern i) us (agent_sock a))
      | _ \<Rightarrow> Some a)"

definition init_call :: "'ca tcp_congestion_ops \<Rightarrow> ack_in \<Rightarrow> 'ca agent \<Rightarrow> 'ca agent option" where
  "init_call ops i a =
     (if initialized a then Some a
      else do {
        s \<leftarrow> (case op_init ops of None \<Rightarrow> Some (agent_sock a) | Some f \<Rightarrow> f (in_kern i) (agent_sock a));
        Some ((set_agent_sock a s)\<lparr>initialized := True\<rparr>)
      })"

definition pkts_acked_call :: "'ca tcp_congestion_ops \<Rightarrow> ack_in \<Rightarrow> 'ca agent \<Rightarrow> 'ca agent option" where
  "pkts_acked_call ops i a =
     (if in_flag i AND FLAG_DATA_ACKED = 0 then Some a
      else (case op_pkts_acked ops of
              None \<Rightarrow> Some a
            | Some f \<Rightarrow> map_option (set_agent_sock a)
                (f (in_kern i) (in_acked i) (in_last_ackt i) (agent_sock a))))"

definition recv_samples :: "'ca tcp_congestion_ops \<Rightarrow> ack_in \<Rightarrow> 'ca agent \<Rightarrow> 'ca agent option" where
  "recv_samples ops i a = do {
     a \<leftarrow> rtt_sample_call ops i a;
     a \<leftarrow> init_call ops i a;
     a \<leftarrow> pkts_acked_call ops i a;
     tcp_ca_event_call ops (in_kern i)
       (if icsk_ca_state (linux a) = TCP_CA_Open \<and> in_flag i AND FLAG_CA_ALERT = 0
           \<and> in_flag i AND FLAG_DATA_ACKED \<noteq> 0
        then CA_EVENT_FAST_ACK else CA_EVENT_SLOW_ACK) a
   }"

definition recv_control :: "'ca tcp_congestion_ops \<Rightarrow> ack_in \<Rightarrow> 'ca agent \<Rightarrow> 'ca agent option" where
  "recv_control ops i a =
     (if tcp_ack_is_dubious (in_flag i) (linux a)
      then do {
        a \<leftarrow> (if in_flag i AND FLAG_DATA_ACKED \<noteq> 0 \<and> tcp_may_raise_cwnd (in_flag i) (linux a)
              then tcp_cong_avoid_call ops i 0 a else Some a);
        tcp_fastretrans_alert ops (in_kern i) (in_pif i) (in_flag i) a
      }
      else if in_flag i AND FLAG_DATA_ACKED \<noteq> 0 then tcp_cong_avoid_call ops i 1 a
      else Some a)"

definition agent_recv :: "'ca tcp_congestion_ops \<Rightarrow> ack_in \<Rightarrow> 'ca agent \<Rightarrow> 'ca agent option" where
  "agent_recv ops i a = do {
     a \<leftarrow> Some (a\<lparr>linux := ack_fields i (linux a), highest_ack := in_highest_ack i,
                 maxseq := max (maxseq a) (in_highest_ack i)\<rparr>);
     a \<leftarrow> recv_samples ops i a;
     recv_control ops i a
   }"

subsection \<open>Runs\<close>

datatype agent_event = Recv ack_in | Timeout kern

fun agent_step :: "'ca tcp_congestion_ops \<Rightarrow> agent_event \<Rightarrow> 'ca agent \<Rightarrow> 'ca agent option" where
  "agent_step ops (Recv i) a = agent_recv ops i a"
| "agent_step ops (Timeout k) a = enter_loss ops k a"

fun agent_run :: "'ca tcp_congestion_ops \<Rightarrow> agent_event list \<Rightarrow> 'ca agent \<Rightarrow> 'ca agent option" where
  "agent_run ops [] a = Some a"
| "agent_run ops (e # es) a = do { a \<leftarrow> agent_step ops e a; agent_run ops es a }"

subsection \<open>The contract of a module\<close>

text \<open>What the agent and the modules keep of the socket: the window, its clamp and the segment
  size are positive, the threshold is at least 2, and window, clamp and threshold stay within a
  cap, which a module whose arithmetic wraps for huge windows sets below \<open>2 ^ 32 - 1\<close>.\<close>

definition base_ok :: "u32 \<Rightarrow> tcp_sock \<Rightarrow> bool" where
  "base_ok cap tp \<longleftrightarrow>
     snd_cwnd tp \<noteq> 0 \<and> snd_cwnd tp \<le> cap \<and> snd_cwnd_clamp tp \<noteq> 0 \<and> snd_cwnd_clamp tp \<le> cap \<and>
     2 \<le> snd_ssthresh tp \<and> snd_ssthresh tp \<le> cap \<and> mss_cache tp \<noteq> 0"

lemma base_ok_cwnd: "base_ok cap tp \<Longrightarrow> snd_cwnd tp \<noteq> 0"
  by (simp add: base_ok_def)

text \<open>The fields an acknowledgement has set, and an operation that leaves them alone.\<close>

definition ack_seen :: "ack_in \<Rightarrow> tcp_sock \<Rightarrow> bool" where
  "ack_seen i tp \<longleftrightarrow> srtt tp = in_srtt i \<and> rx_opt tp = in_rx_opt i"

definition ack_frame :: "tcp_sock \<Rightarrow> tcp_sock \<Rightarrow> bool" where
  "ack_frame tp tp' \<longleftrightarrow> srtt tp' = srtt tp \<and> rx_opt tp' = rx_opt tp"

lemma ack_frame_refl [simp]: "ack_frame tp tp"
  by (simp add: ack_frame_def)

lemma ack_seen_frame: "ack_seen i tp \<Longrightarrow> ack_frame tp tp' \<Longrightarrow> ack_seen i tp'"
  by (simp add: ack_seen_def ack_frame_def)

lemma ack_seen_fields: "ack_seen i (ack_fields i tp)"
  by (simp add: ack_seen_def ack_fields_def)

text \<open>What the simulator supplies: a count of packets in flight that is not negative, and a
  positive \<open>tcp_max_burst\<close> (3 by default).\<close>

definition ack_in_ok :: "ack_in \<Rightarrow> bool" where
  "ack_in_ok i \<longleftrightarrow> 0 \<le> in_pif i \<and> 0 < tcp_max_burst (in_kern i)"

lemma moderate_ok:
  assumes "(x :: u32) \<noteq> 0" "0 \<le> pif" "0 < (b :: u8)"
  shows "(word_of_int (min (sint x) (pif + uint b)) :: u32) \<noteq> 0 \<and> (word_of_int (min (sint x) (pif + uint b)) :: u32) \<le> x"
proof (cases "sint x \<le> pif + uint b")
  case True
  then show ?thesis using assms(1) by (simp add: min_def)
next
  case False
  have "0 < uint b" using assms(3) by (simp add: word_less_def)
  moreover have "sint x < 2 ^ 31" using sint_less [of x] by simp
  ultimately have "0 < pif + uint b" "pif + uint b < 2 ^ 32"
    using False assms(2) by simp_all
  then have "\<not> 4294967296 dvd pif + uint b"
    using zdvd_not_zless by auto
  then have "(word_of_int (pif + uint b) :: u32) \<noteq> 0"
    unfolding word_of_int_eq_0_iff by simp
  moreover have "(word_of_int (pif + uint b) :: u32) \<le> x"
  proof -
    have "uint x = sint x"
      using False \<open>0 < pif + uint b\<close> by (intro uint_eq_sint) simp
    moreover have "uint (word_of_int (pif + uint b) :: u32) = pif + uint b"
      unfolding uint_word_of_int_eq using \<open>0 < pif + uint b\<close> \<open>pif + uint b < 2 ^ 32\<close>
      by (subst take_bit_int_eq_self) simp_all
    ultimately show ?thesis using False by (simp only: word_le_def)
  qed
  ultimately show ?thesis using False by (simp only: min_def if_False not_False_eq_True simp_thms)
qed

text \<open>
  The laws are over a private-area invariant \<open>inv n b ca\<close>. The number \<open>n\<close> bounds the
  acknowledgements still to come: a module that counts samples in a word keeps its counter from wrapping
  for that many more. The flag \<open>b\<close> says whether
  \<open>init\<close> has run (a timeout or an RTT sample may come before the first acknowledgement, hence
  before \<open>init\<close>), and over \<open>env\<close>, what the module needs of an acknowledgement beyond
  \<open>ack_in_ok\<close>. Only \<open>cong_avoid\<close> and \<open>pkts_acked\<close> may rely on
  \<open>init\<close>. The window, clamp and threshold stay at most \<open>cap\<close>.
\<close>

locale counted_module =
  fixes ops :: "'ca tcp_congestion_ops"
    and inv :: "nat \<Rightarrow> bool \<Rightarrow> 'ca \<Rightarrow> bool"
    and env :: "ack_in \<Rightarrow> bool"
    and cap :: u32
  assumes cap_ok: "2 \<le> cap"
    and inv_Suc: "inv (Suc n) b ca \<Longrightarrow> inv n b ca"
    and ssthresh_ok: "base_ok cap tp \<Longrightarrow> inv n b ca \<Longrightarrow>
      \<exists>v tp' ca'. op_ssthresh ops k (tp, ca) = Some (v, (tp', ca')) \<and> 2 \<le> v \<and> v \<le> cap \<and> base_ok cap tp' \<and> inv n b ca'"
    and min_cwnd_ok: "op_min_cwnd ops = Some f \<Longrightarrow> base_ok cap tp \<Longrightarrow> inv n b ca \<Longrightarrow>
      \<exists>w. f k (tp, ca) = Some w \<and> w \<noteq> 0 \<and> w \<le> cap"
    and cong_avoid_ok: "base_ok cap tp \<Longrightarrow> inv n True ca \<Longrightarrow> env i \<Longrightarrow> ack_seen i tp \<Longrightarrow>
      \<exists>tp' ca'. op_cong_avoid ops (in_kern i) ack (in_seq_rtt i) in_flight flag (tp, ca) = Some (tp', ca') \<and>
        base_ok cap tp' \<and> inv n True ca'"
    and init_ok: "op_init ops = Some g \<Longrightarrow> base_ok cap tp \<Longrightarrow> inv n False ca \<Longrightarrow> env i \<Longrightarrow> ack_seen i tp \<Longrightarrow>
      \<exists>tp' ca'. g (in_kern i) (tp, ca) = Some (tp', ca') \<and> base_ok cap tp' \<and> ack_frame tp tp' \<and> inv n True ca'"
    and no_init_ok: "op_init ops = None \<Longrightarrow> inv n False ca \<Longrightarrow> inv n True ca"
    and rtt_sample_ok: "op_rtt_sample ops = Some r \<Longrightarrow> base_ok cap tp \<Longrightarrow> inv n b ca \<Longrightarrow>
      \<exists>tp' ca'. r k us (tp, ca) = Some (tp', ca') \<and> base_ok cap tp' \<and> ack_frame tp tp' \<and> inv n b ca'"
    and set_state_ok: "op_set_state ops = Some h \<Longrightarrow> base_ok cap tp \<Longrightarrow> inv n b ca \<Longrightarrow>
      \<exists>tp' ca'. h k st (tp, ca) = Some (tp', ca') \<and> base_ok cap tp' \<and> inv n b ca'"
    and cwnd_event_ok: "op_cwnd_event ops = Some e \<Longrightarrow> base_ok cap tp \<Longrightarrow> inv n b ca \<Longrightarrow>
      \<exists>tp' ca'. e k ev (tp, ca) = Some (tp', ca') \<and> base_ok cap tp' \<and> ack_frame tp tp' \<and> inv n b ca'"
    and pkts_acked_ok: "op_pkts_acked ops = Some p \<Longrightarrow> base_ok cap tp \<Longrightarrow> inv (Suc n) True ca \<Longrightarrow> env i \<Longrightarrow>
      \<exists>tp' ca'. p (in_kern i) (in_acked i) (in_last_ackt i) (tp, ca) = Some (tp', ca') \<and> base_ok cap tp' \<and> ack_frame tp tp' \<and> inv n True ca'"
begin

definition agent_ok :: "nat \<Rightarrow> 'ca agent \<Rightarrow> bool" where
  "agent_ok n a \<longleftrightarrow> base_ok cap (linux a) \<and> inv n (initialized a) (priv a)"

lemma set_state_total:
  assumes "agent_ok n a"
  shows "\<exists>a'. tcp_set_ca_state ops k st a = Some a' \<and> agent_ok n a'"
proof (cases "op_set_state ops")
  case None
  with assms show ?thesis
    by (auto simp: tcp_set_ca_state_def agent_sock_def set_agent_sock_def agent_ok_def base_ok_def)
next
  case (Some h)
  obtain tp' ca' where "h k st (linux a, priv a) = Some (tp', ca')" "base_ok cap tp'" "inv n (initialized a) ca'"
    using set_state_ok [OF Some] assms unfolding agent_ok_def by blast
  with Some show ?thesis
    by (auto simp: tcp_set_ca_state_def agent_sock_def set_agent_sock_def agent_ok_def base_ok_def)
qed

lemma event_total:
  assumes "agent_ok n a"
  shows "\<exists>a'. tcp_ca_event_call ops k ev a = Some a' \<and> agent_ok n a' \<and> initialized a' = initialized a \<and>
    ack_frame (linux a) (linux a')"
proof (cases "op_cwnd_event ops")
  case None
  with assms show ?thesis by (auto simp: tcp_ca_event_call_def)
next
  case (Some e)
  obtain tp' ca' where "e k ev (linux a, priv a) = Some (tp', ca')" "base_ok cap tp'"
    "ack_frame (linux a) tp'" "inv n (initialized a) ca'"
    using cwnd_event_ok [OF Some] assms unfolding agent_ok_def by blast
  with Some show ?thesis
    by (auto simp: tcp_ca_event_call_def agent_sock_def set_agent_sock_def agent_ok_def)
qed

lemma ssthresh_total:
  assumes "agent_ok n a"
  obtains v tp ca where "op_ssthresh ops k (agent_sock a) = Some (v, (tp, ca))" "2 \<le> v" "v \<le> cap"
    "base_ok cap tp" "inv n (initialized a) ca"
  using assms ssthresh_ok unfolding agent_ok_def agent_sock_def by blast

lemma enter_loss_total:
  assumes "agent_ok n a"
  shows "\<exists>a'. enter_loss ops k a = Some a' \<and> agent_ok n a'"
proof -
  let ?a1 = "a\<lparr>linux := touch_cwnd k (linux a)\<rparr>"
  have "agent_ok n ?a1" using assms by (simp add: agent_ok_def base_ok_def touch_cwnd_def)
  then obtain v tp ca where s: "op_ssthresh ops k (agent_sock ?a1) = Some (v, (tp, ca))" "2 \<le> v" "v \<le> cap"
    "base_ok cap tp" "inv n (initialized a) ca"
    by (rule ssthresh_total [where k = k]) simp
  define a2 where "a2 = set_agent_sock ?a1 (tp\<lparr>snd_ssthresh := v\<rparr>, ca)"
  have "agent_ok n a2"
    using s by (simp add: a2_def agent_ok_def base_ok_def set_agent_sock_def)
  then obtain a3 where e: "tcp_ca_event_call ops k CA_EVENT_LOSS a2 = Some a3" "agent_ok n a3"
    using event_total by blast
  define a4 where "a4 = a3\<lparr>linux := (linux a3)\<lparr>snd_cwnd := 1, snd_cwnd_cnt := 0, bytes_acked := 0\<rparr>,
    recover := maxseq a3\<rparr>"
  have "1 \<le> cap" using cap_ok by (simp add: word_le_nat_alt)
  then have "agent_ok n a4" using e(2) by (simp add: a4_def agent_ok_def base_ok_def)
  then obtain a5 where "tcp_set_ca_state ops k TCP_CA_Loss a4 = Some a5" "agent_ok n a5"
    using set_state_total by blast
  then show ?thesis
    using s e by (auto simp: enter_loss_def a2_def a4_def)
qed

lemma exit_recovery_total:
  assumes "agent_ok n a" "0 \<le> pif" "0 < tcp_max_burst k"
  shows "\<exists>a'. exit_recovery ops k pif a = Some a' \<and> agent_ok n a'"
proof -
  define a1 where "a1 = (if snd_cwnd (linux a) < snd_ssthresh (linux a)
    then a\<lparr>linux := tcp_moderate_cwnd k pif ((linux a)\<lparr>snd_cwnd := snd_ssthresh (linux a)\<rparr>)\<rparr> else a)"
  have "base_ok cap (tcp_moderate_cwnd k pif ((linux a)\<lparr>snd_cwnd := snd_ssthresh (linux a)\<rparr>))"
    if "base_ok cap (linux a)"
    using that assms(2,3) moderate_ok [of "snd_ssthresh (linux a)" pif "tcp_max_burst k"]
      two_le_neq_0 [of "snd_ssthresh (linux a)"]
    by (auto simp: base_ok_def tcp_moderate_cwnd_def touch_cwnd_def)
  then have "agent_ok n a1"
    using assms(1) by (simp add: a1_def agent_ok_def)
  then obtain a2 where "tcp_set_ca_state ops k TCP_CA_Open a1 = Some a2" "agent_ok n a2"
    using set_state_total by blast
  then show ?thesis by (auto simp: exit_recovery_def a1_def agent_ok_def)
qed

lemma enter_recovery_total:
  assumes "agent_ok n a"
  shows "\<exists>a'. enter_recovery ops k a = Some a' \<and> agent_ok n a'"
proof -
  define a1 where "a1 = a\<lparr>recover := maxseq a, linux := touch_cwnd k (linux a),
    next_pkts_in_flight := sint (snd_cwnd (linux a))\<rparr>"
  have "agent_ok n a1" using assms by (simp add: a1_def agent_ok_def base_ok_def touch_cwnd_def)
  then obtain v tp ca where s: "op_ssthresh ops k (agent_sock a1) = Some (v, (tp, ca))" "2 \<le> v" "v \<le> cap"
    "base_ok cap tp" "inv n (initialized a1) ca"
    by (rule ssthresh_total [where k = k])
  define a2 where "a2 = set_agent_sock a1 (tp\<lparr>snd_ssthresh := v, snd_cwnd_cnt := 0, bytes_acked := 0\<rparr>, ca)"
  have a2: "agent_ok n a2" "snd_ssthresh (linux a2) = v"
    using s by (simp_all add: a2_def agent_ok_def base_ok_def set_agent_sock_def)
  obtain w where w: "min_cwnd_call ops k a2 = Some w" "w \<noteq> 0" "w \<le> cap"
  proof (cases "op_min_cwnd ops")
    case None
    moreover have "v \<noteq> 0" using s(2) by (rule two_le_neq_0)
    ultimately show ?thesis using that [of v] a2(2) s(3) by (simp add: min_cwnd_call_def)
  next
    case (Some f)
    then show ?thesis using that min_cwnd_ok [OF Some] a2(1)
      unfolding agent_ok_def agent_sock_def min_cwnd_call_def by force
  qed
  define a3 where "a3 = a2\<lparr>linux := (linux a2)\<lparr>snd_cwnd := w\<rparr>\<rparr>"
  have "agent_ok n a3" using a2(1) w(2,3) by (simp add: a3_def agent_ok_def base_ok_def)
  then obtain a4 where "tcp_set_ca_state ops k TCP_CA_Recovery a3 = Some a4" "agent_ok n a4"
    using set_state_total by blast
  then show ?thesis
    using s(1) w(1) by (simp add: enter_recovery_def a1_def a2_def a3_def touch_cwnd_def)
qed

lemma fastretrans_total:
  assumes "agent_ok n a" "0 \<le> pif" "0 < tcp_max_burst k"
  shows "\<exists>a'. tcp_fastretrans_alert ops k pif flag a = Some a' \<and> agent_ok n a'"
  using assms exit_recovery_total enter_recovery_total by (simp add: tcp_fastretrans_alert_def)

lemma cong_avoid_call_total:
  assumes "agent_ok n a" "initialized a" "env i" "ack_seen i (linux a)"
  shows "\<exists>a'. tcp_cong_avoid_call ops i good a = Some a' \<and> agent_ok n a'"
proof -
  obtain tp' ca' where "op_cong_avoid ops (in_kern i) (in_ack i * mss_cache (linux a)) (in_seq_rtt i)
      (in_prior_in_flight i) good (linux a, priv a) = Some (tp', ca')" "base_ok cap tp'" "inv n True ca'"
    using cong_avoid_ok [OF _ _ assms(3,4)] assms(1,2) unfolding agent_ok_def by metis
  with assms(2) show ?thesis
    by (auto simp: tcp_cong_avoid_call_def agent_sock_def set_agent_sock_def agent_ok_def
      base_ok_def touch_cwnd_def)
qed

lemma rtt_sample_total:
  assumes "agent_ok n a"
  shows "\<exists>a'. rtt_sample_call ops i a = Some a' \<and> agent_ok n a' \<and> ack_frame (linux a) (linux a')"
proof (cases "\<exists>f us. op_rtt_sample ops = Some f \<and> in_usrtt i = Some us")
  case True
  then obtain f us where f: "op_rtt_sample ops = Some f" "in_usrtt i = Some us" by blast
  obtain tp' ca' where "f (in_kern i) us (linux a, priv a) = Some (tp', ca')" "base_ok cap tp'"
    "ack_frame (linux a) tp'" "inv n (initialized a) ca'"
    using rtt_sample_ok [OF f(1)] assms unfolding agent_ok_def by blast
  with f show ?thesis
    by (auto simp: rtt_sample_call_def agent_sock_def set_agent_sock_def agent_ok_def)
next
  case False
  with assms show ?thesis
    by (auto simp: rtt_sample_call_def split: option.split)
qed

lemma init_total:
  assumes "agent_ok n a" "env i" "ack_seen i (linux a)"
  shows "\<exists>a'. init_call ops i a = Some a' \<and> agent_ok n a' \<and> initialized a' \<and>
    ack_frame (linux a) (linux a')"
proof (cases "initialized a")
  case True
  with assms(1) show ?thesis by (simp add: init_call_def)
next
  case False
  then have a: "base_ok cap (linux a)" "inv n False (priv a)" using assms(1) by (simp_all add: agent_ok_def)
  show ?thesis
  proof (cases "op_init ops")
    case None
    with a no_init_ok False show ?thesis
      by (simp add: init_call_def agent_sock_def set_agent_sock_def agent_ok_def)
  next
    case (Some f)
    obtain tp' ca' where "f (in_kern i) (linux a, priv a) = Some (tp', ca')" "base_ok cap tp'"
      "ack_frame (linux a) tp'" "inv n True ca'"
      using init_ok [OF Some a assms(2,3)] by blast
    with Some False show ?thesis
      by (simp add: init_call_def agent_sock_def set_agent_sock_def agent_ok_def)
  qed
qed

lemma agent_ok_Suc: "agent_ok (Suc n) a \<Longrightarrow> agent_ok n a"
  using inv_Suc by (simp add: agent_ok_def)

lemma pkts_acked_total:
  assumes "agent_ok (Suc n) a" "initialized a" "env i"
  shows "\<exists>a'. pkts_acked_call ops i a = Some a' \<and> agent_ok n a' \<and> initialized a' \<and>
    ack_frame (linux a) (linux a')"
proof (cases "op_pkts_acked ops")
  case None
  with agent_ok_Suc [OF assms(1)] assms(2) show ?thesis by (simp add: pkts_acked_call_def)
next
  case (Some f)
  obtain tp' ca' where "f (in_kern i) (in_acked i) (in_last_ackt i) (linux a, priv a) = Some (tp', ca')"
    "base_ok cap tp'" "ack_frame (linux a) tp'" "inv n True ca'"
    using pkts_acked_ok [OF Some, of "linux a" n "priv a" i] assms
    by (auto simp: agent_ok_def)
  with Some assms(2) agent_ok_Suc [OF assms(1)] show ?thesis
    by (simp add: pkts_acked_call_def agent_sock_def set_agent_sock_def agent_ok_def)
qed

lemma samples_total:
  assumes "agent_ok (Suc n) a" "env i" "ack_seen i (linux a)"
  shows "\<exists>a'. recv_samples ops i a = Some a' \<and> agent_ok n a' \<and> initialized a' \<and>
    ack_frame (linux a) (linux a')"
proof -
  obtain a1 where 1: "rtt_sample_call ops i a = Some a1" "agent_ok (Suc n) a1" "ack_frame (linux a) (linux a1)"
    using rtt_sample_total [OF assms(1)] by blast
  obtain a2 where 2: "init_call ops i a1 = Some a2" "agent_ok (Suc n) a2" "initialized a2"
    "ack_frame (linux a1) (linux a2)"
    using init_total [OF 1(2) assms(2) ack_seen_frame [OF assms(3) 1(3)]] by blast
  obtain a3 where 3: "pkts_acked_call ops i a2 = Some a3" "agent_ok n a3" "initialized a3"
    "ack_frame (linux a2) (linux a3)"
    using pkts_acked_total [OF 2(2,3) assms(2)] by blast
  show ?thesis
    using 1 2 3 event_total [OF 3(2)] by (simp add: recv_samples_def ack_frame_def)
qed

lemma recv_total:
  assumes "agent_ok (Suc n) a" "ack_in_ok i" "env i"
  shows "\<exists>a'. agent_recv ops i a = Some a' \<and> agent_ok n a'"
proof -
  define a1 where "a1 = a\<lparr>linux := ack_fields i (linux a), highest_ack := in_highest_ack i,
    maxseq := max (maxseq a) (in_highest_ack i)\<rparr>"
  have "agent_ok (Suc n) a1" "ack_seen i (linux a1)"
    using assms(1) by (simp_all add: a1_def agent_ok_def base_ok_def ack_seen_fields) (simp add: ack_fields_def)
  then obtain a2 where a2: "recv_samples ops i a1 = Some a2" "agent_ok n a2" "initialized a2"
    "ack_seen i (linux a2)"
    using samples_total [of n a1 i] assms(3) ack_seen_frame by blast
  have ca: "\<exists>a3. tcp_cong_avoid_call ops i good a2 = Some a3 \<and> agent_ok n a3" for good
    by (rule cong_avoid_call_total [OF a2(2,3) assms(3) a2(4)])
  have fr: "agent_ok n a3 \<Longrightarrow> \<exists>a'. tcp_fastretrans_alert ops (in_kern i) (in_pif i) (in_flag i) a3 = Some a' \<and>
      agent_ok n a'" for a3
    using fastretrans_total assms(2) by (simp add: ack_in_ok_def)
  have "agent_recv ops i a = recv_control ops i a2"
    using a2(1) by (simp add: agent_recv_def a1_def)
  moreover obtain a3 a4 where "tcp_cong_avoid_call ops i 0 a2 = Some a3" "agent_ok n a3"
    "tcp_cong_avoid_call ops i 1 a2 = Some a4" "agent_ok n a4"
    using ca by blast
  ultimately show ?thesis
    using fr [of a2] fr [of a3] a2(2) by (simp add: recv_control_def)
qed

text \<open>Every sequence of acknowledgements and timeouts is processed without a trap or a loop that
  does not end, and keeps the invariant.\<close>

theorem run_total:
  assumes "agent_ok (length es + n) a" "\<And>i. Recv i \<in> set es \<Longrightarrow> ack_in_ok i \<and> env i"
  shows "\<exists>a'. agent_run ops es a = Some a' \<and> agent_ok n a'"
  using assms
proof (induction es arbitrary: a)
  case (Cons e es)
  define m where "m = length es + n"
  have a: "agent_ok (Suc m) a" using Cons.prems(1) by (simp add: m_def)
  obtain a' where "agent_step ops e a = Some a'" "agent_ok m a'"
  proof (cases e)
    case (Recv i)
    then have "ack_in_ok i \<and> env i" using Cons.prems(2) by simp
    with Recv show ?thesis using that recv_total [OF a] by auto
  next
    case (Timeout k)
    then show ?thesis using that enter_loss_total [OF agent_ok_Suc [OF a]] by auto
  qed
  with Cons show ?case by (simp add: m_def)
qed simp

end

text \<open>
  The modules without such a counter have one invariant \<open>inv b ca\<close> for all \<open>n\<close>, and
  their agent runs for ever.
\<close>

locale cong_module =
  fixes ops :: "'ca tcp_congestion_ops"
    and inv :: "bool \<Rightarrow> 'ca \<Rightarrow> bool"
    and env :: "ack_in \<Rightarrow> bool"
    and cap :: u32
  assumes cap_ok: "2 \<le> cap"
    and ssthresh_ok: "base_ok cap tp \<Longrightarrow> inv b ca \<Longrightarrow>
      \<exists>v tp' ca'. op_ssthresh ops k (tp, ca) = Some (v, (tp', ca')) \<and> 2 \<le> v \<and> v \<le> cap \<and> base_ok cap tp' \<and> inv b ca'"
    and min_cwnd_ok: "op_min_cwnd ops = Some f \<Longrightarrow> base_ok cap tp \<Longrightarrow> inv b ca \<Longrightarrow>
      \<exists>w. f k (tp, ca) = Some w \<and> w \<noteq> 0 \<and> w \<le> cap"
    and cong_avoid_ok: "base_ok cap tp \<Longrightarrow> inv True ca \<Longrightarrow> env i \<Longrightarrow> ack_seen i tp \<Longrightarrow>
      \<exists>tp' ca'. op_cong_avoid ops (in_kern i) ack (in_seq_rtt i) in_flight flag (tp, ca) = Some (tp', ca') \<and>
        base_ok cap tp' \<and> inv True ca'"
    and init_ok: "op_init ops = Some g \<Longrightarrow> base_ok cap tp \<Longrightarrow> inv False ca \<Longrightarrow> env i \<Longrightarrow> ack_seen i tp \<Longrightarrow>
      \<exists>tp' ca'. g (in_kern i) (tp, ca) = Some (tp', ca') \<and> base_ok cap tp' \<and> ack_frame tp tp' \<and> inv True ca'"
    and no_init_ok: "op_init ops = None \<Longrightarrow> inv False ca \<Longrightarrow> inv True ca"
    and rtt_sample_ok: "op_rtt_sample ops = Some r \<Longrightarrow> base_ok cap tp \<Longrightarrow> inv b ca \<Longrightarrow>
      \<exists>tp' ca'. r k us (tp, ca) = Some (tp', ca') \<and> base_ok cap tp' \<and> ack_frame tp tp' \<and> inv b ca'"
    and set_state_ok: "op_set_state ops = Some h \<Longrightarrow> base_ok cap tp \<Longrightarrow> inv b ca \<Longrightarrow>
      \<exists>tp' ca'. h k st (tp, ca) = Some (tp', ca') \<and> base_ok cap tp' \<and> inv b ca'"
    and cwnd_event_ok: "op_cwnd_event ops = Some e \<Longrightarrow> base_ok cap tp \<Longrightarrow> inv b ca \<Longrightarrow>
      \<exists>tp' ca'. e k ev (tp, ca) = Some (tp', ca') \<and> base_ok cap tp' \<and> ack_frame tp tp' \<and> inv b ca'"
    and pkts_acked_ok: "op_pkts_acked ops = Some p \<Longrightarrow> base_ok cap tp \<Longrightarrow> inv True ca \<Longrightarrow> env i \<Longrightarrow>
      \<exists>tp' ca'. p (in_kern i) (in_acked i) (in_last_ackt i) (tp, ca) = Some (tp', ca') \<and> base_ok cap tp' \<and> ack_frame tp tp' \<and> inv True ca'"

sublocale cong_module \<subseteq> counted: counted_module ops "\<lambda>_. inv" env cap
  by unfold_locales (fact cap_ok no_init_ok ssthresh_ok min_cwnd_ok cong_avoid_ok init_ok rtt_sample_ok
    set_state_ok cwnd_event_ok pkts_acked_ok | assumption)+

context cong_module
begin

lemma run_total:
  assumes "base_ok cap (linux a)" "inv (initialized a) (priv a)" "\<And>i. Recv i \<in> set es \<Longrightarrow> ack_in_ok i \<and> env i"
  shows "\<exists>a'. agent_run ops es a = Some a' \<and> base_ok cap (linux a') \<and> inv (initialized a') (priv a')"
  using counted.run_total [where n = 0 and a = a and es = es] assms by (simp add: counted.agent_ok_def)

end

end
