(* ===== verification/Reno.thy ===== *)
theory Reno
  imports Linux_Agent
begin

section \<open>Slow start and Reno (\<open>tcp_cong.c\<close>)\<close>

text \<open>
  \<open>tcp_slow_start\<close> with Appropriate Byte Counting and limited slow start, and the Reno
  operations that every other module falls back on. The loop of slow start ends unless the window
  and its clamp are both 0, and is modelled as a partial function whose domain is proved. The lemmas
  give its result, the growth of the window per acknowledgement, and the interface contract
  (the window stays positive, the threshold is at least 2).
\<close>

subsection \<open>Slow start\<close>

text \<open>\<open>while (cnt >= cwnd) { cnt -= cwnd; if (cwnd < clamp) cwnd++; }\<close>\<close>

partial_function (option) slow_start_loop :: "u16 \<Rightarrow> u32 \<Rightarrow> u16 \<Rightarrow> (u32 \<times> u16) option" where
  "slow_start_loop clamp cwnd cnt =
     (if cwnd \<le> cnt
      then slow_start_loop clamp (if cwnd < clamp then cwnd + 1 else cwnd) (cnt - cwnd)
      else Some (cwnd, cnt))"

text \<open>The number of packets the acknowledgement counts for (\<open>int cnt\<close> of the source).\<close>

definition slow_start_cnt :: "kern \<Rightarrow> tcp_sock \<Rightarrow> s32" where
  "slow_start_cnt k tp =
     (let cnt = (if 0 < sint (sysctl_tcp_max_ssthresh k) \<and> sysctl_tcp_max_ssthresh k < snd_cwnd tp
                 then signed_drop_bit 1 (sysctl_tcp_max_ssthresh k)
                 else snd_cwnd tp)
      in if 1 < sysctl_tcp_abc k \<and> 2 * mss_cache tp \<le> bytes_acked tp then push_bit 1 cnt else cnt)"

definition tcp_slow_start :: "kern \<Rightarrow> tcp_sock \<Rightarrow> tcp_sock option" where
  "tcp_slow_start k tp =
     (if sysctl_tcp_abc k \<noteq> 0 \<and> bytes_acked tp < mss_cache tp then Some tp
      else do {
        (w, c) \<leftarrow> slow_start_loop (snd_cwnd_clamp tp) (snd_cwnd tp)
                    (snd_cwnd_cnt tp + slow_start_cnt k tp);
        Some (tp\<lparr>bytes_acked := 0, snd_cwnd := w, snd_cwnd_cnt := c\<rparr>)
      })"

subsection \<open>Reno\<close>

text \<open>
  The additive increase that Reno and several modules share: one more packet once \<open>w\<close>
  acknowledgements have been counted, unless the window is at its clamp.
\<close>

definition ai_step :: "u32 \<Rightarrow> tcp_sock \<Rightarrow> tcp_sock" where
  "ai_step w tp =
     (if w \<le> snd_cwnd_cnt tp
      then tp\<lparr>snd_cwnd := (if snd_cwnd tp < snd_cwnd_clamp tp then snd_cwnd tp + 1 else snd_cwnd tp),
              snd_cwnd_cnt := 0\<rparr>
      else tp\<lparr>snd_cwnd_cnt := snd_cwnd_cnt tp + 1\<rparr>)"

text \<open>Congestion avoidance with byte counting: one packet per window of acknowledged bytes.\<close>

definition abc_step :: "tcp_sock \<Rightarrow> tcp_sock" where
  "abc_step tp =
     (if snd_cwnd tp * mss_cache tp \<le> bytes_acked tp
      then tp\<lparr>bytes_acked := bytes_acked tp - snd_cwnd tp * mss_cache tp,
              snd_cwnd := (if snd_cwnd tp < snd_cwnd_clamp tp then snd_cwnd tp + 1 else snd_cwnd tp)\<rparr>
      else tp)"

definition tcp_reno_cong_avoid ::
  "kern \<Rightarrow> u32 \<Rightarrow> u32 \<Rightarrow> u32 \<Rightarrow> s32 \<Rightarrow> tcp_sock \<Rightarrow> tcp_sock option" where
  "tcp_reno_cong_avoid k ack rtt in_flight flag tp =
     (if \<not> tcp_is_cwnd_limited tp in_flight then Some tp
      else if snd_cwnd tp \<le> snd_ssthresh tp then tcp_slow_start k tp
      else if sysctl_tcp_abc k \<noteq> 0 then Some (abc_step tp)
      else Some (ai_step (snd_cwnd tp) tp))"

definition tcp_reno_ssthresh :: "tcp_sock \<Rightarrow> u32" where
  "tcp_reno_ssthresh tp = max (drop_bit 1 (snd_cwnd tp)) 2"

definition tcp_reno_min_cwnd :: "tcp_sock \<Rightarrow> u32" where
  "tcp_reno_min_cwnd tp = snd_ssthresh tp div 2"

text \<open>An operation on the socket alone, and one that only reads it, as entries of the table.\<close>

definition on_sock :: "(tcp_sock \<Rightarrow> tcp_sock option) \<Rightarrow> 'ca sock \<Rightarrow> 'ca sock option" where
  "on_sock f s = map_option (\<lambda>tp. (tp, snd s)) (f (fst s))"

definition tcp_reno :: "unit tcp_congestion_ops" where
  "tcp_reno =
     \<lparr>op_flags = TCP_CONG_NON_RESTRICTED,
      op_name = ''reno'',
      op_init = None,
      op_ssthresh = (\<lambda>k s. Some (tcp_reno_ssthresh (fst s), s)),
      op_min_cwnd = Some (\<lambda>k s. Some (tcp_reno_min_cwnd (fst s))),
      op_cong_avoid = (\<lambda>k ack rtt in_flight flag. on_sock (tcp_reno_cong_avoid k ack rtt in_flight flag)),
      op_rtt_sample = None,
      op_set_state = None,
      op_cwnd_event = None,
      op_undo_cwnd = None,
      op_pkts_acked = None\<rparr>"

definition tcp_init_congestion_ops :: "unit tcp_congestion_ops" where
  "tcp_init_congestion_ops =
     \<lparr>op_flags = 0,
      op_name = '''',
      op_init = None,
      op_ssthresh = (\<lambda>k s. Some (tcp_reno_ssthresh (fst s), s)),
      op_min_cwnd = Some (\<lambda>k s. Some (tcp_reno_min_cwnd (fst s))),
      op_cong_avoid = (\<lambda>k ack rtt in_flight flag. on_sock (tcp_reno_cong_avoid k ack rtt in_flight flag)),
      op_rtt_sample = None,
      op_set_state = None,
      op_cwnd_event = None,
      op_undo_cwnd = None,
      op_pkts_acked = None\<rparr>"

subsection \<open>The loop of slow start\<close>

lemma slow_start_loop_stop: "cnt < cwnd \<Longrightarrow> slow_start_loop clamp cwnd cnt = Some (cwnd, cnt)"
  by (subst slow_start_loop.simps) auto

lemma slow_start_loop_step:
  "cwnd \<le> cnt \<Longrightarrow> slow_start_loop clamp cwnd cnt =
     slow_start_loop clamp (if cwnd < clamp then cwnd + 1 else cwnd) (cnt - cwnd)"
  by (subst slow_start_loop.simps) simp

lemma slow_start_loop_diverges: "slow_start_loop 0 0 cnt = None"
proof (rule ccontr)
  assume "slow_start_loop 0 0 cnt \<noteq> None"
  then obtain r where "slow_start_loop 0 0 cnt = Some r" by auto
  then have "\<not> ((0 :: u16) = 0 \<and> (0 :: u32) = 0)"
    by (rule slow_start_loop.raw_induct [where P = "\<lambda>clamp cwnd cnt r. \<not> (clamp = 0 \<and> cwnd = 0)", rotated])
      (auto split: if_splits)
  then show False by simp
qed

text \<open>
  With a positive window the loop ends: what it returns is a counter below the window, a window
  that has only grown and not beyond the clamp.
\<close>

lemma slow_start_loop_total:
  assumes "0 < unat cwnd"
  shows "\<exists>w c. slow_start_loop clamp cwnd cnt = Some (w, c) \<and> unat c < unat w \<and>
     unat cwnd \<le> unat w \<and> unat w \<le> max (unat cwnd) (unat clamp)"
  using assms
proof (induction "unat cnt" arbitrary: cwnd cnt rule: less_induct)
  case less
  show ?case
  proof (cases "cwnd \<le> cnt")
    case True
    define cwnd' where "cwnd' = (if cwnd < clamp then cwnd + 1 else cwnd)"
    have cwnd': "unat cwnd \<le> unat cwnd'" "unat cwnd' \<le> max (unat cwnd) (unat clamp)"
      by (auto simp: cwnd'_def unat_Suc_less word_less_nat_alt)
    have "unat (cnt - cwnd) = unat cnt - unat cwnd"
      using True by (rule unat_sub_le)
    moreover have "unat cwnd \<le> unat cnt" using True by (simp add: word_le_nat_alt)
    ultimately have "unat (cnt - cwnd) < unat cnt" using less.prems by simp
    moreover have "0 < unat cwnd'" using less.prems cwnd'(1) by simp
    ultimately obtain w c where "slow_start_loop clamp cwnd' (cnt - cwnd) = Some (w, c)"
      "unat c < unat w" "unat cwnd' \<le> unat w" "unat w \<le> max (unat cwnd') (unat clamp)"
      using less.hyps by blast
    with True cwnd' show ?thesis
      by (simp add: slow_start_loop_step flip: cwnd'_def)
  next
    case False
    then show ?thesis by (auto simp: slow_start_loop_stop word_less_nat_alt not_le)
  qed
qed

lemma slow_start_loop_at_clamp:
  assumes "0 < unat cwnd" "\<not> cwnd < clamp"
  shows "slow_start_loop clamp cwnd cnt = Some (cwnd, cnt mod cwnd)"
  using assms(1)
proof (induction "unat cnt" arbitrary: cnt rule: less_induct)
  case less
  show ?case
  proof (cases "cwnd \<le> cnt")
    case True
    then have *: "unat (cnt - cwnd) = unat cnt - unat cwnd" "unat cwnd \<le> unat cnt"
      by (simp_all add: unat_sub_le word_le_nat_alt)
    then have "unat (cnt - cwnd) < unat cnt" using less.prems by simp
    then have "slow_start_loop clamp cwnd (cnt - cwnd) = Some (cwnd, (cnt - cwnd) mod cwnd)"
      using less.hyps less.prems by blast
    moreover have "(cnt - cwnd) mod cwnd = cnt mod cwnd"
      using * by (simp add: word_unat_eq_iff unat_mod le_mod_geq)
    ultimately show ?thesis using True assms(2) by (simp add: slow_start_loop_step)
  next
    case False
    then show ?thesis
      by (simp add: slow_start_loop_stop word_unat_eq_iff unat_mod word_less_nat_alt not_le)
  qed
qed

text \<open>
  What the loop computes: after \<open>n\<close> rounds the window is \<open>n\<close> larger, but not beyond the
  clamp (a window already above it stays), and the rounds have consumed the windows they started
  with.
\<close>

definition slow_start_win :: "u16 \<Rightarrow> u32 \<Rightarrow> nat \<Rightarrow> nat" where
  "slow_start_win clamp cwnd i = max (unat cwnd) (min (unat cwnd + i) (unat clamp))"

lemma slow_start_win_0: "slow_start_win clamp cwnd 0 = unat cwnd"
  by (simp add: slow_start_win_def)

lemma slow_start_win_Suc:
  "slow_start_win clamp (if cwnd < clamp then cwnd + 1 else cwnd) i = slow_start_win clamp cwnd (Suc i)"
  by (auto simp: slow_start_win_def unat_Suc_less word_less_nat_alt)

lemma slow_start_loop_sum:
  assumes "0 < unat cwnd"
  shows "\<exists>w c n. slow_start_loop clamp cwnd cnt = Some (w, c) \<and> unat c < unat w \<and>
     unat w = slow_start_win clamp cwnd n \<and> unat cnt = unat c + (\<Sum>i<n. slow_start_win clamp cwnd i)"
  using assms
proof (induction "unat cnt" arbitrary: cwnd cnt rule: less_induct)
  case less
  show ?case
  proof (cases "cwnd \<le> cnt")
    case True
    define cwnd' where "cwnd' = (if cwnd < clamp then cwnd + 1 else cwnd)"
    have "unat cwnd \<le> unat cwnd'" by (simp add: cwnd'_def unat_Suc_less)
    moreover have cnt: "unat (cnt - cwnd) = unat cnt - unat cwnd" "unat cwnd \<le> unat cnt"
      using True by (simp_all add: unat_sub_le word_le_nat_alt)
    ultimately obtain w c n where *: "slow_start_loop clamp cwnd' (cnt - cwnd) = Some (w, c)"
      "unat c < unat w" "unat w = slow_start_win clamp cwnd' n"
      "unat (cnt - cwnd) = unat c + (\<Sum>i<n. slow_start_win clamp cwnd' i)"
      using less.hyps [of "cnt - cwnd" cwnd'] less.prems by auto
    have "(\<Sum>i<Suc n. slow_start_win clamp cwnd i) = unat cwnd + (\<Sum>i<n. slow_start_win clamp cwnd' i)"
      unfolding sum.lessThan_Suc_shift
      by (simp only: slow_start_win_0 cwnd'_def slow_start_win_Suc)
    then have "unat cnt = unat c + (\<Sum>i<Suc n. slow_start_win clamp cwnd i)"
      using * cnt by simp
    moreover have "slow_start_loop clamp cwnd cnt = Some (w, c)"
      using True *(1) by (simp add: slow_start_loop_step flip: cwnd'_def)
    moreover have "unat w = slow_start_win clamp cwnd (Suc n)"
      using *(3) slow_start_win_Suc [of clamp cwnd n] by (simp add: cwnd'_def)
    ultimately show ?thesis using *(2) by blast
  next
    case False
    then have "slow_start_loop clamp cwnd cnt = Some (cwnd, cnt)" "unat cnt < unat cwnd"
      by (simp_all add: slow_start_loop_stop word_less_nat_alt not_le)
    moreover have "unat cwnd = slow_start_win clamp cwnd 0" "unat cnt = unat cnt + (\<Sum>i<0. slow_start_win clamp cwnd i)"
      by (simp_all add: slow_start_win_0)
    ultimately show ?thesis by blast
  qed
qed

subsection \<open>The window after an acknowledgement\<close>

text \<open>Everything but the window, its counter and the byte count is the same; the window has only
  grown, and not beyond the clamp.\<close>

definition window_grown :: "tcp_sock \<Rightarrow> tcp_sock \<Rightarrow> bool" where
  "window_grown tp tp' \<longleftrightarrow>
     tp' = tp\<lparr>snd_cwnd := snd_cwnd tp', snd_cwnd_cnt := snd_cwnd_cnt tp', bytes_acked := bytes_acked tp'\<rparr> \<and>
     snd_cwnd tp \<le> snd_cwnd tp' \<and> snd_cwnd tp' \<le> max (snd_cwnd tp) (snd_cwnd_clamp tp)"

lemma window_grown_refl [simp]: "window_grown tp tp"
  by (simp add: window_grown_def)

lemma window_grown_frame:
  assumes "window_grown tp tp'"
  shows "snd_cwnd_clamp tp' = snd_cwnd_clamp tp" "snd_ssthresh tp' = snd_ssthresh tp"
    "mss_cache tp' = mss_cache tp" "ack_frame tp tp'"
proof -
  define w c b where "w = snd_cwnd tp'" "c = snd_cwnd_cnt tp'" "b = bytes_acked tp'"
  have "tp' = tp\<lparr>snd_cwnd := w, snd_cwnd_cnt := c, bytes_acked := b\<rparr>"
    using assms unfolding window_grown_def w_c_b_def by blast
  then show "snd_cwnd_clamp tp' = snd_cwnd_clamp tp" "snd_ssthresh tp' = snd_ssthresh tp"
    "mss_cache tp' = mss_cache tp" "ack_frame tp tp'"
    by (simp_all add: ack_frame_def)
qed

lemma window_grown_base_ok: "window_grown tp tp' \<Longrightarrow> base_ok cap tp \<Longrightarrow> base_ok cap tp'"
  by (auto simp: base_ok_def window_grown_frame) (auto simp: window_grown_def max_def split: if_splits)

lemma ai_step_grown: "window_grown tp (ai_step w tp)"
  by (auto simp: window_grown_def ai_step_def word_as_nat unat_Suc_less unat_max)

lemma abc_step_grown: "window_grown tp (abc_step tp)"
  by (auto simp: window_grown_def abc_step_def word_as_nat unat_Suc_less unat_max)

lemma ai_step_base_ok: "base_ok cap tp \<Longrightarrow> base_ok cap (ai_step w tp)"
  using window_grown_base_ok ai_step_grown by blast

lemma tcp_slow_start_total:
  assumes "snd_cwnd tp \<noteq> 0"
  shows "\<exists>tp'. tcp_slow_start k tp = Some tp' \<and> window_grown tp tp'"
proof -
  obtain w c where "slow_start_loop (snd_cwnd_clamp tp) (snd_cwnd tp)
      (snd_cwnd_cnt tp + slow_start_cnt k tp) = Some (w, c)"
    "unat (snd_cwnd tp) \<le> unat w" "unat w \<le> max (unat (snd_cwnd tp)) (unat (snd_cwnd_clamp tp))"
    using slow_start_loop_total assms by (metis word_neq_0_iff_unat)
  then show ?thesis
    by (simp add: tcp_slow_start_def window_grown_def word_le_nat_alt unat_max)
qed

lemma tcp_reno_cong_avoid_total:
  assumes "snd_cwnd tp \<noteq> 0"
  shows "\<exists>tp'. tcp_reno_cong_avoid k ack rtt in_flight flag tp = Some tp' \<and> window_grown tp tp'"
  using tcp_slow_start_total [OF assms, of k] ai_step_grown abc_step_grown
  by (simp add: tcp_reno_cong_avoid_def)

lemma on_sock_Some [simp]: "f (fst s) = Some tp' \<Longrightarrow> on_sock f s = Some (tp', snd s)"
  by (simp add: on_sock_def)

lemma tcp_reno_min_cwnd_neq_0: "2 \<le> snd_ssthresh tp \<Longrightarrow> tcp_reno_min_cwnd tp \<noteq> 0"
  by (simp add: tcp_reno_min_cwnd_def word_as_nat unat_div_word)

lemma tcp_reno_min_cwnd_le: "snd_ssthresh tp \<le> cap \<Longrightarrow> tcp_reno_min_cwnd tp \<le> cap"
  by (simp add: tcp_reno_min_cwnd_def word_le_nat_alt unat_div_word)

text \<open>The average of packets per acknowledgement that BIC and CUBIC keep, in sixteenths:
  \<open>15 / 16\<close> of the old value and the new sample. While no sample is above \<open>m\<close>, it is not either.\<close>

lemma ewma_16_bound: "(d :: nat) \<le> 16 * m \<Longrightarrow> d - d div 16 \<le> 15 * m"
proof -
  assume d: "d \<le> 16 * m"
  define q r where "q = d div 16" and "r = d mod 16"
  have "d = 16 * q + r" "r < 16" by (simp_all add: q_def r_def)
  moreover have "q \<le> m" "q = m \<longrightarrow> r = 0" using d \<open>d = 16 * q + r\<close> by auto
  ultimately show ?thesis unfolding q_def [symmetric] by (cases "q = m") auto
qed

lemma delayed_ack_average:
  fixes d c :: u32
  assumes "unat d \<le> 16 * m" "unat c \<le> m" "m \<le> 2 ^ 27"
  shows "unat (d + (c - drop_bit 4 d)) = unat d - unat d div 16 + unat c"
    and "unat d - unat d div 16 + unat c \<le> 16 * m"
proof -
  have e: "unat (drop_bit 4 d) = unat d div 16" by (simp add: unat_drop_bit_div)
  then have s: "unat (d - drop_bit 4 d) = unat d - unat d div 16"
    by (simp add: unat_sub_le word_le_nat_alt)
  show b: "unat d - unat d div 16 + unat c \<le> 16 * m"
    using ewma_16_bound [OF assms(1)] assms(2) by simp
  have "unat ((d - drop_bit 4 d) + c) = unat d - unat d div 16 + unat c"
    using unat_add_nowrap [of "d - drop_bit 4 d" c] s b assms(3) by simp
  moreover have "d + (c - drop_bit 4 d) = (d - drop_bit 4 d) + c" by (simp add: algebra_simps)
  ultimately show "unat (d + (c - drop_bit 4 d)) = unat d - unat d div 16 + unat c"
    by (simp only:)
qed

lemma word_le_max [simp]: "(x :: u32) \<le> - 1"
  by (rule word_order.extremum)

lemma tcp_reno_ssthresh_ge: "2 \<le> tcp_reno_ssthresh tp"
  by (simp only: tcp_reno_ssthresh_def max.cobounded2)

lemma tcp_reno_ssthresh_le:
  "2 \<le> cap \<Longrightarrow> snd_cwnd tp \<le> cap \<Longrightarrow> tcp_reno_ssthresh tp \<le> cap"
  by (simp add: tcp_reno_ssthresh_def word_le_nat_alt unat_max unat_drop_bit_div)

interpretation reno: cong_module tcp_reno "\<lambda>_ _. True" "\<lambda>_. True" "- 1"
proof unfold_locales
  fix tp ca i ack in_flight flag
  assume tp: "base_ok (- 1) tp"
  then obtain tp' where "tcp_reno_cong_avoid (in_kern i) ack (in_seq_rtt i) in_flight flag tp = Some tp'"
    "window_grown tp tp'"
    using tcp_reno_cong_avoid_total [OF base_ok_cwnd [OF tp]] by blast
  then show "\<exists>tp' ca'. op_cong_avoid tcp_reno (in_kern i) ack (in_seq_rtt i) in_flight flag (tp, ca) =
      Some (tp', ca') \<and> base_ok (- 1) tp' \<and> True"
    using tp window_grown_base_ok by (simp add: tcp_reno_def)
qed (simp_all add: tcp_reno_def tcp_reno_ssthresh_ge, fastforce simp: base_ok_def tcp_reno_min_cwnd_neq_0)

subsection \<open>Properties\<close>

text \<open>
  C20. The loop of slow start, on a window \<open>w\<close> and a counter \<open>n\<close>: it runs for ever exactly
  for the window 0 with the clamp 0 (on the window 0 below its clamp the first round raises it to 1);
  otherwise it returns a window and a counter below it such that the counter it started from
  is the rest plus the windows the rounds went through, each one more than the last up to the clamp.
\<close>

theorem slow_start_loop_spec:
  "case slow_start_loop clamp cwnd cnt of
     None \<Rightarrow> cwnd = 0 \<and> clamp = 0
   | Some (w, c) \<Rightarrow> c < w \<and> \<not> (cwnd = 0 \<and> clamp = 0) \<and>
       (\<exists>n. unat w = slow_start_win clamp cwnd n \<and>
            unat cnt = unat c + (\<Sum>i<n. slow_start_win clamp cwnd i))"
proof (cases "cwnd = 0")
  case False
  then obtain w c n where "slow_start_loop clamp cwnd cnt = Some (w, c)" "unat c < unat w"
    "unat w = slow_start_win clamp cwnd n" "unat cnt = unat c + (\<Sum>i<n. slow_start_win clamp cwnd i)"
    using slow_start_loop_sum word_neq_0_iff_unat by metis
  then show ?thesis using False by (auto simp: word_less_nat_alt)
next
  case True
  show ?thesis
  proof (cases "clamp = 0")
    case True
    then show ?thesis using \<open>cwnd = 0\<close> by (simp add: slow_start_loop_diverges)
  next
    case False
    then have step: "slow_start_loop clamp cwnd cnt = slow_start_loop clamp 1 cnt"
      using \<open>cwnd = 0\<close> by (subst slow_start_loop_step) (simp_all add: word_gt_0)
    obtain w c n where *: "slow_start_loop clamp 1 cnt = Some (w, c)" "unat c < unat w"
      "unat w = slow_start_win clamp 1 n" "unat cnt = unat c + (\<Sum>i<n. slow_start_win clamp 1 i)"
      using slow_start_loop_sum [of 1 clamp cnt] by auto
    have win: "slow_start_win clamp 1 i = slow_start_win clamp 0 (Suc i)" for i
      using False slow_start_win_Suc [of clamp 0 i] by (simp add: word_gt_0)
    have "(\<Sum>i<Suc n. slow_start_win clamp 0 i) = (\<Sum>i<n. slow_start_win clamp 1 i)"
      unfolding sum.lessThan_Suc_shift by (simp add: slow_start_win_0 win)
    then have "unat w = slow_start_win clamp 0 (Suc n)"
      "unat cnt = unat c + (\<Sum>i<Suc n. slow_start_win clamp 0 i)"
      using *(3,4) by (simp_all only: win)
    then show ?thesis
      using * step False \<open>cwnd = 0\<close> by (auto simp: word_less_nat_alt simp del: sum.lessThan_Suc)
  qed
qed

text \<open>
  C19. A Reno acknowledgement on a positive window always returns; it changes the window, its counter
  and the byte count only, and the window does not shrink and is not raised beyond the clamp.
\<close>

theorem tcp_reno_cong_avoid_window:
  assumes "snd_cwnd tp \<noteq> 0"
  shows "\<exists>tp'. tcp_reno_cong_avoid k ack rtt in_flight flag tp = Some tp' \<and>
    tp' = tp\<lparr>snd_cwnd := snd_cwnd tp', snd_cwnd_cnt := snd_cwnd_cnt tp', bytes_acked := bytes_acked tp'\<rparr> \<and>
    snd_cwnd tp \<le> snd_cwnd tp' \<and> snd_cwnd tp' \<le> max (snd_cwnd tp) (snd_cwnd_clamp tp)"
  using tcp_reno_cong_avoid_total [OF assms] unfolding window_grown_def .

text \<open>A socket and globals to evaluate the theorems at: 1500-byte segments, a window of 4 packets
  with the given threshold.\<close>

definition example_kern :: kern where
  "example_kern = \<lparr>tcp_time_stamp = 5000, ktime_get_real = 5000000000, sysctl_tcp_abc = 0,
     tcp_max_burst = 3, sysctl_tcp_max_ssthresh = 0\<rparr>"

definition example_sock :: "u32 \<Rightarrow> tcp_sock" where
  "example_sock ssthresh =
     \<lparr>sk_state = 1, snd_nxt = 16000, snd_una = 10000, mss_cache = 1500, srtt = 800,
      rx_opt = \<lparr>rcv_tsval = 0, rcv_tsecr = 0, saw_tstamp = False\<rparr>,
      snd_ssthresh = ssthresh, snd_cwnd = 4, snd_cwnd_cnt = 0, snd_cwnd_clamp = 1000,
      snd_cwnd_stamp = 0, bytes_acked = 0, icsk_ca_ops = 0, icsk_ca_state = 0\<rparr>"

lemma example_sock_simps [simp]:
  "snd_cwnd (example_sock t) = 4" "snd_cwnd_cnt (example_sock t) = 0" "snd_ssthresh (example_sock t) = t"
  "snd_cwnd_clamp (example_sock t) = 1000" "mss_cache (example_sock t) = 1500" "srtt (example_sock t) = 800"
  "bytes_acked (example_sock t) = 0" "snd_una (example_sock t) = 10000" "snd_nxt (example_sock t) = 16000"
  "icsk_ca_state (example_sock t) = 0" "sk_state (example_sock t) = 1"
  "rx_opt (example_sock t) = \<lparr>rcv_tsval = 0, rcv_tsecr = 0, saw_tstamp = False\<rparr>"
  by (simp_all only: example_sock_def tcp_sock.simps)

lemma example_kern_simps [simp]:
  "tcp_time_stamp example_kern = 5000" "ktime_get_real example_kern = 5000000000"
  "sysctl_tcp_abc example_kern = 0" "tcp_max_burst example_kern = 3" "sysctl_tcp_max_ssthresh example_kern = 0"
  by (simp_all only: example_kern_def kern.simps)

theorem tcp_reno_cong_avoid_window_witness:
  "\<exists>tp'. tcp_reno_cong_avoid example_kern 1 0 4 0 (example_sock 2) = Some tp' \<and> snd_cwnd tp' \<le> 1000"
  using tcp_reno_cong_avoid_window [of "example_sock 2" example_kern 1 0 4 0]
  by (auto simp: max_def)

text \<open>
  With byte counting off and no limit on slow start, an acknowledgement in slow start below the clamp
  raises the window by exactly one packet and leaves its counter alone.
\<close>

theorem slow_start_one_per_ack:
  assumes "sysctl_tcp_abc k = 0" "sysctl_tcp_max_ssthresh k = 0"
    and "snd_cwnd_cnt tp < snd_cwnd tp" "snd_cwnd tp < snd_cwnd_clamp tp"
    and "unat (snd_cwnd tp) < 2 ^ 31"
    and "snd_cwnd tp \<le> snd_ssthresh tp" "snd_cwnd tp \<le> in_flight"
  shows "tcp_reno_cong_avoid k ack rtt in_flight flag tp =
    Some (tp\<lparr>bytes_acked := 0, snd_cwnd := snd_cwnd tp + 1\<rparr>)"
proof -
  let ?w = "snd_cwnd tp" and ?c = "snd_cwnd_cnt tp"
  have sum: "unat (?c + ?w) = unat ?c + unat ?w"
    using assms(3,5) by (intro unat_add_nowrap) (simp add: word_less_nat_alt)
  have "slow_start_loop (snd_cwnd_clamp tp) ?w (?c + ?w) = slow_start_loop (snd_cwnd_clamp tp) (?w + 1) ?c"
    using sum assms(4) by (subst slow_start_loop_step) (simp_all add: word_le_nat_alt)
  also have "\<dots> = Some (?w + 1, ?c)"
    using assms(3,4) by (intro slow_start_loop_stop) (simp add: word_less_nat_alt unat_Suc_less)
  finally show ?thesis
    using assms by (simp add: tcp_reno_cong_avoid_def tcp_is_cwnd_limited_def tcp_slow_start_def slow_start_cnt_def)
qed

theorem slow_start_one_per_ack_witness:
  "tcp_reno_cong_avoid example_kern 1 0 4 0 (example_sock 8) =
     Some ((example_sock 8)\<lparr>bytes_acked := 0, snd_cwnd := 5\<rparr>)"
  using slow_start_one_per_ack [of example_kern "example_sock 8" 4 1 0 0] by (simp add: example_sock_def)

text \<open>
  Congestion avoidance with byte counting off: from a zero counter, \<open>cwnd\<close> acknowledgements only
  count, and the acknowledgement after them raises the window by one. So the window grows by one
  packet per \<open>cwnd + 1\<close> acknowledgements, where the comment in the code says
  \<open>cwnd += 1 / cwnd\<close> per acknowledgement.
\<close>

theorem reno_additive_increase:
  assumes "sysctl_tcp_abc k = 0" "snd_cwnd_cnt tp = 0" "snd_ssthresh tp < snd_cwnd tp"
    and "snd_cwnd tp < snd_cwnd_clamp tp" "snd_cwnd tp \<le> in_flight"
  shows "run_opt (unat (snd_cwnd tp)) (tcp_reno_cong_avoid k ack rtt in_flight flag) tp =
      Some (tp\<lparr>snd_cwnd_cnt := snd_cwnd tp\<rparr>) \<and>
    run_opt (unat (snd_cwnd tp) + 1) (tcp_reno_cong_avoid k ack rtt in_flight flag) tp =
      Some (tp\<lparr>snd_cwnd := snd_cwnd tp + 1\<rparr>)"
proof -
  let ?f = "tcp_reno_cong_avoid k ack rtt in_flight flag"
  let ?g = "\<lambda>i. tp\<lparr>snd_cwnd_cnt := of_nat i\<rparr>"
  have step: "?f (?g i) = Some (?g (Suc i))" if "i < unat (snd_cwnd tp)" for i
  proof -
    have "unat (of_nat i :: u32) = i"
      using that unat_lt_u32 [of "snd_cwnd tp"] by (simp add: unsigned_of_nat take_bit_nat_eq_self)
    then have "\<not> snd_cwnd tp \<le> of_nat i" using that by (simp add: word_le_nat_alt)
    moreover have "\<not> snd_cwnd tp \<le> snd_ssthresh tp" using assms(3) by simp
    ultimately show ?thesis
      using assms by (simp add: tcp_reno_cong_avoid_def tcp_is_cwnd_limited_def ai_step_def add.commute)
  qed
  have "?g 0 = tp" using assms(2) by simp
  then have run: "run_opt (unat (snd_cwnd tp)) ?f tp = Some (tp\<lparr>snd_cwnd_cnt := snd_cwnd tp\<rparr>)"
    using run_opt_states [of "unat (snd_cwnd tp)" ?f ?g] step by simp
  have "\<not> snd_cwnd tp \<le> snd_ssthresh tp" using assms(3) by simp
  then have "?f (tp\<lparr>snd_cwnd_cnt := snd_cwnd tp\<rparr>) = Some (tp\<lparr>snd_cwnd := snd_cwnd tp + 1\<rparr>)"
    using assms by (simp add: tcp_reno_cong_avoid_def tcp_is_cwnd_limited_def ai_step_def)
  with run show ?thesis
    using run_opt_add [of "unat (snd_cwnd tp)" 1 ?f tp] by simp
qed

theorem reno_additive_increase_witness:
  "run_opt (unat (4 :: u32) + 1) (tcp_reno_cong_avoid example_kern 1 0 4 0) (example_sock 2) =
     Some ((example_sock 2)\<lparr>snd_cwnd := 4 + 1\<rparr>)"
  using reno_additive_increase [of example_kern "example_sock 2" 4 1 0 0] by (simp add: word_less_nat_alt)

definition example_ack :: ack_in where
  "example_ack =
     \<lparr>in_kern = example_kern, in_flag = 4, in_ack = 8, in_acked = 1, in_prior_in_flight = 4,
      in_seq_rtt = 100, in_last_ackt = 4900000000, in_usrtt = Some 100000, in_pif = 3,
      in_highest_ack = 7, in_snd_una = 12000, in_snd_nxt = 18000, in_srtt = 800,
      in_rx_opt = \<lparr>rcv_tsval = 5000, rcv_tsecr = 4900, saw_tstamp = True\<rparr>\<rparr>"

definition example_agent :: "'ca \<Rightarrow> 'ca agent" where
  "example_agent ca =
     \<lparr>linux = example_sock 2, priv = ca, initialized = False, next_pkts_in_flight = 0,
      recover = 0, highest_ack = 6, maxseq = 10\<rparr>"

text \<open>An acknowledgement, a lost packet, a timeout and an acknowledgement that ends the recovery.\<close>

definition example_events :: "agent_event list" where
  "example_events = [Recv example_ack, Recv (example_ack\<lparr>in_flag := 12\<rparr>), Timeout example_kern,
     Recv (example_ack\<lparr>in_highest_ack := 20\<rparr>)]"

lemma example_base_ok: "1000 \<le> cap \<Longrightarrow> base_ok cap (linux (example_agent ca))"
  by (simp add: example_agent_def example_sock_def base_ok_def word_le_nat_alt)

lemma example_events_ok: "Recv i \<in> set example_events \<Longrightarrow> ack_in_ok i \<and> in_srtt i = 800"
  by (auto simp: example_events_def example_ack_def example_kern_def ack_in_ok_def)

end
