(* ===== verification/Scoreboard.thy ===== *)
theory Scoreboard
  imports Prelude
begin

unbundle bit_operations_syntax

section \<open>The scoreboard of the agent (\<open>tcp/scoreboard1.cc\<close>)\<close>

text \<open>
  \<open>ScoreBoard1\<close> keeps the state of the packets that are not yet acknowledged as a singly linked list of
  blocks of packets with the same state, with the numbers of packets taken as lost and as selectively acknowledged, from which
  the agent computes the packets in flight. The model is a list of blocks; as the code keeps a pointer to the
  next block to retransmit, every block has an identity, and new blocks get fresh ones. Sequence numbers are
  packet numbers of type \<open>int\<close>, far from overflow in a simulation, and unbounded here.
\<close>

subsection \<open>Blocks (\<open>ScoreBoardNode1\<close>)\<close>

datatype skb_flag = SKB_INFLIGHT | SKB_SACKED | SKB_LOST | SKB_RETRANSMITTED

text \<open>\<open>blk_nxt\<close> is the last packet of a block, but the next new packet at the time of the retransmission for a
  retransmitted packet, which has a block of its own. The constructor leaves \<open>retran_\<close> unset; it is only read
  after \<open>MarkRetran\<close>.\<close>

record block =
  blk_id :: nat
  blk_flag :: skb_flag
  blk_seq :: int
  blk_nxt :: int
  blk_retran :: int

definition get_end :: "block \<Rightarrow> int" where
  "get_end n = (if blk_flag n = SKB_RETRANSMITTED then blk_seq n else blk_nxt n)"

definition get_length :: "block \<Rightarrow> int" where
  "get_length n = (if blk_flag n = SKB_RETRANSMITTED then 1 else blk_nxt n + 1 - blk_seq n)"

definition set_flag :: "skb_flag \<Rightarrow> block \<Rightarrow> block" where
  "set_flag f n = n\<lparr>blk_nxt := (if blk_flag n = SKB_RETRANSMITTED then blk_seq n else blk_nxt n), blk_flag := f\<rparr>"

definition inside :: "int \<Rightarrow> block \<Rightarrow> bool" where
  "inside q n = (if blk_flag n = SKB_RETRANSMITTED then q = blk_seq n else blk_seq n \<le> q \<and> q \<le> blk_nxt n)"

definition should_clean :: "int \<Rightarrow> block \<Rightarrow> int" where
  "should_clean ackseq n =
     (if ackseq < blk_seq n then 0
      else if blk_flag n = SKB_RETRANSMITTED \<or> blk_nxt n \<le> ackseq then - 1
      else ackseq + 1 - blk_seq n)"

definition mergable :: "block \<Rightarrow> block \<Rightarrow> bool" where
  "mergable n next_in_queue \<longleftrightarrow> blk_flag next_in_queue \<noteq> SKB_RETRANSMITTED \<and> blk_flag next_in_queue = blk_flag n"

definition merge_blocks :: "block \<Rightarrow> block \<Rightarrow> block" where
  "merge_blocks n next_in_queue = n\<lparr>blk_nxt := blk_nxt next_in_queue\<rparr>"

definition new_block :: "nat \<Rightarrow> int \<Rightarrow> int \<Rightarrow> skb_flag \<Rightarrow> block" where
  "new_block i start stop f = \<lparr>blk_id = i, blk_flag = f, blk_seq = start, blk_nxt = stop, blk_retran = 0\<rparr>"

text \<open>\<open>Split\<close> shortens a block and returns the new one behind it.\<close>

definition split_block :: "nat \<Rightarrow> int \<Rightarrow> block \<Rightarrow> block \<times> block" where
  "split_block i q n = (n\<lparr>blk_nxt := q - 1\<rparr>, new_block i q (blk_nxt n) (blk_flag n))"

subsection \<open>The board\<close>

record scoreboard =
  sb_blocks :: "block list"
  nxt_to_retrx :: "nat option"
  acked_rtx_id :: int
  rtx_id :: int
  sb_fack :: int
  fack_out :: int
  sack_out :: int
  last_rtx_seq :: int
  sb_fresh :: nat

abbreviation (input) FLAG_DATA_SACKED :: u8 where "FLAG_DATA_SACKED \<equiv> 2"
abbreviation (input) FLAG_DATA_LOST :: u8 where "FLAG_DATA_LOST \<equiv> 8"
abbreviation (input) FLAG_UNSURE_TSTAMP :: u8 where "FLAG_UNSURE_TSTAMP \<equiv> 16"

definition ClearScoreBoard :: "scoreboard \<Rightarrow> scoreboard" where
  "ClearScoreBoard sb =
     sb\<lparr>rtx_id := 0, acked_rtx_id := - 1, fack_out := 0, sack_out := 0, sb_fack := 0, nxt_to_retrx := None,
        sb_blocks := []\<rparr>"

definition packets_in_flight :: "int \<Rightarrow> int \<Rightarrow> scoreboard \<Rightarrow> int" where
  "packets_in_flight una snd_nxt sb = snd_nxt - una - fack_out sb - sack_out sb"

text \<open>\<open>CleanRtxQueue\<close> removes what the cumulative acknowledgement covers. Where the code stops the simulation because
  a counter is negative, the result is \<open>None\<close>.\<close>

definition clean_counts :: "int \<Rightarrow> block \<Rightarrow> scoreboard \<Rightarrow> scoreboard option" where
  "clean_counts pkt_num n sb =
     (case blk_flag n of
        SKB_SACKED \<Rightarrow>
          (if sack_out sb - pkt_num < 0 then None else Some (sb\<lparr>sack_out := sack_out sb - pkt_num\<rparr>))
      | SKB_LOST \<Rightarrow>
          (if fack_out sb - pkt_num < 0 then None else Some (sb\<lparr>fack_out := fack_out sb - pkt_num\<rparr>))
      | _ \<Rightarrow> Some sb)"

fun clean_loop :: "int \<Rightarrow> block list \<Rightarrow> scoreboard \<Rightarrow> u8 \<Rightarrow> bool \<Rightarrow> (scoreboard \<times> u8 \<times> bool) option" where
  "clean_loop last_ack [] sb flag changed = Some (sb\<lparr>sb_blocks := []\<rparr>, flag, changed)"
| "clean_loop last_ack (n # ns) sb flag changed =
     (let cmp = should_clean last_ack n in
      if cmp = 0 then Some (sb\<lparr>sb_blocks := n # ns\<rparr>, flag, changed)
      else do {
        sb \<leftarrow> clean_counts (if cmp < 0 then get_length n else cmp) n sb;
        if cmp < 0
        then (let retran = (blk_flag n = SKB_RETRANSMITTED);
                  newer = (retran \<and> acked_rtx_id sb < blk_retran n);
                  sb = (if newer then sb\<lparr>acked_rtx_id := blk_retran n\<rparr> else sb);
                  flag = (if retran then flag OR FLAG_UNSURE_TSTAMP else flag);
                  sb = (if nxt_to_retrx sb = Some (blk_id n)
                        then sb\<lparr>nxt_to_retrx := (case ns of [] \<Rightarrow> None | m # _ \<Rightarrow> Some (blk_id m))\<rparr> else sb)
              in clean_loop last_ack ns sb flag (changed \<or> newer))
        else Some (sb\<lparr>sb_blocks := n\<lparr>blk_seq := last_ack + 1\<rparr> # ns\<rparr>, flag, changed)
      })"

definition CleanRtxQueue :: "int \<Rightarrow> scoreboard \<Rightarrow> (scoreboard \<times> u8 \<times> bool) option" where
  "CleanRtxQueue last_ack sb = clean_loop last_ack (sb_blocks sb) sb 0 False"

text \<open>The selective acknowledgements of a segment are sorted by their left edges, those below the cumulative
  acknowledgement dropped; a block of packets is from the left edge to before the right edge.\<close>

fun insert_sack :: "int \<times> int \<Rightarrow> (int \<times> int) list \<Rightarrow> (int \<times> int) list" where
  "insert_sack b [] = [b]"
| "insert_sack b (c # cs) = (if fst b < fst c then b # c # cs else c # insert_sack b cs)"

definition sort_sacks :: "int \<Rightarrow> (int \<times> int) list \<Rightarrow> (int \<times> int) list" where
  "sort_sacks last_ack sacks = fold insert_sack (filter (\<lambda>b. last_ack \<le> fst b) sacks) []"

subsection \<open>One step of the traversal\<close>

text \<open>The local variables of \<open>UpdateScoreBoard\<close> that the traversal changes, beside the board.\<close>

record scan =
  sc_board :: scoreboard
  sc_thorough :: bool
  sc_flag :: u8

definition fresh_block :: "int \<Rightarrow> int \<Rightarrow> skb_flag \<Rightarrow> scan \<Rightarrow> block \<times> scan" where
  "fresh_block start stop f sc =
     (new_block (sb_fresh (sc_board sc)) start stop f,
      sc\<lparr>sc_board := (sc_board sc)\<lparr>sb_fresh := sb_fresh (sc_board sc) + 1\<rparr>\<rparr>)"

text \<open>\<open>now->Split(q)\<close>: the first part, the new block, and the board with the next identity.\<close>

definition split_now :: "int \<Rightarrow> block \<Rightarrow> scan \<Rightarrow> block \<times> block \<times> scan" where
  "split_now q n sc =
     (let (m, sc) = fresh_block q (blk_nxt n) (blk_flag n) sc in (n\<lparr>blk_nxt := q - 1\<rparr>, m, sc))"

text \<open>A block that is covered by a selective acknowledgement from its start on becomes acknowledged.\<close>

definition mark_sacked :: "block \<Rightarrow> scan \<Rightarrow> block \<times> scan" where
  "mark_sacked n sc =
     (let sb = sc_board sc;
          sb = (case blk_flag n of
                  SKB_LOST \<Rightarrow> sb\<lparr>fack_out := fack_out sb - get_length n\<rparr>
                | SKB_RETRANSMITTED \<Rightarrow> sb\<lparr>acked_rtx_id := blk_retran n\<rparr>
                | _ \<Rightarrow> sb);
          retran = (blk_flag n = SKB_RETRANSMITTED);
          flag = (if retran then sc_flag sc OR FLAG_UNSURE_TSTAMP else sc_flag sc)
      in (set_flag SKB_SACKED n,
          \<lparr>sc_board = sb\<lparr>sack_out := sack_out sb + get_length n\<rparr>, sc_thorough = sc_thorough sc \<or> retran,
           sc_flag = flag OR FLAG_DATA_SACKED\<rparr>))"

definition set_nxt_to_retrx :: "nat \<Rightarrow> scoreboard \<Rightarrow> scoreboard" where
  "set_nxt_to_retrx i sb = (if nxt_to_retrx sb = None then sb\<lparr>nxt_to_retrx := Some i\<rparr> else sb)"

text \<open>A block that the acknowledgements do not touch may be lost: a retransmission when newer data or retransmissions
  were acknowledged, a new block when it is too far below the furthest acknowledgement.\<close>

definition check_lost :: "int \<Rightarrow> block \<Rightarrow> scan \<Rightarrow> block \<times> block list \<times> scan" where
  "check_lost dupack_threshold n sc =
     (let sb = sc_board sc; lost_seq_threshold = sb_fack sb - (dupack_threshold + 1) in
      case blk_flag n of
        SKB_RETRANSMITTED \<Rightarrow>
          if blk_nxt n \<le> sb_fack sb \<or> blk_retran n + dupack_threshold + 1 < acked_rtx_id sb
          then (set_flag SKB_LOST n, [],
                sc\<lparr>sc_board := set_nxt_to_retrx (blk_id n) (sb\<lparr>fack_out := fack_out sb + 1\<rparr>),
                   sc_flag := sc_flag sc OR FLAG_DATA_LOST\<rparr>)
          else (n, [], sc)
      | SKB_INFLIGHT \<Rightarrow>
          if blk_seq n \<le> lost_seq_threshold
          then let (n, ms, sc) =
                     (if lost_seq_threshold < get_end n
                      then let (n, m, sc) = split_now (lost_seq_threshold + 1) n sc in (n, [m], sc)
                      else (n, [], sc));
                   n = set_flag SKB_LOST n;
                   sb = sc_board sc
               in (n, ms, sc\<lparr>sc_board := set_nxt_to_retrx (blk_id n) (sb\<lparr>fack_out := fack_out sb + get_length n\<rparr>),
                             sc_flag := sc_flag sc OR FLAG_DATA_LOST\<rparr>)
          else (n, [], sc)
      | SKB_LOST \<Rightarrow> (n, [], sc\<lparr>sc_board := set_nxt_to_retrx (blk_id n) sb\<rparr>)
      | SKB_SACKED \<Rightarrow> (n, [], sc))"

definition match_sack :: "(int \<times> int) list \<Rightarrow> block \<Rightarrow> scan \<Rightarrow> block \<times> block list \<times> scan" where
  "match_sack ss n sc =
     (case ss of
        [] \<Rightarrow> (n, [], sc)
      | (l, r) # _ \<Rightarrow>
          if l \<le> get_end n
          then if blk_seq n < l
               then let (n, m, sc) = split_now l n sc in (n, [m], sc)
               else let (n, ms, sc) =
                          (if r \<le> get_end n then let (n, m, sc) = split_now r n sc in (n, [m], sc) else (n, [], sc));
                        (n, sc) = mark_sacked n sc
                    in (n, ms, sc)
          else (n, [], sc))"

text \<open>The body of the loop up to the merge: the block, the blocks split off behind it, the acknowledgements
  that are left, and the state.\<close>

definition visit :: "int \<Rightarrow> (int \<times> int) list \<Rightarrow> block \<Rightarrow> scan \<Rightarrow> block \<times> block list \<times> (int \<times> int) list \<times> scan" where
  "visit dupack_threshold ss n sc =
     (if blk_flag n = SKB_SACKED then (n, [], ss, sc)
      else let ss = dropWhile (\<lambda>b. snd b \<le> blk_seq n) ss;
               (n, ms, sc) = match_sack ss n sc;
               (n, ms', sc) = (if ss = [] \<or> get_end n < fst (hd ss) then check_lost dupack_threshold n sc else (n, [], sc))
           in (n, ms' @ ms, ss, sc))"

subsection \<open>The traversal\<close>

text \<open>The blocks before \<open>now\<close> are kept in reverse, so that \<open>prev\<close> is the first of them.\<close>

definition push_block :: "block list \<Rightarrow> block \<Rightarrow> block list" where
  "push_block ps n =
     (case ps of [] \<Rightarrow> [n] | p # ps' \<Rightarrow> if mergable p n then merge_blocks p n # ps' else n # ps)"

definition extend :: "block list \<Rightarrow> block list \<Rightarrow> scan \<Rightarrow> block list \<times> scan" where
  "extend ps rest sc =
     (if rest = [] \<and> get_end (hd ps) < sb_fack (sc_board sc)
      then let (m, sc) = fresh_block (get_end (hd ps) + 1) (sb_fack (sc_board sc)) SKB_INFLIGHT sc in ([m], sc)
      else (rest, sc))"

partial_function (option) traverse ::
  "int \<Rightarrow> (int \<times> int) list \<Rightarrow> block list \<Rightarrow> block list \<Rightarrow> scan \<Rightarrow> (block list \<times> scan) option" where
  "traverse dupack_threshold ss ps rest sc =
     (case rest of
        [] \<Rightarrow> Some (rev ps, sc)
      | n # rest \<Rightarrow>
          if ss = [] \<and> \<not> sc_thorough sc then Some (rev ps @ n # rest, sc)
          else let (n, ms, ss, sc) = visit dupack_threshold ss n sc;
                   ps = push_block ps n;
                   (rest, sc) = extend ps (ms @ rest) sc
               in traverse dupack_threshold ss ps rest sc)"

definition UpdateScoreBoard ::
  "int \<Rightarrow> (int \<times> int) list \<Rightarrow> int \<Rightarrow> scoreboard \<Rightarrow> (scoreboard \<times> u8) option" where
  "UpdateScoreBoard last_ack sacks dupack_threshold sb = do {
     (sb, flag, thorough) \<leftarrow> CleanRtxQueue last_ack sb;
     let (sb, thorough) = (if sb_blocks sb = [] then (ClearScoreBoard sb, False) else (sb, thorough));
     if \<not> thorough \<and> sacks = [] then Some (sb, flag)
     else let ss = sort_sacks last_ack sacks in
       if \<not> thorough \<and> ss = [] then Some (sb, flag)
       else let (sb, thorough) =
                  (if ss \<noteq> [] \<and> sb_fack sb < snd (last ss) - 1 then (sb\<lparr>sb_fack := snd (last ss) - 1\<rparr>, True)
                   else (sb, thorough));
                sc = \<lparr>sc_board = sb\<lparr>nxt_to_retrx := None\<rparr>, sc_thorough = thorough, sc_flag = flag\<rparr>;
                (blocks, sc) = (if sb_blocks sb = []
                                then let (m, sc) = fresh_block (last_ack + 1) (sb_fack sb) SKB_INFLIGHT sc in ([m], sc)
                                else (sb_blocks sb, sc))
            in do {
              (blocks, sc) \<leftarrow> traverse dupack_threshold ss [] blocks sc;
              Some ((sc_board sc)\<lparr>sb_blocks := blocks\<rparr>, sc_flag sc)
            }
   }"

subsection \<open>Losses and retransmissions\<close>

text \<open>\<open>MarkLoss\<close>, after a timeout, takes every packet that is not acknowledged as lost, and joins neighbouring lost blocks.
  \<open>last_lost\<close> says that the block before is lost.\<close>

definition mark_loss_step :: "bool \<Rightarrow> block list \<Rightarrow> block \<Rightarrow> scoreboard \<Rightarrow> bool \<times> block list \<times> scoreboard" where
  "mark_loss_step last_lost ps n sb =
     (if blk_flag n = SKB_SACKED then (False, n # ps, sb)
      else let sb = (if blk_flag n = SKB_LOST then sb else sb\<lparr>fack_out := fack_out sb + (get_end n - blk_seq n + 1)\<rparr>);
               n = set_flag SKB_LOST n
           in if last_lost then (True, merge_blocks (hd ps) n # tl ps, sb)
              else (True, n # ps, set_nxt_to_retrx (blk_id n) sb))"

definition append_sent :: "int \<Rightarrow> block list \<Rightarrow> block list \<Rightarrow> scoreboard \<Rightarrow> block list \<times> scoreboard" where
  "append_sent snd_nxt ps rest sb =
     (if rest = [] \<and> get_end (hd ps) + 1 < snd_nxt
      then ([new_block (sb_fresh sb) (get_end (hd ps) + 1) (snd_nxt - 1) SKB_INFLIGHT], sb\<lparr>sb_fresh := sb_fresh sb + 1\<rparr>)
      else (rest, sb))"

partial_function (option) mark_loss_loop ::
  "int \<Rightarrow> bool \<Rightarrow> block list \<Rightarrow> block list \<Rightarrow> scoreboard \<Rightarrow> (block list \<times> scoreboard) option" where
  "mark_loss_loop snd_nxt last_lost ps rest sb =
     (case rest of
        [] \<Rightarrow> Some (rev ps, sb)
      | n # rest \<Rightarrow>
          let (last_lost, ps, sb) = mark_loss_step last_lost ps n sb;
              (rest, sb) = append_sent snd_nxt ps rest sb
          in mark_loss_loop snd_nxt last_lost ps rest sb)"

definition MarkLoss :: "int \<Rightarrow> int \<Rightarrow> scoreboard \<Rightarrow> scoreboard option" where
  "MarkLoss una snd_nxt sb = do {
     (blocks, sb) \<leftarrow> mark_loss_loop snd_nxt False [] (sb_blocks sb) (sb\<lparr>nxt_to_retrx := None\<rparr>);
     let sb = (if blocks = [] \<and> una < snd_nxt
               then sb\<lparr>sb_blocks := [new_block (sb_fresh sb) una (snd_nxt - 1) SKB_LOST], sb_fresh := sb_fresh sb + 1,
                       nxt_to_retrx := Some (sb_fresh sb), fack_out := fack_out sb + (snd_nxt - una)\<rparr>
               else sb\<lparr>sb_blocks := blocks\<rparr>);
     Some (sb\<lparr>rtx_id := 0, acked_rtx_id := - 1\<rparr>)
   }"

text \<open>\<open>GetNextRetran\<close> follows the links from the next block to retransmit to a lost one, and returns its first
  packet, or \<open>-1\<close>.\<close>

definition GetNextRetran :: "scoreboard \<Rightarrow> int \<times> scoreboard" where
  "GetNextRetran sb =
     (case nxt_to_retrx sb of
        None \<Rightarrow> (- 1, sb)
      | Some i \<Rightarrow>
          (case dropWhile (\<lambda>n. blk_flag n \<noteq> SKB_LOST) (dropWhile (\<lambda>n. blk_id n \<noteq> i) (sb_blocks sb)) of
             [] \<Rightarrow> (- 1, sb\<lparr>nxt_to_retrx := None\<rparr>)
           | n # _ \<Rightarrow> (blk_seq n, sb\<lparr>nxt_to_retrx := Some (blk_id n)\<rparr>)))"

text \<open>The block operation \<open>MarkRetran\<close> splits off the first packet of a lost block. The operation of the board
  stops the simulation when the packet is not in the next block to retransmit or no packet is lost.\<close>

definition retran_block :: "nat \<Rightarrow> int \<Rightarrow> int \<Rightarrow> block \<Rightarrow> block list" where
  "retran_block i snd_nxt rtx n =
     (let (n, ms) = (if blk_seq n < blk_nxt n then let (n, m) = split_block i (blk_seq n + 1) n in (n, [m]) else (n, []))
      in n\<lparr>blk_flag := SKB_RETRANSMITTED, blk_nxt := snd_nxt, blk_retran := rtx\<rparr> # ms)"

fun at_block :: "nat \<Rightarrow> (block \<Rightarrow> block list) \<Rightarrow> block list \<Rightarrow> block list" where
  "at_block i f [] = []"
| "at_block i f (n # ns) = (if blk_id n = i then f n @ ns else n # at_block i f ns)"

definition MarkRetran :: "int \<Rightarrow> int \<Rightarrow> scoreboard \<Rightarrow> scoreboard option" where
  "MarkRetran retran_seqno snd_nxt sb =
     (case nxt_to_retrx sb of
        None \<Rightarrow> None
      | Some i \<Rightarrow>
          if (\<exists>n \<in> set (sb_blocks sb). blk_id n = i \<and> inside retran_seqno n) \<and> 0 \<le> fack_out sb - 1
          then Some (sb\<lparr>fack_out := fack_out sb - 1,
                        sb_blocks := at_block i (retran_block (sb_fresh sb) snd_nxt (rtx_id sb)) (sb_blocks sb),
                        sb_fresh := sb_fresh sb + 1, rtx_id := rtx_id sb + 1, last_rtx_seq := retran_seqno\<rparr>)
          else None)"

subsection \<open>Contiguous boards\<close>

text \<open>A board in order covers an interval without gaps; \<open>frontier\<close> is the packet behind it.\<close>

fun contig :: "int \<Rightarrow> block list \<Rightarrow> bool" where
  "contig a [] \<longleftrightarrow> True"
| "contig a (n # ns) \<longleftrightarrow> blk_seq n = a \<and> a \<le> get_end n \<and> contig (get_end n + 1) ns"

fun frontier :: "int \<Rightarrow> block list \<Rightarrow> int" where
  "frontier a [] = a"
| "frontier a (n # ns) = frontier (get_end n + 1) ns"

definition count_of :: "skb_flag \<Rightarrow> block list \<Rightarrow> int" where
  "count_of f ns = (\<Sum>n\<leftarrow>ns. if blk_flag n = f then get_length n else 0)"

definition packets :: "skb_flag \<Rightarrow> block list \<Rightarrow> int set" where
  "packets f ns = (\<Union>n \<in> set ns. if blk_flag n = f then {blk_seq n..get_end n} else {})"

lemma contig_append [simp]: "contig a (xs @ ys) \<longleftrightarrow> contig a xs \<and> contig (frontier a xs) ys"
  by (induction xs arbitrary: a) auto

lemma frontier_append [simp]: "frontier a (xs @ ys) = frontier (frontier a xs) ys"
  by (induction xs arbitrary: a) auto

lemma frontier_ge: "contig a ns \<Longrightarrow> a \<le> frontier a ns"
proof (induction ns arbitrary: a)
  case (Cons n ns)
  then have "a \<le> get_end n" "get_end n + 1 \<le> frontier (get_end n + 1) ns" by auto
  then show ?case by simp
qed simp

lemma count_of_simps [simp]:
  "count_of f [] = 0" "count_of f (n # ns) = (if blk_flag n = f then get_length n else 0) + count_of f ns"
  "count_of f (xs @ ys) = count_of f xs + count_of f ys" "count_of f (rev xs) = count_of f xs"
  by (simp_all add: count_of_def rev_map [symmetric])

lemma packets_simps [simp]:
  "packets f [] = {}" "packets f (n # ns) = (if blk_flag n = f then {blk_seq n..get_end n} else {}) \<union> packets f ns"
  "packets f (xs @ ys) = packets f xs \<union> packets f ys" "packets f (rev xs) = packets f xs"
  by (auto simp: packets_def)

lemma get_length_eq: "get_length n = get_end n + 1 - blk_seq n"
  by (simp add: get_length_def get_end_def)

lemma count_of_nonneg: "contig a ns \<Longrightarrow> 0 \<le> count_of f ns"
proof (induction ns arbitrary: a)
  case (Cons n ns)
  then show ?case using Cons.IH [of "get_end n + 1"] by (simp add: get_length_eq)
qed simp

lemma packets_range: "contig a ns \<Longrightarrow> packets f ns \<subseteq> {a..<frontier a ns}"
proof (induction ns arbitrary: a)
  case (Cons n ns)
  then have n: "blk_seq n = a" "a \<le> get_end n" "contig (get_end n + 1) ns" by auto
  show ?case using Cons.IH [OF n(3)] frontier_ge [OF n(3)] n(1,2) by (auto simp: subset_iff)
qed simp

text \<open>The counters count packets.\<close>

lemma count_of_card: "contig a ns \<Longrightarrow> count_of f ns = int (card (packets f ns))"
proof (induction ns arbitrary: a)
  case (Cons n ns)
  have sub: "packets f ns \<subseteq> {get_end n + 1..<frontier (get_end n + 1) ns}"
    using packets_range Cons.prems by simp
  then have "finite (packets f ns)" "{blk_seq n..get_end n} \<inter> packets f ns = {}"
    by (auto intro: finite_subset)
  then have "card ({blk_seq n..get_end n} \<union> packets f ns) = card {blk_seq n..get_end n} + card (packets f ns)"
    by (simp add: card_Un_disjoint)
  then show ?case using Cons.IH [of "get_end n + 1"] Cons.prems by (simp add: get_length_eq)
qed simp

lemma count_of_all:
  "contig a ns \<Longrightarrow>
     count_of SKB_INFLIGHT ns + count_of SKB_SACKED ns + count_of SKB_LOST ns + count_of SKB_RETRANSMITTED ns = frontier a ns - a"
proof (induction ns arbitrary: a)
  case (Cons n ns)
  then have "contig (get_end n + 1) ns" by simp
  note Cons.IH [OF this]
  then show ?case using Cons.prems by (cases "blk_flag n") (auto simp: get_length_eq)
qed simp

text \<open>The next block to retransmit is one of the board.\<close>

fun nxt_in :: "nat option \<Rightarrow> block list \<Rightarrow> bool" where
  "nxt_in None ns \<longleftrightarrow> True"
| "nxt_in (Some i) ns \<longleftrightarrow> i \<in> blk_id ` set ns"

definition board_ok :: "int \<Rightarrow> scoreboard \<Rightarrow> bool" where
  "board_ok a sb \<longleftrightarrow>
     contig a (sb_blocks sb) \<and> distinct (map blk_id (sb_blocks sb)) \<and> (\<forall>n \<in> set (sb_blocks sb). blk_id n < sb_fresh sb) \<and>
     sack_out sb = count_of SKB_SACKED (sb_blocks sb) \<and> fack_out sb = count_of SKB_LOST (sb_blocks sb) \<and>
     nxt_in (nxt_to_retrx sb) (sb_blocks sb)"

lemma nxt_in_simps [simp]:
  "nxt_in i (n # ns) \<longleftrightarrow> i = Some (blk_id n) \<or> nxt_in i ns"
  "nxt_in i (xs @ ys) \<longleftrightarrow> nxt_in i xs \<or> nxt_in i ys" "nxt_in i (rev xs) \<longleftrightarrow> nxt_in i xs"
  "nxt_in i [] \<longleftrightarrow> i = None"
  by (cases i; auto)+

lemma set_flag_simps [simp]:
  "blk_id (set_flag f n) = blk_id n" "blk_seq (set_flag f n) = blk_seq n" "blk_flag (set_flag f n) = f"
  by (simp_all add: set_flag_def)

lemma get_end_set_flag [simp]: "f \<noteq> SKB_RETRANSMITTED \<Longrightarrow> get_end (set_flag f n) = get_end n"
  by (simp add: get_end_def set_flag_def)

lemma board_ok_clear: "board_ok a (ClearScoreBoard sb)"
  by (simp add: board_ok_def ClearScoreBoard_def)

subsection \<open>Removing acknowledged packets\<close>

lemma clean_counts_ok:
  assumes "blk_seq n \<le> get_end n" "k \<le> get_length n" "0 \<le> count_of SKB_SACKED ns" "0 \<le> count_of SKB_LOST ns"
    and "sack_out sb = count_of SKB_SACKED (n # ns)" "fack_out sb = count_of SKB_LOST (n # ns)"
  shows "\<exists>sb'. clean_counts k n sb = Some sb' \<and>
    sb' = sb\<lparr>sack_out := sack_out sb - (if blk_flag n = SKB_SACKED then k else 0),
             fack_out := fack_out sb - (if blk_flag n = SKB_LOST then k else 0)\<rparr>"
  using assms by (cases "blk_flag n") (simp_all add: clean_counts_def)

lemma clean_loop_ok:
  assumes "contig a ns" "a \<le> last_ack + 1" "distinct (map blk_id ns)" "\<forall>n \<in> set ns. blk_id n < sb_fresh sb"
    and "sack_out sb = count_of SKB_SACKED ns" "fack_out sb = count_of SKB_LOST ns"
    and "nxt_in (nxt_to_retrx sb) ns"
  shows "\<exists>sb' flag' changed'. clean_loop last_ack ns sb flag changed = Some (sb', flag', changed') \<and>
    board_ok (last_ack + 1) sb' \<and> (\<forall>f. packets f (sb_blocks sb') = packets f ns \<inter> {last_ack<..}) \<and>
    frontier (last_ack + 1) (sb_blocks sb') = max (last_ack + 1) (frontier a ns) \<and>
    sb_fack sb' = sb_fack sb \<and> rtx_id sb' = rtx_id sb"
  using assms
proof (induction ns arbitrary: a sb flag changed)
  case Nil
  then show ?case by (auto simp: board_ok_def)
next
  case (Cons n ns)
  have n: "blk_seq n = a" "a \<le> get_end n" "contig (get_end n + 1) ns" using Cons.prems(1) by auto
  have nonneg: "0 \<le> count_of f ns" for f using count_of_nonneg [OF n(3)] .
  have range: "packets f ns \<subseteq> {get_end n<..}" for f using packets_range [OF n(3), of f] by auto
  have front: "get_end n + 1 \<le> frontier (get_end n + 1) ns" by (rule frontier_ge [OF n(3)])
  consider "last_ack < a" | "get_end n \<le> last_ack" | "a \<le> last_ack" "last_ack < get_end n" by linarith
  then show ?case
  proof cases
    case 1
    then have "a = last_ack + 1" "should_clean last_ack n = 0" using Cons.prems(2) n by (simp_all add: should_clean_def)
    moreover have "packets f (n # ns) \<subseteq> {last_ack<..}" for f
      using packets_range [OF Cons.prems(1), of f] 1 by auto
    ultimately show ?thesis
      using Cons.prems front n by (auto simp: board_ok_def)
  next
    case 2
    then have clean: "should_clean last_ack n = - 1" using n by (simp add: should_clean_def get_end_def split: if_splits)
    obtain sb1 where sb1: "clean_counts (get_length n) n sb = Some sb1"
      "sb1 = sb\<lparr>sack_out := sack_out sb - (if blk_flag n = SKB_SACKED then get_length n else 0),
                fack_out := fack_out sb - (if blk_flag n = SKB_LOST then get_length n else 0)\<rparr>"
      using clean_counts_ok [of n "get_length n" ns sb] n nonneg Cons.prems(5,6) by auto
    define newer where "newer \<longleftrightarrow> blk_flag n = SKB_RETRANSMITTED \<and> acked_rtx_id sb1 < blk_retran n"
    define sb2 where "sb2 = (if newer then sb1\<lparr>acked_rtx_id := blk_retran n\<rparr> else sb1)"
    define sb3 where "sb3 = (if nxt_to_retrx sb2 = Some (blk_id n)
      then sb2\<lparr>nxt_to_retrx := (case ns of [] \<Rightarrow> None | m # _ \<Rightarrow> Some (blk_id m))\<rparr> else sb2)"
    have step: "clean_loop last_ack (n # ns) sb flag changed =
        clean_loop last_ack ns sb3 (if blk_flag n = SKB_RETRANSMITTED then flag OR FLAG_UNSURE_TSTAMP else flag) (changed \<or> newer)"
      by (simp add: clean sb1(1) Let_def sb3_def sb2_def newer_def)
    have "sack_out sb3 = count_of SKB_SACKED ns" "fack_out sb3 = count_of SKB_LOST ns" "sb_fresh sb3 = sb_fresh sb"
      "sb_fack sb3 = sb_fack sb" "rtx_id sb3 = rtx_id sb"
      using Cons.prems(5,6) by (simp_all add: sb3_def sb2_def sb1(2))
    moreover have "nxt_in (nxt_to_retrx sb3) ns"
      using Cons.prems(7) by (cases ns) (auto simp: sb3_def sb2_def sb1(2))
    moreover have "packets f (n # ns) \<inter> {last_ack<..} = packets f ns \<inter> {last_ack<..}" for f using 2 by auto
    ultimately show ?thesis
      unfolding step using Cons.IH [of "get_end n + 1" sb3] Cons.prems(3,4) n(3) 2 by simp
  next
    case 3
    then have clean: "should_clean last_ack n = last_ack + 1 - a" and noret: "blk_flag n \<noteq> SKB_RETRANSMITTED"
      using n by (auto simp: should_clean_def get_end_def split: if_splits)
    obtain sb1 where sb1: "clean_counts (last_ack + 1 - a) n sb = Some sb1"
      "sb1 = sb\<lparr>sack_out := sack_out sb - (if blk_flag n = SKB_SACKED then last_ack + 1 - a else 0),
                fack_out := fack_out sb - (if blk_flag n = SKB_LOST then last_ack + 1 - a else 0)\<rparr>"
      using clean_counts_ok [of n "last_ack + 1 - a" ns sb] n nonneg Cons.prems(5,6) 3 by (auto simp: get_length_eq)
    let ?n = "n\<lparr>blk_seq := last_ack + 1\<rparr>"
    have ends: "get_end ?n = get_end n" "get_length ?n = get_length n - (last_ack + 1 - a)"
      using noret n by (simp_all add: get_end_def get_length_def)
    have "clean_loop last_ack (n # ns) sb flag changed = Some (sb1\<lparr>sb_blocks := ?n # ns\<rparr>, flag, changed)"
      using 3 by (simp add: clean sb1(1))
    moreover have "board_ok (last_ack + 1) (sb1\<lparr>sb_blocks := ?n # ns\<rparr>)"
      using Cons.prems n 3 by (auto simp: board_ok_def sb1(2) ends split: option.splits)
    moreover have "packets f (?n # ns) = packets f (n # ns) \<inter> {last_ack<..}" for f
      using range [of f] 3 n ends by auto
    ultimately show ?thesis using 3 front ends by (auto simp: sb1(2))
  qed
qed

end
