(* ===== verification/Scoreboard_Update.thy ===== *)
theory Scoreboard_Update
  imports Scoreboard
begin

section \<open>The update of the scoreboard by a selective acknowledgement\<close>

text \<open>
  The correctness of \<open>UpdateScoreBoard\<close>: one step of the traversal cuts the current block and decides its
  fate, and the traversal as a whole ends, keeps the board in order and records exactly the packets that were
  selectively acknowledged.
\<close>

subsection \<open>Cutting a block\<close>

text \<open>The packets of a list of selective acknowledgements.\<close>

definition sacked_by :: "(int \<times> int) list \<Rightarrow> int set" where
  "sacked_by ss = (\<Union>b \<in> set ss. {fst b..<snd b})"

lemma sacked_by_simps [simp]:
  "sacked_by [] = {}" "sacked_by (b # ss) = {fst b..<snd b} \<union> sacked_by ss"
  by (auto simp: sacked_by_def)

text \<open>What a step does to the block \<open>n\<close>: it becomes \<open>n'\<close>, which starts at the same packet, the blocks \<open>ms\<close>
  with the old state are split off behind it, and the counters of the board follow.\<close>

definition cuts :: "block \<Rightarrow> block \<Rightarrow> block list \<Rightarrow> scan \<Rightarrow> scan \<Rightarrow> bool" where
  "cuts n n' ms sc sc' \<longleftrightarrow>
     blk_id n' = blk_id n \<and> blk_seq n' = blk_seq n \<and> blk_seq n \<le> get_end n' \<and>
     contig (get_end n' + 1) ms \<and> frontier (get_end n' + 1) ms = get_end n + 1 \<and>
     (\<forall>m \<in> set ms. blk_flag m = blk_flag n) \<and> distinct (map blk_id ms) \<and>
     blk_id ` set ms \<subseteq> {sb_fresh (sc_board sc)..<sb_fresh (sc_board sc')} \<and> sb_fresh (sc_board sc) \<le> sb_fresh (sc_board sc') \<and>
     sb_fack (sc_board sc') = sb_fack (sc_board sc) \<and>
     sack_out (sc_board sc') = sack_out (sc_board sc) + count_of SKB_SACKED (n' # ms) - count_of SKB_SACKED [n] \<and>
     fack_out (sc_board sc') = fack_out (sc_board sc) + count_of SKB_LOST (n' # ms) - count_of SKB_LOST [n]"

lemma cuts_refl: "blk_seq n \<le> get_end n \<Longrightarrow> cuts n n [] sc sc"
  by (simp add: cuts_def)

lemma cuts_trans:
  assumes "cuts n n1 ms1 sc sc1" "cuts n1 n2 ms2 sc1 sc2" "ms2 = [] \<or> blk_flag n1 = blk_flag n"
  shows "cuts n n2 (ms2 @ ms1) sc sc2"
  using assms by (auto simp: cuts_def) fastforce+

lemma cuts_split:
  assumes "split_now q n sc = (n', m, sc')" "blk_flag n \<noteq> SKB_RETRANSMITTED" "blk_seq n < q" "q \<le> get_end n"
  shows "cuts n n' [m] sc sc' \<and> get_end n' = q - 1 \<and> blk_flag n' = blk_flag n \<and>
    nxt_to_retrx (sc_board sc') = nxt_to_retrx (sc_board sc)"
  using assms
  by (auto simp: split_now_def fresh_block_def new_block_def cuts_def get_end_def get_length_def)

lemma cuts_mark_sacked:
  assumes "mark_sacked n sc = (n', sc')" "blk_flag n \<noteq> SKB_SACKED" "blk_seq n \<le> get_end n"
  shows "cuts n n' [] sc sc' \<and> blk_flag n' = SKB_SACKED \<and> get_end n' = get_end n \<and>
    nxt_to_retrx (sc_board sc') = nxt_to_retrx (sc_board sc)"
  using assms by (cases "blk_flag n") (auto simp: mark_sacked_def cuts_def Let_def get_length_eq)

lemma match_sack_cuts:
  assumes "match_sack ss n sc = (n', ms, sc')" "blk_flag n \<noteq> SKB_SACKED" "blk_seq n \<le> get_end n"
    and "sorted_wrt (\<lambda>b c. fst b \<le> fst c) ss" "ss \<noteq> [] \<Longrightarrow> blk_seq n < snd (hd ss)"
  shows "cuts n n' ms sc sc' \<and> nxt_to_retrx (sc_board sc') = nxt_to_retrx (sc_board sc) \<and>
    (if blk_flag n' = SKB_SACKED then {blk_seq n..get_end n'} \<subseteq> sacked_by ss \<and> ss \<noteq> [] \<and> fst (hd ss) \<le> blk_seq n
     else blk_flag n' = blk_flag n \<and> {blk_seq n..get_end n'} \<inter> sacked_by ss = {} \<and> (ss = [] \<or> get_end n' < fst (hd ss)))"
proof (cases ss)
  case Nil
  then show ?thesis using assms(1-3) by (simp add: match_sack_def cuts_refl)
next
  case (Cons b ss')
  obtain l r where b: "b = (l, r)" by (cases b)
  have later: "sacked_by ss \<subseteq> {l..}" using assms(4) by (auto simp: Cons b sacked_by_def)
  have r: "blk_seq n < r" using assms(5) by (simp add: Cons b)
  consider "get_end n < l" | "blk_seq n < l" "l \<le> get_end n" | "l \<le> blk_seq n" by linarith
  then show ?thesis
  proof cases
    case 1
    then have "{blk_seq n..get_end n} \<inter> sacked_by ss = {}" using later by fastforce
    then show ?thesis using 1 assms(1-3) by (simp add: match_sack_def Cons b cuts_refl)
  next
    case 2
    then have flag: "blk_flag n \<noteq> SKB_RETRANSMITTED" by (auto simp: get_end_def)
    obtain n1 m sc1 where split: "split_now l n sc = (n1, m, sc1)" by (cases "split_now l n sc") auto
    note cut = cuts_split [OF split flag 2]
    then have "{blk_seq n..get_end n1} \<inter> sacked_by ss = {}" using later by fastforce
    then show ?thesis using 2 assms(1,2) split cut by (simp add: match_sack_def Cons b)
  next
    case 3
    obtain n1 ms1 sc1 where split: "(if r \<le> get_end n then let (n, m, sc) = split_now r n sc in (n, [m], sc) else (n, [], sc)) = (n1, ms1, sc1)"
      by (metis prod_cases3)
    have cut: "cuts n n1 ms1 sc sc1 \<and> get_end n1 \<le> r - 1 \<and> blk_flag n1 = blk_flag n \<and>
        nxt_to_retrx (sc_board sc1) = nxt_to_retrx (sc_board sc)"
    proof (cases "r \<le> get_end n")
      case True
      then have flag: "blk_flag n \<noteq> SKB_RETRANSMITTED" using r by (auto simp: get_end_def)
      obtain m where "split_now r n sc = (n1, m, sc1)" "ms1 = [m]" using split True by (auto split: prod.splits)
      then show ?thesis using cuts_split [OF _ flag r True] by simp
    next
      case False
      then show ?thesis using split assms(3) by (auto simp: cuts_refl)
    qed
    obtain n2 sc2 where mark: "mark_sacked n1 sc1 = (n2, sc2)" by (cases "mark_sacked n1 sc1")
    have "blk_flag n1 \<noteq> SKB_SACKED" "blk_seq n1 \<le> get_end n1" using cut assms(2) by (simp_all add: cuts_def)
    note marked = cuts_mark_sacked [OF mark this]
    have "n' = n2" "ms = ms1" "sc' = sc2" and left: "l \<le> get_end n"
      using assms(1,3) 3 split mark by (auto simp: match_sack_def Cons b Let_def)
    moreover have "cuts n n2 ([] @ ms1) sc sc2" using cuts_trans [of n n1 ms1 sc sc1 n2 "[]" sc2] cut marked by simp
    ultimately show ?thesis using cut marked 3 by (auto simp: Cons b)
  qed
qed

text \<open>A block that is not acknowledged may become lost, and then the next block to retransmit is known.\<close>

lemma check_lost_cuts:
  assumes "check_lost d n sc = (n', ms, sc')" "blk_seq n \<le> get_end n"
  shows "cuts n n' ms sc sc' \<and> (blk_flag n = SKB_SACKED \<longrightarrow> n' = n) \<and> (blk_flag n \<noteq> SKB_SACKED \<longrightarrow> blk_flag n' \<noteq> SKB_SACKED) \<and>
    get_end n' \<le> get_end n \<and> (blk_flag n' = SKB_LOST \<longrightarrow> nxt_to_retrx (sc_board sc') \<noteq> None) \<and>
    (nxt_to_retrx (sc_board sc') = nxt_to_retrx (sc_board sc) \<or>
     nxt_to_retrx (sc_board sc) = None \<and> nxt_to_retrx (sc_board sc') = Some (blk_id n) \<and> blk_flag n' = SKB_LOST)"
proof (cases "blk_flag n")
  case SKB_INFLIGHT
  let ?thr = "sb_fack (sc_board sc) - (d + 1)"
  show ?thesis
  proof (cases "blk_seq n \<le> ?thr")
    case True
    obtain n1 ms1 sc1 where split: "(if ?thr < get_end n then let (n, m, sc) = split_now (?thr + 1) n sc in (n, [m], sc) else (n, [], sc)) = (n1, ms1, sc1)"
      by (metis prod_cases3)
    have cut: "cuts n n1 ms1 sc sc1 \<and> get_end n1 \<le> get_end n \<and> blk_flag n1 = blk_flag n \<and>
        nxt_to_retrx (sc_board sc1) = nxt_to_retrx (sc_board sc)"
    proof (cases "?thr < get_end n")
      case thr: True
      obtain m where "split_now (?thr + 1) n sc = (n1, m, sc1)" "ms1 = [m]" using split thr by (auto split: prod.splits)
      then show ?thesis using cuts_split [of "?thr + 1" n sc n1 m sc1] True thr SKB_INFLIGHT by simp
    next
      case False
      then show ?thesis using split assms(2) by (auto simp: cuts_refl)
    qed
    have *: "n' = set_flag SKB_LOST n1" "ms = ms1"
      "sc' = sc1\<lparr>sc_board := set_nxt_to_retrx (blk_id n1) ((sc_board sc1)\<lparr>fack_out := fack_out (sc_board sc1) + get_length (set_flag SKB_LOST n1)\<rparr>),
                 sc_flag := sc_flag sc1 OR 8\<rparr>"
      using assms(1) True SKB_INFLIGHT split by (auto simp: check_lost_def Let_def)
    then have "cuts n1 n' [] sc1 sc'"
      using cut SKB_INFLIGHT by (auto simp: cuts_def set_nxt_to_retrx_def)
    then have "cuts n n' ([] @ ms1) sc sc'" using cuts_trans cut by blast
    then show ?thesis using cut * SKB_INFLIGHT by (auto simp: set_nxt_to_retrx_def cuts_def)
  next
    case False
    then show ?thesis using assms SKB_INFLIGHT by (auto simp: check_lost_def Let_def cuts_refl)
  qed
next
  case SKB_RETRANSMITTED
  then show ?thesis using assms
    by (auto simp: check_lost_def Let_def cuts_def set_nxt_to_retrx_def get_length_eq get_end_def set_flag_def split: if_splits)
qed (use assms in \<open>auto simp: check_lost_def Let_def cuts_def set_nxt_to_retrx_def split: if_splits\<close>)

text \<open>A well-formed list of acknowledgements: sorted by the left edges, no block empty.\<close>

abbreviation sacks_ok :: "(int \<times> int) list \<Rightarrow> bool" where
  "sacks_ok ss \<equiv> sorted_wrt (\<lambda>b c. fst b \<le> fst c) ss \<and> (\<forall>b \<in> set ss. fst b < snd b)"

lemma dropWhile_sacks:
  "sacks_ok ss \<Longrightarrow> sacks_ok (dropWhile (\<lambda>b. snd b \<le> q) ss) \<and>
     sacked_by (dropWhile (\<lambda>b. snd b \<le> q) ss) \<inter> {q..} = sacked_by ss \<inter> {q..} \<and>
     (dropWhile (\<lambda>b. snd b \<le> q) ss \<noteq> [] \<longrightarrow> q < snd (hd (dropWhile (\<lambda>b. snd b \<le> q) ss)))"
  by (induction ss) auto

lemma visit_cuts:
  assumes "visit d ss n sc = (n', ms, ss', sc')" "blk_seq n \<le> get_end n" "sacks_ok ss"
  shows "cuts n n' ms sc sc' \<and> sacks_ok ss' \<and> sacked_by ss' \<inter> {blk_seq n..} = sacked_by ss \<inter> {blk_seq n..} \<and>
    (if blk_flag n = SKB_SACKED then n' = n \<and> ms = []
     else if blk_flag n' = SKB_SACKED then {blk_seq n..get_end n'} \<subseteq> sacked_by ss
     else {blk_seq n..get_end n'} \<inter> sacked_by ss = {}) \<and>
    (blk_flag n' = SKB_LOST \<longrightarrow> nxt_to_retrx (sc_board sc') \<noteq> None) \<and>
    (nxt_to_retrx (sc_board sc') = nxt_to_retrx (sc_board sc) \<or>
     nxt_to_retrx (sc_board sc) = None \<and> nxt_to_retrx (sc_board sc') = Some (blk_id n) \<and> blk_flag n' = SKB_LOST)"
proof (cases "blk_flag n = SKB_SACKED")
  case True
  then show ?thesis using assms by (auto simp: visit_def cuts_refl)
next
  case False
  let ?ss = "dropWhile (\<lambda>b. snd b \<le> blk_seq n) ss"
  obtain n1 ms1 sc1 where match: "match_sack ?ss n sc = (n1, ms1, sc1)" by (metis prod_cases3)
  obtain n2 ms2 sc2 where lost: "(if ?ss = [] \<or> get_end n1 < fst (hd ?ss) then check_lost d n1 sc1 else (n1, [], sc1)) = (n2, ms2, sc2)"
    by (metis prod_cases3)
  have eqs: "n' = n2" "ms = ms2 @ ms1" "ss' = ?ss" "sc' = sc2"
    using assms(1) False match lost by (auto simp: visit_def Let_def split: prod.splits)
  note dropped = dropWhile_sacks [OF assms(3), of "blk_seq n"]
  have cut1: "cuts n n1 ms1 sc sc1 \<and> nxt_to_retrx (sc_board sc1) = nxt_to_retrx (sc_board sc) \<and>
    (if blk_flag n1 = SKB_SACKED then {blk_seq n..get_end n1} \<subseteq> sacked_by ?ss \<and> ?ss \<noteq> [] \<and> fst (hd ?ss) \<le> blk_seq n
     else blk_flag n1 = blk_flag n \<and> {blk_seq n..get_end n1} \<inter> sacked_by ?ss = {} \<and> (?ss = [] \<or> get_end n1 < fst (hd ?ss)))"
    using match_sack_cuts [OF match False assms(2)] dropped by blast
  then have n1: "blk_seq n1 = blk_seq n" "blk_seq n1 \<le> get_end n1" "blk_id n1 = blk_id n" by (simp_all add: cuts_def)
  have same: "sacked_by ss \<inter> {blk_seq n..e} = sacked_by ?ss \<inter> {blk_seq n..e}" for e using dropped by auto
  show ?thesis
  proof (cases "blk_flag n1 = SKB_SACKED")
    case True
    then have "?ss \<noteq> []" "\<not> get_end n1 < fst (hd ?ss)" using cut1 n1(1,2) by simp_all
    then have "n2 = n1" "ms2 = []" "sc2 = sc1" using lost by (simp_all del: dropWhile_eq_Nil_conv)
    then show ?thesis using eqs cut1 dropped False True same [of "get_end n1"] by auto
  next
    case notsacked: False
    then have "check_lost d n1 sc1 = (n2, ms2, sc2)" using lost cut1 by auto
    note cut2 = check_lost_cuts [OF this n1(2)]
    have "cuts n n2 (ms2 @ ms1) sc sc2" using cuts_trans [of n n1 ms1 sc sc1 n2 ms2 sc2] cut1 cut2 notsacked by simp
    moreover have "{blk_seq n..get_end n2} \<inter> sacked_by ss = {}"
    proof -
      have "get_end n2 \<le> get_end n1" "{blk_seq n..get_end n1} \<inter> sacked_by ?ss = {}" using cut1 cut2 notsacked by simp_all
      then have "sacked_by ?ss \<inter> {blk_seq n..get_end n2} = {}" by (auto simp: disjoint_iff)
      then show ?thesis using same [of "get_end n2"] by (simp add: Int_commute)
    qed
    moreover have "blk_flag n2 \<noteq> SKB_SACKED" using cut2 notsacked by blast
    moreover have "(blk_flag n2 = SKB_LOST \<longrightarrow> nxt_to_retrx (sc_board sc2) \<noteq> None) \<and>
      (nxt_to_retrx (sc_board sc2) = nxt_to_retrx (sc_board sc) \<or>
       nxt_to_retrx (sc_board sc) = None \<and> nxt_to_retrx (sc_board sc2) = Some (blk_id n) \<and> blk_flag n2 = SKB_LOST)"
      using cut1 cut2 n1(3) by simp
    ultimately show ?thesis unfolding eqs using dropped False by simp
  qed
qed

text \<open>A block that is still in flight after the visit is close enough to the furthest acknowledgement.\<close>

definition near :: "int \<Rightarrow> block list \<Rightarrow> bool" where
  "near thr ns \<longleftrightarrow> (\<forall>n \<in> set ns. blk_flag n = SKB_INFLIGHT \<longrightarrow> thr < blk_seq n)"

lemma near_simps [simp]:
  "near thr []" "near thr (n # ns) \<longleftrightarrow> (blk_flag n = SKB_INFLIGHT \<longrightarrow> thr < blk_seq n) \<and> near thr ns"
  "near thr (rev ns) \<longleftrightarrow> near thr ns"
  by (auto simp: near_def)

lemma check_lost_near:
  assumes "check_lost d n sc = (n', ms, sc')"
  shows "near (sb_fack (sc_board sc) - (d + 1)) [n'] \<and> sc_thorough sc' = sc_thorough sc"
  using assms
  by (auto simp: check_lost_def split_now_def fresh_block_def Let_def split: if_splits skb_flag.splits)

lemma match_sack_thorough: "match_sack ss n sc = (n', ms, sc') \<Longrightarrow> sc_thorough sc \<Longrightarrow> sc_thorough sc'"
  by (auto simp: match_sack_def split_now_def fresh_block_def mark_sacked_def Let_def split: if_splits list.splits)

lemma visit_near:
  assumes "visit d ss n sc = (n', ms, ss', sc')" "blk_seq n \<le> get_end n" "sacks_ok ss"
  shows "near (sb_fack (sc_board sc) - (d + 1)) [n'] \<and> (sc_thorough sc \<longrightarrow> sc_thorough sc')"
proof (cases "blk_flag n = SKB_SACKED")
  case True
  then show ?thesis using assms by (auto simp: visit_def)
next
  case False
  let ?ss = "dropWhile (\<lambda>b. snd b \<le> blk_seq n) ss"
  obtain n1 ms1 sc1 where match: "match_sack ?ss n sc = (n1, ms1, sc1)" by (metis prod_cases3)
  have cut: "cuts n n1 ms1 sc sc1"
    "blk_flag n1 \<noteq> SKB_SACKED \<longrightarrow> ?ss = [] \<or> get_end n1 < fst (hd ?ss)"
    using match_sack_cuts [OF match False assms(2)] dropWhile_sacks [OF assms(3), of "blk_seq n"] by (auto split: if_splits)
  then have fack: "sb_fack (sc_board sc1) = sb_fack (sc_board sc)" by (simp add: cuts_def)
  show ?thesis
  proof (cases "?ss = [] \<or> get_end n1 < fst (hd ?ss)")
    case True
    then obtain ms2 where "check_lost d n1 sc1 = (n', ms2, sc')"
      using assms(1) False match by (auto simp: visit_def Let_def split: prod.splits)
    then show ?thesis using check_lost_near match_sack_thorough [OF match] fack by fastforce
  next
    case no: False
    then have "n' = n1" "sc' = sc1"
      using assms(1) False match by (simp_all add: visit_def Let_def del: dropWhile_eq_Nil_conv)
    then show ?thesis using no cut(2) match_sack_thorough [OF match] by auto
  qed
qed

subsection \<open>Joining blocks and extending the board\<close>

lemma push_block_ok:
  assumes "contig a (rev ps)" "frontier a (rev ps) = blk_seq n" "blk_seq n \<le> get_end n"
  shows "contig a (rev (push_block ps n)) \<and> frontier a (rev (push_block ps n)) = get_end n + 1 \<and>
    packets f (push_block ps n) = packets f (n # ps) \<and> count_of f (push_block ps n) = count_of f (n # ps) \<and>
    get_end (hd (push_block ps n)) = get_end n \<and> blk_flag (hd (push_block ps n)) = blk_flag n \<and>
    blk_id ` set (push_block ps n) \<subseteq> blk_id ` set (n # ps) \<and>
    (distinct (map blk_id (n # ps)) \<longrightarrow> distinct (map blk_id (push_block ps n))) \<and>
    (nxt_in i (n # ps) \<and> (i = Some (blk_id n) \<longrightarrow> ps = [] \<or> blk_flag (hd ps) \<noteq> blk_flag n) \<longrightarrow> nxt_in i (push_block ps n))"
proof (cases ps)
  case Nil
  then show ?thesis using assms by (simp add: push_block_def)
next
  case (Cons p ps')
  show ?thesis
  proof (cases "mergable p n")
    case True
    then have "get_end (merge_blocks p n) = get_end n" "blk_seq n = get_end p + 1" "get_length (merge_blocks p n) = get_length p + get_length n"
      "blk_flag (merge_blocks p n) = blk_flag p" "blk_seq (merge_blocks p n) = blk_seq p" "blk_id (merge_blocks p n) = blk_id p"
      using assms Cons by (auto simp: mergable_def merge_blocks_def get_end_def get_length_def)
    then show ?thesis using True assms Cons by (auto simp: push_block_def mergable_def)
  next
    case False
    then show ?thesis using assms Cons by (auto simp: push_block_def)
  qed
qed

subsection \<open>The traversal keeps the board in order\<close>

text \<open>The invariant of the traversal: \<open>ps\<close> are the blocks behind it, in reverse, and \<open>rest\<close> those before it. A lost
  block directly behind it has been seen, so that joining blocks never removes the next one to retransmit.\<close>

definition scan_inv :: "int \<Rightarrow> block list \<Rightarrow> block list \<Rightarrow> scan \<Rightarrow> bool" where
  "scan_inv a ps rest sc \<longleftrightarrow>
     contig a (rev ps) \<and> contig (frontier a (rev ps)) rest \<and> distinct (map blk_id (ps @ rest)) \<and>
     blk_id ` set (ps @ rest) \<subseteq> {..<sb_fresh (sc_board sc)} \<and>
     sack_out (sc_board sc) = count_of SKB_SACKED (ps @ rest) \<and> fack_out (sc_board sc) = count_of SKB_LOST (ps @ rest) \<and>
     nxt_in (nxt_to_retrx (sc_board sc)) ps \<and>
     (ps \<noteq> [] \<and> blk_flag (hd ps) = SKB_LOST \<longrightarrow> nxt_to_retrx (sc_board sc) \<noteq> None)"

lemma count_of_all_flags: "(\<forall>m \<in> set ms. blk_flag m = f) \<Longrightarrow> f \<noteq> g \<Longrightarrow> count_of g ms = 0 \<and> packets g ms = {}"
  by (induction ms) auto

text \<open>The identities stay distinct: the new blocks have fresh ones, and joining only removes some.\<close>

lemma push_ids:
  assumes same: "blk_id n' = blk_id n" "distinct (map blk_id (n' # ps)) \<longrightarrow> distinct (map blk_id ps')"
    "blk_id ` set ps' \<subseteq> blk_id ` set (n' # ps)"
    and old: "blk_id ` set (ps @ n # rest) \<subseteq> {..<i}" "distinct (map blk_id (ps @ n # rest))"
    and new: "distinct (map blk_id ms)" "blk_id ` set ms \<subseteq> {i..<i'}" "i \<le> i'"
  shows "distinct (map blk_id (ps' @ ms @ rest)) \<and> blk_id ` set (ps' @ ms @ rest) \<subseteq> {..<i'}"
proof -
  define A B M P where sets: "A = blk_id ` set (n # ps)" "B = blk_id ` set rest" "M = blk_id ` set ms" "P = blk_id ` set ps'"
  have range: "A \<subseteq> {..<i}" "B \<subseteq> {..<i}" using old(1) by (auto simp: sets)
  have "A \<inter> B = {}" using old(2) by (auto simp: sets disjoint_iff)
  moreover have "M \<subseteq> {i..}" using new(2) by (auto simp: sets)
  moreover have sub: "P \<subseteq> A" using same(1,3) by (simp add: sets)
  moreover have "{..<i} \<inter> {i..} = {}" by auto
  ultimately have "P \<inter> M = {}" "M \<inter> B = {}" "P \<inter> B = {}" using range by blast+
  moreover have "distinct (map blk_id ps')" using same(1,2) old(2) by auto
  ultimately have "distinct (map blk_id (ps' @ ms @ rest))"
    using old(2) new(1) by (simp add: sets [symmetric] Int_Un_distrib)
  moreover have "A \<subseteq> {..<i'}" "B \<subseteq> {..<i'}" using range new(3) by auto
  moreover have "M \<subseteq> {..<i'}" using new(2) by (auto simp: sets)
  ultimately show ?thesis using sub by (simp add: image_Un sets [symmetric])
qed

text \<open>The visit and the joining of one block.\<close>

lemma visit_push_inv:
  assumes inv: "scan_inv a ps (n # rest) sc" and ss: "sacks_ok ss" and visit: "visit d ss n sc = (n', ms, ss', sc')"
  shows "scan_inv a (push_block ps n') (ms @ rest) sc' \<and> frontier a (rev (push_block ps n')) = get_end n' + 1 \<and>
    get_end (hd (push_block ps n')) = get_end n'"
proof -
  have n: "blk_seq n = frontier a (rev ps)" "blk_seq n \<le> get_end n" "contig (get_end n + 1) rest"
    and old: "blk_id ` set (ps @ n # rest) \<subseteq> {..<sb_fresh (sc_board sc)}" "distinct (map blk_id (ps @ n # rest))"
    using inv by (simp_all add: scan_inv_def)
  note v = visit_cuts [OF visit n(2) ss]
  have cut: "blk_id n' = blk_id n" "blk_seq n' = blk_seq n" "blk_seq n \<le> get_end n'" "contig (get_end n' + 1) ms"
    "frontier (get_end n' + 1) ms = get_end n + 1" "distinct (map blk_id ms)"
    "blk_id ` set ms \<subseteq> {sb_fresh (sc_board sc)..<sb_fresh (sc_board sc')}" "sb_fresh (sc_board sc) \<le> sb_fresh (sc_board sc')"
    "sack_out (sc_board sc') = sack_out (sc_board sc) + count_of SKB_SACKED (n' # ms) - count_of SKB_SACKED [n]"
    "fack_out (sc_board sc') = fack_out (sc_board sc) + count_of SKB_LOST (n' # ms) - count_of SKB_LOST [n]"
    using v by (simp_all add: cuts_def)
  let ?ps = "push_block ps n'"
  have "contig a (rev ps)" "frontier a (rev ps) = blk_seq n'" "blk_seq n' \<le> get_end n'"
    using inv n cut by (simp_all add: scan_inv_def)
  note push = push_block_ok [OF this]
  have "distinct (map blk_id (?ps @ ms @ rest)) \<and> blk_id ` set (?ps @ ms @ rest) \<subseteq> {..<sb_fresh (sc_board sc')}"
    by (rule push_ids [OF cut(1) _ _ old cut(6-8)]) (use push [of SKB_LOST None] in blast)+
  moreover have "nxt_in (nxt_to_retrx (sc_board sc')) ?ps"
  proof -
    have seen: "nxt_in (nxt_to_retrx (sc_board sc)) ps" "ps \<noteq> [] \<and> blk_flag (hd ps) = SKB_LOST \<longrightarrow> nxt_to_retrx (sc_board sc) \<noteq> None"
      using inv by (simp_all add: scan_inv_def)
    have "nxt_to_retrx (sc_board sc) \<noteq> Some (blk_id n)"
    proof
      assume "nxt_to_retrx (sc_board sc) = Some (blk_id n)"
      then have "blk_id n \<in> blk_id ` set ps" using seen(1) by simp
      then show False using old(2) by simp
    qed
    then show ?thesis using seen push [of SKB_LOST "nxt_to_retrx (sc_board sc')"] v cut(1) by auto
  qed
  moreover have "?ps \<noteq> []" by (auto simp: push_block_def split: list.splits)
  ultimately show ?thesis
    using inv n cut(4,5,9,10) push [of SKB_LOST None] push [of SKB_SACKED None] v
    by (simp add: scan_inv_def)
qed

lemma push_block_near: "near thr (n # ps) \<Longrightarrow> near thr (push_block ps n)"
  by (auto simp: push_block_def merge_blocks_def mergable_def split: list.splits)

lemma extend_inv:
  assumes "scan_inv a ps rest sc" "ps \<noteq> []" "extend ps rest sc = (rest', sc')" "frontier a (rev ps) = get_end (hd ps) + 1"
  shows "scan_inv a ps rest' sc' \<and> (rest' = [] \<longrightarrow> sb_fack (sc_board sc) < frontier a (rev ps)) \<and>
    sb_fack (sc_board sc') = sb_fack (sc_board sc) \<and> packets SKB_SACKED rest' = packets SKB_SACKED rest \<and>
    frontier a (rev ps @ rest) \<le> frontier a (rev ps @ rest') \<and>
    max (frontier a (rev ps @ rest')) (sb_fack (sc_board sc) + 1) = max (frontier a (rev ps @ rest)) (sb_fack (sc_board sc) + 1)"
proof (cases "rest = [] \<and> get_end (hd ps) < sb_fack (sc_board sc)")
  case True
  let ?m = "new_block (sb_fresh (sc_board sc)) (get_end (hd ps) + 1) (sb_fack (sc_board sc)) SKB_INFLIGHT"
  have eqs: "rest' = [?m]" "sc' = sc\<lparr>sc_board := (sc_board sc)\<lparr>sb_fresh := sb_fresh (sc_board sc) + 1\<rparr>\<rparr>" "rest = []"
    using assms(3) True by (auto simp: extend_def fresh_block_def)
  have "get_end ?m = sb_fack (sc_board sc)" by (simp add: new_block_def get_end_def)
  then show ?thesis
    using assms(1,2,4) True by (auto simp: eqs scan_inv_def new_block_def)
next
  case False
  then show ?thesis using assms by (auto simp: extend_def)
qed

text \<open>The packets that one iteration of the traversal records.\<close>

lemma visit_push_packets:
  assumes inv: "scan_inv a ps (n # rest) sc" and ss: "sacks_ok ss" and visit: "visit d ss n sc = (n', ms, ss', sc')"
  shows "packets SKB_SACKED (push_block ps n') \<union> packets SKB_SACKED (ms @ rest) =
    packets SKB_SACKED ps \<union> packets SKB_SACKED (n # rest) \<union> (sacked_by ss \<inter> {blk_seq n..get_end n'})"
proof -
  have n: "blk_seq n = frontier a (rev ps)" "blk_seq n \<le> get_end n" "contig a (rev ps)"
    using inv by (simp_all add: scan_inv_def)
  note v = visit_cuts [OF visit n(2) ss]
  then have n': "blk_seq n' = blk_seq n" "blk_seq n' \<le> get_end n'" and ms: "\<forall>m \<in> set ms. blk_flag m = blk_flag n"
    by (simp_all add: cuts_def)
  have "packets SKB_SACKED (push_block ps n') = packets SKB_SACKED (n' # ps)"
    using push_block_ok [OF n(3) _ n'(2), of SKB_SACKED None] n(1) n'(1) by simp
  moreover have "packets SKB_SACKED [n'] \<union> packets SKB_SACKED ms =
      packets SKB_SACKED [n] \<union> (sacked_by ss \<inter> {blk_seq n..get_end n'})"
  proof (cases "blk_flag n = SKB_SACKED")
    case True
    then show ?thesis using v by auto
  next
    case False
    then have "packets SKB_SACKED ms = {}" using count_of_all_flags [OF ms] by simp
    then show ?thesis using False v n'(1) by (auto split: if_splits)
  qed
  ultimately show ?thesis by auto
qed

text \<open>One iteration: the traversal moves on, and records the acknowledged packets that it passes.\<close>

lemma traverse_step:
  assumes inv: "scan_inv a ps (n # rest) sc" and ss: "sacks_ok ss" and more: "\<not> (ss = [] \<and> \<not> sc_thorough sc)"
  obtains ps' rest' ss' sc' where "traverse d ss ps (n # rest) sc = traverse d ss' ps' rest' sc'"
    "scan_inv a ps' rest' sc'" "sacks_ok ss'" "sb_fack (sc_board sc') = sb_fack (sc_board sc)"
    "sacked_by ss' \<inter> {frontier a (rev ps)..} = sacked_by ss \<inter> {frontier a (rev ps)..}"
    "frontier a (rev ps) < frontier a (rev ps')" "frontier a (rev ps @ n # rest) \<le> frontier a (rev ps' @ rest')"
    "rest' = [] \<longrightarrow> sb_fack (sc_board sc) < frontier a (rev ps')"
    "max (frontier a (rev ps' @ rest')) (sb_fack (sc_board sc) + 1) = max (frontier a (rev ps @ n # rest)) (sb_fack (sc_board sc) + 1)"
    "packets SKB_SACKED (ps' @ rest') =
       packets SKB_SACKED (ps @ n # rest) \<union> (sacked_by ss \<inter> {frontier a (rev ps)..<frontier a (rev ps')})"
    "near (sb_fack (sc_board sc) - (d + 1)) ps \<longrightarrow> near (sb_fack (sc_board sc) - (d + 1)) ps'"
    "sc_thorough sc \<longrightarrow> sc_thorough sc'"
proof -
  obtain n' ms ss' sc1 where visit: "visit d ss n sc = (n', ms, ss', sc1)" by (metis prod_cases4)
  let ?ps = "push_block ps n'"
  obtain rest' sc2 where extend: "extend ?ps (ms @ rest) sc1 = (rest', sc2)" by fastforce
  have step: "traverse d ss ps (n # rest) sc = traverse d ss' ?ps rest' sc2"
    using more visit extend by (subst traverse.simps) (auto simp: Let_def)
  have n: "blk_seq n = frontier a (rev ps)" "blk_seq n \<le> get_end n" using inv by (simp_all add: scan_inv_def)
  note v = visit_cuts [OF visit n(2) ss]
  note inv1 = visit_push_inv [OF inv ss visit]
  have "?ps \<noteq> []" by (auto simp: push_block_def split: list.splits)
  note ext = extend_inv [OF conjunct1 [OF inv1] this extend]
  have c': "frontier a (rev ?ps) = get_end n' + 1" "frontier a (rev ps) < get_end n' + 1"
    and fack: "sb_fack (sc_board sc1) = sb_fack (sc_board sc)"
    and front: "frontier a (rev ?ps @ ms @ rest) = frontier a (rev ps @ n # rest)"
    using inv1 v n(1) by (simp_all add: cuts_def)
  have ext': "scan_inv a ?ps rest' sc2" "sb_fack (sc_board sc2) = sb_fack (sc_board sc)"
    "rest' = [] \<longrightarrow> sb_fack (sc_board sc) < frontier a (rev ?ps)" "packets SKB_SACKED rest' = packets SKB_SACKED (ms @ rest)"
    "frontier a (rev ps @ n # rest) \<le> frontier a (rev ?ps @ rest')"
    "max (frontier a (rev ?ps @ rest')) (sb_fack (sc_board sc) + 1) = max (frontier a (rev ps @ n # rest)) (sb_fack (sc_board sc) + 1)"
    using ext inv1 c' fack front by simp_all
  have "packets SKB_SACKED (?ps @ rest') =
      packets SKB_SACKED (ps @ n # rest) \<union> (sacked_by ss \<inter> {frontier a (rev ps)..<frontier a (rev ?ps)})"
    using visit_push_packets [OF inv ss visit] ext'(4) c'(1) n(1) by (simp add: atLeastLessThanPlusOne_atLeastAtMost_int Un_assoc)
  moreover have "near (sb_fack (sc_board sc) - (d + 1)) ps \<longrightarrow> near (sb_fack (sc_board sc) - (d + 1)) ?ps"
    "sc_thorough sc \<longrightarrow> sc_thorough sc2"
    using visit_near [OF visit n(2) ss] push_block_near [of _ n' ps] extend
    by (auto simp: extend_def fresh_block_def split: if_splits)
  ultimately show thesis
    using that [OF step ext'(1) _ ext'(2) _ _ ext'(5,3,6)] v n(1) c' by simp
qed

text \<open>What is recorded up to \<open>c'\<close> and what is recorded behind it.\<close>

lemma recorded_split:
  fixes c :: int
  assumes "S' \<inter> {c..} = S \<inter> {c..}" "c < c'" "c' \<le> e" "P' = P \<union> (S \<inter> {c..<c'})" "Q = P' \<union> (S' \<inter> {c'..<e})"
    and "S' \<inter> {c'..f} \<subseteq> {..<e}"
  shows "Q = P \<union> (S \<inter> {c..<e}) \<and> S \<inter> {c..f} \<subseteq> {..<e}"
proof -
  have same: "x \<in> S' \<longleftrightarrow> x \<in> S" if "c' \<le> x" for x
  proof -
    have "x \<in> {c..}" using that assms(2) by simp
    then show ?thesis using assms(1) by blast
  qed
  have "{c..<e} = {c..<c'} \<union> {c'..<e}" using assms(2,3) by auto
  moreover have "S' \<inter> {c'..<e} = S \<inter> {c'..<e}" using same by auto
  moreover have "x < e" if "x \<in> S" "x \<in> {c..f}" for x
    using that assms(3,6) same [of x] by (cases "x < c'") auto
  ultimately show ?thesis using assms(4,5) by (auto simp: Int_Un_distrib)
qed

lemma traverse_ok:
  assumes "scan_inv a ps rest sc" "sacks_ok ss" "rest = [] \<longrightarrow> sb_fack (sc_board sc) < frontier a (rev ps)"
  shows "\<exists>bs sc'. traverse d ss ps rest sc = Some (bs, sc') \<and> board_ok a ((sc_board sc')\<lparr>sb_blocks := bs\<rparr>) \<and>
    sb_fack (sc_board sc') = sb_fack (sc_board sc) \<and> frontier a (rev ps @ rest) \<le> frontier a bs \<and>
    frontier a bs \<le> max (frontier a (rev ps @ rest)) (sb_fack (sc_board sc) + 1) \<and>
    packets SKB_SACKED bs = packets SKB_SACKED (ps @ rest) \<union> (sacked_by ss \<inter> {frontier a (rev ps)..<frontier a bs}) \<and>
    sacked_by ss \<inter> {frontier a (rev ps)..sb_fack (sc_board sc)} \<subseteq> {..<frontier a bs} \<and>
    (sc_thorough sc \<and> near (sb_fack (sc_board sc) - (d + 1)) ps \<longrightarrow> near (sb_fack (sc_board sc) - (d + 1)) bs)"
  using assms
proof (induction "nat (max (frontier a (rev ps @ rest)) (sb_fack (sc_board sc) + 1) - frontier a (rev ps))"
    arbitrary: ss ps rest sc rule: less_induct)
  case less
  let ?c = "frontier a (rev ps)"
  have stop: ?case if "traverse d ss ps rest sc = Some (rev ps @ rest, sc)" "rest = [] \<or> ss = [] \<and> \<not> sc_thorough sc"
  proof -
    have "board_ok a ((sc_board sc)\<lparr>sb_blocks := rev ps @ rest\<rparr>)"
      using less.prems(1) by (auto simp: scan_inv_def board_ok_def rev_map [symmetric] Int_commute)
    then show ?thesis using that less.prems(3) by auto
  qed
  consider "rest = []" | n rest0 where "rest = n # rest0" "ss = [] \<and> \<not> sc_thorough sc"
    | n rest0 where "rest = n # rest0" "\<not> (ss = [] \<and> \<not> sc_thorough sc)" by (cases rest) auto
  then show ?case
  proof cases
    case 1
    then have "traverse d ss ps rest sc = Some (rev ps @ rest, sc)" by (subst traverse.simps) simp
    then show ?thesis by (rule stop) (simp add: 1)
  next
    case 2
    then have "traverse d ss ps rest sc = Some (rev ps @ rest, sc)" by (subst traverse.simps) simp
    then show ?thesis by (rule stop) (simp add: 2)
  next
    case 3
    obtain ps' rest' ss' sc2 where step: "traverse d ss ps rest sc = traverse d ss' ps' rest' sc2"
      and inv2: "scan_inv a ps' rest' sc2" and ss': "sacks_ok ss'" and fack2: "sb_fack (sc_board sc2) = sb_fack (sc_board sc)"
      and same: "sacked_by ss' \<inter> {?c..} = sacked_by ss \<inter> {?c..}" and c': "?c < frontier a (rev ps')"
      and bound: "frontier a (rev ps @ rest) \<le> frontier a (rev ps' @ rest')"
      and last: "rest' = [] \<longrightarrow> sb_fack (sc_board sc) < frontier a (rev ps')"
      and max: "max (frontier a (rev ps' @ rest')) (sb_fack (sc_board sc) + 1) = max (frontier a (rev ps @ rest)) (sb_fack (sc_board sc) + 1)"
      and pack: "packets SKB_SACKED (ps' @ rest') = packets SKB_SACKED (ps @ rest) \<union> (sacked_by ss \<inter> {?c..<frontier a (rev ps')})"
      and near: "near (sb_fack (sc_board sc) - (d + 1)) ps \<longrightarrow> near (sb_fack (sc_board sc) - (d + 1)) ps'"
      and thorough: "sc_thorough sc \<longrightarrow> sc_thorough sc2"
      using traverse_step [OF less.prems(1) [unfolded 3(1)] less.prems(2) 3(2)] unfolding 3(1) by metis
    define c' where "c' = frontier a (rev ps')"
    have "?c < frontier a (rev ps @ rest)"
      using less.prems(1) frontier_ge [of "get_end n + 1" rest0] by (simp add: 3(1) scan_inv_def)
    then have "nat (max (frontier a (rev ps' @ rest')) (sb_fack (sc_board sc2) + 1) - frontier a (rev ps'))
        < nat (max (frontier a (rev ps @ rest)) (sb_fack (sc_board sc) + 1) - ?c)"
      unfolding fack2 max using c' by (simp add: nat_less_iff)
    from less.hyps [OF this inv2 ss'] last obtain bs sc' where IH: "traverse d ss' ps' rest' sc2 = Some (bs, sc')"
      "board_ok a ((sc_board sc')\<lparr>sb_blocks := bs\<rparr>)" "sb_fack (sc_board sc') = sb_fack (sc_board sc)"
      "frontier a (rev ps' @ rest') \<le> frontier a bs"
      "frontier a bs \<le> max (frontier a (rev ps' @ rest')) (sb_fack (sc_board sc) + 1)"
      "packets SKB_SACKED bs = packets SKB_SACKED (ps' @ rest') \<union> (sacked_by ss' \<inter> {c'..<frontier a bs})"
      "sacked_by ss' \<inter> {c'..sb_fack (sc_board sc)} \<subseteq> {..<frontier a bs}"
      "sc_thorough sc2 \<and> near (sb_fack (sc_board sc) - (d + 1)) ps' \<longrightarrow> near (sb_fack (sc_board sc) - (d + 1)) bs"
      unfolding fack2 c'_def by blast
    have c'': "?c < c'" "c' \<le> frontier a bs"
      using IH(4) inv2 c' frontier_ge [of c' rest'] by (simp_all add: c'_def scan_inv_def)
    note recorded_split [OF same c'' pack [folded c'_def] IH(6,7)]
    then show ?thesis
      using IH(1-5,8) bound near thorough max unfolding step by (intro exI [of _ bs] exI [of _ sc']) simp
  qed
qed

subsection \<open>The update\<close>

lemma set_insert_sack [simp]: "set (insert_sack b cs) = insert b (set cs)"
  by (induction cs) auto

lemma sorted_insert_sack:
  "sorted_wrt (\<lambda>b c. fst b \<le> fst c) cs \<Longrightarrow> sorted_wrt (\<lambda>b c. fst b \<le> fst c) (insert_sack b cs)"
  by (induction cs) auto

lemma sort_sacks_ok:
  "set (sort_sacks last_ack sacks) = {b \<in> set sacks. last_ack \<le> fst b} \<and>
   sorted_wrt (\<lambda>b c. fst b \<le> fst c) (sort_sacks last_ack sacks)"
proof -
  have "set (fold insert_sack bs cs) = set bs \<union> set cs \<and>
      (sorted_wrt (\<lambda>b c. fst b \<le> fst c) cs \<longrightarrow> sorted_wrt (\<lambda>b c. fst b \<le> fst c) (fold insert_sack bs cs))" for bs cs
    by (induction bs arbitrary: cs) (auto simp: sorted_insert_sack)
  then show ?thesis by (simp add: sort_sacks_def)
qed

lemma clean_ok:
  assumes "board_ok a sb" "a \<le> last_ack + 1"
  obtains sb1 flag thorough where "CleanRtxQueue last_ack sb = Some (sb1, flag, thorough)" "board_ok (last_ack + 1) sb1"
    "\<And>f. packets f (sb_blocks sb1) = packets f (sb_blocks sb) \<inter> {last_ack<..}" "sb_fack sb1 = sb_fack sb"
    "frontier (last_ack + 1) (sb_blocks sb1) = max (last_ack + 1) (frontier a (sb_blocks sb))"
proof -
  have ok: "contig a (sb_blocks sb)" "distinct (map blk_id (sb_blocks sb))" "\<forall>n \<in> set (sb_blocks sb). blk_id n < sb_fresh sb"
    "sack_out sb = count_of SKB_SACKED (sb_blocks sb)" "fack_out sb = count_of SKB_LOST (sb_blocks sb)"
    "nxt_in (nxt_to_retrx sb) (sb_blocks sb)"
    using assms(1) by (simp_all add: board_ok_def)
  show thesis
    using clean_loop_ok [OF ok(1) assms(2) ok(2-6), of 0 False] that unfolding CleanRtxQueue_def by metis
qed

text \<open>The part of the update behind the early returns: \<open>fack\<close> is set, and an empty board gets a first block.\<close>

lemma traverse_start:
  assumes ok: "board_ok (last_ack + 1) sb" and ss: "sacks_ok ss" and newer: "\<forall>b \<in> set ss. last_ack < fst b"
    and start: "(blocks, sc) = (if sb_blocks sb = [] then let (m, sc) = fresh_block (last_ack + 1) (sb_fack sb) SKB_INFLIGHT sc0 in ([m], sc)
      else (sb_blocks sb, sc0))" "sc0 = \<lparr>sc_board = sb\<lparr>nxt_to_retrx := None\<rparr>, sc_thorough = th, sc_flag = fl\<rparr>"
    and first: "sb_blocks sb = [] \<Longrightarrow> last_ack < sb_fack sb"
  shows "\<exists>bs sc'. traverse d ss [] blocks sc = Some (bs, sc') \<and> board_ok (last_ack + 1) ((sc_board sc')\<lparr>sb_blocks := bs\<rparr>) \<and>
    sb_fack (sc_board sc') = sb_fack sb \<and>
    frontier (last_ack + 1) bs \<le> max (frontier (last_ack + 1) (sb_blocks sb)) (sb_fack sb + 1) \<and>
    packets SKB_SACKED bs = (packets SKB_SACKED (sb_blocks sb) \<union> sacked_by ss) \<inter> {last_ack<..<frontier (last_ack + 1) bs} \<and>
    sacked_by ss \<inter> {..sb_fack sb} \<subseteq> packets SKB_SACKED bs \<and> (th \<longrightarrow> near (sb_fack sb - (d + 1)) bs)"
proof -
  have inv: "scan_inv (last_ack + 1) [] blocks sc \<and> blocks \<noteq> [] \<and> sc_thorough sc = th \<and> sb_fack (sc_board sc) = sb_fack sb \<and>
    packets SKB_SACKED blocks = packets SKB_SACKED (sb_blocks sb) \<and>
    frontier (last_ack + 1) blocks \<le> max (frontier (last_ack + 1) (sb_blocks sb)) (sb_fack sb + 1)"
    using ok start first
    by (auto simp: scan_inv_def board_ok_def fresh_block_def new_block_def get_end_def split: if_splits)
  then obtain bs sc' where *: "traverse d ss [] blocks sc = Some (bs, sc')" "board_ok (last_ack + 1) ((sc_board sc')\<lparr>sb_blocks := bs\<rparr>)"
    "sb_fack (sc_board sc') = sb_fack sb" "frontier (last_ack + 1) bs \<le> max (frontier (last_ack + 1) blocks) (sb_fack sb + 1)"
    "packets SKB_SACKED bs = packets SKB_SACKED (sb_blocks sb) \<union> (sacked_by ss \<inter> {last_ack + 1..<frontier (last_ack + 1) bs})"
    "sacked_by ss \<inter> {last_ack + 1..sb_fack sb} \<subseteq> {..<frontier (last_ack + 1) bs}"
    "th \<longrightarrow> near (sb_fack sb - (d + 1)) bs"
    using traverse_ok [of "last_ack + 1" "[]" blocks sc ss d] ss by fastforce
  define e where "e = frontier (last_ack + 1) bs"
  have new: "last_ack < x" "last_ack + 1 \<le> x" if "x \<in> sacked_by ss" for x
    using newer that by (force simp: sacked_by_def)+
  have old: "packets SKB_SACKED (sb_blocks sb) \<subseteq> {last_ack<..<e}"
    using *(2,5) packets_range [of "last_ack + 1" bs SKB_SACKED] by (force simp: board_ok_def e_def)
  have eq: "packets SKB_SACKED bs = (packets SKB_SACKED (sb_blocks sb) \<union> sacked_by ss) \<inter> {last_ack<..<e}"
    using new old unfolding *(5) e_def [symmetric] by auto
  have "x < e" if "x \<in> sacked_by ss" "x \<le> sb_fack sb" for x
    using *(6) that new(1) [OF that(1)] by (auto simp: e_def subset_iff)
  then have "sacked_by ss \<inter> {..sb_fack sb} \<subseteq> packets SKB_SACKED bs" using eq new by auto
  moreover have "frontier (last_ack + 1) bs \<le> max (frontier (last_ack + 1) (sb_blocks sb)) (sb_fack sb + 1)"
    using inv *(4) by linarith
  ultimately show ?thesis using * eq unfolding e_def by blast
qed

text \<open>The update as an early return or a traversal.\<close>

definition update_start :: "int \<Rightarrow> (int \<times> int) list \<Rightarrow> scoreboard \<Rightarrow> bool \<Rightarrow> scoreboard \<times> bool" where
  "update_start last_ack ss sb thorough =
     (if ss \<noteq> [] \<and> sb_fack sb < snd (last ss) - 1 then (sb\<lparr>sb_fack := snd (last ss) - 1\<rparr>, True) else (sb, thorough))"

lemma UpdateScoreBoard_early:
  assumes "CleanRtxQueue last_ack sb = Some (sb1, flag, thorough)" "sort_sacks last_ack sacks = []"
    and "\<not> (sb_blocks sb1 \<noteq> [] \<and> thorough)"
  shows "UpdateScoreBoard last_ack sacks d sb = Some (if sb_blocks sb1 = [] then ClearScoreBoard sb1 else sb1, flag)"
  using assms by (auto simp: UpdateScoreBoard_def Let_def)

lemma UpdateScoreBoard_traverse:
  assumes "CleanRtxQueue last_ack sb = Some (sb1, flag, thorough)"
    and "sort_sacks last_ack sacks \<noteq> [] \<or> sb_blocks sb1 \<noteq> [] \<and> thorough"
    and "update_start last_ack (sort_sacks last_ack sacks) (if sb_blocks sb1 = [] then ClearScoreBoard sb1 else sb1)
       (sb_blocks sb1 \<noteq> [] \<and> thorough) = (sb2, th)"
    and "(blocks, sc) = (if sb_blocks sb2 = [] then let (m, sc) = fresh_block (last_ack + 1) (sb_fack sb2) SKB_INFLIGHT sc0 in ([m], sc)
      else (sb_blocks sb2, sc0))" "sc0 = \<lparr>sc_board = sb2\<lparr>nxt_to_retrx := None\<rparr>, sc_thorough = th, sc_flag = flag\<rparr>"
    and "traverse d (sort_sacks last_ack sacks) [] blocks sc = Some (bs, sc')"
  shows "UpdateScoreBoard last_ack sacks d sb = Some ((sc_board sc')\<lparr>sb_blocks := bs\<rparr>, sc_flag sc')"
proof -
  have "sacks \<noteq> [] \<or> sb_blocks sb1 \<noteq> [] \<and> thorough" using assms(2) by (auto simp: sort_sacks_def)
  then show ?thesis
    using assms
    by (cases "sb_blocks sb1 = []"; cases "sb_blocks sb2 = []")
      (simp_all add: UpdateScoreBoard_def Let_def update_start_def fresh_block_def, blast+)
qed

text \<open>What \<open>fack\<close> is when the traversal starts.\<close>

lemma update_start_ok:
  assumes "update_start last_ack ss sb th0 = (sb2, th)" "board_ok b sb" "sacks_ok ss" "\<forall>b \<in> set ss. last_ack < fst b"
  shows "board_ok b sb2 \<and> sb_blocks sb2 = sb_blocks sb \<and> (ss \<noteq> [] \<longrightarrow> last_ack < sb_fack sb2) \<and>
    sb_fack sb \<le> sb_fack sb2 \<and> (sb_fack sb < sb_fack sb2 \<longrightarrow> th) \<and>
    (sb_fack sb \<le> m \<and> (\<forall>b \<in> set ss. snd b - 1 \<le> m) \<longrightarrow> sb_fack sb2 \<le> m)"
proof -
  have "last_ack < snd (last ss) - 1" if "ss \<noteq> []"
  proof -
    have "last ss \<in> set ss" using that by simp
    then have "last_ack < fst (last ss)" "fst (last ss) < snd (last ss)" using assms(3,4) by blast+
    then show ?thesis by linarith
  qed
  then show ?thesis using assms(1,2) by (auto simp: update_start_def board_ok_def split: if_splits)
qed

lemma above_between: "(P \<inter> {a<..} \<union> S) \<inter> {a<..<e :: int} = (P \<union> S) \<inter> {a<..<e}"
  by auto

lemma sacked_by_cong: "set bs = set cs \<Longrightarrow> sacked_by bs = sacked_by cs"
  by (simp add: sacked_by_def)

lemma UpdateScoreBoard_ok:
  assumes ok: "board_ok a sb" "a \<le> last_ack + 1" and sacks: "\<forall>b \<in> set sacks. fst b < snd b \<and> fst b \<noteq> last_ack"
  shows "\<exists>sb' flag. UpdateScoreBoard last_ack sacks d sb = Some (sb', flag) \<and> board_ok (last_ack + 1) sb' \<and>
    packets SKB_SACKED (sb_blocks sb') =
      (packets SKB_SACKED (sb_blocks sb) \<union> sacked_by (filter (\<lambda>b. last_ack < fst b) sacks)) \<inter>
      {last_ack<..<frontier (last_ack + 1) (sb_blocks sb')} \<and>
    sacked_by (filter (\<lambda>b. last_ack < fst b) sacks) \<inter> {..sb_fack sb'} \<subseteq> packets SKB_SACKED (sb_blocks sb') \<and>
    (0 \<le> sb_fack sb \<and> sb_fack sb < sb_fack sb' \<longrightarrow> near (sb_fack sb' - (d + 1)) (sb_blocks sb')) \<and>
    frontier (last_ack + 1) (sb_blocks sb') \<le> max (max (last_ack + 1) (frontier a (sb_blocks sb))) (sb_fack sb' + 1) \<and>
    (0 \<le> m \<and> sb_fack sb \<le> m \<and> (\<forall>b \<in> set sacks. snd b - 1 \<le> m) \<longrightarrow> sb_fack sb' \<le> m)"
proof -
  let ?S = "sort_sacks last_ack sacks"
  obtain sb1 flag thorough where clean: "CleanRtxQueue last_ack sb = Some (sb1, flag, thorough)" "board_ok (last_ack + 1) sb1"
    "packets SKB_SACKED (sb_blocks sb1) = packets SKB_SACKED (sb_blocks sb) \<inter> {last_ack<..}" "sb_fack sb1 = sb_fack sb"
    "frontier (last_ack + 1) (sb_blocks sb1) = max (last_ack + 1) (frontier a (sb_blocks sb))"
    using clean_ok [OF ok] by metis
  define sb0 where "sb0 = (if sb_blocks sb1 = [] then ClearScoreBoard sb1 else sb1)"
  have sb0: "board_ok (last_ack + 1) sb0" "packets SKB_SACKED (sb_blocks sb0) = packets SKB_SACKED (sb_blocks sb) \<inter> {last_ack<..}"
    "0 \<le> sb_fack sb \<longrightarrow> sb_fack sb0 \<le> sb_fack sb" "0 \<le> m \<and> sb_fack sb \<le> m \<longrightarrow> sb_fack sb0 \<le> m"
    "frontier (last_ack + 1) (sb_blocks sb0) \<le> max (last_ack + 1) (frontier a (sb_blocks sb))"
    using clean board_ok_clear by (auto simp: sb0_def ClearScoreBoard_def)
  have "set ?S = set (filter (\<lambda>b. last_ack < fst b) sacks)" using sort_sacks_ok sacks by force
  then have S: "sacked_by ?S = sacked_by (filter (\<lambda>b. last_ack < fst b) sacks)" "sacks_ok ?S" "\<forall>b \<in> set ?S. last_ack < fst b"
    "(\<forall>b \<in> set sacks. snd b - 1 \<le> m) \<longrightarrow> (\<forall>b \<in> set ?S. snd b - 1 \<le> m)"
    using sacked_by_cong sort_sacks_ok [of last_ack sacks] sacks by auto
  show ?thesis
  proof (cases "?S = [] \<and> \<not> (sb_blocks sb1 \<noteq> [] \<and> thorough)")
    case True
    then have "UpdateScoreBoard last_ack sacks d sb = Some (sb0, flag)"
      using UpdateScoreBoard_early [OF clean(1)] by (simp add: sb0_def)
    moreover have "packets SKB_SACKED (sb_blocks sb0) \<subseteq> {last_ack + 1..<frontier (last_ack + 1) (sb_blocks sb0)}"
      using sb0(1) packets_range by (simp add: board_ok_def)
    then have "packets SKB_SACKED (sb_blocks sb0) =
        packets SKB_SACKED (sb_blocks sb) \<inter> {last_ack<..<frontier (last_ack + 1) (sb_blocks sb0)}"
      unfolding sb0(2) by force
    moreover have "0 \<le> sb_fack sb \<and> sb_fack sb < sb_fack sb0 \<longrightarrow> near (sb_fack sb0 - (d + 1)) (sb_blocks sb0)"
      using sb0(3) by linarith
    ultimately show ?thesis using sb0(1,2,4,5) True by (simp add: S(1) [symmetric])
  next
    case False
    obtain sb2 th where start: "update_start last_ack ?S sb0 (sb_blocks sb1 \<noteq> [] \<and> thorough) = (sb2, th)" by fastforce
    note sb2 = update_start_ok [OF start sb0(1) S(2,3), of m]
    let ?sc0 = "\<lparr>sc_board = sb2\<lparr>nxt_to_retrx := None\<rparr>, sc_thorough = th, sc_flag = flag\<rparr>"
    obtain blocks sc where first: "(blocks, sc) = (if sb_blocks sb2 = [] then let (m, sc) = fresh_block (last_ack + 1) (sb_fack sb2) SKB_INFLIGHT ?sc0 in ([m], sc)
      else (sb_blocks sb2, ?sc0))" by (metis surj_pair)
    have "sb_blocks sb2 = [] \<Longrightarrow> last_ack < sb_fack sb2" using False sb2 by (auto simp: sb0_def)
    note * = traverse_start [OF conjunct1 [OF sb2] S(2,3) first refl this, of d]
    then obtain bs sc' where t: "traverse d ?S [] blocks sc = Some (bs, sc')"
      and res: "board_ok (last_ack + 1) ((sc_board sc')\<lparr>sb_blocks := bs\<rparr>)" "sb_fack (sc_board sc') = sb_fack sb2"
        "frontier (last_ack + 1) bs \<le> max (frontier (last_ack + 1) (sb_blocks sb2)) (sb_fack sb2 + 1)"
        "packets SKB_SACKED bs = (packets SKB_SACKED (sb_blocks sb2) \<union> sacked_by ?S) \<inter> {last_ack<..<frontier (last_ack + 1) bs}"
        "sacked_by ?S \<inter> {..sb_fack sb2} \<subseteq> packets SKB_SACKED bs" "th \<longrightarrow> near (sb_fack sb2 - (d + 1)) bs" by blast
    have update: "UpdateScoreBoard last_ack sacks d sb = Some ((sc_board sc')\<lparr>sb_blocks := bs\<rparr>, sc_flag sc')"
      using UpdateScoreBoard_traverse [OF clean(1) _ start [unfolded sb0_def] first refl t] False by blast
    have "packets SKB_SACKED (sb_blocks sb2) = packets SKB_SACKED (sb_blocks sb) \<inter> {last_ack<..}" using sb2 sb0(2) by simp
    then have "packets SKB_SACKED bs = (packets SKB_SACKED (sb_blocks sb) \<union> sacked_by ?S) \<inter> {last_ack<..<frontier (last_ack + 1) bs}"
      by (simp only: res(4) above_between)
    moreover have "0 \<le> sb_fack sb \<and> sb_fack sb < sb_fack sb2 \<longrightarrow> near (sb_fack sb2 - (d + 1)) bs"
      using res(6) sb2 sb0(3) by linarith
    moreover have "frontier (last_ack + 1) bs \<le> max (max (last_ack + 1) (frontier a (sb_blocks sb))) (sb_fack sb2 + 1)"
      "0 \<le> m \<and> sb_fack sb \<le> m \<and> (\<forall>b \<in> set sacks. snd b - 1 \<le> m) \<longrightarrow> sb_fack sb2 \<le> m"
      using res(3) sb2 sb0(4,5) S(4) by auto
    ultimately show ?thesis using update res by (simp add: S(1))
  qed
qed

subsection \<open>Properties\<close>

text \<open>
  C25. The update of the scoreboard by an acknowledgement. Whatever the selective acknowledgements are, as long as none is empty and none
  starts at the packet that is acknowledged cumulatively, the traversal ends and no assertion of the code fails. The new
  board is in order: its blocks cover an interval behind the acknowledgement without gaps, the counters of lost and acknowledged packets
  are the numbers of such packets, and the next block to retransmit is on the board. The acknowledged packets are those
  known before and those of the acknowledgements in front of \<open>last_ack\<close>, up to the end of the board, and none of the
  latter up to \<open>fack\<close> is missed. When \<open>fack\<close> advances, every packet that is left in flight is closer to it than
  the duplicate threshold.
\<close>

theorem UpdateScoreBoard_correct:
  assumes ok: "board_ok a sb" "a \<le> last_ack + 1" and sacks: "\<forall>b \<in> set sacks. fst b < snd b \<and> fst b \<noteq> last_ack"
  shows "\<exists>sb' flag. UpdateScoreBoard last_ack sacks d sb = Some (sb', flag) \<and> board_ok (last_ack + 1) sb' \<and>
    packets SKB_SACKED (sb_blocks sb') =
      (packets SKB_SACKED (sb_blocks sb) \<union> sacked_by (filter (\<lambda>b. last_ack < fst b) sacks)) \<inter>
      {last_ack<..<frontier (last_ack + 1) (sb_blocks sb')} \<and>
    sacked_by (filter (\<lambda>b. last_ack < fst b) sacks) \<inter> {..sb_fack sb'} \<subseteq> packets SKB_SACKED (sb_blocks sb') \<and>
    (0 \<le> sb_fack sb \<and> sb_fack sb < sb_fack sb' \<longrightarrow> near (sb_fack sb' - (d + 1)) (sb_blocks sb'))"
  using UpdateScoreBoard_ok [OF assms, of d] by blast

definition example_board :: scoreboard where
  "example_board =
     \<lparr>sb_blocks = [], nxt_to_retrx = None, acked_rtx_id = - 1, rtx_id = 0, sb_fack = 0, fack_out = 0, sack_out = 0,
      last_rtx_seq = - 1, sb_fresh = 0\<rparr>"

theorem UpdateScoreBoard_correct_witness:
  "\<exists>sb' flag. UpdateScoreBoard 4 [(7, 9), (12, 14)] 3 example_board = Some (sb', flag) \<and> board_ok 5 sb' \<and>
     packets SKB_SACKED (sb_blocks sb') \<subseteq> {7..8} \<union> {12..13}"
proof -
  have "board_ok 5 example_board" by (simp add: board_ok_def example_board_def)
  from UpdateScoreBoard_correct [OF this, of 4 "[(7, 9), (12, 14)]" 3]
  show ?thesis by (fastforce simp: example_board_def)
qed

text \<open>The test that is meant to filter duplicate acknowledgements lets one of the packet \<open>last_ack\<close> itself pass, which
  creates a block without packets on an empty board.\<close>

lemma dsack_empty_block:
  assumes "sb_blocks sb = []" "0 < last_ack"
  shows "\<exists>sb' flag n. UpdateScoreBoard last_ack [(last_ack, last_ack + 1)] 3 sb = Some (sb', flag) \<and>
    sb_blocks sb' = [n] \<and> blk_seq n = last_ack + 1 \<and> get_end n = last_ack \<and> get_length n = 0"
proof -
  obtain c where c: "CleanRtxQueue last_ack sb = Some (c, 0, False)" "sb_blocks c = []"
    using assms(1) by (simp add: CleanRtxQueue_def)
  let ?n = "new_block (sb_fresh c) (last_ack + 1) last_ack SKB_INFLIGHT"
  have n: "get_end ?n = last_ack" "get_length ?n = 0" "blk_flag ?n = SKB_INFLIGHT" "blk_seq ?n = last_ack + 1"
    by (simp_all add: new_block_def get_end_def get_length_def)
  have stop: "traverse 3 ss [m] [] sc = Some ([m], sc)" for ss m sc by (subst traverse.simps) simp
  have "traverse 3 [(last_ack, last_ack + 1)] [] [?n] sc = Some ([?n], sc)" if "sb_fack (sc_board sc) = last_ack" for sc
    using that stop n
    by (subst traverse.simps)
      (simp add: visit_def match_sack_def check_lost_def push_block_def extend_def Let_def)
  then show ?thesis
    using assms(2) c n by (simp add: UpdateScoreBoard_def sort_sacks_def Let_def ClearScoreBoard_def fresh_block_def)
qed

end
