(* ===== verification/Scoreboard_Retransmit.thy ===== *)
theory Scoreboard_Retransmit
  imports Scoreboard
begin

section \<open>Losses and retransmissions on the scoreboard\<close>

text \<open>
  The correctness of \<open>MarkLoss\<close>, \<open>GetNextRetran\<close> and \<open>MarkRetran\<close>: after a timeout every packet that is
  not acknowledged is lost and none is in flight, and the retransmissions that follow are exactly the
  lost packets in increasing order.
\<close>

subsection \<open>A timeout\<close>

abbreviation lost :: "block \<Rightarrow> bool" where
  "lost n \<equiv> blk_flag n = SKB_LOST"

lemma find_append: "find P (xs @ ys) = (case find P xs of Some x \<Rightarrow> Some x | None \<Rightarrow> find P ys)"
  by (induction xs) auto

lemma find_in: "find P xs = Some x \<Longrightarrow> x \<in> set xs \<and> P x"
  by (induction xs) (auto split: if_splits)

lemma nxt_in_find: "nxt_in (map_option blk_id (find P ns)) ns"
  by (cases "find P ns") (auto dest: find_in)

text \<open>Distinct identities below \<open>i\<close>, and what the loops do with them.\<close>

definition ids_ok :: "nat \<Rightarrow> block list \<Rightarrow> bool" where
  "ids_ok i ns \<longleftrightarrow> distinct (map blk_id ns) \<and> (\<forall>n \<in> set ns. blk_id n < i)"

lemma ids_ok_move: "ids_ok i (ps @ n # rest) \<Longrightarrow> blk_id n' = blk_id n \<Longrightarrow> ids_ok i (n' # ps @ rest)"
  by (auto simp: ids_ok_def)

lemma ids_ok_drop: "ids_ok i (p # ps @ n # rest) \<Longrightarrow> blk_id p' = blk_id p \<Longrightarrow> ids_ok i (p' # ps @ rest)"
  by (auto simp: ids_ok_def)

lemma ids_ok_rev: "ids_ok i (rev ns) \<longleftrightarrow> ids_ok i ns"
  by (simp add: ids_ok_def rev_map [symmetric])

lemma ids_ok_snoc: "ids_ok i ns \<Longrightarrow> ids_ok (i + 1) (ns @ [n\<lparr>blk_id := i\<rparr>])"
  by (fastforce simp: ids_ok_def)

text \<open>The invariant of the loop of \<open>MarkLoss\<close>: \<open>ps\<close> are the blocks behind, in reverse, which are acknowledged
  or lost, and the next block to retransmit is the first lost one.\<close>

definition mark_inv :: "int \<Rightarrow> bool \<Rightarrow> block list \<Rightarrow> block list \<Rightarrow> scoreboard \<Rightarrow> bool" where
  "mark_inv a last_lost ps rest sb \<longleftrightarrow>
     contig a (rev ps) \<and> contig (frontier a (rev ps)) rest \<and> ids_ok (sb_fresh sb) (ps @ rest) \<and>
     sack_out sb = count_of SKB_SACKED (ps @ rest) \<and> fack_out sb = count_of SKB_LOST (ps @ rest) \<and>
     (\<forall>p \<in> set ps. blk_flag p = SKB_SACKED \<or> lost p) \<and>
     nxt_to_retrx sb = map_option blk_id (find lost (rev ps)) \<and> (last_lost \<longrightarrow> ps \<noteq> [] \<and> lost (hd ps))"

lemma mark_loss_step_inv:
  assumes inv: "mark_inv a last_lost ps (n # rest) sb" and step: "mark_loss_step last_lost ps n sb = (last_lost', ps', sb')"
  shows "mark_inv a last_lost' ps' rest sb' \<and> ps' \<noteq> [] \<and> frontier a (rev ps') = get_end n + 1 \<and> get_end (hd ps') = get_end n \<and>
    packets SKB_SACKED ps' = packets SKB_SACKED (n # ps) \<and> sb_fresh sb' = sb_fresh sb"
proof (cases "blk_flag n = SKB_SACKED")
  case True
  then show ?thesis
    using assms ids_ok_move [of _ ps n rest n] by (auto simp: mark_loss_step_def mark_inv_def find_append split: option.splits)
next
  case False
  define n1 where "n1 = set_flag SKB_LOST n"
  define sb1 where "sb1 = (if lost n then sb else sb\<lparr>fack_out := fack_out sb + (get_end n - blk_seq n + 1)\<rparr>)"
  have n1: "get_end n1 = get_end n" "blk_seq n1 = blk_seq n" "blk_id n1 = blk_id n" "lost n1" "blk_nxt n1 = get_end n"
    by (simp_all add: n1_def set_flag_def get_end_def)
  have sb1: "sack_out sb1 = sack_out sb" "nxt_to_retrx sb1 = nxt_to_retrx sb" "sb_fresh sb1 = sb_fresh sb"
    "fack_out sb1 = count_of SKB_LOST (n1 # ps @ rest)"
    using inv False n1 by (auto simp: sb1_def mark_inv_def get_length_eq)
  show ?thesis
  proof (cases last_lost)
    case True
    then obtain p ps0 where ps: "ps = p # ps0" "lost p" using inv by (cases ps) (auto simp: mark_inv_def)
    have eqs: "last_lost' = True" "ps' = merge_blocks p n1 # ps0" "sb' = sb1"
      using step False True by (simp_all add: mark_loss_step_def Let_def sb1_def n1_def ps(1))
    have "get_end (merge_blocks p n1) = get_end n1" "blk_seq (merge_blocks p n1) = blk_seq p" "blk_id (merge_blocks p n1) = blk_id p"
      "lost (merge_blocks p n1)" "blk_seq n1 = get_end p + 1"
      using inv ps n1 by (simp_all add: merge_blocks_def get_end_def mark_inv_def)
    moreover from this have "get_length (merge_blocks p n1) = get_length p + get_length n1" by (simp add: get_length_eq)
    ultimately show ?thesis
      using inv False n1 sb1 ids_ok_drop [of _ p ps0 n rest "merge_blocks p n1"] unfolding eqs ps(1) by (auto simp: mark_inv_def find_append ps split: option.splits)
  next
    case notlast: False
    have eqs: "last_lost' = True" "ps' = n1 # ps" "sb' = set_nxt_to_retrx (blk_id n) sb1"
      using step False notlast by (auto simp: mark_loss_step_def Let_def sb1_def n1_def)
    then show ?thesis
      using inv False n1 sb1 ids_ok_move [of _ ps n rest n1] unfolding eqs by (auto simp: mark_inv_def find_append set_nxt_to_retrx_def split: option.splits)
  qed
qed

lemma append_sent_inv:
  assumes "mark_inv a l ps rest sb" "append_sent snd_nxt ps rest sb = (rest', sb')" "ps \<noteq> []"
    and "frontier a (rev ps) = get_end (hd ps) + 1"
  shows "mark_inv a l ps rest' sb' \<and> packets SKB_SACKED rest' = packets SKB_SACKED rest \<and>
    (rest' = [] \<longrightarrow> snd_nxt \<le> frontier a (rev ps)) \<and>
    (snd_nxt \<le> frontier a (rev ps @ rest) \<longrightarrow> rest' = rest) \<and>
    frontier a (rev ps @ rest') = (if rest = [] then max (frontier a (rev ps)) snd_nxt else frontier a (rev ps @ rest))"
  using assms ids_ok_snoc [of "sb_fresh sb" ps "new_block 0 (get_end (hd ps) + 1) (snd_nxt - 1) SKB_INFLIGHT"]
  by (auto simp: append_sent_def mark_inv_def new_block_def get_end_def split: if_splits)

lemma mark_loss_loop_ok:
  assumes "mark_inv a l ps rest sb" "rest = [] \<longrightarrow> snd_nxt \<le> frontier a (rev ps)"
  shows "\<exists>bs sb'. mark_loss_loop snd_nxt l ps rest sb = Some (bs, sb') \<and> mark_inv a False (rev bs) [] sb' \<and>
    packets SKB_SACKED bs = packets SKB_SACKED (ps @ rest) \<and>
    frontier a bs = max (frontier a (rev ps @ rest)) snd_nxt"
  using assms
proof (induction "length rest + (if frontier a (rev ps @ rest) < snd_nxt then 1 else 0)" arbitrary: l ps rest sb rule: less_induct)
  case less
  show ?case
  proof (cases rest)
    case Nil
    then have "mark_loss_loop snd_nxt l ps rest sb = Some (rev ps, sb)" by (subst mark_loss_loop.simps) simp
    then show ?thesis using less.prems by (auto simp: Nil mark_inv_def ids_ok_rev)
  next
    case (Cons n rest0)
    obtain l' ps' sb1 where step: "mark_loss_step l ps n sb = (l', ps', sb1)" by (metis prod_cases3)
    note inv1 = mark_loss_step_inv [OF less.prems(1) [unfolded Cons] step]
    obtain rest' sb2 where app: "append_sent snd_nxt ps' rest0 sb1 = (rest', sb2)" by fastforce
    have loop: "mark_loss_loop snd_nxt l ps rest sb = mark_loss_loop snd_nxt l' ps' rest' sb2"
      by (subst mark_loss_loop.simps) (simp add: Cons step app)
    have ps': "mark_inv a l' ps' rest0 sb1" "ps' \<noteq> []" "frontier a (rev ps') = get_end (hd ps') + 1" using inv1 by simp_all
    have inv2: "mark_inv a l' ps' rest' sb2" "rest' = [] \<longrightarrow> snd_nxt \<le> frontier a (rev ps')"
      "packets SKB_SACKED rest' = packets SKB_SACKED rest0" "snd_nxt \<le> frontier a (rev ps' @ rest0) \<longrightarrow> rest' = rest0"
      "frontier a (rev ps' @ rest') = (if rest0 = [] then max (frontier a (rev ps')) snd_nxt else frontier a (rev ps' @ rest0))"
      using append_sent_inv [OF ps'(1) app ps'(2,3)] by simp_all
    have front: "frontier a (rev ps' @ rest0) = frontier a (rev ps @ rest)"
      using less.prems(1) inv1 by (simp add: Cons mark_inv_def)
    have "length rest' + (if frontier a (rev ps' @ rest') < snd_nxt then 1 else 0)
        < length rest + (if frontier a (rev ps @ rest) < snd_nxt then 1 else 0)"
      using inv2(4,5) front app by (auto simp: Cons append_sent_def split: if_splits)
    from less.hyps [OF this inv2(1,2)] show ?thesis
      using inv1 inv2 front unfolding loop by (auto simp: Cons split: if_splits)
  qed
qed

lemma mark_inv_start:
  assumes "board_ok a sb"
  shows "mark_inv a False [] (sb_blocks sb) (sb\<lparr>nxt_to_retrx := None\<rparr>)"
  using assms by (simp add: mark_inv_def board_ok_def ids_ok_def)

text \<open>When every packet is acknowledged or lost, the lost ones are the others.\<close>

lemma packets_lost_rest:
  "contig a ns \<Longrightarrow> (\<forall>n \<in> set ns. blk_flag n = SKB_SACKED \<or> lost n) \<Longrightarrow>
     packets SKB_LOST ns = {a..<frontier a ns} - packets SKB_SACKED ns"
proof (induction ns arbitrary: a)
  case (Cons n ns)
  then have n: "blk_seq n = a" "a \<le> get_end n" "contig (get_end n + 1) ns" by auto
  have "packets SKB_LOST ns = {get_end n + 1..<frontier (get_end n + 1) ns} - packets SKB_SACKED ns"
    using Cons.IH [OF n(3)] Cons.prems(2) by simp
  moreover have "packets SKB_SACKED ns \<subseteq> {get_end n + 1..<frontier (get_end n + 1) ns}" by (rule packets_range [OF n(3)])
  moreover have "get_end n + 1 \<le> frontier (get_end n + 1) ns" by (rule frontier_ge [OF n(3)])
  ultimately show ?case using Cons.prems(2) n by (auto simp: subset_iff)
qed simp

text \<open>The retransmission pointer is at or in front of the first lost block.\<close>

definition lost_ahead :: "scoreboard \<Rightarrow> bool" where
  "lost_ahead sb \<longleftrightarrow>
     (case nxt_to_retrx sb of
        None \<Rightarrow> find lost (sb_blocks sb) = None
      | Some i \<Rightarrow> find lost (dropWhile (\<lambda>n. blk_id n \<noteq> i) (sb_blocks sb)) = find lost (sb_blocks sb))"

lemma lost_ahead_first:
  assumes "nxt_to_retrx sb = map_option blk_id (find lost (sb_blocks sb))" "distinct (map blk_id (sb_blocks sb))"
  shows "lost_ahead sb"
proof -
  have "find lost (dropWhile (\<lambda>m. blk_id m \<noteq> blk_id n) ns) = Some n" if "find lost ns = Some n" "distinct (map blk_id ns)" for n ns
    using that by (induction ns) (auto split: if_splits dest: find_in)
  then show ?thesis using assms by (auto simp: lost_ahead_def split: option.splits)
qed

lemma MarkLoss_ok:
  assumes ok: "board_ok una sb" and sent: "frontier una (sb_blocks sb) \<le> snd_nxt" "una \<le> snd_nxt"
  shows "\<exists>sb'. MarkLoss una snd_nxt sb = Some sb' \<and> board_ok una sb' \<and> lost_ahead sb' \<and>
    packets SKB_SACKED (sb_blocks sb') = packets SKB_SACKED (sb_blocks sb) \<and>
    packets SKB_LOST (sb_blocks sb') = {una..<snd_nxt} - packets SKB_SACKED (sb_blocks sb) \<and>
    packets_in_flight una snd_nxt sb' = 0 \<and> rtx_id sb' = 0 \<and> frontier una (sb_blocks sb') = snd_nxt"
proof (cases "sb_blocks sb")
  case Nil
  have zero: "sack_out sb = 0" "fack_out sb = 0" using ok by (simp_all add: board_ok_def Nil)
  have loop: "mark_loss_loop snd_nxt False [] [] b = Some ([], b)" for b by (subst mark_loss_loop.simps) simp
  show ?thesis
  proof (cases "una < snd_nxt")
    case True
    then show ?thesis
      by (auto simp: MarkLoss_def loop Nil Let_def board_ok_def lost_ahead_def packets_in_flight_def new_block_def get_end_def
          get_length_def zero)
  next
    case False
    then show ?thesis
      using sent(2) by (simp add: MarkLoss_def loop Nil board_ok_def lost_ahead_def packets_in_flight_def zero)
  qed
next
  case (Cons n ns)
  obtain bs sb1 where loop: "mark_loss_loop snd_nxt False [] (sb_blocks sb) (sb\<lparr>nxt_to_retrx := None\<rparr>) = Some (bs, sb1)"
    and inv: "mark_inv una False (rev bs) [] sb1" and bs: "packets SKB_SACKED bs = packets SKB_SACKED (sb_blocks sb)"
      "frontier una bs = snd_nxt"
    using mark_loss_loop_ok [OF mark_inv_start [OF ok], of snd_nxt] sent Cons by (auto simp: max_def)
  have "una < frontier una (sb_blocks sb)"
    using ok frontier_ge [of "get_end n + 1" ns] by (simp add: board_ok_def Cons)
  then have "bs \<noteq> []" using bs(2) sent by auto
  then have sb': "MarkLoss una snd_nxt sb = Some (sb1\<lparr>sb_blocks := bs, rtx_id := 0, acked_rtx_id := - 1\<rparr>)"
    by (simp add: MarkLoss_def loop)
  have flags: "contig una bs" "\<forall>n \<in> set bs. blk_flag n = SKB_SACKED \<or> lost n" using inv by (simp_all add: mark_inv_def)
  have counts: "sack_out sb1 = count_of SKB_SACKED bs" "fack_out sb1 = count_of SKB_LOST bs"
    "nxt_to_retrx sb1 = map_option blk_id (find lost bs)" "ids_ok (sb_fresh sb1) bs"
    using inv by (simp_all add: mark_inv_def ids_ok_rev)
  have "count_of SKB_INFLIGHT bs = 0" "count_of SKB_RETRANSMITTED bs = 0" using flags(2) by (induction bs) auto
  then have "count_of SKB_SACKED bs + count_of SKB_LOST bs = snd_nxt - una" using count_of_all [OF flags(1)] bs(2) by simp
  then have "packets_in_flight una snd_nxt (sb1\<lparr>sb_blocks := bs, rtx_id := 0, acked_rtx_id := - 1\<rparr>) = 0"
    by (simp add: packets_in_flight_def counts)
  moreover have "board_ok una (sb1\<lparr>sb_blocks := bs, rtx_id := 0, acked_rtx_id := - 1\<rparr>)"
    using flags(1) counts nxt_in_find [of lost bs] by (simp add: board_ok_def ids_ok_def)
  moreover have "lost_ahead (sb1\<lparr>sb_blocks := bs, rtx_id := 0, acked_rtx_id := - 1\<rparr>)"
    using counts(3,4) by (intro lost_ahead_first) (simp_all add: ids_ok_def)
  ultimately show ?thesis using sb' packets_lost_rest [OF flags] bs by simp
qed

text \<open>The furthest selective acknowledgement stays.\<close>

lemma mark_loss_loop_fack:
  assumes "mark_loss_loop snd_nxt l ps rest sb = Some (bs, sb')"
  shows "sb_fack sb' = sb_fack sb"
proof -
  have "case r of (bs, sb') \<Rightarrow> sb_fack sb' = sb_fack sb" if "mark_loss_loop snd_nxt l ps rest sb = Some r" for r
  proof (rule mark_loss_loop.raw_induct [where P = "\<lambda>_ _ _ _ sb r. case r of (bs, sb') \<Rightarrow> sb_fack sb' = sb_fack sb", OF _ that],
      goal_cases)
    case (1 loop snd_nxt l ps rest sb r)
    show ?case
    proof (cases rest)
      case Nil
      then show ?thesis using 1(2) by auto
    next
      case (Cons n rest0)
      obtain l' ps' sb1 where step: "mark_loss_step l ps n sb = (l', ps', sb1)" by (metis prod_cases3)
      obtain rest' sb2 where app: "append_sent snd_nxt ps' rest0 sb1 = (rest', sb2)" by fastforce
      have "sb_fack sb1 = sb_fack sb"
        using step by (auto simp: mark_loss_step_def Let_def set_nxt_to_retrx_def split: if_splits)
      moreover have "sb_fack sb2 = sb_fack sb1" using app by (auto simp: append_sent_def split: if_splits)
      moreover have "loop snd_nxt l' ps' rest' sb2 = Some r" using 1(2) by (simp add: Cons step app)
      ultimately show ?thesis using 1(1) [of snd_nxt l' ps' rest' sb2 r] by simp
    qed
  qed
  then show ?thesis using assms by fastforce
qed

lemma MarkLoss_fack:
  assumes "MarkLoss una snd_nxt sb = Some sb'"
  shows "sb_fack sb' = sb_fack sb"
proof -
  obtain bs sb1 where "mark_loss_loop snd_nxt False [] (sb_blocks sb) (sb\<lparr>nxt_to_retrx := None\<rparr>) = Some (bs, sb1)"
    using assms by (cases "mark_loss_loop snd_nxt False [] (sb_blocks sb) (sb\<lparr>nxt_to_retrx := None\<rparr>)") (auto simp: MarkLoss_def)
  then show ?thesis using assms mark_loss_loop_fack by (fastforce simp: MarkLoss_def Let_def split: if_splits)
qed

subsection \<open>One retransmission\<close>

lemma case_dropWhile:
  "(case dropWhile (\<lambda>x. \<not> P x) xs of [] \<Rightarrow> a | x # _ \<Rightarrow> f x) = (case find P xs of None \<Rightarrow> a | Some x \<Rightarrow> f x)"
  by (induction xs) auto

lemma GetNextRetran_eq:
  "GetNextRetran sb =
     (case nxt_to_retrx sb of None \<Rightarrow> (- 1, sb)
      | Some i \<Rightarrow>
          (case find lost (dropWhile (\<lambda>n. blk_id n \<noteq> i) (sb_blocks sb)) of
             None \<Rightarrow> (- 1, sb\<lparr>nxt_to_retrx := None\<rparr>)
           | Some n \<Rightarrow> (blk_seq n, sb\<lparr>nxt_to_retrx := Some (blk_id n)\<rparr>)))"
  unfolding GetNextRetran_def case_dropWhile ..

text \<open>Wherever the pointer is, the packet that \<open>GetNextRetran\<close> returns is the first one of a lost block, and if no lost
  block is behind the pointer, of the first one.\<close>

lemma GetNextRetran_lost:
  assumes "GetNextRetran sb = (q, sb')"
  shows "sb' = sb\<lparr>nxt_to_retrx := nxt_to_retrx sb'\<rparr> \<and>
    (case nxt_to_retrx sb' of None \<Rightarrow> q = - 1
     | Some i \<Rightarrow> \<exists>n \<in> set (sb_blocks sb). blk_id n = i \<and> lost n \<and> blk_seq n = q)"
  using assms by (auto simp: GetNextRetran_eq split: option.splits dest!: find_in dest: set_dropWhileD)

lemma GetNextRetran_ahead:
  assumes "lost_ahead sb"
  shows "GetNextRetran sb =
    (case find lost (sb_blocks sb) of None \<Rightarrow> (- 1, sb\<lparr>nxt_to_retrx := None\<rparr>)
     | Some n \<Rightarrow> (blk_seq n, sb\<lparr>nxt_to_retrx := Some (blk_id n)\<rparr>))"
proof (cases "nxt_to_retrx sb")
  case None
  then show ?thesis using assms by (cases sb) (simp add: lost_ahead_def GetNextRetran_eq)
next
  case (Some i)
  then show ?thesis using assms by (simp add: lost_ahead_def GetNextRetran_eq)
qed

text \<open>The board around the block that is retransmitted.\<close>

lemma at_block_split:
  assumes "distinct (map blk_id ns)" "n \<in> set ns"
  obtains xs ys where "ns = xs @ n # ys" "\<And>f. at_block (blk_id n) f ns = xs @ f n @ ys" "blk_id n \<notin> blk_id ` set xs"
proof -
  obtain xs ys where ns: "ns = xs @ n # ys" using assms(2) by (meson split_list)
  have new: "blk_id n \<notin> blk_id ` set xs" using assms(1) by (auto simp: ns)
  then have "at_block (blk_id n) f ns = xs @ f n @ ys" for f unfolding ns by (induction xs) auto
  then show thesis using that ns new by blast
qed

lemma retran_block_ok:
  assumes "blk_seq n \<le> get_end n" "lost n"
  shows "contig (blk_seq n) (retran_block i snd_nxt rtx n) \<and> frontier (blk_seq n) (retran_block i snd_nxt rtx n) = get_end n + 1 \<and>
    count_of SKB_LOST (retran_block i snd_nxt rtx n) = count_of SKB_LOST [n] - 1 \<and>
    count_of SKB_SACKED (retran_block i snd_nxt rtx n) = 0 \<and>
    packets SKB_LOST (retran_block i snd_nxt rtx n) = packets SKB_LOST [n] - {blk_seq n} \<and>
    packets SKB_RETRANSMITTED (retran_block i snd_nxt rtx n) = {blk_seq n} \<and>
    packets SKB_SACKED (retran_block i snd_nxt rtx n) = {} \<and>
    (\<exists>m ms. retran_block i snd_nxt rtx n = m # ms \<and> blk_id m = blk_id n \<and> \<not> lost m \<and> blk_id ` set ms \<subseteq> {i} \<and> length ms \<le> 1)"
  using assms
  by (auto simp: retran_block_def split_block_def new_block_def Let_def get_end_def get_length_def)

lemma ids_ok_retran:
  assumes "ids_ok i (xs @ n # ys)" "blk_id m = blk_id n" "blk_id ` set ms \<subseteq> {i}" "length ms \<le> 1"
  shows "ids_ok (i + 1) (xs @ (m # ms) @ ys)"
proof (cases ms)
  case Nil
  then show ?thesis using assms(1,2) by (auto simp: ids_ok_def less_Suc_eq)
next
  case (Cons k ks)
  then have k: "ms = [k]" "blk_id k = i" using assms(3,4) by auto
  have "i \<notin> blk_id ` set xs" "i \<notin> blk_id ` set ys" "i \<noteq> blk_id n" using assms(1) by (auto simp: ids_ok_def)
  then show ?thesis using assms(1,2) by (auto simp: ids_ok_def k less_Suc_eq)
qed

lemma MarkRetran_ok:
  assumes ok: "board_ok a sb" and n: "n \<in> set (sb_blocks sb)" "lost n" and nxt: "nxt_to_retrx sb = Some (blk_id n)"
  shows "\<exists>sb'. MarkRetran (blk_seq n) snd_nxt sb = Some sb' \<and> board_ok a sb' \<and>
    packets SKB_LOST (sb_blocks sb') = packets SKB_LOST (sb_blocks sb) - {blk_seq n} \<and>
    packets SKB_RETRANSMITTED (sb_blocks sb') = insert (blk_seq n) (packets SKB_RETRANSMITTED (sb_blocks sb)) \<and>
    packets SKB_SACKED (sb_blocks sb') = packets SKB_SACKED (sb_blocks sb) \<and>
    frontier a (sb_blocks sb') = frontier a (sb_blocks sb) \<and> fack_out sb' = fack_out sb - 1 \<and> sack_out sb' = sack_out sb \<and>
    sb_fack sb' = sb_fack sb \<and> (lost_ahead sb \<longrightarrow> lost_ahead sb')"
proof -
  let ?ns = "sb_blocks sb"
  define F where "F = retran_block (sb_fresh sb) snd_nxt (rtx_id sb) n"
  have sb: "contig a ?ns" "distinct (map blk_id ?ns)" "\<forall>n \<in> set ?ns. blk_id n < sb_fresh sb"
    "sack_out sb = count_of SKB_SACKED ?ns" "fack_out sb = count_of SKB_LOST ?ns"
    using ok by (simp_all add: board_ok_def)
  obtain xs ys where ns: "?ns = xs @ n # ys" "\<And>f. at_block (blk_id n) f ?ns = xs @ f n @ ys" "blk_id n \<notin> blk_id ` set xs"
    using at_block_split [OF sb(2) n(1)] by blast
  have seq: "blk_seq n = frontier a xs" "blk_seq n \<le> get_end n" "contig (get_end n + 1) ys" "contig a xs"
    using sb(1) by (simp_all add: ns(1))
  note F = retran_block_ok [OF seq(2) n(2), of "sb_fresh sb" snd_nxt "rtx_id sb", folded F_def]
  then obtain m ms where m: "F = m # ms" "blk_id m = blk_id n" "\<not> lost m" "blk_id ` set ms \<subseteq> {sb_fresh sb}" "length ms \<le> 1" by blast
  define sb' where "sb' = sb\<lparr>fack_out := fack_out sb - 1, sb_blocks := xs @ F @ ys, sb_fresh := sb_fresh sb + 1,
    rtx_id := rtx_id sb + 1, last_rtx_seq := blk_seq n\<rparr>"
  have "inside (blk_seq n) n" using n(2) seq(2) by (simp add: inside_def get_end_def)
  moreover have "0 \<le> fack_out sb - 1"
    using n(2) seq count_of_nonneg [OF seq(3), of SKB_LOST] count_of_nonneg [OF seq(4), of SKB_LOST]
    by (simp add: sb(5) ns(1) get_length_eq)
  ultimately have mark: "MarkRetran (blk_seq n) snd_nxt sb = Some sb'"
    using n(1) by (auto simp: MarkRetran_def nxt ns(2) sb'_def F_def)
  have pack: "packets f ?ns = packets f [n] \<union> (packets f xs \<union> packets f ys)"
    "packets f (sb_blocks sb') = packets f F \<union> (packets f xs \<union> packets f ys)" for f
    by (auto simp: ns(1) sb'_def)
  have "blk_seq n \<notin> packets f xs \<union> packets f ys" for f
    using packets_range [OF seq(4), of f] packets_range [OF seq(3), of f] seq(1,2) by auto
  then have sets: "packets SKB_LOST (sb_blocks sb') = packets SKB_LOST ?ns - {blk_seq n}"
    "packets SKB_RETRANSMITTED (sb_blocks sb') = insert (blk_seq n) (packets SKB_RETRANSMITTED ?ns)"
    "packets SKB_SACKED (sb_blocks sb') = packets SKB_SACKED ?ns"
    unfolding pack using F n(2) by (simp_all add: Un_Diff)
  have ids: "ids_ok (sb_fresh sb + 1) (xs @ F @ ys)"
    using ids_ok_retran [of "sb_fresh sb" xs n ys m ms] sb(2,3) m by (simp add: ids_ok_def ns(1))
  have "nxt_in (nxt_to_retrx sb) (xs @ F @ ys)" by (simp add: nxt m(1,2))
  then have "board_ok a sb'"
    using F seq sb(4,5) ids n(2) by (simp add: board_ok_def ids_ok_def sb'_def ns(1))
  moreover have "frontier a (sb_blocks sb') = frontier a ?ns" using F seq(1) by (simp add: sb'_def ns(1))
  moreover have "lost_ahead sb'" if "lost_ahead sb"
  proof -
    have skip: "dropWhile (\<lambda>k. blk_id k \<noteq> blk_id n) (xs @ k # zs) = k # zs" if "blk_id k = blk_id n" for k zs
      using ns(3) that by (induction xs) auto
    have "find lost (xs @ n # ys) = Some n" using that n(2) skip [of n ys] by (simp add: lost_ahead_def nxt ns(1))
    then have "find lost xs = None" using ns(3) by (auto simp: find_append dest: find_in split: option.splits)
    then show ?thesis using skip [OF m(2)] nxt m(1,3) by (simp add: lost_ahead_def sb'_def find_append)
  qed
  ultimately show ?thesis using mark sets by (simp add: sb'_def)
qed

text \<open>The first lost block holds the lowest lost packet.\<close>

lemma find_lost_Min:
  "contig a ns \<Longrightarrow> find lost ns = Some n \<Longrightarrow> n \<in> set ns \<and> lost n \<and> blk_seq n \<in> packets SKB_LOST ns \<and> (\<forall>q \<in> packets SKB_LOST ns. blk_seq n \<le> q)"
proof (induction ns arbitrary: a)
  case (Cons m ns)
  then have m: "blk_seq m \<le> get_end m" "contig (get_end m + 1) ns" by auto
  show ?case
  proof (cases "lost m")
    case True
    then show ?thesis using Cons.prems m packets_range [OF m(2), of SKB_LOST] by auto
  next
    case False
    then show ?thesis using Cons.IH [OF m(2)] Cons.prems(2) by auto
  qed
qed simp

lemma contig_block: "contig a ns \<Longrightarrow> n \<in> set ns \<Longrightarrow> blk_seq n \<le> get_end n"
  by (induction ns arbitrary: a) auto

lemma find_lost_None: "find lost ns = None \<Longrightarrow> packets SKB_LOST ns = {}"
  by (induction ns) (auto split: if_splits)

subsection \<open>Properties\<close>

text \<open>
  C27. After a timeout every packet that was sent and not acknowledged counts as lost, in ascending order: \<open>MarkLoss\<close> ends, keeps the
  board in order and the selective acknowledgements, makes every other packet from the first unacknowledged one to the last one sent lost, and
  leaves nothing in flight. The next packet to be retransmitted is the lowest one that is not acknowledged, if there is one.
\<close>

theorem MarkLoss_correct:
  assumes "board_ok una sb" "frontier una (sb_blocks sb) \<le> snd_nxt" "una \<le> snd_nxt"
  shows "\<exists>sb'. MarkLoss una snd_nxt sb = Some sb' \<and> board_ok una sb' \<and>
    packets SKB_SACKED (sb_blocks sb') = packets SKB_SACKED (sb_blocks sb) \<and>
    packets SKB_LOST (sb_blocks sb') = {una..<snd_nxt} - packets SKB_SACKED (sb_blocks sb) \<and>
    packets_in_flight una snd_nxt sb' = 0 \<and>
    fst (GetNextRetran sb') =
      (if {una..<snd_nxt} \<subseteq> packets SKB_SACKED (sb_blocks sb) then - 1
       else Min ({una..<snd_nxt} - packets SKB_SACKED (sb_blocks sb)))"
proof -
  obtain sb' where sb': "MarkLoss una snd_nxt sb = Some sb'" "board_ok una sb'" "lost_ahead sb'"
    "packets SKB_SACKED (sb_blocks sb') = packets SKB_SACKED (sb_blocks sb)"
    "packets SKB_LOST (sb_blocks sb') = {una..<snd_nxt} - packets SKB_SACKED (sb_blocks sb)"
    "packets_in_flight una snd_nxt sb' = 0"
    using MarkLoss_ok [OF assms] by blast
  have contig: "contig una (sb_blocks sb')" using sb'(2) by (simp add: board_ok_def)
  have "fst (GetNextRetran sb') =
      (if packets SKB_LOST (sb_blocks sb') = {} then - 1 else Min (packets SKB_LOST (sb_blocks sb')))"
  proof (cases "find lost (sb_blocks sb')")
    case None
    then show ?thesis using GetNextRetran_ahead [OF sb'(3)] find_lost_None by simp
  next
    case (Some n)
    note n = find_lost_Min [OF contig Some]
    have "finite (packets SKB_LOST (sb_blocks sb'))" by (simp add: sb'(5))
    then have "Min (packets SKB_LOST (sb_blocks sb')) = blk_seq n" using n by (intro Min_eqI) auto
    then show ?thesis using GetNextRetran_ahead [OF sb'(3)] Some n by auto
  qed
  then show ?thesis using sb' by (auto simp: sb'(5))
qed

definition timeout_board :: scoreboard where
  "timeout_board =
     \<lparr>sb_blocks = [\<lparr>blk_id = 0, blk_flag = SKB_INFLIGHT, blk_seq = 5, blk_nxt = 6, blk_retran = 0\<rparr>,
                 \<lparr>blk_id = 1, blk_flag = SKB_SACKED, blk_seq = 7, blk_nxt = 8, blk_retran = 0\<rparr>],
      nxt_to_retrx = None, acked_rtx_id = - 1, rtx_id = 0, sb_fack = 8, fack_out = 0, sack_out = 2,
      last_rtx_seq = - 1, sb_fresh = 2\<rparr>"

theorem MarkLoss_correct_witness:
  "\<exists>sb'. MarkLoss 5 11 timeout_board = Some sb' \<and> packets_in_flight 5 11 sb' = 0 \<and>
     packets SKB_LOST (sb_blocks sb') = {5..<11} - {7..8}"
proof -
  have "board_ok 5 timeout_board" "frontier 5 (sb_blocks timeout_board) \<le> 11"
    "packets SKB_SACKED (sb_blocks timeout_board) = {7..8}"
    by (auto simp: board_ok_def timeout_board_def get_end_def get_length_def packets_def)
  with MarkLoss_correct [of 5 timeout_board 11] show ?thesis by auto
qed

end
