(* ===== verification/Sender.thy ===== *)
theory Sender
  imports Reno Scoreboard_Update Scoreboard_Retransmit
begin

section \<open>The sending half of the agent (\<open>tcp/tcp-linux.cc\<close>, \<open>tcp/tcp.cc\<close>)\<close>

text \<open>
  \<open>send_much\<close> fills the window: it retransmits what the scoreboard takes as lost and then sends new data, as long
  as fewer packets are in flight than the window, or than the number that the halving of the rate allows. The
  state is that of \<open>Linux_Agent\<close> with the scoreboard, the sequence numbers of the sender, the timers that \<open>send_much\<close>
  reads, and the list of the packets that were sent.
\<close>

subsection \<open>State\<close>

record 'ca sender = "'ca agent" +
  scb :: scoreboard
  t_seqno :: int
  curseq :: int
  delsnd_pending :: bool
  burstsnd_pending :: bool
  overhead :: bool
  syn :: bool
  max_connects :: int
  syn_connects :: int
  nrexmitpack :: int
  packets_sent :: "int list"

definition window :: "'ca sender \<Rightarrow> int" where
  "window s = sint (snd_cwnd (linux s))"

definition in_flight :: "'ca sender \<Rightarrow> int" where
  "in_flight s = packets_in_flight (highest_ack s + 1) (t_seqno s) (scb s)"

definition is_congestion :: "'ca sender \<Rightarrow> bool" where
  "is_congestion s \<longleftrightarrow> window s \<le> in_flight s"

subsection \<open>Sending one packet\<close>

text \<open>\<open>TcpAgent::output\<close>: the first packet of a connection counts as a connection attempt, and too many of them
  abort the connection.\<close>

definition output_packet :: "int \<Rightarrow> 'ca sender \<Rightarrow> 'ca sender" where
  "output_packet seqno s =
     (let first = (seqno = 0 \<and> syn s);
          s = (if first then s\<lparr>curseq := curseq s + 1, syn_connects := syn_connects s + 1\<rparr> else s)
      in if first \<and> 0 < max_connects s \<and> max_connects s < syn_connects s then s\<lparr>curseq := 0\<rparr>
         else let s = s\<lparr>packets_sent := packets_sent s @ [seqno]\<rparr>
              in if maxseq s < seqno then s\<lparr>maxseq := seqno\<rparr> else s\<lparr>nrexmitpack := nrexmitpack s + 1\<rparr>)"

text \<open>The part of the loop behind the choice of the packet.\<close>

definition send_packet :: "int \<Rightarrow> 'ca sender \<Rightarrow> 'ca sender" where
  "send_packet seqno s =
     (let s = output_packet seqno s;
          s = s\<lparr>next_pkts_in_flight := min (next_pkts_in_flight s) (max (in_flight s - 1) 1)\<rparr>;
          s = (if t_seqno s \<le> seqno then s\<lparr>t_seqno := seqno + 1\<rparr> else s)
      in s\<lparr>linux := (linux s)\<lparr>snd_nxt := word_of_int (t_seqno s) * mss_cache (linux s)\<rparr>\<rparr>)"

text \<open>The choice: a lost packet, or the next new one if the application has more data.\<close>

datatype 'ca choice = Nothing_Left "'ca sender" | Send_Packet int "'ca sender"

definition choose_packet :: "'ca sender \<Rightarrow> 'ca choice option" where
  "choose_packet s =
     (let (seqno, sb) = GetNextRetran (scb s); s = s\<lparr>scb := sb\<rparr> in
      if seqno = - 1
      then if curseq s \<le> t_seqno s then Some (Nothing_Left s)
           else Some (Send_Packet (t_seqno s) (s\<lparr>t_seqno := t_seqno s + 1\<rparr>))
      else do {
        sb \<leftarrow> MarkRetran seqno (t_seqno s) sb;
        Some (Send_Packet seqno (s\<lparr>scb := sb\<rparr>))
      })"

subsection \<open>The loop\<close>

partial_function (option) send_loop :: "bool \<Rightarrow> int \<Rightarrow> int \<Rightarrow> 'ca sender \<Rightarrow> 'ca sender option" where
  "send_loop force maxburst npacket s =
     (if in_flight s < max (window s) (next_pkts_in_flight s)
      then if \<not> overhead s \<or> force
           then do {
             c \<leftarrow> choose_packet s;
             (case c of
                Nothing_Left s \<Rightarrow> Some s
              | Send_Packet seqno s \<Rightarrow>
                  let s = send_packet seqno s in
                  if maxburst \<noteq> 0 \<and> maxburst \<le> npacket + 1 then Some s else send_loop force maxburst (npacket + 1) s)
           }
           else if \<not> delsnd_pending s then Some (s\<lparr>delsnd_pending := True\<rparr>)
           else if maxburst \<noteq> 0 \<and> maxburst \<le> npacket then Some s else send_loop force maxburst npacket s
      else Some s)"

definition send_much :: "bool \<Rightarrow> int \<Rightarrow> 'ca sender \<Rightarrow> 'ca sender option" where
  "send_much force maxburst s =
     (if \<not> force \<and> delsnd_pending s then Some s
      else send_loop force maxburst 0
        (s\<lparr>burstsnd_pending := False, next_pkts_in_flight := min (next_pkts_in_flight s) (in_flight s + 1)\<rparr>))"

text \<open>The application hands over packets: \<open>sendmsg\<close> and \<open>advanceby\<close> of the base class.\<close>

abbreviation (input) TCP_MAXSEQ :: int where "TCP_MAXSEQ \<equiv> 1073741824"

definition sendmsg :: "int \<Rightarrow> int \<Rightarrow> int \<Rightarrow> 'ca sender \<Rightarrow> 'ca sender option" where
  "sendmsg seg_size maxburst nbytes s =
     (if nbytes = - 1 \<and> curseq s \<le> TCP_MAXSEQ then send_much False maxburst (s\<lparr>curseq := TCP_MAXSEQ\<rparr>)
      else if seg_size = 0 then None
      else send_much False maxburst
        (s\<lparr>curseq := curseq s + (nbytes sdiv seg_size + (if nbytes smod seg_size \<noteq> 0 then 1 else 0))\<rparr>))"

definition advanceby :: "int \<Rightarrow> int \<Rightarrow> 'ca sender \<Rightarrow> 'ca sender option" where
  "advanceby maxburst delta s = send_much False maxburst (s\<lparr>curseq := curseq s + delta\<rparr>)"

subsection \<open>The invariant of the sender\<close>

text \<open>The scoreboard is in order behind the acknowledged packets and does not reach beyond the packets that were
  sent.\<close>

definition sender_ok :: "'ca sender \<Rightarrow> bool" where
  "sender_ok s \<longleftrightarrow>
     - 1 \<le> highest_ack s \<and> highest_ack s < t_seqno s \<and> board_ok (highest_ack s + 1) (scb s) \<and>
     frontier (highest_ack s + 1) (sb_blocks (scb s)) \<le> t_seqno s \<and> sb_fack (scb s) < max 1 (t_seqno s)"

text \<open>What the connection needs so that it cannot be aborted: no limit on connection attempts, or no SYN.\<close>

definition no_abort :: "'ca sender \<Rightarrow> bool" where
  "no_abort s \<longleftrightarrow> syn s \<longrightarrow> max_connects s \<le> 0"

lemma output_packet_simps [simp]:
  "scb (output_packet q s) = scb s" "t_seqno (output_packet q s) = t_seqno s" "highest_ack (output_packet q s) = highest_ack s"
  "linux (output_packet q s) = linux s" "overhead (output_packet q s) = overhead s" "syn (output_packet q s) = syn s"
  "max_connects (output_packet q s) = max_connects s" "next_pkts_in_flight (output_packet q s) = next_pkts_in_flight s"
  "delsnd_pending (output_packet q s) = delsnd_pending s" "priv (output_packet q s) = priv s"
  "initialized (output_packet q s) = initialized s" "recover (output_packet q s) = recover s"
  by (simp_all add: output_packet_def Let_def)

lemma output_packet_sent:
  "no_abort s \<Longrightarrow> packets_sent (output_packet q s) = packets_sent s @ [q]"
  by (auto simp: output_packet_def Let_def no_abort_def)

lemma send_packet_simps:
  assumes "q < t_seqno s"
  shows "scb (send_packet q s) = scb s" "t_seqno (send_packet q s) = t_seqno s" "highest_ack (send_packet q s) = highest_ack s"
    "window (send_packet q s) = window s" "overhead (send_packet q s) = overhead s" "no_abort (send_packet q s) = no_abort s"
    "next_pkts_in_flight (send_packet q s) \<le> next_pkts_in_flight s"
    "delsnd_pending (send_packet q s) = delsnd_pending s" "in_flight (send_packet q s) = in_flight s"
    "no_abort s \<Longrightarrow> packets_sent (send_packet q s) = packets_sent s @ [q]"
  using assms
  by (auto simp: send_packet_def Let_def window_def in_flight_def no_abort_def output_packet_sent)

subsection \<open>The choice of the packet\<close>

abbreviation lost_packets :: "'ca sender \<Rightarrow> int set" where
  "lost_packets s \<equiv> packets SKB_LOST (sb_blocks (scb s))"

lemma finite_lost: "sender_ok s \<Longrightarrow> finite (lost_packets s)"
  by (auto simp: packets_def)

text \<open>What the choice changes: the scoreboard, the sequence number by \<open>k\<close> and the packets in flight by \<open>l\<close>.\<close>

definition chosen :: "'ca sender \<Rightarrow> 'ca sender \<Rightarrow> int \<Rightarrow> int \<Rightarrow> bool" where
  "chosen s s' k l \<longleftrightarrow>
     sender_ok s' \<and> (lost_ahead (scb s) \<longrightarrow> lost_ahead (scb s')) \<and> highest_ack s' = highest_ack s \<and>
     packets_sent s' = packets_sent s \<and> linux s' = linux s \<and> priv s' = priv s \<and> initialized s' = initialized s \<and>
     recover s' = recover s \<and> maxseq s' = maxseq s \<and> curseq s' = curseq s \<and>
     next_pkts_in_flight s' = next_pkts_in_flight s \<and> delsnd_pending s' = delsnd_pending s \<and> overhead s' = overhead s \<and>
     no_abort s' = no_abort s \<and> t_seqno s' = t_seqno s + k \<and> in_flight s' = in_flight s + l"

text \<open>A packet is sent: the first of a lost block, or a new one if the scoreboard has none to offer. Either way one more is in
  flight.\<close>

lemma choose_packet_ok:
  assumes ok: "sender_ok s"
  obtains (nothing) s' where "choose_packet s = Some (Nothing_Left s')" "chosen s s' 0 0" "lost_packets s' = lost_packets s"
      "nxt_to_retrx (scb s') = None" "curseq s \<le> t_seqno s"
    | (new) s' where "choose_packet s = Some (Send_Packet (t_seqno s) s')" "chosen s s' 1 1" "lost_packets s' = lost_packets s"
      "nxt_to_retrx (scb s') = None"
    | (retran) s' q where "choose_packet s = Some (Send_Packet q s')" "chosen s s' 0 1" "q \<in> lost_packets s"
      "lost_packets s' = lost_packets s - {q}" "q < t_seqno s" "lost_ahead (scb s) \<longrightarrow> q = Min (lost_packets s)"
      "nxt_to_retrx (scb s) \<noteq> None"
proof -
  have board: "board_ok (highest_ack s + 1) (scb s)" "contig (highest_ack s + 1) (sb_blocks (scb s))"
    using ok by (simp_all add: sender_ok_def board_ok_def)
  obtain q sb where ret: "GetNextRetran (scb s) = (q, sb)" by fastforce
  note sb = GetNextRetran_lost [OF ret]
  show thesis
  proof (cases "nxt_to_retrx sb")
    case None
    then have sb': "sb = (scb s)\<lparr>nxt_to_retrx := None\<rparr>" "q = - 1" using sb by auto
    have "lost_ahead sb" if "lost_ahead (scb s)"
      using that ret GetNextRetran_ahead [OF that] None by (auto simp: lost_ahead_def split: option.splits)
    then have same: "chosen s (s\<lparr>scb := sb\<rparr>) 0 0" "chosen s (s\<lparr>scb := sb, t_seqno := t_seqno s + 1\<rparr>) 1 1"
      using ok board by (auto simp: chosen_def sb'(1) sender_ok_def board_ok_def in_flight_def packets_in_flight_def no_abort_def)
    show thesis
    proof (cases "curseq s \<le> t_seqno s")
      case True
      show thesis by (rule that(1) [of "s\<lparr>scb := sb\<rparr>"]) (use same ret sb' True in \<open>simp_all add: choose_packet_def\<close>)
    next
      case False
      show thesis
        by (rule that(2) [of "s\<lparr>scb := sb, t_seqno := t_seqno s + 1\<rparr>"])
          (use same ret sb' False in \<open>simp_all add: choose_packet_def\<close>)
    qed
  next
    case (Some i)
    then obtain n where n: "n \<in> set (sb_blocks (scb s))" "blk_id n = i" "lost n" "blk_seq n = q"
      and sb': "sb = (scb s)\<lparr>nxt_to_retrx := Some i\<rparr>" using sb by auto
    have q: "q \<in> lost_packets s" using n contig_block [OF board(2) n(1)] by (auto simp: packets_def)
    then have seq: "highest_ack s + 1 \<le> q" "q < t_seqno s"
      using packets_range [OF board(2), of SKB_LOST] ok by (auto simp: sender_ok_def)
    have min: "q = Min (lost_packets s) \<and> lost_ahead sb" if ahead: "lost_ahead (scb s)"
    proof -
      obtain n' where n': "find lost (sb_blocks (scb s)) = Some n'" "q = blk_seq n'" "i = blk_id n'"
        using ret GetNextRetran_ahead [OF ahead] Some by (auto split: option.splits)
      have "lost_ahead sb" using n' board(1) by (intro lost_ahead_first) (simp_all add: sb' board_ok_def)
      then show ?thesis
        using find_lost_Min [OF board(2) n'(1)] finite_lost [OF ok] n'(2) by (auto intro!: Min_eqI [symmetric])
    qed
    have "board_ok (highest_ack s + 1) sb" using board(1) n by (auto simp: board_ok_def sb')
    from MarkRetran_ok [OF this, of n "t_seqno s"] n obtain sb2 where sb2: "MarkRetran q (t_seqno s) sb = Some sb2"
      "board_ok (highest_ack s + 1) sb2" "lost_ahead sb \<longrightarrow> lost_ahead sb2"
      "packets SKB_LOST (sb_blocks sb2) = lost_packets s - {q}"
      "frontier (highest_ack s + 1) (sb_blocks sb2) = frontier (highest_ack s + 1) (sb_blocks (scb s))"
      "fack_out sb2 = fack_out (scb s) - 1" "sack_out sb2 = sack_out (scb s)" "sb_fack sb2 = sb_fack (scb s)"
      by (auto simp: sb')
    have choose: "choose_packet s = Some (Send_Packet q (s\<lparr>scb := sb2\<rparr>))"
      using seq ok sb2(1) ret by (simp add: choose_packet_def sender_ok_def)
    have chosen: "chosen s (s\<lparr>scb := sb2\<rparr>) 0 1"
      using ok sb2 min by (auto simp: chosen_def sender_ok_def in_flight_def packets_in_flight_def no_abort_def)
    have nxt: "nxt_to_retrx (scb s) \<noteq> None"
      using ret Some by (cases "nxt_to_retrx (scb s)") (auto simp: GetNextRetran_def)
    have left: "lost_packets (s\<lparr>scb := sb2\<rparr>) = lost_packets s - {q}" using sb2(4) by simp
    have "lost_ahead (scb s) \<longrightarrow> q = Min (lost_packets s)" using min by blast
    then show thesis by (rule that(3) [OF choose chosen q left seq(2) _ nxt])
  qed
qed

subsection \<open>The loop\<close>

text \<open>The result of sending: first \<open>rs\<close>, packets that were lost, then the new packets without a gap. When no lost block is
  behind the retransmission pointer, \<open>rs\<close> are the lowest lost packets in increasing order, and new ones are sent only when no packet is
  lost any more.\<close>

definition sends :: "int list \<Rightarrow> 'ca sender \<Rightarrow> 'ca sender \<Rightarrow> bool" where
  "sends rs s s' \<longleftrightarrow>
     sender_ok s' \<and> highest_ack s' = highest_ack s \<and> window s' = window s \<and> t_seqno s \<le> t_seqno s' \<and>
     packets_sent s' = packets_sent s @ rs @ [t_seqno s..t_seqno s' - 1] \<and>
     set rs \<subseteq> lost_packets s \<and> distinct rs \<and> lost_packets s' = lost_packets s - set rs \<and>
     in_flight s' = in_flight s + int (length rs) + (t_seqno s' - t_seqno s) \<and>
     (t_seqno s < t_seqno s' \<longrightarrow> nxt_to_retrx (scb s') = None) \<and>
     (nxt_to_retrx (scb s) = None \<longrightarrow> rs = [] \<and> nxt_to_retrx (scb s') = None) \<and>
     (lost_ahead (scb s) \<longrightarrow> lost_ahead (scb s') \<and>
        sorted_list_of_set (lost_packets s) = rs @ sorted_list_of_set (lost_packets s') \<and>
        (t_seqno s < t_seqno s' \<longrightarrow> lost_packets s' = {}))"

lemma sends_refl: "sender_ok s \<Longrightarrow> sends [] s s"
  by (simp add: sends_def)

lemma sorted_Min:
  fixes S :: "int set"
  assumes "finite S" "S \<noteq> {}"
  shows "sorted_list_of_set S = Min S # sorted_list_of_set (S - {Min S})"
  using assms by (rule sorted_list_of_set_nonempty)

lemma upto_join: "a \<le> b \<Longrightarrow> b \<le> c \<Longrightarrow> [a..b - 1] @ [b..c - 1] = [a..c - 1]"
  using upto_split1 [of a b "c - 1"] by (cases "b = c") simp_all

lemma sends_trans:
  assumes "sends rs s s1" "sends rs' s1 s2"
  shows "sends (rs @ rs') s s2"
proof -
  have later: "rs' = [] \<and> nxt_to_retrx (scb s2) = None" if "t_seqno s < t_seqno s1"
    using assms that by (simp add: sends_def)
  have join: "[t_seqno s..t_seqno s1 - 1] @ [t_seqno s1..t_seqno s2 - 1] = [t_seqno s..t_seqno s2 - 1]"
    using assms by (intro upto_join) (simp_all add: sends_def)
  have "rs @ [t_seqno s..t_seqno s1 - 1] @ rs' @ [t_seqno s1..t_seqno s2 - 1] = (rs @ rs') @ [t_seqno s..t_seqno s2 - 1]"
  proof (cases "t_seqno s < t_seqno s1")
    case True
    then show ?thesis using later join by simp
  next
    case False
    then have "t_seqno s1 = t_seqno s" using assms(1) by (simp add: sends_def)
    then show ?thesis by simp
  qed
  then have "packets_sent s2 = packets_sent s @ (rs @ rs') @ [t_seqno s..t_seqno s2 - 1]"
    using assms by (simp add: sends_def)
  moreover have "t_seqno s < t_seqno s2 \<longrightarrow> nxt_to_retrx (scb s2) = None"
    using assms later by (cases "t_seqno s < t_seqno s1") (simp_all add: sends_def)
  moreover have "nxt_to_retrx (scb s) = None \<longrightarrow> rs @ rs' = [] \<and> nxt_to_retrx (scb s2) = None"
    using assms by (simp add: sends_def)
  moreover have "lost_ahead (scb s) \<longrightarrow> lost_ahead (scb s2) \<and>
      sorted_list_of_set (lost_packets s) = (rs @ rs') @ sorted_list_of_set (lost_packets s2) \<and>
      (t_seqno s < t_seqno s2 \<longrightarrow> lost_packets s2 = {})"
    (is "_ \<longrightarrow> _ \<and> _ \<and> (_ \<longrightarrow> ?none)")
  proof
    assume ahead: "lost_ahead (scb s)"
    have "?none" if "t_seqno s < t_seqno s2"
    proof (cases "t_seqno s < t_seqno s1")
      case True
      then have "lost_packets s1 = {}" using assms(1) ahead unfolding sends_def by blast
      moreover have "lost_packets s2 = lost_packets s1 - set rs'" using assms(2) unfolding sends_def by blast
      ultimately show ?thesis by simp
    next
      case False
      then have "t_seqno s1 < t_seqno s2" using that by simp
      moreover have "lost_ahead (scb s1)" using assms(1) ahead unfolding sends_def by blast
      ultimately show ?thesis using assms(2) unfolding sends_def by blast
    qed
    then show "lost_ahead (scb s2) \<and> sorted_list_of_set (lost_packets s) = (rs @ rs') @ sorted_list_of_set (lost_packets s2) \<and>
      (t_seqno s < t_seqno s2 \<longrightarrow> ?none)"
      using assms ahead by (simp add: sends_def)
  qed
  moreover have "distinct (rs @ rs')" "set (rs @ rs') \<subseteq> lost_packets s" "lost_packets s2 = lost_packets s - set (rs @ rs')"
    using assms by (auto simp: sends_def)
  moreover have "sender_ok s2" "highest_ack s2 = highest_ack s" "window s2 = window s" "t_seqno s \<le> t_seqno s2"
    "in_flight s2 = in_flight s + int (length (rs @ rs')) + (t_seqno s2 - t_seqno s)"
    using assms by (simp_all add: sends_def)
  ultimately show ?thesis by (simp only: sends_def simp_thms)
qed

text \<open>One iteration sends a packet, unless nothing is left.\<close>

lemma send_step:
  assumes ok: "sender_ok s" "no_abort s"
  shows "(\<exists>s1. choose_packet s = Some (Nothing_Left s1) \<and> sends [] s s1 \<and> nxt_to_retrx (scb s1) = None \<and> curseq s1 \<le> t_seqno s1 \<and>
      in_flight s1 = in_flight s \<and> next_pkts_in_flight s1 = next_pkts_in_flight s) \<or>
    (\<exists>q s1 rs. choose_packet s = Some (Send_Packet q s1) \<and> sends rs s (send_packet q s1) \<and> no_abort (send_packet q s1) \<and>
      in_flight (send_packet q s1) = in_flight s + 1 \<and> overhead (send_packet q s1) = overhead s \<and>
      next_pkts_in_flight (send_packet q s1) \<le> next_pkts_in_flight s)"
proof (cases rule: choose_packet_ok [OF ok(1), case_names nothing new retran])
  case (nothing s')
  moreover from this have "sends [] s s'" by (simp add: sends_def chosen_def window_def)
  ultimately show ?thesis by (auto simp: chosen_def)
next
  case (new s')
  then have "t_seqno s < t_seqno s'" by (simp add: chosen_def)
  note send = send_packet_simps [OF this]
  have none: "lost_ahead (scb s) \<longrightarrow> lost_packets s = {}"
    using new find_lost_None by (auto simp: chosen_def lost_ahead_def)
  have "sends [] s (send_packet (t_seqno s) s')"
    using new send(1-4,9,10) ok(2) none by (clarsimp simp: sends_def sender_ok_def chosen_def window_def)
  then show ?thesis using new send ok(2) by (auto simp: chosen_def)
next
  case (retran s' q)
  then have "q < t_seqno s'" by (simp add: chosen_def)
  note send = send_packet_simps [OF this]
  have some: "lost_packets s \<noteq> {}" using retran by blast
  have "sends [q] s (send_packet q s')"
    using retran send(1-4,9,10) ok(2) sorted_Min [OF finite_lost [OF ok(1)] some]
    by (clarsimp simp: sends_def sender_ok_def chosen_def window_def)
  then show ?thesis using retran send ok(2) by (auto simp: chosen_def)
qed

text \<open>Why sending stops after \<open>n\<close> packets: the window is full, nothing is left, or the burst is over.\<close>

definition stopped :: "int \<Rightarrow> int \<Rightarrow> 'ca sender \<Rightarrow> bool" where
  "stopped maxburst n s \<longleftrightarrow>
     max (window s) (next_pkts_in_flight s) \<le> in_flight s \<or> (nxt_to_retrx (scb s) = None \<and> curseq s \<le> t_seqno s) \<or>
     (maxburst \<noteq> 0 \<and> maxburst \<le> n)"

lemma send_loop_ok:
  assumes "sender_ok s" "no_abort s" "\<not> overhead s \<or> force"
  shows "\<exists>s' rs. send_loop force maxburst npacket s = Some s' \<and> sends rs s s' \<and>
    (in_flight s' = in_flight s \<or> in_flight s' \<le> max (window s) (next_pkts_in_flight s)) \<and>
    stopped maxburst (npacket + (in_flight s' - in_flight s)) s'"
  using assms
proof (induction "nat (max (window s) (next_pkts_in_flight s) - in_flight s)" arbitrary: s npacket rule: less_induct)
  case less
  show ?case
  proof (cases "in_flight s < max (window s) (next_pkts_in_flight s)")
    case False
    then have "send_loop force maxburst npacket s = Some s" by (subst send_loop.simps) simp
    then show ?thesis using False sends_refl [OF less.prems(1)] by (auto simp: stopped_def)
  next
    case room: True
    from send_step [OF less.prems(1,2)] show ?thesis
    proof (elim disjE exE conjE)
      fix s1 assume s1: "choose_packet s = Some (Nothing_Left s1)" "sends [] s s1" "nxt_to_retrx (scb s1) = None" "curseq s1 \<le> t_seqno s1"
        "in_flight s1 = in_flight s"
      have "send_loop force maxburst npacket s = Some s1"
        using room less.prems(3) s1(1) by (subst send_loop.simps) simp
      then show ?thesis using s1 by (auto simp: stopped_def)
    next
      fix q s1 rs assume s1: "choose_packet s = Some (Send_Packet q s1)" "sends rs s (send_packet q s1)" "no_abort (send_packet q s1)"
        "in_flight (send_packet q s1) = in_flight s + 1" "overhead (send_packet q s1) = overhead s"
        "next_pkts_in_flight (send_packet q s1) \<le> next_pkts_in_flight s"
      let ?s2 = "send_packet q s1"
      have loop: "send_loop force maxburst npacket s =
          (if maxburst \<noteq> 0 \<and> maxburst \<le> npacket + 1 then Some ?s2 else send_loop force maxburst (npacket + 1) ?s2)"
        using room less.prems(3) s1(1) by (subst send_loop.simps) (simp add: Let_def)
      show ?thesis
      proof (cases "maxburst \<noteq> 0 \<and> maxburst \<le> npacket + 1")
        case True
        then show ?thesis using s1 room loop by (auto simp: stopped_def)
      next
        case False
        have s2: "sender_ok ?s2" "window ?s2 = window s" using s1(2) by (simp_all add: sends_def)
        have "nat (max (window ?s2) (next_pkts_in_flight ?s2) - in_flight ?s2) < nat (max (window s) (next_pkts_in_flight s) - in_flight s)"
          using room s1(4,6) s2(2) by (simp add: nat_less_iff)
        from less.hyps [OF this s2(1) s1(3), of "npacket + 1"] less.prems(3) s1(5) obtain s' rs' where s':
          "send_loop force maxburst (npacket + 1) ?s2 = Some s'" "sends rs' ?s2 s'"
          "in_flight s' = in_flight ?s2 \<or> in_flight s' \<le> max (window ?s2) (next_pkts_in_flight ?s2)"
          "stopped maxburst (npacket + 1 + (in_flight s' - in_flight ?s2)) s'" by auto
        have "send_loop force maxburst npacket s = Some s'" using loop False s'(1) by auto
        moreover have "stopped maxburst (npacket + (in_flight s' - in_flight s)) s'" using s'(4) s1(4) by (simp add: algebra_simps)
        moreover have "in_flight s' \<le> max (window s) (next_pkts_in_flight s)" using s'(3) s1(4,6) s2(2) room by linarith
        ultimately show ?thesis using sends_trans [OF s1(2) s'(2)] by blast
      qed
    qed
  qed
qed

lemma sends_entry: "sends rs (s\<lparr>burstsnd_pending := b, next_pkts_in_flight := n\<rparr>) s' \<longleftrightarrow> sends rs s s'"
  by (simp add: sends_def window_def in_flight_def)

lemma send_much_ok:
  assumes "sender_ok s" "no_abort s" "\<not> overhead s \<or> force" "delsnd_pending s \<longrightarrow> force"
  shows "\<exists>s' rs. send_much force maxburst s = Some s' \<and> sends rs s s' \<and>
    (in_flight s' = in_flight s \<or> in_flight s' \<le> max (window s) (min (next_pkts_in_flight s) (in_flight s + 1))) \<and>
    stopped maxburst (in_flight s' - in_flight s) s'"
proof -
  let ?n = "min (next_pkts_in_flight s) (in_flight s + 1)"
  let ?s = "s\<lparr>burstsnd_pending := False, next_pkts_in_flight := ?n\<rparr>"
  have same: "sender_ok ?s" "no_abort ?s" "in_flight ?s = in_flight s" "window ?s = window s"
    using assms(1,2) by (simp_all add: sender_ok_def no_abort_def in_flight_def window_def)
  have "\<not> overhead ?s \<or> force" using assms(3) by simp
  moreover have "send_much force maxburst s = send_loop force maxburst 0 ?s"
    using assms(4) by (auto simp: send_much_def)
  ultimately show ?thesis
    using send_loop_ok [OF same(1,2), of force maxburst 0] by (simp add: sends_entry same(3,4))
qed

subsection \<open>What sending leaves alone\<close>

text \<open>Sending does not touch the private area of the module, and of the socket only the next sequence number.\<close>

definition send_frame :: "'ca sender \<Rightarrow> 'ca sender \<Rightarrow> bool" where
  "send_frame s s' \<longleftrightarrow>
     priv s' = priv s \<and> initialized s' = initialized s \<and> recover s' = recover s \<and> highest_ack s' = highest_ack s \<and>
     linux s' = (linux s)\<lparr>snd_nxt := snd_nxt (linux s')\<rparr> \<and> overhead s' = overhead s \<and> syn s' = syn s \<and>
     max_connects s' = max_connects s \<and> (\<not> overhead s \<longrightarrow> delsnd_pending s' = delsnd_pending s) \<and>
     next_pkts_in_flight s' \<le> next_pkts_in_flight s"

lemma send_frame_refl [simp]: "send_frame s s"
  by (simp add: send_frame_def)

lemma send_frame_trans:
  assumes "send_frame s s1" "send_frame s1 s2"
  shows "send_frame s s2"
proof -
  have "linux s2 = (linux s1)\<lparr>snd_nxt := snd_nxt (linux s2)\<rparr>" "linux s1 = (linux s)\<lparr>snd_nxt := snd_nxt (linux s1)\<rparr>"
    using assms by (simp_all only: send_frame_def simp_thms)
  then have "linux s2 = (linux s)\<lparr>snd_nxt := snd_nxt (linux s2)\<rparr>" by (metis tcp_sock.update_convs(2) tcp_sock.surjective)
  moreover have "\<not> overhead s \<longrightarrow> delsnd_pending s2 = delsnd_pending s" "next_pkts_in_flight s2 \<le> next_pkts_in_flight s"
    using assms by (simp_all add: send_frame_def)
  ultimately show ?thesis using assms by (simp only: send_frame_def simp_thms)
qed

lemma send_frame_output [simp]: "send_frame s (output_packet q s)"
  by (simp add: send_frame_def)

lemma send_frame_packet: "send_frame s (send_packet q s)"
  by (simp add: send_packet_def send_frame_def Let_def)

lemma send_frame_choice:
  "choose_packet s = Some c \<Longrightarrow> (case c of Nothing_Left s' \<Rightarrow> send_frame s s' | Send_Packet q s' \<Rightarrow> send_frame s s')"
  by (auto simp: choose_packet_def Let_def send_frame_def split: prod.splits if_splits bind_splits)

text \<open>A relation that every step of the loop respects holds over the loop.\<close>

lemma send_loop_rel:
  assumes loop: "send_loop force maxburst npacket s = Some s'"
    and refl: "\<And>s. R s s" and trans: "\<And>s s1 s2. R s s1 \<Longrightarrow> R s1 s2 \<Longrightarrow> R s s2"
    and pend: "\<And>s. overhead s \<Longrightarrow> R s (s\<lparr>delsnd_pending := True\<rparr>)"
    and stop: "\<And>s s'. choose_packet s = Some (Nothing_Left s') \<Longrightarrow> R s s'"
    and send: "\<And>s q s'. choose_packet s = Some (Send_Packet q s') \<Longrightarrow> R s (send_packet q s')"
  shows "R s s'"
proof (rule send_loop.raw_induct [where P = "\<lambda>_ _ _ s s'. R s s'", OF _ loop], goal_cases)
  case (1 loop force maxburst npacket s s')
  show ?case
  proof (cases "in_flight s < max (window s) (next_pkts_in_flight s) \<and> (\<not> overhead s \<or> force)")
    case False
    then show ?thesis using 1(2) 1(1) pend [of s] refl [of s] by (auto split: if_splits)
  next
    case True
    then obtain c where c: "choose_packet s = Some c" using 1(2) by (auto split: bind_splits)
    show ?thesis
    proof (cases c)
      case (Nothing_Left s1)
      then show ?thesis using True c 1(2) stop by simp
    next
      case (Send_Packet q s1)
      then have "R s (send_packet q s1)" using c send by simp
      then show ?thesis
        using True c Send_Packet 1(2) trans [OF _ 1(1)] by (auto simp: Let_def split: if_splits)
    qed
  qed
qed

lemma send_loop_frame:
  assumes "send_loop force maxburst npacket s = Some s'"
  shows "send_frame s s'"
  using assms
proof (rule send_loop_rel)
  fix s :: "'a sender" and q s'
  show "send_frame s (s\<lparr>delsnd_pending := True\<rparr>)" if "overhead s" using that by (simp add: send_frame_def)
  show "send_frame s s'" if "choose_packet s = Some (Nothing_Left s')" using send_frame_choice [OF that] by simp
  show "send_frame s (send_packet q s')" if "choose_packet s = Some (Send_Packet q s')"
    using send_frame_choice [OF that] send_frame_trans [OF _ send_frame_packet] by simp
qed (simp_all add: send_frame_trans)

lemma send_much_frame: "send_much force maxburst s = Some s' \<Longrightarrow> send_frame s s'"
  using send_loop_frame [of force maxburst 0 _ s'] by (force simp: send_much_def send_frame_def split: if_splits)

lemma send_much_next:
  "send_much force maxburst s = Some s' \<Longrightarrow> delsnd_pending s \<longrightarrow> force \<Longrightarrow> next_pkts_in_flight s' \<le> in_flight s + 1"
  using send_loop_frame [of force maxburst 0 _ s'] by (force simp: send_much_def send_frame_def split: if_splits)

text \<open>Sending only goes forward, and acknowledges nothing.\<close>

definition send_forward :: "'ca sender \<Rightarrow> 'ca sender \<Rightarrow> bool" where
  "send_forward s s' \<longleftrightarrow>
     t_seqno s \<le> t_seqno s' \<and> packets SKB_SACKED (sb_blocks (scb s')) \<subseteq> packets SKB_SACKED (sb_blocks (scb s))"

lemma packets_at_block:
  assumes "\<And>n. packets g (f n) \<subseteq> packets g [n]"
  shows "packets g (at_block i f ns) \<subseteq> packets g ns"
proof (induction ns)
  case (Cons n ns)
  have "packets g (n # ns) = packets g [n] \<union> packets g ns" by simp
  moreover have "packets g (at_block i f (n # ns)) \<subseteq> packets g [n] \<union> packets g ns"
    using Cons assms [of n] by (simp only: at_block.simps split: if_split) auto
  ultimately show ?case by simp
qed simp

lemma MarkRetran_sacked:
  assumes "MarkRetran q m sb = Some sb'"
  shows "packets SKB_SACKED (sb_blocks sb') \<subseteq> packets SKB_SACKED (sb_blocks sb)"
proof -
  have "packets SKB_SACKED (retran_block i m r n) \<subseteq> packets SKB_SACKED [n]" for i r n
    by (auto simp: retran_block_def split_block_def new_block_def get_end_def Let_def)
  then show ?thesis using assms packets_at_block by (auto simp: MarkRetran_def split: option.splits if_splits) blast
qed

lemma GetNextRetran_blocks: "GetNextRetran sb = (q, sb') \<Longrightarrow> sb_blocks sb' = sb_blocks sb"
  by (auto simp: GetNextRetran_def split: option.splits list.splits)

lemma send_forward_choice:
  assumes "choose_packet s = Some c"
  shows "case c of Nothing_Left s' \<Rightarrow> send_forward s s' | Send_Packet q s' \<Rightarrow> send_forward s s'"
proof -
  obtain q sb where q: "GetNextRetran (scb s) = (q, sb)" by fastforce
  then have "sb_blocks sb = sb_blocks (scb s)" by (rule GetNextRetran_blocks)
  then show ?thesis
    using assms MarkRetran_sacked [of q "t_seqno s" sb]
    by (auto simp: choose_packet_def q Let_def send_forward_def split: if_splits bind_splits)
qed

lemma send_forward_packet: "send_forward s s' \<Longrightarrow> send_forward s (send_packet q s')"
  by (auto simp: send_packet_def Let_def send_forward_def)

lemma send_much_forward:
  assumes "send_much force maxburst s = Some s'"
  shows "send_forward s s'"
proof -
  have "send_forward s s'" if "send_loop force maxburst npacket s = Some s'" for npacket and s :: "'a sender"
    using that
  proof (rule send_loop_rel)
    fix s :: "'a sender" and q s'
    show "send_forward s s'" if "choose_packet s = Some (Nothing_Left s')" using send_forward_choice [OF that] by simp
    show "send_forward s (send_packet q s')" if "choose_packet s = Some (Send_Packet q s')"
      using send_forward_choice [OF that] send_forward_packet by simp
  qed (auto simp: send_forward_def)
  then show ?thesis using assms by (force simp: send_much_def send_forward_def split: if_splits)
qed

subsection \<open>Properties\<close>

text \<open>
  C26. What \<open>send_much\<close> sends. From a scoreboard in order, when no delayed send is due, it ends, and what it hands to
  \<open>output\<close> is a list of distinct packets taken as lost, followed by the new packets \<open>t_seqno_\<close>, \<open>t_seqno_ + 1\<close>, \<dots> without a gap. The
  packets retransmitted are no longer lost, and each packet sent is one more in flight. What is in flight is at most the
  window, or one more than before while the rate is being halved, unless it was more already. Sending stops only when
  the window is full, when neither a packet to retransmit nor data of the application is left, or when the burst is over. If no lost block is
  behind the retransmission pointer, the packets retransmitted are the lowest lost ones in order, and no new packet is sent
  while one is lost.
\<close>

theorem send_much_correct:
  assumes "sender_ok s" "no_abort s" "\<not> overhead s \<or> force" "delsnd_pending s \<longrightarrow> force"
  shows "\<exists>s' rs. send_much force maxburst s = Some s' \<and> sender_ok s' \<and>
    packets_sent s' = packets_sent s @ rs @ [t_seqno s..t_seqno s' - 1] \<and>
    distinct rs \<and> set rs \<subseteq> lost_packets s \<and> lost_packets s' = lost_packets s - set rs \<and>
    in_flight s' = in_flight s + int (length rs) + (t_seqno s' - t_seqno s) \<and>
    (in_flight s' = in_flight s \<or> in_flight s' \<le> max (window s) (min (next_pkts_in_flight s) (in_flight s + 1))) \<and>
    stopped maxburst (in_flight s' - in_flight s) s' \<and>
    (lost_ahead (scb s) \<longrightarrow>
       sorted_list_of_set (lost_packets s) = rs @ sorted_list_of_set (lost_packets s') \<and>
       (t_seqno s < t_seqno s' \<longrightarrow> lost_packets s' = {}))"
proof -
  obtain s' rs where s': "send_much force maxburst s = Some s'" "sends rs s s'"
    "in_flight s' = in_flight s \<or> in_flight s' \<le> max (window s) (min (next_pkts_in_flight s) (in_flight s + 1))"
    "stopped maxburst (in_flight s' - in_flight s) s'"
    using send_much_ok [OF assms] by blast
  show ?thesis
    by (rule exI [of _ s'], rule exI [of _ rs]) (use s' in \<open>unfold sends_def, blast\<close>)
qed

text \<open>A sender with two lost packets, a window of 4, and data to send.\<close>

definition example_sender :: "unit sender" where
  "example_sender =
     \<lparr>linux = example_sock 2, priv = (), initialized = True, next_pkts_in_flight = 0, recover = 0, highest_ack = 4, maxseq = 6,
      scb = \<lparr>sb_blocks = [\<lparr>blk_id = 0, blk_flag = SKB_LOST, blk_seq = 5, blk_nxt = 6, blk_retran = 0\<rparr>],
             nxt_to_retrx = Some 0, acked_rtx_id = - 1, rtx_id = 0, sb_fack = 0, fack_out = 2, sack_out = 0,
             last_rtx_seq = - 1, sb_fresh = 1\<rparr>,
      t_seqno = 7, curseq = 20, delsnd_pending = False, burstsnd_pending = False, overhead = False, syn = True,
      max_connects = - 1, syn_connects = 0, nrexmitpack = 0, packets_sent = []\<rparr>"

theorem send_much_correct_witness:
  "\<exists>s' rs. send_much False 0 example_sender = Some s' \<and> packets_sent s' = rs @ [7..t_seqno s' - 1] \<and>
     set rs \<subseteq> {5..6} \<and> in_flight s' \<le> 4"
proof -
  have "sender_ok example_sender" "no_abort example_sender"
    by (simp_all add: sender_ok_def no_abort_def example_sender_def board_ok_def get_end_def get_length_def)
  moreover have vals: "\<not> overhead example_sender" "\<not> delsnd_pending example_sender" "window example_sender = 4"
    "lost_packets example_sender = {5..6}" "packets_sent example_sender = []" "t_seqno example_sender = 7"
    "in_flight example_sender = 0" "next_pkts_in_flight example_sender = 0"
    by (simp_all add: example_sender_def window_def packets_def get_end_def in_flight_def packets_in_flight_def)
  ultimately show ?thesis
    using send_much_correct [of example_sender False 0] by fastforce
qed

end
