(* ===== verification/Connection.thy ===== *)
theory Connection
  imports Sender
begin

section \<open>A connection: the agent with its scoreboard and its sender\<close>

text \<open>
  The handlers of \<open>LinuxTcpAgent\<close> with a module installed, on the whole state: \<open>recv\<close> passes an acknowledgement to the
  scoreboard, to the module and to the sender, and \<open>timeout\<close> marks everything as lost and restarts. What the
  clock and the floating-point estimate of the round-trip time supply is part of the packet. Inside the contract of a module, every
  run of a connection is total and keeps the invariants of the sender and of the module.
\<close>

subsection \<open>The agent inside the sender\<close>

definition agent_part :: "'ca sender \<Rightarrow> 'ca agent" where
  "agent_part s =
     \<lparr>linux = linux s, priv = priv s, initialized = initialized s, next_pkts_in_flight = next_pkts_in_flight s,
      recover = recover s, highest_ack = highest_ack s, maxseq = maxseq s\<rparr>"

definition set_agent_part :: "'ca sender \<Rightarrow> 'ca agent \<Rightarrow> 'ca sender" where
  "set_agent_part s a =
     s\<lparr>linux := linux a, priv := priv a, initialized := initialized a, next_pkts_in_flight := next_pkts_in_flight a,
       recover := recover a, highest_ack := highest_ack a, maxseq := maxseq a\<rparr>"

definition on_agent :: "('ca agent \<Rightarrow> 'ca agent option) \<Rightarrow> 'ca sender \<Rightarrow> 'ca sender option" where
  "on_agent f s = map_option (set_agent_part s) (f (agent_part s))"

subsection \<open>Acknowledgements\<close>

text \<open>A packet as \<open>recv\<close> sees it: the cumulative and the selective acknowledgements, the congestion echo of a connection with
  ECN, and what the clock and the estimate of the round-trip time give.\<close>

record ack_pkt =
  pk_seqno :: int
  pk_sacks :: "(int \<times> int) list"
  pk_ecnecho :: bool
  pk_kern :: kern
  pk_seq_rtt :: u32
  pk_last_ackt :: s64
  pk_usrtt :: "u32 option"
  pk_srtt :: u32
  pk_rx_opt :: tcp_options_received

abbreviation (input) FLAG_UNSURE_TSTAMP :: u8 where "FLAG_UNSURE_TSTAMP \<equiv> 16"

text \<open>The flags before the scoreboard is looked at: the echo, new data, and \<open>ack_processing\<close>.\<close>

definition ack_flags :: "ack_pkt \<Rightarrow> 'ca sender \<Rightarrow> u8" where
  "ack_flags p s =
     (if pk_ecnecho p \<and> 1 < pk_seqno p + 1 then FLAG_ECE else 0) OR
     (if highest_ack s < pk_seqno p then FLAG_DATA_ACKED else FLAG_UNSURE_TSTAMP)"

text \<open>The call of the scoreboard, with the new cumulative acknowledgement.\<close>

definition update_scoreboard :: "ack_pkt \<Rightarrow> 'ca sender \<Rightarrow> (u8 \<times> scoreboard) option" where
  "update_scoreboard p s =
     (if pk_sacks p \<noteq> [] \<or> sb_blocks (scb s) \<noteq> []
      then do {
        (sb, f) \<leftarrow> UpdateScoreBoard (max (highest_ack s) (pk_seqno p)) (pk_sacks p) 3 (scb s);
        Some (ack_flags p s OR f, sb)
      }
      else Some (ack_flags p s, scb s))"

text \<open>What the module sees of the acknowledgement.\<close>

definition ack_of :: "ack_pkt \<Rightarrow> u8 \<Rightarrow> 'ca sender \<Rightarrow> ack_in" where
  "ack_of p flag s =
     (let high = max (highest_ack s) (pk_seqno p) in
      \<lparr>in_kern = pk_kern p, in_flag = flag, in_ack = word_of_int (pk_seqno p + 1),
       in_acked = word_of_int (high - highest_ack s), in_prior_in_flight = word_of_int (in_flight s),
       in_seq_rtt = pk_seq_rtt p,
       in_last_ackt = (if flag AND FLAG_UNSURE_TSTAMP \<noteq> 0 then 0 else pk_last_ackt p), in_usrtt = pk_usrtt p,
       in_pif = t_seqno s - (high + 1), in_highest_ack = high,
       in_snd_una = (if highest_ack s < pk_seqno p then word_of_int (high + 1) * mss_cache (linux s) else snd_una (linux s)),
       in_snd_nxt = snd_nxt (linux s), in_srtt = pk_srtt p, in_rx_opt = pk_rx_opt p\<rparr>)"

text \<open>\<open>tcp_fastretrans_alert\<close> clears the scoreboard when the recovery ends.\<close>

definition recovery_done :: "'ca sender \<Rightarrow> bool" where
  "recovery_done s \<longleftrightarrow> icsk_ca_state (linux s) \<noteq> TCP_CA_Open \<and> recover s \<le> highest_ack s"

definition fastretrans_alert :: "'ca tcp_congestion_ops \<Rightarrow> kern \<Rightarrow> u8 \<Rightarrow> 'ca sender \<Rightarrow> 'ca sender option" where
  "fastretrans_alert ops k flag s =
     (let s = (if recovery_done s then s\<lparr>scb := ClearScoreBoard (scb s)\<rparr> else s)
      in on_agent (tcp_fastretrans_alert ops k (in_flight s) flag) s)"

definition congestion_control :: "'ca tcp_congestion_ops \<Rightarrow> ack_in \<Rightarrow> 'ca sender \<Rightarrow> 'ca sender option" where
  "congestion_control ops i s =
     (if tcp_ack_is_dubious (in_flag i) (linux s)
      then do {
        s \<leftarrow> (if in_flag i AND FLAG_DATA_ACKED \<noteq> 0 \<and> tcp_may_raise_cwnd (in_flag i) (linux s)
              then on_agent (tcp_cong_avoid_call ops i 0) s else Some s);
        fastretrans_alert ops (in_kern i) (in_flag i) s
      }
      else if in_flag i AND FLAG_DATA_ACKED \<noteq> 0 then on_agent (tcp_cong_avoid_call ops i 1) s
      else Some s)"

text \<open>What the acknowledgement changes before any call of the module: \<open>ack_processing\<close>, the byte count and the time stamps.\<close>

definition ack_processing :: "ack_pkt \<Rightarrow> ack_in \<Rightarrow> 'ca agent \<Rightarrow> 'ca agent" where
  "ack_processing p i a =
     a\<lparr>linux := ack_fields i (linux a), highest_ack := in_highest_ack i,
       maxseq := (if highest_ack a < pk_seqno p then max (maxseq a) (pk_seqno p) else maxseq a)\<rparr>"

definition recv :: "'ca tcp_congestion_ops \<Rightarrow> int \<Rightarrow> ack_pkt \<Rightarrow> 'ca sender \<Rightarrow> 'ca sender option" where
  "recv ops maxburst p s =
     (if t_seqno s < pk_seqno p + 1 \<or> pk_seqno p < highest_ack s then Some s
      else do {
        (flag, sb) \<leftarrow> update_scoreboard p s;
        let i = ack_of p flag s;
        s \<leftarrow> on_agent (\<lambda>a. Some (ack_processing p i a)) (s\<lparr>scb := sb\<rparr>);
        s \<leftarrow> on_agent (recv_samples ops i) s;
        s \<leftarrow> congestion_control ops i s;
        send_much False maxburst s
      })"

subsection \<open>The variables of the base class\<close>

text \<open>The settings of a connection: the advertised window \<open>wnd_\<close> and the value of \<open>initial_window\<close> (whole numbers), whether growth is
  delayed after the connection is opened, the limit on the first threshold, the packet size, the limit on a burst, and how a
  timeout without outstanding data is handled.\<close>

record config =
  cf_wnd :: int
  cf_wnd_init :: int
  cf_delay_growth :: bool
  cf_max_ssthresh :: int
  cf_size :: int
  cf_maxburst :: int
  cf_slow_start_restart :: bool
  cf_restart_bugfix :: bool

text \<open>\<open>cwnd_\<close> and \<open>ssthresh_\<close> of the base class, as the agent saves them for it.\<close>

definition save_from_linux :: "'ca sender \<Rightarrow> int \<times> int" where
  "save_from_linux s =
     (if sint (snd_cwnd (linux s)) < next_pkts_in_flight s then next_pkts_in_flight s else uint (snd_cwnd (linux s)),
      sint (snd_ssthresh (linux s)))"

definition load_to_linux :: "config \<Rightarrow> int \<times> int \<Rightarrow> 'ca sender \<Rightarrow> 'ca sender" where
  "load_to_linux cf wins s =
     (let (cwnd, ssthresh) = wins;
          s = s\<lparr>linux := (linux s)\<lparr>snd_ssthresh := word_of_int ssthresh\<rparr>\<rparr>;
          s = (if sint (snd_cwnd (linux s)) < next_pkts_in_flight s \<and> sint (snd_cwnd (linux s)) \<le> cwnd
               then s\<lparr>next_pkts_in_flight := cwnd\<rparr>
               else s\<lparr>linux := (linux s)\<lparr>snd_cwnd := word_of_int cwnd\<rparr>\<rparr>)
      in s\<lparr>linux := (linux s)\<lparr>snd_cwnd_clamp := word_of_int (cf_wnd cf)\<rparr>\<rparr>)"

definition load_to_linux_once :: "config \<Rightarrow> 'ca sender \<Rightarrow> 'ca sender" where
  "load_to_linux_once cf s =
     s\<lparr>linux := (linux s)\<lparr>snd_cwnd_clamp := word_of_int (cf_wnd cf), snd_ssthresh := word_of_int (cf_wnd cf),
                        mss_cache := word_of_int (cf_size cf)\<rparr>\<rparr>"

text \<open>\<open>slowdown(CLOSE_CWND_INIT)\<close> of the base class: the initial window again, and a threshold of at least 2.\<close>

definition slowdown_init :: "config \<Rightarrow> int \<times> int \<Rightarrow> int \<times> int" where
  "slowdown_init cf wins = (cf_wnd_init cf, if snd wins < 2 then 2 else snd wins)"

text \<open>The window and the threshold that \<open>reset\<close> of the base class sets: a window of one when growth is delayed.\<close>

definition set_initial_window :: "config \<Rightarrow> 'ca sender \<Rightarrow> int \<times> 'ca sender" where
  "set_initial_window cf s =
     (if syn s \<and> cf_delay_growth cf then (1, s\<lparr>syn_connects := 0\<rparr>) else (cf_wnd_init cf, s))"

definition reset_ssthresh :: "config \<Rightarrow> int" where
  "reset_ssthresh cf = (if 0 < cf_max_ssthresh cf \<and> cf_max_ssthresh cf < cf_wnd cf then cf_max_ssthresh cf else cf_wnd cf)"

text \<open>The constructors of the scoreboard and of the agent, and \<open>reset\<close>, which also runs the one of the base class.\<close>

definition empty_board :: scoreboard where
  "empty_board = ClearScoreBoard
     \<lparr>sb_blocks = [], nxt_to_retrx = None, acked_rtx_id = 0, rtx_id = 0, sb_fack = 0, fack_out = 0, sack_out = 0,
      last_rtx_seq = - 1, sb_fresh = 0\<rparr>"

definition reset :: "config \<Rightarrow> 'ca sender \<Rightarrow> 'ca sender" where
  "reset cf s =
     (let s = s\<lparr>scb := ClearScoreBoard (scb s), initialized := False,
                linux := (linux s)\<lparr>icsk_ca_state := TCP_CA_Open, snd_cwnd_stamp := 0, snd_cwnd := 2, bytes_acked := 0\<rparr>\<rparr>;
          (cwnd, s) = set_initial_window cf s;
          s = s\<lparr>curseq := 0, t_seqno := 0, maxseq := - 1, highest_ack := - 1, recover := 0, nrexmitpack := 0,
                delsnd_pending := False, burstsnd_pending := False\<rparr>
      in load_to_linux cf (cwnd, reset_ssthresh cf) (load_to_linux_once cf s))"

definition new_sender :: "tcp_sock \<Rightarrow> 'ca \<Rightarrow> 'ca sender" where
  "new_sender tp ca =
     \<lparr>linux = linux (fresh_agent tp ca), priv = ca, initialized = False, next_pkts_in_flight = 0, recover = 0,
      highest_ack = 0, maxseq = 0, scb = empty_board, t_seqno = 0, curseq = 0, delsnd_pending = False,
      burstsnd_pending = False, overhead = False, syn = True, max_connects = - 1, syn_connects = 0, nrexmitpack = 0,
      packets_sent = []\<rparr>"

subsection \<open>Timeouts\<close>

text \<open>The retransmission timer. Without outstanding data the agent either does nothing, starts from the initial window again, or goes
  on as with data: the module loses, the scoreboard marks everything as lost, and the rate is no longer halved.\<close>

definition timeout :: "'ca tcp_congestion_ops \<Rightarrow> config \<Rightarrow> kern \<Rightarrow> 'ca sender \<Rightarrow> 'ca sender option" where
  "timeout ops cf k s =
     (if highest_ack s = maxseq s \<and> \<not> cf_slow_start_restart cf then Some s
      else do {
        s \<leftarrow> (if highest_ack s = maxseq s \<and> cf_restart_bugfix cf
              then Some (load_to_linux cf (slowdown_init cf (save_from_linux s)) s)
              else do {
                s \<leftarrow> on_agent (enter_loss ops k) s;
                sb \<leftarrow> MarkLoss (highest_ack s + 1) (t_seqno s) (scb s);
                Some (s\<lparr>scb := sb\<rparr>)
              });
        send_much False 0 (s\<lparr>next_pkts_in_flight := 0, linux := (linux s)\<lparr>bytes_acked := 0\<rparr>\<rparr>)
      })"

text \<open>The timer of a delayed send: the timer is no longer pending when it expires.\<close>

definition timeout_delsnd :: "config \<Rightarrow> 'ca sender \<Rightarrow> 'ca sender option" where
  "timeout_delsnd cf s =
     (let wins = save_from_linux s in
      map_option (load_to_linux cf wins) (send_much True (cf_maxburst cf) (s\<lparr>delsnd_pending := False\<rparr>)))"

subsection \<open>Runs\<close>

datatype conn_event = Ack ack_pkt | Rto kern | Advance int

fun conn_step :: "'ca tcp_congestion_ops \<Rightarrow> config \<Rightarrow> conn_event \<Rightarrow> 'ca sender \<Rightarrow> 'ca sender option" where
  "conn_step ops cf (Ack p) s = recv ops (cf_maxburst cf) p s"
| "conn_step ops cf (Rto k) s = timeout ops cf k s"
| "conn_step ops cf (Advance n) s = advanceby (cf_maxburst cf) n s"

fun conn_run :: "'ca tcp_congestion_ops \<Rightarrow> config \<Rightarrow> conn_event list \<Rightarrow> 'ca sender \<Rightarrow> 'ca sender option" where
  "conn_run ops cf [] s = Some s"
| "conn_run ops cf (e # es) s = do { s \<leftarrow> conn_step ops cf e s; conn_run ops cf es s }"

text \<open>What a receiver and the simulator can produce in a state: selective acknowledgements of packets that were sent, none empty and none
  of the packet that is acknowledged cumulatively, and values for the module within its range \<open>env\<close>.\<close>

definition pkt_possible :: "(ack_in \<Rightarrow> bool) \<Rightarrow> ack_pkt \<Rightarrow> 'ca sender \<Rightarrow> bool" where
  "pkt_possible env p s \<longleftrightarrow>
     - 1 \<le> pk_seqno p \<and> 0 < tcp_max_burst (pk_kern p) \<and>
     list_all (\<lambda>b. 0 \<le> fst b \<and> fst b < snd b \<and> fst b \<noteq> pk_seqno p \<and> snd b \<le> t_seqno s) (pk_sacks p) \<and>
     (case update_scoreboard p s of None \<Rightarrow> True | Some (flag, sb) \<Rightarrow> env (ack_of p flag s))"

fun event_possible :: "(ack_in \<Rightarrow> bool) \<Rightarrow> conn_event \<Rightarrow> 'ca sender \<Rightarrow> bool" where
  "event_possible env (Ack p) s = pkt_possible env p s"
| "event_possible env (Rto k) s = True"
| "event_possible env (Advance n) s = True"

fun run_possible :: "'ca tcp_congestion_ops \<Rightarrow> config \<Rightarrow> (ack_in \<Rightarrow> bool) \<Rightarrow> conn_event list \<Rightarrow> 'ca sender \<Rightarrow> bool" where
  "run_possible ops cf env [] s = True"
| "run_possible ops cf env (e # es) s =
     (event_possible env e s \<and>
      (case conn_step ops cf e s of None \<Rightarrow> True | Some s' \<Rightarrow> run_possible ops cf env es s'))"

subsection \<open>What the calls of the module leave alone\<close>

lemma agent_part_simps [simp]:
  "agent_part (set_agent_part s a) = a" "linux (agent_part s) = linux s" "priv (agent_part s) = priv s"
  "initialized (agent_part s) = initialized s" "highest_ack (agent_part s) = highest_ack s" "maxseq (agent_part s) = maxseq s"
  "agent_part (s\<lparr>scb := sb\<rparr>) = agent_part s" "no_abort (s\<lparr>scb := sb\<rparr>) = no_abort s"
  by (simp_all add: agent_part_def set_agent_part_def no_abort_def)

lemma set_agent_part_simps [simp]:
  "linux (set_agent_part s a) = linux a" "priv (set_agent_part s a) = priv a" "initialized (set_agent_part s a) = initialized a"
  "highest_ack (set_agent_part s a) = highest_ack a" "maxseq (set_agent_part s a) = maxseq a" "scb (set_agent_part s a) = scb s"
  "t_seqno (set_agent_part s a) = t_seqno s" "overhead (set_agent_part s a) = overhead s"
  "delsnd_pending (set_agent_part s a) = delsnd_pending s" "no_abort (set_agent_part s a) = no_abort s"
  by (simp_all add: set_agent_part_def no_abort_def)

lemma sender_ok_agent [simp]: "highest_ack a = highest_ack s \<Longrightarrow> sender_ok (set_agent_part s a) = sender_ok s"
  by (simp add: sender_ok_def)

lemma set_agent_sock_ack [simp]: "highest_ack (set_agent_sock a s) = highest_ack a"
  by (simp add: set_agent_sock_def)

lemma set_ca_state_ack: "tcp_set_ca_state ops k st a = Some a' \<Longrightarrow> highest_ack a' = highest_ack a"
  by (auto simp: tcp_set_ca_state_def split: bind_splits)

lemma event_call_ack: "tcp_ca_event_call ops k ev a = Some a' \<Longrightarrow> highest_ack a' = highest_ack a"
  by (auto simp: tcp_ca_event_call_def split: option.splits)

lemma enter_loss_ack: "enter_loss ops k a = Some a' \<Longrightarrow> highest_ack a' = highest_ack a"
  by (auto simp: enter_loss_def split: bind_splits dest!: set_ca_state_ack event_call_ack)

lemma exit_recovery_ack: "exit_recovery ops k pif a = Some a' \<Longrightarrow> highest_ack a' = highest_ack a"
  by (auto simp: exit_recovery_def split: bind_splits if_splits dest!: set_ca_state_ack)

lemma enter_recovery_ack: "enter_recovery ops k a = Some a' \<Longrightarrow> highest_ack a' = highest_ack a"
  by (auto simp: enter_recovery_def split: bind_splits dest!: set_ca_state_ack)

lemma fastretrans_ack: "tcp_fastretrans_alert ops k pif flag a = Some a' \<Longrightarrow> highest_ack a' = highest_ack a"
  using exit_recovery_ack [of ops k pif a a'] enter_recovery_ack [of ops k a a']
  by (simp add: tcp_fastretrans_alert_def split: if_splits)

lemma cong_avoid_call_ack: "tcp_cong_avoid_call ops i good a = Some a' \<Longrightarrow> highest_ack a' = highest_ack a"
  by (auto simp: tcp_cong_avoid_call_def split: bind_splits)

lemma ack_processing_simps [simp]:
  "highest_ack (ack_processing p i a) = in_highest_ack i" "linux (ack_processing p i a) = ack_fields i (linux a)"
  "priv (ack_processing p i a) = priv a" "initialized (ack_processing p i a) = initialized a"
  by (simp_all add: ack_processing_def)

lemma recv_samples_ack: "recv_samples ops i a = Some a' \<Longrightarrow> highest_ack a' = highest_ack a"
  by (auto simp: recv_samples_def rtt_sample_call_def init_call_def pkts_acked_call_def
      split: bind_splits option.splits if_splits dest!: event_call_ack)

subsection \<open>The scoreboard in the sender\<close>

lemma in_flight_nonneg:
  assumes "sender_ok s"
  shows "0 \<le> in_flight s"
proof -
  have board: "contig (highest_ack s + 1) (sb_blocks (scb s))" "fack_out (scb s) = count_of SKB_LOST (sb_blocks (scb s))"
    "sack_out (scb s) = count_of SKB_SACKED (sb_blocks (scb s))"
    using assms by (simp_all add: sender_ok_def board_ok_def)
  have "0 \<le> count_of SKB_INFLIGHT (sb_blocks (scb s))" "0 \<le> count_of SKB_RETRANSMITTED (sb_blocks (scb s))"
    using count_of_nonneg [OF board(1)] by blast+
  then show ?thesis
    using count_of_all [OF board(1)] board(2,3) assms by (simp add: in_flight_def packets_in_flight_def sender_ok_def)
qed

text \<open>An acknowledgement of packets that were sent leaves the scoreboard in order behind it.\<close>

definition board_behind :: "int \<Rightarrow> scoreboard \<Rightarrow> 'ca sender \<Rightarrow> bool" where
  "board_behind ack sb s \<longleftrightarrow>
     board_ok (ack + 1) sb \<and> frontier (ack + 1) (sb_blocks sb) \<le> t_seqno s \<and> sb_fack sb < max 1 (t_seqno s)"

lemma sender_ok_board:
  "sender_ok s \<longleftrightarrow> - 1 \<le> highest_ack s \<and> highest_ack s < t_seqno s \<and> board_behind (highest_ack s) (scb s) s"
  by (simp add: sender_ok_def board_behind_def)

lemma update_scoreboard_ok:
  assumes ok: "sender_ok s" and p: "highest_ack s \<le> pk_seqno p" "pk_seqno p < t_seqno s"
    and sacks: "list_all (\<lambda>b. 0 \<le> fst b \<and> fst b < snd b \<and> fst b \<noteq> pk_seqno p \<and> snd b \<le> t_seqno s) (pk_sacks p)"
  shows "\<exists>flag sb. update_scoreboard p s = Some (flag, sb) \<and> board_behind (pk_seqno p) sb s"
proof (cases "pk_sacks p = [] \<and> sb_blocks (scb s) = []")
  case True
  then have "board_ok (pk_seqno p + 1) (scb s)" using ok by (simp add: sender_ok_def board_ok_def)
  then show ?thesis using True ok p by (auto simp: update_scoreboard_def board_behind_def sender_ok_def)
next
  case False
  have max: "max (highest_ack s) (pk_seqno p) = pk_seqno p" using p(1) by simp
  have board: "board_ok (highest_ack s + 1) (scb s)" "highest_ack s + 1 \<le> pk_seqno p + 1"
    using ok p by (simp_all add: sender_ok_def)
  have S: "\<forall>b \<in> set (pk_sacks p). fst b < snd b \<and> fst b \<noteq> pk_seqno p"
    using sacks by (auto simp: list_all_iff)
  obtain sb flag where sb: "UpdateScoreBoard (pk_seqno p) (pk_sacks p) 3 (scb s) = Some (sb, flag)" "board_ok (pk_seqno p + 1) sb"
    "frontier (pk_seqno p + 1) (sb_blocks sb) \<le>
       max (max (pk_seqno p + 1) (frontier (highest_ack s + 1) (sb_blocks (scb s)))) (sb_fack sb + 1)"
    "0 \<le> max 0 (t_seqno s - 1) \<and> sb_fack (scb s) \<le> max 0 (t_seqno s - 1) \<and>
       (\<forall>b \<in> set (pk_sacks p). snd b - 1 \<le> max 0 (t_seqno s - 1)) \<longrightarrow> sb_fack sb \<le> max 0 (t_seqno s - 1)"
    using UpdateScoreBoard_ok [OF board S, of 3 "max 0 (t_seqno s - 1)"] by metis
  have front: "frontier (highest_ack s + 1) (sb_blocks (scb s)) \<le> t_seqno s" "contig (highest_ack s + 1) (sb_blocks (scb s))"
    using ok by (simp_all add: sender_ok_def board_ok_def)
  have "0 < t_seqno s"
  proof (rule ccontr)
    assume "\<not> 0 < t_seqno s"
    moreover have "- 1 \<le> highest_ack s" "highest_ack s < t_seqno s" using ok by (simp_all add: sender_ok_def)
    ultimately have zero: "t_seqno s = 0" "highest_ack s + 1 = 0" by simp_all
    have "pk_sacks p = []" using sacks zero(1) by (cases "pk_sacks p") auto
    moreover have "sb_blocks (scb s) = []"
      using front frontier_ge [of _ "tl (sb_blocks (scb s))"] zero by (cases "sb_blocks (scb s)") fastforce+
    ultimately show False using False by simp
  qed
  moreover have "sb_fack sb \<le> max 0 (t_seqno s - 1)"
    using sb(4) ok sacks by (auto simp: sender_ok_def list_all_iff)
  ultimately have "board_behind (pk_seqno p) sb s" using sb(2,3) front(1) p(2) by (simp add: board_behind_def)
  then show ?thesis using sb(1) False by (auto simp: update_scoreboard_def max)
qed

subsection \<open>The settings\<close>

text \<open>Windows that fit an \<open>int\<close> and the cap of the module, a limit on the first threshold of at least 2 or none, and a positive packet
  size.\<close>

definition config_ok :: "u32 \<Rightarrow> config \<Rightarrow> bool" where
  "config_ok cap cf \<longleftrightarrow>
     1 \<le> cf_wnd_init cf \<and> cf_wnd_init cf \<le> uint cap \<and> 2 \<le> cf_wnd cf \<and> cf_wnd cf \<le> uint cap \<and>
     (cf_max_ssthresh cf \<le> 0 \<or> 2 \<le> cf_max_ssthresh cf) \<and> 0 < cf_size cf \<and> cf_size cf < 2 ^ 31"

lemma word_of_int_le:
  assumes "0 \<le> i" "i \<le> uint (cap :: u32)"
  shows "uint (word_of_int i :: u32) = i"
proof -
  have "i < 2 ^ 32" using assms(2) uint_lt2p [of cap] by simp
  then show ?thesis unfolding uint_word_of_int_eq using assms(1) by (subst take_bit_int_eq_self) simp_all
qed

lemma config_words:
  assumes "config_ok cap cf"
  shows "(word_of_int (cf_wnd_init cf) :: u32) \<noteq> 0" "(word_of_int (cf_wnd_init cf) :: u32) \<le> cap"
    "(word_of_int (cf_wnd cf) :: u32) \<noteq> 0" "(word_of_int (cf_wnd cf) :: u32) \<le> cap" "2 \<le> (word_of_int (cf_wnd cf) :: u32)"
    "(word_of_int (cf_size cf) :: u32) \<noteq> 0" "2 \<le> (word_of_int (reset_ssthresh cf) :: u32)" "(word_of_int (reset_ssthresh cf) :: u32) \<le> cap"
proof -
  have u: "uint (word_of_int (cf_wnd_init cf) :: u32) = cf_wnd_init cf" "uint (word_of_int (cf_wnd cf) :: u32) = cf_wnd cf"
    "uint (word_of_int (cf_size cf) :: u32) = cf_size cf" "uint (word_of_int (reset_ssthresh cf) :: u32) = reset_ssthresh cf"
    using assms word_of_int_le [of _ cap] word_of_int_le [of "cf_size cf" 2147483647] by (auto simp: config_ok_def reset_ssthresh_def)
  have t: "2 \<le> reset_ssthresh cf" "reset_ssthresh cf \<le> uint cap" using assms by (auto simp: config_ok_def reset_ssthresh_def)
  show "(word_of_int (cf_wnd_init cf) :: u32) \<noteq> 0" "(word_of_int (cf_wnd_init cf) :: u32) \<le> cap"
    "(word_of_int (cf_wnd cf) :: u32) \<noteq> 0" "(word_of_int (cf_wnd cf) :: u32) \<le> cap" "2 \<le> (word_of_int (cf_wnd cf) :: u32)"
    "(word_of_int (cf_size cf) :: u32) \<noteq> 0" "2 \<le> (word_of_int (reset_ssthresh cf) :: u32)" "(word_of_int (reset_ssthresh cf) :: u32) \<le> cap"
    using assms u t unfolding config_ok_def word_le_def uint_0_iff [symmetric] by (simp_all del: uint_0_iff add: u)
qed

lemma base_ok_load:
  assumes "base_ok cap (linux s)" "config_ok cap cf" "2 \<le> cap"
  shows "base_ok cap (linux (load_to_linux cf (slowdown_init cf (save_from_linux s)) s))"
proof -
  let ?x = "snd_ssthresh (linux s)"
  have x: "(word_of_int (if sint ?x < 2 then 2 else sint ?x) :: u32) = (if sint ?x < 2 then 2 else ?x)" by simp
  show ?thesis
    using assms config_words [OF assms(2)] 
    by (simp add: load_to_linux_def slowdown_init_def save_from_linux_def base_ok_def Let_def x)
qed

lemma load_to_linux_simps [simp]:
  "priv (load_to_linux cf w s) = priv s" "initialized (load_to_linux cf w s) = initialized s"
  "highest_ack (load_to_linux cf w s) = highest_ack s" "t_seqno (load_to_linux cf w s) = t_seqno s"
  "scb (load_to_linux cf w s) = scb s" "overhead (load_to_linux cf w s) = overhead s"
  "delsnd_pending (load_to_linux cf w s) = delsnd_pending s" "no_abort (load_to_linux cf w s) = no_abort s"
  by (simp_all add: load_to_linux_def Let_def no_abort_def split: prod.split)

lemma send_frame_linux:
  assumes "send_frame s s'"
  obtains x where "linux s' = (linux s)\<lparr>snd_nxt := x\<rparr>"
  using assms unfolding send_frame_def by blast

subsection \<open>What was sent\<close>

text \<open>Every packet below the next sequence number was sent at least once, and no other one.\<close>

definition sent_exactly :: "'ca sender \<Rightarrow> bool" where
  "sent_exactly s \<longleftrightarrow> set (packets_sent s) = {0..<t_seqno s}"

lemma sent_exactly_simps [simp]:
  "sent_exactly (set_agent_part s a) = sent_exactly s" "sent_exactly (s\<lparr>scb := sb\<rparr>) = sent_exactly s"
  "sent_exactly (load_to_linux cf w s) = sent_exactly s"
  by (simp_all add: sent_exactly_def set_agent_part_def load_to_linux_def Let_def split: prod.split)

lemma sends_sent_exactly:
  assumes "sender_ok s" "sent_exactly s" "sends rs s s'"
  shows "sent_exactly s'"
proof -
  have "contig (highest_ack s + 1) (sb_blocks (scb s))" using assms(1) by (simp add: sender_ok_def board_ok_def)
  from packets_range [OF this, of SKB_LOST] have "lost_packets s \<subseteq> {0..<t_seqno s}"
    using assms(1) by (auto simp: sender_ok_def)
  moreover have "set rs \<subseteq> lost_packets s" using assms(3) by (simp add: sends_def)
  ultimately have "set rs \<subseteq> {0..<t_seqno s}" by (rule order_trans [rotated])
  moreover have "0 \<le> t_seqno s" "t_seqno s \<le> t_seqno s'" using assms by (simp_all add: sender_ok_def sends_def)
  ultimately show ?thesis using assms(2,3) by (auto simp: sent_exactly_def sends_def)
qed

subsection \<open>Every run is total\<close>

context counted_module
begin

text \<open>The invariant of a connection.\<close>

definition conn_ok :: "nat \<Rightarrow> 'ca sender \<Rightarrow> bool" where
  "conn_ok n s \<longleftrightarrow> sender_ok s \<and> no_abort s \<and> \<not> overhead s \<and> \<not> delsnd_pending s \<and> sent_exactly s \<and> agent_ok n (agent_part s)"

lemma send_total:
  assumes "conn_ok n s"
  shows "\<exists>s'. send_much False maxburst s = Some s' \<and> conn_ok n s'"
proof -
  have s: "sender_ok s" "no_abort s" "\<not> overhead s \<or> False" "delsnd_pending s \<longrightarrow> False" "agent_ok n (agent_part s)"
    using assms by (simp_all add: conn_ok_def)
  obtain s' rs where s': "send_much False maxburst s = Some s'" "sends rs s s'"
    using send_much_ok [OF s(1-4)] by blast
  note frame = send_much_frame [OF s'(1)]
  obtain x where x: "linux s' = (linux s)\<lparr>snd_nxt := x\<rparr>" by (rule send_frame_linux [OF frame])
  have "base_ok cap (linux s') = base_ok cap (linux s)" by (simp add: x base_ok_def)
  then have "agent_ok n (agent_part s')" using s(5) frame by (simp add: agent_ok_def send_frame_def)
  moreover have "sender_ok s'" using s'(2) by (simp add: sends_def)
  moreover have "sent_exactly s'" using sends_sent_exactly [OF s(1) _ s'(2)] assms by (simp add: conn_ok_def)
  ultimately show ?thesis using s'(1) assms frame by (simp add: conn_ok_def send_frame_def no_abort_def)
qed

lemma advance_total:
  assumes "conn_ok n s"
  shows "\<exists>s'. advanceby maxburst k s = Some s' \<and> conn_ok n s'"
proof -
  have "conn_ok n (s\<lparr>curseq := curseq s + k\<rparr>)"
    using assms by (simp add: conn_ok_def sender_ok_def no_abort_def agent_ok_def sent_exactly_def)
  then show ?thesis unfolding advanceby_def by (rule send_total)
qed

lemma conn_agent:
  assumes "conn_ok n s" "agent_ok m a" "highest_ack a = highest_ack s"
  shows "conn_ok m (set_agent_part s a)"
  using assms by (simp add: conn_ok_def)

lemma timeout_total:
  assumes ok: "conn_ok n s" and cf: "config_ok cap cf"
  shows "\<exists>s'. timeout ops cf k s = Some s' \<and> conn_ok n s'"
proof (cases "highest_ack s = maxseq s \<and> \<not> cf_slow_start_restart cf")
  case True
  then show ?thesis using ok by (simp add: timeout_def)
next
  case False
  have agent: "agent_ok n (agent_part s)" using ok by (simp add: conn_ok_def)
  have send: "\<exists>s'. send_much False 0 (s1\<lparr>next_pkts_in_flight := 0, linux := (linux s1)\<lparr>bytes_acked := 0\<rparr>\<rparr>) = Some s' \<and> conn_ok n s'"
    if "conn_ok n s1" for s1
    by (rule send_total) (use that in \<open>simp add: conn_ok_def sender_ok_def no_abort_def agent_ok_def base_ok_def sent_exactly_def\<close>)
  show ?thesis
  proof (cases "highest_ack s = maxseq s \<and> cf_restart_bugfix cf")
    case True
    let ?s1 = "load_to_linux cf (slowdown_init cf (save_from_linux s)) s"
    have "base_ok cap (linux ?s1)" using agent cf cap_ok by (intro base_ok_load) (simp_all add: agent_ok_def)
    then have "conn_ok n ?s1" using ok by (simp add: conn_ok_def sender_ok_def agent_ok_def)
    from send [OF this] show ?thesis using False True by (simp add: timeout_def)
  next
    case no_restart: False
    obtain a where a: "enter_loss ops k (agent_part s) = Some a" "agent_ok n a" "highest_ack a = highest_ack s"
      using enter_loss_total [OF agent] enter_loss_ack by fastforce
    let ?s1 = "set_agent_part s a"
    have s1: "conn_ok n ?s1" using conn_agent [OF ok] a by blast
    have board: "board_ok (highest_ack s + 1) (scb s)" "frontier (highest_ack s + 1) (sb_blocks (scb s)) \<le> t_seqno s"
      "highest_ack s + 1 \<le> t_seqno s" using ok by (simp_all add: conn_ok_def sender_ok_def)
    obtain sb where sb: "MarkLoss (highest_ack s + 1) (t_seqno s) (scb s) = Some sb" "board_ok (highest_ack s + 1) sb"
      "frontier (highest_ack s + 1) (sb_blocks sb) \<le> t_seqno s" "sb_fack sb = sb_fack (scb s)"
      using MarkLoss_ok [OF board] MarkLoss_fack by fastforce
    have "conn_ok n (?s1\<lparr>scb := sb\<rparr>)"
      using s1 sb a(3) by (simp add: conn_ok_def sender_ok_def no_abort_def)
    from send [OF this] show ?thesis
      unfolding timeout_def on_agent_def if_not_P [OF False] if_not_P [OF no_restart] using a sb(1) by simp
  qed
qed

lemma fastretrans_alert_total:
  assumes ok: "conn_ok n s" and burst: "0 < tcp_max_burst k"
  shows "\<exists>s'. fastretrans_alert ops k flag s = Some s' \<and> conn_ok n s'"
proof -
  let ?s = "if recovery_done s then s\<lparr>scb := ClearScoreBoard (scb s)\<rparr> else s"
  have s: "conn_ok n ?s"
    using ok board_ok_clear by (auto simp: conn_ok_def sender_ok_def no_abort_def ClearScoreBoard_def)
  then have "0 \<le> in_flight ?s" "agent_ok n (agent_part ?s)" using in_flight_nonneg by (auto simp: conn_ok_def)
  then obtain a where a: "tcp_fastretrans_alert ops k (in_flight ?s) flag (agent_part ?s) = Some a" "agent_ok n a"
    using fastretrans_total burst by blast
  then have "conn_ok n (set_agent_part ?s a)" using fastretrans_ack by (intro conn_agent [OF s]) fastforce+
  then show ?thesis using a(1) by (simp add: fastretrans_alert_def on_agent_def Let_def)
qed

lemma on_agent_total:
  assumes "conn_ok n s" "\<exists>a. f (agent_part s) = Some a \<and> agent_ok m a \<and> Q a" "\<And>a. f (agent_part s) = Some a \<Longrightarrow> highest_ack a = highest_ack s"
  shows "\<exists>s'. on_agent f s = Some s' \<and> conn_ok m s' \<and> Q (agent_part s')"
proof -
  obtain a where "f (agent_part s) = Some a" "agent_ok m a" "Q a" using assms(2) by blast
  then show ?thesis using conn_agent [OF assms(1), of m a] assms(3) by (auto simp: on_agent_def)
qed

lemma congestion_control_total:
  assumes ok: "conn_ok n s" and init: "initialized s" "env i" "ack_seen i (linux s)" and burst: "0 < tcp_max_burst (in_kern i)"
  shows "\<exists>s'. congestion_control ops i s = Some s' \<and> conn_ok n s'"
proof -
  have agent: "agent_ok n (agent_part s)" using ok by (simp add: conn_ok_def)
  have call: "\<exists>s'. on_agent (tcp_cong_avoid_call ops i good) s = Some s' \<and> conn_ok n s'" for good
    using on_agent_total [OF ok, of "tcp_cong_avoid_call ops i good" n "\<lambda>_. True"]
      cong_avoid_call_total [OF agent _ init(2), of good] init cong_avoid_call_ack by fastforce
  obtain s0 s1 where "on_agent (tcp_cong_avoid_call ops i 0) s = Some s0" "conn_ok n s0"
    "on_agent (tcp_cong_avoid_call ops i 1) s = Some s1" "conn_ok n s1" using call by blast
  then show ?thesis
    using fastretrans_alert_total [OF _ burst] ok by (simp add: congestion_control_def)
qed

text \<open>\<open>recv\<close> on a packet that is possible.\<close>

lemma recv_conn_total:
  assumes ok: "conn_ok (Suc n) s" and p: "pkt_possible env p s"
  shows "\<exists>s'. recv ops maxburst p s = Some s' \<and> conn_ok n s'"
proof (cases "t_seqno s < pk_seqno p + 1 \<or> pk_seqno p < highest_ack s")
  case True
  then show ?thesis using ok agent_ok_Suc by (simp add: recv_def conn_ok_def)
next
  case False
  then have seq: "highest_ack s \<le> pk_seqno p" "pk_seqno p < t_seqno s" by simp_all
  have sender: "sender_ok s" using ok by (simp add: conn_ok_def)
  obtain flag sb where sb: "update_scoreboard p s = Some (flag, sb)" "board_behind (pk_seqno p) sb s"
    using update_scoreboard_ok [OF sender seq] p by (auto simp: pkt_possible_def)
  let ?i = "ack_of p flag s"
  have i: "env ?i" "0 < tcp_max_burst (in_kern ?i)" "in_highest_ack ?i = pk_seqno p"
    using p sb(1) seq by (simp_all add: pkt_possible_def ack_of_def Let_def)
  let ?s1 = "set_agent_part (s\<lparr>scb := sb\<rparr>) (ack_processing p ?i (agent_part s))"
  have "sender_ok ?s1" using sender sb(2) seq i(3) by (simp add: sender_ok_board board_behind_def)
  then have s1: "conn_ok (Suc n) ?s1"
    using ok by (simp add: conn_ok_def agent_ok_def ack_fields_def base_ok_def)
  have seen: "ack_seen ?i (linux (agent_part ?s1))" by (simp add: ack_seen_fields)
  have agent: "agent_ok (Suc n) (agent_part ?s1)" using s1 by (simp only: conn_ok_def)
  obtain s2 where s2: "on_agent (recv_samples ops ?i) ?s1 = Some s2" "conn_ok n s2" "initialized s2" "ack_seen ?i (linux s2)"
    using on_agent_total [OF s1, of "recv_samples ops ?i" n "\<lambda>a. initialized a \<and> ack_seen ?i (linux a)"]
      samples_total [OF agent i(1) seen] recv_samples_ack ack_seen_frame [OF seen] by fastforce
  obtain s3 where s3: "congestion_control ops ?i s2 = Some s3" "conn_ok n s3"
    using congestion_control_total [OF s2(2,3) i(1) s2(4) i(2)] by blast
  have "recv ops maxburst p s = send_much False maxburst s3"
    unfolding recv_def if_not_P [OF False] using sb(1) s2(1) s3(1) by (auto simp: on_agent_def Let_def)
  then show ?thesis using send_total [OF s3(2)] by simp
qed

lemma conn_step_total:
  assumes ok: "conn_ok (Suc m) s" and possible: "event_possible env e s" and cf: "config_ok cap cf"
  shows "\<exists>s1. conn_step ops cf e s = Some s1 \<and> conn_ok m s1"
proof -
  have "conn_ok m s" using ok agent_ok_Suc by (simp add: conn_ok_def)
  then show ?thesis
    using ok possible recv_conn_total timeout_total [OF _ cf] advance_total by (cases e) simp_all
qed

text \<open>Every run of possible events ends in a sound connection.\<close>

theorem conn_run_total:
  assumes "conn_ok (length es + n) s" "run_possible ops cf env es s" "config_ok cap cf"
  shows "\<exists>s'. conn_run ops cf es s = Some s' \<and> conn_ok n s'"
  using assms(1,2)
proof (induction es arbitrary: s)
  case (Cons e es)
  have "conn_ok (Suc (length es + n)) s" "event_possible env e s" using Cons.prems by simp_all
  then obtain s1 where "conn_step ops cf e s = Some s1" "conn_ok (length es + n) s1"
    using conn_step_total assms(3) by blast
  then show ?case using Cons by simp
qed simp

end

subsection \<open>The start of a connection\<close>

lemma reset_sound:
  assumes "config_ok cap cf" "2 \<le> cap"
  shows "sender_ok (reset cf (new_sender tp ca))" "no_abort (reset cf (new_sender tp ca))"
    "\<not> overhead (reset cf (new_sender tp ca))" "\<not> delsnd_pending (reset cf (new_sender tp ca))"
    "base_ok cap (linux (reset cf (new_sender tp ca)))" "priv (reset cf (new_sender tp ca)) = ca"
    "\<not> initialized (reset cf (new_sender tp ca))" "sent_exactly (reset cf (new_sender tp ca))"
  using config_words [OF assms(1)] assms(2) order_trans [of 1 2 cap]
  by (simp_all add: reset_def new_sender_def set_initial_window_def Let_def load_to_linux_once_def sender_ok_def no_abort_def board_ok_clear
      load_to_linux_def base_ok_def sent_exactly_def) (simp_all add: ClearScoreBoard_def)

lemma run_possible_mono:
  "run_possible ops cf env es s \<Longrightarrow> (\<And>i. env i \<Longrightarrow> env' i) \<Longrightarrow> run_possible ops cf env' es s"
proof (induction es arbitrary: s)
  case (Cons e es)
  then show ?case
    by (cases e) (auto simp: pkt_possible_def split: option.splits)
qed simp

text \<open>The verdict on a run of a connection from its construction.\<close>

definition connection_sound ::
  "'ca tcp_congestion_ops \<Rightarrow> u32 \<Rightarrow> (ack_in \<Rightarrow> bool) \<Rightarrow> config \<Rightarrow> conn_event list \<Rightarrow> tcp_sock \<Rightarrow> 'ca \<Rightarrow> bool" where
  "connection_sound ops cap env cf es tp ca =
     (let s0 = reset cf (new_sender tp ca) in
      run_possible ops cf env es s0 \<longrightarrow>
      (case conn_run ops cf es s0 of None \<Rightarrow> False
       | Some s \<Rightarrow> sender_ok s \<and> 0 \<le> in_flight s \<and> sent_exactly s \<and> base_ok cap (linux s)))"

context counted_module
begin

lemma connection_total:
  assumes cf: "config_ok cap cf" and inv: "inv (length es) False ca" and env: "\<And>i. env' i \<Longrightarrow> env i"
  shows "connection_sound ops cap env' cf es tp ca"
proof -
  let ?s0 = "reset cf (new_sender tp ca)"
  note s0 = reset_sound [OF cf cap_ok, of tp ca]
  have start: "conn_ok (length es + 0) ?s0"
    using s0 inv by (simp add: conn_ok_def agent_ok_def)
  have "\<exists>s. conn_run ops cf es ?s0 = Some s \<and> conn_ok 0 s" if "run_possible ops cf env' es ?s0"
    using conn_run_total [OF start run_possible_mono [OF that env] cf] .
  then show ?thesis
    by (auto simp: connection_sound_def Let_def conn_ok_def agent_ok_def in_flight_nonneg split: option.split)
qed

end

subsection \<open>Properties\<close>


text \<open>A sender with packets 5 to 10 outstanding, of which 7 and 8 were acknowledged selectively.\<close>

definition waiting_sender :: "unit sender" where
  "waiting_sender =
     \<lparr>linux = example_sock 2, priv = (), initialized = True, next_pkts_in_flight = 0, recover = 0, highest_ack = 4, maxseq = 10,
      scb = timeout_board, t_seqno = 11, curseq = 20, delsnd_pending = False, burstsnd_pending = False, overhead = False,
      syn = True, max_connects = - 1, syn_connects = 0, nrexmitpack = 0, packets_sent = [0..10]\<rparr>"

definition example_config :: config where
  "example_config =
     \<lparr>cf_wnd = 20, cf_wnd_init = 2, cf_delay_growth = False, cf_max_ssthresh = 0, cf_size = 1000, cf_maxburst = 0, cf_slow_start_restart = True, cf_restart_bugfix = True\<rparr>"

lemma waiting_sender_ok: "sender_ok waiting_sender" "no_abort waiting_sender"
  by (simp_all add: sender_ok_def no_abort_def waiting_sender_def timeout_board_def board_ok_def get_end_def get_length_def)


text \<open>
  With a random send overhead, the timer of a delayed send undoes the reduction of the window. While the rate is being halved, the
  agent keeps the window before the loss in \<open>next_pkts_in_flight_\<close>, which \<open>save_from_linux\<close> takes for the window; the sending
  in between lowers it, and \<open>load_to_linux\<close> then stores the saved value as the window, although no acknowledgement has come.
\<close>

theorem delsnd_undoes_halving:
  assumes ok: "sender_ok s" "no_abort s" and halving: "in_flight s < window s" "window s < next_pkts_in_flight s"
    and range: "0 \<le> next_pkts_in_flight s" "next_pkts_in_flight s < 2 ^ 31"
  shows "\<exists>s'. timeout_delsnd cf s = Some s' \<and> window s' = next_pkts_in_flight s \<and> window s < window s' \<and>
    highest_ack s' = highest_ack s"
proof -
  let ?s0 = "s\<lparr>delsnd_pending := False\<rparr>"
  have s0: "sender_ok ?s0" "no_abort ?s0" "\<not> overhead ?s0 \<or> True" "delsnd_pending ?s0 \<longrightarrow> True" "in_flight ?s0 = in_flight s"
    using ok by (simp_all add: sender_ok_def no_abort_def in_flight_def)
  obtain s1 where s1: "send_much True (cf_maxburst cf) ?s0 = Some s1" using send_much_ok [OF s0(1-4)] by blast
  have low: "next_pkts_in_flight s1 \<le> in_flight s + 1" using send_much_next [OF s1] s0(5) by simp
  have frame: "send_frame ?s0 s1" by (rule send_much_frame [OF s1])
  obtain x where "linux s1 = (linux s)\<lparr>snd_nxt := x\<rparr>" using send_frame_linux [OF frame] by auto
  then have keep: "snd_cwnd (linux s1) = snd_cwnd (linux s)" "highest_ack s1 = highest_ack s"
    using frame by (simp_all add: send_frame_def)
  have "sint (word_of_int (next_pkts_in_flight s) :: u32) = next_pkts_in_flight s"
    using range by (simp add: int_word_sint)
  then show ?thesis
    using s1 low keep halving by (auto simp: timeout_delsnd_def save_from_linux_def load_to_linux_def Let_def window_def)
qed

theorem delsnd_undoes_halving_witness:
  "\<exists>s'. timeout_delsnd example_config (waiting_sender\<lparr>t_seqno := 9, next_pkts_in_flight := 8, delsnd_pending := True\<rparr>) = Some s' \<and>
     window s' = 8"
proof -
  let ?s = "waiting_sender\<lparr>t_seqno := 9, next_pkts_in_flight := 8, delsnd_pending := True\<rparr>"
  have "sender_ok ?s" "no_abort ?s" "in_flight ?s < window ?s" "window ?s < next_pkts_in_flight ?s"
    by (simp_all add: sender_ok_def no_abort_def waiting_sender_def timeout_board_def board_ok_def get_end_def get_length_def
        in_flight_def packets_in_flight_def window_def)
  from delsnd_undoes_halving [OF this, of example_config] show ?thesis by auto
qed

text \<open>A connection that sends its first two packets, and the acknowledgement of the first.\<close>

definition example_packet :: ack_pkt where
  "example_packet =
     \<lparr>pk_seqno = 0, pk_sacks = [], pk_ecnecho = False, pk_kern = example_kern, pk_seq_rtt = 100, pk_last_ackt = 4900000000,
      pk_usrtt = Some 100000, pk_srtt = 800, pk_rx_opt = \<lparr>rcv_tsval = 5000, rcv_tsecr = 4900, saw_tstamp = True\<rparr>\<rparr>"

definition example_start :: "unit sender" where
  "example_start = reset example_config (new_sender (example_sock 2) ())"

lemmas send_eval = in_flight_def packets_in_flight_def window_def choose_packet_def GetNextRetran_def send_packet_def
  output_packet_def Let_def

lemma first_flight:
  assumes "advanceby 0 3 example_start = Some s"
  shows "highest_ack s = - 1 \<and> scb s = empty_board \<and> t_seqno s = 2 \<and> packets_sent s = [0, 1]"
  using assms
  apply (simp add: example_start_def advanceby_def reset_def set_initial_window_def reset_ssthresh_def example_config_def new_sender_def fresh_agent_def example_sock_def
      load_to_linux_def load_to_linux_once_def Let_def empty_board_def ClearScoreBoard_def)
  apply (simp add: send_much_def in_flight_def packets_in_flight_def)
  apply (subst (asm) send_loop.simps, simp add: send_eval)
  apply (subst (asm) send_loop.simps, simp add: send_eval)
  apply (subst (asm) send_loop.simps, simp add: send_eval)
  by auto

end
