(* ===== verification/Acker.thy ===== *)
theory Acker
  imports Complex_Main Prelude
begin

unbundle bit_operations_syntax

section \<open>The receive window of a sink (\<open>tcp/tcp-sink.cc\<close>)\<close>

text \<open>
  \<open>Acker\<close> is the part of a TCP receiver that knows which packets have come. It keeps the sizes of the packets beyond the next
  expected one in a ring buffer \<open>seen_\<close> of a power-of-two size, indexed by the packet number masked with the size, and doubles the buffer
  when a packet is too far ahead. The abstract state is the function that gives the size of every packet that was
  received, and 0 for the others.
\<close>

subsection \<open>State\<close>

record acker =
  rcv_next :: int
  maxseen :: int
  wndmask :: int
  ecn_unacked :: bool
  seen :: "int list"
  ts_to_echo :: real
  is_dup :: bool
  last_ack_sent :: int

text \<open>The place of a packet in the buffer.\<close>

definition ring_ix :: "int \<Rightarrow> int \<Rightarrow> nat" where
  "ring_ix m i = nat (i AND m)"

definition new_acker :: acker where
  "new_acker =
     \<lparr>rcv_next = 0, maxseen = 0, wndmask = 63, ecn_unacked = False, seen = replicate 64 0, ts_to_echo = 0,
      is_dup = False, last_ack_sent = 0\<rparr>"

definition acker_reset :: "acker \<Rightarrow> acker" where
  "acker_reset a = a\<lparr>rcv_next := 0, maxseen := 0, seen := replicate (nat (wndmask a + 1)) 0\<rparr>"

definition Seqno :: "acker \<Rightarrow> int" where
  "Seqno a = rcv_next a - 1"

text \<open>Entries written one after the other.\<close>

definition fill :: "int \<Rightarrow> (int \<Rightarrow> int) \<Rightarrow> int list \<Rightarrow> int list \<Rightarrow> int list" where
  "fill m f is xs = fold (\<lambda>i xs. xs[ring_ix m i := f i]) is xs"

definition resize_buffers :: "int \<Rightarrow> acker \<Rightarrow> acker" where
  "resize_buffers sz a =
     (let new_wndmask = sz - 1;
          new_seen = fill new_wndmask (\<lambda>i. seen a ! ring_ix (wndmask a) i) [rcv_next a..maxseen a + 1] (replicate (nat sz) 0)
      in a\<lparr>seen := new_seen, wndmask := new_wndmask\<rparr>)"

definition update_ts :: "int \<Rightarrow> real \<Rightarrow> bool \<Rightarrow> acker \<Rightarrow> acker" where
  "update_ts seqno ts rfc1323 a =
     (if rfc1323 \<and> seqno = last_ack_sent a + 1 then a\<lparr>ts_to_echo := ts\<rparr>
      else if ts_to_echo a \<le> ts \<and> seqno \<le> last_ack_sent a + 1 then a\<lparr>ts_to_echo := ts\<rparr>
      else a)"

definition update_ecn_unacked :: "bool \<Rightarrow> acker \<Rightarrow> acker" where
  "update_ecn_unacked v a = a\<lparr>ecn_unacked := v\<rparr>"

subsection \<open>A packet arrives\<close>

partial_function (option) grow :: "int \<Rightarrow> acker \<Rightarrow> acker option" where
  "grow seq a =
     (if wndmask a \<le> seq + 1 - rcv_next a then grow seq (resize_buffers ((wndmask a + 1) * 2) a) else Some a)"

text \<open>The packet is the highest one so far: the packets in between are marked as missing, and so is the one behind it.\<close>

definition mark_highest :: "int \<Rightarrow> int \<Rightarrow> acker \<Rightarrow> acker" where
  "mark_highest seq numBytes a =
     (let xs = fill (wndmask a) (\<lambda>_. 0) [maxseen a + 1..seq - 1] (seen a);
          xs = xs[ring_ix (wndmask a) seq := numBytes];
          xs = xs[ring_ix (wndmask a) (seq + 1) := 0]
      in a\<lparr>maxseen := seq, seen := xs\<rparr>)"

text \<open>The packets that can be handed to the application.\<close>

partial_function (option) deliver :: "int \<Rightarrow> int list \<Rightarrow> int \<Rightarrow> int \<Rightarrow> (int \<times> int) option" where
  "deliver m xs nxt num =
     (if xs ! ring_ix m nxt \<noteq> 0 then deliver m xs (nxt + 1) (num + xs ! ring_ix m nxt) else Some (num, nxt))"

text \<open>The packet falls into the window.\<close>

definition record_packet :: "bool \<Rightarrow> int \<Rightarrow> int \<Rightarrow> acker \<Rightarrow> acker" where
  "record_packet just_marked seq numBytes a =
     (let a = (if seen a ! ring_ix (wndmask a) seq \<noteq> 0 \<and> \<not> just_marked then a\<lparr>is_dup := True\<rparr> else a)
      in a\<lparr>seen := (seen a)[ring_ix (wndmask a) seq := numBytes]\<rparr>)"

definition acker_update :: "int \<Rightarrow> int \<Rightarrow> acker \<Rightarrow> (int \<times> acker) option" where
  "acker_update seq numBytes a = do {
     a \<leftarrow> grow seq (a\<lparr>is_dup := False\<rparr>);
     let just_marked = maxseen a < seq;
     let a = (if just_marked then mark_highest seq numBytes a else a);
     let a = (if seq < rcv_next a then a\<lparr>is_dup := True\<rparr> else a);
     if rcv_next a \<le> seq \<and> seq \<le> maxseen a
     then do {
       let a = record_packet just_marked seq numBytes a;
       (num, nxt) \<leftarrow> deliver (wndmask a) (seen a) (rcv_next a) 0;
       Some (num, a\<lparr>rcv_next := nxt\<rparr>)
     }
     else Some (0, a)
   }"

subsection \<open>The ring\<close>

lemma ring_ix_mod: "ring_ix (2 ^ k - 1) i = nat (i mod 2 ^ k)"
proof -
  have "(2 ^ k - 1 :: int) = mask k" by (simp add: mask_eq_exp_minus_1)
  then show ?thesis by (simp add: ring_ix_def flip: take_bit_eq_mask take_bit_eq_mod)
qed

lemma ring_ix_less: "ring_ix (2 ^ k - 1) i < 2 ^ k"
proof -
  have "i mod 2 ^ k < (2 ^ k :: int)" "0 \<le> i mod (2 ^ k :: int)" by simp_all
  then show ?thesis by (simp add: ring_ix_mod nat_less_iff)
qed

text \<open>Two packets less than the size apart have different places.\<close>

lemma ring_ix_inj:
  assumes "ring_ix (2 ^ k - 1) i = ring_ix (2 ^ k - 1) j" "lo \<le> i" "i < lo + 2 ^ k" "lo \<le> j" "j < lo + 2 ^ k"
  shows "i = j"
proof -
  have "i mod 2 ^ k = j mod (2 ^ k :: int)" using assms(1) by (simp add: ring_ix_mod eq_nat_nat_iff)
  then have "(i - lo) mod 2 ^ k = (j - lo) mod (2 ^ k :: int)" by (rule mod_diff_cong) simp
  then have "i - lo = j - lo" using assms(2-5) by (simp add: mod_pos_pos_trivial)
  then show ?thesis by simp
qed

lemma length_fill [simp]: "length (fill m f is xs) = length xs"
  unfolding fill_def by (induction "is" arbitrary: xs) auto

lemma fill_nth:
  assumes "length xs = 2 ^ k" "\<forall>i \<in> set is. lo \<le> i \<and> i < lo + 2 ^ k" "lo \<le> j" "j < lo + 2 ^ k"
  shows "fill (2 ^ k - 1) f is xs ! ring_ix (2 ^ k - 1) j = (if j \<in> set is then f j else xs ! ring_ix (2 ^ k - 1) j)"
  using assms
proof (induction "is" arbitrary: xs)
  case (Cons i "is")
  have "(xs[ring_ix (2 ^ k - 1) i := f i]) ! ring_ix (2 ^ k - 1) j =
      (if i = j then f j else xs ! ring_ix (2 ^ k - 1) j)"
    using Cons.prems ring_ix_less [of k i] ring_ix_inj [of k i j lo] by (auto simp: nth_list_update)
  then show ?case
    using Cons.IH [of "xs[ring_ix (2 ^ k - 1) i := f i]"] Cons.prems by (auto simp: fill_def)
qed (simp add: fill_def)

text \<open>The receive window holds the packets \<open>b\<close>: everything below the next expected packet has come, that one has not, and the
  buffer is right from there to behind the highest packet.\<close>

definition window_holds :: "(int \<Rightarrow> int) \<Rightarrow> acker \<Rightarrow> bool" where
  "window_holds b a \<longleftrightarrow>
     (\<forall>i. rcv_next a \<le> i \<and> i \<le> maxseen a + 1 \<longrightarrow> seen a ! ring_ix (wndmask a) i = b i)"

definition ring_ok :: "(int \<Rightarrow> int) \<Rightarrow> acker \<Rightarrow> bool" where
  "ring_ok b a \<longleftrightarrow>
     (\<exists>k. wndmask a = 2 ^ k - 1 \<and> length (seen a) = 2 ^ k) \<and> 63 \<le> wndmask a \<and>
     0 \<le> rcv_next a \<and> rcv_next a \<le> maxseen a + 1 \<and> maxseen a + 1 - rcv_next a < wndmask a \<and>
     (\<forall>i. b i \<noteq> 0 \<longrightarrow> 0 \<le> i \<and> i \<le> maxseen a) \<and> (\<forall>i. 0 \<le> i \<and> i < rcv_next a \<longrightarrow> b i \<noteq> 0) \<and> b (rcv_next a) = 0 \<and>
     window_holds b a"

lemma ring_okD:
  assumes "ring_ok b a"
  shows "0 \<le> rcv_next a" "rcv_next a \<le> maxseen a + 1" "\<And>i. b i \<noteq> 0 \<Longrightarrow> 0 \<le> i \<and> i \<le> maxseen a"
    "\<And>i. 0 \<le> i \<Longrightarrow> i < rcv_next a \<Longrightarrow> b i \<noteq> 0" "b (rcv_next a) = 0"
    "\<And>i. rcv_next a \<le> i \<Longrightarrow> i \<le> maxseen a + 1 \<Longrightarrow> seen a ! ring_ix (wndmask a) i = b i"
  using assms unfolding ring_ok_def window_holds_def by blast+

lemma ring_ok_new: "ring_ok (\<lambda>_. 0) new_acker"
proof -
  have "(63 :: int) = 2 ^ 6 - 1" "64 = (2 :: nat) ^ 6" by simp_all
  moreover have "replicate 64 0 ! ring_ix 63 i = (0 :: int)" for i
    using ring_ix_less [of 6 i] by simp
  ultimately show ?thesis
    unfolding ring_ok_def new_acker_def window_holds_def by (auto intro!: exI [of _ 6])
qed

lemma ring_ok_resize:
  assumes ok: "ring_ok b a"
  shows "ring_ok b (resize_buffers ((wndmask a + 1) * 2) a)"
proof -
  obtain k where k: "wndmask a = 2 ^ k - 1" "length (seen a) = 2 ^ k" using ok unfolding ring_ok_def by blast
  have win: "maxseen a + 1 - rcv_next a < 2 ^ k - 1" using ok by (simp add: ring_ok_def k)
  have size: "(wndmask a + 1) * 2 = 2 ^ Suc k" by (simp add: k)
  have wide: "maxseen a + 1 - rcv_next a < 2 ^ Suc k - 1"
    using win power_increasing [of k "Suc k" "2 :: int"] by linarith
  have "63 \<le> (2 ^ k - 1 :: int)" using ok k by (simp add: ring_ok_def)
  then have big: "63 \<le> (2 ^ Suc k - 1 :: int)" using power_increasing [of k "Suc k" "2 :: int"] by linarith
  have "fill (2 ^ Suc k - 1) (\<lambda>i. seen a ! ring_ix (wndmask a) i) [rcv_next a..maxseen a + 1] (replicate (nat (2 ^ Suc k)) 0) !
      ring_ix (2 ^ Suc k - 1) i = seen a ! ring_ix (wndmask a) i"
    if "rcv_next a \<le> i" "i \<le> maxseen a + 1" for i
    using that wide by (subst fill_nth [where lo = "rcv_next a"]) (auto simp: nat_power_eq simp del: power_Suc)
  then have "window_holds b (resize_buffers ((wndmask a + 1) * 2) a)"
    using ok unfolding size by (simp add: ring_ok_def window_holds_def resize_buffers_def Let_def del: power_Suc)
  then show ?thesis
    using ok wide big unfolding ring_ok_def size
    by (auto simp: resize_buffers_def Let_def nat_power_eq k simp del: power_Suc intro!: exI [of _ "Suc k"])
qed

lemma ring_ok_is_dup [simp]: "ring_ok b (a\<lparr>is_dup := d\<rparr>) = ring_ok b a"
  by (simp add: ring_ok_def window_holds_def)

text \<open>Growing the buffer ends, as its size doubles.\<close>

lemma grow_ok:
  assumes "ring_ok b a"
  shows "\<exists>a'. grow seq a = Some a' \<and> ring_ok b a' \<and> seq + 1 - rcv_next a' < wndmask a' \<and> rcv_next a' = rcv_next a \<and>
    maxseen a' = maxseen a \<and> is_dup a' = is_dup a"
  using assms
proof (induction "nat (seq + 1 - rcv_next a - wndmask a)" arbitrary: a rule: less_induct)
  case less
  show ?case
  proof (cases "wndmask a \<le> seq + 1 - rcv_next a")
    case False
    then show ?thesis using less.prems by (subst grow.simps) simp
  next
    case True
    let ?a = "resize_buffers ((wndmask a + 1) * 2) a"
    have same: "rcv_next ?a = rcv_next a" "maxseen ?a = maxseen a" "is_dup ?a = is_dup a" "wndmask ?a = 2 * wndmask a + 1"
      by (simp_all add: resize_buffers_def Let_def)
    have "0 \<le> wndmask a" using less.prems by (auto simp: ring_ok_def)
    show ?thesis
    proof (cases "wndmask a < seq + 1 - rcv_next a")
      case True
      have "nat (seq + 1 - rcv_next ?a - wndmask ?a) < nat (seq + 1 - rcv_next a - wndmask a)"
        unfolding same using True \<open>0 \<le> wndmask a\<close> by simp
      from less.hyps [OF this ring_ok_resize [OF less.prems]] show ?thesis
        using True same by (subst grow.simps) simp
    next
      case False
      then have "grow seq a = grow seq ?a" using True by (subst grow.simps) simp
      also have "\<dots> = Some ?a" using True False \<open>0 \<le> wndmask a\<close> same by (subst grow.simps) simp
      finally show ?thesis using True False same ring_ok_resize [OF less.prems] \<open>0 \<le> wndmask a\<close> by simp
    qed
  qed
qed

lemma deliver_ok:
  assumes "\<forall>i. nxt \<le> i \<and> i \<le> hi \<longrightarrow> xs ! ring_ix m i = b i" "b hi = 0" "nxt \<le> hi"
  shows "\<exists>nxt'. deliver m xs nxt num = Some (num + (\<Sum>i\<in>{nxt..<nxt'}. b i), nxt') \<and> nxt \<le> nxt' \<and> nxt' \<le> hi \<and>
    b nxt' = 0 \<and> (\<forall>i. nxt \<le> i \<and> i < nxt' \<longrightarrow> b i \<noteq> 0)"
  using assms
proof (induction "nat (hi - nxt)" arbitrary: nxt num rule: less_induct)
  case less
  have here: "xs ! ring_ix m nxt = b nxt" using less.prems(1,3) by simp
  show ?case
  proof (cases "b nxt = 0")
    case True
    then show ?thesis using less.prems here by (intro exI [of _ nxt], subst deliver.simps) auto
  next
    case False
    then have "nxt + 1 \<le> hi" using less.prems(2,3) by (cases "nxt = hi") auto
    moreover from this have "nat (hi - (nxt + 1)) < nat (hi - nxt)" by simp
    ultimately obtain nxt' where nxt': "deliver m xs (nxt + 1) (num + b nxt) = Some (num + b nxt + (\<Sum>i\<in>{nxt + 1..<nxt'}. b i), nxt')"
      "nxt + 1 \<le> nxt'" "nxt' \<le> hi" "b nxt' = 0" "\<forall>i. nxt + 1 \<le> i \<and> i < nxt' \<longrightarrow> b i \<noteq> 0"
      using less.hyps [of "nxt + 1" "num + b nxt"] less.prems by auto
    have "{nxt..<nxt'} = insert nxt {nxt + 1..<nxt'}" using nxt'(2) by auto
    then have "(\<Sum>i\<in>{nxt..<nxt'}. b i) = b nxt + (\<Sum>i\<in>{nxt + 1..<nxt'}. b i)" by simp
    moreover have "deliver m xs nxt num = deliver m xs (nxt + 1) (num + b nxt)"
      using False here by (subst deliver.simps) simp
    moreover have "\<forall>i. nxt \<le> i \<and> i < nxt' \<longrightarrow> b i \<noteq> 0" using nxt'(5) False by (metis zless_imp_add1_zle order_le_less)
    ultimately show ?thesis using nxt' by (intro exI [of _ nxt']) (simp add: algebra_simps)
  qed
qed

text \<open>A ring that is right for \<open>b\<close> is right for \<open>b(j := v)\<close> after the entry of \<open>j\<close> is written.\<close>

lemma window_write:
  assumes "wndmask a = 2 ^ k - 1" "length (seen a) = 2 ^ k" "maxseen a + 1 - rcv_next a < 2 ^ k" "window_holds b a"
    and "rcv_next a \<le> j" "j \<le> maxseen a + 1"
  shows "window_holds (b(j := v)) (a\<lparr>seen := (seen a)[ring_ix (wndmask a) j := v]\<rparr>)"
  unfolding window_holds_def
proof (intro allI impI)
  fix i assume i: "rcv_next (a\<lparr>seen := (seen a)[ring_ix (wndmask a) j := v]\<rparr>) \<le> i \<and>
    i \<le> maxseen (a\<lparr>seen := (seen a)[ring_ix (wndmask a) j := v]\<rparr>) + 1"
  then have "ring_ix (2 ^ k - 1) i = ring_ix (2 ^ k - 1) j \<longleftrightarrow> i = j"
    using assms ring_ix_inj [of k i j "rcv_next a"] by auto
  then show "seen (a\<lparr>seen := (seen a)[ring_ix (wndmask a) j := v]\<rparr>) !
      ring_ix (wndmask (a\<lparr>seen := (seen a)[ring_ix (wndmask a) j := v]\<rparr>)) i = (b(j := v)) i"
    using assms i ring_ix_less [of k j] by (auto simp: nth_list_update window_holds_def)
qed

lemma mark_highest_ok:
  assumes ok: "ring_ok b a" and high: "maxseen a < seq" "seq + 1 - rcv_next a < wndmask a" "n \<noteq> 0"
  shows "window_holds (b(seq := n)) (mark_highest seq n a)"
proof -
  obtain k where k: "wndmask a = 2 ^ k - 1" "length (seen a) = 2 ^ k" using ok unfolding ring_ok_def by blast
  have a: "rcv_next a \<le> maxseen a + 1" "window_holds b a" "\<forall>i. maxseen a < i \<longrightarrow> b i = 0"
    using ok by (auto simp: ring_ok_def)
  define a1 where "a1 = a\<lparr>maxseen := seq, seen := fill (wndmask a) (\<lambda>_. 0) [maxseen a + 1..seq - 1] (seen a)\<rparr>"
  have a1: "wndmask a1 = 2 ^ k - 1" "length (seen a1) = 2 ^ k" "maxseen a1 = seq" "rcv_next a1 = rcv_next a"
    by (simp_all add: a1_def k)
  have old: "seen a1 ! ring_ix (wndmask a1) i = b i" if "rcv_next a \<le> i" "i < seq" for i
  proof -
    have "seen a1 ! ring_ix (wndmask a1) i =
        (if i \<in> set [maxseen a + 1..seq - 1] then 0 else seen a ! ring_ix (2 ^ k - 1) i)"
      using that a(1) high(2) k fill_nth [of "seen a" k "[maxseen a + 1..seq - 1]" "rcv_next a" i "\<lambda>_. 0"]
      by (simp add: a1_def)
    then show ?thesis using that a(2,3) high(1) by (auto simp: window_holds_def k)
  qed
  let ?a2 = "a1\<lparr>seen := (seen a1)[ring_ix (wndmask a1) seq := n]\<rparr>"
  have eq: "mark_highest seq n a = ?a2\<lparr>seen := (seen ?a2)[ring_ix (wndmask ?a2) (seq + 1) := 0]\<rparr>"
    by (simp add: mark_highest_def a1_def)
  show ?thesis
    unfolding window_holds_def
  proof (intro allI impI)
    fix i assume "rcv_next (mark_highest seq n a) \<le> i \<and> i \<le> maxseen (mark_highest seq n a) + 1"
    then have i: "rcv_next a \<le> i" "i \<le> seq + 1" by (simp_all add: mark_highest_def Let_def)
    have inj: "ring_ix (2 ^ k - 1) j = ring_ix (2 ^ k - 1) i \<longleftrightarrow> i = j" if "j = seq \<or> j = seq + 1" for j
    proof
      assume "ring_ix (2 ^ k - 1) j = ring_ix (2 ^ k - 1) i"
      from this [symmetric] show "i = j"
        by (rule ring_ix_inj [where lo = "rcv_next a"]) (use that i a(1) high(1,2) k(1) in \<open>auto\<close>)
    qed simp
    have "seen (mark_highest seq n a) ! ring_ix (2 ^ k - 1) i =
        (if i = seq + 1 then 0 else if i = seq then n else seen a1 ! ring_ix (2 ^ k - 1) i)"
      by (simp add: eq a1(1,2) nth_list_update ring_ix_less inj)
    then show "seen (mark_highest seq n a) ! ring_ix (wndmask (mark_highest seq n a)) i = (b(seq := n)) i"
      using old [of i] i a(3) high(1) a1(1) k by (auto simp: mark_highest_def Let_def)
  qed
qed

text \<open>The arrival of a packet.\<close>

lemma acker_update_ok:
  assumes ok: "ring_ok b a" and seq: "0 \<le> seq" "n \<noteq> 0"
  shows "\<exists>a' d. acker_update seq n a = Some (d, a') \<and> ring_ok (b(seq := n)) a' \<and> is_dup a' = (b seq \<noteq> 0) \<and>
    maxseen a' = max (maxseen a) seq \<and> rcv_next a \<le> rcv_next a' \<and> (rcv_next a < rcv_next a' \<longrightarrow> seq = rcv_next a) \<and>
    d = (\<Sum>i\<in>{rcv_next a..<rcv_next a'}. (b(seq := n)) i) \<and>
    (\<forall>i. rcv_next a \<le> i \<and> i \<le> maxseen a' + 1 \<longrightarrow> seen a' ! ring_ix (wndmask a') i = (b(seq := n)) i)"
proof -
  obtain a1 where a1: "grow seq (a\<lparr>is_dup := False\<rparr>) = Some a1" "ring_ok b a1" "seq + 1 - rcv_next a1 < wndmask a1"
    "rcv_next a1 = rcv_next a" "maxseen a1 = maxseen a" "is_dup a1 = False"
    using grow_ok [of b "a\<lparr>is_dup := False\<rparr>" seq] ok by auto
  obtain k where k: "wndmask a1 = 2 ^ k - 1" "length (seen a1) = 2 ^ k" using a1(2) unfolding ring_ok_def by blast
  note r = a1(2) [unfolded ring_ok_def]
  show ?thesis
  proof (cases "seq < rcv_next a")
    case True
    then have "\<not> maxseen a1 < seq" using r a1(4) by simp
    then have "acker_update seq n a = Some (0, a1\<lparr>is_dup := True\<rparr>)"
      using a1(1,4) True by (simp add: acker_update_def)
    moreover have "b seq \<noteq> 0" using r a1(4) True seq(1) by simp
    moreover have "ring_ok (b(seq := n)) (a1\<lparr>is_dup := True\<rparr>)"
      using a1(2,4) True seq \<open>b seq \<noteq> 0\<close> by (auto simp: ring_ok_def window_holds_def)
    moreover have "\<forall>i. rcv_next a \<le> i \<and> i \<le> maxseen a1 + 1 \<longrightarrow> seen a1 ! ring_ix (wndmask a1) i = (b(seq := n)) i"
      using r True a1(4) by (simp add: window_holds_def)
    ultimately show ?thesis using True a1(4,5) r by (intro exI [of _ "a1\<lparr>is_dup := True\<rparr>"] exI [of _ 0]) auto
  next
    case False
    define a2 where "a2 = (if maxseen a1 < seq then mark_highest seq n a1 else a1)"
    define a3 where "a3 = a2\<lparr>is_dup := (b seq \<noteq> 0), seen := (seen a2)[ring_ix (wndmask a2) seq := n]\<rparr>"
    have a2: "wndmask a2 = 2 ^ k - 1" "length (seen a2) = 2 ^ k" "rcv_next a2 = rcv_next a" "maxseen a2 = max (maxseen a) seq"
      "is_dup a2 = False"
      using k a1(4,5,6) by (auto simp: a2_def mark_highest_def Let_def)
    have hold2: "window_holds (if maxseen a1 < seq then b(seq := n) else b) a2"
      using mark_highest_ok [OF a1(2) _ a1(3) seq(2)] a1(2) by (simp add: a2_def ring_ok_def)
    have span: "maxseen a2 + 1 - rcv_next a2 < 2 ^ k - 1"
      using a1(3,4,5) r k(1) by (simp add: a2(3,4) max_def)
    have "window_holds ((if maxseen a1 < seq then b(seq := n) else b)(seq := n))
        (a2\<lparr>seen := (seen a2)[ring_ix (wndmask a2) seq := n]\<rparr>)"
      using a2 span False by (intro window_write [OF a2(1,2) _ hold2]) simp_all
    then have hold3: "window_holds (b(seq := n)) a3"
      by (cases "maxseen a1 < seq") (simp_all add: window_holds_def a3_def)
    let ?b = "b(seq := n)"
    have high: "\<forall>i. ?b i \<noteq> 0 \<longrightarrow> 0 \<le> i \<and> i \<le> maxseen a3" using r seq(1) a1(5) a2(4) by (auto simp: a3_def)
    then have "?b (maxseen a3 + 1) = 0" by (metis add_le_same_cancel1 not_one_le_zero)
    moreover have window: "\<forall>i. rcv_next a \<le> i \<and> i \<le> maxseen a3 + 1 \<longrightarrow> seen a3 ! ring_ix (wndmask a3) i = ?b i"
      using hold3 by (simp add: window_holds_def a3_def a2(3))
    moreover have "rcv_next a \<le> maxseen a3 + 1" using r a1(4,5) by (simp add: a3_def a2(4) max_def)
    ultimately obtain nxt where nxt: "deliver (wndmask a3) (seen a3) (rcv_next a) 0 = Some (0 + (\<Sum>i\<in>{rcv_next a..<nxt}. ?b i), nxt)"
      "rcv_next a \<le> nxt" "nxt \<le> maxseen a3 + 1" "?b nxt = 0" "\<forall>i. rcv_next a \<le> i \<and> i < nxt \<longrightarrow> ?b i \<noteq> 0"
      using deliver_ok [of "rcv_next a" "maxseen a3 + 1" "seen a3" "wndmask a3" ?b 0] by blast
    have dup: "record_packet (maxseen a1 < seq) seq n a2 = a3"
    proof (cases "maxseen a1 < seq")
      case True
      then have "b seq = 0" using r by (meson linorder_not_less)
      then show ?thesis using True a2(5) by (simp add: record_packet_def a3_def)
    next
      case not_new: False
      then have "seen a2 ! ring_ix (wndmask a2) seq = b seq" using hold2 False a2(3,4) by (simp add: window_holds_def)
      then show ?thesis using not_new a2(5) by (simp add: record_packet_def a3_def)
    qed
    have "rcv_next a2 \<le> seq \<and> seq \<le> maxseen a2" "\<not> seq < rcv_next a2" "rcv_next a3 = rcv_next a"
      using False a2(3,4) by (simp_all add: a3_def)
    then have upd: "acker_update seq n a = Some (\<Sum>i\<in>{rcv_next a..<nxt}. ?b i, a3\<lparr>rcv_next := nxt\<rparr>)"
      unfolding acker_update_def a1(1) bind.simps Let_def a2_def [symmetric] using nxt(1) by (simp add: dup)
    have "\<forall>i. 0 \<le> i \<and> i < nxt \<longrightarrow> ?b i \<noteq> 0" using nxt(5) r seq(2) a1(4) by (metis fun_upd_apply not_le)
    moreover have "window_holds ?b (a3\<lparr>rcv_next := nxt\<rparr>)"
      using hold3 nxt(2) unfolding window_holds_def by (simp add: a3_def a2(3))
    moreover have "wndmask a3 = 2 ^ k - 1 \<and> length (seen a3) = 2 ^ k" by (simp add: a3_def a2(1,2))
    moreover have "63 \<le> wndmask a3" using r k(1) by (simp add: a3_def a2(1))
    moreover have "maxseen a3 + 1 - nxt < wndmask a3" using span nxt(2) by (simp add: a3_def a2(1,3))
    moreover have "0 \<le> nxt" using nxt(2) r a1(4) by simp
    ultimately have "ring_ok ?b (a3\<lparr>rcv_next := nxt\<rparr>)"
      using nxt(3,4) high unfolding ring_ok_def by simp
    moreover have "rcv_next a < nxt \<longrightarrow> seq = rcv_next a"
      using nxt(5) r a1(4) by (metis fun_upd_apply order_refl)
    moreover have "is_dup a3 = (b seq \<noteq> 0)" "maxseen a3 = max (maxseen a) seq" by (simp_all add: a3_def a2(4))
    ultimately show ?thesis
      using upd nxt(2) window by (intro exI [of _ "a3\<lparr>rcv_next := nxt\<rparr>"] exI [of _ "\<Sum>i\<in>{rcv_next a..<nxt}. ?b i"]) simp
  qed
qed

lemma ring_ok_reset:
  assumes "ring_ok b a"
  shows "ring_ok (\<lambda>_. 0) (acker_reset a)"
proof -
  obtain k where k: "wndmask a = 2 ^ k - 1" "length (seen a) = 2 ^ k" using assms unfolding ring_ok_def by blast
  have "replicate (2 ^ k) 0 ! ring_ix (2 ^ k - 1) i = (0 :: int)" for i
    using ring_ix_less [of k i] by simp
  moreover have "63 \<le> wndmask a" using assms by (simp add: ring_ok_def)
  ultimately show ?thesis
    by (auto simp: ring_ok_def acker_reset_def window_holds_def k nat_power_eq intro!: exI [of _ k])
qed

subsection \<open>Properties\<close>

text \<open>Packets that arrive one after the other, with the bytes handed to the application.\<close>

fun acker_run :: "(int \<times> int) list \<Rightarrow> acker \<Rightarrow> (int \<times> acker) option" where
  "acker_run [] a = Some (0, a)"
| "acker_run ((seq, n) # ps) a = do {
     (d, a) \<leftarrow> acker_update seq n a;
     (e, a) \<leftarrow> acker_run ps a;
     Some (d + e, a)
   }"

text \<open>The sizes of the packets \<open>qs\<close>, and 0 for the others.\<close>

definition sizes :: "(int \<Rightarrow> int) \<Rightarrow> int set \<Rightarrow> int \<Rightarrow> int" where
  "sizes sz S i = (if i \<in> S then sz i else 0)"

lemma sizes_insert: "(sizes sz S)(q := sz q) = sizes sz (insert q S)"
  by (auto simp: sizes_def)

lemma acker_update_sizes:
  assumes "ring_ok (sizes sz S) a" "0 \<le> q" "sz q \<noteq> 0"
  shows "\<exists>a' d. acker_update q (sz q) a = Some (d, a') \<and> ring_ok (sizes sz (insert q S)) a' \<and>
    maxseen a' = max (maxseen a) q \<and> rcv_next a \<le> rcv_next a' \<and>
    d = (\<Sum>i\<in>{rcv_next a..<rcv_next a'}. sizes sz (insert q S) i)"
proof -
  obtain a' d where "acker_update q (sz q) a = Some (d, a')" "ring_ok ((sizes sz S)(q := sz q)) a'"
    "maxseen a' = max (maxseen a) q" "rcv_next a \<le> rcv_next a'"
    "d = (\<Sum>i\<in>{rcv_next a..<rcv_next a'}. ((sizes sz S)(q := sz q)) i)"
    using acker_update_ok [OF assms] by blast
  then show ?thesis by (intro exI [of _ a'] exI [of _ d]) (simp only: sizes_insert simp_thms)
qed

lemma acker_run_ok:
  assumes "ring_ok (sizes sz S) a" "\<forall>q \<in> set qs. 0 \<le> q" "\<forall>i. 0 < sz i"
  shows "\<exists>a'. acker_run (map (\<lambda>q. (q, sz q)) qs) a = Some (\<Sum>i\<in>{rcv_next a..<rcv_next a'}. sz i, a') \<and>
    ring_ok (sizes sz (S \<union> set qs)) a' \<and> rcv_next a \<le> rcv_next a' \<and> maxseen a' = fold max qs (maxseen a)"
  using assms
proof (induction qs arbitrary: S a)
  case (Cons q qs)
  have q: "0 \<le> q" "sz q \<noteq> 0" using Cons.prems(2,3) by (simp, metis less_irrefl)
  obtain a1 d where a1: "acker_update q (sz q) a = Some (d, a1)" "ring_ok (sizes sz (insert q S)) a1"
    "maxseen a1 = max (maxseen a) q" "rcv_next a \<le> rcv_next a1"
    "d = (\<Sum>i\<in>{rcv_next a..<rcv_next a1}. sizes sz (insert q S) i)"
    using acker_update_sizes [OF Cons.prems(1) q] by blast
  have "sizes sz (insert q S) i = sz i" if "i \<in> {rcv_next a..<rcv_next a1}" for i
    using that ring_okD(1) [OF Cons.prems(1)] ring_okD(4) [OF a1(2), of i] by (auto simp: sizes_def split: if_splits)
  then have d: "d = (\<Sum>i\<in>{rcv_next a..<rcv_next a1}. sz i)" unfolding a1(5) by (rule sum.cong [OF refl])
  obtain a2 where a2: "acker_run (map (\<lambda>q. (q, sz q)) qs) a1 = Some (\<Sum>i\<in>{rcv_next a1..<rcv_next a2}. sz i, a2)"
    "ring_ok (sizes sz (insert q S \<union> set qs)) a2" "rcv_next a1 \<le> rcv_next a2" "maxseen a2 = fold max qs (maxseen a1)"
    using Cons.IH [OF a1(2)] Cons.prems(2,3) by auto
  have "{rcv_next a..<rcv_next a2} = {rcv_next a..<rcv_next a1} \<union> {rcv_next a1..<rcv_next a2}"
    using a1(4) a2(3) by auto
  then have "d + (\<Sum>i\<in>{rcv_next a1..<rcv_next a2}. sz i) = (\<Sum>i\<in>{rcv_next a..<rcv_next a2}. sz i)"
    unfolding d by (simp add: sum.union_disjoint)
  then show ?case using a1(1,3,4) a2 by (simp add: max.commute)
qed (simp add: sizes_def)

text \<open>
  C31. In-order delivery. Whatever order packets arrive in, however many are lost or duplicated and however far ahead they are, the
  receive window never fails and hands over each packet in front of the first missing one exactly once: the bytes
  delivered are the sum of their sizes. The next expected packet is the first one that has not come.
\<close>

theorem receive_in_order:
  assumes "\<forall>q \<in> set qs. 0 \<le> q" "\<forall>i. 0 < sz i"
  shows "\<exists>a. acker_run (map (\<lambda>q. (q, sz q)) qs) new_acker = Some (\<Sum>i\<in>{0..<rcv_next a}. sz i, a) \<and>
    {0..<rcv_next a} \<subseteq> set qs \<and> 0 \<le> rcv_next a \<and> rcv_next a \<notin> set qs \<and> maxseen a = Max (insert 0 (set qs))"
proof -
  have pos: "sz i \<noteq> 0" for i using assms(2) by (metis less_irrefl)
  have empty: "sizes sz {} = (\<lambda>_. 0)" by (rule ext) (simp add: sizes_def)
  then obtain a where a: "acker_run (map (\<lambda>q. (q, sz q)) qs) new_acker = Some (\<Sum>i\<in>{0..<rcv_next a}. sz i, a)"
    "ring_ok (sizes sz (set qs)) a" "maxseen a = fold max qs 0"
    using acker_run_ok [of sz "{}" new_acker qs] ring_ok_new assms by (auto simp: new_acker_def)
  have "{0..<rcv_next a} \<subseteq> set qs" "rcv_next a \<notin> set qs" "0 \<le> rcv_next a"
    using a(2) pos by (auto simp: ring_ok_def sizes_def split: if_splits)
  moreover have "fold max qs 0 = Max (insert 0 (set qs))" by (simp add: Max.set_eq_fold [symmetric])
  ultimately show ?thesis using a by auto
qed

theorem receive_in_order_witness:
  "\<exists>a. acker_run [(2, 1500), (0, 1500), (0, 1500), (70, 1500), (1, 1500)] new_acker = Some (\<Sum>i\<in>{0..<rcv_next a}. 1500, a) \<and>
     {0..<rcv_next a} \<subseteq> {0, 1, 2, 70} \<and> maxseen a = 70"
  using receive_in_order [of "[2, 0, 0, 70, 1]" "\<lambda>_. 1500"] by auto

end
