(* ===== verification/Sack_Sink.thy ===== *)
theory Sack_Sink
  imports Acker
begin

section \<open>Selective acknowledgements of a sink (\<open>tcp/tcp-sink.cc\<close>)\<close>

text \<open>
  \<open>Sacker\<close> adds to an acknowledgement the blocks of packets that have come behind the first missing one: first the block
  around the packet that has just come, then the blocks reported before, which it keeps on a stack of bounded
  size. \<open>TcpSink\<close> acknowledges every packet, and \<open>DelAckSink\<close> waits for a second packet or a timer. A sink with the plain
  \<open>Acker\<close> is one with no room for blocks.
\<close>

subsection \<open>The stack of blocks\<close>

text \<open>\<open>push\<close> with the new top, which drops the last block when the stack is full. Behind the last block every entry is
  \<open>(-1, -1)\<close>, as the constructor, \<open>reset\<close> and \<open>pop\<close> leave it.\<close>

definition push_sack :: "int \<Rightarrow> int \<times> int \<Rightarrow> (int \<times> int) list \<Rightarrow> (int \<times> int) list" where
  "push_sack sz b st = b # (if sz \<le> int (length st) then take (nat sz - 1) st else st)"

text \<open>The blocks reported before, while the header has room: those that the newest one covers are popped.\<close>

fun older_blocks ::
  "int \<Rightarrow> int \<times> int \<Rightarrow> nat \<Rightarrow> (int \<times> int) list \<Rightarrow> (int \<times> int) list \<times> (int \<times> int) list" where
  "older_blocks high recent 0 st = ([], st)"
| "older_blocks high recent (Suc room) [] = ([], [])"
| "older_blocks high recent (Suc room) (b # st) =
     (if fst b < 0 \<or> snd b < 0 \<or> high + 1 < snd b then ([], b # st)
      else if fst recent \<le> fst b \<and> snd b \<le> snd recent then older_blocks high recent (Suc room) st
      else let (bs, st) = older_blocks high recent room st in (b # bs, b # st))"

subsection \<open>The blocks of an acknowledgement\<close>

text \<open>The first hole at or behind a packet, and the first one below the right edge.\<close>

definition hole :: "acker \<Rightarrow> int \<Rightarrow> bool" where
  "hole a i \<longleftrightarrow> seen a ! ring_ix (wndmask a) i = 0"

definition right_edge :: "acker \<Rightarrow> int \<Rightarrow> int" where
  "right_edge a old_seqno =
     (case find (hole a) [old_seqno..maxseen a] of None \<Rightarrow> maxseen a + 1 | Some i \<Rightarrow> i)"

definition left_edge :: "acker \<Rightarrow> int \<Rightarrow> int" where
  "left_edge a right = (case find (hole a) (rev [Seqno a + 1..right - 1]) of None \<Rightarrow> - 1 | Some i \<Rightarrow> i + 1)"

definition append_ack ::
  "int \<Rightarrow> bool \<Rightarrow> int \<Rightarrow> acker \<Rightarrow> (int \<times> int) list \<Rightarrow> (int \<times> int) list \<times> (int \<times> int) list" where
  "append_ack nblocks dsacks old_seqno a st =
     (if old_seqno < 0 then ([], st)
      else if maxseen a \<le> Seqno a \<and> st \<noteq> [] then ([], [])
      else if (Seqno a < maxseen a \<or> is_dup a) \<and> 0 < nblocks
      then let ds = (if dsacks \<and> is_dup a then [(old_seqno, old_seqno + 1)] else [])
           in if nblocks \<le> int (length ds) then (ds, st)
              else let right = right_edge a old_seqno;
                       left = (if old_seqno \<le> Seqno a then 0 else left_edge a right);
                       ds = (if old_seqno \<le> Seqno a then ds else ds @ [(left, right)]);
                       (bs, st) = older_blocks (maxseen a) (left, right) (nat nblocks - length ds) st
                   in (ds @ bs, if Seqno a < old_seqno then push_sack nblocks (left, right) st else st)
      else ([], st))"

subsection \<open>Sinks\<close>

record data_pkt =
  dp_seqno :: int
  dp_size :: int
  dp_ts :: real
  dp_cong_action :: bool
  dp_ect :: bool
  dp_ce :: bool
  dp_ecnecho :: bool

record ack_hdr =
  ah_seqno :: int
  ah_ts_echo :: real
  ah_sacks :: "(int \<times> int) list"
  ah_ecnecho :: bool
  ah_ect :: bool

record sink =
  win :: acker
  sack_stack :: "(int \<times> int) list"
  max_sack_blocks :: int
  generate_dsacks :: bool
  ts_echo_bugfix :: bool
  ts_echo_rfc1323 :: bool
  RFC2581_immediate_ack :: bool
  SYN_immediate_ack :: bool
  ecn_syn :: bool
  sink_bytes :: int
  lastreset :: real
  save :: "data_pkt option"
  timer_pending :: bool

definition saved :: "(data_pkt \<Rightarrow> bool) \<Rightarrow> sink \<Rightarrow> bool" where
  "saved f k = (case save k of None \<Rightarrow> False | Some p \<Rightarrow> f p)"

text \<open>Congestion marks: a report of the network sets the echo, an answer of the sender clears it.\<close>

definition ecn_state :: "data_pkt \<Rightarrow> sink \<Rightarrow> acker" where
  "ecn_state p k =
     (let a = win k;
          a = (if saved dp_cong_action k \<or> dp_cong_action p then update_ecn_unacked False a else a)
      in if saved (\<lambda>q. dp_ect q \<and> dp_ce q) k \<or> (dp_ect p \<and> dp_ce p) then update_ecn_unacked True a else a)"

definition ecn_negotiation :: "data_pkt \<Rightarrow> sink \<Rightarrow> bool" where
  "ecn_negotiation p k \<longleftrightarrow> (\<not> dp_ect p \<and> dp_ecnecho p) \<or> saved (\<lambda>q. \<not> dp_ect q \<and> dp_ecnecho q) k"

definition sink_ack :: "data_pkt \<Rightarrow> sink \<Rightarrow> ack_hdr \<times> sink" where
  "sink_ack p k =
     (let a = ecn_state p k;
          (sacks, st) = append_ack (max_sack_blocks k) (generate_dsacks k) (dp_seqno p) a (sack_stack k)
      in (\<lparr>ah_seqno = Seqno a, ah_ts_echo = (if ts_echo_bugfix k then ts_to_echo a else dp_ts p), ah_sacks = sacks,
           ah_ecnecho = ecn_negotiation p k \<or> ((saved dp_ect k \<or> dp_ect p) \<and> ecn_unacked a),
           ah_ect = (ecn_negotiation p k \<and> ecn_syn k)\<rparr>,
          k\<lparr>win := a\<lparr>last_ack_sent := Seqno a\<rparr>, sack_stack := st\<rparr>))"

text \<open>The window and the bytes for the application, the common part of the two sinks.\<close>

definition sink_window :: "data_pkt \<Rightarrow> sink \<Rightarrow> sink option" where
  "sink_window p k = do {
     (d, a) \<leftarrow> acker_update (dp_seqno p) (dp_size p) (update_ts (dp_seqno p) (dp_ts p) (ts_echo_rfc1323 k) (win k));
     Some (k\<lparr>win := a, sink_bytes := (if d \<noteq> 0 then sink_bytes k + d else sink_bytes k)\<rparr>)
   }"

text \<open>\<open>TcpSink::recv\<close>: packets from before the last reset are dropped.\<close>

definition sink_recv :: "data_pkt \<Rightarrow> sink \<Rightarrow> (ack_hdr list \<times> sink) option" where
  "sink_recv p k =
     (if dp_ts p < lastreset k then Some ([], k)
      else do {
        k \<leftarrow> sink_window p k;
        let (h, k) = sink_ack p k;
        Some ([h], k)
      })"

definition delack_recv :: "data_pkt \<Rightarrow> sink \<Rightarrow> (ack_hdr list \<times> sink) option" where
  "delack_recv p k =
     (if dp_ts p < lastreset k then Some ([], k)
      else do {
        k \<leftarrow> sink_window p k;
        if \<not> timer_pending k \<and> dp_seqno p = Seqno (win k) \<and>
           \<not> (RFC2581_immediate_ack k \<and> dp_seqno p < maxseen (win k)) \<and> \<not> (SYN_immediate_ack k \<and> dp_seqno p = 0)
        then Some ([], k\<lparr>save := Some p, timer_pending := True\<rparr>)
        else let (h, k) = sink_ack p (k\<lparr>timer_pending := False\<rparr>) in Some ([h], k\<lparr>save := None\<rparr>)
      })"

text \<open>The timer of a delayed acknowledgement.\<close>

definition delack_timeout :: "sink \<Rightarrow> ack_hdr list \<times> sink" where
  "delack_timeout k =
     (let k = k\<lparr>timer_pending := False\<rparr> in
      case save k of
        None \<Rightarrow> ([], k)
      | Some p \<Rightarrow> let (h, k) = sink_ack p k in ([h], k\<lparr>save := None\<rparr>))"

text \<open>\<open>DelAckSink::reset\<close>, and for a sink whose timer never runs \<open>TcpSink::reset\<close>. The function of \<open>Acker\<close> is not virtual, so that
  \<open>Sacker::reset\<close>, which would clear the stack, is not what runs.\<close>

definition sink_reset :: "real \<Rightarrow> sink \<Rightarrow> sink" where
  "sink_reset now k = k\<lparr>win := acker_reset (win k), save := None, timer_pending := False, lastreset := now\<rparr>"

text \<open>The limit on the blocks, which a change of \<open>maxSackBlocks_\<close> from Tcl sets again, with a new stack; and the constructors.\<close>

definition set_max_sack_blocks :: "int \<Rightarrow> sink \<Rightarrow> sink" where
  "set_max_sack_blocks n k = k\<lparr>max_sack_blocks := (if 3 < n then 3 else n), sack_stack := []\<rparr>"

definition new_sink :: "sink \<Rightarrow> sink" where
  "new_sink bound =
     set_max_sack_blocks (max_sack_blocks bound)
       (bound\<lparr>win := new_acker, save := None, timer_pending := False, lastreset := 0, sink_bytes := 0\<rparr>)"

subsection \<open>Searching for holes\<close>

lemma find_upto_Some:
  "find P [a..b] = Some i \<Longrightarrow> a \<le> i \<and> i \<le> b \<and> P i \<and> (\<forall>j. a \<le> j \<and> j < i \<longrightarrow> \<not> P j)"
proof (induction "nat (b + 1 - a)" arbitrary: a)
  case 0
  then show ?case by simp
next
  case (Suc n)
  then have "a \<le> b" by simp
  then have split: "[a..b] = a # [a + 1..b]" by (rule upto_rec1)
  show ?case
  proof (cases "P a")
    case True
    then show ?thesis using Suc.prems \<open>a \<le> b\<close> by (auto simp: split)
  next
    case False
    then have "find P [a + 1..b] = Some i" using Suc.prems by (simp add: split)
    moreover have "n = nat (b + 1 - (a + 1))" using Suc.hyps(2) by simp
    ultimately have "a + 1 \<le> i \<and> i \<le> b \<and> P i \<and> (\<forall>j. a + 1 \<le> j \<and> j < i \<longrightarrow> \<not> P j)" by (rule Suc.hyps(1) [rotated])
    then show ?thesis using False by (metis order_le_less zless_imp_add1_zle add1_zle_eq order.trans order_less_imp_le)
  qed
qed

lemma find_upto_None: "find P [a..b] = None \<Longrightarrow> a \<le> j \<Longrightarrow> j \<le> b \<Longrightarrow> \<not> P j"
  by (auto simp: find_None_iff)

lemma find_downto_Some:
  "find P (rev [a..b]) = Some i \<Longrightarrow> a \<le> i \<and> i \<le> b \<and> P i \<and> (\<forall>j. i < j \<and> j \<le> b \<longrightarrow> \<not> P j)"
proof (induction "nat (b + 1 - a)" arbitrary: b)
  case 0
  then show ?case by simp
next
  case (Suc n)
  then have "a \<le> b" by simp
  then have split: "[a..b] = [a..b - 1] @ [b]" by (rule upto_rec2)
  show ?case
  proof (cases "P b")
    case True
    then show ?thesis using Suc.prems \<open>a \<le> b\<close> by (auto simp: split)
  next
    case False
    then have "find P (rev [a..b - 1]) = Some i" using Suc.prems by (simp add: split)
    moreover have "n = nat (b - 1 + 1 - a)" using Suc.hyps(2) by simp
    ultimately have i: "a \<le> i \<and> i \<le> b - 1 \<and> P i \<and> (\<forall>j. i < j \<and> j \<le> b - 1 \<longrightarrow> \<not> P j)" by (rule Suc.hyps(1) [rotated])
    have "\<not> P j" if "i < j" "j \<le> b" for j using that i False by (cases "j = b") auto
    then show ?thesis using i by auto
  qed
qed

lemma find_downto_None: "find P (rev [a..b]) = None \<Longrightarrow> a \<le> j \<Longrightarrow> j \<le> b \<Longrightarrow> \<not> P j"
  by (auto simp: find_None_iff)

lemma hole_iff: "ring_ok b a \<Longrightarrow> rcv_next a \<le> i \<Longrightarrow> i \<le> maxseen a + 1 \<Longrightarrow> hole a i \<longleftrightarrow> b i = 0"
  using ring_okD(6) [of b a i] by (simp add: hole_def)

text \<open>A block of packets that have come, above the packet \<open>lo\<close>; a good one is above the next expected packet.\<close>

definition block_above :: "int \<Rightarrow> (int \<Rightarrow> int) \<Rightarrow> acker \<Rightarrow> int \<times> int \<Rightarrow> bool" where
  "block_above lo b a x \<longleftrightarrow>
     lo < fst x \<and> fst x < snd x \<and> snd x \<le> maxseen a + 1 \<and> (\<forall>i. fst x \<le> i \<and> i < snd x \<longrightarrow> b i \<noteq> 0)"

definition block_good :: "(int \<Rightarrow> int) \<Rightarrow> acker \<Rightarrow> int \<times> int \<Rightarrow> bool" where
  "block_good b a x \<longleftrightarrow> block_above (rcv_next a) b a x"

lemmas block_defs = block_good_def block_above_def

text \<open>The block around the packet that came: between two holes.\<close>

lemma first_block:
  assumes ok: "ring_ok b a" and old: "b q \<noteq> 0" "rcv_next a \<le> q"
  shows "block_good b a (left_edge a (right_edge a q), right_edge a q) \<and> left_edge a (right_edge a q) \<le> q \<and> q < right_edge a q \<and>
    b (right_edge a q) = 0 \<and> b (left_edge a (right_edge a q) - 1) = 0"
proof -
  define r where "r = right_edge a q"
  note b = ring_okD [OF ok] and hole = hole_iff [OF ok]
  have q: "q \<le> maxseen a" using b(3) [OF old(1)] by simp
  have "q < r \<and> r \<le> maxseen a + 1 \<and> b r = 0 \<and> (\<forall>i. q \<le> i \<and> i < r \<longrightarrow> b i \<noteq> 0)"
  proof (cases "find (hole a) [q..maxseen a]")
    case None
    then have "r = maxseen a + 1" by (simp add: r_def right_edge_def)
    moreover have "b i \<noteq> 0" if "q \<le> i" "i < maxseen a + 1" for i
      using find_upto_None [OF None, of i] hole [of i] that old(2) by simp
    moreover have "b (maxseen a + 1) = 0" using b(3) [of "maxseen a + 1"] by auto
    ultimately show ?thesis using q by simp
  next
    case (Some i)
    then have i: "r = i" "q \<le> i" "i \<le> maxseen a" "b i = 0" "\<forall>j. q \<le> j \<and> j < i \<longrightarrow> b j \<noteq> 0"
      using find_upto_Some [OF Some] hole old(2) by (auto simp: r_def right_edge_def)
    moreover have "q \<noteq> i" using i(4) old(1) by auto
    ultimately show ?thesis by auto
  qed
  then have r: "q < r" "r \<le> maxseen a + 1" "b r = 0" "\<forall>i. q \<le> i \<and> i < r \<longrightarrow> b i \<noteq> 0" by auto
  have "\<not> find (hole a) (rev [Seqno a + 1..r - 1]) = None"
    using find_downto_None [of "hole a" "Seqno a + 1" "r - 1" "rcv_next a"] hole [of "rcv_next a"] b(2,5) old(2) r(1)
    by (auto simp: Seqno_def)
  then obtain i where i: "find (hole a) (rev [rcv_next a..r - 1]) = Some i" by (auto simp: Seqno_def)
  then have l: "left_edge a r = i + 1" by (simp add: left_edge_def Seqno_def)
  have inside: "rcv_next a \<le> i" "i \<le> r - 1" "b i = 0" "\<forall>j. i < j \<and> j \<le> r - 1 \<longrightarrow> b j \<noteq> 0"
    using find_downto_Some [OF i] hole r(2) by auto
  then have "i < q" using r(4) by (metis int_le_real_less linorder_not_le zle_diff1_eq)
  then show ?thesis
    using inside r l by (auto simp: block_defs r_def [symmetric])
qed

lemma older_blocks_sub:
  "older_blocks high recent room st = (bs, st') \<Longrightarrow>
     set bs \<subseteq> set st \<and> set st' \<subseteq> set st \<and> length bs \<le> room \<and> length st' \<le> length st"
proof (induction high recent room st arbitrary: bs st' rule: older_blocks.induct)
  case (3 high recent room b st)
  show ?case
  proof (cases "fst b < 0 \<or> snd b < 0 \<or> high + 1 < snd b")
    case False
    show ?thesis
    proof (cases "fst recent \<le> fst b \<and> snd b \<le> snd recent")
      case True
      then have "set bs \<subseteq> set st \<and> set st' \<subseteq> set st \<and> length bs \<le> Suc room \<and> length st' \<le> length st"
        using 3(1) [OF False True, of bs st'] 3(3) False by simp
      then show ?thesis by auto
    next
      case uncovered: False
      obtain bs1 st1 where rest: "older_blocks high recent room st = (bs1, st1)" by (cases "older_blocks high recent room st")
      then have "set bs1 \<subseteq> set st \<and> set st1 \<subseteq> set st \<and> length bs1 \<le> room \<and> length st1 \<le> length st"
        using 3(2) [OF False uncovered] by simp
      moreover have "bs = b # bs1" "st' = b # st1" using 3(3) False uncovered rest by auto
      ultimately show ?thesis by auto
    qed
  qed (use 3(3) in auto)
qed auto

text \<open>With room for all blocks, those that the newest one covers are gone.\<close>

lemma older_blocks_covered:
  "older_blocks high recent room st = (bs, st') \<Longrightarrow> length st \<le> room \<Longrightarrow>
     \<forall>x \<in> set st. 0 \<le> fst x \<and> 0 \<le> snd x \<and> snd x \<le> high + 1 \<Longrightarrow>
     x \<in> set st' \<union> set bs \<Longrightarrow> \<not> (fst recent \<le> fst x \<and> snd x \<le> snd recent)"
proof (induction high recent room st arbitrary: bs st' rule: older_blocks.induct)
  case (3 high recent room b st)
  show ?case
  proof (cases "fst recent \<le> fst b \<and> snd b \<le> snd recent")
    case True
    then show ?thesis using 3(1) [of bs st'] 3(3-6) by (auto split: if_splits)
  next
    case False
    then show ?thesis using 3(2) 3(3-6) by (auto split: if_splits prod.splits)
  qed
qed auto

text \<open>A block above an older next expected packet that the new one is not in is above the new one.\<close>

lemma block_good_uncovered:
  assumes ok: "ring_ok b a" and x: "block_above lo b a x" "0 \<le> lo" "\<not> snd x \<le> rcv_next a"
  shows "block_good b a x"
proof -
  have "\<not> (fst x \<le> rcv_next a \<and> rcv_next a < snd x)" using x(1) ring_okD(5) [OF ok] by (auto simp: block_above_def)
  then show ?thesis using x by (auto simp: block_defs)
qed

lemma right_edge_next:
  assumes hole: "\<forall>i. q \<le> i \<and> i \<le> maxseen a \<longrightarrow> hole a i = (b i = 0)" and b: "\<forall>i. q \<le> i \<and> i < rcv_next a \<longrightarrow> b i \<noteq> 0"
    and ok: "b (rcv_next a) = 0" "q \<le> rcv_next a" "rcv_next a \<le> maxseen a"
  shows "right_edge a q = rcv_next a"
proof (cases "find (hole a) [q..maxseen a]")
  case None
  then show ?thesis using find_upto_None [OF None, of "rcv_next a"] hole ok by auto
next
  case (Some i)
  then have "q \<le> i \<and> i \<le> maxseen a \<and> hole a i \<and> (\<forall>j. q \<le> j \<and> j < i \<longrightarrow> \<not> hole a j)" by (rule find_upto_Some)
  then have "i = rcv_next a" using hole b ok by (metis linorder_less_linear order.trans order_less_imp_le)
  then show ?thesis using Some by (simp add: right_edge_def)
qed

lemma length_push_sack: "length st \<le> nat n \<Longrightarrow> 0 < n \<Longrightarrow> length (push_sack n x st) \<le> nat n"
  by (auto simp: push_sack_def)

lemma set_push_sack: "set (push_sack n x st) \<subseteq> insert x (set st)"
  by (auto simp: push_sack_def dest: in_set_takeD)

text \<open>What the blocks \<open>sacks\<close> of an acknowledgement for the packet \<open>q\<close> promise: packets that have come, the first ones with \<open>q\<close>
  between two missing packets.\<close>

definition reply_ok :: "int \<Rightarrow> bool \<Rightarrow> int \<Rightarrow> (int \<Rightarrow> int) \<Rightarrow> acker \<Rightarrow> (int \<times> int) list \<Rightarrow> bool" where
  "reply_ok n dsacks q b a sacks \<longleftrightarrow>
     length sacks \<le> nat n \<and> (\<forall>x \<in> set sacks. block_good b a x \<or> dsacks \<and> is_dup a \<and> x = (q, q + 1)) \<and>
     (Seqno a < q \<and> 0 < n \<and> \<not> (dsacks \<and> is_dup a) \<longrightarrow>
      (\<exists>l r bs. sacks = (l, r) # bs \<and> l \<le> q \<and> q < r \<and> b r = 0 \<and> b (l - 1) = 0))"

definition stack_ok :: "int \<Rightarrow> (int \<Rightarrow> int) \<Rightarrow> acker \<Rightarrow> (int \<times> int) list \<Rightarrow> bool" where
  "stack_ok n b a st \<longleftrightarrow> length st \<le> nat n \<and> (\<forall>x \<in> set st. block_good b a x)"

text \<open>An acknowledgement for the packet \<open>q\<close>, which has moved the next expected packet from \<open>lo\<close> to where it is.\<close>

lemma append_ack_ok:
  assumes ok: "ring_ok b a" "b q \<noteq> 0"
    and st: "\<forall>x \<in> set st. block_above lo b a x" "length st \<le> nat n"
    and lo: "0 \<le> lo" "lo \<le> rcv_next a" "lo < rcv_next a \<longrightarrow> q = lo \<and> \<not> is_dup a"
    and ring: "\<forall>i. lo \<le> i \<and> i \<le> maxseen a + 1 \<longrightarrow> hole a i = (b i = 0)"
  shows "reply_ok n dsacks q b a (fst (append_ack n dsacks q a st)) \<and> stack_ok n b a (snd (append_ack n dsacks q a st))"
proof -
  note b = ring_okD [OF ok(1)]
  have q: "0 \<le> q" "q \<le> maxseen a" using b(3) [OF ok(2)] by simp_all
  have old: "block_good b a x" if "x \<in> set st" "lo = rcv_next a" for x
    using that st(1) by (simp add: block_good_def)
  consider (all) "maxseen a \<le> Seqno a" "st \<noteq> []" | (none) "st = []" "\<not> (Seqno a < maxseen a \<or> is_dup a)"
    | (no_room) "n \<le> 0" | (blocks) "Seqno a < maxseen a \<or> st = [] \<and> is_dup a" "0 < n"
    by linarith
  then show ?thesis
  proof cases
    case blocks
    define ds where "ds = (if dsacks \<and> is_dup a then [(q, q + 1)] else [])"
    have ds: "length ds \<le> 1" "\<forall>x \<in> set ds. dsacks \<and> is_dup a \<and> x = (q, q + 1)" "\<not> (dsacks \<and> is_dup a) \<Longrightarrow> ds = []"
      by (simp_all add: ds_def)
    have go: "\<not> q < 0" "\<not> (maxseen a \<le> Seqno a \<and> st \<noteq> [])" "(Seqno a < maxseen a \<or> is_dup a) \<and> 0 < n"
      using q blocks by auto
    have not_all: "(maxseen a \<le> Seqno a \<and> st \<noteq> []) = False" using go(2) by simp
    show ?thesis
    proof (cases "n \<le> int (length ds)")
      case True
      then have "dsacks \<and> is_dup a" using ds(3) blocks(2) by (cases "dsacks \<and> is_dup a") simp_all
      moreover from this have "\<forall>x \<in> set st. block_good b a x" using lo old by (metis order_le_less)
      moreover have "append_ack n dsacks q a st = (ds, st)"
        using go True by (simp add: append_ack_def ds_def)
      ultimately show ?thesis using st(2) blocks(2) ds(1,2) True by (simp add: reply_ok_def stack_ok_def)
    next
      case room: False
      show ?thesis
      proof (cases "q \<le> Seqno a")
        case True
        obtain bs st1 where bs: "older_blocks (maxseen a) (0, right_edge a q) (nat n - length ds) st = (bs, st1)"
          by (cases "older_blocks (maxseen a) (0, right_edge a q) (nat n - length ds) st")
        note sub = older_blocks_sub [OF bs]
        have "block_good b a x" if x: "x \<in> set st1 \<union> set bs" for x
        proof (cases "lo = rcv_next a")
          case True
          then show ?thesis using old x sub by blast
        next
          case False
          then have adv: "q = lo" "\<not> is_dup a" "ds = []" "lo < rcv_next a" using lo ds(3) by auto
          have "right_edge a q = rcv_next a"
            using adv ring b(4,5) lo(1) blocks by (intro right_edge_next [where b = b]) (auto simp: Seqno_def)
          moreover have "\<not> (fst (0, right_edge a q) \<le> fst x \<and> snd x \<le> snd (0 :: int, right_edge a q))"
            using older_blocks_covered [OF bs _ _ x] st lo(1) adv(3) by (force simp: block_above_def)
          moreover have "block_above lo b a x" using x sub st(1) by blast
          ultimately show ?thesis
            using lo(1) by (intro block_good_uncovered [OF ok(1)]) (auto simp: block_above_def)
        qed
        moreover have "append_ack n dsacks q a st = (ds @ bs, st1)"
          using go(1,3) room True bs unfolding append_ack_def not_all by (simp add: ds_def [symmetric] Let_def)
        ultimately show ?thesis using True ds(2) sub room st(2) by (auto simp: reply_ok_def stack_ok_def)
      next
        case False
        let ?r = "right_edge a q" and ?l = "left_edge a (right_edge a q)"
        have lo': "lo = rcv_next a" using lo(2,3) False by (auto simp: Seqno_def)
        have first: "block_good b a (?l, ?r)" "?l \<le> q" "q < ?r" "b ?r = 0" "b (?l - 1) = 0"
          using first_block [OF ok] False by (simp_all add: Seqno_def)
        obtain bs st1 where bs: "older_blocks (maxseen a) (?l, ?r) (nat n - length (ds @ [(?l, ?r)])) st = (bs, st1)"
          by (cases "older_blocks (maxseen a) (?l, ?r) (nat n - length (ds @ [(?l, ?r)])) st")
        note sub = older_blocks_sub [OF bs]
        have "append_ack n dsacks q a st = (ds @ (?l, ?r) # bs, push_sack n (?l, ?r) st1)"
          using go(1,3) room False bs unfolding append_ack_def not_all by (simp add: ds_def [symmetric] Let_def)
        moreover have "\<forall>x \<in> set st1 \<union> set bs. block_good b a x" using sub old [OF _ lo'] by blast
        moreover have "length (push_sack n (?l, ?r) st1) \<le> nat n" using sub st(2) blocks(2) by (intro length_push_sack) simp_all
        moreover have "\<forall>x \<in> set (push_sack n (?l, ?r) st1). block_good b a x"
          using set_push_sack [of n "(?l, ?r)" st1] first(1) calculation(2) by blast
        moreover have "length (ds @ (?l, ?r) # bs) \<le> nat n" using sub room by auto
        moreover have "\<forall>x \<in> set (ds @ (?l, ?r) # bs). block_good b a x \<or> dsacks \<and> is_dup a \<and> x = (q, q + 1)"
          using ds(2) first(1) calculation(2) by auto
        ultimately show ?thesis using first ds(3) by (auto simp: reply_ok_def stack_ok_def)
      qed
    qed
  next
    case no_room
    then have "st = []" using st(2) by simp
    then show ?thesis using no_room by (simp add: append_ack_def reply_ok_def stack_ok_def)
  next
    case all
    then show ?thesis using q by (simp add: append_ack_def reply_ok_def stack_ok_def Seqno_def)
  next
    case none
    then show ?thesis using q by (simp add: append_ack_def reply_ok_def stack_ok_def)
  qed
qed

subsection \<open>The invariant of a sink\<close>

text \<open>The window is right for the packets that have come, so is the stack, and a packet whose acknowledgement waits has come.\<close>

definition sink_ok :: "(int \<Rightarrow> int) \<Rightarrow> sink \<Rightarrow> bool" where
  "sink_ok b k \<longleftrightarrow>
     ring_ok b (win k) \<and> stack_ok (max_sack_blocks k) b (win k) (sack_stack k) \<and>
     (\<forall>p. save k = Some p \<longrightarrow> b (dp_seqno p) \<noteq> 0)"

text \<open>Ready to acknowledge the packet \<open>q\<close>, between the change of the window and the acknowledgement.\<close>

definition ack_ready :: "int \<Rightarrow> (int \<Rightarrow> int) \<Rightarrow> int \<Rightarrow> sink \<Rightarrow> bool" where
  "ack_ready lo b q k \<longleftrightarrow>
     ring_ok b (win k) \<and> b q \<noteq> 0 \<and> (\<forall>x \<in> set (sack_stack k). block_above lo b (win k) x) \<and>
     length (sack_stack k) \<le> nat (max_sack_blocks k) \<and> 0 \<le> lo \<and> lo \<le> rcv_next (win k) \<and>
     (lo < rcv_next (win k) \<longrightarrow> q = lo \<and> \<not> is_dup (win k)) \<and>
     (\<forall>i. lo \<le> i \<and> i \<le> maxseen (win k) + 1 \<longrightarrow> hole (win k) i = (b i = 0))"

text \<open>Fields of the window that the invariants do not read.\<close>

lemma window_irrelevant [simp]:
  "ring_ok b (a\<lparr>ecn_unacked := e\<rparr>) = ring_ok b a" "ring_ok b (a\<lparr>last_ack_sent := n\<rparr>) = ring_ok b a"
  "ring_ok b (a\<lparr>ts_to_echo := t\<rparr>) = ring_ok b a" "block_above lo b (a\<lparr>ecn_unacked := e\<rparr>) = block_above lo b a"
  "stack_ok n b (a\<lparr>last_ack_sent := i\<rparr>) = stack_ok n b a" "reply_ok n d q b (a\<lparr>last_ack_sent := i\<rparr>) = reply_ok n d q b a"
  "hole (a\<lparr>ecn_unacked := e\<rparr>) = hole a"
  by (auto simp: fun_eq_iff ring_ok_def window_holds_def block_defs stack_ok_def reply_ok_def hole_def Seqno_def)

lemma ecn_state_window: "\<exists>e. ecn_state p k = (win k)\<lparr>ecn_unacked := e\<rparr>"
  by (cases "win k") (auto simp: ecn_state_def update_ecn_unacked_def Let_def)

lemma sink_ack_ok:
  assumes ready: "ack_ready lo b (dp_seqno p) k" and save: "\<forall>p. save k = Some p \<longrightarrow> b (dp_seqno p) \<noteq> 0"
  shows "\<exists>h k'. sink_ack p k = (h, k') \<and> sink_ok b k' \<and> ah_seqno h = rcv_next (win k) - 1 \<and>
    reply_ok (max_sack_blocks k) (generate_dsacks k) (dp_seqno p) b (win k') (ah_sacks h) \<and>
    rcv_next (win k') = rcv_next (win k) \<and> maxseen (win k') = maxseen (win k) \<and> is_dup (win k') = is_dup (win k) \<and>
    save k' = save k \<and> timer_pending k' = timer_pending k \<and> max_sack_blocks k' = max_sack_blocks k \<and>
    generate_dsacks k' = generate_dsacks k \<and> sink_bytes k' = sink_bytes k \<and> lastreset k' = lastreset k"
proof -
  obtain e where e: "ecn_state p k = (win k)\<lparr>ecn_unacked := e\<rparr>" using ecn_state_window by blast
  let ?a = "(win k)\<lparr>ecn_unacked := e\<rparr>"
  obtain sacks st where app: "append_ack (max_sack_blocks k) (generate_dsacks k) (dp_seqno p) ?a (sack_stack k) = (sacks, st)"
    by fastforce
  have "reply_ok (max_sack_blocks k) (generate_dsacks k) (dp_seqno p) b ?a sacks \<and> stack_ok (max_sack_blocks k) b ?a st"
    using append_ack_ok [of b ?a "dp_seqno p" "sack_stack k" lo "max_sack_blocks k" "generate_dsacks k"] ready app
    by (simp add: ack_ready_def)
  then show ?thesis
    using ready save by (simp add: sink_ack_def e app Let_def sink_ok_def ack_ready_def Seqno_def)
qed

text \<open>A packet arrives.\<close>

lemma update_ts_window: "\<exists>t. update_ts q ts r a = a\<lparr>ts_to_echo := t\<rparr>"
  by (cases a) (auto simp: update_ts_def)

lemma block_above_update:
  assumes "block_above lo b a x" "maxseen a \<le> maxseen a'" "n \<noteq> 0"
  shows "block_above lo (b(q := n)) a' x"
  using assms by (simp add: block_above_def)

lemma sink_window_ok:
  assumes ok: "sink_ok b k" and p: "0 \<le> dp_seqno p" "dp_size p \<noteq> 0"
  shows "\<exists>k'. sink_window p k = Some k' \<and> ack_ready (rcv_next (win k)) (b(dp_seqno p := dp_size p)) (dp_seqno p) k' \<and>
    is_dup (win k') = (b (dp_seqno p) \<noteq> 0) \<and> maxseen (win k') = max (maxseen (win k)) (dp_seqno p) \<and>
    save k' = save k \<and> timer_pending k' = timer_pending k \<and> max_sack_blocks k' = max_sack_blocks k \<and>
    generate_dsacks k' = generate_dsacks k \<and> lastreset k' = lastreset k \<and>
    sink_bytes k' = sink_bytes k + (\<Sum>i\<in>{rcv_next (win k)..<rcv_next (win k')}. (b(dp_seqno p := dp_size p)) i)"
proof -
  let ?q = "dp_seqno p" and ?b = "b(dp_seqno p := dp_size p)"
  obtain t where t: "update_ts ?q (dp_ts p) (ts_echo_rfc1323 k) (win k) = (win k)\<lparr>ts_to_echo := t\<rparr>"
    using update_ts_window by blast
  have ring: "ring_ok b ((win k)\<lparr>ts_to_echo := t\<rparr>)" using ok by (simp add: sink_ok_def)
  obtain a d where a: "acker_update ?q (dp_size p) ((win k)\<lparr>ts_to_echo := t\<rparr>) = Some (d, a)" "ring_ok ?b a"
    "is_dup a = (b ?q \<noteq> 0)" "maxseen a = max (maxseen (win k)) ?q" "rcv_next (win k) \<le> rcv_next a"
    "rcv_next (win k) < rcv_next a \<longrightarrow> ?q = rcv_next (win k)" "d = (\<Sum>i\<in>{rcv_next (win k)..<rcv_next a}. ?b i)"
    "\<forall>i. rcv_next (win k) \<le> i \<and> i \<le> maxseen a + 1 \<longrightarrow> seen a ! ring_ix (wndmask a) i = ?b i"
    using acker_update_ok [OF ring p] by auto
  define k' where "k' = k\<lparr>win := a, sink_bytes := sink_bytes k + d\<rparr>"
  have step: "sink_window p k = Some k'" by (cases "d = 0") (simp_all add: sink_window_def t a(1) k'_def)
  have "block_above (rcv_next (win k)) ?b a x" if "x \<in> set (sack_stack k)" for x
    using ok that a(4) p(2) by (intro block_above_update) (auto simp: sink_ok_def stack_ok_def block_good_def)
  moreover have "b (rcv_next (win k)) = 0" "0 \<le> rcv_next (win k)" using ring_okD [OF ring] by simp_all
  ultimately have "ack_ready (rcv_next (win k)) ?b ?q k'"
    using ok a p(2) by (auto simp: ack_ready_def k'_def sink_ok_def stack_ok_def hole_def)
  then show ?thesis using step a(3,4,7) by (intro exI [of _ k']) (simp add: k'_def)
qed

lemma rcv_next_unique:
  assumes "ring_ok b a" "ring_ok b a'"
  shows "rcv_next a = rcv_next a'"
  using ring_okD(1,4,5) [OF assms(1)] ring_okD(1,4,5) [OF assms(2)] by (meson linorder_less_linear)

lemma sink_recv_ok:
  assumes ok: "sink_ok b k" and p: "0 \<le> dp_seqno p" "dp_size p \<noteq> 0" "lastreset k \<le> dp_ts p"
  shows "\<exists>h k'. sink_recv p k = Some ([h], k') \<and> sink_ok (b(dp_seqno p := dp_size p)) k' \<and> ah_seqno h = rcv_next (win k') - 1 \<and>
    reply_ok (max_sack_blocks k) (generate_dsacks k) (dp_seqno p) (b(dp_seqno p := dp_size p)) (win k') (ah_sacks h) \<and>
    is_dup (win k') = (b (dp_seqno p) \<noteq> 0) \<and> max_sack_blocks k' = max_sack_blocks k \<and> generate_dsacks k' = generate_dsacks k \<and>
    lastreset k' = lastreset k \<and>
    sink_bytes k' = sink_bytes k + (\<Sum>i\<in>{rcv_next (win k)..<rcv_next (win k')}. (b(dp_seqno p := dp_size p)) i)"
proof -
  let ?b = "b(dp_seqno p := dp_size p)"
  obtain k1 where k1: "sink_window p k = Some k1" "ack_ready (rcv_next (win k)) ?b (dp_seqno p) k1"
    "is_dup (win k1) = (b (dp_seqno p) \<noteq> 0)" "save k1 = save k" "max_sack_blocks k1 = max_sack_blocks k"
    "generate_dsacks k1 = generate_dsacks k" "lastreset k1 = lastreset k"
    "sink_bytes k1 = sink_bytes k + (\<Sum>i\<in>{rcv_next (win k)..<rcv_next (win k1)}. ?b i)"
    using sink_window_ok [OF ok p(1,2)] by (elim exE conjE) (rule that, assumption+)
  have save: "\<forall>p'. save k1 = Some p' \<longrightarrow> ?b (dp_seqno p') \<noteq> 0" using ok k1(4) p(2) by (auto simp: sink_ok_def)
  obtain h k' where k': "sink_ack p k1 = (h, k')" "sink_ok ?b k'" "ah_seqno h = rcv_next (win k1) - 1"
    "reply_ok (max_sack_blocks k1) (generate_dsacks k1) (dp_seqno p) ?b (win k') (ah_sacks h)"
    "rcv_next (win k') = rcv_next (win k1)" "is_dup (win k') = is_dup (win k1)" "max_sack_blocks k' = max_sack_blocks k1"
    "generate_dsacks k' = generate_dsacks k1" "sink_bytes k' = sink_bytes k1" "lastreset k' = lastreset k1"
    using sink_ack_ok [OF k1(2) save] by (elim exE conjE) (rule that, assumption+)
  have "sink_recv p k = Some ([h], k')" using p(3) k1(1) k'(1) by (simp add: sink_recv_def)
  then show ?thesis using k' k1(3,5-8) by (intro exI [of _ h] exI [of _ k']) (simp del: fun_upd_apply)
qed

subsection \<open>Delayed acknowledgements\<close>

text \<open>When an acknowledgement is held back, the packet is the last one in sequence, and the stack needs no change.\<close>

lemma ack_ready_in_sequence:
  assumes ready: "ack_ready lo b q k" and q: "q = Seqno (win k)"
  shows "stack_ok (max_sack_blocks k) b (win k) (sack_stack k)"
proof -
  have ring: "ring_ok b (win k)" "lo \<le> rcv_next (win k)" "lo < rcv_next (win k) \<longrightarrow> q = lo"
    using ready by (simp_all add: ack_ready_def)
  have "block_good b (win k) x" if "x \<in> set (sack_stack k)" for x
  proof -
    have x: "block_above lo b (win k) x" using ready that by (simp add: ack_ready_def)
    then have "b (fst x) \<noteq> 0" by (simp add: block_above_def)
    then have "fst x \<noteq> rcv_next (win k)" using ring_okD(5) [OF ring(1)] by auto
    moreover have "lo = rcv_next (win k) \<or> lo + 1 = rcv_next (win k)" using ring(2,3) q by (auto simp: Seqno_def)
    ultimately show ?thesis using x by (auto simp: block_defs)
  qed
  then show ?thesis using ready by (simp add: ack_ready_def stack_ok_def)
qed

lemma ack_ready_pending:
  assumes "sink_ok b k" "b q \<noteq> 0"
  shows "ack_ready (rcv_next (win k)) b q k"
  using assms ring_okD(1) [of b "win k"] hole_iff [of b "win k"]
  by (auto simp: ack_ready_def sink_ok_def stack_ok_def block_good_def)

text \<open>What a correct acknowledgement of the packet \<open>q\<close> says when the sink is left in the state \<open>k\<close>.\<close>

definition ack_right :: "(int \<Rightarrow> int) \<Rightarrow> int \<Rightarrow> sink \<Rightarrow> ack_hdr \<Rightarrow> bool" where
  "ack_right b q k h \<longleftrightarrow>
     ah_seqno h = rcv_next (win k) - 1 \<and> reply_ok (max_sack_blocks k) (generate_dsacks k) q b (win k) (ah_sacks h)"

definition same_options :: "sink \<Rightarrow> sink \<Rightarrow> bool" where
  "same_options k k' \<longleftrightarrow>
     max_sack_blocks k' = max_sack_blocks k \<and> generate_dsacks k' = generate_dsacks k \<and> lastreset k' = lastreset k"

lemma sink_ok_idle: "sink_ok b k \<Longrightarrow> sink_ok b (k\<lparr>save := None\<rparr>) \<and> sink_ok b (k\<lparr>timer_pending := t\<rparr>)"
  by (simp add: sink_ok_def)

lemma delack_recv_ok:
  assumes ok: "sink_ok b k" and p: "0 \<le> dp_seqno p" "dp_size p \<noteq> 0" "lastreset k \<le> dp_ts p"
  shows "\<exists>hs k'. delack_recv p k = Some (hs, k') \<and> sink_ok (b(dp_seqno p := dp_size p)) k' \<and> same_options k k' \<and>
    (if timer_pending k' then hs = [] \<and> \<not> timer_pending k \<and> save k' = Some p \<and> dp_seqno p = rcv_next (win k') - 1
     else save k' = None \<and> (\<exists>h. hs = [h] \<and> ack_right (b(dp_seqno p := dp_size p)) (dp_seqno p) k' h))"
proof -
  let ?b = "b(dp_seqno p := dp_size p)"
  obtain k1 where k1: "sink_window p k = Some k1" "ack_ready (rcv_next (win k)) ?b (dp_seqno p) k1"
    "save k1 = save k" "max_sack_blocks k1 = max_sack_blocks k" "generate_dsacks k1 = generate_dsacks k"
    "lastreset k1 = lastreset k" "timer_pending k1 = timer_pending k"
    using sink_window_ok [OF ok p(1,2)] by (elim exE conjE) (rule that, assumption+)
  have in_time: "\<not> dp_ts p < lastreset k" using p(3) by simp
  show ?thesis
  proof (cases "\<not> timer_pending k1 \<and> dp_seqno p = Seqno (win k1) \<and>
      \<not> (RFC2581_immediate_ack k1 \<and> dp_seqno p < maxseen (win k1)) \<and> \<not> (SYN_immediate_ack k1 \<and> dp_seqno p = 0)")
    case True
    let ?k = "k1\<lparr>save := Some p, timer_pending := True\<rparr>"
    have "delack_recv p k = Some ([], ?k)" unfolding delack_recv_def if_not_P [OF in_time] k1(1) bind.simps if_P [OF True] ..
    moreover have "sink_ok ?b ?k"
      using ack_ready_in_sequence [OF k1(2)] k1(2) True by (simp add: sink_ok_def ack_ready_def)
    ultimately show ?thesis using True k1(4-7) by (auto simp: same_options_def Seqno_def)
  next
    case False
    let ?k = "k1\<lparr>timer_pending := False\<rparr>"
    have ready: "ack_ready (rcv_next (win k)) ?b (dp_seqno p) ?k" using k1(2) by (simp add: ack_ready_def)
    have save: "\<forall>p'. save ?k = Some p' \<longrightarrow> ?b (dp_seqno p') \<noteq> 0" using ok k1(3) p(2) by (auto simp: sink_ok_def)
    obtain h k' where k': "sink_ack p ?k = (h, k')" "sink_ok ?b k'" "ah_seqno h = rcv_next (win ?k) - 1"
      "reply_ok (max_sack_blocks ?k) (generate_dsacks ?k) (dp_seqno p) ?b (win k') (ah_sacks h)"
      "rcv_next (win k') = rcv_next (win ?k)" "timer_pending k' = timer_pending ?k" "max_sack_blocks k' = max_sack_blocks ?k"
      "generate_dsacks k' = generate_dsacks ?k" "lastreset k' = lastreset ?k"
      using sink_ack_ok [OF ready save] by (elim exE conjE) (rule that, assumption+)
    have "delack_recv p k = Some ([h], k'\<lparr>save := None\<rparr>)"
      unfolding delack_recv_def if_not_P [OF in_time] k1(1) bind.simps if_not_P [OF False] by (simp add: k'(1))
    then show ?thesis
      using k' k1(4-6) sink_ok_idle [OF k'(2)]
      by (intro exI [of _ "[h]"] exI [of _ "k'\<lparr>save := None\<rparr>"]) (simp add: same_options_def ack_right_def del: fun_upd_apply)
  qed
qed

lemma delack_timeout_ok:
  assumes ok: "sink_ok b k"
  shows "\<exists>hs k'. delack_timeout k = (hs, k') \<and> sink_ok b k' \<and> same_options k k' \<and> save k' = None \<and>
    rcv_next (win k') = rcv_next (win k) \<and>
    (case save k of None \<Rightarrow> hs = [] | Some p \<Rightarrow> \<exists>h. hs = [h] \<and> ack_right b (dp_seqno p) k' h)"
proof (cases "save k")
  case None
  then show ?thesis using ok sink_ok_idle [OF ok] by (simp add: delack_timeout_def same_options_def)
next
  case (Some p)
  let ?k = "k\<lparr>timer_pending := False\<rparr>"
  have k: "sink_ok b ?k" "b (dp_seqno p) \<noteq> 0" using sink_ok_idle [OF ok] ok Some by (auto simp: sink_ok_def)
  then have save: "\<forall>p'. save ?k = Some p' \<longrightarrow> b (dp_seqno p') \<noteq> 0" by (simp add: sink_ok_def)
  obtain h k' where k': "sink_ack p ?k = (h, k')" "sink_ok b k'" "ah_seqno h = rcv_next (win ?k) - 1"
    "reply_ok (max_sack_blocks ?k) (generate_dsacks ?k) (dp_seqno p) b (win k') (ah_sacks h)"
    "rcv_next (win k') = rcv_next (win ?k)" "max_sack_blocks k' = max_sack_blocks ?k"
    "generate_dsacks k' = generate_dsacks ?k" "lastreset k' = lastreset ?k"
    using sink_ack_ok [OF ack_ready_pending [OF k] save] by (elim exE conjE) (rule that, assumption+)
  have "delack_timeout k = ([h], k'\<lparr>save := None\<rparr>)" by (simp add: delack_timeout_def Some k'(1))
  then show ?thesis using k' Some sink_ok_idle [OF k'(2)] by (simp add: same_options_def ack_right_def)
qed

lemma sink_reset_ok: "sink_ok b k \<Longrightarrow> sink_ok (\<lambda>_. 0) (sink_reset now k\<lparr>sack_stack := []\<rparr>)"
  using ring_ok_reset by (auto simp: sink_ok_def sink_reset_def stack_ok_def)

lemma sink_window_stack:
  "sink_window p (k\<lparr>sack_stack := st\<rparr>) = map_option (sack_stack_update (\<lambda>_. st)) (sink_window p k)"
  by (auto simp: sink_window_def split: bind_splits)

lemma sink_ok_max_blocks: "sink_ok b k \<Longrightarrow> sink_ok b (set_max_sack_blocks n k)"
  by (simp add: sink_ok_def set_max_sack_blocks_def stack_ok_def)

lemma sink_ok_new: "sink_ok (\<lambda>_. 0) (new_sink bound)"
  using ring_ok_new by (simp add: sink_ok_def new_sink_def set_max_sack_blocks_def stack_ok_def)

subsection \<open>What a sender can rely on\<close>

text \<open>An acknowledgement is truthful for a set of packets: the packets that it acknowledges are in the set. Without duplicate selective
  acknowledgements its blocks are behind the first packet that is missing.\<close>

definition ack_truthful :: "bool \<Rightarrow> int set \<Rightarrow> ack_hdr \<Rightarrow> bool" where
  "ack_truthful dsacks S h \<longleftrightarrow>
     - 1 \<le> ah_seqno h \<and> {0..ah_seqno h} \<subseteq> S \<and>
     list_all (\<lambda>b. 0 \<le> fst b \<and> fst b < snd b \<and> {fst b..<snd b} \<subseteq> S \<and> (\<not> dsacks \<longrightarrow> ah_seqno h + 1 < fst b)) (ah_sacks h)"

lemma ack_truthful_mono: "ack_truthful d S h \<Longrightarrow> S \<subseteq> T \<Longrightarrow> ack_truthful d T h"
  unfolding ack_truthful_def by (auto simp: list_all_iff)

text \<open>The contract of a receiver for a sender: \<open>holds d S k\<close> says that in the state \<open>k\<close> no packet outside of \<open>S\<close> has come.\<close>

locale receiver =
  fixes arrive :: "data_pkt \<Rightarrow> 'k \<Rightarrow> (ack_hdr list \<times> 'k) option"
    and expire :: "'k \<Rightarrow> ack_hdr list \<times> 'k"
    and holds :: "bool \<Rightarrow> int set \<Rightarrow> 'k \<Rightarrow> bool"
  assumes arrive_ok: "holds d S k \<Longrightarrow> 0 \<le> dp_seqno p \<Longrightarrow> 0 < dp_size p \<Longrightarrow>
      \<exists>hs k'. arrive p k = Some (hs, k') \<and> holds d (insert (dp_seqno p) S) k' \<and>
        list_all (ack_truthful d (insert (dp_seqno p) S)) hs"
    and expire_ok: "holds d S k \<Longrightarrow> expire k = (hs, k') \<Longrightarrow> holds d S k' \<and> list_all (ack_truthful d S) hs"
    and holds_mono: "holds d S k \<Longrightarrow> S \<subseteq> T \<Longrightarrow> holds d T k"

text \<open>What happens to a receiver, with the acknowledgements that it sends.\<close>

datatype sink_event = Packet data_pkt | Timer

fun sink_step ::
  "(data_pkt \<Rightarrow> 'k \<Rightarrow> (ack_hdr list \<times> 'k) option) \<Rightarrow> ('k \<Rightarrow> ack_hdr list \<times> 'k) \<Rightarrow> sink_event \<Rightarrow> 'k \<Rightarrow>
     (ack_hdr list \<times> 'k) option" where
  "sink_step arrive expire (Packet p) k = arrive p k"
| "sink_step arrive expire Timer k = Some (expire k)"

fun sink_run ::
  "(data_pkt \<Rightarrow> 'k \<Rightarrow> (ack_hdr list \<times> 'k) option) \<Rightarrow> ('k \<Rightarrow> ack_hdr list \<times> 'k) \<Rightarrow> sink_event list \<Rightarrow> 'k \<Rightarrow>
     (ack_hdr list \<times> 'k) option" where
  "sink_run arrive expire [] k = Some ([], k)"
| "sink_run arrive expire (e # es) k = do {
     (hs, k) \<leftarrow> sink_step arrive expire e k;
     (hs', k) \<leftarrow> sink_run arrive expire es k;
     Some (hs @ hs', k)
   }"

fun arrivals :: "sink_event list \<Rightarrow> int set" where
  "arrivals [] = {}"
| "arrivals (Packet p # es) = insert (dp_seqno p) (arrivals es)"
| "arrivals (e # es) = arrivals es"

fun good_event :: "sink_event \<Rightarrow> bool" where
  "good_event (Packet p) \<longleftrightarrow> 0 \<le> dp_seqno p \<and> 0 < dp_size p"
| "good_event e \<longleftrightarrow> True"

context receiver
begin

lemma step_truthful:
  assumes "holds d S k" "good_event e"
  shows "\<exists>hs k'. sink_step arrive expire e k = Some (hs, k') \<and> holds d (S \<union> arrivals [e]) k' \<and>
    list_all (ack_truthful d (S \<union> arrivals [e])) hs"
proof (cases e)
  case (Packet p)
  then show ?thesis using arrive_ok [OF assms(1), of p] assms(2) by simp
next
  case Timer
  then show ?thesis using expire_ok [OF assms(1)] by (cases "expire k") simp
qed

lemma arrivals_Cons: "arrivals (e # es) = arrivals [e] \<union> arrivals es"
  by (cases e) simp_all

lemma run_truthful:
  assumes "holds d S k" "list_all good_event es"
  shows "\<exists>hs k'. sink_run arrive expire es k = Some (hs, k') \<and> holds d (S \<union> arrivals es) k' \<and>
    list_all (ack_truthful d (S \<union> arrivals es)) hs"
  using assms
proof (induction es arbitrary: S k)
  case (Cons e es)
  obtain hs k1 where k1: "sink_step arrive expire e k = Some (hs, k1)" "holds d (S \<union> arrivals [e]) k1"
    "list_all (ack_truthful d (S \<union> arrivals [e])) hs"
    using step_truthful [OF Cons.prems(1), of e] Cons.prems(2) by auto
  obtain hs' k2 where k2: "sink_run arrive expire es k1 = Some (hs', k2)"
    "holds d (S \<union> arrivals [e] \<union> arrivals es) k2" "list_all (ack_truthful d (S \<union> arrivals [e] \<union> arrivals es)) hs'"
    using Cons.IH [OF k1(2)] Cons.prems(2) by auto
  have "list_all (ack_truthful d (S \<union> arrivals (e # es))) hs"
    unfolding arrivals_Cons [of e es] Un_assoc [symmetric] using k1(3) ack_truthful_mono [OF _ Un_upper1] by (simp add: list_all_iff)
  then show ?case using k1(1) k2 by (simp add: arrivals_Cons [of e es] Un_assoc)
qed simp

end

subsection \<open>The sinks are receivers\<close>

definition sink_holds :: "bool \<Rightarrow> int set \<Rightarrow> sink \<Rightarrow> bool" where
  "sink_holds d S k \<longleftrightarrow> generate_dsacks k = d \<and> (\<exists>b. sink_ok b k \<and> {i. b i \<noteq> 0} \<subseteq> S)"

lemma sink_holdsI: "sink_ok b k \<Longrightarrow> {i. b i \<noteq> 0} \<subseteq> S \<Longrightarrow> generate_dsacks k = d \<Longrightarrow> sink_holds d S k"
  by (auto simp: sink_holds_def)

lemma ack_right_truthful:
  assumes right: "ack_right b q k h" and ok: "sink_ok b k" "b q \<noteq> 0" and S: "{i. b i \<noteq> 0} \<subseteq> S"
  shows "ack_truthful (generate_dsacks k) S h"
proof -
  have ring: "ring_ok b (win k)" using ok(1) by (simp add: sink_ok_def)
  note b = ring_okD [OF ring]
  have ack: "ah_seqno h = rcv_next (win k) - 1" using right by (simp add: ack_right_def)
  have "0 \<le> fst x \<and> fst x < snd x \<and> {fst x..<snd x} \<subseteq> S \<and> (\<not> generate_dsacks k \<longrightarrow> ah_seqno h + 1 < fst x)"
    if "x \<in> set (ah_sacks h)" for x
  proof (cases "block_good b (win k) x")
    case True
    then have "rcv_next (win k) < fst x" "fst x < snd x" "{fst x..<snd x} \<subseteq> S" using S by (auto simp: block_defs)
    then show ?thesis using ack b(1) by simp
  next
    case False
    then have "generate_dsacks k \<and> x = (q, q + 1)" using that right by (auto simp: ack_right_def reply_ok_def)
    moreover have "q \<in> S" using ok(2) S by blast
    ultimately show ?thesis using b(3) [OF ok(2)] by auto
  qed
  moreover have "{0..ah_seqno h} \<subseteq> S" using b(4) S ack by auto
  ultimately show ?thesis using b(1) ack by (simp add: ack_truthful_def list_all_iff)
qed

lemma sink_holds_insert: "{i. b i \<noteq> 0} \<subseteq> S \<Longrightarrow> {i. (b(q := n)) i \<noteq> (0 :: int)} \<subseteq> insert q S"
  by auto

lemma ack_right_arrived:
  assumes "ack_right (b(q := n)) q k h" "sink_ok (b(q := n)) k" "n \<noteq> 0" "{i. b i \<noteq> 0} \<subseteq> S"
  shows "ack_truthful (generate_dsacks k) (insert q S) h"
  by (rule ack_right_truthful [OF assms(1,2) _ sink_holds_insert [OF assms(4)]]) (simp add: assms(3))

lemma sink_recv_holds:
  assumes "sink_holds d S k" "0 \<le> dp_seqno p" "0 < dp_size p"
  shows "\<exists>hs k'. sink_recv p k = Some (hs, k') \<and> sink_holds d (insert (dp_seqno p) S) k' \<and>
    list_all (ack_truthful d (insert (dp_seqno p) S)) hs"
proof (cases "dp_ts p < lastreset k")
  case True
  then show ?thesis using assms(1) by (auto simp: sink_recv_def sink_holds_def)
next
  case False
  obtain b where b: "sink_ok b k" "{i. b i \<noteq> 0} \<subseteq> S" "generate_dsacks k = d" using assms(1) by (auto simp: sink_holds_def)
  have size: "dp_size p \<noteq> 0" "lastreset k \<le> dp_ts p" using assms(3) False by simp_all
  obtain h k' where k': "sink_recv p k = Some ([h], k')" "sink_ok (b(dp_seqno p := dp_size p)) k'"
    "ah_seqno h = rcv_next (win k') - 1"
    "reply_ok (max_sack_blocks k) (generate_dsacks k) (dp_seqno p) (b(dp_seqno p := dp_size p)) (win k') (ah_sacks h)"
    "max_sack_blocks k' = max_sack_blocks k" "generate_dsacks k' = generate_dsacks k"
    using sink_recv_ok [OF b(1) assms(2) size] by (elim exE conjE) (rule that, assumption+)
  have "ack_right (b(dp_seqno p := dp_size p)) (dp_seqno p) k' h" using k'(3-6) by (simp add: ack_right_def del: fun_upd_apply)
  then have "ack_truthful d (insert (dp_seqno p) S) h"
    using ack_right_arrived [OF _ k'(2) size(1) b(2)] k'(6) b(3) by simp
  then show ?thesis using k'(1) sink_holdsI [OF k'(2) sink_holds_insert [OF b(2)]] k'(6) b(3) by simp
qed

lemma delack_recv_holds:
  assumes "sink_holds d S k" "0 \<le> dp_seqno p" "0 < dp_size p"
  shows "\<exists>hs k'. delack_recv p k = Some (hs, k') \<and> sink_holds d (insert (dp_seqno p) S) k' \<and>
    list_all (ack_truthful d (insert (dp_seqno p) S)) hs"
proof (cases "dp_ts p < lastreset k")
  case True
  then show ?thesis using assms(1) by (auto simp: delack_recv_def sink_holds_def)
next
  case False
  obtain b where b: "sink_ok b k" "{i. b i \<noteq> 0} \<subseteq> S" "generate_dsacks k = d" using assms(1) by (auto simp: sink_holds_def)
  have size: "dp_size p \<noteq> 0" "lastreset k \<le> dp_ts p" using assms(3) False by simp_all
  obtain hs k' where k': "delack_recv p k = Some (hs, k')" "sink_ok (b(dp_seqno p := dp_size p)) k'" "same_options k k'"
    "if timer_pending k' then hs = [] \<and> \<not> timer_pending k \<and> save k' = Some p \<and> dp_seqno p = rcv_next (win k') - 1
     else save k' = None \<and> (\<exists>h. hs = [h] \<and> ack_right (b(dp_seqno p := dp_size p)) (dp_seqno p) k' h)"
    using delack_recv_ok [OF b(1) assms(2) size] by (elim exE conjE) (rule that, assumption+)
  have d: "generate_dsacks k' = d" using k'(3) b(3) by (simp add: same_options_def)
  have "list_all (ack_truthful d (insert (dp_seqno p) S)) hs"
    using k'(4) ack_right_arrived [OF _ k'(2) size(1) b(2)] d by (cases "timer_pending k'") auto
  then show ?thesis using k'(1) sink_holdsI [OF k'(2) sink_holds_insert [OF b(2)] d] by blast
qed

lemma delack_timeout_holds:
  assumes "sink_holds d S k" "delack_timeout k = (hs, k')"
  shows "sink_holds d S k' \<and> list_all (ack_truthful d S) hs"
proof -
  obtain b where b: "sink_ok b k" "{i. b i \<noteq> 0} \<subseteq> S" "generate_dsacks k = d" using assms(1) by (auto simp: sink_holds_def)
  have k': "sink_ok b k'" "generate_dsacks k' = d"
    "case save k of None \<Rightarrow> hs = [] | Some p \<Rightarrow> \<exists>h. hs = [h] \<and> ack_right b (dp_seqno p) k' h"
    using delack_timeout_ok [OF b(1)] assms(2) b(3) by (auto simp: same_options_def)
  have "list_all (ack_truthful d S) hs"
  proof (cases "save k")
    case (Some p)
    then have "b (dp_seqno p) \<noteq> 0" using b(1) by (simp add: sink_ok_def)
    then show ?thesis using k' Some ack_right_truthful [OF _ k'(1) _ b(2)] by auto
  qed (use k'(3) in simp)
  then show ?thesis using sink_holdsI [OF k'(1) b(2) k'(2)] by blast
qed

lemma sink_holds_mono: "sink_holds d S k \<Longrightarrow> S \<subseteq> T \<Longrightarrow> sink_holds d T k"
  by (auto simp: sink_holds_def)

interpretation plain_sink: receiver sink_recv "\<lambda>k. ([], k)" sink_holds
  by unfold_locales (use sink_recv_holds sink_holds_mono in \<open>auto\<close>)

interpretation delack_sink: receiver delack_recv delack_timeout sink_holds
  by unfold_locales (fact delack_recv_holds delack_timeout_holds sink_holds_mono | assumption)+

subsection \<open>Properties\<close>

lemma ack_right_missing:
  assumes "ack_right b q k h" "sink_ok b k"
  shows "b (ah_seqno h + 1) = 0 \<and> (\<forall>i. 0 \<le> i \<and> i \<le> ah_seqno h \<longrightarrow> b i \<noteq> 0)"
  using assms ring_okD(4,5) [of b "win k"] by (simp add: ack_right_def sink_ok_def)

text \<open>
  C29. The acknowledgement of \<open>TcpSink\<close> for a packet, in any state in which the window holds the packets \<open>b\<close>. It answers every packet at
  once. The number is that of the packet in front of the first missing one; the bytes handed over are those of the packets
  that the number has passed. There are at most as many blocks as the header allows; each is a range of packets that have
  come, above the first missing one, or the report of the packet itself as a duplicate when duplicates are reported. If the packet lies
  above the first missing one and is not reported as a duplicate, the first block is around it and ends at missing packets on both sides.
\<close>

theorem sink_recv_correct:
  assumes ok: "sink_ok b k" and p: "0 \<le> dp_seqno p" "0 < dp_size p" "lastreset k \<le> dp_ts p"
    and b': "b' = b(dp_seqno p := dp_size p)"
  shows "\<exists>h k'. sink_recv p k = Some ([h], k') \<and> sink_ok b' k' \<and>
    b' (ah_seqno h + 1) = 0 \<and> (\<forall>i. 0 \<le> i \<and> i \<le> ah_seqno h \<longrightarrow> b' i \<noteq> 0) \<and>
    sink_bytes k' = sink_bytes k + (\<Sum>i\<in>{rcv_next (win k)..ah_seqno h}. b' i) \<and>
    length (ah_sacks h) \<le> nat (max_sack_blocks k) \<and>
    (\<forall>x \<in> set (ah_sacks h).
       ah_seqno h + 1 < fst x \<and> fst x < snd x \<and> (\<forall>i. fst x \<le> i \<and> i < snd x \<longrightarrow> b' i \<noteq> 0) \<or>
       generate_dsacks k \<and> b (dp_seqno p) \<noteq> 0 \<and> x = (dp_seqno p, dp_seqno p + 1)) \<and>
    (ah_seqno h < dp_seqno p \<and> 0 < max_sack_blocks k \<and> \<not> (generate_dsacks k \<and> b (dp_seqno p) \<noteq> 0) \<longrightarrow>
       (\<exists>l r bs. ah_sacks h = (l, r) # bs \<and> l \<le> dp_seqno p \<and> dp_seqno p < r \<and> b' r = 0 \<and> b' (l - 1) = 0))"
proof -
  have "dp_size p \<noteq> 0" using p(2) by simp
  obtain h k' where k': "sink_recv p k = Some ([h], k')" "sink_ok b' k'" "ah_seqno h = rcv_next (win k') - 1"
    "reply_ok (max_sack_blocks k) (generate_dsacks k) (dp_seqno p) b' (win k') (ah_sacks h)"
    "is_dup (win k') = (b (dp_seqno p) \<noteq> 0)" "max_sack_blocks k' = max_sack_blocks k" "generate_dsacks k' = generate_dsacks k"
    "sink_bytes k' = sink_bytes k + (\<Sum>i\<in>{rcv_next (win k)..<rcv_next (win k')}. b' i)"
    using sink_recv_ok [OF ok p(1) \<open>dp_size p \<noteq> 0\<close> p(3), folded b'] by (elim exE conjE) (rule that, assumption+)
  have "ack_right b' (dp_seqno p) k' h" using k'(3,4,6,7) by (simp add: ack_right_def)
  then have missing: "b' (ah_seqno h + 1) = 0 \<and> (\<forall>i. 0 \<le> i \<and> i \<le> ah_seqno h \<longrightarrow> b' i \<noteq> 0)"
    using ack_right_missing k'(2) by blast
  have range: "{rcv_next (win k)..<rcv_next (win k')} = {rcv_next (win k)..ah_seqno h}" using k'(3) by auto
  show ?thesis
    using k'(1,2,4,8) missing
    unfolding reply_ok_def k'(5) Seqno_def k'(3) [symmetric] range block_defs
    by (intro exI [of _ h] exI [of _ k']) (auto simp: k'(3))
qed

text \<open>A sink that reports three blocks, and a packet of 1000 bytes.\<close>

definition example_sink :: sink where
  "example_sink =
     new_sink \<lparr>win = new_acker, sack_stack = [], max_sack_blocks = 3, generate_dsacks = False, ts_echo_bugfix = True,
       ts_echo_rfc1323 = False, RFC2581_immediate_ack = True, SYN_immediate_ack = False, ecn_syn = False, sink_bytes = 0,
       lastreset = 0, save = None, timer_pending = False\<rparr>"

definition example_data :: "int \<Rightarrow> data_pkt" where
  "example_data q =
     \<lparr>dp_seqno = q, dp_size = 1000, dp_ts = 0, dp_cong_action = False, dp_ect = False, dp_ce = False, dp_ecnecho = False\<rparr>"

lemma example_sink_ok: "sink_ok (\<lambda>_. 0) example_sink"
  unfolding example_sink_def by (rule sink_ok_new)

lemma example_sink_simps [simp]:
  "lastreset example_sink = 0" "max_sack_blocks example_sink = 3" "generate_dsacks example_sink = False"
  "timer_pending example_sink = False" "save example_sink = None"
  "dp_seqno (example_data q) = q" "dp_size (example_data q) = 1000" "dp_ts (example_data q) = 0"
  by (simp_all add: example_sink_def example_data_def new_sink_def set_max_sack_blocks_def)

theorem sink_recv_correct_witness:
  "\<exists>h k'. sink_recv (example_data 2) example_sink = Some ([h], k') \<and> ah_seqno h < 0 \<and>
     (\<exists>l r bs. ah_sacks h = (l, r) # bs \<and> l \<le> 2 \<and> 2 < r)"
proof -
  obtain h k' where k': "sink_recv (example_data 2) example_sink = Some ([h], k')"
    "\<forall>i. 0 \<le> i \<and> i \<le> ah_seqno h \<longrightarrow> ((\<lambda>_. 0)(2 := 1000)) i \<noteq> (0 :: int)"
    "ah_seqno h < 2 \<longrightarrow> (\<exists>l r bs. ah_sacks h = (l, r) # bs \<and> l \<le> 2 \<and> 2 < r)"
    using sink_recv_correct [OF example_sink_ok, of "example_data 2" "(\<lambda>_. 0)(2 := 1000)"] by auto
  have "ah_seqno h < 0" using spec [OF k'(2), of 0] by auto
  then show ?thesis using k'(1,3) by auto
qed

text \<open>
  C30. The acknowledgement of \<open>DelAckSink\<close>. A packet is acknowledged at once, or its acknowledgement is held back and the timer is set;
  only the packet in front of the first missing one is held back, and never two packets one after the other, as a pending timer forces an
  acknowledgement. When the timer expires, the packet held back is acknowledged with its own number, and an acknowledgement that is sent is as right as
  that of \<open>TcpSink\<close>.
\<close>

theorem delack_recv_correct:
  assumes ok: "sink_ok b k" and p: "0 \<le> dp_seqno p" "0 < dp_size p" "lastreset k \<le> dp_ts p"
    and b': "b' = b(dp_seqno p := dp_size p)"
  shows "\<exists>hs k'. delack_recv p k = Some (hs, k') \<and> sink_ok b' k' \<and> (timer_pending k' \<longleftrightarrow> hs = []) \<and>
    (timer_pending k \<longrightarrow> hs \<noteq> []) \<and>
    (if hs = []
     then \<exists>h k''. delack_timeout k' = ([h], k'') \<and> ah_seqno h = dp_seqno p \<and> sink_ok b' k'' \<and> ack_right b' (dp_seqno p) k'' h
     else \<exists>h. hs = [h] \<and> ack_right b' (dp_seqno p) k' h)"
proof -
  have size: "dp_size p \<noteq> 0" using p(2) by simp
  obtain hs k' where k': "delack_recv p k = Some (hs, k')" "sink_ok b' k'" "same_options k k'"
    "if timer_pending k' then hs = [] \<and> \<not> timer_pending k \<and> save k' = Some p \<and> dp_seqno p = rcv_next (win k') - 1
     else save k' = None \<and> (\<exists>h. hs = [h] \<and> ack_right b' (dp_seqno p) k' h)"
    using delack_recv_ok [OF ok p(1) size p(3), folded b'] by (elim exE conjE) (rule that, assumption+)
  show ?thesis
  proof (cases "timer_pending k'")
    case True
    then have held: "hs = []" "\<not> timer_pending k" "save k' = Some p" "dp_seqno p = rcv_next (win k') - 1" using k'(4) by simp_all
    obtain h k'' where "delack_timeout k' = ([h], k'')" "sink_ok b' k''" "rcv_next (win k'') = rcv_next (win k')"
      "ack_right b' (dp_seqno p) k'' h"
      using delack_timeout_ok [OF k'(2)] by (auto simp: held(3))
    then show ?thesis using k'(1,2) True held by (auto simp: ack_right_def)
  next
    case False
    then show ?thesis using k'(1,2,4) by auto
  qed
qed

theorem delack_recv_correct_witness:
  "\<exists>hs k'. delack_recv (example_data 0) example_sink = Some (hs, k') \<and> (timer_pending k' \<longleftrightarrow> hs = []) \<and>
     (hs = [] \<longrightarrow> (\<exists>h k''. delack_timeout k' = ([h], k'') \<and> ah_seqno h = 0))"
proof -
  obtain hs k' where "delack_recv (example_data 0) example_sink = Some (hs, k')" "timer_pending k' \<longleftrightarrow> hs = []"
    "if hs = [] then \<exists>h k''. delack_timeout k' = ([h], k'') \<and> ah_seqno h = 0 else True"
    using delack_recv_correct [OF example_sink_ok, of "example_data 0" "(\<lambda>_. 0)(0 := 1000)"] by (auto split: if_splits)
  then show ?thesis by (auto split: if_splits)
qed

text \<open>
  C32. What a sender can rely on, for both sinks. Over every sequence of packets of positive size and timers, neither sink fails, and each
  acknowledgement it has sent is truthful: every packet that it acknowledges, cumulatively or in a block, has come, and without
  reports of duplicates no block touches the first missing packet.
\<close>

theorem sinks_acknowledge_truthfully:
  assumes "list_all good_event es"
  shows "(\<exists>hs k. sink_run sink_recv (\<lambda>k. ([], k)) es (new_sink bound) = Some (hs, k) \<and>
      list_all (ack_truthful (generate_dsacks bound) (arrivals es)) hs) \<and>
    (\<exists>hs k. sink_run delack_recv delack_timeout es (new_sink bound) = Some (hs, k) \<and>
      list_all (ack_truthful (generate_dsacks bound) (arrivals es)) hs)"
proof -
  have start: "sink_holds (generate_dsacks bound) {} (new_sink bound)"
    using sink_holdsI [OF sink_ok_new, of "{}" bound] by (simp add: new_sink_def set_max_sack_blocks_def)
  show ?thesis
    using plain_sink.run_truthful [OF start assms] delack_sink.run_truthful [OF start assms] by auto
qed

theorem sinks_acknowledge_truthfully_witness:
  "\<exists>hs k. sink_run delack_recv delack_timeout [Packet (example_data 0), Packet (example_data 2), Timer] example_sink
     = Some (hs, k) \<and> list_all (ack_truthful False {0, 2}) hs"
  using sinks_acknowledge_truthfully [of "[Packet (example_data 0), Packet (example_data 2), Timer]"
      "example_sink"]
  by (simp add: example_sink_def new_sink_def set_max_sack_blocks_def insert_commute)

lemma fresh_block_around:
  assumes ok: "ring_ok ((\<lambda>_. 0)(q := n)) a" and q: "0 < q" "n \<noteq> 0" "maxseen a = q"
  shows "rcv_next a = 0 \<and> right_edge a q = q + 1 \<and> left_edge a (q + 1) = q"
proof -
  let ?b = "(\<lambda>_. 0 :: int)(q := n)"
  note b = ring_okD [OF ok]
  have next0: "rcv_next a = 0" using b(1,4) q(1) by (metis fun_upd_other order_le_less less_irrefl)
  have first: "block_good ?b a (left_edge a (right_edge a q), right_edge a q)" "left_edge a (right_edge a q) \<le> q" "q < right_edge a q"
    using first_block [OF ok, of q] next0 q by simp_all
  then have "right_edge a q = q + 1" using q(3) by (simp add: block_defs)
  moreover have "?b (left_edge a (right_edge a q)) \<noteq> 0" using first by (auto simp only: block_defs fst_conv snd_conv)
  ultimately show ?thesis using next0 by (auto split: if_splits)
qed

lemma append_ack_stale:
  assumes a: "rcv_next a = 0" "maxseen a = q" "right_edge a q = q + 1" "left_edge a (q + 1) = q"
    and q: "0 < q" "1 < n" and old: "0 \<le> l" "l < r" "r \<le> q"
  shows "\<exists>bs st'. append_ack n False q a ((l, r) # st) = ((q, q + 1) # (l, r) # bs, st')"
proof -
  obtain room where room: "nat n - 1 = Suc room" using q(2) by (metis Suc_diff_Suc diff_zero nat_less_eq_zless nat_one_as_int of_nat_0_le_iff One_nat_def Suc_nat_eq_nat_zadd1 zless_nat_eq_int_zless zero_le_one)
  obtain bs st' where "older_blocks q (q, q + 1) room st = (bs, st')" by (cases "older_blocks q (q, q + 1) room st")
  then have "older_blocks q (q, q + 1) (nat n - 1) ((l, r) # st) = ((l, r) # bs, (l, r) # st')"
    using old unfolding room by (simp del: One_nat_def)
  then show ?thesis using a q by (simp add: append_ack_def Seqno_def Let_def)
qed

text \<open>
  A reset keeps the blocks to report. The command that resets a sink runs \<open>Acker::reset\<close>, which empties the window, and not
  \<open>Sacker::reset\<close>, which would empty the stack as well. When the first packet after the reset, of the new connection, is one above the
  old blocks, its acknowledgement reports the newest old block as received, though only that packet has come.
\<close>

theorem reset_keeps_sack_stack:
  assumes ok: "sink_ok b k" and old: "sack_stack k = (l, r) # st" and opt: "1 < max_sack_blocks k" "\<not> generate_dsacks k"
    and p: "r \<le> dp_seqno p" "0 < dp_size p" "now \<le> dp_ts p"
  shows "\<exists>h k' bs. sink_recv p (sink_reset now k) = Some ([h], k') \<and>
    ah_seqno h = - 1 \<and> ah_sacks h = (dp_seqno p, dp_seqno p + 1) # (l, r) # bs \<and> \<not> ack_truthful False {dp_seqno p} h"
proof -
  let ?q = "dp_seqno p" and ?n = "dp_size p"
  let ?k0 = "sink_reset now k\<lparr>sack_stack := []\<rparr>"
  have block: "0 \<le> l" "l < r"
    using ok old ring_okD(1) [of b "win k"] by (auto simp: sink_ok_def stack_ok_def block_defs)
  then have q: "0 < ?q" "0 \<le> ?q" "?n \<noteq> 0" using p(1,2) by simp_all
  have start: "maxseen (win ?k0) = 0" by (simp add: sink_reset_def acker_reset_def)
  obtain k1 where k1: "sink_window p ?k0 = Some k1" "ack_ready (rcv_next (win ?k0)) ((\<lambda>_. 0)(?q := ?n)) ?q k1"
    "maxseen (win k1) = max (maxseen (win ?k0)) ?q" "max_sack_blocks k1 = max_sack_blocks ?k0" "generate_dsacks k1 = generate_dsacks ?k0"
    using sink_window_ok [OF sink_reset_ok [OF ok, of now] q(2,3)] by (elim exE conjE) (rule that, assumption+)
  have max: "maxseen (win k1) = ?q" using k1(3) start q by simp
  obtain e where e: "ecn_state p (k1\<lparr>sack_stack := sack_stack k\<rparr>) = (win k1)\<lparr>ecn_unacked := e\<rparr>"
    using ecn_state_window [of p "k1\<lparr>sack_stack := sack_stack k\<rparr>"] by auto
  let ?a = "(win k1)\<lparr>ecn_unacked := e\<rparr>"
  have ring: "ring_ok ((\<lambda>_. 0)(?q := ?n)) ?a" using k1(2) by (simp add: ack_ready_def)
  have a: "rcv_next ?a = 0" "maxseen ?a = ?q" "right_edge ?a ?q = ?q + 1" "left_edge ?a (?q + 1) = ?q"
    using fresh_block_around [OF ring q(1,3)] max by simp_all
  obtain bs st' where app: "append_ack (max_sack_blocks k) False ?q ?a ((l, r) # st) = ((?q, ?q + 1) # (l, r) # bs, st')"
    using append_ack_stale [OF a q(1) opt(1) block p(1)] by blast
  have opts: "max_sack_blocks k1 = max_sack_blocks k" "\<not> generate_dsacks k1" using k1(4,5) opt(2) by (simp_all add: sink_reset_def)
  obtain h k' where hk: "sink_ack p (k1\<lparr>sack_stack := sack_stack k\<rparr>) = (h, k')" by fastforce
  then have h: "ah_seqno h = - 1" "ah_sacks h = (?q, ?q + 1) # (l, r) # bs"
    using app opts a(1) unfolding sink_ack_def Let_def e by (auto simp: Seqno_def old)
  have same: "sink_reset now k = ?k0\<lparr>sack_stack := sack_stack k\<rparr>" by (simp add: sink_reset_def)
  have "sink_window p (sink_reset now k) = Some (k1\<lparr>sack_stack := sack_stack k\<rparr>)"
    by (subst same, subst sink_window_stack) (simp add: k1(1))
  moreover have "\<not> dp_ts p < lastreset (sink_reset now k)" using p(3) by (simp add: sink_reset_def)
  ultimately have "sink_recv p (sink_reset now k) = Some ([h], k')" using hk by (simp add: sink_recv_def)
  moreover have "l \<in> {l..<r}" "l \<noteq> ?q" using block p(1) by auto
  then have "\<not> ack_truthful False {?q} h" unfolding ack_truthful_def h by auto
  ultimately show ?thesis using h by blast
qed

text \<open>A sink that has got the packet 2 of an earlier connection, and the packet 5 of the next one.\<close>

definition worn_sink :: sink where
  "worn_sink = example_sink\<lparr>win := new_acker\<lparr>maxseen := 2, seen := (replicate 64 0)[2 := 1000]\<rparr>, sack_stack := [(2, 3)]\<rparr>"

lemma worn_sink_ok: "sink_ok ((\<lambda>_. 0)(2 := 1000)) worn_sink"
proof -
  let ?a = "new_acker\<lparr>maxseen := 2, seen := (replicate 64 0)[2 := 1000]\<rparr>" and ?b = "(\<lambda>_. 0 :: int)(2 := 1000)"
  have ix: "ring_ix 63 i = nat i" if "0 \<le> i" "i \<le> 3" for i
    using ring_ix_mod [of 6 i] that by (simp add: mod_pos_pos_trivial)
  have seen: "(replicate 64 0)[2 := 1000] ! ring_ix 63 i = ?b i" if "0 \<le> i" "i \<le> 3" for i
    using that by (cases "i = 2") (simp_all add: ix nth_list_update nat_eq_iff)
  have fields: "wndmask ?a = 63" "rcv_next ?a = 0" "maxseen ?a = 2" "seen ?a = (replicate 64 0)[2 := 1000]"
    by (simp_all add: new_acker_def)
  have size: "\<exists>k. wndmask ?a = 2 ^ k - 1 \<and> length (seen ?a) = 2 ^ k" unfolding fields by (rule exI [of _ 6]) simp
  have "window_holds ?b ?a" unfolding window_holds_def fields using seen by simp
  then have "ring_ok ?b ?a" unfolding ring_ok_def using size by (simp add: fields)
  then show ?thesis
    by (simp add: sink_ok_def worn_sink_def stack_ok_def block_defs fields)
qed

theorem reset_keeps_sack_stack_witness:
  "\<exists>h k'. sink_recv (example_data 5) (sink_reset 0 worn_sink) = Some ([h], k') \<and> \<not> ack_truthful False {5} h"
  using reset_keeps_sack_stack [OF worn_sink_ok, of 2 3 "[]" "example_data 5" 0] by (auto simp: worn_sink_def)


end
