(* ===== verification/Network.thy ===== *)
theory Network
  imports Connection Sack_Sink
begin

section \<open>A connection and its receiver\<close>

text \<open>
  The agent and a sink, joined by a network that may lose, reorder and duplicate what it carries: a packet that was sent may
  arrive any number of times and in any order, and so may an acknowledgement. The sender is that of \<open>Connection\<close> with any
  module inside its contract, the receiver any one inside the contract \<open>receiver\<close>. The invariant of the two is that of the protocol: the
  sender takes only packets as acknowledged that have arrived.
\<close>

subsection \<open>Packets taken as acknowledged\<close>

definition acked :: "'ca sender \<Rightarrow> int set" where
  "acked s = {0..highest_ack s} \<union> packets SKB_SACKED (sb_blocks (scb s))"

text \<open>A step of the sender that acknowledges at most the packets \<open>S\<close>.\<close>

definition acks_only :: "int set \<Rightarrow> 'ca sender \<Rightarrow> 'ca sender \<Rightarrow> bool" where
  "acks_only S s s' \<longleftrightarrow> acked s' \<subseteq> acked s \<union> S \<and> t_seqno s \<le> t_seqno s'"

lemma acks_only_trans: "acks_only S s s1 \<Longrightarrow> acks_only {} s1 s2 \<Longrightarrow> acks_only S s s2"
  by (auto simp: acks_only_def)

lemma acked_simps [simp]:
  "acked (set_agent_part s a) = {0..highest_ack a} \<union> packets SKB_SACKED (sb_blocks (scb s))"
  "acked (load_to_linux cf w s) = acked s"
  by (simp_all add: acked_def)

lemma acks_only_send:
  assumes "send_much force maxburst s = Some s'"
  shows "acks_only {} s s'"
  using send_much_forward [OF assms] send_much_frame [OF assms]
  by (auto simp: acks_only_def acked_def send_forward_def send_frame_def)

lemma acks_only_agent:
  assumes "on_agent f s = Some s'" "\<And>a a'. f a = Some a' \<Longrightarrow> highest_ack a' = highest_ack a"
  shows "acks_only {} s s'"
  using assms by (auto simp: on_agent_def acks_only_def acked_def)

lemma acks_only_advance: "advanceby maxburst n s = Some s' \<Longrightarrow> acks_only {} s s'"
  using acks_only_send [of False maxburst "s\<lparr>curseq := curseq s + n\<rparr>" s'] by (simp add: advanceby_def acks_only_def acked_def)

lemma acks_only_timeout:
  assumes ok: "sender_ok s" and step: "timeout ops cf k s = Some s'"
  shows "acks_only {} s s'"
proof (cases "highest_ack s = maxseq s \<and> \<not> cf_slow_start_restart cf")
  case True
  then show ?thesis using step by (simp add: timeout_def acks_only_def)
next
  case False
  let ?restart = "highest_ack s = maxseq s \<and> cf_restart_bugfix cf"
  have send: "acks_only {} s s'"
    if "send_much False 0 (s1\<lparr>next_pkts_in_flight := 0, linux := (linux s1)\<lparr>bytes_acked := 0\<rparr>\<rparr>) = Some s'" "acks_only {} s s1" for s1
  proof -
    have "acks_only {} s1 s'" using acks_only_send [OF that(1)] by (simp add: acks_only_def acked_def)
    then show ?thesis using that(2) acks_only_trans by blast
  qed
  show ?thesis
  proof (cases ?restart)
    case True
    then show ?thesis using step False by (intro send) (auto simp: timeout_def acks_only_def)
  next
    case lost: False
    obtain s1 sb where s1: "on_agent (enter_loss ops k) s = Some s1" "MarkLoss (highest_ack s1 + 1) (t_seqno s1) (scb s1) = Some sb"
      "send_much False 0 ((s1\<lparr>scb := sb\<rparr>)\<lparr>next_pkts_in_flight := 0, linux := (linux (s1\<lparr>scb := sb\<rparr>))\<lparr>bytes_acked := 0\<rparr>\<rparr>) = Some s'"
      using step unfolding timeout_def if_not_P [OF False] if_not_P [OF lost] by (auto split: bind_splits)
    have same: "highest_ack s1 = highest_ack s" "scb s1 = scb s" "t_seqno s1 = t_seqno s"
      using s1(1) enter_loss_ack by (fastforce simp: on_agent_def)+
    have board: "board_ok (highest_ack s + 1) (scb s)" "frontier (highest_ack s + 1) (sb_blocks (scb s)) \<le> t_seqno s"
      "highest_ack s + 1 \<le> t_seqno s" using ok by (simp_all add: sender_ok_def)
    have "packets SKB_SACKED (sb_blocks sb) = packets SKB_SACKED (sb_blocks (scb s))"
      using MarkLoss_ok [OF board] s1(2) by (auto simp: same)
    then have "acks_only {} s (s1\<lparr>scb := sb\<rparr>)" using same by (simp add: acks_only_def acked_def)
    then show ?thesis by (rule send [OF s1(3)])
  qed
qed

lemma acks_only_alert:
  assumes "fastretrans_alert ops k flag s = Some s'"
  shows "acks_only {} s s'"
proof -
  let ?s = "if recovery_done s then s\<lparr>scb := ClearScoreBoard (scb s)\<rparr> else s"
  have "on_agent (tcp_fastretrans_alert ops k (in_flight ?s) flag) ?s = Some s'"
    using assms by (simp add: fastretrans_alert_def Let_def)
  then have "acks_only {} ?s s'" by (rule acks_only_agent) (rule fastretrans_ack)
  moreover have "acks_only {} s ?s" by (simp add: acks_only_def acked_def ClearScoreBoard_def)
  ultimately show ?thesis using acks_only_trans by blast
qed

lemma acks_only_control:
  assumes "congestion_control ops i s = Some s'"
  shows "acks_only {} s s'"
proof -
  have call: "acks_only {} s s1" if "on_agent (tcp_cong_avoid_call ops i good) s = Some s1" for good and s s1 :: "'a sender"
    using that by (rule acks_only_agent) (rule cong_avoid_call_ack)
  have refl: "acks_only {} s s" by (simp add: acks_only_def)
  show ?thesis
    using assms call acks_only_alert acks_only_trans refl
    unfolding congestion_control_def by (auto split: if_splits bind_splits) blast+
qed

lemma sacked_by_filter: "sacked_by (filter P bs) \<subseteq> sacked_by bs"
  by (auto simp: sacked_by_def)

lemma update_scoreboard_sacked:
  assumes ok: "sender_ok s" and p: "highest_ack s \<le> pk_seqno p"
    and sacks: "list_all (\<lambda>b. fst b < snd b \<and> fst b \<noteq> pk_seqno p) (pk_sacks p)"
    and upd: "update_scoreboard p s = Some (flag, sb)"
  shows "packets SKB_SACKED (sb_blocks sb) \<subseteq> packets SKB_SACKED (sb_blocks (scb s)) \<union> sacked_by (pk_sacks p)"
proof (cases "pk_sacks p \<noteq> [] \<or> sb_blocks (scb s) \<noteq> []")
  case True
  have max: "max (highest_ack s) (pk_seqno p) = pk_seqno p" using p by simp
  have board: "board_ok (highest_ack s + 1) (scb s)" "highest_ack s + 1 \<le> pk_seqno p + 1" using ok p by (simp_all add: sender_ok_def)
  have S: "\<forall>b \<in> set (pk_sacks p). fst b < snd b \<and> fst b \<noteq> pk_seqno p" using sacks by (simp add: list_all_iff)
  obtain sb' flag' where sb': "UpdateScoreBoard (pk_seqno p) (pk_sacks p) 3 (scb s) = Some (sb', flag')"
    "packets SKB_SACKED (sb_blocks sb') =
      (packets SKB_SACKED (sb_blocks (scb s)) \<union> sacked_by (filter (\<lambda>b. pk_seqno p < fst b) (pk_sacks p))) \<inter>
      {pk_seqno p<..<frontier (pk_seqno p + 1) (sb_blocks sb')}"
    using UpdateScoreBoard_ok [OF board S, of 3 0] by metis
  have "sb = sb'" using upd True sb'(1) by (simp add: update_scoreboard_def max)
  then show ?thesis using sb'(2) sacked_by_filter [of "\<lambda>b. pk_seqno p < fst b" "pk_sacks p"] by auto
next
  case False
  then show ?thesis using upd by (simp add: update_scoreboard_def)
qed

lemma acks_only_recv:
  assumes ok: "sender_ok s" and sacks: "list_all (\<lambda>b. fst b < snd b \<and> fst b \<noteq> pk_seqno p) (pk_sacks p)"
    and step: "recv ops maxburst p s = Some s'"
  shows "acks_only ({0..pk_seqno p} \<union> sacked_by (pk_sacks p)) s s'"
proof (cases "t_seqno s < pk_seqno p + 1 \<or> pk_seqno p < highest_ack s")
  case True
  then show ?thesis using step by (simp add: recv_def acks_only_def)
next
  case False
  obtain flag sb where upd: "update_scoreboard p s = Some (flag, sb)"
    using step unfolding recv_def if_not_P [OF False] by (auto split: bind_splits)
  define i where "i = ack_of p flag s"
  obtain s1 s2 s3 where step: "on_agent (\<lambda>a. Some (ack_processing p i a)) (s\<lparr>scb := sb\<rparr>) = Some s1"
    "on_agent (recv_samples ops i) s1 = Some s2" "congestion_control ops i s2 = Some s3" "send_much False maxburst s3 = Some s'"
    using step upd unfolding recv_def if_not_P [OF False] Let_def i_def by (auto split: bind_splits)
  have "in_highest_ack i = pk_seqno p" using False by (simp add: i_def ack_of_def Let_def)
  then have s1: "acked s1 = {0..pk_seqno p} \<union> packets SKB_SACKED (sb_blocks sb)" "t_seqno s1 = t_seqno s"
    using step(1) by (auto simp: on_agent_def)
  have "packets SKB_SACKED (sb_blocks sb) \<subseteq> packets SKB_SACKED (sb_blocks (scb s)) \<union> sacked_by (pk_sacks p)"
    using update_scoreboard_sacked [OF ok _ sacks upd] False by simp
  then have "acks_only ({0..pk_seqno p} \<union> sacked_by (pk_sacks p)) s s1"
    using s1 by (auto simp: acks_only_def acked_def)
  moreover have "acks_only {} s1 s2" using step(2) by (rule acks_only_agent) (rule recv_samples_ack)
  moreover have "acks_only {} s2 s3" using step(3) by (rule acks_only_control)
  moreover have "acks_only {} s3 s'" using step(4) by (rule acks_only_send)
  ultimately show ?thesis using acks_only_trans by blast
qed

subsection \<open>The network\<close>

text \<open>The two ends, the acknowledgements that were ever sent, and the packets that have arrived.\<close>

record ('ca, 'k) net =
  net_sender :: "'ca sender"
  net_sink :: 'k
  net_acks :: "ack_hdr list"
  net_arrived :: "int list"

datatype net_event = Arrive data_pkt | Answer ack_pkt | Sink_Timer | Sender_Timer kern | App int

fun net_step ::
  "'ca tcp_congestion_ops \<Rightarrow> config \<Rightarrow> (data_pkt \<Rightarrow> 'k \<Rightarrow> (ack_hdr list \<times> 'k) option) \<Rightarrow> ('k \<Rightarrow> ack_hdr list \<times> 'k) \<Rightarrow>
     net_event \<Rightarrow> ('ca, 'k) net \<Rightarrow> ('ca, 'k) net option" where
  "net_step ops cf arrive expire (Arrive p) n = do {
     (hs, k) \<leftarrow> arrive p (net_sink n);
     Some (n\<lparr>net_sink := k, net_acks := net_acks n @ hs, net_arrived := dp_seqno p # net_arrived n\<rparr>)
   }"
| "net_step ops cf arrive expire Sink_Timer n =
     (let (hs, k) = expire (net_sink n) in Some (n\<lparr>net_sink := k, net_acks := net_acks n @ hs\<rparr>))"
| "net_step ops cf arrive expire (Answer p) n = do {
     s \<leftarrow> conn_step ops cf (Ack p) (net_sender n);
     Some (n\<lparr>net_sender := s\<rparr>)
   }"
| "net_step ops cf arrive expire (Sender_Timer k) n = do {
     s \<leftarrow> conn_step ops cf (Rto k) (net_sender n);
     Some (n\<lparr>net_sender := s\<rparr>)
   }"
| "net_step ops cf arrive expire (App i) n = do {
     s \<leftarrow> conn_step ops cf (Advance i) (net_sender n);
     Some (n\<lparr>net_sender := s\<rparr>)
   }"

fun net_run ::
  "'ca tcp_congestion_ops \<Rightarrow> config \<Rightarrow> (data_pkt \<Rightarrow> 'k \<Rightarrow> (ack_hdr list \<times> 'k) option) \<Rightarrow> ('k \<Rightarrow> ack_hdr list \<times> 'k) \<Rightarrow>
     net_event list \<Rightarrow> ('ca, 'k) net \<Rightarrow> ('ca, 'k) net option" where
  "net_run ops cf arrive expire [] n = Some n"
| "net_run ops cf arrive expire (e # es) n = do { n \<leftarrow> net_step ops cf arrive expire e n; net_run ops cf arrive expire es n }"

text \<open>The network carries packets that were sent and acknowledgements that a sink sent; the clock and the estimates of the sender
  are within the range of the module.\<close>

definition answers :: "ack_pkt \<Rightarrow> ack_hdr \<Rightarrow> bool" where
  "answers p h \<longleftrightarrow> pk_seqno p = ah_seqno h \<and> pk_sacks p = ah_sacks h"

fun net_possible :: "(ack_in \<Rightarrow> bool) \<Rightarrow> net_event \<Rightarrow> ('ca, 'k) net \<Rightarrow> bool" where
  "net_possible env (Arrive p) n \<longleftrightarrow> list_ex (\<lambda>q. q = dp_seqno p) (packets_sent (net_sender n)) \<and> 0 < dp_size p"
| "net_possible env (Answer p) n \<longleftrightarrow>
     list_ex (answers p) (net_acks n) \<and> 0 < tcp_max_burst (pk_kern p) \<and>
     (case update_scoreboard p (net_sender n) of None \<Rightarrow> True | Some (flag, sb) \<Rightarrow> env (ack_of p flag (net_sender n)))"
| "net_possible env e n \<longleftrightarrow> True"

fun net_run_possible ::
  "'ca tcp_congestion_ops \<Rightarrow> config \<Rightarrow> (data_pkt \<Rightarrow> 'k \<Rightarrow> (ack_hdr list \<times> 'k) option) \<Rightarrow> ('k \<Rightarrow> ack_hdr list \<times> 'k) \<Rightarrow>
     (ack_in \<Rightarrow> bool) \<Rightarrow> net_event list \<Rightarrow> ('ca, 'k) net \<Rightarrow> bool" where
  "net_run_possible ops cf arrive expire env [] n = True"
| "net_run_possible ops cf arrive expire env (e # es) n =
     (net_possible env e n \<and>
      (case net_step ops cf arrive expire e n of None \<Rightarrow> True | Some n' \<Rightarrow> net_run_possible ops cf arrive expire env es n'))"

subsection \<open>The invariant of the protocol\<close>

fun event_acks :: "conn_event \<Rightarrow> int set" where
  "event_acks (Ack p) = {0..pk_seqno p} \<union> sacked_by (pk_sacks p)"
| "event_acks e = {}"

lemma acks_only_step:
  assumes "sender_ok s" "event_possible env e s" "conn_step ops cf e s = Some s'"
  shows "acks_only (event_acks e) s s'"
proof (cases e)
  case (Ack p)
  then have "list_all (\<lambda>b. fst b < snd b \<and> fst b \<noteq> pk_seqno p) (pk_sacks p)"
    using assms(2) by (auto simp: pkt_possible_def list_all_iff)
  then show ?thesis using acks_only_recv [OF assms(1)] assms(3) Ack by simp
next
  case (Rto k)
  then show ?thesis using acks_only_timeout [OF assms(1)] assms(3) by simp
next
  case (Advance i)
  then show ?thesis using acks_only_advance assms(3) by simp
qed

context counted_module
begin

definition net_ok :: "(bool \<Rightarrow> int set \<Rightarrow> 'k \<Rightarrow> bool) \<Rightarrow> nat \<Rightarrow> ('ca, 'k) net \<Rightarrow> bool" where
  "net_ok holds m n \<longleftrightarrow>
     conn_ok m (net_sender n) \<and> holds False (set (net_arrived n)) (net_sink n) \<and>
     list_all (ack_truthful False (set (net_arrived n))) (net_acks n) \<and>
     set (net_arrived n) \<subseteq> {0..<t_seqno (net_sender n)} \<and> acked (net_sender n) \<subseteq> set (net_arrived n)"

lemma sender_step:
  assumes ok: "net_ok holds (Suc m) n" and e: "event_possible env e (net_sender n)" "event_acks e \<subseteq> set (net_arrived n)"
    and cf: "config_ok cap cf"
  shows "\<exists>s. conn_step ops cf e (net_sender n) = Some s \<and> net_ok holds m (n\<lparr>net_sender := s\<rparr>)"
proof -
  have conn: "conn_ok (Suc m) (net_sender n)" using ok by (simp add: net_ok_def)
  obtain s where s: "conn_step ops cf e (net_sender n) = Some s" "conn_ok m s"
    using conn_step_total [OF conn e(1) cf] by blast
  have "acks_only (event_acks e) (net_sender n) s"
    using acks_only_step [OF _ e(1) s(1)] conn by (simp add: conn_ok_def)
  then show ?thesis using s ok e(2) by (auto simp: net_ok_def acks_only_def)
qed

text \<open>A truthful acknowledgement is one that the sender can take.\<close>

lemma answer_possible:
  assumes ok: "net_ok holds m n" and possible: "net_possible env (Answer p) n"
  shows "event_possible env (Ack p) (net_sender n) \<and> event_acks (Ack p) \<subseteq> set (net_arrived n)"
proof -
  obtain h where h: "h \<in> set (net_acks n)" "answers p h" using possible by (auto simp: list_ex_iff)
  have true: "ack_truthful False (set (net_arrived n)) h" using ok h(1) by (simp add: net_ok_def list_all_iff)
  have sent: "set (net_arrived n) \<subseteq> {0..<t_seqno (net_sender n)}" using ok by (simp add: net_ok_def)
  have blocks: "0 \<le> fst x \<and> fst x < snd x \<and> {fst x..<snd x} \<subseteq> set (net_arrived n) \<and> pk_seqno p + 1 < fst x"
    if "x \<in> set (pk_sacks p)" for x
    using that true h(2) by (simp add: ack_truthful_def answers_def list_all_iff)
  have "0 \<le> fst x \<and> fst x < snd x \<and> fst x \<noteq> pk_seqno p \<and> snd x \<le> t_seqno (net_sender n)" if x: "x \<in> set (pk_sacks p)" for x
  proof -
    have "snd x - 1 \<in> {fst x..<snd x}" using blocks [OF x] by simp
    then have "snd x - 1 < t_seqno (net_sender n)" using blocks [OF x] sent by fastforce
    then show ?thesis using blocks [OF x] by simp
  qed
  moreover have "sacked_by (pk_sacks p) \<subseteq> set (net_arrived n)" using blocks by (auto simp: sacked_by_def)
  moreover have "- 1 \<le> pk_seqno p \<and> {0..pk_seqno p} \<subseteq> set (net_arrived n)"
    using true h(2) by (simp add: ack_truthful_def answers_def)
  ultimately show ?thesis using possible by (simp add: pkt_possible_def list_all_iff)
qed

lemma network_step:
  assumes rec: "receiver arrive expire holds" and ok: "net_ok holds (Suc m) n" and e: "net_possible env e n"
    and cf: "config_ok cap cf"
  shows "\<exists>n'. net_step ops cf arrive expire e n = Some n' \<and> net_ok holds m n'"
proof -
  have conn: "conn_ok m (net_sender n)" "sent_exactly (net_sender n)"
    using ok agent_ok_Suc by (simp_all add: net_ok_def conn_ok_def)
  have sink: "holds False (set (net_arrived n)) (net_sink n)" using ok by (simp add: net_ok_def)
  show ?thesis
  proof (cases e)
    case (Arrive p)
    let ?S = "insert (dp_seqno p) (set (net_arrived n))"
    have p: "dp_seqno p \<in> {0..<t_seqno (net_sender n)}" "0 < dp_size p"
      using e conn(2) by (auto simp: Arrive list_ex_iff sent_exactly_def)
    obtain hs k where k: "arrive p (net_sink n) = Some (hs, k)" "holds False ?S k" "list_all (ack_truthful False ?S) hs"
      using receiver.arrive_ok [OF rec sink] p by (meson atLeastLessThan_iff)
    have "list_all (ack_truthful False ?S) (net_acks n)"
      using ok ack_truthful_mono [OF _ subset_insertI] by (auto simp: net_ok_def list_all_iff)
    then show ?thesis using ok k p conn(1) by (auto simp: Arrive net_ok_def)
  next
    case Sink_Timer
    obtain hs k where k: "expire (net_sink n) = (hs, k)" by fastforce
    then show ?thesis using receiver.expire_ok [OF rec sink k] ok conn(1) by (auto simp: Sink_Timer net_ok_def)
  next
    case (Answer p)
    have "net_possible env (Answer p) n" using e Answer by simp
    from answer_possible [OF ok this] sender_step [OF ok _ _ cf, of "Ack p"] show ?thesis
      by (auto simp: Answer simp del: conn_step.simps)
  next
    case (Sender_Timer k)
    show ?thesis using sender_step [OF ok _ _ cf, of "Rto k"] by (auto simp: Sender_Timer simp del: conn_step.simps)
  next
    case (App i)
    show ?thesis using sender_step [OF ok _ _ cf, of "Advance i"] by (auto simp: App simp del: conn_step.simps)
  qed
qed

lemma network_run:
  assumes rec: "receiver arrive expire holds" and cf: "config_ok cap cf"
    and "net_ok holds (length es + m) n" "net_run_possible ops cf arrive expire env es n"
  shows "\<exists>n'. net_run ops cf arrive expire es n = Some n' \<and> net_ok holds m n'"
  using assms(3,4)
proof (induction es arbitrary: n)
  case (Cons e es)
  then have "net_ok holds (Suc (length es + m)) n" "net_possible env e n" by simp_all
  then obtain n1 where "net_step ops cf arrive expire e n = Some n1" "net_ok holds (length es + m) n1"
    using network_step [OF rec _ _ cf] by blast
  then show ?case using Cons by simp
qed simp

end

text \<open>The verdict on a run of a network from the construction of the sender, with a receiver in the state \<open>k\<close>: nothing traps, and what the
  sender takes as acknowledged has arrived, and what has arrived was sent.\<close>

definition network_start :: "config \<Rightarrow> tcp_sock \<Rightarrow> 'ca \<Rightarrow> 'k \<Rightarrow> ('ca, 'k) net" where
  "network_start cf tp ca k =
     \<lparr>net_sender = reset cf (new_sender tp ca), net_sink = k, net_acks = [], net_arrived = []\<rparr>"

definition network_sound ::
  "'ca tcp_congestion_ops \<Rightarrow> (ack_in \<Rightarrow> bool) \<Rightarrow> config \<Rightarrow> (data_pkt \<Rightarrow> 'k \<Rightarrow> (ack_hdr list \<times> 'k) option) \<Rightarrow>
     ('k \<Rightarrow> ack_hdr list \<times> 'k) \<Rightarrow> net_event list \<Rightarrow> tcp_sock \<Rightarrow> 'ca \<Rightarrow> 'k \<Rightarrow> bool" where
  "network_sound ops env cf arrive expire es tp ca k =
     (let n0 = network_start cf tp ca k in
      net_run_possible ops cf arrive expire env es n0 \<longrightarrow>
      (case net_run ops cf arrive expire es n0 of None \<Rightarrow> False
       | Some n \<Rightarrow> sender_ok (net_sender n) \<and> acked (net_sender n) \<subseteq> set (net_arrived n) \<and>
           set (net_arrived n) \<subseteq> set (packets_sent (net_sender n))))"

lemma net_run_possible_mono:
  "net_run_possible ops cf arrive expire env es n \<Longrightarrow> (\<And>i. env i \<Longrightarrow> env' i) \<Longrightarrow> net_run_possible ops cf arrive expire env' es n"
proof (induction es arbitrary: n)
  case (Cons e es)
  then show ?case by (cases e) (auto split: option.splits)
qed simp

context counted_module
begin

lemma network_total:
  fixes k :: 'k
  assumes rec: "receiver arrive expire holds" and k: "holds False {} k"
    and cf: "config_ok cap cf" and inv: "inv (length es) False ca" and env: "\<And>i. env' i \<Longrightarrow> env i"
  shows "network_sound ops env' cf arrive expire es tp ca k"
proof -
  let ?n0 = "network_start cf tp ca k"
  note s0 = reset_sound [OF cf cap_ok, of tp ca]
  have "acked (reset cf (new_sender tp ca)) = {}"
    by (simp add: acked_def reset_def new_sender_def set_initial_window_def Let_def ClearScoreBoard_def load_to_linux_def load_to_linux_once_def)
  then have start: "net_ok holds (length es + 0) ?n0"
    using s0 inv k by (simp add: net_ok_def conn_ok_def agent_ok_def network_start_def)
  have "\<exists>n. net_run ops cf arrive expire es ?n0 = Some n \<and> net_ok holds 0 n"
    if "net_run_possible ops cf arrive expire env' es ?n0"
    using network_run [OF rec cf start net_run_possible_mono [OF that env]] .
  moreover have "sender_ok (net_sender n) \<and> acked (net_sender n) \<subseteq> set (net_arrived n) \<and>
      set (net_arrived n) \<subseteq> set (packets_sent (net_sender n))" if "net_ok holds 0 n" for n :: "('ca, 'k) net"
    using that by (simp add: net_ok_def conn_ok_def sent_exactly_def)
  ultimately show ?thesis by (force simp: network_sound_def Let_def split: option.split)
qed

end

subsection \<open>Properties\<close>

lemma append_ack_dsack:
  assumes "0 \<le> q" "q \<le> Seqno a" "is_dup a" "0 < n"
  shows "append_ack n True q a [] = ([(q, q + 1)], [])"
proof -
  have none: "older_blocks high r room [] = ([], [])" for high r room by (cases room) simp_all
  show ?thesis using assms by (auto simp: append_ack_def none Let_def)
qed

lemma sink_ack_dsack:
  assumes "0 \<le> dp_seqno p" "dp_seqno p \<le> Seqno (win k)" "is_dup (win k)" "generate_dsacks k" "0 < max_sack_blocks k" "sack_stack k = []"
  shows "ah_sacks (fst (sink_ack p k)) = [(dp_seqno p, dp_seqno p + 1)] \<and> ah_seqno (fst (sink_ack p k)) = Seqno (win k)"
proof -
  obtain e where e: "ecn_state p k = (win k)\<lparr>ecn_unacked := e\<rparr>" using ecn_state_window by blast
  have "append_ack (max_sack_blocks k) True (dp_seqno p) ((win k)\<lparr>ecn_unacked := e\<rparr>) [] = ([(dp_seqno p, dp_seqno p + 1)], [])"
    using assms by (intro append_ack_dsack) (simp_all add: Seqno_def)
  then show ?thesis using assms(4,6) by (simp add: sink_ack_def e Let_def Seqno_def)
qed

text \<open>
  C33. Reports of duplicates break the scoreboard. When the last packet in sequence arrives a second time at a sink that reports
  duplicates and has no blocks to report, its acknowledgement carries the block of that packet, which is the packet that it acknowledges
  cumulatively. The scoreboard of the agent, if empty, takes it for new information and creates a block that contains no packet.
\<close>

theorem dsack_breaks_scoreboard:
  assumes ok: "sink_ok b k" and q: "dp_seqno p = rcv_next (win k) - 1" "0 < dp_seqno p"
    and p: "0 < dp_size p" "lastreset k \<le> dp_ts p"
    and sacks: "generate_dsacks k" "0 < max_sack_blocks k" "sack_stack k = []" and sb: "sb_blocks sb = []"
  shows "\<exists>h k' sb' flag n. sink_recv p k = Some ([h], k') \<and> ah_seqno h = dp_seqno p \<and>
    UpdateScoreBoard (ah_seqno h) (ah_sacks h) 3 sb = Some (sb', flag) \<and> sb_blocks sb' = [n] \<and>
    blk_seq n = ah_seqno h + 1 \<and> get_end n = ah_seqno h \<and> get_length n = 0"
proof -
  have pos: "0 \<le> dp_seqno p" "dp_size p \<noteq> 0" "\<not> dp_ts p < lastreset k" using q(2) p by simp_all
  obtain k1 where k1: "sink_window p k = Some k1" "ack_ready (rcv_next (win k)) (b(dp_seqno p := dp_size p)) (dp_seqno p) k1"
    "is_dup (win k1) = (b (dp_seqno p) \<noteq> 0)" "max_sack_blocks k1 = max_sack_blocks k" "generate_dsacks k1 = generate_dsacks k"
    using sink_window_ok [OF ok pos(1,2)] by (elim exE conjE) (rule that, assumption+)
  have "sack_stack k1 = []" using k1(1) sacks(3) by (auto simp: sink_window_def split: bind_splits)
  moreover have "b (dp_seqno p) \<noteq> 0" using ring_okD(4) [of b "win k"] ok q by (simp add: sink_ok_def)
  moreover have next1: "rcv_next (win k1) = rcv_next (win k)" using k1(2) q(1) by (auto simp: ack_ready_def)
  ultimately have h: "ah_sacks (fst (sink_ack p k1)) = [(dp_seqno p, dp_seqno p + 1)]" "ah_seqno (fst (sink_ack p k1)) = dp_seqno p"
    using sink_ack_dsack [of p k1] k1(3-5) sacks q by (simp_all add: Seqno_def)
  obtain h k' where hk: "sink_ack p k1 = (h, k')" by fastforce
  have "sink_recv p k = Some ([h], k')" using pos(3) k1(1) hk by (simp add: sink_recv_def)
  then show ?thesis using dsack_empty_block [OF sb q(2)] h hk by auto
qed

text \<open>A sink that has got the packets 0 and 1, and reports duplicates.\<close>

definition dsack_sink :: sink where
  "dsack_sink = example_sink\<lparr>win := new_acker\<lparr>rcv_next := 2, maxseen := 1\<rparr>, generate_dsacks := True\<rparr>"

lemma dsack_sink_ok: "sink_ok (\<lambda>i. if i = 0 \<or> i = 1 then 1000 else 0) dsack_sink"
proof -
  have "(63 :: int) = 2 ^ 6 - 1" "64 = (2 :: nat) ^ 6" by simp_all
  moreover have "replicate 64 0 ! ring_ix 63 i = (0 :: int)" for i using ring_ix_less [of 6 i] by simp
  ultimately have "ring_ok (\<lambda>i. if i = 0 \<or> i = 1 then 1000 else 0) (new_acker\<lparr>rcv_next := 2, maxseen := 1\<rparr>)"
    unfolding ring_ok_def new_acker_def window_holds_def by (auto intro!: exI [of _ 6])
  then show ?thesis
    by (simp add: sink_ok_def dsack_sink_def stack_ok_def) (simp add: example_sink_def new_sink_def set_max_sack_blocks_def)
qed

theorem dsack_breaks_scoreboard_witness:
  "\<exists>h k' sb' flag n. sink_recv (example_data 1) dsack_sink = Some ([h], k') \<and> ah_seqno h = 1 \<and>
     UpdateScoreBoard 1 (ah_sacks h) 3 empty_board = Some (sb', flag) \<and> sb_blocks sb' = [n] \<and> get_length n = 0"
proof -
  have "rcv_next (win dsack_sink) = 2" "lastreset dsack_sink = 0" "generate_dsacks dsack_sink" "max_sack_blocks dsack_sink = 3"
    "sack_stack dsack_sink = []" by (simp_all add: dsack_sink_def) (simp add: example_sink_def new_sink_def set_max_sack_blocks_def)
  moreover have "sb_blocks empty_board = []" by (simp add: empty_board_def ClearScoreBoard_def)
  ultimately show ?thesis
    using dsack_breaks_scoreboard [OF dsack_sink_ok, of "example_data 1" empty_board] by fastforce
qed

end
