(* ===== verification/Real_Arith.thy ===== *)
theory Real_Arith
  imports Complex_Main
begin

section \<open>Conversions of \<open>double\<close>\<close>

text \<open>
  A \<open>double\<close> of the code is a real number in this library. The conversion to an \<open>int\<close> cuts off the fraction, and \<open>fmod\<close> is the
  remainder with the sign of its first argument.
\<close>

definition trunc_int :: "real \<Rightarrow> int" where
  "trunc_int x = (if 0 \<le> x then \<lfloor>x\<rfloor> else \<lceil>x\<rceil>)"

definition fmod :: "real \<Rightarrow> real \<Rightarrow> real" where
  "fmod x y = x - of_int (trunc_int (x / y)) * y"

lemma trunc_int_0 [simp]: "trunc_int 0 = 0"
  by (simp add: trunc_int_def)

lemma trunc_int_floor: "0 \<le> x \<Longrightarrow> trunc_int x = \<lfloor>x\<rfloor>"
  by (simp add: trunc_int_def)

lemma trunc_int_fmod:
  assumes "0 \<le> x" "0 < n"
  shows "trunc_int (fmod x (real n)) = \<lfloor>x\<rfloor> mod int n"
proof -
  have q: "trunc_int (x / real n) = \<lfloor>x\<rfloor> div int n"
    using assms floor_divide_real_eq_div [of "int n" x] by (simp add: trunc_int_floor)
  have "fmod x (real n) = x - of_int (\<lfloor>x\<rfloor> div int n * int n)" by (simp add: fmod_def q)
  then have "\<lfloor>fmod x (real n)\<rfloor> = \<lfloor>x\<rfloor> mod int n" by (simp only: floor_diff_of_int) (simp add: minus_div_mult_eq_mod)
  moreover have "0 \<le> fmod x (real n)"
  proof -
    have "0 \<le> \<lfloor>fmod x (real n)\<rfloor>" unfolding calculation using assms(2) by simp
    then show ?thesis by (simp only: zero_le_floor)
  qed
  ultimately show ?thesis by (simp add: trunc_int_floor)
qed

end
