(* ===== verification/Rtt_Estimator.thy ===== *)
theory Rtt_Estimator
  imports Real_Arith Prelude
begin

section \<open>The round-trip time and the retransmission timer (\<open>tcp/tcp-linux.cc\<close>, \<open>tcp/tcp.cc\<close>)\<close>

text \<open>
  The agent measures round-trip times in ticks, keeps a smoothed one in eighths and its variation in quarters, and sets the
  retransmission timer from them. The difference of a sample to the mean is a \<open>short\<close> and the multiplier \<open>t_backoff_\<close> of the
  timer an \<open>int\<close> of 32 bits, as in the code, each written as its signed reading. Times in seconds are \<open>double\<close> in the code and
  real numbers here.
\<close>

subsection \<open>State\<close>

record rtt_config =
  T_SRTT_BITS :: nat
  T_RTTVAR_BITS :: nat
  rttvar_exp :: nat
  tcp_tick :: real
  srtt_init :: int
  rttvar_init :: int
  rtxcur_init :: real
  minrto :: real
  maxrto :: real
  rfc2988 :: bool
  ts_option :: bool
  ts_resetRTO :: bool
  timerfix :: bool
  ect :: bool

record rtt_est =
  t_rtt :: int
  t_srtt :: int
  t_rttvar :: int
  t_rtxcur :: real
  t_backoff :: int
  rtt_active :: bool
  rtt_seq :: int
  rtt_ts :: real
  boot_time :: real
  use_rtt :: bool
  ecn_backoff :: bool
  rtx_timer :: "real option"

text \<open>A \<open>short\<close>.\<close>

definition short :: "int \<Rightarrow> int" where
  "short i = (i + 32768) mod 65536 - 32768"

text \<open>An \<open>int\<close>, as a left shift leaves it on a two's complement machine.\<close>

definition cint :: "int \<Rightarrow> int" where
  "cint i = (i + 2 ^ 31) mod 2 ^ 32 - 2 ^ 31"

subsection \<open>The estimate\<close>

definition rtt_init :: "rtt_config \<Rightarrow> rtt_est \<Rightarrow> rtt_est" where
  "rtt_init c e =
     e\<lparr>t_rtt := 0, t_srtt := trunc_int (of_int (srtt_init c) / tcp_tick c) * 2 ^ T_SRTT_BITS c,
       t_rttvar := trunc_int (of_int (rttvar_init c) / tcp_tick c) * 2 ^ T_RTTVAR_BITS c,
       t_rtxcur := rtxcur_init c, t_backoff := 1\<rparr>"

text \<open>\<open>TcpAgent::reset\<close>, as far as it concerns the estimate and the timer; the phase of the clock is drawn at random.\<close>

definition rtt_reset :: "rtt_config \<Rightarrow> real \<Rightarrow> rtt_est \<Rightarrow> rtt_est" where
  "rtt_reset c boot e = (rtt_init c e)\<lparr>rtt_seq := - 1, boot_time := boot, rtx_timer := None\<rparr>"

definition rtt_ticks :: "rtt_config \<Rightarrow> real \<Rightarrow> real \<Rightarrow> real \<Rightarrow> int" where
  "rtt_ticks c boot now tao =
     (let t = (if ts_option c then trunc_int (tao / tcp_tick c + 1 / 2)
               else let sendtime = now - tao + boot; tickoff = fmod sendtime (tcp_tick c)
                    in trunc_int ((tao + tickoff) / tcp_tick c))
      in if t < 1 then 1 else t)"

text \<open>The smoothing of \<open>LinuxTcpAgent\<close>: when the sample is below the mean by more than the variation, the variation moves only an eighth.\<close>

definition linux_smooth :: "rtt_config \<Rightarrow> rtt_est \<Rightarrow> rtt_est" where
  "linux_smooth c e =
     (if t_srtt e \<noteq> 0
      then let delta = short (t_rtt e - t_srtt e div 2 ^ T_SRTT_BITS c);
               srtt = (if t_srtt e + delta \<le> 0 then 1 else t_srtt e + delta);
               delta = (if delta < 0
                        then let delta = short (short (- delta) - t_rttvar e div 2 ^ T_RTTVAR_BITS c)
                             in if 0 < delta then delta div 2 ^ T_SRTT_BITS c else delta
                        else short (delta - t_rttvar e div 2 ^ T_RTTVAR_BITS c))
           in e\<lparr>t_srtt := srtt, t_rttvar := t_rttvar e + delta\<rparr>
      else e\<lparr>t_srtt := t_rtt e * 2 ^ T_SRTT_BITS c, t_rttvar := t_rtt e * 2 ^ (T_RTTVAR_BITS c - 1)\<rparr>)"

text \<open>The smoothing of the base class.\<close>

definition base_smooth :: "rtt_config \<Rightarrow> rtt_est \<Rightarrow> rtt_est" where
  "base_smooth c e =
     (if t_srtt e \<noteq> 0
      then let delta = short (t_rtt e - t_srtt e div 2 ^ T_SRTT_BITS c);
               srtt = (if t_srtt e + delta \<le> 0 then 1 else t_srtt e + delta);
               delta = short ((if delta < 0 then short (- delta) else delta) - t_rttvar e div 2 ^ T_RTTVAR_BITS c)
           in e\<lparr>t_srtt := srtt, t_rttvar := (if t_rttvar e + delta \<le> 0 then 1 else t_rttvar e + delta)\<rparr>
      else e\<lparr>t_srtt := t_rtt e * 2 ^ T_SRTT_BITS c, t_rttvar := t_rtt e * 2 ^ (T_RTTVAR_BITS c - 1)\<rparr>)"

definition set_rtxcur :: "rtt_config \<Rightarrow> rtt_est \<Rightarrow> rtt_est" where
  "set_rtxcur c e =
     e\<lparr>t_rtxcur := of_int ((t_rttvar e * 2 ^ (rttvar_exp c + (T_SRTT_BITS c - T_RTTVAR_BITS c)) + t_srtt e) div
                     2 ^ T_SRTT_BITS c) * tcp_tick c\<rparr>"

definition rtt_update :: "rtt_config \<Rightarrow> real \<Rightarrow> real \<Rightarrow> rtt_est \<Rightarrow> rtt_est" where
  "rtt_update c now tao e = set_rtxcur c (linux_smooth c (e\<lparr>t_rtt := rtt_ticks c (boot_time e) now tao\<rparr>))"

definition base_rtt_update :: "rtt_config \<Rightarrow> real \<Rightarrow> real \<Rightarrow> rtt_est \<Rightarrow> rtt_est" where
  "base_rtt_update c now tao e = set_rtxcur c (base_smooth c (e\<lparr>t_rtt := rtt_ticks c (boot_time e) now tao\<rparr>))"

subsection \<open>The timer\<close>

text \<open>The value of the timer; the simulation stops when it is negative.\<close>

definition rtt_timeout :: "rtt_config \<Rightarrow> rtt_est \<Rightarrow> (real \<times> rtt_est) option" where
  "rtt_timeout c e =
     (let t = (if rfc2988 c
               then if t_rtxcur e < minrto c \<and> \<not> use_rtt e then minrto c * of_int (t_backoff e)
                    else t_rtxcur e * of_int (t_backoff e)
               else let t = t_rtxcur e * of_int (t_backoff e) in if t < minrto c then minrto c else t);
          t = (if maxrto c < t then maxrto c else t)
      in if t < 2 * tcp_tick c
         then if t < 0 then None
              else if use_rtt e \<and> t < tcp_tick c then Some (tcp_tick c, e\<lparr>use_rtt := False\<rparr>)
              else Some (2 * tcp_tick c, e\<lparr>use_rtt := False\<rparr>)
         else Some (t, e\<lparr>use_rtt := False\<rparr>))"

definition rtt_backoff :: "rtt_config \<Rightarrow> rtt_est \<Rightarrow> rtt_est option" where
  "rtt_backoff c e = do {
     e \<leftarrow> (if t_backoff e < 64 then Some (e\<lparr>t_backoff := cint (t_backoff e * 2)\<rparr>)
           else if rfc2988 c
           then do {
             (t, e) \<leftarrow> rtt_timeout c e;
             Some (if t < maxrto c then e\<lparr>t_backoff := cint (t_backoff e * 2)\<rparr> else e)
           }
           else Some e);
     Some (if 8 < t_backoff e then e\<lparr>t_rttvar := t_rttvar e + t_srtt e div 2 ^ T_SRTT_BITS c, t_srtt := 0\<rparr> else e)
   }"

definition set_rtx_timer :: "rtt_config \<Rightarrow> rtt_est \<Rightarrow> rtt_est option" where
  "set_rtx_timer c e = do { (t, e) \<leftarrow> rtt_timeout c e; Some (e\<lparr>rtx_timer := Some t\<rparr>) }"

text \<open>\<open>reset_rtx_timer\<close> as \<open>LinuxTcpAgent::timeout\<close> calls it, with a first argument that leaves the sequence number alone.\<close>

definition reset_rtx_timer :: "rtt_config \<Rightarrow> bool \<Rightarrow> rtt_est \<Rightarrow> rtt_est option" where
  "reset_rtx_timer c backoff e = do {
     e \<leftarrow> (if backoff then rtt_backoff c e else Some e);
     e \<leftarrow> set_rtx_timer c e;
     Some (e\<lparr>rtt_active := False\<rparr>)
   }"

text \<open>The end of \<open>output\<close>: a new packet starts a measurement, and the timer is set if it is not.\<close>

definition output_timing :: "rtt_config \<Rightarrow> real \<Rightarrow> int \<Rightarrow> int \<Rightarrow> bool \<Rightarrow> rtt_est \<Rightarrow> rtt_est option" where
  "output_timing c now seqno maxseq force_set_rtx_timer e =
     (let e = (if maxseq < seqno \<and> \<not> rtt_active e
               then let e = e\<lparr>rtt_active := True\<rparr>
                    in if rtt_seq e < seqno then e\<lparr>rtt_seq := seqno, rtt_ts := now\<rparr> else e
               else e)
      in if rtx_timer e = None \<or> force_set_rtx_timer then set_rtx_timer c e else Some e)"

text \<open>What \<open>time_processing\<close> reads of an acknowledgement and of the agent; \<open>at_outstanding\<close> is the condition of \<open>renew_timer\<close>.\<close>

record ack_time =
  at_now :: real
  at_seqno :: int
  at_ts_echo :: real
  at_no_ts :: bool
  at_ecnecho :: bool
  at_outstanding :: bool

definition renew_timer :: "rtt_config \<Rightarrow> ack_time \<Rightarrow> rtt_est \<Rightarrow> rtt_est option" where
  "renew_timer c p e = (if at_outstanding p then set_rtx_timer c e else Some (e\<lparr>rtx_timer := None\<rparr>))"

definition ecn_ends :: "rtt_config \<Rightarrow> ack_time \<Rightarrow> rtt_est \<Rightarrow> bool" where
  "ecn_ends c p e \<longleftrightarrow> \<not> ect c \<or> \<not> ecn_backoff e \<or> \<not> at_ecnecho p"

definition stamped_update :: "rtt_config \<Rightarrow> ack_time \<Rightarrow> rtt_est \<Rightarrow> rtt_est" where
  "stamped_update c p e =
     (let e = rtt_update c (at_now p) (at_now p - at_ts_echo p) e
      in if ts_resetRTO c
         then let e = e\<lparr>t_backoff := 1\<rparr> in if ecn_ends c p e then e\<lparr>ecn_backoff := False\<rparr> else e
         else e)"

definition timed_update :: "rtt_config \<Rightarrow> ack_time \<Rightarrow> bool \<Rightarrow> rtt_est \<Rightarrow> rtt_est" where
  "timed_update c p saw_tstamp e =
     (let e = (if ecn_ends c p e then e\<lparr>t_backoff := 1, ecn_backoff := False\<rparr> else e);
          e = e\<lparr>rtt_active := False\<rparr>
      in if saw_tstamp then e else rtt_update c (at_now p) (at_now p - rtt_ts e) e)"

definition time_processing :: "rtt_config \<Rightarrow> ack_time \<Rightarrow> rtt_est \<Rightarrow> rtt_est option" where
  "time_processing c p e = do {
     e \<leftarrow> (if timerfix c then Some e else renew_timer c p e);
     let saw_tstamp = (\<not> at_no_ts p \<and> ts_option c);
     let e = (if saw_tstamp then stamped_update c p e else e);
     let e = (if rtt_active e \<and> rtt_seq e \<le> at_seqno p then timed_update c p saw_tstamp e else e);
     if timerfix c then renew_timer c p e else Some e
   }"

subsection \<open>One sample\<close>

text \<open>The default scales, and times that make sense.\<close>

definition config_std :: "rtt_config \<Rightarrow> bool" where
  "config_std c \<longleftrightarrow> T_SRTT_BITS c = 3 \<and> T_RTTVAR_BITS c = 2 \<and> 0 < tcp_tick c \<and> 0 \<le> minrto c \<and> 0 \<le> maxrto c \<and> 0 \<le> rtxcur_init c"

lemma short_id: "- 32768 \<le> i \<Longrightarrow> i < 32768 \<Longrightarrow> short i = i"
  by (simp add: short_def)

lemma cint_id: "- (2 ^ 31) \<le> i \<Longrightarrow> i < 2 ^ 31 \<Longrightarrow> cint i = i"
  by (simp add: cint_def)

lemma short_wrap: "32768 \<le> i \<Longrightarrow> i < 98304 \<Longrightarrow> short i = i - 65536"
proof -
  assume "32768 \<le> i" "i < 98304"
  then have "(i - 32768) mod 65536 = i - 32768" by (intro mod_pos_pos_trivial) simp_all
  moreover have "(i + 32768) mod 65536 = (i - 32768) mod 65536" using mod_add_self2 [of "i - 32768" 65536] by (simp add: add.commute)
  ultimately show ?thesis by (simp add: short_def)
qed

text \<open>Estimates from samples of at most \<open>M\<close> ticks.\<close>

definition smooth_ok :: "int \<Rightarrow> rtt_est \<Rightarrow> bool" where
  "smooth_ok M e \<longleftrightarrow> t_srtt e = 0 \<or> 8 \<le> t_srtt e \<and> t_srtt e \<le> 8 * M \<and> 0 \<le> t_rttvar e \<and> t_rttvar e \<le> 4 * M + 3"

lemma linux_smooth_ok:
  assumes c: "config_std c" and e: "smooth_ok M e" "1 \<le> t_rtt e" "t_rtt e \<le> M" "M < 32768"
    and d_def: "d = t_rtt e - t_srtt e div 8" and v_def: "v = \<bar>d\<bar> - t_rttvar e div 4"
  shows "smooth_ok M (linux_smooth c e) \<and> t_srtt (linux_smooth c e) \<noteq> 0 \<and>
    t_srtt (linux_smooth c e) = (if t_srtt e = 0 then 8 * t_rtt e else t_srtt e + d) \<and>
    t_rttvar (linux_smooth c e) = (if t_srtt e = 0 then 2 * t_rtt e else t_rttvar e + (if d < 0 \<and> 0 < v then v div 8 else v))"
proof (cases "t_srtt e = 0")
  case True
  then show ?thesis using c e by (simp add: linux_smooth_def config_std_def smooth_ok_def)
next
  case False
  have r: "8 \<le> t_srtt e" "t_srtt e \<le> 8 * M" "0 \<le> t_rttvar e" "t_rttvar e \<le> 4 * M + 3"
    using e(1) False by (simp_all add: smooth_ok_def)
  have d: "- M < d" "d < M" using r e by (auto simp: d_def)
  have v: "- M \<le> v" "v < M" using r d by (auto simp: v_def)
  have sh: "short d = d" "short (- d) = - d" using d e by (simp_all add: short_id)
  have sv: "short (\<bar>d\<bar> - t_rttvar e div 4) = v" using v e by (simp add: v_def [symmetric] short_id)
  have srtt: "8 \<le> t_srtt e + d" "t_srtt e + d \<le> 8 * M" using r e by (simp_all add: d_def)
  have var: "0 \<le> t_rttvar e + v" "t_rttvar e + v \<le> 4 * M + 3" using r d by (auto simp: v_def)
  then have var8: "0 \<le> t_rttvar e + v div 8" "t_rttvar e + v div 8 \<le> 4 * M + 3" if "0 < v" using that r(3) by auto
  have step: "linux_smooth c e = e\<lparr>t_srtt := t_srtt e + d, t_rttvar := t_rttvar e + (if d < 0 \<and> 0 < v then v div 8 else v)\<rparr>"
    using c False sh sv srtt(1) by (auto simp: linux_smooth_def config_std_def d_def [symmetric] Let_def)
  show ?thesis
    unfolding step using False srtt var var8 by (simp add: smooth_ok_def)
qed

lemma set_rtxcur_ok:
  assumes "config_std c" "0 \<le> t_srtt e" "0 \<le> t_rttvar e"
  shows "0 \<le> t_rtxcur (set_rtxcur c e)"
proof -
  have "0 \<le> t_rttvar e * 2 ^ (rttvar_exp c + 1)" using assms(3) by (intro mult_nonneg_nonneg) simp_all
  then have "0 \<le> (t_rttvar e * 2 ^ (rttvar_exp c + 1) + t_srtt e) div 8" using assms(2) by simp
  then have "0 \<le> real_of_int ((t_rttvar e * 2 ^ (rttvar_exp c + 1) + t_srtt e) div 8)" by (simp only: of_int_0_le_iff)
  then show ?thesis using assms(1) by (simp add: set_rtxcur_def config_std_def)
qed

lemma rtt_ticks_pos: "1 \<le> rtt_ticks c boot now tao"
  by (simp add: rtt_ticks_def Let_def)

subsection \<open>The invariant\<close>

definition timer_ok :: "rtt_config \<Rightarrow> real \<Rightarrow> bool" where
  "timer_ok c t \<longleftrightarrow> 2 * tcp_tick c \<le> t \<and> t \<le> max (maxrto c) (2 * tcp_tick c)"

definition est_ok :: "rtt_config \<Rightarrow> int \<Rightarrow> rtt_est \<Rightarrow> bool" where
  "est_ok c M e \<longleftrightarrow>
     smooth_ok M e \<and> 0 \<le> t_rtxcur e \<and> 1 \<le> t_backoff e \<and> t_backoff e < 2 ^ 31 \<and> \<not> use_rtt e \<and>
     (case rtx_timer e of None \<Rightarrow> True | Some t \<Rightarrow> timer_ok c t)"

lemma rtt_timeout_ok:
  assumes c: "config_std c" and e: "est_ok c M e"
  shows "\<exists>t. rtt_timeout c e = Some (t, e) \<and> timer_ok c t \<and> (rfc2988 c \<longrightarrow>
    t = max (2 * tcp_tick c) (min (maxrto c) (max (minrto c) (t_rtxcur e) * of_int (t_backoff e))))"
proof -
  have b: "0 \<le> t_rtxcur e" "(1 :: real) \<le> of_int (t_backoff e)" "\<not> use_rtt e" using e by (simp_all add: est_ok_def)
  have c': "0 < tcp_tick c" "0 \<le> minrto c" "0 \<le> maxrto c" using c by (simp_all add: config_std_def)
  have same: "e\<lparr>use_rtt := False\<rparr> = e" using b(3) by simp
  have pos: "0 \<le> t_rtxcur e * of_int (t_backoff e)" "0 \<le> minrto c * of_int (t_backoff e)" using b c' by simp_all
  show ?thesis
    using b(3) c' pos unfolding rtt_timeout_def Let_def same
    by (auto simp: timer_ok_def max_def min_def not_less)
qed

lemma est_ok_update:
  assumes c: "config_std c" and e: "est_ok c M e" and m: "rtt_ticks c (boot_time e) now tao \<le> M" "M < 32768"
  shows "est_ok c M (rtt_update c now tao e) \<and> 8 \<le> t_srtt (rtt_update c now tao e)"
proof -
  let ?e = "e\<lparr>t_rtt := rtt_ticks c (boot_time e) now tao\<rparr>"
  have "smooth_ok M ?e" using e by (simp add: est_ok_def smooth_ok_def)
  from linux_smooth_ok [OF c this _ _ m(2) refl refl] rtt_ticks_pos m(1)
  have s: "smooth_ok M (linux_smooth c ?e)" "t_srtt (linux_smooth c ?e) \<noteq> 0" by simp_all
  then have "0 \<le> t_rtxcur (set_rtxcur c (linux_smooth c ?e))" by (intro set_rtxcur_ok [OF c]) (auto simp: smooth_ok_def)
  moreover have "t_backoff (linux_smooth c ?e) = t_backoff e" "use_rtt (linux_smooth c ?e) = use_rtt e" "rtx_timer (linux_smooth c ?e) = rtx_timer e"
    by (simp_all add: linux_smooth_def Let_def)
  ultimately show ?thesis
    using s e by (auto simp: rtt_update_def est_ok_def set_rtxcur_def smooth_ok_def)
qed

lemma est_ok_timer:
  assumes c: "config_std c" and e: "est_ok c M e"
  shows "\<exists>t. set_rtx_timer c e = Some (e\<lparr>rtx_timer := Some t\<rparr>) \<and> est_ok c M (e\<lparr>rtx_timer := Some t\<rparr>)"
  using rtt_timeout_ok [OF assms] e by (auto simp: set_rtx_timer_def est_ok_def smooth_ok_def)

text \<open>
  The multiplier is doubled beyond 64 only under \<open>rfc2988_\<close> and while the timeout is below \<open>maxrto_\<close>; what keeps the shift from
  overflowing is then the ratio of \<open>maxrto_\<close> and \<open>minrto_\<close>.
\<close>

lemma backoff_below:
  assumes c: "config_std c" and e: "est_ok c M e" and r: "maxrto c \<le> 2 ^ 30 * minrto c" "rfc2988 c"
    and t: "rtt_timeout c e = Some (t, e')" "t < maxrto c"
  shows "t_backoff e < 2 ^ 30"
proof -
  let ?x = "max (minrto c) (t_rtxcur e) * of_int (t_backoff e)"
  have "t = max (2 * tcp_tick c) (min (maxrto c) ?x)" using rtt_timeout_ok [OF c e] r(2) t(1) by auto
  then have x: "?x < maxrto c" using t(2) by (auto simp: max_def min_def split: if_splits)
  have b: "(1 :: real) \<le> of_int (t_backoff e)" using e by (simp add: est_ok_def)
  then have "minrto c * of_int (t_backoff e) \<le> ?x" by (intro mult_right_mono) simp_all
  then have lt: "minrto c * of_int (t_backoff e) < minrto c * 2 ^ 30" using x r(1) by (simp add: mult.commute)
  have "0 \<le> minrto c" using c by (simp add: config_std_def)
  then have "(of_int (t_backoff e) :: real) < of_int (2 ^ 30)" using lt by (simp add: mult_less_cancel_left)
  then show ?thesis by (simp only: of_int_less_iff)
qed

lemma est_ok_backoff:
  assumes c: "config_std c" "rfc2988 c \<longrightarrow> maxrto c \<le> 2 ^ 30 * minrto c" and e: "est_ok c M e"
  shows "\<exists>e'. rtt_backoff c e = Some e' \<and> est_ok c M e'"
proof -
  obtain t where t: "rtt_timeout c e = Some (t, e)" using rtt_timeout_ok [OF c(1) e] by blast
  have double: "est_ok c M (e\<lparr>t_backoff := cint (t_backoff e * 2)\<rparr>)" if "t_backoff e < 2 ^ 30"
    using e that by (simp add: est_ok_def smooth_ok_def cint_id)
  have small: "t_backoff e < 2 ^ 30" if "t_backoff e < 64" using that by simp
  have late: "t_backoff e < 2 ^ 30" if "rfc2988 c" "t < maxrto c" using backoff_below [OF c(1) e _ that(1) t that(2)] c(2) that(1) by simp
  have clobber: "est_ok c M (e'\<lparr>t_rttvar := v, t_srtt := 0\<rparr>)" if "est_ok c M e'" for e' v
    using that by (simp add: est_ok_def smooth_ok_def)
  show ?thesis using t e double [OF small] double [OF late] clobber by (auto simp: rtt_backoff_def)
qed

subsection \<open>Runs\<close>

datatype rtt_event = Acked ack_time | Expired bool | Output real int int bool | Restart real

fun rtt_step :: "rtt_config \<Rightarrow> rtt_event \<Rightarrow> rtt_est \<Rightarrow> rtt_est option" where
  "rtt_step c (Acked p) e = time_processing c p e"
| "rtt_step c (Expired backoff) e = reset_rtx_timer c backoff (e\<lparr>rtx_timer := None\<rparr>)"
| "rtt_step c (Output now seqno maxseq force) e = output_timing c now seqno maxseq force e"
| "rtt_step c (Restart boot) e = Some (rtt_reset c boot e)"

fun rtt_run :: "rtt_config \<Rightarrow> rtt_event list \<Rightarrow> rtt_est \<Rightarrow> rtt_est option" where
  "rtt_run c [] e = Some e"
| "rtt_run c (x # xs) e = do { e \<leftarrow> rtt_step c x e; rtt_run c xs e }"

text \<open>The samples that an event can take are at most \<open>M\<close> ticks.\<close>

fun sample_bounded :: "rtt_config \<Rightarrow> int \<Rightarrow> rtt_event \<Rightarrow> rtt_est \<Rightarrow> bool" where
  "sample_bounded c M (Acked p) e \<longleftrightarrow>
     rtt_ticks c (boot_time e) (at_now p) (at_now p - at_ts_echo p) \<le> M \<and> rtt_ticks c (boot_time e) (at_now p) (at_now p - rtt_ts e) \<le> M"
| "sample_bounded c M x e \<longleftrightarrow> True"

fun samples_bounded :: "rtt_config \<Rightarrow> int \<Rightarrow> rtt_event list \<Rightarrow> rtt_est \<Rightarrow> bool" where
  "samples_bounded c M [] e \<longleftrightarrow> True"
| "samples_bounded c M (x # xs) e \<longleftrightarrow>
     sample_bounded c M x e \<and> (case rtt_step c x e of None \<Rightarrow> True | Some e' \<Rightarrow> samples_bounded c M xs e')"

lemma est_ok_fields [simp]:
  "est_ok c M (e\<lparr>rtt_active := a\<rparr>) = est_ok c M e" "est_ok c M (e\<lparr>rtt_seq := q\<rparr>) = est_ok c M e"
  "est_ok c M (e\<lparr>rtt_ts := t\<rparr>) = est_ok c M e" "est_ok c M (e\<lparr>boot_time := t\<rparr>) = est_ok c M e" "est_ok c M (e\<lparr>ecn_backoff := b\<rparr>) = est_ok c M e"
  by (simp_all add: est_ok_def smooth_ok_def)

lemma est_ok_sets: "est_ok c M e \<Longrightarrow> est_ok c M (e\<lparr>t_backoff := 1\<rparr>)" "est_ok c M e \<Longrightarrow> est_ok c M (e\<lparr>rtx_timer := None\<rparr>)"
  by (simp_all add: est_ok_def smooth_ok_def)

lemma est_ok_renew:
  assumes "config_std c" "est_ok c M e"
  shows "\<exists>e'. renew_timer c p e = Some e' \<and> est_ok c M e' \<and> rtt_ts e' = rtt_ts e \<and> boot_time e' = boot_time e"
  using est_ok_timer [OF assms] est_ok_sets(2) [OF assms(2)] by (auto simp: renew_timer_def)

lemma rtt_update_ts [simp]: "rtt_ts (rtt_update c now tao e) = rtt_ts e" "boot_time (rtt_update c now tao e) = boot_time e"
  by (simp_all add: rtt_update_def set_rtxcur_def linux_smooth_def Let_def)

lemma est_ok_stamped:
  assumes "config_std c" "est_ok c M e" "rtt_ticks c (boot_time e) (at_now p) (at_now p - at_ts_echo p) \<le> M" "M < 32768"
  shows "est_ok c M (stamped_update c p e) \<and> rtt_ts (stamped_update c p e) = rtt_ts e \<and> boot_time (stamped_update c p e) = boot_time e"
  using est_ok_update [OF assms] est_ok_sets(1) by (auto simp: stamped_update_def Let_def)

lemma est_ok_timed:
  assumes c: "config_std c" and e: "est_ok c M e" and m: "rtt_ticks c (boot_time e) (at_now p) (at_now p - rtt_ts e) \<le> M" "M < 32768"
  shows "est_ok c M (timed_update c p saw e)"
proof -
  let ?e = "(if ecn_ends c p e then e\<lparr>t_backoff := 1, ecn_backoff := False\<rparr> else e)\<lparr>rtt_active := False\<rparr>"
  have "est_ok c M ?e" "rtt_ts ?e = rtt_ts e" "boot_time ?e = boot_time e" using e est_ok_sets(1) [OF e] by simp_all
  then show ?thesis using est_ok_update [OF c, of M ?e] m by (simp add: timed_update_def Let_def)
qed

lemma time_processing_ok:
  assumes c: "config_std c" and e: "est_ok c M e" and M: "M < 32768" and p: "sample_bounded c M (Acked p) e"
  shows "\<exists>e'. time_processing c p e = Some e' \<and> est_ok c M e'"
proof -
  obtain e1 where e1: "(if timerfix c then Some e else renew_timer c p e) = Some e1" "est_ok c M e1" "rtt_ts e1 = rtt_ts e" "boot_time e1 = boot_time e"
    using est_ok_renew [OF c e, of p] e by (cases "timerfix c") auto
  let ?saw = "\<not> at_no_ts p \<and> ts_option c"
  define e2 where "e2 = (if ?saw then stamped_update c p e1 else e1)"
  have e2: "est_ok c M e2" "rtt_ts e2 = rtt_ts e" "boot_time e2 = boot_time e"
    using est_ok_stamped [OF c e1(2) _ M, of p] p e1 by (auto simp: e2_def)
  define e3 where "e3 = (if rtt_active e2 \<and> rtt_seq e2 \<le> at_seqno p then timed_update c p ?saw e2 else e2)"
  have e3: "est_ok c M e3" using est_ok_timed [OF c e2(1) _ M, of p ?saw] p e2 by (simp add: e3_def)
  have "time_processing c p e = (if timerfix c then renew_timer c p e3 else Some e3)"
    unfolding time_processing_def e1(1) bind.simps Let_def e2_def [symmetric] e3_def [symmetric] ..
  then show ?thesis using est_ok_renew [OF c e3, of p] e3 by auto
qed

lemma output_timing_ok:
  assumes c: "config_std c" and e: "est_ok c M e"
  shows "\<exists>e'. output_timing c now q maxseq force e = Some e' \<and> est_ok c M e'"
proof -
  define e1 where "e1 = (if maxseq < q \<and> \<not> rtt_active e
    then let e = e\<lparr>rtt_active := True\<rparr> in if rtt_seq e < q then e\<lparr>rtt_seq := q, rtt_ts := now\<rparr> else e else e)"
  have e1: "est_ok c M e1" using e by (simp add: e1_def Let_def)
  then obtain e2 where "set_rtx_timer c e1 = Some e2" "est_ok c M e2" using est_ok_timer [OF c] by blast
  moreover have "output_timing c now q maxseq force e = (if rtx_timer e1 = None \<or> force then set_rtx_timer c e1 else Some e1)"
    unfolding output_timing_def Let_def e1_def ..
  ultimately show ?thesis using e1 by auto
qed

lemma rtt_step_ok:
  assumes c: "config_std c" and e: "est_ok c M e" and M: "M < 32768" and x: "sample_bounded c M x e"
    and init: "srtt_init c = 0" and rto: "rfc2988 c \<longrightarrow> maxrto c \<le> 2 ^ 30 * minrto c"
  shows "\<exists>e'. rtt_step c x e = Some e' \<and> est_ok c M e'"
proof (cases x)
  case (Acked p)
  then show ?thesis using time_processing_ok [OF c e M] x by simp
next
  case (Expired backoff)
  have "est_ok c M (e\<lparr>rtx_timer := None\<rparr>)" using e by (rule est_ok_sets)
  then obtain e1 where e1: "(if backoff then rtt_backoff c (e\<lparr>rtx_timer := None\<rparr>) else Some (e\<lparr>rtx_timer := None\<rparr>)) = Some e1" "est_ok c M e1"
    using est_ok_backoff [OF c rto, of M "e\<lparr>rtx_timer := None\<rparr>"] by (cases backoff) auto
  then show ?thesis using est_ok_timer [OF c e1(2)] by (auto simp: Expired reset_rtx_timer_def simp del: est_ok_fields(2-))
next
  case (Output now q maxseq force)
  then show ?thesis using output_timing_ok [OF c e] by simp
next
  case (Restart boot)
  then show ?thesis
    using e init c by (simp add: rtt_reset_def rtt_init_def est_ok_def smooth_ok_def config_std_def)
qed

lemma rtt_run_ok:
  assumes c: "config_std c" and M: "M < 32768" and init: "srtt_init c = 0" and rto: "rfc2988 c \<longrightarrow> maxrto c \<le> 2 ^ 30 * minrto c"
    and "est_ok c M e" "samples_bounded c M xs e"
  shows "\<exists>e'. rtt_run c xs e = Some e' \<and> est_ok c M e'"
  using assms(5,6)
proof (induction xs arbitrary: e)
  case (Cons x xs)
  then obtain e1 where "rtt_step c x e = Some e1" "est_ok c M e1" using rtt_step_ok [OF c _ M _ init rto] by force
  then show ?case using Cons by simp
qed simp

subsection \<open>The base class\<close>

lemma base_smooth_eq:
  assumes c: "config_std c" and e: "smooth_ok M e" "1 \<le> t_rtt e" "t_rtt e \<le> M" "M < 32768" and n: "t_srtt e \<noteq> 0"
  shows "t_srtt (base_smooth c e) = t_srtt e + (t_rtt e - t_srtt e div 8) \<and>
    t_rttvar (base_smooth c e) = max 1 (t_rttvar e + (\<bar>t_rtt e - t_srtt e div 8\<bar> - t_rttvar e div 4))"
proof -
  define d v where "d = t_rtt e - t_srtt e div 8" and "v = \<bar>d\<bar> - t_rttvar e div 4"
  have r: "8 \<le> t_srtt e" "t_srtt e \<le> 8 * M" "0 \<le> t_rttvar e" "t_rttvar e \<le> 4 * M + 3"
    using e(1) n by (simp_all add: smooth_ok_def)
  have d: "- M < d" "d < M" using r e by (auto simp: d_def)
  have v: "- M \<le> v" "v < M" using r d by (auto simp: v_def)
  have sh: "short d = d" "short (- d) = - d" using d e by (simp_all add: short_id)
  have sv: "short ((if d < 0 then - d else d) - t_rttvar e div 4) = v" using v e by (auto simp: v_def abs_if short_id)
  have "8 \<le> t_srtt e + d" using r e by (simp add: d_def)
  then have "base_smooth c e = e\<lparr>t_srtt := t_srtt e + d, t_rttvar := max 1 (t_rttvar e + v)\<rparr>"
    using c n sh sv by (auto simp: base_smooth_def config_std_def d_def [symmetric] Let_def max_def)
  then show ?thesis by (simp add: d_def v_def)
qed

lemma set_rtxcur_mono:
  assumes "config_std c" "t_srtt e = t_srtt e'" "t_rttvar e \<le> t_rttvar e'"
  shows "t_rtxcur (set_rtxcur c e) \<le> t_rtxcur (set_rtxcur c e')"
proof -
  have "t_rttvar e * 2 ^ k \<le> t_rttvar e' * 2 ^ k" for k using assms(3) by (intro mult_right_mono) simp_all
  then have "(t_rttvar e * 2 ^ k + t_srtt e) div 8 \<le> (t_rttvar e' * 2 ^ k + t_srtt e') div 8" for k
    using assms(2) by (intro zdiv_mono1) simp_all
  from this [of "rttvar_exp c + 1"] show ?thesis
    using assms(1) by (auto simp: set_rtxcur_def config_std_def intro!: mult_right_mono)
qed

subsection \<open>Properties\<close>

text \<open>
  C34. The estimate over a connection, with the standard scales, \<open>srtt_init_\<close> zero and, under \<open>rfc2988_\<close>, a \<open>maxrto_\<close> of at most \<open>2 ^ 30\<close>
  times \<open>minrto_\<close>. From a reset on, over every list of acknowledgements, timeouts, packets sent and resets whose round-trip samples
  are at most \<open>M\<close> ticks, \<open>M\<close> below 32768, the timer code never stops the simulation with a negative timeout and the doubled
  multiplier never leaves the positive \<open>int\<close>s. The smoothed round-trip time that the modules read is unset or between one tick and \<open>M\<close> ticks, so that it is at least 8 in
  eighths, the variation is not negative, and a pending timer runs for at least two ticks and at most \<open>maxrto_\<close>.
\<close>

theorem estimator_sound:
  assumes c: "config_std c" "srtt_init c = 0" "rfc2988 c \<longrightarrow> maxrto c \<le> 2 ^ 30 * minrto c" and M: "M < 32768"
    and e0: "\<not> use_rtt e0" and samples: "samples_bounded c M xs (rtt_reset c boot e0)"
  shows "\<exists>e. rtt_run c xs (rtt_reset c boot e0) = Some e \<and> 0 \<le> t_rtxcur e \<and> 1 \<le> t_backoff e \<and> t_backoff e < 2 ^ 31 \<and>
    (t_srtt e = 0 \<or> 8 \<le> uint (word_of_int (t_srtt e) :: u32) \<and> uint (word_of_int (t_srtt e) :: u32) \<le> 8 * M \<and>
       0 \<le> t_rttvar e \<and> t_rttvar e \<le> 4 * M + 3) \<and>
    (case rtx_timer e of None \<Rightarrow> True | Some t \<Rightarrow> 2 * tcp_tick c \<le> t \<and> t \<le> max (maxrto c) (2 * tcp_tick c))"
proof -
  have "est_ok c M (rtt_reset c boot e0)"
    using c(1,2) e0 by (simp add: rtt_reset_def rtt_init_def est_ok_def smooth_ok_def config_std_def)
  then obtain e where e: "rtt_run c xs (rtt_reset c boot e0) = Some e" "est_ok c M e" using rtt_run_ok [OF c(1) M c(2,3) _ samples] by blast
  have "uint (word_of_int (t_srtt e) :: u32) = t_srtt e" if "t_srtt e \<noteq> 0"
  proof -
    have "0 \<le> t_srtt e" "t_srtt e < 2 ^ 32" using that e(2) M by (auto simp: est_ok_def smooth_ok_def)
    then show ?thesis by (simp add: uint_word_of_int_eq take_bit_int_eq_self)
  qed
  then show ?thesis using e by (auto simp: est_ok_def smooth_ok_def timer_ok_def split: option.splits)
qed

text \<open>The settings of the agent with timestamps and a tick of one millisecond.\<close>

definition example_rtt_config :: rtt_config where
  "example_rtt_config =
     \<lparr>T_SRTT_BITS = 3, T_RTTVAR_BITS = 2, rttvar_exp = 2, tcp_tick = 1 / 1000, srtt_init = 0, rttvar_init = 12,
      rtxcur_init = 3, minrto = 1 / 5, maxrto = 60, rfc2988 = True, ts_option = True, ts_resetRTO = False, timerfix = True,
      ect = False\<rparr>"

definition example_est :: rtt_est where
  "example_est =
     \<lparr>t_rtt = 0, t_srtt = 0, t_rttvar = 0, t_rtxcur = 0, t_backoff = 1, rtt_active = False, rtt_seq = - 1, rtt_ts = 0,
      boot_time = 0, use_rtt = False, ecn_backoff = False, rtx_timer = None\<rparr>"

lemma example_est_boot [simp]: "boot_time example_est = 0"
  by (simp add: example_est_def)

definition example_ack_time :: ack_time where
  "example_ack_time =
     \<lparr>at_now = 1 / 10, at_seqno = 0, at_ts_echo = 0, at_no_ts = False, at_ecnecho = False, at_outstanding = True\<rparr>"

lemma example_rtt_config_std:
  "config_std example_rtt_config" "srtt_init example_rtt_config = 0"
  "rfc2988 example_rtt_config \<longrightarrow> maxrto example_rtt_config \<le> 2 ^ 30 * minrto example_rtt_config"
  by (simp_all add: config_std_def example_rtt_config_def trunc_int_def)

theorem estimator_sound_witness:
  "\<exists>e. rtt_run example_rtt_config [Output 0 0 (- 1) False, Acked example_ack_time] (rtt_reset example_rtt_config 0 example_est) = Some e \<and>
     0 \<le> t_rtxcur e \<and> t_backoff e < 2 ^ 31"
proof -
  have "rtt_ts e = 0 \<Longrightarrow> sample_bounded example_rtt_config 1000 (Acked example_ack_time) e" for e
    by (simp add: rtt_ticks_def example_rtt_config_def example_ack_time_def trunc_int_def Let_def floor_le_iff)
  moreover have "rtt_ts e = 0" if "output_timing example_rtt_config 0 0 (- 1) False (rtt_reset example_rtt_config 0 example_est) = Some e" for e
    using that by (auto simp: output_timing_def set_rtx_timer_def rtt_timeout_def rtt_reset_def rtt_init_def example_est_def Let_def
        split: if_splits bind_splits)
  ultimately have "samples_bounded example_rtt_config 1000 [Output 0 0 (- 1) False, Acked example_ack_time]
      (rtt_reset example_rtt_config 0 example_est)"
    by (auto split: option.split)
  moreover have "\<not> use_rtt example_est" by (simp add: example_est_def)
  ultimately show ?thesis using estimator_sound [OF example_rtt_config_std, of 1000 example_est] by fastforce
qed



text \<open>
  The difference of a sample to the smoothed round-trip time is a \<open>short\<close>. A sample that is longer by 32768 ticks or somewhat more, 33 seconds with a
  module installed, counts as one that is shorter: the smoothed time falls to an eighth of a tick, below the 8 that H-TCP needs to have a
  round-trip time at all.
\<close>

theorem long_sample_wraps:
  assumes c: "config_std c" and e: "8 \<le> t_srtt e" "t_srtt e \<le> 16384"
    and m: "t_srtt e div 8 + 32768 \<le> rtt_ticks c (boot_time e) now tao" "rtt_ticks c (boot_time e) now tao < t_srtt e div 8 + 49152"
  shows "t_srtt (rtt_update c now tao e) = 1"
proof -
  have "short (rtt_ticks c (boot_time e) now tao - t_srtt e div 8) = rtt_ticks c (boot_time e) now tao - t_srtt e div 8 - 65536"
    using m by (intro short_wrap) simp_all
  moreover from this have "t_srtt e + short (rtt_ticks c (boot_time e) now tao - t_srtt e div 8) \<le> 0" using m e by simp
  ultimately show ?thesis
    using c e by (simp add: rtt_update_def set_rtxcur_def linux_smooth_def config_std_def Let_def)
qed

theorem long_sample_wraps_witness:
  "t_srtt (rtt_update example_rtt_config 33 33 (example_est\<lparr>t_srtt := 800\<rparr>)) = 1"
proof -
  have "rtt_ticks example_rtt_config 0 33 33 = 33000"
    by (simp add: rtt_ticks_def example_rtt_config_def trunc_int_def Let_def floor_eq_iff)
  then show ?thesis using long_sample_wraps [OF example_rtt_config_std(1), of "example_est\<lparr>t_srtt := 800\<rparr>" 33 33] by simp
qed

text \<open>
  Without the bound on \<open>maxrto_\<close> the shift overflows: with a timeout still below \<open>maxrto_\<close> at the thirtieth doubling, the next one makes
  the multiplier negative, and the timer that is set from it stops the simulation.
\<close>

theorem backoff_overflows:
  assumes c: "config_std c" "rfc2988 c" "0 < minrto c" "2 ^ 30 * minrto c < maxrto c"
    and e: "t_backoff e = 2 ^ 30" "t_rtxcur e = minrto c" "\<not> use_rtt e" "2 * tcp_tick c \<le> 2 ^ 30 * minrto c"
  shows "reset_rtx_timer c True e = None"
proof -
  have "rtt_timeout c e = Some (2 ^ 30 * minrto c, e)"
    using c e by (simp add: rtt_timeout_def Let_def mult.commute)
  moreover have "cint (2 ^ 30 * 2) = - (2 ^ 31)" by (simp add: cint_def)
  ultimately obtain e1 where e1: "rtt_backoff c e = Some e1" "t_backoff e1 = - (2 ^ 31)" "t_rtxcur e1 = minrto c" "use_rtt e1 = use_rtt e"
    using c(2,4) e by (simp add: rtt_backoff_def)
  have neg: "minrto c * of_int (t_backoff e1) < 0" using c(3) by (simp add: e1(2))
  moreover have "0 < tcp_tick c" "0 \<le> maxrto c" using c(1) by (simp_all add: config_std_def)
  ultimately have "rtt_timeout c e1 = None" using c(2) e1(3) by (simp add: rtt_timeout_def Let_def)
  then show ?thesis using e1(1) by (simp add: reset_rtx_timer_def set_rtx_timer_def)
qed

theorem backoff_overflows_witness:
  "reset_rtx_timer (example_rtt_config\<lparr>maxrto := 2 ^ 30\<rparr>) True (example_est\<lparr>t_backoff := 2 ^ 30, t_rtxcur := 1 / 5\<rparr>) = None"
proof -
  let ?c = "example_rtt_config\<lparr>maxrto := 2 ^ 30\<rparr>"
  have "config_std ?c" using example_rtt_config_std(1) by (simp add: config_std_def)
  moreover have "rfc2988 ?c" "minrto ?c = 1 / 5" "maxrto ?c = 2 ^ 30" "tcp_tick ?c = 1 / 1000" by (simp_all add: example_rtt_config_def)
  ultimately show ?thesis
    using backoff_overflows [of ?c "example_est\<lparr>t_backoff := 2 ^ 30, t_rtxcur := 1 / 5\<rparr>"] by (simp add: example_est_def)
qed

text \<open>
  A reset does not end a measurement. \<open>reset\<close> sets \<open>rtt_seq_\<close> back but leaves \<open>rtt_active_\<close> set: if a packet was being timed, the
  first packet after the reset starts no measurement, and its acknowledgement gives as round-trip time the time since a
  packet of before the reset was sent.
\<close>

theorem reset_keeps_measurement:
  assumes c: "config_std c" "srtt_init c = 0" "timerfix c" "\<not> ts_option c"
    and e: "\<not> use_rtt e" "rtt_active e"
    and p: "0 \<le> at_seqno p" "rtt_ticks c boot (at_now p) (at_now p - rtt_ts e) \<le> M" "M < 32768"
  shows "\<exists>e'. rtt_run c [Restart boot, Output sent 0 (- 1) False, Acked p] e = Some e' \<and>
    t_rtt e' = rtt_ticks c boot (at_now p) (at_now p - rtt_ts e)"
proof -
  define e1 where "e1 = rtt_reset c boot e"
  have e1: "est_ok c M e1" "rtt_active e1" "rtt_seq e1 = - 1" "rtt_ts e1 = rtt_ts e" "boot_time e1 = boot" "rtx_timer e1 = None"
    using c e by (simp_all add: e1_def rtt_reset_def rtt_init_def est_ok_def smooth_ok_def config_std_def)
  obtain t where t: "set_rtx_timer c e1 = Some (e1\<lparr>rtx_timer := Some t\<rparr>)" "est_ok c M (e1\<lparr>rtx_timer := Some t\<rparr>)"
    using est_ok_timer [OF c(1) e1(1)] by blast
  let ?e2 = "e1\<lparr>rtx_timer := Some t\<rparr>"
  have out: "rtt_step c (Output sent 0 (- 1) False) e1 = Some ?e2" using e1 t(1) by (simp add: output_timing_def)
  define e3 where "e3 = timed_update c p False ?e2"
  have e3: "est_ok c M e3" using est_ok_timed [OF c(1) t(2)] p e1(4,5) by (simp add: e3_def)
  have rtt: "t_rtt e3 = rtt_ticks c boot (at_now p) (at_now p - rtt_ts e)"
    by (simp add: e3_def timed_update_def Let_def rtt_update_def set_rtxcur_def linux_smooth_def e1(4,5))
  have "time_processing c p ?e2 = renew_timer c p e3"
    using c(3,4) e1(2,3) p(1) by (simp add: time_processing_def e3_def)
  moreover have "\<exists>e'. renew_timer c p e3 = Some e' \<and> t_rtt e' = t_rtt e3"
    using est_ok_timer [OF c(1) e3] by (auto simp: renew_timer_def)
  ultimately show ?thesis using out rtt by (auto simp: e1_def [symmetric])
qed

theorem reset_keeps_measurement_witness:
  "\<exists>e'. rtt_run (example_rtt_config\<lparr>ts_option := False\<rparr>) [Restart 0, Output 5 0 (- 1) False, Acked (example_ack_time\<lparr>at_now := 6\<rparr>)]
       (example_est\<lparr>rtt_active := True, rtt_seq := 7, rtt_ts := 1\<rparr>) = Some e' \<and> t_rtt e' = 5000"
proof -
  let ?c = "example_rtt_config\<lparr>ts_option := False\<rparr>"
  have c: "config_std ?c" "srtt_init ?c = 0" "timerfix ?c" "\<not> ts_option ?c"
    using example_rtt_config_std by (simp_all add: config_std_def) (simp add: example_rtt_config_def)
  have "rtt_ticks ?c 0 6 5 = 5000"
    by (simp add: rtt_ticks_def example_rtt_config_def trunc_int_def fmod_def Let_def)
  then show ?thesis
    using reset_keeps_measurement [OF c, of "example_est\<lparr>rtt_active := True, rtt_seq := 7, rtt_ts := 1\<rparr>"
        "example_ack_time\<lparr>at_now := 6\<rparr>" 0 5000 5]
    by (simp add: example_est_def example_ack_time_def)
qed

end
