(* ===== verification/Event_Queue.thy ===== *)
theory Event_Queue
  imports Complex_Main Prelude
begin

section \<open>Queues of events (\<open>common/scheduler.h\<close>, \<open>common/scheduler.cc\<close>)\<close>

text \<open>
  The simulator keeps the events to come in a queue. The class \<open>Scheduler\<close> has virtual functions for it, and every scheduler of
  the distribution implements them with another data structure. This theory has the table of these functions, the scheduler on a sorted
  list, and the contract of a queue: it behaves as the sorted list does.
\<close>

subsection \<open>Events\<close>

text \<open>An event is identified by its number, which is positive while it is in the queue. The pointers \<open>next_\<close> and \<open>prev_\<close> belong
  to the queue.\<close>

record 'h event =
  ev_uid :: int
  ev_time :: real
  ev_handler :: 'h

text \<open>The virtual functions of a scheduler. A failed assertion, \<open>abort\<close> or an access outside of an array is \<open>None\<close>.\<close>

record ('h, 'q) sched_ops =
  op_insert :: "'h event \<Rightarrow> 'q \<Rightarrow> 'q option"
  op_cancel :: "'h event \<Rightarrow> 'q \<Rightarrow> 'q option"
  op_lookup :: "int \<Rightarrow> 'q \<Rightarrow> 'h event option"
  op_deque :: "'q \<Rightarrow> ('h event option \<times> 'q) option"
  op_head :: "'q \<Rightarrow> ('h event option \<times> 'q) option"

subsection \<open>The scheduler on a list\<close>

fun list_insert :: "'h event \<Rightarrow> 'h event list \<Rightarrow> 'h event list" where
  "list_insert e [] = [e]"
| "list_insert e (p # q) = (if ev_time e < ev_time p then e # p # q else p # list_insert e q)"

text \<open>The loop of \<open>cancel\<close> that looks for the pointer to the event.\<close>

fun list_unlink :: "int \<Rightarrow> 'h event list \<Rightarrow> 'h event list option" where
  "list_unlink u [] = None"
| "list_unlink u (p # q) = (if ev_uid p = u then Some q else map_option ((#) p) (list_unlink u q))"

definition list_cancel :: "'h event \<Rightarrow> 'h event list \<Rightarrow> 'h event list option" where
  "list_cancel e q = (if ev_uid e \<le> 0 then Some q else list_unlink (ev_uid e) q)"

definition list_lookup :: "int \<Rightarrow> 'h event list \<Rightarrow> 'h event option" where
  "list_lookup u q = find (\<lambda>e. ev_uid e = u) q"

fun list_deque :: "'h event list \<Rightarrow> 'h event option \<times> 'h event list" where
  "list_deque [] = (None, [])"
| "list_deque (e # q) = (Some e, q)"

definition list_head :: "'h event list \<Rightarrow> 'h event option" where
  "list_head q = (case q of [] \<Rightarrow> None | e # _ \<Rightarrow> Some e)"

definition list_scheduler :: "('h, 'h event list) sched_ops" where
  "list_scheduler =
     \<lparr>op_insert = (\<lambda>e q. Some (list_insert e q)), op_cancel = list_cancel, op_lookup = list_lookup,
      op_deque = (\<lambda>q. Some (list_deque q)), op_head = (\<lambda>q. Some (list_head q, q))\<rparr>"

subsection \<open>Order\<close>

text \<open>Events run in the order of their times, and those of one time in the order of their numbers.\<close>

definition before :: "'h event \<Rightarrow> 'h event \<Rightarrow> bool" where
  "before e e' \<longleftrightarrow> ev_time e < ev_time e' \<or> ev_time e = ev_time e' \<and> ev_uid e < ev_uid e'"

lemma before_irrefl [simp]: "\<not> before e e"
  by (simp add: before_def)

lemma before_trans: "before e1 e2 \<Longrightarrow> before e2 e3 \<Longrightarrow> before e1 e3"
  by (auto simp: before_def)

lemma before_antisym: "before e e' \<Longrightarrow> \<not> before e' e"
  by (auto simp: before_def)

lemma before_total: "ev_uid e \<noteq> ev_uid e' \<Longrightarrow> before e e' \<or> before e' e"
  by (auto simp: before_def)

lemma before_time: "before e e' \<Longrightarrow> ev_time e \<le> ev_time e'"
  by (auto simp: before_def)

definition queue_ok :: "'h event list \<Rightarrow> bool" where
  "queue_ok es \<longleftrightarrow> sorted_wrt before es \<and> distinct (map ev_uid es) \<and> (\<forall>e \<in> set es. 0 < ev_uid e \<and> 0 \<le> ev_time e)"

definition fresh :: "'h event \<Rightarrow> 'h event list \<Rightarrow> bool" where
  "fresh e es \<longleftrightarrow> 0 < ev_uid e \<and> 0 \<le> ev_time e \<and> (\<forall>p \<in> set es. ev_uid p < ev_uid e)"

lemma queue_ok_Nil [simp]: "queue_ok []"
  by (simp add: queue_ok_def)

lemma queue_ok_Cons:
  "queue_ok (e # es) \<longleftrightarrow> (\<forall>p \<in> set es. before e p) \<and> ev_uid e \<notin> ev_uid ` set es \<and> 0 < ev_uid e \<and> 0 \<le> ev_time e \<and> queue_ok es"
  by (auto simp: queue_ok_def)

lemma queue_ok_uid_inj: "queue_ok es \<Longrightarrow> p \<in> set es \<Longrightarrow> q \<in> set es \<Longrightarrow> ev_uid p = ev_uid q \<Longrightarrow> p = q"
  by (auto simp: queue_ok_def distinct_map dest: inj_onD)

lemma queue_ok_distinct: "queue_ok es \<Longrightarrow> distinct es"
  by (simp add: queue_ok_def distinct_map)

lemma queue_ok_tl: "queue_ok es \<Longrightarrow> queue_ok (tl es)"
  by (cases es) (simp_all add: queue_ok_Cons)

lemma set_list_insert [simp]: "set (list_insert e es) = insert e (set es)"
  by (induction es) auto

lemma queue_ok_insert: "queue_ok es \<Longrightarrow> fresh e es \<Longrightarrow> queue_ok (list_insert e es)"
proof (induction es)
  case Nil
  then show ?case by (simp add: queue_ok_Cons fresh_def)
next
  case (Cons p es)
  then have ok: "queue_ok es" "fresh e es" "\<forall>x \<in> set es. before p x" "ev_uid p \<notin> ev_uid ` set es" "0 < ev_uid p" "0 \<le> ev_time p"
    "ev_uid p < ev_uid e" by (simp_all add: queue_ok_Cons fresh_def)
  show ?case
  proof (cases "ev_time e < ev_time p")
    case True
    then have "\<forall>x \<in> set (p # es). before e x" using ok(3) before_time by (fastforce simp: before_def)
    then show ?thesis using True Cons.prems by (auto simp: queue_ok_Cons fresh_def)
  next
    case False
    then have "before p e" using ok(7) by (auto simp: before_def)
    then show ?thesis using False ok Cons.IH by (auto simp: queue_ok_Cons)
  qed
qed

lemma queue_ok_remove1: "queue_ok es \<Longrightarrow> queue_ok (remove1 e es)"
  by (induction es) (use set_remove1_subset in \<open>force simp: queue_ok_Cons\<close>)+

text \<open>The order leaves no choice: a queue is known by its set of events.\<close>

lemma queue_eqI: "queue_ok es \<Longrightarrow> queue_ok es' \<Longrightarrow> set es = set es' \<Longrightarrow> es = es'"
proof (induction es arbitrary: es')
  case (Cons e es)
  then obtain e' es1 where es': "es' = e' # es1" by (cases es') auto
  have "e = e'"
  proof (rule ccontr)
    assume "e \<noteq> e'"
    then have "e \<in> set es1" "e' \<in> set es" using Cons.prems(3) es' by auto
    then show False using Cons.prems(1,2) es' before_antisym by (auto simp: queue_ok_Cons)
  qed
  moreover have "e \<notin> set es" "e' \<notin> set es1"
    using queue_ok_distinct [OF Cons.prems(1)] queue_ok_distinct [OF Cons.prems(2)] es' by auto
  ultimately have "set es = set es1" using Cons.prems(3) es' by auto
  then show ?case using Cons es' \<open>e = e'\<close> by (auto simp: queue_ok_Cons)
qed simp

text \<open>Inserting behind every event that is not later.\<close>

lemma list_insert_split:
  assumes "\<forall>p \<in> set xs. ev_time p \<le> ev_time e" "\<forall>p \<in> set ys. ev_time e < ev_time p"
  shows "list_insert e (xs @ ys) = xs @ e # ys"
  using assms(1)
proof (induction xs)
  case Nil
  then show ?case using assms(2) by (cases ys) simp_all
qed simp

lemma list_unlink_ok: "queue_ok es \<Longrightarrow> e \<in> set es \<Longrightarrow> list_unlink (ev_uid e) es = Some (remove1 e es)"
  by (induction es) (auto simp: queue_ok_Cons)

lemma list_lookup_Some: "queue_ok es \<Longrightarrow> e \<in> set es \<Longrightarrow> list_lookup (ev_uid e) es = Some e"
proof (induction es)
  case (Cons p es)
  then show ?case by (cases "e = p") (auto simp: list_lookup_def queue_ok_Cons)
qed simp

lemma list_lookup_None: "u \<notin> ev_uid ` set es \<Longrightarrow> list_lookup u es = None"
  by (auto simp: list_lookup_def find_None_iff)

lemma list_lookup_mem: "list_lookup u es = Some e \<Longrightarrow> e \<in> set es \<and> ev_uid e = u"
  by (auto simp: list_lookup_def find_Some_iff)

text \<open>Any search among the events of a queue finds what the search in the list finds.\<close>

lemma list_lookup_find: "queue_ok es \<Longrightarrow> set xs = set es \<Longrightarrow> find (\<lambda>e. ev_uid e = u) xs = list_lookup u es"
proof (cases "find (\<lambda>e. ev_uid e = u) xs")
  case (Some e)
  assume es: "queue_ok es" "set xs = set es"
  then have "e \<in> set es" "ev_uid e = u" using Some find_Some_iff [of "\<lambda>e. ev_uid e = u" xs e] by auto
  then show ?thesis using Some list_lookup_Some [OF es(1)] by auto
next
  case None
  assume "set xs = set es"
  then have "u \<notin> ev_uid ` set es" using None by (auto simp: find_None_iff)
  then show ?thesis using None list_lookup_None by metis
qed

subsection \<open>The contract of a queue\<close>

text \<open>\<open>rep n q es\<close> says that the queue \<open>q\<close> holds the events \<open>es\<close>, and that \<open>n\<close> more can be inserted.\<close>

locale event_queue =
  fixes ops :: "('h, 'q) sched_ops" and rep :: "nat \<Rightarrow> 'q \<Rightarrow> 'h event list \<Rightarrow> bool"
  assumes rep_ok: "rep n q es \<Longrightarrow> queue_ok es"
    and rep_mono: "rep (Suc n) q es \<Longrightarrow> rep n q es"
    and insert_ok: "rep (Suc n) q es \<Longrightarrow> fresh e es \<Longrightarrow> \<exists>q'. op_insert ops e q = Some q' \<and> rep n q' (list_insert e es)"
    and cancel_ok: "rep n q es \<Longrightarrow> e \<in> set es \<Longrightarrow> \<exists>q'. op_cancel ops e q = Some q' \<and> rep n q' (remove1 e es)"
    and lookup_ok: "rep n q es \<Longrightarrow> op_lookup ops u q = list_lookup u es"
    and deque_ok: "rep n q es \<Longrightarrow> \<exists>q'. op_deque ops q = Some (list_head es, q') \<and> rep n q' (tl es)"
    and head_ok: "rep n q es \<Longrightarrow> \<exists>q'. op_head ops q = Some (list_head es, q') \<and> rep n q' es"

text \<open>What the simulator does with a queue, with what it gets back.\<close>

datatype 'h queue_event = Insert "'h event" | Cancel int | Lookup int | Deque | Peek

text \<open>An event is cancelled by its number, as the command \<open>cancel\<close> does it: it is looked up first.\<close>

definition cancel_uid :: "('h, 'q) sched_ops \<Rightarrow> int \<Rightarrow> 'q \<Rightarrow> 'q option" where
  "cancel_uid ops u q = (case op_lookup ops u q of None \<Rightarrow> Some q | Some e \<Rightarrow> op_cancel ops e q)"

fun queue_step :: "('h, 'q) sched_ops \<Rightarrow> 'h queue_event \<Rightarrow> 'q \<Rightarrow> ('h event option \<times> 'q) option" where
  "queue_step ops (Insert e) q = map_option (Pair None) (op_insert ops e q)"
| "queue_step ops (Cancel u) q = map_option (Pair None) (cancel_uid ops u q)"
| "queue_step ops (Lookup u) q = Some (op_lookup ops u q, q)"
| "queue_step ops Deque q = op_deque ops q"
| "queue_step ops Peek q = op_head ops q"

fun queue_run :: "('h, 'q) sched_ops \<Rightarrow> 'h queue_event list \<Rightarrow> 'q \<Rightarrow> 'h event option list option" where
  "queue_run ops [] q = Some []"
| "queue_run ops (x # xs) q = do {
     (r, q) \<leftarrow> queue_step ops x q;
     rs \<leftarrow> queue_run ops xs q;
     Some (r # rs)
   }"

text \<open>Events come with growing numbers, and not before the time 0.\<close>

fun inserts :: "'h queue_event list \<Rightarrow> 'h event list" where
  "inserts [] = []"
| "inserts (Insert e # xs) = e # inserts xs"
| "inserts (x # xs) = inserts xs"

definition good_inserts :: "'h queue_event list \<Rightarrow> bool" where
  "good_inserts xs \<longleftrightarrow> sorted_wrt (<) (map ev_uid (inserts xs)) \<and> list_all (\<lambda>e. 0 < ev_uid e \<and> 0 \<le> ev_time e) (inserts xs)"

lemma good_inserts_Cons:
  "good_inserts (x # xs) \<Longrightarrow> good_inserts xs \<and> (case x of Insert e \<Rightarrow> 0 < ev_uid e \<and> 0 \<le> ev_time e \<and> (\<forall>p \<in> set (inserts xs). ev_uid e < ev_uid p) | _ \<Rightarrow> True)"
  by (cases x) (auto simp: good_inserts_def)

interpretation list_queue: event_queue list_scheduler "\<lambda>n q es. q = es \<and> queue_ok es"
proof unfold_locales
  fix q es :: "'h event list" and n
  assume "q = es \<and> queue_ok es"
  then show "\<exists>q'. op_deque list_scheduler q = Some (list_head es, q') \<and> q' = tl es \<and> queue_ok (tl es)"
    using queue_ok_tl [of es] by (cases es) (simp_all add: list_scheduler_def list_head_def)
qed (auto simp: list_scheduler_def queue_ok_insert queue_ok_remove1 list_cancel_def list_unlink_ok, auto simp: queue_ok_def)

context event_queue
begin

lemma cancel_uid_ok:
  assumes "rep n q es"
  shows "\<exists>q'. cancel_uid ops u q = Some q' \<and>
    rep n q' (case list_lookup u es of None \<Rightarrow> es | Some e \<Rightarrow> remove1 e es)"
proof (cases "list_lookup u es")
  case (Some e)
  then have "e \<in> set es" using list_lookup_mem by blast
  then show ?thesis using Some lookup_ok [OF assms, of u] cancel_ok [OF assms, of e] by (simp add: cancel_uid_def)
qed (use assms lookup_ok [OF assms] in \<open>simp add: cancel_uid_def\<close>)

text \<open>A step of any queue is the step of the list.\<close>

lemma step_ok:
  assumes q: "rep (Suc n) q es" and x: "case x of Insert e \<Rightarrow> fresh e es | _ \<Rightarrow> True"
  shows "\<exists>r q' es'. queue_step ops x q = Some (r, q') \<and> queue_step list_scheduler x es = Some (r, es') \<and> rep n q' es' \<and>
    set es' \<subseteq> set es \<union> set (inserts [x])"
proof -
  note lst = list_scheduler_def
  have sub: "set (remove1 p es) \<subseteq> set es" for p by (rule set_remove1_subset)
  have tl: "set (tl es) \<subseteq> set es" by (cases es) auto
  show ?thesis
  proof (cases x)
    case (Insert e)
    then show ?thesis using insert_ok [OF q, of e] x by (auto simp: lst)
  next
    case (Cancel u)
    obtain q' where q': "cancel_uid ops u q = Some q'"
      "rep (Suc n) q' (case list_lookup u es of None \<Rightarrow> es | Some e \<Rightarrow> remove1 e es)" using cancel_uid_ok [OF q] by blast
    have "cancel_uid list_scheduler u es = Some (case list_lookup u es of None \<Rightarrow> es | Some e \<Rightarrow> remove1 e es)"
      using list_queue.cancel_uid_ok [of es es u] rep_ok [OF q] by simp
    then show ?thesis using q' rep_mono Cancel sub by (auto split: option.splits)
  next
    case (Lookup u)
    then show ?thesis using lookup_ok [OF q] q rep_mono by (auto simp: lst)
  next
    case Deque
    then show ?thesis using deque_ok [OF q] rep_mono tl by (cases es) (auto simp: lst list_head_def)
  next
    case Peek
    then show ?thesis using head_ok [OF q] rep_mono by (auto simp: lst)
  qed
qed

lemma run_ok:
  assumes "rep (length xs + n) q es" "good_inserts xs" "\<forall>p \<in> set es. \<forall>e \<in> set (inserts xs). ev_uid p < ev_uid e"
  shows "\<exists>rs. queue_run ops xs q = Some rs \<and> queue_run list_scheduler xs es = Some rs"
  using assms
proof (induction xs arbitrary: q es)
  case (Cons x xs)
  have x: "case x of Insert e \<Rightarrow> fresh e es | _ \<Rightarrow> True"
    using Cons.prems(2,3) good_inserts_Cons [of x xs] by (cases x) (auto simp: fresh_def)
  have q: "rep (Suc (length xs + n)) q es" using Cons.prems(1) by simp
  obtain r q' es' where step: "queue_step ops x q = Some (r, q')" "queue_step list_scheduler x es = Some (r, es')"
    "rep (length xs + n) q' es'" "set es' \<subseteq> set es \<union> set (inserts [x])"
    using step_ok [OF q x] by blast
  have "\<forall>p \<in> set es'. \<forall>e \<in> set (inserts xs). ev_uid p < ev_uid e"
    using Cons.prems(2,3) good_inserts_Cons [of x xs] step(4) by (cases x) auto
  then obtain rs where "queue_run ops xs q' = Some rs" "queue_run list_scheduler xs es' = Some rs"
    using Cons.IH [OF step(3)] Cons.prems(2) good_inserts_Cons [of x xs] by blast
  then show ?case using step(1,2) by simp
qed simp

end

text \<open>Three events, of which the second and the third have one time; the third is cancelled.\<close>

definition example_event :: "int \<Rightarrow> real \<Rightarrow> string event" where
  "example_event u t = \<lparr>ev_uid = u, ev_time = t, ev_handler = ''h''\<rparr>"

lemma example_event_simps [simp]: "ev_uid (example_event u t) = u" "ev_time (example_event u t) = t"
  by (simp_all add: example_event_def)

definition example_operations :: "string queue_event list" where
  "example_operations = [Insert (example_event 1 2), Insert (example_event 2 1), Insert (example_event 3 1), Deque, Cancel 3, Deque]"

lemma example_operations_good: "good_inserts example_operations"
  by (simp add: good_inserts_def example_operations_def)

lemma example_operations_result:
  "queue_run list_scheduler example_operations [] =
     Some [None, None, None, Some (example_event 2 1), None, Some (example_event 1 2)]"
  by (simp add: example_operations_def list_scheduler_def cancel_uid_def list_lookup_def list_cancel_def)

end
