(* ===== verification/Heap_Queue.thy ===== *)
theory Heap_Queue
  imports Event_Queue "HOL-Library.Multiset"
begin

section \<open>The scheduler on a heap (\<open>common/heap.h\<close>, \<open>common/scheduler.cc\<close>)\<close>

text \<open>
  A binary heap in an array. Events of the same time are told apart by a second key, a counter of insertions of 32
  bits. The list \<open>h_elems\<close> is the used part of the array, so that its length is \<open>h_size\<close>.
\<close>

subsection \<open>Operations\<close>

record 'h heap_elem =
  he_key :: real
  he_s_key :: u32
  he_elem :: "'h event"

record 'h heap =
  h_elems :: "'h heap_elem list"
  h_s_key :: u32
  h_maxsize :: nat

definition new_heap :: "'h heap" where
  "new_heap = \<lparr>h_elems = [], h_s_key = 0, h_maxsize = 32\<rparr>"

definition parent :: "nat \<Rightarrow> nat" where
  "parent i = (i - 1) div 2"

definition swap :: "nat \<Rightarrow> nat \<Rightarrow> 'a list \<Rightarrow> 'a list" where
  "swap i j xs = xs[i := xs ! j, j := xs ! i]"

definition key_less :: "'h heap_elem \<Rightarrow> 'h heap_elem \<Rightarrow> bool" where
  "key_less a b \<longleftrightarrow> he_key a < he_key b \<or> he_key a = he_key b \<and> he_s_key a < he_s_key b"

definition heap_member :: "'h event \<Rightarrow> 'h heap \<Rightarrow> nat option" where
  "heap_member e h = find (\<lambda>i. ev_uid (he_elem (h_elems h ! i)) = ev_uid e) [0..<length (h_elems h)]"

text \<open>The loop of \<open>heap_insert\<close>, from the free place \<open>i\<close> upwards.\<close>

function heap_up :: "'h heap_elem \<Rightarrow> nat \<Rightarrow> 'h heap_elem list \<Rightarrow> 'h heap_elem list" where
  "heap_up x i xs =
     (if 0 < i \<and> key_less x (xs ! parent i) then heap_up x (parent i) (xs[i := xs ! parent i]) else xs[i := x])"
  by auto
termination by (relation "measure (\<lambda>(x, i, xs). i)") (auto simp: parent_def)

declare heap_up.simps [simp del]

definition heap_insert :: "real \<Rightarrow> 'h event \<Rightarrow> 'h heap \<Rightarrow> 'h heap" where
  "heap_insert key e h =
     (let x = \<lparr>he_key = key, he_s_key = h_s_key h, he_elem = e\<rparr>; size = length (h_elems h)
      in \<lparr>h_elems = heap_up x size (h_elems h @ [x]), h_s_key = h_s_key h + 1,
          h_maxsize = (if h_maxsize h = size then h_maxsize h * 2 else h_maxsize h)\<rparr>)"

text \<open>The loop of \<open>heap_extract_min\<close>: the smaller child, the right one when they are equal.\<close>

definition min_child :: "nat \<Rightarrow> 'h heap_elem list \<Rightarrow> nat" where
  "min_child i xs =
     (let l = i * 2 + 1; r = (i + 1) * 2
      in if r < length xs then if key_less (xs ! l) (xs ! r) then l else r
         else if l < length xs then l else i)"

function heap_down :: "nat \<Rightarrow> 'h heap_elem list \<Rightarrow> 'h heap_elem list" where
  "heap_down i xs =
     (let x = min_child i xs
      in if i < length xs \<and> x \<noteq> i \<and> key_less (xs ! x) (xs ! i) then heap_down x (swap i x xs) else xs)"
  by auto
termination
  by (relation "measure (\<lambda>(i, xs). length xs - i)") (auto simp: min_child_def swap_def Let_def split: if_splits)

declare heap_down.simps [simp del]

definition heap_extract_min :: "'h heap \<Rightarrow> 'h event option \<times> 'h heap" where
  "heap_extract_min h =
     (case h_elems h of
        [] \<Rightarrow> (None, h)
      | x # _ \<Rightarrow> (Some (he_elem x), h\<lparr>h_elems := heap_down 0 ((butlast (h_elems h))[0 := last (h_elems h)])\<rparr>))"

text \<open>The loop of \<open>heap_delete\<close>, which brings an element to the root.\<close>

function to_root :: "nat \<Rightarrow> 'h heap_elem list \<Rightarrow> 'h heap_elem list" where
  "to_root i xs = (if i = 0 then xs else to_root (parent i) (swap i (parent i) xs))"
  by auto
termination by (relation "measure (\<lambda>(i, xs). i)") (auto simp: parent_def)

declare to_root.simps [simp del]

definition heap_delete :: "'h event \<Rightarrow> 'h heap \<Rightarrow> 'h heap" where
  "heap_delete e h =
     (case heap_member e h of
        None \<Rightarrow> h
      | Some i \<Rightarrow> snd (heap_extract_min (h\<lparr>h_elems := to_root i (h_elems h)\<rparr>)))"

definition heap_min :: "'h heap \<Rightarrow> 'h event option" where
  "heap_min h = (case h_elems h of [] \<Rightarrow> None | x # _ \<Rightarrow> Some (he_elem x))"

definition heap_cancel :: "'h event \<Rightarrow> 'h heap \<Rightarrow> 'h heap" where
  "heap_cancel e h = (if ev_uid e \<le> 0 then h else heap_delete e h)"

text \<open>The iteration visits the array from its start.\<close>

definition heap_lookup :: "int \<Rightarrow> 'h heap \<Rightarrow> 'h event option" where
  "heap_lookup u h = find (\<lambda>e. ev_uid e = u) (map he_elem (h_elems h))"

definition heap_scheduler :: "('h, 'h heap) sched_ops" where
  "heap_scheduler =
     \<lparr>op_insert = (\<lambda>e h. Some (heap_insert (ev_time e) e h)), op_cancel = (\<lambda>e h. Some (heap_cancel e h)),
      op_lookup = heap_lookup, op_deque = (\<lambda>h. Some (heap_extract_min h)), op_head = (\<lambda>h. Some (heap_min h, h))\<rparr>"

subsection \<open>The order of the heap\<close>

definition key_le :: "'h heap_elem \<Rightarrow> 'h heap_elem \<Rightarrow> bool" where
  "key_le a b \<longleftrightarrow> \<not> key_less b a"

lemma key_le_trans: "key_le a b \<Longrightarrow> key_le b c \<Longrightarrow> key_le a c"
  by (auto simp: key_le_def key_less_def)

lemma key_le_refl [simp]: "key_le a a"
  by (simp add: key_le_def key_less_def)

lemma key_le_less: "key_less a b \<Longrightarrow> key_le a b"
  by (auto simp: key_le_def key_less_def)

lemma parent_less: "0 < i \<Longrightarrow> parent i < i"
  by (simp add: parent_def)

lemma parent_iff: "0 < j \<Longrightarrow> parent j = i \<longleftrightarrow> j = i * 2 + 1 \<or> j = (i + 1) * 2"
  unfolding parent_def by presburger

definition heap_ok :: "'h heap_elem list \<Rightarrow> bool" where
  "heap_ok xs \<longleftrightarrow> (\<forall>j < length xs. 0 < j \<longrightarrow> key_le (xs ! parent j) (xs ! j))"

text \<open>A heap but for the element at \<open>i\<close>.\<close>

definition loose :: "nat \<Rightarrow> 'h heap_elem list \<Rightarrow> bool" where
  "loose i xs \<longleftrightarrow>
     (\<forall>j < length xs. 0 < j \<and> j \<noteq> i \<and> parent j \<noteq> i \<longrightarrow> key_le (xs ! parent j) (xs ! j)) \<and>
     (\<forall>j < length xs. 0 < j \<and> parent j = i \<and> 0 < i \<longrightarrow> key_le (xs ! parent i) (xs ! j))"

lemma heap_ok_root: "heap_ok xs \<Longrightarrow> i < length xs \<Longrightarrow> key_le (xs ! 0) (xs ! i)"
proof (induction i rule: less_induct)
  case (less i)
  show ?case
  proof (cases "i = 0")
    case False
    then have "parent i < i" by (simp add: parent_less)
    then have "key_le (xs ! 0) (xs ! parent i)" using less by simp
    moreover have "key_le (xs ! parent i) (xs ! i)" using less.prems False by (simp add: heap_ok_def)
    ultimately show ?thesis by (rule key_le_trans)
  qed simp
qed

lemma heap_ok_loose: "heap_ok xs \<Longrightarrow> i < length xs \<Longrightarrow> loose i xs"
  unfolding loose_def heap_ok_def by (metis key_le_trans order_less_trans parent_less)

lemma length_swap [simp]: "length (swap i j xs) = length xs"
  by (simp add: swap_def)

lemma mset_swap_eq [simp]: "i < length xs \<Longrightarrow> j < length xs \<Longrightarrow> mset (swap i j xs) = mset xs"
  by (simp add: swap_def mset_swap)

lemma nth_swap:
  "i < length xs \<Longrightarrow> j < length xs \<Longrightarrow> k < length xs \<Longrightarrow>
     swap i j xs ! k = (if k = j then xs ! i else if k = i then xs ! j else xs ! k)"
  by (simp add: swap_def nth_list_update)

text \<open>Moving an element up, as a swap with its parent.\<close>

lemma loose_swap:
  assumes i: "0 < i" "i < length xs" and loose: "loose i xs"
  shows "loose (parent i) (swap i (parent i) xs)"
proof -
  let ?p = "parent i" and ?ys = "swap i (parent i) xs"
  have p: "?p < i" "?p < length xs" using parent_less [OF i(1)] i(2) by simp_all
  note nth = nth_swap [OF i(2) p(2)]
  have a: "key_le (xs ! parent j) (xs ! j)" if "j < length xs" "0 < j" "j \<noteq> i" "parent j \<noteq> i" for j
    using loose that by (simp add: loose_def)
  have b: "key_le (xs ! ?p) (xs ! j)" if "j < length xs" "0 < j" "parent j = i" for j
    using loose that i(1) by (simp add: loose_def)
  have "key_le (?ys ! parent j) (?ys ! j)" if j: "j < length xs" "0 < j" "j \<noteq> ?p" "parent j \<noteq> ?p" for j
  proof -
    have "parent j < length xs" "j \<noteq> i" using parent_less [OF j(2)] j by auto
    then show ?thesis using a [of j] b [of j] j by (simp add: nth)
  qed
  moreover have "key_le (?ys ! parent ?p) (?ys ! j)" if j: "j < length xs" "0 < j" "parent j = ?p" "0 < ?p" for j
  proof -
    have q: "parent ?p < ?p" "parent ?p < length xs" "parent ?p \<noteq> i" using parent_less [OF j(4)] p by auto
    have top: "key_le (xs ! parent ?p) (xs ! ?p)" using a [of ?p] p j(4) q by auto
    have "j \<noteq> ?p" using parent_less [OF j(2)] j(3) by auto
    moreover have "key_le (xs ! parent ?p) (xs ! j)" if "j \<noteq> i"
      using a [of j] that j p(1) top key_le_trans by (metis nat_neq_iff)
    ultimately show ?thesis using top q j(1) by (auto simp: nth)
  qed
  ultimately show ?thesis by (simp add: loose_def)
qed

lemma heap_up_ok:
  assumes "i < length xs" "loose i (xs[i := x])"
    "\<forall>j < length xs. 0 < j \<and> parent j = i \<longrightarrow> key_le x (xs ! j)"
  shows "heap_ok (heap_up x i xs) \<and> mset (heap_up x i xs) = mset (xs[i := x])"
  using assms
proof (induction x i xs rule: heap_up.induct)
  case (1 x i xs)
  note loose = 1(3) and below = 1(4)
  show ?case
  proof (cases "0 < i \<and> key_less x (xs ! parent i)")
    case True
    let ?p = "parent i" and ?xs = "xs[i := xs ! parent i]"
    have p: "?p < i" "?p < length xs" using parent_less [of i] True 1(2) by auto
    have swap: "?xs[?p := x] = swap i ?p (xs[i := x])" using p 1(2) by (simp add: swap_def list_update_swap)
    have "loose ?p (?xs[?p := x])" unfolding swap using True 1(2) loose by (intro loose_swap) simp_all
    moreover have "key_le x (?xs ! j)" if j: "j < length xs" "0 < j" "parent j = ?p" for j
    proof (cases "j = i")
      case False
      have "parent j \<noteq> i" using p j(3) by simp
      then have "key_le (xs ! ?p) (xs ! j)" using loose j p False by (auto simp: loose_def nth_list_update)
      then show ?thesis using True key_le_less key_le_trans False by (metis nth_list_update_neq)
    qed (use True key_le_less 1(2) in auto)
    ultimately have "heap_ok (heap_up x ?p ?xs) \<and> mset (heap_up x ?p ?xs) = mset (?xs[?p := x])"
      using 1(1) [OF True] p by simp
    moreover have "mset (?xs[?p := x]) = mset (xs[i := x])" unfolding swap using p 1(2) by simp
    ultimately show ?thesis using True by (simp add: heap_up.simps [of x i xs])
  next
    case False
    have "key_le (xs[i := x] ! parent j) (xs[i := x] ! j)" if j: "j < length xs" "0 < j" for j
    proof (cases "j = i \<or> parent j = i")
      case True
      then show ?thesis
      proof
        assume "j = i"
        then show ?thesis using False j parent_less [OF j(2)] by (auto simp: key_le_def)
      next
        assume "parent j = i"
        then show ?thesis using below j parent_less [OF j(2)] 1(2) by auto
      qed
    qed (use loose j in \<open>auto simp: loose_def\<close>)
    moreover have "heap_up x i xs = xs[i := x]" by (subst heap_up.simps) (rule if_not_P [OF False])
    ultimately show ?thesis by (simp add: heap_ok_def)
  qed
qed

lemma min_child_cases:
  assumes "min_child i xs \<noteq> i"
  shows "0 < min_child i xs \<and> min_child i xs < length xs \<and> parent (min_child i xs) = i \<and> i < min_child i xs \<and>
    (\<forall>j < length xs. 0 < j \<and> parent j = i \<longrightarrow> key_le (xs ! min_child i xs) (xs ! j))"
proof -
  have child: "j = i * 2 + 1 \<or> j = (i + 1) * 2" if "0 < j" "parent j = i" for j using that parent_iff by blast
  have total: "key_le a b" if "\<not> key_less b a" for a b :: "'a heap_elem" using that by (simp add: key_le_def)
  consider "(i + 1) * 2 < length xs" "key_less (xs ! (i * 2 + 1)) (xs ! ((i + 1) * 2))" "min_child i xs = i * 2 + 1"
    | "(i + 1) * 2 < length xs" "\<not> key_less (xs ! (i * 2 + 1)) (xs ! ((i + 1) * 2))" "min_child i xs = (i + 1) * 2"
    | "\<not> (i + 1) * 2 < length xs" "i * 2 + 1 < length xs" "min_child i xs = i * 2 + 1"
    using assms by (auto simp: min_child_def Let_def split: if_splits)
  then show ?thesis
  proof cases
    case 1
    have "key_le (xs ! min_child i xs) (xs ! j)" if "0 < j" "parent j = i" for j
      using child [OF that] 1 key_le_less by (auto simp del: mult_Suc)
    then show ?thesis using 1 by (simp add: parent_def)
  next
    case 2
    have "key_le (xs ! min_child i xs) (xs ! j)" if "0 < j" "parent j = i" for j
      using child [OF that] 2 total by (auto simp del: mult_Suc)
    then show ?thesis using 2 by (simp add: parent_def)
  next
    case 3
    have "key_le (xs ! min_child i xs) (xs ! j)" if "0 < j" "parent j = i" "j < length xs" for j
      using child [OF that(1,2)] 3 that(3) by auto
    then show ?thesis using 3 by (simp add: parent_def)
  qed
qed

lemma min_child_none: "min_child i xs = i \<Longrightarrow> 0 < j \<Longrightarrow> parent j = i \<Longrightarrow> \<not> j < length xs"
  by (auto simp: min_child_def Let_def parent_iff split: if_splits)

lemma heap_down_ok:
  assumes "loose i xs" "0 < i \<and> i < length xs \<longrightarrow> key_le (xs ! parent i) (xs ! i)"
  shows "heap_ok (heap_down i xs) \<and> mset (heap_down i xs) = mset xs"
  using assms
proof (induction i xs rule: heap_down.induct)
  case (1 i xs)
  define x where "x = min_child i xs"
  note loose = 1(2) and above = 1(3)
  show ?case
  proof (cases "i < length xs \<and> x \<noteq> i \<and> key_less (xs ! x) (xs ! i)")
    case True
    have x: "0 < x" "x < length xs" "parent x = i" "i < x" "\<forall>j < length xs. 0 < j \<and> parent j = i \<longrightarrow> key_le (xs ! x) (xs ! j)"
      using min_child_cases [of i xs] True by (simp_all add: x_def)
    let ?ys = "swap i x xs"
    note nth = nth_swap [of i xs x]
    have a: "key_le (xs ! parent j) (xs ! j)" if "j < length xs" "0 < j" "j \<noteq> i" "parent j \<noteq> i" for j
      using loose that by (simp add: loose_def)
    have b: "key_le (xs ! parent i) (xs ! j)" if "j < length xs" "0 < j" "parent j = i" "0 < i" for j
      using loose that by (simp add: loose_def)
    have "key_le (?ys ! parent j) (?ys ! j)" if j: "j < length xs" "0 < j" "j \<noteq> x" "parent j \<noteq> x" for j
    proof -
      have "parent j < length xs" using parent_less [OF j(2)] j(1) by simp
      consider "j = i" | "parent j = i" "j \<noteq> i" | "parent j \<noteq> i" "j \<noteq> i" by blast
      then show ?thesis
      proof cases
        case 1
        then show ?thesis using b [of x] x j True parent_less [OF j(2)] by (simp add: nth)
      next
        case 2
        then show ?thesis using x j True by (simp add: nth)
      next
        case 3
        then show ?thesis using a [of j] j x True \<open>parent j < length xs\<close> by (simp add: nth)
      qed
    qed
    moreover have "key_le (?ys ! parent x) (?ys ! j)" if j: "j < length xs" "0 < j" "parent j = x" for j
    proof -
      have "j \<noteq> x" "j \<noteq> i" using parent_less [OF j(2)] j(3) x(4) by auto
      then have "key_le (xs ! x) (xs ! j)" using a [of j] j x by auto
      then show ?thesis using x j True \<open>j \<noteq> x\<close> \<open>j \<noteq> i\<close> by (simp add: nth)
    qed
    ultimately have "loose x ?ys" by (simp add: loose_def)
    moreover have "key_le (?ys ! parent x) (?ys ! x)" using x True key_le_less by (simp add: nth)
    ultimately have "heap_ok (heap_down x ?ys) \<and> mset (heap_down x ?ys) = mset ?ys"
      using 1(1) [OF x_def] True by (simp add: x_def)
    then show ?thesis using True x by (simp add: heap_down.simps [of i xs] x_def [symmetric])
  next
    case False
    have "key_le (xs ! parent j) (xs ! j)" if j: "j < length xs" "0 < j" for j
    proof (cases "parent j = i")
      case True
      then have "i < length xs" "x \<noteq> i" using parent_less [OF j(2)] j min_child_none [of i xs j] by (auto simp: x_def)
      then have "key_le (xs ! i) (xs ! x)" "key_le (xs ! x) (xs ! j)"
        using False min_child_cases [of i xs] j True by (auto simp: x_def key_le_def)
      then show ?thesis using True key_le_trans by blast
    next
      case off: False
      then show ?thesis using loose above j by (cases "j = i") (auto simp: loose_def)
    qed
    moreover have "heap_down i xs = xs"
      by (subst heap_down.simps) (simp only: Let_def x_def [symmetric] if_not_P [OF False])
    ultimately show ?thesis by (simp add: heap_ok_def)
  qed
qed

lemma to_root_ok:
  assumes "i < length xs" "loose i xs"
  shows "loose 0 (to_root i xs) \<and> mset (to_root i xs) = mset xs \<and> to_root i xs ! 0 = xs ! i"
  using assms
proof (induction i xs rule: to_root.induct)
  case (1 i xs)
  show ?case
  proof (cases "i = 0")
    case False
    then have p: "parent i < length xs" using parent_less [of i] 1(2) by simp
    then have "loose (parent i) (swap i (parent i) xs)" using loose_swap False 1(2,3) by blast
    then show ?thesis using 1(1) [OF False] p 1(2) False by (simp add: to_root.simps [of i xs] nth_swap)
  next
    case True
    then have "to_root i xs = xs" by (subst to_root.simps) simp
    then show ?thesis using 1(3) True by simp
  qed
qed

subsection \<open>The heap is a queue\<close>

text \<open>What is in the array, in any order: the events with their times, and second keys that grow with the numbers of the events.\<close>

definition stock :: "nat \<Rightarrow> u32 \<Rightarrow> 'h heap_elem list \<Rightarrow> 'h event list \<Rightarrow> bool" where
  "stock n k xs es \<longleftrightarrow>
     queue_ok es \<and> mset (map he_elem xs) = mset es \<and> unat k + n < 2 ^ 32 \<and>
     (\<forall>x \<in> set xs. he_key x = ev_time (he_elem x) \<and> he_s_key x < k) \<and>
     (\<forall>x \<in> set xs. \<forall>y \<in> set xs. ev_uid (he_elem x) < ev_uid (he_elem y) \<longrightarrow> he_s_key x < he_s_key y)"

definition heap_rep :: "nat \<Rightarrow> 'h heap \<Rightarrow> 'h event list \<Rightarrow> bool" where
  "heap_rep n h es \<longleftrightarrow> heap_ok (h_elems h) \<and> stock n (h_s_key h) (h_elems h) es"

lemma stock_mset: "mset xs = mset ys \<Longrightarrow> stock n k xs es \<longleftrightarrow> stock n k ys es"
  by (auto simp: stock_def dest: mset_eq_setD)

lemma stock_set: "stock n k xs es \<Longrightarrow> he_elem ` set xs = set es"
  unfolding stock_def by (metis image_set mset_eq_setD)

lemma stock_remove: "stock n k (x # xs) es \<Longrightarrow> stock n k xs (remove1 (he_elem x) es)"
  by (auto simp: stock_def queue_ok_remove1) (metis add_mset_remove_trivial)

lemma mset_list_insert: "mset (list_insert e es) = add_mset e (mset es)"
  by (induction es) auto

lemma stock_insert:
  assumes st: "stock (Suc n) k xs es" and e: "fresh e es"
  shows "stock n (k + 1) (\<lparr>he_key = ev_time e, he_s_key = k, he_elem = e\<rparr> # xs) (list_insert e es)"
proof -
  have "unat k + 1 < 2 ^ 32" using st by (simp add: stock_def)
  then have k: "unat (k + 1) = unat k + 1" by (simp add: unat_word_ariths)
  have "he_s_key x < k + 1" if "x \<in> set xs" for x
    using st that k by (auto simp: stock_def word_less_nat_alt)
  moreover have "k < k + 1" using k by (simp add: word_less_nat_alt)
  moreover have "ev_uid (he_elem x) < ev_uid e" if "x \<in> set xs" for x
    using stock_set [OF st] that e by (auto simp: fresh_def)
  ultimately show ?thesis
    using st k queue_ok_insert [OF _ e] by (fastforce simp: stock_def mset_list_insert)
qed

text \<open>The root of a heap is the first event.\<close>

lemma heap_first:
  assumes h: "heap_ok (x # xs)" and st: "stock n k (x # xs) es"
  shows "es = he_elem x # remove1 (he_elem x) es"
proof -
  obtain e es' where es: "es = e # es'" using st by (cases es) (auto simp: stock_def)
  have ok: "queue_ok es" using st by (simp add: stock_def)
  have "he_elem x \<in> set es" using stock_set [OF st] by auto
  moreover have False if "he_elem x \<in> set es'"
  proof -
    have b: "before e (he_elem x)" using that ok es by (simp add: queue_ok_Cons)
    obtain y where y: "y \<in> set (x # xs)" "he_elem y = e" using stock_set [OF st] es by (metis image_iff list.set_intros(1))
    then obtain i where "i < length (x # xs)" "(x # xs) ! i = y" by (metis in_set_conv_nth)
    then have "key_le x y" using heap_ok_root [OF h, of i] by simp
    then show False using b y st by (auto simp: stock_def key_le_def key_less_def before_def)
  qed
  ultimately show ?thesis using es by auto
qed

lemma loose_cut:
  assumes "loose 0 xs" "xs \<noteq> []"
  shows "loose 0 ((butlast xs)[0 := last xs])"
  unfolding loose_def
proof (intro conjI allI impI)
  fix j
  assume j: "j < length ((butlast xs)[0 := last xs])" "0 < j \<and> j \<noteq> 0 \<and> parent j \<noteq> 0"
  then have "key_le (xs ! parent j) (xs ! j)" using assms(1) by (simp add: loose_def)
  moreover have "parent j < length xs - 1" using parent_less [of j] j by simp
  ultimately show "key_le ((butlast xs)[0 := last xs] ! parent j) ((butlast xs)[0 := last xs] ! j)"
    using j by (simp add: nth_butlast)
qed simp

lemma mset_cut: "xs \<noteq> [] \<Longrightarrow> mset (hd xs # (butlast xs)[0 := last xs]) = mset xs"
proof (cases "butlast xs")
  case Nil
  assume "xs \<noteq> []"
  then show ?thesis using Nil by (metis append_butlast_last_id append_Nil list.sel(1) list_update.simps(1))
next
  case (Cons y ys)
  assume "xs \<noteq> []"
  then have "xs = y # ys @ [last xs]" using Cons by (metis append_butlast_last_id append_Cons)
  then show ?thesis using Cons by (metis add_mset_commute append_Cons list.sel(1) list_update_code(2) mset.simps(2) mset_append
        union_mset_add_mset_right mset_single_iff_right add_mset_add_single mset.simps(1))
qed

lemma heap_extract_ok:
  assumes "loose 0 (h_elems h)" "stock n (h_s_key h) (h_elems h) es" "h_elems h \<noteq> []"
  shows "fst (heap_extract_min h) = Some (he_elem (hd (h_elems h))) \<and>
    heap_rep n (snd (heap_extract_min h)) (remove1 (he_elem (hd (h_elems h))) es)"
proof -
  let ?ys = "(butlast (h_elems h))[0 := last (h_elems h)]"
  have "stock n (h_s_key h) (hd (h_elems h) # ?ys) es" using assms(2) stock_mset [OF mset_cut [OF assms(3)]] by blast
  then have "stock n (h_s_key h) ?ys (remove1 (he_elem (hd (h_elems h))) es)" by (rule stock_remove)
  moreover have "heap_ok (heap_down 0 ?ys) \<and> mset (heap_down 0 ?ys) = mset ?ys"
    by (rule heap_down_ok [OF loose_cut [OF assms(1,3)]]) simp
  ultimately have "heap_rep n (h\<lparr>h_elems := heap_down 0 ?ys\<rparr>) (remove1 (he_elem (hd (h_elems h))) es)"
    using stock_mset [of "heap_down 0 ?ys" ?ys] by (simp add: heap_rep_def)
  then show ?thesis using assms(3) by (cases "h_elems h") (simp_all add: heap_extract_min_def)
qed

lemma heap_insert_rep:
  assumes "heap_rep (Suc n) h es" "fresh e es"
  shows "heap_rep n (heap_insert (ev_time e) e h) (list_insert e es)"
proof -
  let ?x = "\<lparr>he_key = ev_time e, he_s_key = h_s_key h, he_elem = e\<rparr>" and ?xs = "h_elems h"
  have heap: "heap_ok ?xs" and st: "stock (Suc n) (h_s_key h) ?xs es" using assms(1) by (simp_all add: heap_rep_def)
  have order: "key_le (?xs ! parent j) (?xs ! j)" if "j < length ?xs" "0 < j" for j using heap that by (simp add: heap_ok_def)
  have none: "\<not> (j < length (?xs @ [?x]) \<and> 0 < j \<and> parent j = length ?xs)" for j using parent_less [of j] by auto
  have "loose (length ?xs) (?xs @ [?x])"
    unfolding loose_def
  proof (intro conjI allI impI)
    fix j
    assume "j < length (?xs @ [?x])" "0 < j \<and> j \<noteq> length ?xs \<and> parent j \<noteq> length ?xs"
    moreover from this have "parent j < length ?xs" using parent_less [of j] by auto
    ultimately show "key_le ((?xs @ [?x]) ! parent j) ((?xs @ [?x]) ! j)" using order [of j] by (simp add: nth_append)
  qed (use none in blast)
  then have "loose (length ?xs) ((?xs @ [?x])[length ?xs := ?x])" by simp
  with none have "heap_ok (heap_up ?x (length ?xs) (?xs @ [?x])) \<and> mset (heap_up ?x (length ?xs) (?xs @ [?x])) = mset (?x # ?xs)"
    using heap_up_ok [of "length ?xs" "?xs @ [?x]" ?x] by auto
  then show ?thesis
    using stock_insert [OF st assms(2)] stock_mset by (fastforce simp: heap_rep_def heap_insert_def Let_def)
qed

lemma heap_cancel_rep:
  assumes rep: "heap_rep n h es" and e: "e \<in> set es"
  shows "heap_rep n (heap_cancel e h) (remove1 e es)"
proof -
  let ?xs = "h_elems h"
  have heap: "heap_ok ?xs" and st: "stock n (h_s_key h) ?xs es" using rep by (simp_all add: heap_rep_def)
  have es: "queue_ok es" using st by (simp add: stock_def)
  obtain j where j: "j < length ?xs" "he_elem (?xs ! j) = e" using stock_set [OF st] e by (metis image_iff in_set_conv_nth)
  then obtain i where i: "heap_member e h = Some i"
    unfolding heap_member_def by (cases "find (\<lambda>i. ev_uid (he_elem (?xs ! i)) = ev_uid e) [0..<length ?xs]") (auto simp: find_None_iff)
  then have "i < length ?xs \<and> ev_uid (he_elem (?xs ! i)) = ev_uid e" by (auto simp: heap_member_def find_Some_iff)
  moreover from this have "he_elem (?xs ! i) \<in> set es" using stock_set [OF st] by (metis image_eqI nth_mem)
  ultimately have i': "i < length ?xs" "he_elem (?xs ! i) = e" using queue_ok_uid_inj [OF es _ e] by auto
  have root: "loose 0 (to_root i ?xs)" "mset (to_root i ?xs) = mset ?xs" "to_root i ?xs ! 0 = ?xs ! i"
    using to_root_ok [OF i'(1) heap_ok_loose [OF heap i'(1)]] by auto
  have ne: "to_root i ?xs \<noteq> []" using root(2) i'(1) by auto
  have "0 < ev_uid e" using es e by (simp add: queue_ok_def)
  moreover have "he_elem (hd (to_root i ?xs)) = e" using root(3) i'(2) ne by (simp add: hd_conv_nth)
  ultimately show ?thesis
    using heap_extract_ok [of "h\<lparr>h_elems := to_root i ?xs\<rparr>" n es] root ne st stock_mset [OF root(2)] i
    by (auto simp: heap_cancel_def heap_delete_def)
qed

lemma heap_deque_rep:
  assumes "heap_rep n h es"
  shows "fst (heap_extract_min h) = list_head es \<and> heap_rep n (snd (heap_extract_min h)) (tl es)"
proof (cases "h_elems h")
  case Nil
  then have "es = []" using assms by (simp add: heap_rep_def stock_def)
  then show ?thesis using assms Nil by (simp add: heap_extract_min_def list_head_def)
next
  case (Cons x xs)
  have heap: "heap_ok (h_elems h)" and st: "stock n (h_s_key h) (h_elems h) es" using assms by (simp_all add: heap_rep_def)
  have es: "es = he_elem x # remove1 (he_elem x) es" using heap_first [OF heap [unfolded Cons] st [unfolded Cons]] .
  have "loose 0 (h_elems h)" using heap_ok_loose [OF heap] Cons by simp
  from heap_extract_ok [OF this st] show ?thesis using Cons es by (metis list.distinct(1) list.sel(1,3) list_head_def list.simps(5))
qed

lemma heap_min_extract: "heap_min h = fst (heap_extract_min h)"
  by (simp add: heap_min_def heap_extract_min_def split: list.split)

interpretation heap_queue: event_queue heap_scheduler heap_rep
proof unfold_locales
  fix n u and h :: "'a heap" and es
  assume rep: "heap_rep n h es"
  then have st: "stock n (h_s_key h) (h_elems h) es" by (simp add: heap_rep_def)
  then show "queue_ok es" by (simp add: stock_def)
  then show "op_lookup heap_scheduler u h = list_lookup u es"
    using list_lookup_find [of es "map he_elem (h_elems h)" u] stock_set [OF st] by (simp add: heap_scheduler_def heap_lookup_def)
  show "\<exists>q'. op_deque heap_scheduler h = Some (list_head es, q') \<and> heap_rep n q' (tl es)"
    using heap_deque_rep [OF rep] by (cases "heap_extract_min h") (auto simp: heap_scheduler_def)
  show "\<exists>q'. op_head heap_scheduler h = Some (list_head es, q') \<and> heap_rep n q' es"
    using heap_deque_rep [OF rep] rep by (simp add: heap_scheduler_def heap_min_extract)
qed (auto simp: heap_scheduler_def heap_insert_rep heap_cancel_rep, auto simp: heap_rep_def stock_def)

lemma heap_rep_new: "n < 2 ^ 32 \<Longrightarrow> heap_rep n new_heap []"
  by (simp add: heap_rep_def heap_ok_def stock_def new_heap_def)

subsection \<open>Properties\<close>

text \<open>
  The heap is a queue. Over every sequence of fewer than \<open>2 ^ 32\<close> operations, in which events are inserted with growing numbers, as
  \<open>schedule\<close> gives them, every operation of the scheduler on a heap returns what the one on a sorted list returns: events leave in the order of
  their times, those of one time in the order in which they were inserted, and a cancelled one never.
\<close>

theorem heap_scheduler_correct:
  assumes "good_inserts xs" "length xs < 2 ^ 32"
  shows "\<exists>rs. queue_run heap_scheduler xs new_heap = Some rs \<and> queue_run list_scheduler xs [] = Some rs"
  using heap_queue.run_ok [of xs 0 new_heap "[]"] heap_rep_new [of "length xs"] assms by simp

theorem heap_scheduler_correct_witness:
  "queue_run heap_scheduler example_operations new_heap =
     Some [None, None, None, Some (example_event 2 1), None, Some (example_event 1 2)]"
  using heap_scheduler_correct [OF example_operations_good] example_operations_result
  by (simp add: example_operations_def)

text \<open>An event goes through an empty heap and moves the second key on.\<close>

lemma heap_pass:
  assumes "h_elems h = []"
  shows "h_elems (snd (heap_extract_min (heap_insert t e h))) = [] \<and>
    h_s_key (snd (heap_extract_min (heap_insert t e h))) = h_s_key h + 1"
  by (simp add: heap_insert_def assms heap_up.simps [of _ 0] heap_extract_min_def heap_down.simps [of 0 "[]"] Let_def)

lemma heap_pass_many:
  "h_elems (((\<lambda>h. snd (heap_extract_min (heap_insert t e h))) ^^ n) new_heap) = [] \<and>
   h_s_key (((\<lambda>h. snd (heap_extract_min (heap_insert t e h))) ^^ n) new_heap) = of_nat n"
proof (induction n)
  case (Suc n)
  then show ?case using heap_pass [of "((\<lambda>h. snd (heap_extract_min (heap_insert t e h))) ^^ n) new_heap" t e] by (simp add: add.commute)
qed (simp add: new_heap_def)

text \<open>
  The second key of the heap wraps. It is an \<open>unsigned int\<close>: after \<open>2 ^ 32 - 1\<close> events have gone through the queue, of two events of one
  time the one scheduled last leaves first.
\<close>

theorem heap_key_wraps:
  assumes "ev_time e2 = ev_time e1" "h = ((\<lambda>h. snd (heap_extract_min (heap_insert t e h))) ^^ (2 ^ 32 - 1)) new_heap"
  shows "fst (heap_extract_min (heap_insert (ev_time e2) e2 (heap_insert (ev_time e1) e1 h))) = Some e2"
proof -
  have "of_nat (2 ^ 32 - 1) = (- 1 :: u32)" by simp
  then have h: "h_elems h = []" "h_s_key h = - 1" using heap_pass_many [where t = t and e = e and n = "2 ^ 32 - 1"] assms(2) by (simp_all only:)
  define h1 where "h1 = heap_insert (ev_time e1) e1 h"
  have "h_elems h1 = [\<lparr>he_key = ev_time e1, he_s_key = - 1, he_elem = e1\<rparr>]" "h_s_key h1 = 0"
    by (simp_all add: h1_def heap_insert_def h heap_up.simps [of _ 0] Let_def)
  moreover have wraps: "(0 :: u32) < - 1" by (simp add: word_greater_zero_iff)
  ultimately have "hd (h_elems (heap_insert (ev_time e2) e2 h1)) = \<lparr>he_key = ev_time e1, he_s_key = 0, he_elem = e2\<rparr>"
    "h_elems (heap_insert (ev_time e2) e2 h1) \<noteq> []"
    by (simp_all add: heap_insert_def heap_up.simps [of _ "Suc 0"] heap_up.simps [of _ 0] parent_def key_less_def assms(1) Let_def wraps)
  then show ?thesis
    by (cases "h_elems (heap_insert (ev_time e2) e2 h1)") (simp_all add: heap_extract_min_def h1_def [symmetric])
qed

theorem heap_key_wraps_witness:
  "fst (heap_extract_min (heap_insert 1 (example_event 2 1) (heap_insert 1 (example_event 1 1)
     (((\<lambda>h. snd (heap_extract_min (heap_insert 0 (example_event 0 0) h))) ^^ (2 ^ 32 - 1)) new_heap)))) = Some (example_event 2 1)"
  using heap_key_wraps [where t = 0 and e = "example_event 0 0", OF _ refl, of "example_event 2 1" "example_event 1 1"] by (simp del: funpow.simps)

end
