(* ===== verification/Splay_Queue.thy ===== *)
theory Splay_Queue
  imports Event_Queue "HOL-Library.Tree"
begin

section \<open>The scheduler on a splay tree (\<open>common/splay-scheduler.cc\<close>)\<close>

text \<open>
  A binary search tree by the times of the events, whose left and right subtrees are \<open>prev_\<close> and \<open>next_\<close> of an event. An insertion
  splits the tree on its way down and makes the new event the root; the removal of the first event rotates the left spine.
\<close>

subsection \<open>Operations\<close>

record 'h splay =
  tree_root :: "'h event tree"
  qsize :: int

definition new_splay :: "'h splay" where
  "new_splay = \<lparr>tree_root = Leaf, qsize = 0\<rparr>"

text \<open>The loop of \<open>insert\<close>. The code hangs the nodes it passes below the last node of the left tree \<open>l\<close> or of the right tree \<open>r\<close>; the
  pair is what hangs there in the end.\<close>

fun splay_split :: "real \<Rightarrow> 'h event tree \<Rightarrow> 'h event tree \<times> 'h event tree" where
  "splay_split time Leaf = (Leaf, Leaf)"
| "splay_split time (Node lt t rt) =
     (if time < ev_time t
      then case lt of
             Leaf \<Rightarrow> (Leaf, Node lt t rt)
           | Node xl x xr \<Rightarrow>
               if time < ev_time x
               then let (l, r) = splay_split time xl in (l, Node r x (Node xr t rt))
               else let (l, r) = splay_split time lt in (l, Node r t rt)
      else case rt of
             Leaf \<Rightarrow> (Node lt t rt, Leaf)
           | Node xl x xr \<Rightarrow>
               if ev_time x \<le> time
               then let (l, r) = splay_split time xr in (Node (Node lt t xl) x l, r)
               else let (l, r) = splay_split time rt in (Node lt t l, r))"

definition splay_insert :: "'h event \<Rightarrow> 'h splay \<Rightarrow> 'h splay" where
  "splay_insert n s =
     (case tree_root s of
        Leaf \<Rightarrow> \<lparr>tree_root = Node Leaf n Leaf, qsize = qsize s + 1\<rparr>
      | _ \<Rightarrow> let (l, r) = splay_split (ev_time n) (tree_root s) in \<lparr>tree_root = Node l n r, qsize = qsize s + 1\<rparr>)"

fun leftmost :: "'h event tree \<Rightarrow> 'h event option" where
  "leftmost Leaf = None"
| "leftmost (Node Leaf t r) = Some t"
| "leftmost (Node l t r) = leftmost l"

text \<open>The loop of \<open>deque\<close>, on the left subtree \<open>Node ll l lr\<close> of the node \<open>t\<close>: the first event, and what becomes the left subtree.\<close>

fun zig_zig :: "'h event tree \<Rightarrow> 'h event \<Rightarrow> 'h event tree \<Rightarrow> 'h event \<times> 'h event tree" where
  "zig_zig Leaf l lr = (l, lr)"
| "zig_zig (Node Leaf ll llr) l lr = (ll, Node llr l lr)"
| "zig_zig (Node (Node a b c) ll llr) l lr = (let (m, x) = zig_zig a b c in (m, Node x ll (Node llr l lr)))"

definition splay_deque :: "'h splay \<Rightarrow> 'h event option \<times> 'h splay" where
  "splay_deque s =
     (case tree_root s of
        Leaf \<Rightarrow> (None, s)
      | Node Leaf t r \<Rightarrow> (Some t, \<lparr>tree_root = r, qsize = qsize s - 1\<rparr>)
      | Node (Node ll l lr) t r \<Rightarrow>
          let (m, x) = zig_zig ll l lr in (Some m, \<lparr>tree_root = Node x t r, qsize = qsize s - 1\<rparr>))"

text \<open>The node of a cancelled event is replaced by its successor.\<close>

fun pop_left :: "'h event tree \<Rightarrow> 'h event \<Rightarrow> 'h event tree \<Rightarrow> 'h event \<times> 'h event tree" where
  "pop_left Leaf q r = (q, r)"
| "pop_left (Node a b c) p r = (let (q, l) = pop_left a b c in (q, Node l p r))"

definition splice :: "'h event tree \<Rightarrow> 'h event tree \<Rightarrow> 'h event tree" where
  "splice l r =
     (case (l, r) of
        (_, Leaf) \<Rightarrow> l
      | (Leaf, _) \<Rightarrow> r
      | (_, Node a p c) \<Rightarrow> let (q, r) = pop_left a p c in Node l q r)"

fun splay_unlink :: "'h event \<Rightarrow> 'h event tree \<Rightarrow> 'h event tree option" where
  "splay_unlink e Leaf = None"
| "splay_unlink e (Node l t r) =
     (if ev_uid t = ev_uid e then Some (splice l r)
      else if ev_time t < ev_time e \<or> ev_time e = ev_time t \<and> ev_uid t < ev_uid e
      then map_option (Node l t) (splay_unlink e r)
      else map_option (\<lambda>l. Node l t r) (splay_unlink e l))"

definition splay_cancel :: "'h event \<Rightarrow> 'h splay \<Rightarrow> 'h splay option" where
  "splay_cancel e s =
     (if ev_uid e \<le> 0 then Some s
      else map_option (\<lambda>t. \<lparr>tree_root = t, qsize = qsize s - 1\<rparr>) (splay_unlink e (tree_root s)))"

fun uid_lookup :: "int \<Rightarrow> 'h event tree \<Rightarrow> 'h event option" where
  "uid_lookup u Leaf = None"
| "uid_lookup u (Node l t r) =
     (if ev_uid t = u then Some t
      else case uid_lookup u l of None \<Rightarrow> uid_lookup u r | Some e \<Rightarrow> Some e)"

definition splay_scheduler :: "('h, 'h splay) sched_ops" where
  "splay_scheduler =
     \<lparr>op_insert = (\<lambda>e s. Some (splay_insert e s)), op_cancel = splay_cancel, op_lookup = (\<lambda>u s. uid_lookup u (tree_root s)),
      op_deque = (\<lambda>s. Some (splay_deque s)), op_head = (\<lambda>s. Some (leftmost (tree_root s), s))\<rparr>"

subsection \<open>The events in order\<close>

definition by_time :: "'h event list \<Rightarrow> bool" where
  "by_time es \<longleftrightarrow> sorted_wrt (\<lambda>p q. ev_time p \<le> ev_time q) es"

lemma queue_ok_by_time: "queue_ok es \<Longrightarrow> by_time es"
  unfolding queue_ok_def by_time_def by (rule sorted_wrt_mono_rel [of _ before]) (auto dest: before_time)

lemma by_time_append:
  "by_time (xs @ ys) \<longleftrightarrow> by_time xs \<and> by_time ys \<and> (\<forall>p \<in> set xs. \<forall>q \<in> set ys. ev_time p \<le> ev_time q)"
  by (simp add: by_time_def sorted_wrt_append)

lemma by_time_Cons: "by_time (x # xs) \<longleftrightarrow> (\<forall>p \<in> set xs. ev_time x \<le> ev_time p) \<and> by_time xs"
  by (simp add: by_time_def)

lemmas by_time_simps = by_time_append by_time_Cons

text \<open>The split keeps the order and cuts behind the last event that is not later.\<close>

lemma splay_split_ok:
  "splay_split time t = (l, r) \<Longrightarrow> by_time (inorder t) \<Longrightarrow>
     inorder t = inorder l @ inorder r \<and>
     (\<forall>p \<in> set_tree l. ev_time p \<le> time) \<and> (\<forall>p \<in> set_tree r. time < ev_time p)"
proof (induction time t arbitrary: l r rule: splay_split.induct)
  case (2 time lt t rt)
  have times: "\<forall>p \<in> set_tree lt. ev_time p \<le> ev_time t" "\<forall>p \<in> set_tree rt. ev_time t \<le> ev_time p" "by_time (inorder lt)" "by_time (inorder rt)"
    using 2(6) by (auto simp: by_time_simps)
  show ?case
  proof (cases "time < ev_time t")
    case early: True
    show ?thesis
    proof (cases lt)
      case Leaf
      then show ?thesis using 2(5) early times(2) by force
    next
      case (Node xl x xr)
      have x: "by_time (inorder xl)" "\<forall>p \<in> set_tree xr. ev_time x \<le> ev_time p" using times(3) Node by (auto simp: by_time_simps)
      show ?thesis
      proof (cases "time < ev_time x")
        case True
        have above: "\<forall>p \<in> set_tree xr \<union> set_tree rt. time < ev_time p" using True early x(2) times(2) by fastforce
        obtain l1 r1 where s: "splay_split time xl = (l1, r1)" by fastforce
        then show ?thesis
          using 2(1) [OF early Node True s x(1)] 2(5) early True above Node by (auto split: if_splits)
      next
        case False
        have above: "\<forall>p \<in> set_tree rt. time < ev_time p" using early times(2) by fastforce
        obtain l1 r1 where s: "splay_split time lt = (l1, r1)" by fastforce
        then show ?thesis
          using 2(2) [OF early Node False s times(3)] 2(5) early False above Node by (auto split: if_splits)
      qed
    qed
  next
    case late: False
    show ?thesis
    proof (cases rt)
      case Leaf
      then show ?thesis using 2(5) late times(1) by force
    next
      case (Node xl x xr)
      have x: "by_time (inorder xr)" "\<forall>p \<in> set_tree xl. ev_time p \<le> ev_time x" using times(4) Node by (auto simp: by_time_simps)
      show ?thesis
      proof (cases "ev_time x \<le> time")
        case True
        have below: "\<forall>p \<in> set_tree xl \<union> set_tree lt. ev_time p \<le> time" using True late x(2) times(1) by fastforce
        obtain l1 r1 where s: "splay_split time xr = (l1, r1)" by fastforce
        then show ?thesis
          using 2(3) [OF late Node True s x(1)] 2(5) late True below Node by (auto split: if_splits)
      next
        case False
        have below: "\<forall>p \<in> set_tree lt. ev_time p \<le> time" using late times(1) by fastforce
        obtain l1 r1 where s: "splay_split time rt = (l1, r1)" by fastforce
        then show ?thesis
          using 2(4) [OF late Node False s times(4)] 2(5) late False below Node by (auto split: if_splits)
      qed
    qed
  qed
qed simp

lemma leftmost_inorder: "leftmost t = list_head (inorder t)"
proof (induction t rule: leftmost.induct)
  case (3 v va vb t r)
  have "inorder (Node v va vb) \<noteq> []" by simp
  then show ?case using 3 by (cases "inorder (Node v va vb)") (auto simp: list_head_def)
qed (simp_all add: list_head_def)

lemma zig_zig_inorder: "zig_zig ll l lr = (m, x) \<Longrightarrow> inorder ll @ l # inorder lr = m # inorder x"
  by (induction ll l lr arbitrary: m x rule: zig_zig.induct) (auto split: prod.splits)

lemma pop_left_inorder: "pop_left a b c = (m, x) \<Longrightarrow> inorder a @ b # inorder c = m # inorder x"
  by (induction a b c arbitrary: m x rule: pop_left.induct) (auto split: prod.splits)

lemma splice_inorder: "inorder (splice l r) = inorder l @ inorder r"
  by (auto simp: splice_def dest: pop_left_inorder split: tree.splits prod.splits)

lemma splay_unlink_ok:
  "sorted_wrt before (inorder t) \<Longrightarrow> distinct (map ev_uid (inorder t)) \<Longrightarrow> e \<in> set_tree t \<Longrightarrow>
     \<exists>t'. splay_unlink e t = Some t' \<and> inorder t' = remove1 e (inorder t)"
proof (induction t)
  case (Node l t r)
  have order: "\<forall>p \<in> set_tree l. before p t" "\<forall>p \<in> set_tree r. before t p" "\<forall>p \<in> set_tree l. \<forall>q \<in> set_tree r. before p q"
    using Node.prems(1) by (auto simp: sorted_wrt_append)
  have sub: "sorted_wrt before (inorder l)" "sorted_wrt before (inorder r)" "distinct (map ev_uid (inorder l))" "distinct (map ev_uid (inorder r))"
    using Node.prems by (auto simp: sorted_wrt_append)
  show ?case
  proof (cases "ev_uid t = ev_uid e")
    case True
    then have "e = t" using Node.prems(2,3) by (auto simp: image_iff)
    moreover from this have "e \<notin> set_tree l" using order(1) before_irrefl by blast
    ultimately show ?thesis by (simp add: splice_inorder remove1_append)
  next
    case False
    then have "t \<noteq> e" by auto
    show ?thesis
    proof (cases "before t e")
      case True
      then have "e \<notin> set_tree l" using order(1) before_antisym by blast
      moreover from this have "e \<in> set_tree r" using Node.prems(3) \<open>t \<noteq> e\<close> by auto
      ultimately show ?thesis
        using Node.IH(2) [OF sub(2,4)] True False \<open>t \<noteq> e\<close> by (auto simp: before_def remove1_append)
    next
      case early: False
      then have "e \<in> set_tree l" using Node.prems(3) \<open>t \<noteq> e\<close> order(2) by auto
      moreover have "\<not> (ev_time t < ev_time e \<or> ev_time e = ev_time t \<and> ev_uid t < ev_uid e)" using early by (auto simp: before_def)
      ultimately show ?thesis using Node.IH(1) [OF sub(1,3)] False by (auto simp: remove1_append)
    qed
  qed
qed simp

lemma uid_lookup_ok:
  "uid_lookup u t = (case find (\<lambda>e. ev_uid e = u) (preorder t) of None \<Rightarrow> None | Some e \<Rightarrow> Some e)"
proof (induction t)
  case (Node l t r)
  have "find P (xs @ ys) = (case find P xs of None \<Rightarrow> find P ys | Some x \<Rightarrow> Some x)" for P and xs ys :: "'a event list"
    by (induction xs) auto
  then show ?case using Node by (auto split: option.splits)
qed simp

subsection \<open>The tree is a queue\<close>

definition splay_rep :: "nat \<Rightarrow> 'h splay \<Rightarrow> 'h event list \<Rightarrow> bool" where
  "splay_rep n s es \<longleftrightarrow> inorder (tree_root s) = es \<and> queue_ok es \<and> qsize s = int (length es)"

lemma splay_insert_rep:
  assumes "splay_rep (Suc n) s es" "fresh e es"
  shows "splay_rep n (splay_insert e s) (list_insert e es)"
proof -
  obtain l r where s: "splay_split (ev_time e) (tree_root s) = (l, r)" by fastforce
  have es: "inorder (tree_root s) = es" "queue_ok es" "qsize s = int (length es)" using assms(1) by (simp_all add: splay_rep_def)
  have split: "es = inorder l @ inorder r" "\<forall>p \<in> set_tree l. ev_time p \<le> ev_time e" "\<forall>p \<in> set_tree r. ev_time e < ev_time p"
    using splay_split_ok [OF s] queue_ok_by_time [OF es(2)] es(1) by auto
  then have "list_insert e es = inorder l @ e # inorder r" by (simp add: list_insert_split)
  moreover have "splay_insert e s = \<lparr>tree_root = Node l e r, qsize = qsize s + 1\<rparr>"
    using s by (cases "tree_root s") (simp_all add: splay_insert_def)
  ultimately show ?thesis using queue_ok_insert [OF es(2) assms(2)] es(3) split(1) by (simp add: splay_rep_def)
qed

lemma splay_deque_rep:
  assumes "splay_rep n s es"
  shows "fst (splay_deque s) = list_head es \<and> splay_rep n (snd (splay_deque s)) (tl es)"
proof -
  have es: "inorder (tree_root s) = es" "queue_ok es" "qsize s = int (length es)" using assms by (simp_all add: splay_rep_def)
  have "fst (splay_deque s) = list_head es \<and> inorder (tree_root (snd (splay_deque s))) = tl es \<and>
    qsize (snd (splay_deque s)) = int (length (tl es))"
  proof (cases "tree_root s")
    case Leaf
    then show ?thesis using es by (auto simp: splay_deque_def list_head_def)
  next
    case (Node l t r)
    show ?thesis
    proof (cases l)
      case Leaf
      then show ?thesis using es Node by (auto simp: splay_deque_def list_head_def)
    next
      case left: (Node a b c)
      obtain m x where m: "zig_zig a b c = (m, x)" by fastforce
      then have "es = m # inorder x @ t # inorder r" using es(1) Node left zig_zig_inorder [OF m] by simp
      moreover have "splay_deque s = (Some m, \<lparr>tree_root = Node x t r, qsize = qsize s - 1\<rparr>)"
        using Node left m by (simp add: splay_deque_def)
      ultimately show ?thesis using es(3) by (simp add: list_head_def)
    qed
  qed
  then show ?thesis using queue_ok_tl [OF es(2)] by (simp add: splay_rep_def)
qed

lemma splay_cancel_rep:
  assumes "splay_rep n s es" "e \<in> set es"
  shows "\<exists>s'. splay_cancel e s = Some s' \<and> splay_rep n s' (remove1 e es)"
proof -
  have es: "inorder (tree_root s) = es" "queue_ok es" "qsize s = int (length es)" using assms(1) by (simp_all add: splay_rep_def)
  then obtain t where "splay_unlink e (tree_root s) = Some t" "inorder t = remove1 e es"
    using splay_unlink_ok [of "tree_root s" e] assms(2) by (auto simp: queue_ok_def simp flip: set_inorder)
  moreover have "0 < ev_uid e" using es(2) assms(2) by (simp add: queue_ok_def)
  moreover have "0 < length es" using assms(2) by auto
  ultimately show ?thesis
    using queue_ok_remove1 [OF es(2)] es(3) assms(2) by (simp add: splay_cancel_def splay_rep_def length_remove1 of_nat_diff Suc_leI)
qed

interpretation splay_queue: event_queue splay_scheduler splay_rep
proof unfold_locales
  fix n u and s :: "'a splay" and es
  assume rep: "splay_rep n s es"
  then show "queue_ok es" by (simp add: splay_rep_def)
  then show "op_lookup splay_scheduler u s = list_lookup u es"
    using list_lookup_find [of es "preorder (tree_root s)" u] rep
    by (auto simp: splay_scheduler_def splay_rep_def uid_lookup_ok split: option.split)
  show "\<exists>q'. op_deque splay_scheduler s = Some (list_head es, q') \<and> splay_rep n q' (tl es)"
    using splay_deque_rep [OF rep] by (cases "splay_deque s") (auto simp: splay_scheduler_def)
  show "\<exists>q'. op_head splay_scheduler s = Some (list_head es, q') \<and> splay_rep n q' es"
    using rep by (simp add: splay_scheduler_def leftmost_inorder splay_rep_def)
qed (auto simp: splay_scheduler_def splay_insert_rep splay_cancel_rep, auto simp: splay_rep_def)

lemma splay_rep_new: "splay_rep n new_splay []"
  by (simp add: splay_rep_def new_splay_def)

subsection \<open>Properties\<close>

text \<open>
  C7. The splay tree is a queue. Over every sequence of operations in which events are inserted with growing numbers, every operation of the
  scheduler on a splay tree returns what the one on a sorted list returns; the search of \<open>cancel\<close> always finds its event.
\<close>

theorem splay_scheduler_correct:
  assumes "good_inserts xs"
  shows "\<exists>rs. queue_run splay_scheduler xs new_splay = Some rs \<and> queue_run list_scheduler xs [] = Some rs"
  using splay_queue.run_ok [of xs 0 new_splay "[]"] splay_rep_new [of "length xs"] assms by simp

theorem splay_scheduler_correct_witness:
  "queue_run splay_scheduler example_operations new_splay =
     Some [None, None, None, Some (example_event 2 1), None, Some (example_event 1 2)]"
  using splay_scheduler_correct [OF example_operations_good] example_operations_result by simp

end
