(* ===== verification/Calendar_Queue.thy ===== *)
theory Calendar_Queue
  imports Event_Queue Real_Arith "HOL-Library.Multiset"
begin

section \<open>The calendar queue (\<open>common/scheduler.cc\<close>)\<close>

text \<open>
  The default scheduler. Events are hashed into buckets by their times, as days of a year of \<open>nbuckets_\<close> days; the search for the next
  event starts at the bucket of the last one. The number of buckets follows the number of distinct times in the queue, and the width
  of a day is adapted to the gaps between events. A bucket is a ring of events through \<open>next_\<close> and \<open>prev_\<close>: here it is the list that starts at
  \<open>list_\<close>, so that the \<open>prev_\<close> of its head is its last element.
\<close>

subsection \<open>State\<close>

record 'h bucket =
  b_list :: "'h event list"
  b_count :: int

record 'h calendar =
  buckets :: "'h bucket list"
  min_bin_width :: real
  adjust_new_width_interval :: nat
  time_to_newwidth :: nat
  head_search :: nat
  insert_search :: nat
  round_num :: int
  gap_num :: int
  last_time :: real
  avg_gap :: real
  width :: real
  diff0 :: real
  diff1 :: real
  diff2 :: real
  stat_qsize :: int
  nbuckets :: nat
  lastbucket :: nat
  top_threshold :: int
  bot_threshold :: int
  cal_qsize :: int
  cal_clock :: real

definition CALENDAR_HASH :: "'h calendar \<Rightarrow> real \<Rightarrow> int" where
  "CALENDAR_HASH c t = trunc_int (fmod (t / width c) (real (nbuckets c)))"

text \<open>An access to the array of buckets.\<close>

definition bucket_at :: "'h calendar \<Rightarrow> int \<Rightarrow> 'h bucket option" where
  "bucket_at c i = (if 0 \<le> i \<and> i < int (length (buckets c)) then Some (buckets c ! nat i) else None)"

subsection \<open>Buckets\<close>

text \<open>The new bucket, whether the time is new in it, and the steps of the search from the end.\<close>

definition bucket_insert :: "'h event \<Rightarrow> 'h bucket \<Rightarrow> 'h bucket \<times> bool \<times> nat" where
  "bucket_insert e b =
     (case b_list b of
        [] \<Rightarrow> (\<lparr>b_list = [e], b_count = b_count b + 1\<rparr>, True, 0)
      | h # _ \<Rightarrow>
          if ev_time e < ev_time h then (\<lparr>b_list = e # b_list b, b_count = b_count b + 1\<rparr>, True, 1)
          else let later = takeWhile (\<lambda>p. ev_time e < ev_time p) (rev (b_list b));
                   earlier = take (length (b_list b) - length later) (b_list b);
                   unique = ev_time (last earlier) < ev_time e
               in (\<lparr>b_list = earlier @ e # rev later, b_count = b_count b + (if unique then 1 else 0)\<rparr>, unique, 1 + length later))"

text \<open>\<open>insert2\<close> puts an event before those of its time.\<close>

definition bucket_insert2 :: "'h event \<Rightarrow> 'h bucket \<Rightarrow> 'h bucket \<times> bool" where
  "bucket_insert2 e b =
     (case b_list b of
        [] \<Rightarrow> (\<lparr>b_list = [e], b_count = b_count b + 1\<rparr>, True)
      | h # _ \<Rightarrow>
          let (earlier, rest) =
                (if ev_time (last (b_list b)) < ev_time e then (b_list b, [])
                 else (takeWhile (\<lambda>p. ev_time p < ev_time e) (b_list b), dropWhile (\<lambda>p. ev_time p < ev_time e) (b_list b)));
              unique = ev_time (hd (rest @ earlier)) \<noteq> ev_time e
          in (\<lparr>b_list = earlier @ e # rest, b_count = b_count b + (if unique then 1 else 0)\<rparr>, unique))"

text \<open>The ring around an event: what is before it and behind it, from the head of the bucket.\<close>

definition ring_at :: "'h event \<Rightarrow> 'h bucket \<Rightarrow> ('h event list \<times> 'h event list) option" where
  "ring_at e b =
     (case dropWhile (\<lambda>p. ev_uid p \<noteq> ev_uid e) (b_list b) of
        [] \<Rightarrow> None
      | _ # behind \<Rightarrow> Some (takeWhile (\<lambda>p. ev_uid p \<noteq> ev_uid e) (b_list b), behind))"

text \<open>\<open>deque\<close> makes the event behind the removed one the head, and looks only at that one for its time; \<open>cancel\<close> keeps the head, and looks at
  both neighbours.\<close>

definition bucket_deque :: "'h event \<Rightarrow> 'h bucket \<Rightarrow> ('h bucket \<times> bool) option" where
  "bucket_deque e b = do {
     (front, behind) \<leftarrow> ring_at e b;
     let ring = behind @ front;
     let unique = (ring = [] \<or> ev_time (hd ring) \<noteq> ev_time e);
     Some (\<lparr>b_list = ring, b_count = b_count b - (if unique then 1 else 0)\<rparr>, unique)
   }"

definition bucket_cancel :: "'h event \<Rightarrow> 'h bucket \<Rightarrow> ('h bucket \<times> bool) option" where
  "bucket_cancel e b = do {
     (front, behind) \<leftarrow> ring_at e b;
     let ring = behind @ front;
     let unique = (ring = [] \<or> ev_time (hd ring) \<noteq> ev_time e \<and> ev_time (last ring) \<noteq> ev_time e);
     let b = \<lparr>b_list = front @ behind, b_count = b_count b - (if unique then 1 else 0)\<rparr>;
     if b_count b < 0 \<or> b_count b = 0 \<and> b_list b \<noteq> [] then None else Some (b, unique)
   }"

subsection \<open>The size of the calendar\<close>

definition reinit :: "nat \<Rightarrow> real \<Rightarrow> real \<Rightarrow> 'h calendar \<Rightarrow> 'h calendar" where
  "reinit nbuck bwidth start c =
     (let c = c\<lparr>buckets := replicate nbuck \<lparr>b_list = [], b_count = 0\<rparr>, width := bwidth, nbuckets := nbuck, cal_qsize := 0, stat_qsize := 0\<rparr>
      in c\<lparr>lastbucket := nat (CALENDAR_HASH c start), diff0 := bwidth * real nbuck / 2, diff1 := bwidth * real nbuck / 2 + bwidth,
           diff2 := bwidth * real nbuck, bot_threshold := int (nbuck div 2) - 2, top_threshold := int (2 * nbuck)\<rparr>)"

definition insert2 :: "'h event \<Rightarrow> 'h calendar \<Rightarrow> 'h calendar option" where
  "insert2 e c = do {
     let i = CALENDAR_HASH c (ev_time e);
     b \<leftarrow> bucket_at c i;
     let (b, unique) = bucket_insert2 e b;
     Some (c\<lparr>buckets := (buckets c)[nat i := b], stat_qsize := stat_qsize c + (if unique then 1 else 0), cal_qsize := cal_qsize c + 1\<rparr>)
   }"

fun insert2_all :: "'h event list \<Rightarrow> 'h calendar \<Rightarrow> 'h calendar option" where
  "insert2_all [] c = Some c"
| "insert2_all (e # es) c = do { c \<leftarrow> insert2 e c; insert2_all es c }"

text \<open>The fullest bucket.\<close>

definition max_bucket :: "'h calendar \<Rightarrow> nat" where
  "max_bucket c =
     fold (\<lambda>i m. if b_count (buckets c ! m) < b_count (buckets c ! i) then i else m) [1..<nbuckets c] 0"

definition newwidth :: "nat \<Rightarrow> 'h calendar \<Rightarrow> (real \<times> 'h calendar) option" where
  "newwidth newsize c =
     (let c = (if adjust_new_width_interval c \<noteq> 0 then c\<lparr>time_to_newwidth := adjust_new_width_interval c\<rparr> else c)
      in if adjust_new_width_interval c \<noteq> 0 \<and> 0 < avg_gap c then Some (avg_gap c * 4, c)
         else do {
           b \<leftarrow> bucket_at c (int (max_bucket c));
           let nsamples = b_count b;
           if nsamples \<le> 4 then Some (width c, c)
           else if b_list b = [] then None
           else let nw = ev_time (last (b_list b)) - ev_time (hd (b_list b))
                in if 0 < nw then Some (nw / of_int (if int newsize < nsamples then int newsize else nsamples) * 4, c) else None
         })"

text \<open>The second half of \<open>resize\<close>: every bucket is emptied from its end.\<close>

definition rebuild :: "nat \<Rightarrow> real \<Rightarrow> real \<Rightarrow> 'h calendar \<Rightarrow> 'h calendar option" where
  "rebuild newsize bwidth start c = do {
     c \<leftarrow> insert2_all (concat (map (\<lambda>b. rev (b_list b)) (buckets c))) (reinit newsize bwidth start c);
     Some (c\<lparr>head_search := 0, insert_search := 0, round_num := 0\<rparr>)
   }"

definition resize :: "nat \<Rightarrow> real \<Rightarrow> 'h calendar \<Rightarrow> 'h calendar option" where
  "resize newsize start c =
     (if newsize = nbuckets c
      then let r = (if head_search c \<noteq> 0 then real (head_search c) else 1);
               r = (if insert_search c \<noteq> 0 then r / real (insert_search c) else r);
               bwidth = sqrt r * width c
           in if bwidth < min_bin_width c
              then if 0 < time_to_newwidth c
                   then Some (c\<lparr>time_to_newwidth := time_to_newwidth c - 1, head_search := 0, insert_search := 0, round_num := 0\<rparr>)
                   else do { (bwidth, c) \<leftarrow> newwidth newsize c; rebuild newsize bwidth start c }
              else rebuild newsize bwidth start c
      else do {
        (bwidth, c) \<leftarrow> newwidth newsize c;
        rebuild (if newsize < 4 then 4 else newsize) bwidth start c
      })"

text \<open>The constructor. With no adjustment the code leaves some of the fields as they are.\<close>

definition new_calendar :: "'h calendar \<Rightarrow> 'h calendar" where
  "new_calendar raw =
     (let c = raw\<lparr>cal_clock := 0\<rparr>;
          c = (if adjust_new_width_interval c \<noteq> 0
               then c\<lparr>avg_gap := - 2, last_time := - 2, gap_num := 0, head_search := 0, insert_search := 0, round_num := 0,
                      time_to_newwidth := adjust_new_width_interval c\<rparr>
               else c)
      in reinit 4 1 0 c)"

subsection \<open>Operations\<close>

definition calendar_insert :: "'h event \<Rightarrow> 'h calendar \<Rightarrow> 'h calendar option" where
  "calendar_insert e c = do {
     let c = (if ev_time e < cal_clock c
              then c\<lparr>cal_clock := ev_time e, lastbucket := nat (CALENDAR_HASH c (ev_time e))\<rparr> else c);
     let i = CALENDAR_HASH c (ev_time e);
     b \<leftarrow> bucket_at c i;
     let (b, unique, steps) = bucket_insert e b;
     let c = c\<lparr>buckets := (buckets c)[nat i := b], stat_qsize := stat_qsize c + (if unique then 1 else 0),
               insert_search := insert_search c + steps, cal_qsize := cal_qsize c + 1\<rparr>;
     if top_threshold c < stat_qsize c then resize (2 * nbuckets c) (cal_clock c) c else Some c
   }"

text \<open>\<open>CAL_DEQUEUE\<close> for a list of buckets, each with its bound: the number of buckets seen, the earliest head so far, and whether one was within its
  bound.\<close>

fun cal_search :: "'h calendar \<Rightarrow> (nat \<times> real) list \<Rightarrow> (nat \<times> 'h event) option \<Rightarrow> nat \<times> (nat \<times> 'h event) option \<times> bool" where
  "cal_search c [] best = (0, best, False)"
| "cal_search c ((i, d) # ds) best =
     (case b_list (buckets c ! i) of
        [] \<Rightarrow> let (n, r) = cal_search c ds best in (n + 1, r)
      | e # _ \<Rightarrow>
          if ev_time e - cal_clock c < d then (1, Some (i, e), True)
          else let best = (case best of None \<Rightarrow> Some (i, e) | Some (l, m) \<Rightarrow> if ev_time e < ev_time m then Some (i, e) else Some (l, m));
                   (n, r) = cal_search c ds best
               in (n + 1, r))"

text \<open>The buckets in the order of the search, from \<open>lastbucket_\<close> on, without the one before it. There are at least four.\<close>

definition search_order :: "'h calendar \<Rightarrow> (nat \<times> real) list" where
  "search_order c =
     (let ix = (\<lambda>k. (lastbucket c + k) mod nbuckets c)
      in (ix 0, diff0 c) # (ix 1, diff1 c) # map (\<lambda>k. (ix k, diff2 c)) [2..<nbuckets c - 1])"

definition calendar_head :: "'h calendar \<Rightarrow> ('h event option \<times> 'h calendar) option" where
  "calendar_head c =
     (if cal_qsize c = 0 then Some (None, c)
      else let last = (if lastbucket c \<noteq> 0 then lastbucket c - 1 else nbuckets c - 1);
               (n, best, found) = cal_search c (search_order c) None;
               best = (if found then best
                       else case (best, b_list (buckets c ! last)) of
                              (_, []) \<Rightarrow> best
                            | (None, e # _) \<Rightarrow> Some (last, e)
                            | (Some (l, m), e # _) \<Rightarrow> if ev_time m < ev_time e then best else Some (last, e))
           in case best of
                None \<Rightarrow> None
              | Some (l, e) \<Rightarrow> Some (Some e, c\<lparr>lastbucket := l, cal_clock := ev_time e, head_search := head_search c + n\<rparr>))"

text \<open>The adaptation of the width in \<open>deque\<close>.\<close>

definition adjust_width :: "'h event \<Rightarrow> 'h calendar \<Rightarrow> 'h calendar option" where
  "adjust_width e c =
     (if adjust_new_width_interval c = 0 then Some c
      else if last_time c < 0 then Some (c\<lparr>last_time := ev_time e\<rparr>)
      else let c = c\<lparr>gap_num := gap_num c + 1\<rparr>
           in if gap_num c < cal_qsize c then Some c
              else let c = c\<lparr>avg_gap := (ev_time e - last_time c) / of_int (gap_num c), gap_num := 0, last_time := ev_time e,
                             round_num := round_num c + 1\<rparr>
                   in if 20 < round_num c \<and> (2 * insert_search c < head_search c \<or> 2 * head_search c < insert_search c)
                      then map_option (round_num_update (\<lambda>_. 0)) (resize (nbuckets c) (cal_clock c) c)
                      else if 100 < round_num c then Some (c\<lparr>round_num := 0, head_search := 0, insert_search := 0\<rparr>)
                      else Some c)"

definition calendar_deque :: "'h calendar \<Rightarrow> ('h event option \<times> 'h calendar) option" where
  "calendar_deque c = do {
     (h, c) \<leftarrow> calendar_head c;
     case h of
       None \<Rightarrow> Some (None, c)
     | Some e \<Rightarrow> do {
         c \<leftarrow> adjust_width e c;
         b \<leftarrow> bucket_at c (int (lastbucket c));
         (b, unique) \<leftarrow> bucket_deque e b;
         let c = c\<lparr>buckets := (buckets c)[lastbucket c := b], stat_qsize := stat_qsize c - (if unique then 1 else 0),
                   cal_qsize := cal_qsize c - 1\<rparr>;
         c \<leftarrow> (if stat_qsize c < bot_threshold c then resize (nbuckets c div 2) (cal_clock c) c else Some c);
         Some (Some e, c)
       }
   }"

definition calendar_cancel :: "'h event \<Rightarrow> 'h calendar \<Rightarrow> 'h calendar option" where
  "calendar_cancel e c =
     (if ev_uid e \<le> 0 then Some c
      else do {
        let i = CALENDAR_HASH c (ev_time e);
        b \<leftarrow> bucket_at c i;
        (b, unique) \<leftarrow> bucket_cancel e b;
        let c = c\<lparr>buckets := (buckets c)[nat i := b], stat_qsize := stat_qsize c - (if unique then 1 else 0),
                  cal_qsize := cal_qsize c - 1\<rparr>;
        if stat_qsize c < 0 then None else Some c
      })"

definition calendar_lookup :: "int \<Rightarrow> 'h calendar \<Rightarrow> 'h event option" where
  "calendar_lookup u c = find (\<lambda>e. ev_uid e = u) (concat (map b_list (buckets c)))"

definition calendar_scheduler :: "('h, 'h calendar) sched_ops" where
  "calendar_scheduler =
     \<lparr>op_insert = calendar_insert, op_cancel = calendar_cancel, op_lookup = calendar_lookup, op_deque = calendar_deque,
      op_head = calendar_head\<rparr>"

subsection \<open>A bucket\<close>

text \<open>A bucket is in order and counts its distinct times.\<close>

definition bucket_ok :: "'h bucket \<Rightarrow> bool" where
  "bucket_ok b \<longleftrightarrow> sorted_wrt before (b_list b) \<and> b_count b = int (card (ev_time ` set (b_list b)))"

lemma card_insert_time:
  "card (ev_time ` insert e (set xs)) = card (ev_time ` set xs) + (if ev_time e \<in> ev_time ` set xs then 0 else 1)"
  by (simp add: insert_absorb)

text \<open>Buckets that differ by one event have counts that differ by one if the time of the event is in one of them only.\<close>

lemma bucket_ok_grow:
  assumes "bucket_ok b" "set ys = insert e (set (b_list b))" "sorted_wrt before ys" "unique \<longleftrightarrow> ev_time e \<notin> ev_time ` set (b_list b)"
  shows "bucket_ok \<lparr>b_list = ys, b_count = b_count b + (if unique then 1 else 0)\<rparr>"
  using assms card_insert_time [of e "b_list b"] by (auto simp: bucket_ok_def)

lemma bucket_ok_shrink:
  assumes "bucket_ok b" "set (b_list b) = insert e (set ys)" "sorted_wrt before ys" "unique \<longleftrightarrow> ev_time e \<notin> ev_time ` set ys"
  shows "bucket_ok \<lparr>b_list = ys, b_count = b_count b - (if unique then 1 else 0)\<rparr>"
  using assms card_insert_time [of e ys] by (auto simp: bucket_ok_def)

lemma before_hd: "sorted_wrt before (x # xs) \<Longrightarrow> p \<in> set (x # xs) \<Longrightarrow> ev_time x \<le> ev_time p"
  by (auto dest: before_time)

lemma before_last: "sorted_wrt before xs \<Longrightarrow> p \<in> set xs \<Longrightarrow> ev_time p \<le> ev_time (last xs)"
proof (induction xs)
  case (Cons x xs)
  show ?case
  proof (cases "xs = []")
    case True
    then show ?thesis using Cons.prems by simp
  next
    case False
    then have "before x (last xs)" using Cons.prems(1) by simp
    then show ?thesis using Cons False before_time [of x "last xs"] by auto
  qed
qed simp

lemma bucket_insert_ok:
  assumes b: "bucket_ok b" "\<forall>p \<in> set (b_list b). ev_uid p < ev_uid e"
  shows "\<exists>b' unique n. bucket_insert e b = (b', unique, n) \<and> bucket_ok b' \<and> mset (b_list b') = add_mset e (mset (b_list b)) \<and>
    b_count b' = b_count b + (if unique then 1 else 0)"
proof (cases "b_list b")
  case Nil
  then show ?thesis using b(1) by (auto simp: bucket_insert_def bucket_ok_def intro!: exI [of _ True])
next
  case (Cons h r)
  have sorted: "sorted_wrt before (b_list b)" using b(1) by (simp add: bucket_ok_def)
  have hd: "ev_time h \<le> ev_time p" if "p \<in> set (b_list b)" for p using before_hd sorted that unfolding Cons by blast
  show ?thesis
  proof (cases "ev_time e < ev_time h")
    case True
    then have "before e p" if "p \<in> set (b_list b)" for p using hd [OF that] by (auto simp: before_def)
    then have "sorted_wrt before (e # b_list b)" using sorted by simp
    moreover have "ev_time e \<notin> ev_time ` set (b_list b)" using hd True by force
    ultimately have "bucket_ok \<lparr>b_list = e # b_list b, b_count = b_count b + (if True then 1 else 0)\<rparr>"
      using b(1) by (intro bucket_ok_grow) simp_all
    then show ?thesis using Cons True by (auto simp: bucket_insert_def intro!: exI [of _ True])
  next
    case False
    define later where "later = takeWhile (\<lambda>p. ev_time e < ev_time p) (rev (b_list b))"
    define earlier where "earlier = rev (dropWhile (\<lambda>p. ev_time e < ev_time p) (rev (b_list b)))"
    have "rev (b_list b) = later @ rev earlier" by (simp add: later_def earlier_def)
    then have split: "b_list b = earlier @ rev later" by (metis rev_append rev_rev_ident)
    then have take: "take (length (b_list b) - length later) (b_list b) = earlier" by simp
    have late: "\<forall>p \<in> set later. ev_time e < ev_time p" by (auto simp: later_def dest: set_takeWhileD)
    have ne: "earlier \<noteq> []" using False Cons late split by (cases earlier) (auto dest: in_set_takeD)
    then have "\<not> ev_time e < ev_time (last earlier)"
      using hd_dropWhile [of "\<lambda>p. ev_time e < ev_time p" "rev (b_list b)"] by (auto simp: earlier_def last_rev)
    moreover have "sorted_wrt before earlier" using sorted split by (simp add: sorted_wrt_append)
    ultimately have early: "\<forall>p \<in> set earlier. ev_time p \<le> ev_time e" using before_last by force
    have "\<forall>p \<in> set earlier. before p e" "\<forall>p \<in> set later. before e p"
      using early late b(2) split by (auto simp: before_def)
    then have sorted': "sorted_wrt before (earlier @ e # rev later)"
      using sorted split by (auto simp: sorted_wrt_append)
    have unique: "ev_time (last earlier) < ev_time e \<longleftrightarrow> ev_time e \<notin> ev_time ` set (b_list b)"
    proof
      assume "ev_time (last earlier) < ev_time e"
      then have "\<forall>p \<in> set earlier. ev_time p < ev_time e" using before_last \<open>sorted_wrt before earlier\<close> by force
      then show "ev_time e \<notin> ev_time ` set (b_list b)" using late split by force
    next
      assume "ev_time e \<notin> ev_time ` set (b_list b)"
      then have "ev_time (last earlier) \<noteq> ev_time e" using split last_in_set [OF ne] by (metis Un_iff image_eqI set_append)
      then show "ev_time (last earlier) < ev_time e" using early last_in_set [OF ne] by (simp add: less_le)
    qed
    have "bucket_ok \<lparr>b_list = earlier @ e # rev later,
        b_count = b_count b + (if ev_time (last earlier) < ev_time e then 1 else 0)\<rparr>"
      using split by (intro bucket_ok_grow [OF b(1) _ sorted' unique]) auto
    moreover have l: "takeWhile (\<lambda>p. ev_time e < ev_time p) (rev r @ [h]) = later" by (simp add: later_def Cons)
    moreover have t: "take (Suc (length r) - length later) (h # r) = earlier" using take by (simp add: Cons)
    moreover have "bucket_insert e b = (\<lparr>b_list = earlier @ e # rev later,
        b_count = b_count b + (if ev_time (last earlier) < ev_time e then 1 else 0)\<rparr>, ev_time (last earlier) < ev_time e, 1 + length later)"
      using Cons False l t by (simp add: bucket_insert_def)
    ultimately show ?thesis using split by simp
  qed
qed

lemma bucket_insert2_ok:
  assumes b: "bucket_ok b" "\<forall>p \<in> set (b_list b). ev_time p = ev_time e \<longrightarrow> ev_uid e < ev_uid p"
  shows "\<exists>b' unique. bucket_insert2 e b = (b', unique) \<and> bucket_ok b' \<and> mset (b_list b') = add_mset e (mset (b_list b)) \<and>
    b_count b' = b_count b + (if unique then 1 else 0)"
proof (cases "b_list b")
  case Nil
  then show ?thesis using b(1) by (auto simp: bucket_insert2_def bucket_ok_def intro!: exI [of _ True])
next
  case (Cons h r)
  have sorted: "sorted_wrt before (b_list b)" using b(1) by (simp add: bucket_ok_def)
  have ne: "b_list b \<noteq> []" using Cons by simp
  define earlier rest where "earlier = takeWhile (\<lambda>p. ev_time p < ev_time e) (b_list b)"
    and "rest = dropWhile (\<lambda>p. ev_time p < ev_time e) (b_list b)"
  have split: "b_list b = earlier @ rest" by (simp add: earlier_def rest_def)
  have early: "\<forall>p \<in> set earlier. ev_time p < ev_time e" by (auto simp: earlier_def dest: set_takeWhileD)
  have rest: "sorted_wrt before rest" using sorted split by (simp add: sorted_wrt_append)
  have late: "\<forall>p \<in> set rest. ev_time e \<le> ev_time p"
  proof (cases rest)
    case (Cons x xs)
    then have "\<not> ev_time x < ev_time e" using hd_dropWhile [of "\<lambda>p. ev_time p < ev_time e" "b_list b"] by (simp add: rest_def)
    then show ?thesis using before_hd [of x xs] rest Cons by force
  qed simp
  have tail: "ev_time (last (b_list b)) < ev_time e \<longleftrightarrow> rest = []"
  proof
    assume "ev_time (last (b_list b)) < ev_time e"
    then show "rest = []" using late split by (cases rest rule: rev_cases) auto
  next
    assume "rest = []"
    then show "ev_time (last (b_list b)) < ev_time e" using early split ne by auto
  qed
  have sorted': "sorted_wrt before (earlier @ e # rest)"
    using sorted split early late b(2) by (fastforce simp: sorted_wrt_append before_def)
  have unique: "ev_time (hd (rest @ earlier)) \<noteq> ev_time e \<longleftrightarrow> ev_time e \<notin> ev_time ` set (b_list b)"
  proof (cases rest)
    case Nil
    then show ?thesis using early split ne by (cases earlier) auto
  next
    case (Cons x xs)
    then have "ev_time p \<noteq> ev_time e" if "p \<in> set rest" "ev_time x \<noteq> ev_time e" for p
      using before_hd [of x xs p] rest late that by force
    then show ?thesis using Cons early split by force
  qed
  have "bucket_insert2 e b = (\<lparr>b_list = earlier @ e # rest,
      b_count = b_count b + (if ev_time (hd (rest @ earlier)) \<noteq> ev_time e then 1 else 0)\<rparr>, ev_time (hd (rest @ earlier)) \<noteq> ev_time e)"
    using Cons tail split unfolding bucket_insert2_def earlier_def [symmetric] rest_def [symmetric]
    by (auto simp: Let_def)
  moreover have "bucket_ok \<lparr>b_list = earlier @ e # rest,
      b_count = b_count b + (if ev_time (hd (rest @ earlier)) \<noteq> ev_time e then 1 else 0)\<rparr>"
    using split by (intro bucket_ok_grow [OF b(1) _ sorted' unique]) auto
  ultimately show ?thesis using split by simp
qed

lemma ring_at_split:
  assumes "b_list b = front @ e # behind" "ev_uid e \<notin> ev_uid ` set front"
  shows "ring_at e b = Some (front, behind)"
proof -
  have "dropWhile (\<lambda>p. ev_uid p \<noteq> ev_uid e) (b_list b) = e # behind" "takeWhile (\<lambda>p. ev_uid p \<noteq> ev_uid e) (b_list b) = front"
    using assms(2) unfolding assms(1) by (induction front) simp_all
  then show ?thesis by (simp add: ring_at_def)
qed

lemma bucket_deque_ok:
  assumes b: "bucket_ok b" "b_list b = e # r"
  shows "\<exists>b' unique. bucket_deque e b = Some (b', unique) \<and> bucket_ok b' \<and> b_list b' = r \<and>
    b_count b' = b_count b - (if unique then 1 else 0)"
proof -
  have ring: "ring_at e b = Some ([], r)" using ring_at_split [of b "[]" e r] b(2) by simp
  have sorted: "sorted_wrt before (e # r)" using b by (simp add: bucket_ok_def)
  have "r = [] \<or> ev_time (hd r) \<noteq> ev_time e \<longleftrightarrow> ev_time e \<notin> ev_time ` set r"
    using sorted before_hd by (cases r) (force dest: before_time)+
  then have "bucket_ok \<lparr>b_list = r, b_count = b_count b - (if r = [] \<or> ev_time (hd r) \<noteq> ev_time e then 1 else 0)\<rparr>"
    using sorted b(2) by (intro bucket_ok_shrink [OF b(1)]) simp_all
  then show ?thesis using ring by (simp add: bucket_deque_def Let_def)
qed

lemma bucket_cancel_ok:
  assumes b: "bucket_ok b" "e \<in> set (b_list b)" "\<forall>p \<in> set (b_list b). ev_uid p = ev_uid e \<longrightarrow> p = e"
  shows "\<exists>b' unique. bucket_cancel e b = Some (b', unique) \<and> bucket_ok b' \<and> add_mset e (mset (b_list b')) = mset (b_list b) \<and>
    b_count b' = b_count b - (if unique then 1 else 0)"
proof -
  obtain front behind where split: "b_list b = front @ e # behind" "e \<notin> set front" using b(2) by (meson split_list_first)
  have "ev_uid e \<notin> ev_uid ` set front" using b(3) split by force
  then have ring: "ring_at e b = Some (front, behind)" by (rule ring_at_split [OF split(1)])
  have sorted: "sorted_wrt before front" "sorted_wrt before behind" "\<forall>p \<in> set front. before p e" "\<forall>p \<in> set behind. before e p"
    "sorted_wrt before (front @ behind)"
    using b(1) split(1) by (auto simp: bucket_ok_def sorted_wrt_append)
  define unique where
    "unique \<longleftrightarrow> behind @ front = [] \<or> ev_time (hd (behind @ front)) \<noteq> ev_time e \<and> ev_time (last (behind @ front)) \<noteq> ev_time e"
  have "ev_time e \<notin> ev_time ` set (front @ behind)" if u: unique
  proof -
    have "ev_time p \<noteq> ev_time e" if p: "p \<in> set front" for p
    proof -
      have last: "last (behind @ front) = last front" "front \<noteq> []" using p by (auto simp: last_append)
      then have "ev_time (last front) \<noteq> ev_time e" using u by (auto simp: unique_def)
      moreover have "ev_time (last front) \<le> ev_time e" using sorted(3) last(2) before_time by force
      ultimately show ?thesis using before_last [OF sorted(1) p] by simp
    qed
    moreover have "ev_time p \<noteq> ev_time e" if p: "p \<in> set behind" for p
    proof -
      obtain x xs where x: "behind = x # xs" using p by (cases behind) auto
      then have "ev_time x \<noteq> ev_time e" "ev_time e \<le> ev_time x" using u sorted(4) before_time by (auto simp: unique_def)
      then show ?thesis using before_hd [of x xs p] sorted(2) p x by simp
    qed
    ultimately show ?thesis by force
  qed
  moreover have unique if new: "ev_time e \<notin> ev_time ` set (front @ behind)"
  proof (cases "behind @ front = []")
    case False
    have "hd (behind @ front) \<in> set (front @ behind)" "last (behind @ front) \<in> set (front @ behind)"
      using hd_in_set [OF False] last_in_set [OF False] by auto
    then show ?thesis using new unfolding unique_def by (metis image_eqI)
  qed (simp add: unique_def)
  ultimately have ok: "bucket_ok \<lparr>b_list = front @ behind, b_count = b_count b - (if unique then 1 else 0)\<rparr>"
    using sorted(5) split(1) by (intro bucket_ok_shrink [OF b(1)]) auto
  then have "\<not> (b_count b - (if unique then 1 else 0) < 0 \<or> b_count b - (if unique then 1 else 0) = 0 \<and> front @ behind \<noteq> [])"
    unfolding bucket_ok_def by auto
  then have "bucket_cancel e b = Some (\<lparr>b_list = front @ behind, b_count = b_count b - (if unique then 1 else 0)\<rparr>, unique)"
    unfolding bucket_cancel_def ring by (simp add: unique_def [symmetric] Let_def del: append_is_Nil_conv)
  then show ?thesis using ok split(1) by simp
qed

subsection \<open>The array of buckets\<close>

lemma CALENDAR_HASH_cong: "width c' = width c \<Longrightarrow> nbuckets c' = nbuckets c \<Longrightarrow> CALENDAR_HASH c' t = CALENDAR_HASH c t"
  by (simp add: CALENDAR_HASH_def)

definition all_events :: "'h calendar \<Rightarrow> 'h event multiset" where
  "all_events c = mset (concat (map b_list (buckets c)))"

text \<open>The layout: every event is in order in its bucket, and the counts are right.\<close>

definition layout :: "'h calendar \<Rightarrow> 'h event multiset \<Rightarrow> bool" where
  "layout c M \<longleftrightarrow>
     length (buckets c) = nbuckets c \<and> 4 \<le> nbuckets c \<and> 0 < width c \<and>
     diff0 c = width c * real (nbuckets c) / 2 \<and> diff1 c = width c * real (nbuckets c) / 2 + width c \<and>
     diff2 c = width c * real (nbuckets c) \<and>
     list_all bucket_ok (buckets c) \<and>
     (\<forall>i < nbuckets c. \<forall>e \<in> set (b_list (buckets c ! i)). CALENDAR_HASH c (ev_time e) = int i) \<and>
     all_events c = M \<and> stat_qsize c = sum_list (map b_count (buckets c)) \<and> cal_qsize c = int (size M)"

lemma layoutD:
  assumes "layout c M"
  shows "length (buckets c) = nbuckets c" "4 \<le> nbuckets c" "0 < width c"
    "\<And>i. i < nbuckets c \<Longrightarrow> bucket_ok (buckets c ! i)"
    "\<And>i e. i < nbuckets c \<Longrightarrow> e \<in> set (b_list (buckets c ! i)) \<Longrightarrow> CALENDAR_HASH c (ev_time e) = int i"
    "all_events c = M" "stat_qsize c = sum_list (map b_count (buckets c))" "cal_qsize c = int (size M)"
  using assms by (auto simp: layout_def list_all_length)

lemma hash_range:
  assumes "0 < width c" "0 < nbuckets c" "0 \<le> t"
  shows "CALENDAR_HASH c t = \<lfloor>t / width c\<rfloor> mod int (nbuckets c)" "0 \<le> CALENDAR_HASH c t" "CALENDAR_HASH c t < int (nbuckets c)"
  using trunc_int_fmod [of "t / width c" "nbuckets c"] assms by (simp_all add: CALENDAR_HASH_def)

lemma mem_bucket:
  assumes "layout c M" "i < nbuckets c" "e \<in> set (b_list (buckets c ! i))"
  shows "e \<in># M"
  using layoutD [OF assms(1)] assms(2,3) by (force simp: all_events_def in_set_conv_nth)

lemma bucket_of:
  assumes "layout c M" "e \<in># M"
  shows "\<exists>i < nbuckets c. CALENDAR_HASH c (ev_time e) = int i \<and> e \<in> set (b_list (buckets c ! i))"
proof -
  have "e \<in> set (concat (map b_list (buckets c)))" using layoutD(6) [OF assms(1)] assms(2) by (auto simp: all_events_def)
  then obtain b where "b \<in> set (buckets c)" "e \<in> set (b_list b)" by auto
  then obtain i where i: "i < nbuckets c" "e \<in> set (b_list (buckets c ! i))"
    using layoutD(1) [OF assms(1)] by (metis in_set_conv_nth)
  then show ?thesis using layoutD(5) [OF assms(1) i] by blast
qed

lemma buckets_update:
  assumes "i < length bs"
  shows "mset (concat (map b_list (bs[i := b]))) + mset (b_list (bs ! i)) = mset (concat (map b_list bs)) + mset (b_list b)"
    "sum_list (map b_count (bs[i := b])) + b_count (bs ! i) = sum_list (map b_count bs) + b_count b"
proof -
  obtain xs x ys where bs: "bs = xs @ x # ys" "i = length xs" using id_take_nth_drop [OF assms] assms by (metis length_take min.absorb4)
  show "mset (concat (map b_list (bs[i := b]))) + mset (b_list (bs ! i)) = mset (concat (map b_list bs)) + mset (b_list b)"
    "sum_list (map b_count (bs[i := b])) + b_count (bs ! i) = sum_list (map b_count bs) + b_count b"
    unfolding bs by simp_all
qed

text \<open>One bucket changes.\<close>

definition same_shape :: "'h calendar \<Rightarrow> 'h calendar \<Rightarrow> bool" where
  "same_shape c c' \<longleftrightarrow>
     nbuckets c' = nbuckets c \<and> width c' = width c \<and> diff0 c' = diff0 c \<and> diff1 c' = diff1 c \<and> diff2 c' = diff2 c"

lemma layout_update:
  assumes c: "layout c M" and i: "i < nbuckets c" and c': "same_shape c c'" "buckets c' = (buckets c)[i := b]"
    "stat_qsize c' = stat_qsize c + (b_count b - b_count (buckets c ! i))" "cal_qsize c' = int (size M')"
    and b: "bucket_ok b" "\<forall>e \<in> set (b_list b). CALENDAR_HASH c (ev_time e) = int i"
      "M' + mset (b_list (buckets c ! i)) = M + mset (b_list b)"
  shows "layout c' M'"
proof -
  note L = layoutD [OF c]
  have i': "i < length (buckets c)" using i L(1) by simp
  have "all_events c' + mset (b_list (buckets c ! i)) = M' + mset (b_list (buckets c ! i))"
    using buckets_update(1) [OF i', of b] b(3) L(6) c'(2) by (simp add: all_events_def)
  moreover have "stat_qsize c' = sum_list (map b_count (buckets c'))"
    using buckets_update(2) [OF i', of b] L(7) c'(2,3) by simp
  moreover have "list_all bucket_ok (buckets c')"
    using c b(1) set_update_subset_insert [of "buckets c" i b] by (auto simp: c'(2) layout_def list_all_iff)
  moreover have "CALENDAR_HASH c' (ev_time e) = int j" if "j < nbuckets c" "e \<in> set (b_list (buckets c' ! j))" for j e
    using that b(2) L(5) i' c' by (auto simp: nth_list_update CALENDAR_HASH_def same_shape_def split: if_splits)
  ultimately show ?thesis using c c' by (simp add: layout_def same_shape_def)
qed

lemma bucket_at_hash:
  assumes "layout c M" "0 \<le> t"
  shows "bucket_at c (CALENDAR_HASH c t) = Some (buckets c ! nat (CALENDAR_HASH c t)) \<and> nat (CALENDAR_HASH c t) < nbuckets c"
  using layoutD(1,2,3) [OF assms(1)] hash_range(2,3) [of c t] assms(2) by (simp add: bucket_at_def nat_less_iff)

subsection \<open>Changing the size\<close>

lemma reinit_layout:
  assumes "4 \<le> n" "0 < w"
  shows "layout (reinit n w start c) {#}"
  using assms by (simp add: layout_def reinit_def Let_def all_events_def list_all_length bucket_ok_def sum_list_replicate concat_map_singleton
      map_replicate_const concat_replicate_trivial)

lemma hashed_insert:
  assumes c: "layout c M" and i: "nat (CALENDAR_HASH c (ev_time e)) < nbuckets c" "0 \<le> CALENDAR_HASH c (ev_time e)"
    and b: "mset (b_list b) = add_mset e (mset (b_list (buckets c ! nat (CALENDAR_HASH c (ev_time e)))))"
  shows "\<forall>p \<in> set (b_list b). CALENDAR_HASH c (ev_time p) = int (nat (CALENDAR_HASH c (ev_time e)))"
proof
  fix p
  assume "p \<in> set (b_list b)"
  then have "p \<in># mset (b_list b)" by simp
  then consider "p = e" | "p \<in> set (b_list (buckets c ! nat (CALENDAR_HASH c (ev_time e))))" unfolding b by auto
  then show "CALENDAR_HASH c (ev_time p) = int (nat (CALENDAR_HASH c (ev_time e)))"
    by cases (simp add: i(2), rule layoutD(5) [OF c i(1)])
qed

lemma insert2_ok:
  assumes c: "layout c M" and e: "0 \<le> ev_time e" "\<forall>p \<in># M. ev_time p = ev_time e \<longrightarrow> ev_uid e < ev_uid p"
  shows "\<exists>c'. insert2 e c = Some c' \<and> layout c' (add_mset e M) \<and> same_shape c c' \<and> cal_clock c' = cal_clock c \<and> lastbucket c' = lastbucket c"
proof -
  let ?i = "nat (CALENDAR_HASH c (ev_time e))"
  have i: "bucket_at c (CALENDAR_HASH c (ev_time e)) = Some (buckets c ! ?i)" "?i < nbuckets c" "0 \<le> CALENDAR_HASH c (ev_time e)"
    using bucket_at_hash [OF c e(1)] hash_range(2) [of c "ev_time e"] layoutD(2,3) [OF c] e(1) by simp_all
  have below: "\<forall>p \<in> set (b_list (buckets c ! ?i)). ev_time p = ev_time e \<longrightarrow> ev_uid e < ev_uid p"
    using e(2) mem_bucket [OF c i(2)] by blast
  obtain b unique where b: "bucket_insert2 e (buckets c ! ?i) = (b, unique)" "bucket_ok b"
    "mset (b_list b) = add_mset e (mset (b_list (buckets c ! ?i)))" "b_count b = b_count (buckets c ! ?i) + (if unique then 1 else 0)"
    using bucket_insert2_ok [OF layoutD(4) [OF c i(2)] below] by (elim exE conjE) (rule that, assumption+)
  define c' where "c' = c\<lparr>buckets := (buckets c)[?i := b], stat_qsize := stat_qsize c + (if unique then 1 else 0), cal_qsize := cal_qsize c + 1\<rparr>"
  have shape: "same_shape c c'" by (simp add: same_shape_def c'_def)
  have hashed: "\<forall>p \<in> set (b_list b). CALENDAR_HASH c (ev_time p) = int ?i" by (rule hashed_insert [OF c i(2,3) b(3)])
  have "layout c' (add_mset e M)"
    using b hashed layoutD(8) [OF c] by (intro layout_update [OF c i(2) shape, of b]) (simp_all add: c'_def)
  moreover have "insert2 e c = Some c'" using i(1) b(1) by (simp add: insert2_def c'_def Let_def)
  ultimately show ?thesis using shape by (simp add: c'_def)
qed

text \<open>Events of one time must come with falling numbers.\<close>

definition falling :: "'h event \<Rightarrow> 'h event \<Rightarrow> bool" where
  "falling p q \<longleftrightarrow> (ev_time p = ev_time q \<longrightarrow> ev_uid q < ev_uid p)"

lemma insert2_all_ok:
  "layout c M \<Longrightarrow> \<forall>e \<in> set es. 0 \<le> ev_time e \<and> (\<forall>p \<in># M. falling p e) \<Longrightarrow> sorted_wrt falling es \<Longrightarrow>
     \<exists>c'. insert2_all es c = Some c' \<and> layout c' (M + mset es) \<and> same_shape c c' \<and> cal_clock c' = cal_clock c \<and>
       lastbucket c' = lastbucket c"
proof (induction es arbitrary: c M)
  case (Cons e es)
  obtain c1 where c1: "insert2 e c = Some c1" "layout c1 (add_mset e M)" "same_shape c c1" "cal_clock c1 = cal_clock c"
    "lastbucket c1 = lastbucket c"
    using insert2_ok [OF Cons.prems(1), of e] Cons.prems(2) by (auto simp: falling_def)
  have "\<forall>x \<in> set es. 0 \<le> ev_time x \<and> (\<forall>p \<in># add_mset e M. falling p x)" using Cons.prems(2,3) by simp
  then obtain c2 where "insert2_all es c1 = Some c2" "layout c2 (add_mset e M + mset es)" "same_shape c1 c2" "cal_clock c2 = cal_clock c1"
    "lastbucket c2 = lastbucket c1"
    using Cons.IH [OF c1(2)] Cons.prems(3) by auto
  then show ?case using c1 by (simp add: same_shape_def)
qed (simp add: same_shape_def)

lemma sorted_wrt_concat:
  "sorted_wrt (\<lambda>xs ys. \<forall>x \<in> set xs. \<forall>y \<in> set ys. P x y) xss \<Longrightarrow> \<forall>xs \<in> set xss. sorted_wrt P xs \<Longrightarrow> sorted_wrt P (concat xss)"
  by (induction xss) (auto simp: sorted_wrt_append)

lemma emptied_falling:
  assumes c: "layout c M"
  shows "sorted_wrt falling (concat (map (\<lambda>b. rev (b_list b)) (buckets c)))"
proof (rule sorted_wrt_concat)
  note L = layoutD [OF c]
  show "sorted_wrt (\<lambda>xs ys. \<forall>x \<in> set xs. \<forall>y \<in> set ys. falling x y) (map (\<lambda>b. rev (b_list b)) (buckets c))"
    unfolding sorted_wrt_iff_nth_less
  proof (intro allI impI ballI)
    fix i j x y
    assume ij: "i < j" "j < length (map (\<lambda>b. rev (b_list b)) (buckets c))"
      and xy: "x \<in> set (map (\<lambda>b. rev (b_list b)) (buckets c) ! i)" "y \<in> set (map (\<lambda>b. rev (b_list b)) (buckets c) ! j)"
    then have "CALENDAR_HASH c (ev_time x) = int i" "CALENDAR_HASH c (ev_time y) = int j" using L(1,5) by simp_all
    then show "falling x y" using ij(1) by (auto simp: falling_def)
  qed
  show "\<forall>xs \<in> set (map (\<lambda>b. rev (b_list b)) (buckets c)). sorted_wrt falling xs"
  proof
    fix xs
    assume "xs \<in> set (map (\<lambda>b. rev (b_list b)) (buckets c))"
    then obtain b where b: "b \<in> set (buckets c)" "xs = rev (b_list b)" by auto
    then have "sorted_wrt before (b_list b)" using c by (auto simp: layout_def list_all_iff bucket_ok_def)
    then have "sorted_wrt (\<lambda>p q. before q p) xs" unfolding b(2) by (simp add: sorted_wrt_rev)
    then show "sorted_wrt falling xs" by (rule sorted_wrt_mono_rel [rotated]) (auto simp: falling_def before_def)
  qed
qed

lemma mset_emptied: "mset (concat (map (\<lambda>b. rev (b_list b)) bs)) = mset (concat (map b_list bs))"
  by (induction bs) simp_all

text \<open>The calendar after a change of its size: the events are the same, and the day of \<open>start\<close> is the current one.\<close>

definition resized :: "'h calendar \<Rightarrow> 'h event multiset \<Rightarrow> real \<Rightarrow> 'h calendar \<Rightarrow> bool" where
  "resized c M start c' \<longleftrightarrow> layout c' M \<and> cal_clock c' = cal_clock c \<and> lastbucket c' = nat (CALENDAR_HASH c' start)"

lemma rebuild_ok:
  assumes c: "layout c M" "\<forall>e \<in># M. 0 \<le> ev_time e" and n: "4 \<le> n" "0 < w"
  shows "\<exists>c'. rebuild n w start c = Some c' \<and> resized c M start c'"
proof -
  let ?es = "concat (map (\<lambda>b. rev (b_list b)) (buckets c))" and ?c0 = "reinit n w start c"
  have es: "mset ?es = M" using layoutD(6) [OF c(1)] by (simp add: all_events_def mset_emptied)
  then have "\<forall>e \<in> set ?es. 0 \<le> ev_time e \<and> (\<forall>p \<in># {#}. falling p e)" using c(2) by (metis empty_iff set_mset_empty set_mset_mset)
  then obtain c1 where c1: "insert2_all ?es ?c0 = Some c1" "layout c1 ({#} + mset ?es)" "same_shape ?c0 c1"
    "cal_clock c1 = cal_clock ?c0" "lastbucket c1 = lastbucket ?c0"
    using insert2_all_ok [OF reinit_layout [OF n] _ emptied_falling [OF c(1)]] by blast
  have "lastbucket ?c0 = nat (CALENDAR_HASH ?c0 start)" "cal_clock ?c0 = cal_clock c" by (simp_all add: reinit_def Let_def CALENDAR_HASH_def)
  then show ?thesis
    using c1 es by (simp add: rebuild_def resized_def layout_def same_shape_def CALENDAR_HASH_def all_events_def)
qed

lemma fold_choice: "fold (\<lambda>i m. if P m i then i else m) xs a \<in> insert a (set xs)"
  by (induction xs arbitrary: a) auto

text \<open>The width is positive, the assertion in \<open>newwidth\<close> included.\<close>

lemma newwidth_ok:
  assumes c: "layout c M" and n: "0 < n"
  shows "\<exists>w t. newwidth n c = Some (w, c\<lparr>time_to_newwidth := t\<rparr>) \<and> 0 < w"
proof -
  note L = layoutD [OF c]
  define c1 where "c1 = (if adjust_new_width_interval c \<noteq> 0 then c\<lparr>time_to_newwidth := adjust_new_width_interval c\<rparr> else c)"
  have c1: "c1 = c\<lparr>time_to_newwidth := if adjust_new_width_interval c \<noteq> 0 then adjust_new_width_interval c else time_to_newwidth c\<rparr>"
    by (simp add: c1_def)
  then have same: "buckets c1 = buckets c" "nbuckets c1 = nbuckets c" "width c1 = width c" "avg_gap c1 = avg_gap c"
    "adjust_new_width_interval c1 = adjust_new_width_interval c" by auto
  define b where "b = buckets c ! max_bucket c1"
  have "max_bucket c1 \<in> insert 0 (set [1..<nbuckets c])" unfolding max_bucket_def same(2) by (rule fold_choice)
  then have m: "max_bucket c1 < nbuckets c" using L(2) by auto
  then have at: "bucket_at c1 (int (max_bucket c1)) = Some b" using L(1) by (simp add: bucket_at_def same b_def)
  have ok: "bucket_ok b" unfolding b_def by (rule L(4) [OF m])
  have gap: "b_list b \<noteq> [] \<and> 0 < ev_time (last (b_list b)) - ev_time (hd (b_list b))" if many: "4 < b_count b"
  proof -
    have ne: "b_list b \<noteq> []" using ok many by (auto simp: bucket_ok_def)
    then obtain h r where hr: "b_list b = h # r" by (cases "b_list b") auto
    have sorted: "sorted_wrt before (b_list b)" using ok by (simp add: bucket_ok_def)
    have "\<not> ev_time (last (b_list b)) \<le> ev_time h"
    proof
      assume "ev_time (last (b_list b)) \<le> ev_time h"
      then have "ev_time ` set (b_list b) \<subseteq> {ev_time h}"
        using before_last [OF sorted] before_hd [of h r] sorted hr by force
      then have "card (ev_time ` set (b_list b)) \<le> 1" using card_mono [of "{ev_time h}"] by simp
      then show False using ok many by (simp add: bucket_ok_def)
    qed
    then show ?thesis using ne hr by simp
  qed
  have "\<exists>w. newwidth n c = Some (w, c1) \<and> 0 < w"
  proof (cases "adjust_new_width_interval c1 \<noteq> 0 \<and> 0 < avg_gap c1")
    case True
    then show ?thesis unfolding newwidth_def c1_def [symmetric] Let_def by simp
  next
    case False
    show ?thesis
    proof (cases "b_count b \<le> 4")
      case True
      then show ?thesis using False at L(3) same(3) unfolding newwidth_def c1_def [symmetric] Let_def by auto
    next
      case many: False
      then have "b_list b \<noteq> []" "0 < ev_time (last (b_list b)) - ev_time (hd (b_list b))" using gap by auto
      moreover from this have "0 < (ev_time (last (b_list b)) - ev_time (hd (b_list b))) /
          of_int (if int n < b_count b then int n else b_count b) * 4" using n many by simp
      ultimately show ?thesis using False at many unfolding newwidth_def c1_def [symmetric] Let_def by auto
    qed
  qed
  then show ?thesis using c1 by metis
qed

lemma layout_stats [simp]:
  "layout (c\<lparr>time_to_newwidth := t\<rparr>) M = layout c M" "layout (c\<lparr>head_search := n\<rparr>) M = layout c M"
  "layout (c\<lparr>insert_search := n\<rparr>) M = layout c M" "layout (c\<lparr>round_num := i\<rparr>) M = layout c M"
  "layout (c\<lparr>gap_num := i\<rparr>) M = layout c M" "layout (c\<lparr>last_time := x\<rparr>) M = layout c M"
  "layout (c\<lparr>avg_gap := x\<rparr>) M = layout c M" "layout (c\<lparr>cal_clock := x\<rparr>) M = layout c M" "layout (c\<lparr>lastbucket := n\<rparr>) M = layout c M"
  by (simp_all add: layout_def CALENDAR_HASH_def all_events_def)

lemma hash_stats [simp]:
  "CALENDAR_HASH (c\<lparr>time_to_newwidth := t\<rparr>) x = CALENDAR_HASH c x" "CALENDAR_HASH (c\<lparr>head_search := n\<rparr>) x = CALENDAR_HASH c x"
  "CALENDAR_HASH (c\<lparr>insert_search := n\<rparr>) x = CALENDAR_HASH c x" "CALENDAR_HASH (c\<lparr>round_num := i\<rparr>) x = CALENDAR_HASH c x"
  "CALENDAR_HASH (c\<lparr>gap_num := i\<rparr>) x = CALENDAR_HASH c x" "CALENDAR_HASH (c\<lparr>last_time := y\<rparr>) x = CALENDAR_HASH c x"
  "CALENDAR_HASH (c\<lparr>avg_gap := y\<rparr>) x = CALENDAR_HASH c x" "CALENDAR_HASH (c\<lparr>cal_clock := y\<rparr>) x = CALENDAR_HASH c x"
  "CALENDAR_HASH (c\<lparr>lastbucket := n\<rparr>) x = CALENDAR_HASH c x"
  by (simp_all add: CALENDAR_HASH_def)

lemma resize_ok:
  assumes c: "layout c M" "\<forall>e \<in># M. 0 \<le> ev_time e" and n: "0 < n" and last: "lastbucket c = nat (CALENDAR_HASH c start)"
  shows "\<exists>c'. resize n start c = Some c' \<and> resized c M start c'"
proof -
  obtain w t where nw: "newwidth n c = Some (w, c\<lparr>time_to_newwidth := t\<rparr>)" "0 < w" using newwidth_ok [OF c(1) n] by blast
  have re: "\<exists>c'. rebuild m w' start (c\<lparr>time_to_newwidth := t'\<rparr>) = Some c' \<and> resized c M start c'"
    if "4 \<le> m" "0 < w'" for m w' t'
    using rebuild_ok [of "c\<lparr>time_to_newwidth := t'\<rparr>" M m w' start] c that by (simp add: resized_def)
  have re': "\<exists>c'. rebuild m w' start c = Some c' \<and> resized c M start c'" if "4 \<le> m" "0 < w'" for m w'
    using rebuild_ok [OF c that] .
  show ?thesis
  proof (cases "n = nbuckets c")
    case True
    define r where "r = (if insert_search c \<noteq> 0 then (if head_search c \<noteq> 0 then real (head_search c) else 1) / real (insert_search c)
      else if head_search c \<noteq> 0 then real (head_search c) else 1)"
    have "0 < r" by (simp add: r_def)
    then have w': "0 < sqrt r * width c" using layoutD(3) [OF c(1)] by simp
    have n4: "4 \<le> n" using True layoutD(2) [OF c(1)] by simp
    have "resize n start c =
        (if sqrt r * width c < min_bin_width c
         then if 0 < time_to_newwidth c
              then Some (c\<lparr>time_to_newwidth := time_to_newwidth c - 1, head_search := 0, insert_search := 0, round_num := 0\<rparr>)
              else rebuild n w start (c\<lparr>time_to_newwidth := t\<rparr>)
         else rebuild n (sqrt r * width c) start c)"
      using True nw(1) by (simp add: resize_def r_def Let_def)
    then show ?thesis
      using re [OF n4 nw(2), of t] re' [OF n4 w'] c(1) last by (auto simp: resized_def)
  next
    case False
    then have "resize n start c = rebuild (if n < 4 then 4 else n) w start (c\<lparr>time_to_newwidth := t\<rparr>)"
      using nw(1) by (simp add: resize_def)
    moreover have "4 \<le> (if n < 4 then 4 else n)" by simp
    ultimately show ?thesis using re [OF _ nw(2)] by metis
  qed
qed

end
