(* ===== verification/Calendar_Search.thy ===== *)
theory Calendar_Search
  imports Calendar_Queue
begin

section \<open>The search of the calendar queue and its correctness\<close>

text \<open>
  The search for the first event of \<open>Calendar_Queue\<close> finds the first event of the queue: an event within the bound of its bucket is of the
  current year. The operations keep the representation, and the calendar queue is a queue of events as \<open>Event_Queue\<close> specifies it.
\<close>

subsection \<open>The first event\<close>

definition calendar_rep :: "nat \<Rightarrow> 'h calendar \<Rightarrow> 'h event list \<Rightarrow> bool" where
  "calendar_rep n c es \<longleftrightarrow>
     queue_ok es \<and> layout c (mset es) \<and> 0 \<le> cal_clock c \<and> lastbucket c = nat (CALENDAR_HASH c (cal_clock c)) \<and>
     (\<forall>e \<in> set es. cal_clock c \<le> ev_time e)"

lemma calendar_repD:
  assumes "calendar_rep n c es"
  shows "queue_ok es" "layout c (mset es)" "0 \<le> cal_clock c" "lastbucket c = nat (CALENDAR_HASH c (cal_clock c))"
    "\<And>e. e \<in> set es \<Longrightarrow> cal_clock c \<le> ev_time e" "\<forall>e \<in># mset es. 0 \<le> ev_time e"
  using assms by (auto simp: calendar_rep_def queue_ok_def)

lemma head_first:
  assumes rep: "calendar_rep n c es" and l: "l < nbuckets c" "b_list (buckets c ! l) = e # r"
    and others: "\<And>i h t. i < nbuckets c \<Longrightarrow> i \<noteq> l \<Longrightarrow> b_list (buckets c ! i) = h # t \<Longrightarrow> ev_time e \<le> ev_time h"
  shows "list_head es = Some e"
proof -
  note R = calendar_repD [OF rep] and L = layoutD [OF calendar_repD(2) [OF rep]]
  have mem: "e \<in> set es" using mem_bucket [OF R(2) l(1), of e] l(2) by simp
  then obtain x xs where es: "es = x # xs" by (cases es) auto
  obtain i where i: "i < nbuckets c" "CALENDAR_HASH c (ev_time x) = int i" "x \<in> set (b_list (buckets c ! i))"
    using bucket_of [OF R(2), of x] es by auto
  obtain h t where h: "b_list (buckets c ! i) = h # t" using i(3) by (cases "b_list (buckets c ! i)") auto
  have sorted: "sorted_wrt before (h # t)" using L(4) [OF i(1)] h by (simp add: bucket_ok_def)
  have "x = e"
  proof (rule ccontr)
    assume "x \<noteq> e"
    then have x: "before x e" using R(1) mem es by (auto simp: queue_ok_Cons)
    show False
    proof (cases "i = l")
      case True
      then have "before e x" using sorted h l(2) i(3) \<open>x \<noteq> e\<close> by auto
      then show False using x before_antisym by blast
    next
      case False
      have "CALENDAR_HASH c (ev_time e) = int l" using L(5) [OF l(1), of e] l(2) by simp
      then have "ev_time x \<noteq> ev_time e" using i(2) False by auto
      moreover have "ev_time e \<le> ev_time x" using others [OF i(1) False h] before_hd [OF sorted, of x] i(3) h by simp
      ultimately show False using x by (auto simp: before_def)
    qed
  qed
  then show ?thesis using es by (simp add: list_head_def)
qed

text \<open>Buckets by their distance from the current one.\<close>

definition cal_ix :: "'h calendar \<Rightarrow> nat \<Rightarrow> nat" where
  "cal_ix c k = (lastbucket c + k) mod nbuckets c"

definition day_bound :: "'h calendar \<Rightarrow> nat \<Rightarrow> real" where
  "day_bound c k = (if k = 0 then diff0 c else if k = 1 then diff1 c else diff2 c)"

lemma search_order_eq:
  assumes "4 \<le> nbuckets c"
  shows "search_order c = map (\<lambda>k. (cal_ix c k, day_bound c k)) [0..<nbuckets c - 1]"
proof -
  have "[0..<nbuckets c - 1] = 0 # 1 # [2..<nbuckets c - 1]" using assms by (simp add: upt_rec numeral_2_eq_2)
  then show ?thesis by (simp add: search_order_def Let_def cal_ix_def day_bound_def)
qed

lemma ix_surj:
  assumes "i < nbuckets c" "lastbucket c < nbuckets c"
  shows "\<exists>k < nbuckets c. cal_ix c k = i"
proof (cases "lastbucket c \<le> i")
  case True
  then have "cal_ix c (i - lastbucket c) = i" "i - lastbucket c < nbuckets c" using assms by (simp_all add: cal_ix_def)
  then show ?thesis by blast
next
  case False
  then have "lastbucket c + (i + nbuckets c - lastbucket c) = i + nbuckets c" "i + nbuckets c - lastbucket c < nbuckets c"
    using assms by simp_all
  moreover from this have "cal_ix c (i + nbuckets c - lastbucket c) = i" using assms(1) by (simp add: cal_ix_def)
  ultimately show ?thesis by blast
qed

lemma mod_shift:
  fixes a b k n :: int
  assumes "a mod n = (b + k) mod n"
  shows "(a - b) mod n = k mod n"
proof -
  have "(a - b) mod n = (a mod n - b) mod n" by (simp add: mod_diff_left_eq)
  also have "\<dots> = ((b + k) - b) mod n" unfolding assms by (simp only: mod_diff_left_eq)
  finally show ?thesis by simp
qed

lemma mod_cases:
  fixes d k n :: int
  assumes "d mod n = k" "0 \<le> d" "0 < n"
  shows "d = k \<or> k + n \<le> d"
proof (cases "d < n")
  case True
  then show ?thesis using assms by simp
next
  case False
  then have "d mod n = (d - n) mod n" by simp
  also have "\<dots> \<le> d - n" using False by (intro zmod_le_nonneg_dividend) simp
  finally show ?thesis using assms(1) by simp
qed

text \<open>The day of an event in the bucket \<open>k\<close> places on: it is \<open>k\<close> days away, or at least a year more.\<close>

lemma day_of:
  assumes rep: "calendar_rep n c es" and k: "k < nbuckets c" and p: "p \<in> set (b_list (buckets c ! cal_ix c k))"
  defines "d \<equiv> \<lfloor>ev_time p / width c\<rfloor> - \<lfloor>cal_clock c / width c\<rfloor>"
  shows "d = int k \<or> int k + int (nbuckets c) \<le> d"
proof -
  note R = calendar_repD [OF rep] and L = layoutD [OF calendar_repD(2) [OF rep]]
  have n: "0 < nbuckets c" using L(2) by simp
  have i: "cal_ix c k < nbuckets c" using n by (simp add: cal_ix_def)
  have mem: "p \<in> set es" using mem_bucket [OF R(2) i p] by simp
  have w: "0 < width c" by (rule L(3))
  have t: "cal_clock c \<le> ev_time p" "0 \<le> ev_time p" using R(3,5) mem by force+
  have last: "int (lastbucket c) = \<lfloor>cal_clock c / width c\<rfloor> mod int (nbuckets c)"
    using R(4) hash_range [OF w n R(3)] by simp
  have "\<lfloor>ev_time p / width c\<rfloor> mod int (nbuckets c) = int (cal_ix c k)"
    using hash_range(1) [OF w n t(2)] L(5) [OF i p] by simp
  also have "\<dots> = (int (lastbucket c) + int k) mod int (nbuckets c)" by (simp add: cal_ix_def zmod_int)
  also have "\<dots> = (\<lfloor>cal_clock c / width c\<rfloor> + int k) mod int (nbuckets c)" unfolding last by (simp add: mod_add_left_eq)
  finally have "d mod int (nbuckets c) = int k mod int (nbuckets c)" unfolding d_def by (rule mod_shift)
  then have "d mod int (nbuckets c) = int k" using k by simp
  moreover have "0 \<le> d" unfolding d_def using t(1) w by (simp add: floor_mono divide_right_mono)
  ultimately show ?thesis using n by (intro mod_cases) simp_all
qed

text \<open>The bounds tell the two cases apart.\<close>

lemma bound_iff:
  assumes rep: "calendar_rep n c es" and k: "k < nbuckets c - 1" and p: "p \<in> set (b_list (buckets c ! cal_ix c k))"
  shows "ev_time p - cal_clock c < day_bound c k \<longleftrightarrow> \<lfloor>ev_time p / width c\<rfloor> = \<lfloor>cal_clock c / width c\<rfloor> + int k"
proof -
  note L = layoutD [OF calendar_repD(2) [OF rep]]
  define w N t s where "w = width c" and "N = real (nbuckets c)" and "t = ev_time p / width c" and "s = cal_clock c / width c"
  have w: "0 < w" and N: "4 \<le> N" using L(2,3) by (simp_all add: w_def N_def)
  have diff: "ev_time p - cal_clock c = (t - s) * w" using w by (simp add: t_def s_def w_def field_simps)
  have b: "day_bound c k = (if k = 0 then N / 2 else if k = 1 then N / 2 + 1 else N) * w"
    using calendar_repD(2) [OF rep] by (simp add: day_bound_def layout_def N_def w_def algebra_simps)
  have kN: "real k \<le> N - 2" using k by (simp add: N_def)
  have fl: "of_int \<lfloor>t\<rfloor> \<le> t" "t < of_int \<lfloor>t\<rfloor> + 1" "of_int \<lfloor>s\<rfloor> \<le> s" "s < of_int \<lfloor>s\<rfloor> + 1" by linarith+
  have iff: "ev_time p - cal_clock c < day_bound c k \<longleftrightarrow> t - s < (if k = 0 then N / 2 else if k = 1 then N / 2 + 1 else N)"
    unfolding diff b using w by (simp add: mult_less_cancel_right)
  have day: "\<lfloor>t\<rfloor> - \<lfloor>s\<rfloor> = int k \<or> int k + int (nbuckets c) \<le> \<lfloor>t\<rfloor> - \<lfloor>s\<rfloor>"
    using day_of [OF rep _ p] k by (simp add: t_def s_def)
  show ?thesis
  proof (cases "\<lfloor>t\<rfloor> - \<lfloor>s\<rfloor> = int k")
    case True
    then have "of_int \<lfloor>t\<rfloor> - of_int \<lfloor>s\<rfloor> = real k" by (metis of_int_diff of_int_of_nat_eq)
    then have "t - s < real k + 1" using fl by linarith
    then have "t - s < (if k = 0 then N / 2 else if k = 1 then N / 2 + 1 else N)" using N kN by auto
    moreover have "\<lfloor>ev_time p / width c\<rfloor> = \<lfloor>cal_clock c / width c\<rfloor> + int k" using True by (simp add: t_def s_def)
    ultimately show ?thesis using iff by blast
  next
    case False
    then have "int k + int (nbuckets c) \<le> \<lfloor>t\<rfloor> - \<lfloor>s\<rfloor>" using day by blast
    then have "real k + N \<le> of_int \<lfloor>t\<rfloor> - of_int \<lfloor>s\<rfloor>" unfolding N_def by (metis (mono_tags) of_int_diff of_int_le_iff of_int_of_nat_eq of_nat_add)
    then have "real k + N - 1 < t - s" using fl by linarith
    then have "\<not> t - s < (if k = 0 then N / 2 else if k = 1 then N / 2 + 1 else N)" using N by auto
    moreover have "\<lfloor>ev_time p / width c\<rfloor> \<noteq> \<lfloor>cal_clock c / width c\<rfloor> + int k" using False by (simp add: t_def s_def)
    ultimately show ?thesis using iff by blast
  qed
qed


text \<open>The heads of the buckets seen so far: the earliest of them is the candidate.\<close>

definition in_bound :: "'h calendar \<Rightarrow> nat \<times> real \<Rightarrow> bool" where
  "in_bound c x \<longleftrightarrow> (case b_list (buckets c ! fst x) of [] \<Rightarrow> False | e # _ \<Rightarrow> ev_time e - cal_clock c < snd x)"

definition candidate :: "'h calendar \<Rightarrow> nat set \<Rightarrow> (nat \<times> 'h event) option \<Rightarrow> bool" where
  "candidate c I best \<longleftrightarrow>
     (case best of
        None \<Rightarrow> \<forall>i \<in> I. b_list (buckets c ! i) = []
      | Some (l, m) \<Rightarrow> l \<in> I \<and> (\<exists>t. b_list (buckets c ! l) = m # t) \<and>
          (\<forall>i \<in> I. \<forall>h t. b_list (buckets c ! i) = h # t \<longrightarrow> ev_time m \<le> ev_time h))"

lemma candidate_empty: "candidate c I best \<Longrightarrow> b_list (buckets c ! i) = [] \<Longrightarrow> candidate c (insert i I) best"
  by (auto simp: candidate_def split: option.splits)

lemma candidate_keep:
  "candidate c I (Some (l, m)) \<Longrightarrow> b_list (buckets c ! i) = e # t \<Longrightarrow> ev_time m \<le> ev_time e \<Longrightarrow> candidate c (insert i I) (Some (l, m))"
  by (auto simp: candidate_def)

lemma candidate_new:
  assumes "candidate c I best" "b_list (buckets c ! i) = e # t" "case best of None \<Rightarrow> True | Some (l, m) \<Rightarrow> ev_time e \<le> ev_time m"
  shows "candidate c (insert i I) (Some (i, e))"
  using assms by (fastforce simp: candidate_def split: option.splits)

lemma cal_search_none:
  assumes "candidate c I best" "\<forall>x \<in> set ds. \<not> in_bound c x"
  shows "\<exists>n b. cal_search c ds best = (n, b, False) \<and> candidate c (I \<union> fst ` set ds) b"
  using assms
proof (induction ds arbitrary: I best)
  case (Cons x ds)
  obtain i d where x: "x = (i, d)" by (cases x)
  have later: "\<forall>x \<in> set ds. \<not> in_bound c x" using Cons.prems(2) by simp
  show ?case
  proof (cases "b_list (buckets c ! i)")
    case Nil
    from Cons.IH [OF candidate_empty [OF Cons.prems(1) Nil] later] obtain n b where
      "cal_search c ds best = (n, b, False)" "candidate c (insert i I \<union> fst ` set ds) b" by blast
    then show ?thesis using Nil x by simp
  next
    case (Cons e t)
    have "\<not> ev_time e - cal_clock c < d" using Cons.prems(2) x Cons by (simp add: in_bound_def)
    define best' where
      "best' = (case best of None \<Rightarrow> Some (i, e) | Some (l, m) \<Rightarrow> if ev_time e < ev_time m then Some (i, e) else Some (l, m))"
    have "candidate c (insert i I) best'"
    proof (cases best)
      case None
      then show ?thesis using candidate_new [OF Cons.prems(1) Cons] by (simp add: best'_def)
    next
      case (Some p)
      obtain l m where p: "p = (l, m)" by (cases p)
      show ?thesis
      proof (cases "ev_time e < ev_time m")
        case True
        then show ?thesis using candidate_new [OF Cons.prems(1) Cons] Some p by (simp add: best'_def)
      next
        case False
        then show ?thesis using candidate_keep [of c I l m i e t] Cons.prems(1) Cons Some p by (simp add: best'_def)
      qed
    qed
    from Cons.IH [OF this later] obtain n b where
      "cal_search c ds best' = (n, b, False)" "candidate c (insert i I \<union> fst ` set ds) b" by blast
    then show ?thesis using Cons x \<open>\<not> ev_time e - cal_clock c < d\<close> unfolding best'_def by simp
  qed
qed simp

lemma cal_search_found:
  assumes "\<forall>x \<in> set xs. \<not> in_bound c x" "b_list (buckets c ! i) = e # t" "ev_time e - cal_clock c < d"
  shows "\<exists>n. cal_search c (xs @ (i, d) # ys) best = (n, Some (i, e), True)"
  using assms(1)
proof (induction xs arbitrary: best)
  case Nil
  then show ?case using assms(2,3) by simp
next
  case (Cons x xs)
  obtain j dj where x: "x = (j, dj)" by (cases x)
  have later: "\<forall>x \<in> set xs. \<not> in_bound c x" using Cons.prems by simp
  show ?case
  proof (cases "b_list (buckets c ! j)")
    case Nil
    obtain n where "cal_search c (xs @ (i, d) # ys) best = (n, Some (i, e), True)" using Cons.IH [OF later, of best] by blast
    then show ?thesis using Nil x by simp
  next
    case (Cons h r)
    define best' where
      "best' = (case best of None \<Rightarrow> Some (j, h) | Some (l, m) \<Rightarrow> if ev_time h < ev_time m then Some (j, h) else Some (l, m))"
    obtain n where "cal_search c (xs @ (i, d) # ys) best' = (n, Some (i, e), True)" using Cons.IH [OF later, of best'] by blast
    moreover have "\<not> ev_time h - cal_clock c < dj" using Cons.prems x Cons by (simp add: in_bound_def)
    ultimately show ?thesis using Cons x unfolding best'_def by simp
  qed
qed

text \<open>The search returns the first event of the queue, which is the head of its bucket.\<close>

lemma head_found:
  assumes rep: "calendar_rep n c es" and k: "k < nbuckets c - 1" "b_list (buckets c ! cal_ix c k) = e # r"
    and day: "\<lfloor>ev_time e / width c\<rfloor> = \<lfloor>cal_clock c / width c\<rfloor> + int k"
    and earlier: "\<forall>x \<in> set (map (\<lambda>k. (cal_ix c k, day_bound c k)) [0..<k]). \<not> in_bound c x"
  shows "list_head es = Some e"
proof -
  note R = calendar_repD [OF rep] and L = layoutD [OF calendar_repD(2) [OF rep]]
  have w: "0 < width c" by (rule L(3))
  have N: "4 \<le> nbuckets c" by (rule L(2))
  have last: "lastbucket c < nbuckets c"
    using R(4) hash_range(2,3) [of c "cal_clock c"] L(2,3) R(3) by (simp add: nat_less_iff)
  show ?thesis
  proof (rule head_first [OF rep _ k(2)])
    show "cal_ix c k < nbuckets c" using N by (simp add: cal_ix_def)
    fix i h t
    assume i: "i < nbuckets c" "i \<noteq> cal_ix c k" "b_list (buckets c ! i) = h # t"
    obtain j where j: "j < nbuckets c" "cal_ix c j = i" using ix_surj [OF i(1) last] by blast
    have h: "h \<in> set (b_list (buckets c ! cal_ix c j))" using i(3) j(2) by simp
    have "j \<noteq> k" using i(2) j(2) by blast
    have "\<lfloor>ev_time e / width c\<rfloor> < \<lfloor>ev_time h / width c\<rfloor>"
    proof (cases "j < k")
      case True
      then have "\<not> in_bound c (cal_ix c j, day_bound c j)" using earlier by simp
      then have "\<not> ev_time h - cal_clock c < day_bound c j" using i(3) j(2) by (simp add: in_bound_def)
      then have "\<lfloor>ev_time h / width c\<rfloor> \<noteq> \<lfloor>cal_clock c / width c\<rfloor> + int j" using bound_iff [OF rep _ h] True k(1) by simp
      then show ?thesis using day_of [OF rep j(1) h] day k(1) by linarith
    next
      case False
      then show ?thesis using day_of [OF rep j(1) h] day \<open>j \<noteq> k\<close> by linarith
    qed
    then have "ev_time e / width c < ev_time h / width c" by linarith
    then show "ev_time e \<le> ev_time h" using w by (simp add: divide_less_cancel)
  qed
qed


lemma lastbucket_range:
  assumes rep: "calendar_rep n c es"
  shows "lastbucket c < nbuckets c"
  using calendar_repD(3,4) [OF rep] hash_range(2,3) [of c "cal_clock c"] layoutD(2,3) [OF calendar_repD(2) [OF rep]]
  by (simp add: nat_less_iff)

text \<open>The bucket before the current one is the last in the order of the search.\<close>

lemma last_ix: "lastbucket c < nbuckets c \<Longrightarrow> (if lastbucket c \<noteq> 0 then lastbucket c - 1 else nbuckets c - 1) = cal_ix c (nbuckets c - 1)"
  by (cases "lastbucket c") (simp_all add: cal_ix_def mod_if)

lemma all_ix:
  assumes "lastbucket c < nbuckets c"
  shows "insert (cal_ix c (nbuckets c - 1)) (fst ` set (map (\<lambda>k. (cal_ix c k, day_bound c k)) [0..<nbuckets c - 1])) = {0..<nbuckets c}"
proof -
  have "insert (cal_ix c (nbuckets c - 1)) (fst ` set (map (\<lambda>k. (cal_ix c k, day_bound c k)) [0..<nbuckets c - 1])) = cal_ix c ` insert (nbuckets c - 1) {0..<nbuckets c - 1}"
    by (simp add: image_image)
  also have "insert (nbuckets c - 1) {0..<nbuckets c - 1} = {0..<nbuckets c}" using assms by auto
  also have "cal_ix c ` {0..<nbuckets c} = {0..<nbuckets c}"
  proof
    show "cal_ix c ` {0..<nbuckets c} \<subseteq> {0..<nbuckets c}" using assms by (auto simp: cal_ix_def)
    show "{0..<nbuckets c} \<subseteq> cal_ix c ` {0..<nbuckets c}"
    proof
      fix i
      assume "i \<in> {0..<nbuckets c}"
      then obtain k where "k < nbuckets c" "cal_ix c k = i" using ix_surj [OF _ assms, of i] by auto
      then show "i \<in> cal_ix c ` {0..<nbuckets c}" by force
    qed
  qed
  finally show ?thesis .
qed

lemma head_candidate:
  assumes rep: "calendar_rep n c es" and best: "candidate c {0..<nbuckets c} best" and es: "es \<noteq> []"
  shows "\<exists>l e r. best = Some (l, e) \<and> l < nbuckets c \<and> b_list (buckets c ! l) = e # r \<and> list_head es = Some e"
proof (cases best)
  case None
  obtain e where "e \<in> set es" using es by (cases es) auto
  then show ?thesis using bucket_of [OF calendar_repD(2) [OF rep], of e] best None by (auto simp: candidate_def)
next
  case (Some p)
  obtain l e where p: "p = (l, e)" by (cases p)
  then obtain r where l: "l < nbuckets c" "b_list (buckets c ! l) = e # r" using best Some by (auto simp: candidate_def)
  have "list_head es = Some e" using best Some p by (intro head_first [OF rep l]) (simp add: candidate_def)
  then show ?thesis using Some p l by blast
qed

lemma first_split:
  assumes "\<exists>x \<in> set xs. P x"
  shows "\<exists>ys x zs. xs = ys @ x # zs \<and> P x \<and> (\<forall>y \<in> set ys. \<not> P y)"
  using split_list_first_prop [OF assms] by blast

lemma upt_split:
  assumes "[0..<n] = ys @ k # zs"
  shows "ys = [0..<k] \<and> k < n"
proof -
  have n: "length ys < n" using arg_cong [OF assms, of length] by simp
  have "[0..<n] ! length ys = k" unfolding assms by simp
  then have k: "k = length ys" using n by simp
  have "take (length ys) [0..<n] = ys" unfolding assms by simp
  then show ?thesis using n k by simp
qed

lemma head_spec:
  assumes rep: "calendar_rep n c es" and es: "es \<noteq> []"
  shows "\<exists>l e r m. calendar_head c = Some (Some e, c\<lparr>lastbucket := l, cal_clock := ev_time e, head_search := m\<rparr>) \<and>
    l < nbuckets c \<and> b_list (buckets c ! l) = e # r \<and> list_head es = Some e"
proof -
  note L = layoutD [OF calendar_repD(2) [OF rep]]
  have last: "lastbucket c < nbuckets c" by (rule lastbucket_range [OF rep])
  have size: "cal_qsize c \<noteq> 0" using L(8) es by simp
  let ?f = "\<lambda>k. (cal_ix c k, day_bound c k)"
  have order: "search_order c = map ?f [0..<nbuckets c - 1]" by (rule search_order_eq [OF L(2)])
  show ?thesis
  proof (cases "\<exists>k \<in> set [0..<nbuckets c - 1]. in_bound c (?f k)")
    case True
    obtain ys k zs where split: "[0..<nbuckets c - 1] = ys @ k # zs" "in_bound c (?f k)" "\<forall>y \<in> set ys. \<not> in_bound c (?f y)"
      using first_split [OF True] by blast
    have ys: "ys = [0..<k]" "k < nbuckets c - 1" using upt_split [OF split(1)] by simp_all
    note k = ys(2)
    obtain e r where b: "b_list (buckets c ! cal_ix c k) = e # r" "ev_time e - cal_clock c < day_bound c k"
      using split(2) by (auto simp: in_bound_def split: list.splits)
    have "\<lfloor>ev_time e / width c\<rfloor> = \<lfloor>cal_clock c / width c\<rfloor> + int k"
      using bound_iff [OF rep k, of e] b by simp
    then have first: "list_head es = Some e"
      using split(3) ys(1) by (intro head_found [OF rep k b(1)]) auto
    have "\<exists>m. cal_search c (search_order c) None = (m, Some (cal_ix c k, e), True)"
      unfolding order split(1) map_append list.map using cal_search_found [of "map ?f ys" c "cal_ix c k" e r "day_bound c k"] split(3) b by auto
    then obtain m where "cal_search c (search_order c) None = (m, Some (cal_ix c k, e), True)" by blast
    then have "calendar_head c = Some (Some e, c\<lparr>lastbucket := cal_ix c k, cal_clock := ev_time e, head_search := head_search c + m\<rparr>)"
      using size by (simp add: calendar_head_def)
    moreover have "cal_ix c k < nbuckets c" using L(2) by (simp add: cal_ix_def)
    ultimately show ?thesis using first b(1) by blast
  next
    case False
    then have none: "\<forall>x \<in> set (search_order c). \<not> in_bound c x" unfolding order by simp
    obtain m best where search: "cal_search c (search_order c) None = (m, best, False)"
      "candidate c ({} \<union> fst ` set (search_order c)) best"
      using cal_search_none [OF _ none, of "{}" None] by (auto simp: candidate_def)
    define lst where "lst = cal_ix c (nbuckets c - 1)"
    define best' where "best' = (case (best, b_list (buckets c ! lst)) of (_, []) \<Rightarrow> best | (None, e # _) \<Rightarrow> Some (lst, e)
        | (Some (l, m), e # _) \<Rightarrow> if ev_time m < ev_time e then best else Some (lst, e))"
    have "candidate c (insert lst (fst ` set (search_order c))) best'"
    proof (cases "b_list (buckets c ! lst)")
      case Nil
      then have "best' = best" by (simp add: best'_def split: option.splits)
      then show ?thesis using candidate_empty [OF _ Nil, of "fst ` set (search_order c)"] search(2) by simp
    next
      case (Cons e r)
      show ?thesis
      proof (cases "\<exists>l m. best = Some (l, m) \<and> ev_time m < ev_time e")
        case True
        then obtain l m where best: "best = Some (l, m)" "ev_time m < ev_time e" by blast
        then have "best' = Some (l, m)" using Cons by (simp add: best'_def)
        then show ?thesis using candidate_keep [of c "fst ` set (search_order c)" l m lst e r] search(2) best Cons by simp
      next
        case new: False
        then have "best' = Some (lst, e)" using Cons by (auto simp: best'_def split: option.splits)
        moreover have "case best of None \<Rightarrow> True | Some (l, m) \<Rightarrow> ev_time e \<le> ev_time m" using new by (auto split: option.splits)
        ultimately show ?thesis using candidate_new [OF _ Cons, of "fst ` set (search_order c)" best] search(2) by simp
      qed
    qed
    then have "candidate c {0..<nbuckets c} best'" using all_ix [OF last] unfolding order lst_def by simp
    then obtain l e r where best': "best' = Some (l, e)" "l < nbuckets c" "b_list (buckets c ! l) = e # r" "list_head es = Some e"
      using head_candidate [OF rep _ es] by blast
    have "calendar_head c = (case best' of None \<Rightarrow> None
        | Some (l, e) \<Rightarrow> Some (Some e, c\<lparr>lastbucket := l, cal_clock := ev_time e, head_search := head_search c + m\<rparr>))"
      unfolding calendar_head_def Let_def last_ix [OF last] search(1) prod.case if_False best'_def lst_def using size by (simp only: if_False)
    then show ?thesis using best' by auto
  qed
qed


lemma rep_head:
  assumes rep: "calendar_rep n c es" and es: "list_head es = Some e" and l: "l < nbuckets c" "b_list (buckets c ! l) = e # r"
  shows "calendar_rep k (c\<lparr>lastbucket := l, cal_clock := ev_time e, head_search := m\<rparr>) es"
proof -
  note R = calendar_repD [OF rep]
  have "CALENDAR_HASH c (ev_time e) = int l" using layoutD(5) [OF R(2) l(1), of e] l(2) by simp
  moreover obtain es' where "es = e # es'" using es by (cases es) (simp_all add: list_head_def)
  moreover from this have "\<forall>p \<in> set es. ev_time e \<le> ev_time p" "0 \<le> ev_time e"
    using R(1) before_time by (auto simp: queue_ok_Cons)
  ultimately show ?thesis using R(1,2) by (simp add: calendar_rep_def)
qed

lemma head_ok:
  assumes rep: "calendar_rep n c es"
  shows "\<exists>c'. calendar_head c = Some (list_head es, c') \<and> calendar_rep n c' es"
proof (cases "es = []")
  case True
  then have "cal_qsize c = 0" using layoutD(8) [OF calendar_repD(2) [OF rep]] by simp
  then show ?thesis using rep True by (simp add: calendar_head_def list_head_def)
next
  case False
  then show ?thesis using head_spec [OF rep False] rep_head [OF rep] by fastforce
qed

subsection \<open>Insertion and removal\<close>

text \<open>A resized calendar that was in order but for its current bucket is in order.\<close>

lemma resized_rep:
  assumes c': "resized c (mset es) (cal_clock c) c'" and es: "queue_ok es" "0 \<le> cal_clock c" "\<forall>e \<in> set es. cal_clock c \<le> ev_time e"
  shows "calendar_rep n c' es"
  using assms by (simp add: resized_def calendar_rep_def)

lemma resize_rep:
  assumes rep: "calendar_rep n c es" and m: "0 < m"
  shows "\<exists>c'. resize m (cal_clock c) c = Some c' \<and> calendar_rep k c' es \<and> cal_clock c' = cal_clock c"
proof -
  note R = calendar_repD [OF rep]
  obtain c' where c': "resize m (cal_clock c) c = Some c'" "resized c (mset es) (cal_clock c) c'" using resize_ok [OF R(2,6) m R(4)] by blast
  then show ?thesis using resized_rep [OF c'(2) R(1,3)] R(5) by (auto simp: resized_def)
qed

lemma set_mset_list_insert: "mset (list_insert e es) = add_mset e (mset es)"
  by (induction es) auto

lemma calendar_insert_ok:
  assumes rep: "calendar_rep (Suc n) c es" and e: "fresh e es"
  shows "\<exists>c'. calendar_insert e c = Some c' \<and> calendar_rep n c' (list_insert e es)"
proof -
  define c0 where "c0 = (if ev_time e < cal_clock c
    then c\<lparr>cal_clock := ev_time e, lastbucket := nat (CALENDAR_HASH c (ev_time e))\<rparr> else c)"
  have t: "0 \<le> ev_time e" using e by (simp add: fresh_def)
  have R: "queue_ok es" "layout c0 (mset es)" "0 \<le> cal_clock c0" "lastbucket c0 = nat (CALENDAR_HASH c0 (cal_clock c0))"
    "\<forall>p \<in> set (list_insert e es). cal_clock c0 \<le> ev_time p"
    using calendar_repD [OF rep] t by (cases "ev_time e < cal_clock c"; force simp: c0_def)+
  let ?i = "nat (CALENDAR_HASH c0 (ev_time e))"
  have i: "bucket_at c0 (CALENDAR_HASH c0 (ev_time e)) = Some (buckets c0 ! ?i)" "?i < nbuckets c0" "0 \<le> CALENDAR_HASH c0 (ev_time e)"
    using bucket_at_hash [OF R(2) t] hash_range(2) [of c0 "ev_time e"] layoutD(2,3) [OF R(2)] t by simp_all
  have below: "\<forall>p \<in> set (b_list (buckets c0 ! ?i)). ev_uid p < ev_uid e"
    using mem_bucket [OF R(2) i(2)] e by (simp add: fresh_def)
  obtain b unique s where b: "bucket_insert e (buckets c0 ! ?i) = (b, unique, s)" "bucket_ok b"
    "mset (b_list b) = add_mset e (mset (b_list (buckets c0 ! ?i)))" "b_count b = b_count (buckets c0 ! ?i) + (if unique then 1 else 0)"
    using bucket_insert_ok [OF layoutD(4) [OF R(2) i(2)] below] by (elim exE conjE) (rule that, assumption+)
  define c1 where "c1 = c0\<lparr>buckets := (buckets c0)[?i := b], stat_qsize := stat_qsize c0 + (if unique then 1 else 0),
    insert_search := insert_search c0 + s, cal_qsize := cal_qsize c0 + 1\<rparr>"
  have shape: "same_shape c0 c1" by (simp add: same_shape_def c1_def)
  have hashed: "\<forall>p \<in> set (b_list b). CALENDAR_HASH c0 (ev_time p) = int ?i" by (rule hashed_insert [OF R(2) i(2,3) b(3)])
  have "layout c1 (mset (list_insert e es))"
    using b hashed layoutD(8) [OF R(2)] by (intro layout_update [OF R(2) i(2) shape, of b]) (simp_all add: c1_def set_mset_list_insert)
  moreover have "CALENDAR_HASH c1 x = CALENDAR_HASH c0 x" "cal_clock c1 = cal_clock c0" "lastbucket c1 = lastbucket c0" for x
    by (simp_all add: CALENDAR_HASH_def c1_def)
  ultimately have rep1: "calendar_rep n c1 (list_insert e es)"
    using R queue_ok_insert [OF R(1) e] by (simp add: calendar_rep_def)
  have "calendar_insert e c = (if top_threshold c1 < stat_qsize c1 then resize (2 * nbuckets c1) (cal_clock c1) c1 else Some c1)"
    using i(1) b(1) by (simp add: calendar_insert_def c0_def [symmetric] c1_def Let_def)
  then show ?thesis using rep1 resize_rep [OF rep1, of "2 * nbuckets c1" n] layoutD(2) [OF calendar_repD(2) [OF rep1]] by auto
qed


lemma rep_stats [simp]:
  "calendar_rep n (c\<lparr>head_search := k\<rparr>) es = calendar_rep n c es" "calendar_rep n (c\<lparr>insert_search := k\<rparr>) es = calendar_rep n c es"
  "calendar_rep n (c\<lparr>round_num := i\<rparr>) es = calendar_rep n c es" "calendar_rep n (c\<lparr>gap_num := i\<rparr>) es = calendar_rep n c es"
  "calendar_rep n (c\<lparr>last_time := x\<rparr>) es = calendar_rep n c es" "calendar_rep n (c\<lparr>avg_gap := x\<rparr>) es = calendar_rep n c es"
  by (simp_all add: calendar_rep_def)

lemma adjust_width_ok:
  assumes rep: "calendar_rep n c es"
  shows "\<exists>c'. adjust_width e c = Some c' \<and> calendar_rep n c' es \<and> cal_clock c' = cal_clock c"
proof -
  define c1 where "c1 = c\<lparr>avg_gap := (ev_time e - last_time c) / of_int (gap_num c + 1), gap_num := 0, last_time := ev_time e,
    round_num := round_num c + 1\<rparr>"
  have rep1: "calendar_rep n c1 es" "cal_clock c1 = cal_clock c" using rep by (simp_all add: c1_def)
  obtain c2 where c2: "resize (nbuckets c1) (cal_clock c1) c1 = Some c2" "calendar_rep n c2 es" "cal_clock c2 = cal_clock c1"
    using resize_rep [OF rep1(1), of "nbuckets c1" n] layoutD(2) [OF calendar_repD(2) [OF rep1(1)]] by auto
  have "adjust_width e c =
     (if adjust_new_width_interval c = 0 then Some c
      else if last_time c < 0 then Some (c\<lparr>last_time := ev_time e\<rparr>)
      else if gap_num c + 1 < cal_qsize c then Some (c\<lparr>gap_num := gap_num c + 1\<rparr>)
      else if 20 < round_num c1 \<and> (2 * insert_search c1 < head_search c1 \<or> 2 * head_search c1 < insert_search c1)
      then map_option (round_num_update (\<lambda>_. 0)) (resize (nbuckets c1) (cal_clock c1) c1)
      else if 100 < round_num c1 then Some (c1\<lparr>round_num := 0, head_search := 0, insert_search := 0\<rparr>) else Some c1)"
    by (simp add: adjust_width_def c1_def Let_def) blast
  then show ?thesis using rep rep1 c2 by simp
qed

lemma head_of_bucket:
  assumes rep: "calendar_rep n c es" and es: "es = e # es'"
  shows "nat (CALENDAR_HASH c (ev_time e)) < nbuckets c \<and> (\<exists>r. b_list (buckets c ! nat (CALENDAR_HASH c (ev_time e))) = e # r)"
proof -
  note R = calendar_repD [OF rep]
  obtain i where i: "i < nbuckets c" "CALENDAR_HASH c (ev_time e) = int i" "e \<in> set (b_list (buckets c ! i))"
    using bucket_of [OF R(2), of e] es by auto
  obtain h r where h: "b_list (buckets c ! i) = h # r" using i(3) by (cases "b_list (buckets c ! i)") auto
  have "h \<in> set es" using mem_bucket [OF R(2) i(1), of h] h by simp
  then have "h = e \<or> before e h" using R(1) es by (auto simp: queue_ok_Cons)
  moreover have "h = e \<or> before h e" using layoutD(4) [OF R(2) i(1)] h i(3) by (auto simp: bucket_ok_def)
  ultimately have "h = e" using before_antisym by blast
  then show ?thesis using i h by simp
qed

text \<open>The change of the bucket of an event that leaves the queue.\<close>

lemma remove_rep:
  assumes rep: "calendar_rep n c es" and e: "e \<in> set es" and i: "i = nat (CALENDAR_HASH c (ev_time e))"
    and b: "bucket_ok b" "add_mset e (mset (b_list b)) = mset (b_list (buckets c ! i))"
      "b_count b = b_count (buckets c ! i) - (if unique then 1 else 0)"
  defines "c' \<equiv> c\<lparr>buckets := (buckets c)[i := b], stat_qsize := stat_qsize c - (if unique then 1 else 0), cal_qsize := cal_qsize c - 1\<rparr>"
  shows "calendar_rep n c' (remove1 e es)"
proof -
  note R = calendar_repD [OF rep]
  have i': "i < nbuckets c" using bucket_at_hash [OF R(2)] R(6) e i by auto
  define M where "M = mset (remove1 e es)"
  have M: "mset es = add_mset e M" using e by (simp add: M_def)
  have shape: "same_shape c c'" by (simp add: same_shape_def c'_def)
  have "set (b_list b) \<subseteq> set (b_list (buckets c ! i))"
    using b(2) by (metis set_mset_add_mset_insert set_mset_mset subset_insertI)
  then have "\<forall>p \<in> set (b_list b). CALENDAR_HASH c (ev_time p) = int i" using layoutD(5) [OF R(2) i'] by blast
  moreover have "M + mset (b_list (buckets c ! i)) = mset es + mset (b_list b)"
    unfolding b(2) [symmetric] M by simp
  moreover have "cal_qsize c - 1 = int (size M)" using layoutD(8) [OF R(2)] M by simp
  ultimately have "layout c' M"
    using b(1,3) by (intro layout_update [OF R(2) i' shape, of b]) (simp_all add: c'_def)
  moreover have "CALENDAR_HASH c' x = CALENDAR_HASH c x" "cal_clock c' = cal_clock c" "lastbucket c' = lastbucket c" for x
    by (simp_all add: CALENDAR_HASH_def c'_def)
  ultimately show ?thesis
    using R(1,3,4,5) queue_ok_remove1 [OF R(1)] set_remove1_subset [of e es]
    by (auto simp: calendar_rep_def M_def)
qed

lemma deque_ok:
  assumes rep: "calendar_rep n c es"
  shows "\<exists>c'. calendar_deque c = Some (list_head es, c') \<and> calendar_rep n c' (tl es)"
proof (cases es)
  case Nil
  then show ?thesis using head_ok [OF rep] by (fastforce simp: calendar_deque_def list_head_def)
next
  case (Cons e es')
  obtain c1 where c1: "calendar_head c = Some (Some e, c1)" "calendar_rep n c1 es" "cal_clock c1 = ev_time e"
    using head_spec [OF rep] rep_head [OF rep] Cons by (fastforce simp: list_head_def)
  obtain c2 where c2: "adjust_width e c1 = Some c2" "calendar_rep n c2 es" "cal_clock c2 = ev_time e"
    using adjust_width_ok [OF c1(2), of e] c1(3) by auto
  have l: "lastbucket c2 = nat (CALENDAR_HASH c2 (ev_time e))" using calendar_repD(4) [OF c2(2)] c2(3) by simp
  obtain r where r: "lastbucket c2 < nbuckets c2" "b_list (buckets c2 ! lastbucket c2) = e # r"
    using head_of_bucket [OF c2(2) Cons] l by auto
  note L = layoutD [OF calendar_repD(2) [OF c2(2)]]
  obtain b unique where b: "bucket_deque e (buckets c2 ! lastbucket c2) = Some (b, unique)" "bucket_ok b" "b_list b = r"
    "b_count b = b_count (buckets c2 ! lastbucket c2) - (if unique then 1 else 0)"
    using bucket_deque_ok [OF L(4) [OF r(1)] r(2)] by (elim exE conjE) (rule that, assumption+)
  define c3 where "c3 = c2\<lparr>buckets := (buckets c2)[lastbucket c2 := b], stat_qsize := stat_qsize c2 - (if unique then 1 else 0),
    cal_qsize := cal_qsize c2 - 1\<rparr>"
  have "e \<in> set es" using Cons by simp
  then have rep3: "calendar_rep n c3 es'"
    using remove_rep [OF c2(2) _ l b(2) _ b(4)] b(3) r(2) Cons by (simp add: c3_def)
  have at: "bucket_at c2 (int (lastbucket c2)) = Some (buckets c2 ! lastbucket c2)" using r(1) L(1) by (simp add: bucket_at_def)
  have "calendar_deque c =
      do { c \<leftarrow> (if stat_qsize c3 < bot_threshold c3 then resize (nbuckets c3 div 2) (cal_clock c3) c3 else Some c3); Some (Some e, c) }"
    using c1(1) c2(1) at b(1) by (simp add: calendar_deque_def c3_def Let_def)
  moreover have "0 < nbuckets c3 div 2" using layoutD(2) [OF calendar_repD(2) [OF rep3]] by simp
  ultimately show ?thesis using rep3 resize_rep [OF rep3, of "nbuckets c3 div 2" n] Cons by (auto simp: list_head_def)
qed

lemma stat_nonneg:
  assumes "layout c M"
  shows "0 \<le> stat_qsize c"
  using assms by (auto simp: layout_def list_all_iff bucket_ok_def intro!: sum_list_nonneg)

lemma cancel_ok:
  assumes rep: "calendar_rep n c es" and e: "e \<in> set es"
  shows "\<exists>c'. calendar_cancel e c = Some c' \<and> calendar_rep n c' (remove1 e es)"
proof -
  note R = calendar_repD [OF rep]
  obtain i where i: "i < nbuckets c" "CALENDAR_HASH c (ev_time e) = int i" "e \<in> set (b_list (buckets c ! i))"
    using bucket_of [OF R(2), of e] e by auto
  have same: "\<forall>p \<in> set (b_list (buckets c ! i)). ev_uid p = ev_uid e \<longrightarrow> p = e"
    using mem_bucket [OF R(2) i(1)] queue_ok_uid_inj [OF R(1)] e by simp
  obtain b unique where b: "bucket_cancel e (buckets c ! i) = Some (b, unique)" "bucket_ok b"
    "add_mset e (mset (b_list b)) = mset (b_list (buckets c ! i))" "b_count b = b_count (buckets c ! i) - (if unique then 1 else 0)"
    using bucket_cancel_ok [OF layoutD(4) [OF R(2) i(1)] i(3) same] by (elim exE conjE) (rule that, assumption+)
  define c1 where "c1 = c\<lparr>buckets := (buckets c)[i := b], stat_qsize := stat_qsize c - (if unique then 1 else 0),
    cal_qsize := cal_qsize c - 1\<rparr>"
  have rep1: "calendar_rep n c1 (remove1 e es)" unfolding c1_def by (rule remove_rep [OF rep e _ b(2-4)]) (simp add: i(2))
  have "0 < ev_uid e" using R(1) e by (auto simp: queue_ok_def)
  moreover have "bucket_at c (int i) = Some (buckets c ! i)" using i(1) layoutD(1) [OF R(2)] by (simp add: bucket_at_def)
  moreover have "\<not> stat_qsize c - (if unique then 1 else 0) < 0"
    using stat_nonneg [OF calendar_repD(2) [OF rep1]] by (simp add: c1_def)
  ultimately have "calendar_cancel e c = Some c1"
    unfolding calendar_cancel_def i(2) c1_def using b(1) by (simp add: Let_def)
  then show ?thesis using rep1 by blast
qed

lemma lookup_ok:
  assumes rep: "calendar_rep n c es"
  shows "calendar_lookup u c = list_lookup u es"
proof -
  note R = calendar_repD [OF rep]
  have "mset (concat (map b_list (buckets c))) = mset es" using layoutD(6) [OF R(2)] by (simp add: all_events_def)
  then have "set (concat (map b_list (buckets c))) = set es" by (rule mset_eq_setD)
  then show ?thesis unfolding calendar_lookup_def by (rule list_lookup_find [OF R(1)])
qed

lemma calendar_rep_mono: "calendar_rep (Suc n) c es \<Longrightarrow> calendar_rep n c es"
  by (simp add: calendar_rep_def)

interpretation calendar_queue: event_queue calendar_scheduler calendar_rep
proof unfold_locales
  fix n :: nat and q es and e :: "'a event"
  assume "calendar_rep n q es" "e \<in> set es"
  then show "\<exists>q'. op_cancel calendar_scheduler e q = Some q' \<and> calendar_rep n q' (remove1 e es)"
    using cancel_ok by (simp add: calendar_scheduler_def)
qed (auto simp: calendar_scheduler_def calendar_insert_ok deque_ok head_ok lookup_ok dest: calendar_repD(1) calendar_rep_mono)

lemma calendar_rep_new: "calendar_rep n (new_calendar raw) []"
proof -
  have clock: "cal_clock (new_calendar raw) = 0" by (simp add: new_calendar_def reinit_def Let_def)
  have "layout (new_calendar raw) {#}" by (simp add: new_calendar_def Let_def reinit_layout)
  moreover have "lastbucket (new_calendar raw) = nat (CALENDAR_HASH (new_calendar raw) 0)"
    by (simp add: new_calendar_def reinit_def Let_def CALENDAR_HASH_def)
  ultimately show ?thesis using clock by (simp add: calendar_rep_def)
qed


subsection \<open>The scheduler\<close>



end
