(* ===== verification/Simulator.thy ===== *)
theory Simulator
  imports Heap_Queue Splay_Queue Calendar_Search
begin

section \<open>The simulation loop (\<open>common/scheduler.cc\<close>)\<close>

text \<open>
  \<open>Scheduler\<close> numbers the events, puts them into the queue and dispatches them: the clock moves to the time of the event and its handler
  runs, which may schedule and cancel events and halt the simulation. Every other part of the simulator is such a handler, so they are a
  parameter: what a handler does with the scheduler, and the rest of the state, as functions of the event, of the next number and of the state. The
  queue is the table of \<open>Event_Queue\<close>. The argument \<open>um\<close> is the largest \<open>scheduler_uid_t\<close>: the type has 64 bits where the platform has them
  and is \<open>int\<close> otherwise.
\<close>

subsection \<open>State\<close>

datatype sched_error = Null_Handler | Uid_Not_Valid | Uid_Exhausted | Going_Backwards | Queue_Failed

datatype 'h action = Schedule "'h option" int real | Cancel_Event int | Halt

record ('q, 'w) sim =
  sim_clock :: real
  sim_halted :: bool
  sim_uid :: int
  sim_queue :: 'q
  sim_world :: 'w

type_synonym ('h, 'w) handlers = "'h event \<Rightarrow> int \<Rightarrow> 'w \<Rightarrow> 'h action list \<times> 'w"

definition new_sim :: "'q \<Rightarrow> 'w \<Rightarrow> ('q, 'w) sim" where
  "new_sim q w = \<lparr>sim_clock = 0, sim_halted = False, sim_uid = 1, sim_queue = q, sim_world = w\<rparr>"

definition uid_succ :: "int \<Rightarrow> int \<Rightarrow> int" where
  "uid_succ um u = (if u = um then - um - 1 else u + 1)"

subsection \<open>Operations\<close>

text \<open>The second argument of the event is its number before the call. A negative delay is reported, and goes on.\<close>

definition schedule :: "int \<Rightarrow> ('h, 'q) sched_ops \<Rightarrow> 'h option \<Rightarrow> int \<Rightarrow> real \<Rightarrow> ('q, 'w) sim \<Rightarrow> sched_error + ('q, 'w) sim" where
  "schedule um ops h u delay s =
     (case h of
        None \<Rightarrow> Inl Null_Handler
      | Some h \<Rightarrow>
          if 0 < u then Inl Uid_Not_Valid
          else if sim_uid s < 0 then Inl Uid_Exhausted
          else case op_insert ops \<lparr>ev_uid = sim_uid s, ev_time = sim_clock s + delay, ev_handler = h\<rparr> (sim_queue s) of
                 None \<Rightarrow> Inl Queue_Failed
               | Some q \<Rightarrow> Inr (s\<lparr>sim_uid := uid_succ um (sim_uid s), sim_queue := q\<rparr>))"

definition cancel_event :: "('h, 'q) sched_ops \<Rightarrow> int \<Rightarrow> ('q, 'w) sim \<Rightarrow> sched_error + ('q, 'w) sim" where
  "cancel_event ops u s =
     (case cancel_uid ops u (sim_queue s) of None \<Rightarrow> Inl Queue_Failed | Some q \<Rightarrow> Inr (s\<lparr>sim_queue := q\<rparr>))"

fun perform :: "int \<Rightarrow> ('h, 'q) sched_ops \<Rightarrow> 'h action list \<Rightarrow> ('q, 'w) sim \<Rightarrow> sched_error + ('q, 'w) sim" where
  "perform um ops [] s = Inr s"
| "perform um ops (a # as) s =
     (case (case a of Schedule h u d \<Rightarrow> schedule um ops h u d s | Cancel_Event u \<Rightarrow> cancel_event ops u s | Halt \<Rightarrow> Inr (s\<lparr>sim_halted := True\<rparr>)) of
        Inl x \<Rightarrow> Inl x | Inr s \<Rightarrow> perform um ops as s)"

text \<open>The handler gets the event with its number negated.\<close>

definition dispatch ::
  "int \<Rightarrow> ('h, 'q) sched_ops \<Rightarrow> ('h, 'w) handlers \<Rightarrow> 'h event \<Rightarrow> ('q, 'w) sim \<Rightarrow> sched_error + ('q, 'w) sim" where
  "dispatch um ops handle e s =
     (if ev_time e < sim_clock s then Inl Going_Backwards
      else let (as, w) = handle (e\<lparr>ev_uid := - ev_uid e\<rparr>) (sim_uid s) (sim_world s)
           in perform um ops as (s\<lparr>sim_clock := ev_time e, sim_world := w\<rparr>))"

text \<open>At most \<open>n\<close> rounds of the loop, with the events that were dispatched.\<close>

fun run_sim ::
  "int \<Rightarrow> ('h, 'q) sched_ops \<Rightarrow> ('h, 'w) handlers \<Rightarrow> nat \<Rightarrow> ('q, 'w) sim \<Rightarrow> sched_error + 'h event list \<times> ('q, 'w) sim" where
  "run_sim um ops handle 0 s = Inr ([], s)"
| "run_sim um ops handle (Suc n) s =
     (if sim_halted s then Inr ([], s)
      else case op_deque ops (sim_queue s) of
             None \<Rightarrow> Inl Queue_Failed
           | Some (None, q) \<Rightarrow> Inr ([], s\<lparr>sim_queue := q\<rparr>)
           | Some (Some e, q) \<Rightarrow>
               (case dispatch um ops handle e (s\<lparr>sim_queue := q\<rparr>) of
                  Inl x \<Rightarrow> Inl x
                | Inr s \<Rightarrow> map_sum id (map_prod ((#) e) id) (run_sim um ops handle n s)))"

text \<open>At most \<open>n\<close> rounds of the loop of \<open>dumpq\<close>, with the events that were removed and printed.\<close>

fun dumpq :: "('h, 'q) sched_ops \<Rightarrow> nat \<Rightarrow> 'q \<Rightarrow> ('h event list \<times> 'q) option" where
  "dumpq ops 0 q = Some ([], q)"
| "dumpq ops (Suc n) q =
     (case op_deque ops q of
        None \<Rightarrow> None
      | Some (None, q) \<Rightarrow> Some ([], q)
      | Some (Some e, q) \<Rightarrow> map_option (map_prod ((#) e) id) (dumpq ops n q))"

text \<open>The commands of the simulation script. A command is rejected or not, and has dispatched or printed some events. The commands
  that only report the clock or whether the scheduler is halted are left out.\<close>

datatype 'h command = Run nat | Resume nat | Halt_Now | Dump_Queue nat | At real 'h | At_Now 'h | Cancel_Id int

definition sched_command ::
  "int \<Rightarrow> ('h, 'q) sched_ops \<Rightarrow> ('h, 'w) handlers \<Rightarrow> 'h command \<Rightarrow> ('q, 'w) sim \<Rightarrow>
     sched_error + (bool \<times> 'h event list) \<times> ('q, 'w) sim" where
  "sched_command um ops handle c s =
     (case c of
        Run n \<Rightarrow> map_sum id (map_prod (Pair True) id) (run_sim um ops handle n (s\<lparr>sim_clock := 0\<rparr>))
      | Resume n \<Rightarrow> map_sum id (map_prod (Pair True) id) (run_sim um ops handle n (s\<lparr>sim_halted := False\<rparr>))
      | Halt_Now \<Rightarrow> Inr ((True, []), s\<lparr>sim_halted := True\<rparr>)
      | Dump_Queue n \<Rightarrow>
          if \<not> sim_halted s then Inr ((False, []), s)
          else (case dumpq ops n (sim_queue s) of
                  None \<Rightarrow> Inl Queue_Failed
                | Some (es, q) \<Rightarrow> Inr ((True, es), s\<lparr>sim_queue := q\<rparr>))
      | At t h \<Rightarrow>
          let delay = (if t < 0 then - t else t - sim_clock s)
          in if delay < 0 then Inr ((False, []), s) else map_sum id (Pair (True, [])) (schedule um ops (Some h) 0 delay s)
      | At_Now h \<Rightarrow> map_sum id (Pair (True, [])) (schedule um ops (Some h) 0 0 s)
      | Cancel_Id u \<Rightarrow> map_sum id (Pair (True, [])) (cancel_event ops u s))"

fun script ::
  "int \<Rightarrow> ('h, 'q) sched_ops \<Rightarrow> ('h, 'w) handlers \<Rightarrow> 'h command list \<Rightarrow> ('q, 'w) sim \<Rightarrow>
     sched_error + (bool \<times> 'h event list) list \<times> ('q, 'w) sim" where
  "script um ops handle [] s = Inr ([], s)"
| "script um ops handle (c # cs) s =
     (case sched_command um ops handle c s of
        Inl x \<Rightarrow> Inl x
      | Inr (r, s) \<Rightarrow> map_sum id (map_prod ((#) r) id) (script um ops handle cs s))"

subsection \<open>The simulation on a list of events\<close>

definition delays_ok :: "('h, 'w) handlers \<Rightarrow> bool" where
  "delays_ok handle \<longleftrightarrow> (\<forall>e u w. \<forall>h v d. Schedule h v d \<in> set (fst (handle e u w)) \<longrightarrow> 0 \<le> d)"

text \<open>No event of the queue is in the past, and the next number is new.\<close>

definition sim_ok :: "('h event list, 'w) sim \<Rightarrow> bool" where
  "sim_ok s \<longleftrightarrow> queue_ok (sim_queue s) \<and> 0 \<le> sim_clock s \<and> (\<forall>e \<in> set (sim_queue s). sim_clock s \<le> ev_time e) \<and>
     (sim_uid s < 0 \<or> 0 < sim_uid s \<and> (\<forall>e \<in> set (sim_queue s). ev_uid e < sim_uid s))"

text \<open>A simulation on any queue, and the same on the list. The numbers left are the insertions left.\<close>

definition room :: "int \<Rightarrow> ('q, 'w) sim \<Rightarrow> nat" where
  "room um s = (if sim_uid s < 0 then 0 else nat (um + 1 - sim_uid s))"

lemma room_simps [simp]:
  "room um (s\<lparr>sim_clock := x\<rparr>) = room um s" "room um (s\<lparr>sim_halted := b\<rparr>) = room um s"
  "room um (s\<lparr>sim_world := w\<rparr>) = room um s" "room um (s\<lparr>sim_queue := q\<rparr>) = room um s"
  by (simp_all add: room_def)

definition same_but_queue :: "('p, 'w) sim \<Rightarrow> ('q, 'w) sim \<Rightarrow> bool" where
  "same_but_queue s t \<longleftrightarrow> sim_clock s = sim_clock t \<and> sim_halted s = sim_halted t \<and> sim_uid s = sim_uid t \<and> sim_world s = sim_world t"

definition simulates :: "(nat \<Rightarrow> 'q \<Rightarrow> 'h event list \<Rightarrow> bool) \<Rightarrow> int \<Rightarrow> ('q, 'w) sim \<Rightarrow> ('h event list, 'w) sim \<Rightarrow> bool" where
  "simulates rep um s t \<longleftrightarrow> same_but_queue s t \<and> sim_ok t \<and> rep (room um t) (sim_queue s) (sim_queue t) \<and> 0 < um \<and> sim_uid t \<le> um"


definition agree :: "('a \<Rightarrow> 'b \<Rightarrow> bool) \<Rightarrow> sched_error + 'a \<Rightarrow> sched_error + 'b \<Rightarrow> bool" where
  "agree R = rel_sum (\<lambda>x y. x = y \<and> x \<noteq> Going_Backwards \<and> x \<noteq> Queue_Failed) R"

lemma agree_simps [simp]:
  "agree R (Inl x) (Inl y) \<longleftrightarrow> x = y \<and> x \<noteq> Going_Backwards \<and> x \<noteq> Queue_Failed" "agree R (Inr a) (Inr b) \<longleftrightarrow> R a b"
  "\<not> agree R (Inl x) (Inr b)" "\<not> agree R (Inr a) (Inl y)"
  by (simp_all add: agree_def)

lemma agree_map: "agree R x y \<Longrightarrow> (\<And>a b. R a b \<Longrightarrow> R' (f a) (g b)) \<Longrightarrow> agree R' (map_sum id f x) (map_sum id g y)"
  by (cases x; cases y) simp_all

lemma simulatesD:
  assumes "simulates rep um s t"
  shows "same_but_queue s t" "sim_ok t" "rep (room um t) (sim_queue s) (sim_queue t)" "0 < um" "sim_uid t \<le> um"
  using assms by (simp_all add: simulates_def)

lemma list_deque_op [simp]: "op_deque list_scheduler es = Some (list_deque es)"
  by (simp add: list_scheduler_def)

context event_queue
begin

lemma rep_down: "rep n q es \<Longrightarrow> m \<le> n \<Longrightarrow> rep m q es"
proof (induction n)
  case (Suc n)
  then show ?case using rep_mono by (cases "m = Suc n") auto
qed simp

lemma schedule_agree:
  assumes st: "simulates rep um s t" and d: "0 \<le> d"
  shows "agree (simulates rep um) (schedule um ops h u d s) (schedule um list_scheduler h u d t)"
proof -
  note S = simulatesD [OF st]
  have same: "sim_uid s = sim_uid t" "sim_clock s = sim_clock t" using S(1) by (simp_all add: same_but_queue_def)
  show ?thesis
  proof (cases "h = None \<or> 0 < u \<or> sim_uid t < 0")
    case True
    then show ?thesis using same by (cases h) (auto simp: schedule_def)
  next
    case False
    then obtain h' where h': "h = Some h'" "\<not> 0 < u" "0 < sim_uid t" using S(2) by (auto simp: sim_ok_def)
    define e where "e = \<lparr>ev_uid = sim_uid t, ev_time = sim_clock t + d, ev_handler = h'\<rparr>"
    have e: "ev_uid e = sim_uid t" "ev_time e = sim_clock t + d" by (simp_all add: e_def)
    have fresh: "fresh e (sim_queue t)" using S(2) h'(3) d by (simp add: fresh_def sim_ok_def e)
    define t' where "t' = t\<lparr>sim_uid := uid_succ um (sim_uid t), sim_queue := list_insert e (sim_queue t)\<rparr>"
    have room: "room um t = Suc (room um t')" using h'(3) S(4,5) by (auto simp: room_def t'_def uid_succ_def)
    then obtain q where q: "op_insert ops e (sim_queue s) = Some q" "rep (room um t') q (list_insert e (sim_queue t))"
      using insert_ok [OF _ fresh] S(3) by metis
    have "queue_ok (list_insert e (sim_queue t))" using S(2) queue_ok_insert [OF _ fresh] by (simp add: sim_ok_def)
    then have "sim_ok t'" using S(2,4) h'(3) d by (auto simp: sim_ok_def t'_def uid_succ_def e)
    moreover have "sim_uid t' \<le> um" using S(4,5) by (simp add: t'_def uid_succ_def)
    ultimately have "simulates rep um (s\<lparr>sim_uid := uid_succ um (sim_uid t), sim_queue := q\<rparr>) t'"
      using S(1,4) q(2) by (simp add: simulates_def same_but_queue_def t'_def)
    moreover have "schedule um ops h u d s = Inr (s\<lparr>sim_uid := uid_succ um (sim_uid t), sim_queue := q\<rparr>)"
      using h' q(1) same by (simp add: schedule_def e_def)
    moreover have "schedule um list_scheduler h u d t = Inr t'"
      using h' by (simp add: schedule_def t'_def list_scheduler_def e_def)
    ultimately show ?thesis by simp
  qed
qed

lemma simulates_queue:
  assumes st: "simulates rep um s t" and q: "rep n q es" "room um t \<le> n" "set es \<subseteq> set (sim_queue t)"
  shows "simulates rep um (s\<lparr>sim_queue := q\<rparr>) (t\<lparr>sim_queue := es\<rparr>)"
proof -
  note S = simulatesD [OF st]
  have "rep (room um t) q es" by (rule rep_down [OF q(1,2)])
  moreover have "sim_ok (t\<lparr>sim_queue := es\<rparr>)" using S(2) rep_ok [OF q(1)] q(3) by (auto simp: sim_ok_def)
  ultimately show ?thesis using S(1,4,5) by (simp add: simulates_def same_but_queue_def)
qed

lemma cancel_agree:
  assumes st: "simulates rep um s t"
  shows "agree (simulates rep um) (cancel_event ops u s) (cancel_event list_scheduler u t)"
proof -
  note S = simulatesD [OF st]
  let ?es = "case list_lookup u (sim_queue t) of None \<Rightarrow> sim_queue t | Some e \<Rightarrow> remove1 e (sim_queue t)"
  obtain q where q: "cancel_uid ops u (sim_queue s) = Some q" "rep (room um t) q ?es" using cancel_uid_ok [OF S(3)] by blast
  have "cancel_uid list_scheduler u (sim_queue t) = Some ?es"
    using list_queue.cancel_uid_ok [of "sim_queue t" "sim_queue t" u] rep_ok [OF S(3)] by simp
  moreover have "set ?es \<subseteq> set (sim_queue t)" by (cases "list_lookup u (sim_queue t)") (simp_all add: set_remove1_subset)
  ultimately show ?thesis using simulates_queue [OF st q(2)] q(1) by (simp add: cancel_event_def)
qed

lemma perform_agree:
  "simulates rep um s t \<Longrightarrow> \<forall>h v d. Schedule h v d \<in> set as \<longrightarrow> 0 \<le> d \<Longrightarrow>
     agree (simulates rep um) (perform um ops as s) (perform um list_scheduler as t)"
proof (induction as arbitrary: s t)
  case (Cons a as)
  have rest: "\<forall>h v d. Schedule h v d \<in> set as \<longrightarrow> 0 \<le> d" using Cons.prems(2) by auto
  define x y where
    "x = (case a of Schedule h u d \<Rightarrow> schedule um ops h u d s | Cancel_Event u \<Rightarrow> cancel_event ops u s | Halt \<Rightarrow> Inr (s\<lparr>sim_halted := True\<rparr>))"
    and "y = (case a of Schedule h u d \<Rightarrow> schedule um list_scheduler h u d t | Cancel_Event u \<Rightarrow> cancel_event list_scheduler u t
      | Halt \<Rightarrow> Inr (t\<lparr>sim_halted := True\<rparr>))"
  have "agree (simulates rep um) x y"
  proof (cases a)
    case (Schedule h u d)
    then show ?thesis using schedule_agree [OF Cons.prems(1)] Cons.prems(2) by (simp add: x_def y_def)
  next
    case (Cancel_Event u)
    then show ?thesis using cancel_agree [OF Cons.prems(1)] by (simp add: x_def y_def)
  next
    case Halt
    then show ?thesis using Cons.prems(1)
      by (simp add: x_def y_def simulates_def same_but_queue_def sim_ok_def)
  qed
  then show ?case
    using Cons.IH [OF _ rest] unfolding perform.simps x_def [symmetric] y_def [symmetric] by (cases x; cases y) simp_all
qed simp

lemma dispatch_agree:
  assumes st: "simulates rep um s t" and e: "sim_clock t \<le> ev_time e" "\<forall>p \<in> set (sim_queue t). ev_time e \<le> ev_time p"
    and handle: "delays_ok handle"
  shows "agree (simulates rep um) (dispatch um ops handle e s) (dispatch um list_scheduler handle e t)"
proof -
  note S = simulatesD [OF st]
  obtain as w where h: "handle (e\<lparr>ev_uid := - ev_uid e\<rparr>) (sim_uid t) (sim_world t) = (as, w)"
    by (cases "handle (e\<lparr>ev_uid := - ev_uid e\<rparr>) (sim_uid t) (sim_world t)")
  have "simulates rep um (s\<lparr>sim_clock := ev_time e, sim_world := w\<rparr>) (t\<lparr>sim_clock := ev_time e, sim_world := w\<rparr>)"
    using S e by (auto simp: simulates_def same_but_queue_def sim_ok_def)
  moreover have "\<forall>h v d. Schedule h v d \<in> set as \<longrightarrow> 0 \<le> d" using handle h unfolding delays_ok_def by (metis fst_conv)
  ultimately have "agree (simulates rep um) (perform um ops as (s\<lparr>sim_clock := ev_time e, sim_world := w\<rparr>))
      (perform um list_scheduler as (t\<lparr>sim_clock := ev_time e, sim_world := w\<rparr>))" by (rule perform_agree)
  then show ?thesis using S(1) e(1) h by (simp add: dispatch_def same_but_queue_def)
qed


lemma run_agree:
  assumes handle: "delays_ok handle"
  shows "simulates rep um s t \<Longrightarrow>
    agree (\<lambda>(tr, s) (tr', t). tr = tr' \<and> simulates rep um s t) (run_sim um ops handle n s) (run_sim um list_scheduler handle n t)"
proof (induction n arbitrary: s t)
  case (Suc n)
  note S = simulatesD [OF Suc.prems]
  obtain q where q: "op_deque ops (sim_queue s) = Some (list_head (sim_queue t), q)" "rep (room um t) q (tl (sim_queue t))"
    using deque_ok [OF S(3)] by blast
  have rest: "simulates rep um (s\<lparr>sim_queue := q\<rparr>) (t\<lparr>sim_queue := tl (sim_queue t)\<rparr>)"
    by (rule simulates_queue [OF Suc.prems q(2)]) (cases "sim_queue t"; auto)+
  show ?case
  proof (cases "sim_queue t")
    case Nil
    then show ?thesis using S(1) q(1) Suc.prems rest by (simp add: list_head_def same_but_queue_def)
  next
    case (Cons e es)
    have ok: "queue_ok (e # es)" "sim_clock t \<le> ev_time e" using S(2) Cons by (auto simp: sim_ok_def)
    then have "\<forall>p \<in> set es. ev_time e \<le> ev_time p" using before_time by (auto simp: queue_ok_Cons)
    then have d: "agree (simulates rep um) (dispatch um ops handle e (s\<lparr>sim_queue := q\<rparr>)) (dispatch um list_scheduler handle e (t\<lparr>sim_queue := es\<rparr>))"
      using dispatch_agree [OF rest _ _ handle, of e] ok(2) Cons by simp
    have halted: "sim_halted s = sim_halted t" using S(1) by (simp add: same_but_queue_def)
    have deque: "op_deque ops (sim_queue s) = Some (Some e, q)" using q(1) Cons by (simp add: list_head_def)
    show ?thesis
    proof (cases "sim_halted t")
      case True
      then show ?thesis using halted Suc.prems by simp
    next
      case False
      show ?thesis
      proof (cases "dispatch um ops handle e (s\<lparr>sim_queue := q\<rparr>)")
        case (Inl x)
        then show ?thesis using d deque False halted Cons by (cases "dispatch um list_scheduler handle e (t\<lparr>sim_queue := es\<rparr>)") simp_all
      next
        case (Inr s1)
        then obtain t1 where t1: "dispatch um list_scheduler handle e (t\<lparr>sim_queue := es\<rparr>) = Inr t1" "simulates rep um s1 t1"
          using d by (cases "dispatch um list_scheduler handle e (t\<lparr>sim_queue := es\<rparr>)") simp_all
        have "agree (\<lambda>(tr, s) (tr', t). tr = tr' \<and> simulates rep um s t) (map_sum id (map_prod ((#) e) id) (run_sim um ops handle n s1))
            (map_sum id (map_prod ((#) e) id) (run_sim um list_scheduler handle n t1))"
          by (rule agree_map [OF Suc.IH [OF t1(2)]]) auto
        then show ?thesis using Inr t1(1) deque False halted Cons by simp
      qed
    qed
  qed
qed simp

lemma dumpq_ok: "rep n q es \<Longrightarrow> \<exists>q'. dumpq ops k q = Some (take k es, q') \<and> rep n q' (drop k es)"
proof (induction k arbitrary: q es)
  case (Suc k)
  obtain q' where q': "op_deque ops q = Some (list_head es, q')" "rep n q' (tl es)" using deque_ok [OF Suc.prems] by blast
  then show ?case using Suc.IH [OF q'(2)] Suc.prems by (cases es) (auto simp: list_head_def)
qed simp

lemma command_agree:
  assumes handle: "delays_ok handle" and st: "simulates rep um s t"
  shows "agree (\<lambda>(r, s) (r', t). r = r' \<and> simulates rep um s t) (sched_command um ops handle c s) (sched_command um list_scheduler handle c t)"
proof -
  note S = simulatesD [OF st]
  have reset: "simulates rep um (s\<lparr>sim_clock := 0\<rparr>) (t\<lparr>sim_clock := 0\<rparr>)"
    using S by (auto simp: simulates_def same_but_queue_def sim_ok_def)
  have halted: "simulates rep um (s\<lparr>sim_halted := b\<rparr>) (t\<lparr>sim_halted := b\<rparr>)" for b
    using S by (auto simp: simulates_def same_but_queue_def sim_ok_def)
  have clock: "sim_clock s = sim_clock t" using S(1) by (simp add: same_but_queue_def)
  show ?thesis
  proof (cases c)
    case (Run n)
    then show ?thesis using run_agree [OF handle reset, of n] by (auto simp: sched_command_def intro!: agree_map)
  next
    case (Resume n)
    then show ?thesis using run_agree [OF handle halted [of False], of n] by (auto simp: sched_command_def intro!: agree_map)
  next
    case Halt_Now
    then show ?thesis using halted by (simp add: sched_command_def)
  next
    case (Dump_Queue n)
    obtain q where q: "dumpq ops n (sim_queue s) = Some (take n (sim_queue t), q)" "rep (room um t) q (drop n (sim_queue t))"
      using dumpq_ok [OF S(3)] by blast
    have "dumpq list_scheduler n (sim_queue t) = Some (take n (sim_queue t), drop n (sim_queue t))"
      using list_queue.dumpq_ok [of "sim_queue t" "sim_queue t" n] rep_ok [OF S(3)] by simp
    then show ?thesis
      using Dump_Queue q(1) S(1) st simulates_queue [OF st q(2)] set_drop_subset [of n "sim_queue t"]
      by (simp add: sched_command_def same_but_queue_def)
  next
    case (At x h)
    then show ?thesis using schedule_agree [OF st] clock st by (auto simp: sched_command_def Let_def intro!: agree_map)
  next
    case (At_Now h)
    then show ?thesis using schedule_agree [OF st, of 0] by (auto simp: sched_command_def intro!: agree_map)
  next
    case (Cancel_Id u)
    then show ?thesis using cancel_agree [OF st] by (auto simp: sched_command_def intro!: agree_map)
  qed
qed

lemma script_agree:
  assumes handle: "delays_ok handle"
  shows "simulates rep um s t \<Longrightarrow>
    agree (\<lambda>(r, s) (r', t). r = r' \<and> simulates rep um s t) (script um ops handle cs s) (script um list_scheduler handle cs t)"
proof (induction cs arbitrary: s t)
  case (Cons c cs)
  show ?case
    using command_agree [OF handle Cons.prems, of c] Cons.IH
    by (cases "sched_command um ops handle c s"; cases "sched_command um list_scheduler handle c t") (auto intro!: agree_map)
qed simp

lemma new_agree:
  assumes "rep (nat um) q []" "0 < um"
  shows "simulates rep um (new_sim q w) (new_sim [] w)"
  using assms by (simp add: simulates_def same_but_queue_def sim_ok_def room_def new_sim_def)

end


lemma list_dumpq: "queue_ok es \<Longrightarrow> dumpq list_scheduler k es = Some (take k es, drop k es)"
  using list_queue.dumpq_ok [of es es k] by simp

subsection \<open>Order of the events\<close>

text \<open>The list as a queue, and the simulation on it as one that simulates itself.\<close>

abbreviation list_rep :: "nat \<Rightarrow> 'h event list \<Rightarrow> 'h event list \<Rightarrow> bool" where
  "list_rep n q es \<equiv> q = es \<and> queue_ok es"

text \<open>After the event \<open>e\<close> nothing is scheduled before it.\<close>

definition later :: "'h event \<Rightarrow> ('h event list, 'w) sim \<Rightarrow> bool" where
  "later e t \<longleftrightarrow> ev_time e \<le> sim_clock t \<and> (sim_uid t < 0 \<or> ev_uid e < sim_uid t) \<and> (\<forall>p \<in> set (sim_queue t). before e p)"

lemma length_list_insert [simp]: "length (list_insert e es) = Suc (length es)"
  by (induction es) simp_all

lemma schedule_later:
  assumes "later e t" "schedule um list_scheduler h u d t = Inr t'" "0 \<le> d" "0 < um"
  shows "later e t' \<and> length (sim_queue t') \<le> Suc (length (sim_queue t)) \<and> sim_world t' = sim_world t"
  using assms by (auto simp: schedule_def list_scheduler_def later_def before_def uid_succ_def split: option.splits if_splits)


lemma cancel_later:
  assumes "list_rep n (sim_queue t) es" "cancel_event list_scheduler u t = Inr t'" "later e t"
  shows "later e t' \<and> length (sim_queue t') \<le> length (sim_queue t) \<and> sim_world t' = sim_world t"
proof -
  let ?es = "case list_lookup u (sim_queue t) of None \<Rightarrow> sim_queue t | Some e \<Rightarrow> remove1 e (sim_queue t)"
  have "cancel_uid list_scheduler u (sim_queue t) = Some ?es"
    using list_queue.cancel_uid_ok [of "sim_queue t" "sim_queue t" u] assms(1) by simp
  then have "t' = t\<lparr>sim_queue := ?es\<rparr>" using assms(2) by (simp add: cancel_event_def)
  moreover have "set ?es \<subseteq> set (sim_queue t)" by (cases "list_lookup u (sim_queue t)") (simp_all add: set_remove1_subset)
  moreover have "length ?es \<le> length (sim_queue t)" by (cases "list_lookup u (sim_queue t)") (simp_all add: length_remove1)
  ultimately show ?thesis using assms(3) by (auto simp: later_def)
qed

definition schedules :: "'h action list \<Rightarrow> nat" where
  "schedules as = length (filter (\<lambda>a. case a of Schedule _ _ _ \<Rightarrow> True | _ \<Rightarrow> False) as)"

lemma perform_later:
  "simulates list_rep um t t \<Longrightarrow> perform um list_scheduler as t = Inr t' \<Longrightarrow> later e t \<Longrightarrow>
     \<forall>h v d. Schedule h v d \<in> set as \<longrightarrow> 0 \<le> d \<Longrightarrow>
     later e t' \<and> simulates list_rep um t' t' \<and> length (sim_queue t') \<le> length (sim_queue t) + schedules as \<and> sim_world t' = sim_world t"
proof (induction as arbitrary: t)
  case (Cons a as)
  have rest: "\<forall>h v d. Schedule h v d \<in> set as \<longrightarrow> 0 \<le> d" using Cons.prems(4) by auto
  note S = simulatesD [OF Cons.prems(1)]
  obtain t1 where t1: "perform um list_scheduler [a] t = Inr t1" "perform um list_scheduler as t1 = Inr t'"
    using Cons.prems(2) by (auto split: sum.splits)
  have "simulates list_rep um t1 t1"
    using list_queue.perform_agree [OF Cons.prems(1), of "[a]"] Cons.prems(4) t1(1) by simp
  moreover have "later e t1 \<and> length (sim_queue t1) \<le> length (sim_queue t) + schedules [a] \<and> sim_world t1 = sim_world t"
  proof (cases a)
    case (Schedule h u d)
    then show ?thesis
      using schedule_later [OF Cons.prems(3), of um h u d t1] t1(1) Cons.prems(4) S(4) by (simp add: schedules_def split: sum.splits)
  next
    case (Cancel_Event u)
    then show ?thesis
      using cancel_later [OF S(3) _ Cons.prems(3), of u t1] t1(1) by (simp add: schedules_def split: sum.splits)
  next
    case Halt
    then show ?thesis using t1(1) Cons.prems(3) by (auto simp: later_def schedules_def)
  qed
  moreover have "schedules (a # as) = schedules [a] + schedules as" by (simp add: schedules_def)
  ultimately show ?case using Cons.IH [OF _ t1(2) _ rest] by simp
qed (simp add: schedules_def)

text \<open>A round of the loop.\<close>

lemma dispatch_later:
  assumes t: "simulates list_rep um t t" "sim_queue t = e # es" and handle: "delays_ok handle"
    and t': "dispatch um list_scheduler handle e (t\<lparr>sim_queue := es\<rparr>) = Inr t'"
  shows "later e t' \<and> simulates list_rep um t' t' \<and> (\<forall>p. later p t \<longrightarrow> before p e) \<and>
    (\<exists>as u. handle (e\<lparr>ev_uid := - ev_uid e\<rparr>) u (sim_world t) = (as, sim_world t') \<and> length (sim_queue t') \<le> length es + schedules as)"
proof -
  note S = simulatesD [OF t(1)]
  have ok: "queue_ok (e # es)" "sim_clock t \<le> ev_time e" "sim_uid t < 0 \<or> ev_uid e < sim_uid t" using S(2) t(2) by (auto simp: sim_ok_def)
  have ahead: "\<forall>p \<in> set es. before e p" using ok(1) by (simp add: queue_ok_Cons)
  obtain as w where h: "handle (e\<lparr>ev_uid := - ev_uid e\<rparr>) (sim_uid t) (sim_world t) = (as, w)"
    by (cases "handle (e\<lparr>ev_uid := - ev_uid e\<rparr>) (sim_uid t) (sim_world t)")
  define t1 where "t1 = t\<lparr>sim_queue := es, sim_clock := ev_time e, sim_world := w\<rparr>"
  have perform: "perform um list_scheduler as t1 = Inr t'" using t' ok(2) h by (simp add: dispatch_def t1_def)
  have "queue_ok es" "0 \<le> ev_time e" using ok(1) by (auto simp: queue_ok_Cons)
  then have "simulates list_rep um t1 t1"
    using S t(2) ahead before_time by (auto simp: simulates_def same_but_queue_def sim_ok_def t1_def)
  moreover have "later e t1" using ok(3) ahead by (simp add: later_def t1_def)
  moreover have "\<forall>h v d. Schedule h v d \<in> set as \<longrightarrow> 0 \<le> d" using handle h unfolding delays_ok_def by (metis fst_conv)
  ultimately have "later e t' \<and> simulates list_rep um t' t' \<and> length (sim_queue t') \<le> length (sim_queue t1) + schedules as \<and>
      sim_world t' = sim_world t1" by (rule perform_later [OF _ perform])
  moreover have "before p e" if "later p t" for p using that t(2) by (simp add: later_def)
  ultimately show ?thesis using h by (auto simp: t1_def)
qed

lemma run_in_order:
  assumes handle: "delays_ok handle"
  shows "simulates list_rep um t t \<Longrightarrow> run_sim um list_scheduler handle n t = Inr (tr, t') \<Longrightarrow>
    sorted_wrt before tr \<and> simulates list_rep um t' t' \<and> (\<forall>e. later e t \<longrightarrow> (\<forall>p \<in> set tr. before e p))"
proof (induction n arbitrary: t tr)
  case (Suc n)
  show ?case
  proof (cases "sim_halted t \<or> sim_queue t = []")
    case True
    then show ?thesis using Suc.prems by (cases "sim_halted t") (auto simp: simulates_def same_but_queue_def sim_ok_def)
  next
    case False
    then obtain e es where es: "sim_queue t = e # es" by (cases "sim_queue t") auto
    obtain t1 where t1: "dispatch um list_scheduler handle e (t\<lparr>sim_queue := es\<rparr>) = Inr t1"
      using Suc.prems(2) False es by (cases "dispatch um list_scheduler handle e (t\<lparr>sim_queue := es\<rparr>)") simp_all
    then obtain tr1 where tr1: "run_sim um list_scheduler handle n t1 = Inr (tr1, t')" "tr = e # tr1"
      using Suc.prems(2) False es by (cases "run_sim um list_scheduler handle n t1") auto
    have d: "later e t1" "simulates list_rep um t1 t1" "\<forall>p. later p t \<longrightarrow> before p e"
      using dispatch_later [OF Suc.prems(1) es handle t1] by blast+
    then show ?thesis using Suc.IH [OF d(2) tr1(1)] tr1(2) before_trans by fastforce
  qed
qed simp


lemma command_in_order:
  assumes handle: "delays_ok handle" and t: "simulates list_rep um t t" and c: "sched_command um list_scheduler handle c t = Inr (r, t')"
  shows "sorted_wrt before (snd r)"
proof (cases "\<exists>n. c = Dump_Queue n")
  case True
  have "queue_ok (sim_queue t)" using simulatesD(2) [OF t] by (simp add: sim_ok_def)
  then show ?thesis using True c
    by (auto simp: sched_command_def list_dumpq queue_ok_def sorted_wrt_take split: if_splits)
next
  case no_dump: False
  have "\<exists>n t1 tr. sched_command um list_scheduler handle c t = Inr ((True, tr), t') \<and> simulates list_rep um t1 t1 \<and>
      run_sim um list_scheduler handle n t1 = Inr (tr, t') \<and> r = (True, tr) \<or> snd r = []"
    if "simulates list_rep um (t\<lparr>sim_clock := 0\<rparr>) (t\<lparr>sim_clock := 0\<rparr>)"
      "simulates list_rep um (t\<lparr>sim_halted := False\<rparr>) (t\<lparr>sim_halted := False\<rparr>)"
    using c that no_dump
    by (cases c) (auto simp: sched_command_def Let_def map_sum_def map_prod_def split: sum.splits if_splits prod.splits)
  moreover have "simulates list_rep um (t\<lparr>sim_clock := 0\<rparr>) (t\<lparr>sim_clock := 0\<rparr>)"
    "simulates list_rep um (t\<lparr>sim_halted := False\<rparr>) (t\<lparr>sim_halted := False\<rparr>)"
    using simulatesD [OF t] by (auto simp: simulates_def same_but_queue_def sim_ok_def)
  ultimately show ?thesis using run_in_order [OF handle] by fastforce
qed

lemma script_in_order:
  assumes handle: "delays_ok handle"
  shows "simulates list_rep um t t \<Longrightarrow> script um list_scheduler handle cs t = Inr (rs, t') \<Longrightarrow> \<forall>r \<in> set rs. sorted_wrt before (snd r)"
proof (induction cs arbitrary: t rs)
  case (Cons c cs)
  obtain r t1 where c: "sched_command um list_scheduler handle c t = Inr (r, t1)"
    using Cons.prems(2) by (cases "sched_command um list_scheduler handle c t") auto
  then obtain rs1 where rs: "script um list_scheduler handle cs t1 = Inr (rs1, t')" "rs = r # rs1"
    using Cons.prems(2) by (cases "script um list_scheduler handle cs t1") auto
  have "simulates list_rep um t1 t1" using list_queue.command_agree [OF handle Cons.prems(1), of c] c by simp
  then show ?case using Cons.IH [OF _ rs(1)] rs(2) command_in_order [OF handle Cons.prems(1) c] by simp
qed simp

subsection \<open>The end of the simulation\<close>

text \<open>Handlers that draw every event they schedule from a stock in the state.\<close>

definition thrifty :: "('w \<Rightarrow> nat) \<Rightarrow> ('h, 'w) handlers \<Rightarrow> bool" where
  "thrifty \<mu> handle \<longleftrightarrow> (\<forall>e u w. schedules (fst (handle e u w)) + \<mu> (snd (handle e u w)) \<le> \<mu> w)"

definition events_left :: "('w \<Rightarrow> nat) \<Rightarrow> ('h event list, 'w) sim \<Rightarrow> nat" where
  "events_left \<mu> t = length (sim_queue t) + \<mu> (sim_world t)"

lemma events_left_simps [simp]:
  "events_left \<mu> (t\<lparr>sim_clock := x\<rparr>) = events_left \<mu> t" "events_left \<mu> (t\<lparr>sim_halted := b\<rparr>) = events_left \<mu> t"
  "events_left \<mu> (t\<lparr>sim_uid := u\<rparr>) = events_left \<mu> t"
  by (simp_all add: events_left_def)

lemma run_ends:
  assumes handle: "delays_ok handle" "thrifty \<mu> handle"
  shows "simulates list_rep um t t \<Longrightarrow> run_sim um list_scheduler handle n t = Inr (tr, t') \<Longrightarrow>
    events_left \<mu> t' + length tr \<le> events_left \<mu> t \<and> (events_left \<mu> t \<le> n \<longrightarrow> sim_halted t' \<or> sim_queue t' = [])"
proof (induction n arbitrary: t tr)
  case 0
  then show ?case by (simp add: events_left_def)
next
  case (Suc n)
  show ?case
  proof (cases "sim_halted t \<or> sim_queue t = []")
    case True
    then show ?thesis using Suc.prems by (cases "sim_halted t") (auto simp: events_left_def)
  next
    case False
    then obtain e es where es: "sim_queue t = e # es" by (cases "sim_queue t") auto
    obtain t1 where t1: "dispatch um list_scheduler handle e (t\<lparr>sim_queue := es\<rparr>) = Inr t1"
      using Suc.prems(2) False es by (cases "dispatch um list_scheduler handle e (t\<lparr>sim_queue := es\<rparr>)") simp_all
    then obtain tr1 where tr1: "run_sim um list_scheduler handle n t1 = Inr (tr1, t')" "tr = e # tr1"
      using Suc.prems(2) False es by (cases "run_sim um list_scheduler handle n t1") auto
    obtain as u where d: "handle (e\<lparr>ev_uid := - ev_uid e\<rparr>) u (sim_world t) = (as, sim_world t1)"
      "length (sim_queue t1) \<le> length es + schedules as" "simulates list_rep um t1 t1"
      using dispatch_later [OF Suc.prems(1) es handle(1) t1] by blast
    have "schedules as + \<mu> (sim_world t1) \<le> \<mu> (sim_world t)" using handle(2) d(1) unfolding thrifty_def by (metis fst_conv snd_conv)
    then have "Suc (events_left \<mu> t1) \<le> events_left \<mu> t" using d(2) es by (simp add: events_left_def)
    then show ?thesis using Suc.IH [OF d(3) tr1(1)] tr1(2) by auto
  qed
qed


text \<open>A whole script: every command leaves at most one event more.\<close>

definition benign :: "sched_error \<Rightarrow> bool" where
  "benign x \<longleftrightarrow> x = Null_Handler \<or> x = Uid_Not_Valid \<or> x = Uid_Exhausted"

lemma benign_iff: "benign x \<longleftrightarrow> x \<noteq> Going_Backwards \<and> x \<noteq> Queue_Failed"
  by (cases x) (simp_all add: benign_def)

lemma schedule_left: "schedule um list_scheduler h u d t = Inr t' \<Longrightarrow> events_left \<mu> t' = Suc (events_left \<mu> t)"
  by (auto simp: schedule_def list_scheduler_def events_left_def split: option.splits if_splits)

lemma cancel_left:
  assumes "queue_ok (sim_queue t)" "cancel_event list_scheduler u t = Inr t'"
  shows "events_left \<mu> t' \<le> events_left \<mu> t"
proof -
  let ?es = "case list_lookup u (sim_queue t) of None \<Rightarrow> sim_queue t | Some e \<Rightarrow> remove1 e (sim_queue t)"
  have "cancel_uid list_scheduler u (sim_queue t) = Some ?es"
    using list_queue.cancel_uid_ok [of "sim_queue t" "sim_queue t" u] assms(1) by simp
  then have "t' = t\<lparr>sim_queue := ?es\<rparr>" using assms(2) by (simp add: cancel_event_def)
  moreover have "length ?es \<le> length (sim_queue t)" by (cases "list_lookup u (sim_queue t)") (simp_all add: length_remove1)
  ultimately show ?thesis by (simp add: events_left_def)
qed

lemma command_left:
  assumes handle: "delays_ok handle" "thrifty \<mu> handle" and t: "simulates list_rep um t t"
    and c: "sched_command um list_scheduler handle c t = Inr (r, t')"
  shows "events_left \<mu> t' \<le> Suc (events_left \<mu> t)"
proof -
  note S = simulatesD [OF t]
  have start: "simulates list_rep um (t\<lparr>sim_clock := 0\<rparr>) (t\<lparr>sim_clock := 0\<rparr>)"
    "simulates list_rep um (t\<lparr>sim_halted := False\<rparr>) (t\<lparr>sim_halted := False\<rparr>)"
    using S by (auto simp: simulates_def same_but_queue_def sim_ok_def)
  have mapped: "\<exists>y. x = Inr y \<and> z = f y" if "map_sum id f x = Inr z" for f :: "'x \<Rightarrow> 'y" and x :: "sched_error + 'x" and z
    using that by (cases x) auto
  show ?thesis
  proof (cases c)
    case (Run n)
    then show ?thesis using c run_ends [OF handle start(1), of n] by (fastforce simp: sched_command_def dest!: mapped)
  next
    case (Resume n)
    then show ?thesis using c run_ends [OF handle start(2), of n] by (fastforce simp: sched_command_def dest!: mapped)
  next
    case Halt_Now
    then show ?thesis using c by (auto simp: sched_command_def)
  next
    case (Dump_Queue n)
    then show ?thesis using c S(2) by (auto simp: sched_command_def list_dumpq sim_ok_def events_left_def split: if_splits)
  next
    case (At x h)
    then show ?thesis using c by (auto simp: sched_command_def Let_def schedule_left dest!: mapped split: if_splits)
  next
    case (At_Now h)
    then show ?thesis using c by (auto simp: sched_command_def schedule_left dest!: mapped)
  next
    case (Cancel_Id u)
    then obtain t1 where "cancel_event list_scheduler u t = Inr t1" "t' = t1" using c by (auto simp: sched_command_def dest!: mapped)
    then show ?thesis using cancel_left [of t u t1 \<mu>] S(2) by (simp add: sim_ok_def)
  qed
qed

lemma script_left:
  assumes handle: "delays_ok handle" "thrifty \<mu> handle"
  shows "simulates list_rep um t t \<Longrightarrow> script um list_scheduler handle cs t = Inr (rs, t') \<Longrightarrow>
    simulates list_rep um t' t' \<and> events_left \<mu> t' \<le> length cs + events_left \<mu> t"
proof (induction cs arbitrary: t rs)
  case (Cons c cs)
  obtain r t1 where c: "sched_command um list_scheduler handle c t = Inr (r, t1)"
    using Cons.prems(2) by (cases "sched_command um list_scheduler handle c t") auto
  then obtain rs1 where rs: "script um list_scheduler handle cs t1 = Inr (rs1, t')"
    using Cons.prems(2) by (cases "script um list_scheduler handle cs t1") auto
  have "simulates list_rep um t1 t1" using list_queue.command_agree [OF handle(1) Cons.prems(1), of c] c by simp
  then show ?case using Cons.IH [OF _ rs] command_left [OF handle Cons.prems(1) c] by fastforce
qed simp

lemma script_append:
  "script um ops handle (cs @ [c]) s =
     (case script um ops handle cs s of
        Inl x \<Rightarrow> Inl x
      | Inr (rs, s) \<Rightarrow> (case sched_command um ops handle c s of Inl x \<Rightarrow> Inl x | Inr (r, s) \<Rightarrow> Inr (rs @ [r], s)))"
  by (induction cs arbitrary: s) (auto split: sum.splits)

lemma script_ends:
  assumes handle: "delays_ok handle" "thrifty \<mu> handle" and t: "simulates list_rep um t t"
    and n: "length cs + events_left \<mu> t \<le> n" and s: "script um list_scheduler handle (cs @ [Resume n]) t = Inr (rs, t')"
  shows "sim_halted t' \<or> sim_queue t' = []"
proof -
  obtain rs1 t1 where t1: "script um list_scheduler handle cs t = Inr (rs1, t1)"
    using s by (cases "script um list_scheduler handle cs t") (auto simp: script_append)
  obtain tr where tr: "run_sim um list_scheduler handle n (t1\<lparr>sim_halted := False\<rparr>) = Inr (tr, t')"
    using s t1 by (cases "run_sim um list_scheduler handle n (t1\<lparr>sim_halted := False\<rparr>)") (auto simp: script_append sched_command_def)
  have left: "simulates list_rep um t1 t1" "events_left \<mu> t1 \<le> n" using script_left [OF handle t t1] n by simp_all
  have "simulates list_rep um (t1\<lparr>sim_halted := False\<rparr>) (t1\<lparr>sim_halted := False\<rparr>)"
    using simulatesD [OF left(1)] by (auto simp: simulates_def same_but_queue_def sim_ok_def)
  then show ?thesis using run_ends [OF handle _ tr] left(2) by simp
qed


subsection \<open>Every event runs at most once\<close>

text \<open>The numbers in \<open>U\<close> are used up.\<close>

definition spent :: "int set \<Rightarrow> ('h event list, 'w) sim \<Rightarrow> bool" where
  "spent U t \<longleftrightarrow> U \<inter> ev_uid ` set (sim_queue t) = {} \<and> (sim_uid t < 0 \<or> (\<forall>u \<in> U. u < sim_uid t))"

lemma spent_simps [simp]:
  "spent U (t\<lparr>sim_clock := x\<rparr>) = spent U t" "spent U (t\<lparr>sim_halted := b\<rparr>) = spent U t" "spent U (t\<lparr>sim_world := w\<rparr>) = spent U t"
  by (simp_all add: spent_def)

lemma spent_schedule:
  assumes "schedule um list_scheduler h u d t = Inr t'" "spent U t" "0 < um"
  shows "spent U t'"
proof -
  obtain h' where t': "t' = t\<lparr>sim_uid := uid_succ um (sim_uid t),
      sim_queue := list_insert \<lparr>ev_uid = sim_uid t, ev_time = sim_clock t + d, ev_handler = h'\<rparr> (sim_queue t)\<rparr>" and u: "\<not> sim_uid t < 0"
    using assms(1) by (auto simp: schedule_def list_scheduler_def split: option.splits if_splits)
  have less: "\<forall>u \<in> U. u < sim_uid t" and disjoint: "U \<inter> ev_uid ` set (sim_queue t) = {}" using assms(2) u by (simp_all add: spent_def)
  then have "sim_uid t \<notin> U" by blast
  then show ?thesis using less disjoint u assms(3) by (auto simp: spent_def t' uid_succ_def)
qed

lemma spent_cancel:
  assumes "queue_ok (sim_queue t)" "cancel_event list_scheduler u t = Inr t'" "spent U t"
  shows "spent U t'"
proof -
  let ?es = "case list_lookup u (sim_queue t) of None \<Rightarrow> sim_queue t | Some e \<Rightarrow> remove1 e (sim_queue t)"
  have "cancel_uid list_scheduler u (sim_queue t) = Some ?es"
    using list_queue.cancel_uid_ok [of "sim_queue t" "sim_queue t" u] assms(1) by simp
  then have "t' = t\<lparr>sim_queue := ?es\<rparr>" using assms(2) by (simp add: cancel_event_def)
  moreover have "set ?es \<subseteq> set (sim_queue t)" by (cases "list_lookup u (sim_queue t)") (simp_all add: set_remove1_subset)
  ultimately show ?thesis using assms(3) by (auto simp: spent_def)
qed

lemma spent_perform:
  "simulates list_rep um t t \<Longrightarrow> perform um list_scheduler as t = Inr t' \<Longrightarrow> spent U t \<Longrightarrow>
     \<forall>h v d. Schedule h v d \<in> set as \<longrightarrow> 0 \<le> d \<Longrightarrow> spent U t'"
proof (induction as arbitrary: t)
  case (Cons a as)
  have rest: "\<forall>h v d. Schedule h v d \<in> set as \<longrightarrow> 0 \<le> d" using Cons.prems(4) by auto
  note S = simulatesD [OF Cons.prems(1)]
  obtain t1 where t1: "perform um list_scheduler [a] t = Inr t1" "perform um list_scheduler as t1 = Inr t'"
    using Cons.prems(2) by (auto split: sum.splits)
  have "simulates list_rep um t1 t1"
    using list_queue.perform_agree [OF Cons.prems(1), of "[a]"] Cons.prems(4) t1(1) by simp
  moreover have "spent U t1"
    using t1(1) spent_schedule [OF _ Cons.prems(3) S(4)] spent_cancel [of t _ t1, OF _ _ Cons.prems(3)] S(2) Cons.prems(3)
    by (cases a) (auto simp: sim_ok_def split: sum.splits)
  ultimately show ?case using Cons.IH [OF _ t1(2) _ rest] by simp
qed simp

lemma spent_dispatch:
  assumes t: "simulates list_rep um t t" "sim_queue t = e # es" and handle: "delays_ok handle" and U: "spent U t"
    and t': "dispatch um list_scheduler handle e (t\<lparr>sim_queue := es\<rparr>) = Inr t'"
  shows "spent (insert (ev_uid e) U) t' \<and> ev_uid e \<notin> U"
proof -
  note S = simulatesD [OF t(1)]
  have ok: "queue_ok (e # es)" "sim_clock t \<le> ev_time e" "sim_uid t < 0 \<or> ev_uid e < sim_uid t" using S(2) t(2) by (auto simp: sim_ok_def)
  obtain as w where h: "handle (e\<lparr>ev_uid := - ev_uid e\<rparr>) (sim_uid t) (sim_world t) = (as, w)"
    by (cases "handle (e\<lparr>ev_uid := - ev_uid e\<rparr>) (sim_uid t) (sim_world t)")
  define t1 where "t1 = t\<lparr>sim_queue := es, sim_clock := ev_time e, sim_world := w\<rparr>"
  have perform: "perform um list_scheduler as t1 = Inr t'" using t' ok(2) h by (simp add: dispatch_def t1_def)
  have "queue_ok es" "0 \<le> ev_time e" "\<forall>p \<in> set es. before e p" "ev_uid e \<notin> ev_uid ` set es" using ok(1) by (auto simp: queue_ok_Cons)
  then have "simulates list_rep um t1 t1" "spent (insert (ev_uid e) U) t1"
    using S t(2) before_time ok(3) U by (auto simp: simulates_def same_but_queue_def sim_ok_def t1_def spent_def)
  moreover have "\<forall>h v d. Schedule h v d \<in> set as \<longrightarrow> 0 \<le> d" using handle h unfolding delays_ok_def by (metis fst_conv)
  ultimately have "spent (insert (ev_uid e) U) t'" using spent_perform [OF _ perform] by blast
  moreover have "ev_uid e \<notin> U" using U t(2) by (auto simp: spent_def)
  ultimately show ?thesis by blast
qed

lemma spent_run:
  assumes handle: "delays_ok handle"
  shows "simulates list_rep um t t \<Longrightarrow> run_sim um list_scheduler handle n t = Inr (tr, t') \<Longrightarrow> spent U t \<Longrightarrow>
    distinct (map ev_uid tr) \<and> ev_uid ` set tr \<inter> U = {} \<and> spent (U \<union> ev_uid ` set tr) t'"
proof (induction n arbitrary: t tr U)
  case (Suc n)
  show ?case
  proof (cases "sim_halted t \<or> sim_queue t = []")
    case True
    then show ?thesis using Suc.prems by (cases "sim_halted t") (auto simp: spent_def)
  next
    case False
    then obtain e es where es: "sim_queue t = e # es" by (cases "sim_queue t") auto
    obtain t1 where t1: "dispatch um list_scheduler handle e (t\<lparr>sim_queue := es\<rparr>) = Inr t1"
      using Suc.prems(2) False es by (cases "dispatch um list_scheduler handle e (t\<lparr>sim_queue := es\<rparr>)") simp_all
    then obtain tr1 where tr1: "run_sim um list_scheduler handle n t1 = Inr (tr1, t')" "tr = e # tr1"
      using Suc.prems(2) False es by (cases "run_sim um list_scheduler handle n t1") auto
    have "simulates list_rep um t1 t1" using dispatch_later [OF Suc.prems(1) es handle t1] by blast
    moreover have "spent (insert (ev_uid e) U) t1" "ev_uid e \<notin> U" using spent_dispatch [OF Suc.prems(1) es handle Suc.prems(3) t1] by simp_all
    ultimately show ?thesis using Suc.IH [OF _ tr1(1)] tr1(2) by fastforce
  qed
qed simp

lemma spent_command:
  assumes handle: "delays_ok handle" and t: "simulates list_rep um t t" and U: "spent U t"
    and c: "sched_command um list_scheduler handle c t = Inr (r, t')"
  shows "distinct (map ev_uid (snd r)) \<and> ev_uid ` set (snd r) \<inter> U = {} \<and> spent (U \<union> ev_uid ` set (snd r)) t'"
proof -
  note S = simulatesD [OF t]
  have start: "simulates list_rep um (t\<lparr>sim_clock := 0\<rparr>) (t\<lparr>sim_clock := 0\<rparr>)"
    "simulates list_rep um (t\<lparr>sim_halted := False\<rparr>) (t\<lparr>sim_halted := False\<rparr>)"
    using S by (auto simp: simulates_def same_but_queue_def sim_ok_def)
  have mapped: "\<exists>y. x = Inr y \<and> z = f y" if "map_sum id f x = Inr z" for f :: "'x \<Rightarrow> 'y" and x :: "sched_error + 'x" and z
    using that by (cases x) auto
  show ?thesis
  proof (cases c)
    case (Run n)
    then show ?thesis using c spent_run [OF handle start(1), of n] U by (fastforce simp: sched_command_def dest!: mapped)
  next
    case (Resume n)
    then show ?thesis using c spent_run [OF handle start(2), of n] U by (fastforce simp: sched_command_def dest!: mapped)
  next
    case Halt_Now
    then show ?thesis using c U by (auto simp: sched_command_def)
  next
    case (Dump_Queue n)
    let ?front = "take n (sim_queue t)" and ?rest = "drop n (sim_queue t)"
    have ok: "queue_ok (sim_queue t)" using S(2) by (simp add: sim_ok_def)
    have parts: "set (sim_queue t) = set ?front \<union> set ?rest" by (metis append_take_drop_id set_append)
    have "distinct (map ev_uid (?front @ ?rest))" using ok by (simp add: queue_ok_def)
    then have d: "distinct (map ev_uid ?front)" "ev_uid ` set ?front \<inter> ev_uid ` set ?rest = {}"
      unfolding map_append distinct_append by auto
    have u: "sim_uid t < 0 \<or> (\<forall>e \<in> set ?front. ev_uid e < sim_uid t)" using S(2) parts by (auto simp: sim_ok_def)
    have U': "U \<inter> ev_uid ` set ?front = {}" "U \<inter> ev_uid ` set ?rest = {}" "sim_uid t < 0 \<or> (\<forall>u \<in> U. u < sim_uid t)"
      using U unfolding spent_def parts by auto
    have "spent (U \<union> ev_uid ` set ?front) (t\<lparr>sim_queue := ?rest\<rparr>)" using U' u d(2) unfolding spent_def by auto
    then show ?thesis
      using Dump_Queue c U d(1) U'(1) by (cases "sim_halted t") (auto simp: sched_command_def list_dumpq ok)
  next
    case (At x h)
    then show ?thesis using c U spent_schedule [OF _ U S(4)] by (auto simp: sched_command_def Let_def dest!: mapped split: if_splits)
  next
    case (At_Now h)
    then show ?thesis using c U spent_schedule [OF _ U S(4)] by (auto simp: sched_command_def dest!: mapped)
  next
    case (Cancel_Id u)
    then obtain t1 where "cancel_event list_scheduler u t = Inr t1" "t' = t1" "snd r = []" using c by (auto simp: sched_command_def dest!: mapped)
    then show ?thesis using spent_cancel [of t u t1 U] S(2) U by (simp add: sim_ok_def)
  qed
qed

lemma spent_script:
  assumes handle: "delays_ok handle"
  shows "simulates list_rep um t t \<Longrightarrow> script um list_scheduler handle cs t = Inr (rs, t') \<Longrightarrow> spent U t \<Longrightarrow>
    distinct (map ev_uid (concat (map snd rs))) \<and> ev_uid ` set (concat (map snd rs)) \<inter> U = {}"
proof (induction cs arbitrary: t rs U)
  case (Cons c cs)
  obtain r t1 where c: "sched_command um list_scheduler handle c t = Inr (r, t1)"
    using Cons.prems(2) by (cases "sched_command um list_scheduler handle c t") auto
  then obtain rs1 where rs: "script um list_scheduler handle cs t1 = Inr (rs1, t')" "rs = r # rs1"
    using Cons.prems(2) by (cases "script um list_scheduler handle cs t1") auto
  have "simulates list_rep um t1 t1" using list_queue.command_agree [OF handle Cons.prems(1), of c] c by simp
  then have "distinct (map ev_uid (concat (map snd rs1))) \<and> ev_uid ` set (concat (map snd rs1)) \<inter> (U \<union> ev_uid ` set (snd r)) = {}"
    using Cons.IH [OF _ rs(1)] spent_command [OF handle Cons.prems(1,3) c] by blast
  moreover have "distinct (map ev_uid (snd r)) \<and> ev_uid ` set (snd r) \<inter> U = {}"
    using spent_command [OF handle Cons.prems(1,3) c] by blast
  ultimately show ?case unfolding rs(2) by auto
qed simp


subsection \<open>Properties\<close>

text \<open>What is seen of a simulation: the error, or the results of the commands and the state without the queue.\<close>

definition observe ::
  "sched_error + (bool \<times> 'h event list) list \<times> ('q, 'w) sim \<Rightarrow> sched_error + (bool \<times> 'h event list) list \<times> real \<times> bool \<times> int \<times> 'w" where
  "observe = map_sum id (map_prod id (\<lambda>s. (sim_clock s, sim_halted s, sim_uid s, sim_world s)))"

lemma agree_observe:
  "agree (\<lambda>(r, s) (r', t). r = r' \<and> simulates rep um s t) x y \<Longrightarrow> observe x = observe y"
  by (cases x; cases y) (auto simp: observe_def simulates_def same_but_queue_def)

lemmas new_calendar_agrees = calendar_queue.script_agree [OF _ calendar_queue.new_agree [OF calendar_rep_new]]
lemmas new_splay_agrees = splay_queue.script_agree [OF _ splay_queue.new_agree [OF splay_rep_new]]
lemmas new_heap_agrees = heap_queue.script_agree [OF _ heap_queue.new_agree [OF heap_rep_new]]

lemma new_list_simulates: "0 < um \<Longrightarrow> simulates list_rep um (new_sim [] w) (new_sim [] w)"
  by (rule list_queue.new_agree) simp_all

text \<open>An example: a handler that runs again after a second, as often as the state says.\<close>

definition tick_handlers :: "(string, nat) handlers" where
  "tick_handlers e u w = (case w of 0 \<Rightarrow> ([], 0) | Suc w \<Rightarrow> ([Schedule (Some ''tick'') 0 1], w))"

lemma tick_delays: "delays_ok tick_handlers"
  by (auto simp: delays_ok_def tick_handlers_def split: nat.splits)

lemma tick_thrifty: "thrifty id tick_handlers"
  by (auto simp: thrifty_def tick_handlers_def schedules_def split: nat.splits)

definition tick :: "int \<Rightarrow> real \<Rightarrow> string event" where
  "tick u t = \<lparr>ev_uid = u, ev_time = t, ev_handler = ''tick''\<rparr>"

definition tick_script :: "string command list" where
  "tick_script = [At 2 ''tick'', At 1 ''tick'', At 9 ''tick'', Cancel_Id 3, Run 2, At 0 ''tick'']"

lemma tick_result:
  "observe (script 9 list_scheduler tick_handlers tick_script (new_sim [] 1)) =
     Inr ([(True, []), (True, []), (True, []), (True, []), (True, [tick 2 1, tick 1 2]), (False, [])], 2, False, 5, 0)"
  by (simp add: tick_script_def observe_def sched_command_def schedule_def new_sim_def list_scheduler_def uid_succ_def
      cancel_event_def cancel_uid_def list_lookup_def list_cancel_def dispatch_def tick_handlers_def tick_def
      numeral_2_eq_2)



text \<open>C4. With handlers that never ask for a negative delay the simulation is in order on the default scheduler, the calendar
  queue. Time never goes backwards and the queue never fails: the only errors are a missing handler, an event that is scheduled twice, and no
  numbers left. Each command that runs the simulation dispatches events in the order of their times, those of one time in the order in which they were scheduled (and
  \<open>dumpq\<close> prints them in this order), and no event is dispatched or printed twice in the whole script.\<close>

theorem simulation_in_order:
  assumes "delays_ok handle" "0 < um"
  shows "case script um calendar_scheduler handle cs (new_sim (new_calendar raw) w) of
      Inl x \<Rightarrow> benign x
    | Inr (rs, s) \<Rightarrow> list_all (\<lambda>r. sorted_wrt before (snd r)) rs \<and> distinct (map ev_uid (concat (map snd rs)))"
proof -
  let ?x = "script um calendar_scheduler handle cs (new_sim (new_calendar raw) w)" and ?y = "script um list_scheduler handle cs (new_sim [] w)"
  have "agree (\<lambda>(r, s) (r', t). r = r' \<and> simulates calendar_rep um s t) ?x ?y" by (rule new_calendar_agrees [OF assms])
  moreover have "spent {} (new_sim [] w)" by (simp add: spent_def)
  ultimately show ?thesis
    using script_in_order [OF assms(1) new_list_simulates [OF assms(2)]] spent_script [OF assms(1) new_list_simulates [OF assms(2)]]
    by (cases ?x; cases ?y) (fastforce simp: benign_iff list_all_iff)+
qed

theorem simulation_in_order_witness:
  "\<forall>raw. case script 9 calendar_scheduler tick_handlers tick_script (new_sim (new_calendar raw) 1) of
      Inl x \<Rightarrow> benign x
    | Inr (rs, s) \<Rightarrow> list_all (\<lambda>r. sorted_wrt before (snd r)) rs \<and> distinct (map ev_uid (concat (map snd rs)))"
  using simulation_in_order [OF tick_delays] by simp




text \<open>A negative delay.\<close>

context event_queue
begin

lemma negative_delay:
  assumes st: "simulates rep um s t" and s: "\<not> sim_halted s" "0 < sim_uid s" and d: "d < 0" "0 \<le> sim_clock s + d"
  shows "\<exists>s'. schedule um ops (Some h) 0 d s = Inr s' \<and> run_sim um ops handle (Suc n) s' = Inl Going_Backwards"
proof -
  note S = simulatesD [OF st]
  have same: "sim_uid s = sim_uid t" "sim_clock s = sim_clock t" using S(1) by (simp_all add: same_but_queue_def)
  define e where "e = \<lparr>ev_uid = sim_uid s, ev_time = sim_clock s + d, ev_handler = h\<rparr>"
  have e: "ev_uid e = sim_uid s" "ev_time e = sim_clock s + d" by (simp_all add: e_def)
  have "fresh e (sim_queue t)" using S(2) s(2) d(2) same by (simp add: fresh_def sim_ok_def e)
  moreover have "\<exists>m. room um t = Suc m" using S(5) s(2) same by (intro exI [of _ "room um t - 1"]) (simp add: room_def)
  ultimately obtain m q where q: "op_insert ops e (sim_queue s) = Some q" "rep m q (list_insert e (sim_queue t))"
    using insert_ok S(3) by metis
  have "list_insert e (sim_queue t) = e # sim_queue t"
    using S(2) d(1) same by (cases "sim_queue t") (auto simp: sim_ok_def e)
  then obtain q' where "op_deque ops q = Some (Some e, q')" using deque_ok [OF q(2)] by (auto simp: list_head_def)
  then show ?thesis using q(1) s d(1) by (simp add: schedule_def e_def dispatch_def)
qed

end



end
