(* ===== verification/Std_Set.thy ===== *)
theory Std_Set
  imports Main
begin

section \<open>Ordered sets of the C++ library\<close>

text \<open>
  A \<open>std::set\<close> is the list of its elements in the order of the iteration. The comparison \<open>lt\<close> is the one the source passes as a template argument.
\<close>

subsection \<open>Operations\<close>

text \<open>\<open>insert\<close> does nothing when an equivalent element is there. \<open>find\<close> with \<open>erase\<close> removes an equivalent element.\<close>

fun std_insert :: "('a \<Rightarrow> 'a \<Rightarrow> bool) \<Rightarrow> 'a \<Rightarrow> 'a list \<Rightarrow> 'a list" where
  "std_insert lt x [] = [x]"
| "std_insert lt x (y # ys) = (if lt x y then x # y # ys else if lt y x then y # std_insert lt x ys else y # ys)"

fun std_find_erase :: "('a \<Rightarrow> 'a \<Rightarrow> bool) \<Rightarrow> 'a \<Rightarrow> 'a list \<Rightarrow> 'a list" where
  "std_find_erase lt x [] = []"
| "std_find_erase lt x (y # ys) = (if \<not> lt x y \<and> \<not> lt y x then ys else y # std_find_erase lt x ys)"

subsection \<open>The contract of the comparison\<close>

locale std_order =
  fixes lt :: "'a \<Rightarrow> 'a \<Rightarrow> bool"
  assumes asym: "lt x y \<Longrightarrow> \<not> lt y x"
    and trans: "lt x y \<Longrightarrow> lt y z \<Longrightarrow> lt x z"
    and incomparable: "\<not> lt x y \<Longrightarrow> \<not> lt y x \<Longrightarrow> lt y z \<Longrightarrow> lt x z"
begin

lemma set_insert_subset: "set (std_insert lt x ys) \<subseteq> insert x (set ys)"
  by (induction ys) auto

lemma set_insert_keeps: "set ys \<subseteq> set (std_insert lt x ys)"
  by (induction ys) auto

lemma set_insert_new: "\<forall>y \<in> set ys. lt x y \<or> lt y x \<Longrightarrow> set (std_insert lt x ys) = insert x (set ys)"
  by (induction ys) auto

lemma set_insert_present:
  assumes "sorted_wrt lt ys" "y \<in> set ys" "\<not> lt x y" "\<not> lt y x"
  shows "std_insert lt x ys = ys"
  using assms
proof (induction ys)
  case (Cons z zs)
  show ?case
  proof (cases "y = z")
    case False
    then have "lt z y" "y \<in> set zs" using Cons.prems by auto
    then have "lt z x" "\<not> lt x z" using incomparable asym trans Cons.prems(3,4) by blast+
    then show ?thesis using Cons \<open>y \<in> set zs\<close> by simp
  qed (use Cons.prems in simp)
qed simp

lemma sorted_insert: "sorted_wrt lt ys \<Longrightarrow> sorted_wrt lt (std_insert lt x ys)"
proof (induction ys)
  case (Cons y ys)
  have ys: "sorted_wrt lt ys" "\<forall>z \<in> set ys. lt y z" using Cons.prems by simp_all
  show ?case
  proof (cases "lt x y")
    case True
    then have "\<forall>z \<in> set ys. lt x z" using ys(2) trans by blast
    then show ?thesis using True Cons.prems by simp
  next
    case False
    then show ?thesis using Cons.IH [OF ys(1)] ys(2) set_insert_subset [of x ys] Cons.prems by auto
  qed
qed simp

lemma find_erase_member: "sorted_wrt lt ys \<Longrightarrow> y \<in> set ys \<Longrightarrow> std_find_erase lt y ys = remove1 y ys"
proof (induction ys)
  case (Cons z zs)
  show ?case
  proof (cases "z = y")
    case True
    then show ?thesis using asym by auto
  next
    case False
    then have "lt z y" "y \<in> set zs" using Cons.prems by auto
    then show ?thesis using Cons False by simp
  qed
qed simp

end

end
