(* ===== verification/Map_Queue.thy ===== *)
theory Map_Queue
  imports Event_Queue Std_Set
begin

section \<open>The scheduler on a set (\<open>common/scheduler-map.cc\<close>)\<close>

text \<open>
  This scheduler keeps the events in a \<open>std::set\<close> that is ordered by \<open>event_less_adapter\<close>. The set is the list of its elements in the order of the
  iteration (\<open>Std_Set\<close>). Dereferencing an iterator that points to no element is undefined: the result is \<open>None\<close>.
\<close>

subsection \<open>The set\<close>

definition event_less_adapter :: "'h event \<Rightarrow> 'h event \<Rightarrow> bool" where
  "event_less_adapter e1 e2 \<longleftrightarrow> ev_time e1 < ev_time e2 \<or> ev_time e1 = ev_time e2 \<and> ev_uid e1 < ev_uid e2"

subsection \<open>Operations\<close>

definition map_insert :: "'h event \<Rightarrow> 'h event list \<Rightarrow> 'h event list option" where
  "map_insert e q = Some (std_insert event_less_adapter e q)"

definition map_cancel :: "'h event \<Rightarrow> 'h event list \<Rightarrow> 'h event list option" where
  "map_cancel e q = Some (std_find_erase event_less_adapter e q)"

definition map_lookup :: "int \<Rightarrow> 'h event list \<Rightarrow> 'h event option" where
  "map_lookup u q = find (\<lambda>e. ev_uid e = u) q"

text \<open>\<open>deque\<close> erases the first element and then dereferences the iterator to it. An iterator is a position, or \<open>None\<close> when its element has been erased.\<close>

definition deref :: "'h event list \<Rightarrow> nat option \<Rightarrow> 'h event option" where
  "deref q i = (case i of None \<Rightarrow> None | Some i \<Rightarrow> if i < length q then Some (q ! i) else None)"

definition map_deque :: "'h event list \<Rightarrow> ('h event option \<times> 'h event list) option" where
  "map_deque q =
     (if q = [] then Some (None, q)
      else do { e \<leftarrow> deref (tl q) None; Some (Some e, tl q) })"

definition map_head :: "'h event list \<Rightarrow> ('h event option \<times> 'h event list) option" where
  "map_head q = do { e \<leftarrow> deref q (Some 0); Some (Some e, q) }"

definition map_scheduler :: "('h, 'h event list) sched_ops" where
  "map_scheduler =
     \<lparr>op_insert = map_insert, op_cancel = map_cancel, op_lookup = map_lookup, op_deque = map_deque, op_head = map_head\<rparr>"

subsection \<open>Properties\<close>

lemma event_less_before: "event_less_adapter e p \<longleftrightarrow> before e p"
  by (simp add: event_less_adapter_def before_def)

lemma set_insert_fresh: "queue_ok es \<Longrightarrow> fresh e es \<Longrightarrow> std_insert event_less_adapter e es = list_insert e es"
  by (induction es) (auto simp: event_less_adapter_def queue_ok_Cons fresh_def)

interpretation event_order: std_order event_less_adapter
  by unfold_locales (auto simp: event_less_adapter_def)

lemma queue_ok_sorted: "queue_ok es \<Longrightarrow> sorted_wrt event_less_adapter es"
  by (induction es) (simp_all add: queue_ok_Cons event_less_before)

lemma set_find_erase_ok: "queue_ok es \<Longrightarrow> e \<in> set es \<Longrightarrow> std_find_erase event_less_adapter e es = remove1 e es"
  by (rule event_order.find_erase_member [OF queue_ok_sorted])

text \<open>Insertion, cancellation and the search are those of the list.\<close>

lemma map_step:
  assumes es: "queue_ok es" and x: "case x of Insert e \<Rightarrow> fresh e es | Deque \<Rightarrow> False | Peek \<Rightarrow> False | _ \<Rightarrow> True"
  shows "queue_step map_scheduler x es = queue_step list_scheduler x es"
proof (cases x)
  case (Insert e)
  then show ?thesis using set_insert_fresh [OF es] x by (simp add: map_scheduler_def list_scheduler_def map_insert_def)
next
  case (Cancel u)
  show ?thesis
  proof (cases "list_lookup u es")
    case None
    then show ?thesis using Cancel by (simp add: map_scheduler_def list_scheduler_def cancel_uid_def map_lookup_def list_lookup_def)
  next
    case (Some e)
    then have "e \<in> set es" "0 < ev_uid e" using es list_lookup_mem [of u es e] by (auto simp: queue_ok_def)
    then show ?thesis
      using Cancel Some set_find_erase_ok [OF es] list_unlink_ok [OF es]
      by (simp add: map_scheduler_def list_scheduler_def cancel_uid_def map_lookup_def list_lookup_def map_cancel_def list_cancel_def)
  qed
next
  case (Lookup u)
  then show ?thesis by (simp add: map_scheduler_def list_scheduler_def map_lookup_def list_lookup_def)
qed (use x in auto)

text \<open>Operations that neither remove nor look at the first event.\<close>

definition no_head :: "'h queue_event \<Rightarrow> bool" where
  "no_head x \<longleftrightarrow> (case x of Deque \<Rightarrow> False | Peek \<Rightarrow> False | _ \<Rightarrow> True)"

lemma map_run:
  assumes "queue_ok es" "good_inserts xs" "list_all no_head xs" "\<forall>p \<in> set es. \<forall>e \<in> set (inserts xs). ev_uid p < ev_uid e"
  shows "queue_run map_scheduler xs es = queue_run list_scheduler xs es \<and>
    (\<forall>rs e. queue_run list_scheduler (xs @ [Deque]) es = Some (rs @ [Some e]) \<longrightarrow> queue_run map_scheduler (xs @ [Deque]) es = None)"
  using assms
proof (induction xs arbitrary: es)
  case Nil
  then show ?case
    by (cases es) (auto simp: map_scheduler_def list_scheduler_def map_deque_def deref_def)
next
  case (Cons x xs)
  have x: "case x of Insert e \<Rightarrow> fresh e es | Deque \<Rightarrow> False | Peek \<Rightarrow> False | _ \<Rightarrow> True"
    using Cons.prems(2-4) good_inserts_Cons [of x xs] by (cases x) (auto simp: fresh_def no_head_def)
  then have x': "case x of Insert e \<Rightarrow> fresh e es | _ \<Rightarrow> True" by (cases x) simp_all
  obtain r es' where step: "queue_step list_scheduler x es = Some (r, es')" "queue_ok es'" "set es' \<subseteq> set es \<union> set (inserts [x])"
    using list_queue.step_ok [where q = es and es = es and x = x] Cons.prems(1) x' by auto
  have same: "queue_step map_scheduler x es = Some (r, es')" using map_step [OF Cons.prems(1) x] step(1) by simp
  have "\<forall>p \<in> set es'. \<forall>e \<in> set (inserts xs). ev_uid p < ev_uid e"
    using Cons.prems(2,4) good_inserts_Cons [of x xs] step(3) by (cases x) auto
  then have IH: "queue_run map_scheduler xs es' = queue_run list_scheduler xs es' \<and>
    (\<forall>rs e. queue_run list_scheduler (xs @ [Deque]) es' = Some (rs @ [Some e]) \<longrightarrow> queue_run map_scheduler (xs @ [Deque]) es' = None)"
    using Cons.IH [OF step(2)] Cons.prems(2,3) good_inserts_Cons [of x xs] by simp
  have "queue_run map_scheduler ((x # xs) @ [Deque]) es = None"
    if run: "queue_run list_scheduler ((x # xs) @ [Deque]) es = Some (rs @ [Some e])" for rs e
  proof -
    obtain rs' where rs': "queue_run list_scheduler (xs @ [Deque]) es' = Some rs'" "rs @ [Some e] = r # rs'"
      using run step(1) by (auto split: bind_splits)
    have "length rs' = Suc (length xs)" if "queue_run ops (xs @ [Deque]) q = Some rs'" for ops :: "('a, 'b) sched_ops" and q and xs and rs'
      using that by (induction xs arbitrary: q rs') (auto split: bind_splits)
    then have "rs' \<noteq> []" using rs'(1) by force
    then obtain rs1 where "rs' = rs1 @ [Some e]" using rs'(2) by (cases rs) auto
    then show ?thesis using IH rs'(1) same by simp
  qed
  then show ?case using IH step(1) same by simp
qed

text \<open>C36. The scheduler on a set cannot run a simulation: insertions, cancellations and searches do what the sorted list does, but then,
  wherever the list would give the next event, \<open>deque\<close> dereferences the iterator it has just erased, which is undefined.\<close>

theorem map_deque_undefined:
  assumes "good_inserts xs" "list_all no_head xs"
  shows "queue_run map_scheduler xs [] = queue_run list_scheduler xs [] \<and>
    (\<forall>rs e. queue_run list_scheduler (xs @ [Deque]) [] = Some (rs @ [Some e]) \<longrightarrow> queue_run map_scheduler (xs @ [Deque]) [] = None)"
  using map_run [OF _ assms, of "[]"] by simp

theorem map_deque_undefined_witness:
  "queue_run map_scheduler [Insert (example_event 1 2), Cancel 7, Deque] [] = None"
  using map_deque_undefined [of "[Insert (example_event 1 2), Cancel 7]"]
  by (simp add: good_inserts_def no_head_def list_scheduler_def cancel_uid_def list_lookup_def)

end
