(* ===== verification/Aspu_Address.thy ===== *)
theory Aspu_Address
  imports Prelude
begin

section \<open>Addresses of the ASPU protocol (\<open>src/aspu_function.h\<close>)\<close>

text \<open>
  A node has an identifier, which does not change, and a dynamic address of 16 bits, which depends on where the node is. The addresses are the
  leaves of a binary tree: the level sibling of two addresses is the highest bit in which they differ, and so the height of the
  smallest subtree that has both. An address is an \<open>nsaddr_t\<close>, a signed integer, of which a \<open>bitset\<close> takes the 16 low bits.
\<close>

subsection \<open>Operations\<close>

type_synonym nsaddr = int

abbreviation ADDR_SIZE :: nat where "ADDR_SIZE \<equiv> 16"

abbreviation INFINITO :: int where "INFINITO \<equiv> 65535"

abbreviation IP_BROADCAST :: nsaddr where "IP_BROADCAST \<equiv> - 1"

fun diff_from :: "nat \<Rightarrow> nsaddr \<Rightarrow> nsaddr \<Rightarrow> int" where
  "diff_from 0 n1 n2 = - 1"
| "diff_from (Suc i) n1 n2 = (if bit n1 i \<noteq> bit n2 i then int i else diff_from i n1 n2)"

definition DiffBit :: "nsaddr \<Rightarrow> nsaddr \<Rightarrow> int" where
  "DiffBit n1 n2 = diff_from ADDR_SIZE n1 n2"

text \<open>The hash of an identifier is the address where its own address is stored: its bits in the reverse order, with the highest one flipped.\<close>

definition hash :: "nsaddr \<Rightarrow> nsaddr" where
  "hash ident =
     (let address = fold (\<lambda>i a. if bit ident i then set_bit (ADDR_SIZE - 1 - i) a else a) [0..<ADDR_SIZE] 0
      in flip_bit (ADDR_SIZE - 1) address)"

subsection \<open>The tree of addresses\<close>

definition same_above :: "int \<Rightarrow> nsaddr \<Rightarrow> nsaddr \<Rightarrow> bool" where
  "same_above l a b \<longleftrightarrow> (\<forall>i < ADDR_SIZE. l < int i \<longrightarrow> bit a i = bit b i)"

lemma diff_from_range: "- 1 \<le> diff_from n a b \<and> diff_from n a b < int n"
  by (induction n) auto

lemma diff_from_above: "i < n \<Longrightarrow> diff_from n a b < int i \<Longrightarrow> bit a i = bit b i"
proof (induction n)
  case (Suc n)
  then show ?case by (cases "i = n") (auto split: if_splits)
qed simp

lemma diff_from_at: "diff_from n a b = int i \<Longrightarrow> bit a i \<noteq> bit b i"
  by (induction n) (auto split: if_splits)

lemma diff_from_least: "l < int n \<Longrightarrow> - 1 \<le> l \<Longrightarrow> \<forall>i < n. l < int i \<longrightarrow> bit a i = bit b i \<Longrightarrow> diff_from n a b \<le> l"
proof (induction n)
  case (Suc n)
  show ?case
  proof (cases "l < int n")
    case True
    then show ?thesis using Suc by simp
  next
    case False
    then show ?thesis using diff_from_range [of "Suc n" a b] Suc.prems(1) by linarith
  qed
qed simp

lemma DiffBit_range: "- 1 \<le> DiffBit a b" "DiffBit a b < 16"
  using diff_from_range [of 16 a b] by (simp_all add: DiffBit_def)

lemma DiffBit_above: "same_above (DiffBit a b) a b"
  using diff_from_above by (auto simp: same_above_def DiffBit_def)

lemma DiffBit_at: "DiffBit a b = int i \<Longrightarrow> bit a i \<noteq> bit b i"
  unfolding DiffBit_def by (rule diff_from_at)

lemma DiffBit_least: "same_above l a b \<Longrightarrow> - 1 \<le> l \<Longrightarrow> DiffBit a b \<le> l"
proof (cases "l < 16")
  case True
  assume "same_above l a b" "- 1 \<le> l"
  then show ?thesis using diff_from_least [of l 16 a b] True by (simp add: DiffBit_def same_above_def)
next
  case False
  then show ?thesis using DiffBit_range(2) [of a b] by linarith
qed

lemma same_above_sym: "same_above l a b \<longleftrightarrow> same_above l b a"
  by (auto simp: same_above_def)

lemma same_above_mono: "same_above l a b \<Longrightarrow> l \<le> m \<Longrightarrow> same_above m a b"
  by (auto simp: same_above_def)

lemma same_above_trans: "same_above l a b \<Longrightarrow> same_above l b c \<Longrightarrow> same_above l a c"
  by (auto simp: same_above_def)

lemma DiffBit_sym: "DiffBit a b = DiffBit b a"
proof -
  have le: "DiffBit x y \<le> DiffBit y x" for x y
    using DiffBit_least [OF _ DiffBit_range(1)] DiffBit_above same_above_sym by blast
  show ?thesis using le [of a b] le [of b a] by linarith
qed

lemma DiffBit_ultrametric: "DiffBit a c \<le> max (DiffBit a b) (DiffBit b c)"
proof (rule DiffBit_least)
  show "same_above (max (DiffBit a b) (DiffBit b c)) a c"
    by (rule same_above_trans [of _ a b c]) (auto intro: same_above_mono [OF DiffBit_above])
  show "- 1 \<le> max (DiffBit a b) (DiffBit b c)" using DiffBit_range(1) [of a b] by simp
qed

text \<open>Two addresses in the sibling of a subtree are nearer to each other.\<close>

lemma DiffBit_sibling:
  assumes "DiffBit a b = int l" "DiffBit a c = int l"
  shows "DiffBit b c < int l"
proof -
  have "same_above (int l) a b" "same_above (int l) a c" using DiffBit_above [of a b] DiffBit_above [of a c] assms by simp_all
  moreover have "bit b l = bit c l" using DiffBit_at [OF assms(1)] DiffBit_at [OF assms(2)] by auto
  ultimately have "bit b i = bit c i" if "i < 16" "int l - 1 < int i" for i
    using that by (cases "i = l") (auto simp: same_above_def)
  then have "same_above (int l - 1) b c" by (simp add: same_above_def)
  moreover have "- 1 \<le> int l - 1" by simp
  ultimately have "DiffBit b c \<le> int l - 1" by (rule DiffBit_least)
  then show ?thesis by simp
qed

lemma DiffBit_none: "DiffBit a b = - 1 \<longleftrightarrow> take_bit ADDR_SIZE a = take_bit ADDR_SIZE b"
proof
  assume "DiffBit a b = - 1"
  then have "bit a i = bit b i" if "i < ADDR_SIZE" for i using DiffBit_above [of a b] that by (simp add: same_above_def)
  then show "take_bit ADDR_SIZE a = take_bit ADDR_SIZE b" by (intro bit_eqI) (auto simp: bit_take_bit_iff)
next
  assume "take_bit ADDR_SIZE a = take_bit ADDR_SIZE b"
  then have "bit a i = bit b i" if "i < 16" for i using that by (metis bit_take_bit_iff)
  then have "same_above (- 1) a b" by (simp add: same_above_def)
  then show "DiffBit a b = - 1" using DiffBit_least [of "- 1" a b] DiffBit_range(1) [of a b] by simp
qed

text \<open>The level sibling of two addresses is -1 exactly when their 16 low bits agree, and otherwise the highest bit below 16 in which they
  differ. It is an ultrametric: it is symmetric, and the level of two addresses is at most the larger one of their levels to a third.\<close>

lemma DiffBit_correct:
  "(DiffBit a b = - 1 \<longleftrightarrow> take_bit ADDR_SIZE a = take_bit ADDR_SIZE b) \<and>
   (DiffBit a b = int l \<longleftrightarrow> l < ADDR_SIZE \<and> bit a l \<noteq> bit b l \<and> same_above (int l) a b) \<and>
   DiffBit a b = DiffBit b a \<and> DiffBit a c \<le> max (DiffBit a b) (DiffBit b c)"
proof (intro conjI)
  show "DiffBit a b = - 1 \<longleftrightarrow> take_bit ADDR_SIZE a = take_bit ADDR_SIZE b" by (rule DiffBit_none)
  show "DiffBit a b = int l \<longleftrightarrow> l < ADDR_SIZE \<and> bit a l \<noteq> bit b l \<and> same_above (int l) a b"
  proof
    assume "DiffBit a b = int l"
    then show "l < ADDR_SIZE \<and> bit a l \<noteq> bit b l \<and> same_above (int l) a b"
      using DiffBit_range(2) [of a b] DiffBit_at [of a b l] DiffBit_above [of a b] by simp
  next
    assume l: "l < ADDR_SIZE \<and> bit a l \<noteq> bit b l \<and> same_above (int l) a b"
    then have "\<not> DiffBit a b < int l" using DiffBit_above [of a b] by (auto simp: same_above_def)
    moreover have "DiffBit a b \<le> int l" using DiffBit_least l by simp
    ultimately show "DiffBit a b = int l" by linarith
  qed
qed (rule DiffBit_sym, rule DiffBit_ultrametric)

subsection \<open>The hash\<close>

lemma bit_fold_set:
  "bit (fold (\<lambda>i a. if bit x i then set_bit (15 - i) a else a) [0..<n] (0 :: int)) j \<longleftrightarrow> (\<exists>i < n. 15 - i = j \<and> bit x i)" for x :: int
  by (induction n) (auto simp: bit_set_bit_iff less_Suc_eq)

lemma bit_hash: "bit (hash x) j \<longleftrightarrow> (if j = 15 then \<not> bit x 0 else j < 15 \<and> bit x (15 - j))"
proof -
  have "(\<exists>i < 16. 15 - i = j \<and> bit x i) \<longleftrightarrow> j \<le> 15 \<and> bit x (15 - j)"
  proof
    assume "\<exists>i < 16. 15 - i = j \<and> bit x i"
    then obtain i where "i < 16" "15 - i = j" "bit x i" by blast
    then have "15 - j = i" by linarith
    then show "j \<le> 15 \<and> bit x (15 - j)" using \<open>bit x i\<close> \<open>15 - i = j\<close> by auto
  next
    assume "j \<le> 15 \<and> bit x (15 - j)"
    then show "\<exists>i < 16. 15 - i = j \<and> bit x i" by (intro exI [of _ "15 - j"]) auto
  qed
  moreover have "hash x = flip_bit 15 (fold (\<lambda>i a. if bit x i then set_bit (15 - i) a else a) [0..<16] 0)"
  proof -
    have eq: "ADDR_SIZE - 1 - i = 15 - i" for i :: nat by simp
    show ?thesis unfolding hash_def Let_def eq by simp
  qed
  ultimately show ?thesis using bit_fold_set [of x 16 j] by (cases "j = 15") (auto simp: bit_flip_bit_iff)
qed

lemma hash_bounds: "0 \<le> hash x \<and> hash x < 65536"
proof -
  have "take_bit 16 (hash x) = hash x" by (rule bit_eqI) (auto simp: bit_take_bit_iff bit_hash)
  then show ?thesis using take_bit_int_less_exp [of 16 "hash x"] take_bit_nonnegative [of 16 "hash x"] by simp
qed

text \<open>The hash spreads the identifiers over all addresses: it is an address of 16 bits, two identifiers have the same hash only if their 16 low
  bits agree, and every address is a hash. Its bits are those of the identifier in the reverse order, but for the highest one.\<close>

lemma hash_permutation:
  "0 \<le> hash x \<and> hash x < 65536 \<and> (hash x = hash y \<longleftrightarrow> take_bit ADDR_SIZE x = take_bit ADDR_SIZE y) \<and>
   hash (flip_bit 15 (hash (flip_bit 15 z))) = take_bit ADDR_SIZE z \<and>
   (bit (hash x) j \<longleftrightarrow> (if j = 15 then \<not> bit x 0 else j < 15 \<and> bit x (15 - j)))"
proof (intro conjI)
  show "hash x = hash y \<longleftrightarrow> take_bit ADDR_SIZE x = take_bit ADDR_SIZE y"
  proof
    assume eq: "hash x = hash y"
    have "bit x i = bit y i" if "i < 16" for i
    proof -
      have "bit (hash x) (15 - i) = bit (hash y) (15 - i)" unfolding eq ..
      moreover have "15 - (15 - i) = i" "15 - i = 15 \<longleftrightarrow> i = 0" using that by linarith+
      ultimately show ?thesis using that by (cases "i = 0") (simp_all add: bit_hash)
    qed
    then show "take_bit ADDR_SIZE x = take_bit ADDR_SIZE y" by (intro bit_eqI) (auto simp: bit_take_bit_iff)
  next
    assume "take_bit ADDR_SIZE x = take_bit ADDR_SIZE y"
    then have "bit x i = bit y i" if "i < 16" for i using that by (metis bit_take_bit_iff)
    then show "hash x = hash y" by (intro bit_eqI) (simp add: bit_hash)
  qed
  show "hash (flip_bit 15 (hash (flip_bit 15 z))) = take_bit ADDR_SIZE z"
  proof (rule bit_eqI)
    fix n :: nat
    have "15 - (15 - n) = n \<and> (15 - n = 15 \<longleftrightarrow> n = 0)" if "n \<le> 15" using that by linarith
    then show "bit (hash (flip_bit 15 (hash (flip_bit 15 z)))) n = bit (take_bit ADDR_SIZE z) n"
      by (cases "n = 0"; cases "n = 15"; cases "n < 15") (simp_all add: bit_hash bit_flip_bit_iff bit_take_bit_iff)
  qed
qed (use hash_bounds bit_hash in auto)

end
