(* ===== verification/Aspu_Neighbor.thy ===== *)
theory Aspu_Neighbor
  imports Aspu_Address Complex_Main
begin

section \<open>Neighbours of an ASPU node (\<open>src/aspu.h\<close>)\<close>

text \<open>
  For each neighbour a node keeps the table of the last hello message: for each level of the tree of addresses, the smallest identifier the
  neighbour can reach in its sibling subtree, and the hops, the metric and the route log of that route. Hops of 65535 stand for no route. The hello messages
  that came in the last 10.5 seconds give the quality of the link.
\<close>

subsection \<open>State\<close>

record NeighborTable =
  networkIds :: "nat \<Rightarrow> nsaddr"
  hopNumbers :: "nat \<Rightarrow> u32"
  etxMetrics :: "nat \<Rightarrow> real"
  interfaces :: "nat \<Rightarrow> u8"
  routeLogs :: "nat \<Rightarrow> 16 word"

record Neighbor =
  forLinkQuality :: real
  nb_address :: nsaddr
  nb_id :: nsaddr
  nb_expire :: real
  nb_table :: NeighborTable
  helloVector :: "(real \<times> u32) list"

abbreviation NO_HOPS :: u32 where "NO_HOPS \<equiv> 65535"

abbreviation RTR_ETX_MAX :: real where "RTR_ETX_MAX \<equiv> 512"

abbreviation LQE_THRESHOLD :: real where "LQE_THRESHOLD \<equiv> 6 / 10"

abbreviation NDP_NEIGHBOR_EXPIRE :: real where "NDP_NEIGHBOR_EXPIRE \<equiv> 105 / 10"

subsection \<open>The table of a neighbour\<close>

definition entryPresent :: "NeighborTable \<Rightarrow> nat \<Rightarrow> bool" where
  "entryPresent t l \<longleftrightarrow> hopNumbers t l < NO_HOPS"

text \<open>The highest level without a route; \<open>n\<close> is one more than the level the loop is at.\<close>

fun free_from :: "nat \<Rightarrow> NeighborTable \<Rightarrow> int" where
  "free_from 0 t = - 1"
| "free_from (Suc i) t = (if hopNumbers t i = NO_HOPS then int i else free_from i t)"

definition insertionPoint :: "NeighborTable \<Rightarrow> int" where
  "insertionPoint t = free_from ADDR_SIZE t"

text \<open>The smallest identifier of the subtree of a level: the neighbour itself or one of those it can reach below.\<close>

definition neighbor_levelId :: "NeighborTable \<Rightarrow> int \<Rightarrow> nsaddr \<Rightarrow> nsaddr" where
  "neighbor_levelId t l ident =
     fold (\<lambda>i m. if entryPresent t i \<and> networkIds t i < m then networkIds t i else m) (rev [0..<nat (l + 1)]) ident"

definition neighbor_networkId :: "NeighborTable \<Rightarrow> nat \<Rightarrow> nsaddr" where
  "neighbor_networkId t l = (if entryPresent t l \<and> networkIds t l < INFINITO then networkIds t l else INFINITO)"

definition neighbor_hopNumber :: "NeighborTable \<Rightarrow> nat \<Rightarrow> u32" where
  "neighbor_hopNumber t l = (if hopNumbers t l < NO_HOPS then hopNumbers t l else NO_HOPS)"

definition neighbor_etxMetric :: "NeighborTable \<Rightarrow> nat \<Rightarrow> real" where
  "neighbor_etxMetric t l = (if etxMetrics t l < RTR_ETX_MAX then etxMetrics t l else RTR_ETX_MAX)"

definition neighbor_routeLog :: "NeighborTable \<Rightarrow> nat \<Rightarrow> 16 word" where
  "neighbor_routeLog t l = (if entryPresent t l then routeLogs t l else 0)"

subsection \<open>The link to a neighbour\<close>

definition revLinkQuality :: "Neighbor \<Rightarrow> real" where
  "revLinkQuality n =
     (let q = real (length (helloVector n)) in if q / 10 > 1 then 1 else q / 10)"

definition linkQuality :: "Neighbor \<Rightarrow> real" where
  "linkQuality n = revLinkQuality n * forLinkQuality n"

definition link_etxMetric :: "Neighbor \<Rightarrow> real" where
  "link_etxMetric n =
     (let m = (if linkQuality n \<noteq> 0 then 1 / linkQuality n else RTR_ETX_MAX)
      in if m > RTR_ETX_MAX then RTR_ETX_MAX else m)"

definition addHello :: "real \<Rightarrow> u32 \<Rightarrow> Neighbor \<Rightarrow> Neighbor" where
  "addHello now seq n = n\<lparr>helloVector := helloVector n @ [(now, seq)]\<rparr>"

text \<open>The loop goes on with an iterator that \<open>erase\<close> has invalidated, which is undefined: \<open>None\<close>.\<close>

fun purge_hellos :: "real \<Rightarrow> (real \<times> u32) list \<Rightarrow> (real \<times> u32) list option" where
  "purge_hellos now [] = Some []"
| "purge_hellos now (h # hs) =
     (if fst h + NDP_NEIGHBOR_EXPIRE \<le> now then None else map_option ((#) h) (purge_hellos now hs))"

definition set_neighbor_address :: "real \<Rightarrow> nsaddr \<Rightarrow> u32 \<Rightarrow> Neighbor \<Rightarrow> Neighbor option" where
  "set_neighbor_address now address seq n =
     map_option (\<lambda>hs. addHello now seq (n\<lparr>nb_address := address, nb_expire := now + NDP_NEIGHBOR_EXPIRE, helloVector := hs\<rparr>))
       (purge_hellos now (helloVector n))"

subsection \<open>Facts\<close>

lemma free_from_level:
  assumes "free_from n t = int i"
  shows "i < n \<and> hopNumbers t i = NO_HOPS \<and> (\<forall>j. i < j \<longrightarrow> j < n \<longrightarrow> hopNumbers t j \<noteq> NO_HOPS)"
  using assms
proof (induction n)
  case (Suc n)
  then show ?case by (cases "hopNumbers t n = NO_HOPS") (auto simp: less_Suc_eq)
qed simp

lemma free_from_range: "- 1 \<le> free_from n t \<and> free_from n t < int n"
  by (induction n) auto

lemma insertionPoint_range: "- 1 \<le> insertionPoint t" "insertionPoint t < 16"
  using free_from_range [of 16 t] by (simp_all add: insertionPoint_def)

lemma fold_min_le: "fold (\<lambda>i m. if P i \<and> f i < m then f i else m) xs m \<le> m" for m :: int
  by (induction xs arbitrary: m) (simp_all, meson leD linorder_linear order_trans)

lemma neighbor_levelId_le: "neighbor_levelId t l ident \<le> ident"
  unfolding neighbor_levelId_def by (rule fold_min_le)

lemma link_etxMetric_le: "link_etxMetric n \<le> RTR_ETX_MAX"
  by (simp add: link_etxMetric_def Let_def)

lemma revLinkQuality_range: "0 \<le> revLinkQuality n \<and> revLinkQuality n \<le> 1"
  by (simp add: revLinkQuality_def Let_def)

end
