(* ===== verification/Aspu_Table.thy ===== *)
theory Aspu_Table
  imports Aspu_Neighbor Std_Set
begin

section \<open>Routing table of an ASPU node (\<open>src/aspu_rtable.cc\<close>, \<open>src/aspu_rtable.h\<close>)\<close>

text \<open>
  The table has one set of entries for each of the 16 levels: those of level \<open>l\<close> lead to the sibling subtree of the node's
  address at that level. A set is ordered by the address of the next hop (\<open>Std_Set\<close>). A loop that goes on with an erased
  iterator, or reads through one, is undefined: \<open>None\<close>.

  The source calls \<open>addEntry\<close> with an interface it does not have: without the argument for a direct neighbour, and with that of
  an undeclared \<open>interface_\<close> otherwise. The two are the parameters \<open>if_direct\<close> and \<open>if_via\<close>.
\<close>

subsection \<open>State\<close>

record RoutingEntry =
  nextHopId :: nsaddr
  nextHopAdd :: nsaddr
  re_networkId :: nsaddr
  re_hopNumber :: u32
  re_etxMetric :: real
  re_macFailed :: bool
  re_routeLog :: "16 word"
  re_interface :: u8

type_synonym rtable = "RoutingEntry list list"

abbreviation MAXINTERF :: u8 where "MAXINTERF \<equiv> 3"

definition empty_table :: rtable where
  "empty_table = replicate ADDR_SIZE []"

definition RoutingEntry_new :: "nsaddr \<Rightarrow> nsaddr \<Rightarrow> nsaddr \<Rightarrow> u32 \<Rightarrow> real \<Rightarrow> 16 word \<Rightarrow> u8 \<Rightarrow> RoutingEntry" where
  "RoutingEntry_new add ident network hops etx lg ifc =
     \<lparr>nextHopId = ident, nextHopAdd = add, re_networkId = network, re_hopNumber = hops, re_etxMetric = etx, re_macFailed = False,
      re_routeLog = lg, re_interface = ifc\<rparr>"

fun compare_from :: "nat \<Rightarrow> nsaddr \<Rightarrow> nsaddr \<Rightarrow> bool" where
  "compare_from 0 a b = False"
| "compare_from (Suc i) a b =
     (if \<not> bit a i \<and> bit b i then True else if bit a i \<and> \<not> bit b i then False else compare_from i a b)"

definition setCompare :: "RoutingEntry \<Rightarrow> RoutingEntry \<Rightarrow> bool" where
  "setCompare e1 e2 = compare_from ADDR_SIZE (nextHopAdd e1) (nextHopAdd e2)"

subsection \<open>Reading the table\<close>

definition table_networkId :: "rtable \<Rightarrow> nat \<Rightarrow> nsaddr" where
  "table_networkId t l = fold (\<lambda>e m. if re_networkId e < m then re_networkId e else m) (t ! l) INFINITO"

definition table_hopNumber :: "rtable \<Rightarrow> nat \<Rightarrow> u32" where
  "table_hopNumber t l = fold (\<lambda>e m. if re_hopNumber e < m then re_hopNumber e else m) (t ! l) NO_HOPS"

definition table_interface :: "rtable \<Rightarrow> nat \<Rightarrow> u8" where
  "table_interface t l = fold (\<lambda>e m. if re_interface e < m then re_interface e else m) (t ! l) 255"

definition table_etxMetric :: "rtable \<Rightarrow> nat \<Rightarrow> real" where
  "table_etxMetric t l = fold (\<lambda>e m. if re_etxMetric e < m then re_etxMetric e else m) (t ! l) RTR_ETX_MAX"

definition table_routeLog :: "rtable \<Rightarrow> nat \<Rightarrow> 16 word" where
  "table_routeLog t l = fold (\<lambda>e _. re_routeLog e) (t ! l) 0"

definition table_levelId :: "nsaddr \<Rightarrow> rtable \<Rightarrow> int \<Rightarrow> nsaddr" where
  "table_levelId ident t l =
     fold (\<lambda>i m. fold (\<lambda>e m. if re_networkId e < m then re_networkId e else m) (t ! i) m) (rev [0..<nat (l + 1)]) ident"

definition table_size :: "rtable \<Rightarrow> nat" where
  "table_size t = fold (\<lambda>es n. fold (\<lambda>_ n. n + 1) es n) t 0"

subsection \<open>Removing entries\<close>

text \<open>\<open>clear()\<close> and \<open>purge\<close> step the iterator after they have erased it; \<open>clear(level)\<close> deletes the entry through the erased iterator.\<close>

fun clear_entries :: "RoutingEntry list \<Rightarrow> RoutingEntry list option" where
  "clear_entries [] = Some []"
| "clear_entries (e # es) = None"

fun purge_entries :: "nsaddr \<Rightarrow> RoutingEntry list \<Rightarrow> RoutingEntry list option" where
  "purge_entries ident [] = Some []"
| "purge_entries ident (e # es) = (if nextHopId e = ident then None else map_option ((#) e) (purge_entries ident es))"

fun map_levels :: "(RoutingEntry list \<Rightarrow> RoutingEntry list option) \<Rightarrow> rtable \<Rightarrow> rtable option" where
  "map_levels f [] = Some []"
| "map_levels f (es # t) = do {es' \<leftarrow> f es; t' \<leftarrow> map_levels f t; Some (es' # t')}"

definition table_clear :: "rtable \<Rightarrow> rtable option" where
  "table_clear t = map_levels clear_entries t"

definition table_clear_level :: "nat \<Rightarrow> rtable \<Rightarrow> rtable option" where
  "table_clear_level l t = map_option (\<lambda>es. t[l := es]) (clear_entries (t ! l))"

definition table_purge :: "nsaddr \<Rightarrow> rtable \<Rightarrow> rtable option" where
  "table_purge ident t = map_levels (purge_entries ident) t"

text \<open>A failed transmission marks the entries of the next hop. \<open>MAC_FAILED_RECOVERY_FAST\<close> is not defined.\<close>

definition mark_failed :: "nsaddr \<Rightarrow> RoutingEntry \<Rightarrow> RoutingEntry" where
  "mark_failed ident e = (if nextHopId e = ident then e\<lparr>re_macFailed := True, re_etxMetric := re_etxMetric e + 1\<rparr> else e)"

definition table_macFailed :: "nsaddr \<Rightarrow> rtable \<Rightarrow> rtable" where
  "table_macFailed ident t = map (map (mark_failed ident)) t"

subsection \<open>Adding entries\<close>

definition addEntry :: "nat \<Rightarrow> nsaddr \<Rightarrow> nsaddr \<Rightarrow> nsaddr \<Rightarrow> u32 \<Rightarrow> real \<Rightarrow> 16 word \<Rightarrow> u8 \<Rightarrow> rtable \<Rightarrow> rtable" where
  "addEntry l add ident network hops etx lg ifc t =
     t[l := std_insert setCompare (RoutingEntry_new add ident network hops etx lg ifc) (t ! l)]"

definition metric_usable :: "int \<Rightarrow> real \<Rightarrow> bool" where
  "metric_usable etx m \<longleftrightarrow> etx = 1 \<and> m < RTR_ETX_MAX \<or> etx = 0"

definition direct_log :: "nat \<Rightarrow> 16 word" where
  "direct_log l = set_bit l 0"

text \<open>The neighbour itself is in the sibling subtree of level \<open>l\<close>.\<close>

definition setUpdate_direct :: "u8 \<Rightarrow> int \<Rightarrow> Neighbor \<Rightarrow> nat \<Rightarrow> rtable \<Rightarrow> rtable" where
  "setUpdate_direct if_direct etx nb l t =
     (let nid = neighbor_levelId (nb_table nb) (int l - 1) (nb_id nb) in
      if nid \<le> table_networkId t l then
        let present = (\<exists>e \<in> set (t ! l). nextHopAdd e = nb_address nb \<and> table_networkId t l \<le> nid) in
        if \<not> present \<and> metric_usable etx (link_etxMetric nb + 1)
        then addEntry l (nb_address nb) (nb_id nb) nid 1 (link_etxMetric nb) (direct_log l) if_direct t
        else t
      else t)"

definition via_log :: "Neighbor \<Rightarrow> nat \<Rightarrow> nat \<Rightarrow> 16 word" where
  "via_log nb i l = fold unset_bit [0..<l] (set_bit l (neighbor_routeLog (nb_table nb) i))"

text \<open>The routes of the neighbour to the levels above \<open>l\<close>, whose sibling subtrees the two nodes share.\<close>

definition setUpdate_level :: "(nat \<Rightarrow> u8) \<Rightarrow> int \<Rightarrow> Neighbor \<Rightarrow> nat \<Rightarrow> nat \<Rightarrow> rtable \<Rightarrow> rtable option" where
  "setUpdate_level if_via etx nb l i t =
     (if \<not> bit (neighbor_routeLog (nb_table nb) i) l \<and> entryPresent (nb_table nb) i then do {
        t \<leftarrow> if neighbor_networkId (nb_table nb) i < table_networkId t i then table_clear_level i t else Some t;
        Some (if neighbor_networkId (nb_table nb) i \<le> table_networkId t i
                 \<and> metric_usable etx (link_etxMetric nb + neighbor_etxMetric (nb_table nb) i)
              then addEntry i (nb_address nb) (nb_id nb) (neighbor_networkId (nb_table nb) i) (neighbor_hopNumber (nb_table nb) i + 1)
                     (neighbor_etxMetric (nb_table nb) i + link_etxMetric nb) (via_log nb i l) (if_via i) t
              else t)
      } else Some t)"

fun setUpdate_levels :: "(nat \<Rightarrow> u8) \<Rightarrow> int \<Rightarrow> Neighbor \<Rightarrow> nat \<Rightarrow> nat \<Rightarrow> rtable \<Rightarrow> rtable option" where
  "setUpdate_levels if_via etx nb l 0 t = Some t"
| "setUpdate_levels if_via etx nb l (Suc i) t =
     (if i > l then setUpdate_level if_via etx nb l i t \<bind> setUpdate_levels if_via etx nb l i else Some t)"

definition setUpdate :: "u8 \<Rightarrow> (nat \<Rightarrow> u8) \<Rightarrow> int \<Rightarrow> nsaddr \<Rightarrow> Neighbor \<Rightarrow> rtable \<Rightarrow> rtable option" where
  "setUpdate if_direct if_via etx address nb t =
     (let l = DiffBit address (nb_address nb) in
      if l = - 1 then Some t
      else setUpdate_levels if_via etx nb (nat l) ADDR_SIZE (setUpdate_direct if_direct etx nb (nat l) t))"

subsection \<open>Choosing the next hop\<close>

record selection =
  sel_level :: int
  sel_id :: nsaddr
  sel_hops :: u32
  sel_etx :: real

definition no_selection :: selection where
  "no_selection = \<lparr>sel_level = int ADDR_SIZE, sel_id = IP_BROADCAST, sel_hops = NO_HOPS, sel_etx = RTR_ETX_MAX\<rparr>"

definition better :: "int \<Rightarrow> nsaddr \<Rightarrow> RoutingEntry \<Rightarrow> selection \<Rightarrow> bool" where
  "better etx dst e s \<longleftrightarrow>
     (etx = 1 \<and> (DiffBit dst (nextHopAdd e) < sel_level s \<or>
                 DiffBit dst (nextHopAdd e) = sel_level s \<and> re_etxMetric e < sel_etx s) \<and> \<not> re_macFailed e) \<or>
     (etx = 0 \<and> (DiffBit dst (nextHopAdd e) < sel_level s \<or>
                 DiffBit dst (nextHopAdd e) = sel_level s \<and> re_interface e < MAXINTERF \<and> re_hopNumber e < sel_hops s) \<and> \<not> re_macFailed e)"

definition select_entry :: "int \<Rightarrow> nsaddr \<Rightarrow> RoutingEntry \<Rightarrow> selection \<Rightarrow> selection" where
  "select_entry etx dst e s =
     (if better etx dst e s
      then \<lparr>sel_level = DiffBit dst (nextHopAdd e), sel_id = nextHopId e, sel_hops = re_hopNumber e, sel_etx = re_etxMetric e\<rparr>
      else s)"

fun select_levels :: "int \<Rightarrow> nsaddr \<Rightarrow> RoutingEntry list list \<Rightarrow> selection \<Rightarrow> nsaddr" where
  "select_levels etx dst [] s = sel_id s"
| "select_levels etx dst (es # t) s =
     (let s = fold (select_entry etx dst) es s in if sel_id s \<noteq> IP_BROADCAST then sel_id s else select_levels etx dst t s)"

definition getEntry :: "int \<Rightarrow> nsaddr \<Rightarrow> nsaddr \<Rightarrow> rtable \<Rightarrow> nsaddr" where
  "getEntry etx address dst t =
     (if DiffBit address dst < 0 then IP_BROADCAST
      else select_levels etx dst (drop (nat (DiffBit address dst)) t) no_selection)"

definition DAGetEntry :: "int \<Rightarrow> nsaddr \<Rightarrow> nsaddr \<Rightarrow> rtable \<Rightarrow> nsaddr" where
  "DAGetEntry etx address dst t =
     (if DiffBit address dst < 0 then IP_BROADCAST
      else sel_id (fold (select_entry etx dst) (t ! nat (DiffBit address dst)) no_selection))"

subsection \<open>The order of the sets\<close>

lemma compare_from_less: "compare_from n a b \<longleftrightarrow> take_bit n a < take_bit n b"
proof (induction n)
  case (Suc n)
  have lt: "take_bit n x < 2 ^ n" "0 \<le> take_bit n x" for x :: int by simp_all
  have "\<not> 2 ^ n + take_bit n a < take_bit n b" "take_bit n a < 2 ^ n + take_bit n b"
    using lt [of a] lt [of b] by linarith+
  then show ?case using Suc by (simp add: take_bit_Suc_from_most of_bool_def)
qed simp

lemma setCompare_less: "setCompare x y \<longleftrightarrow> take_bit 16 (nextHopAdd x) < take_bit 16 (nextHopAdd y)"
  by (simp add: setCompare_def compare_from_less)

interpretation entry_order: std_order setCompare
  by unfold_locales (simp_all add: setCompare_less)

subsection \<open>The invariant of the table\<close>

text \<open>
  The next hop of an entry of level \<open>l\<close> is at most \<open>l\<close> levels away, exactly \<open>l\<close> when it is a neighbour inside the sibling
  subtree; the route log has the level of the next hop and none below.
\<close>

definition entry_ok :: "nsaddr \<Rightarrow> nat \<Rightarrow> RoutingEntry \<Rightarrow> bool" where
  "entry_ok address l e \<longleftrightarrow>
     (let d = DiffBit address (nextHopAdd e)
      in 0 \<le> d \<and> d \<le> int l \<and> bit (re_routeLog e) (nat d) \<and> (\<forall>j < nat d. \<not> bit (re_routeLog e) j))"

definition table_ok :: "nsaddr \<Rightarrow> rtable \<Rightarrow> bool" where
  "table_ok address t \<longleftrightarrow> length t = ADDR_SIZE \<and>
     (\<forall>l < ADDR_SIZE. sorted_wrt setCompare (t ! l) \<and> (\<forall>e \<in> set (t ! l). entry_ok address l e))"

lemma empty_table_ok: "table_ok address empty_table"
  by (simp add: table_ok_def empty_table_def)

lemma addEntry_ok:
  assumes "table_ok address t" "l < ADDR_SIZE" "entry_ok address l (RoutingEntry_new add ident network hops etx lg ifc)"
  shows "table_ok address (addEntry l add ident network hops etx lg ifc t)"
  using assms entry_order.set_insert_subset [of "RoutingEntry_new add ident network hops etx lg ifc" "t ! l"]
  by (auto simp: table_ok_def addEntry_def nth_list_update intro: entry_order.sorted_insert)

lemma clear_level_ok: "table_ok address t \<Longrightarrow> table_clear_level l t = Some t' \<Longrightarrow> t' = t \<and> t ! l = []"
  using list_update_id [of t l] by (cases "t ! l") (auto simp: table_clear_level_def)

lemma bit_reset_below: "bit (fold unset_bit [0..<l] w) j \<longleftrightarrow> bit w j \<and> l \<le> j" for w :: "16 word"
  by (induction l) (auto simp: bit_unset_bit_iff)

lemma via_log_bits: "l < 16 \<Longrightarrow> bit (via_log nb i l) j \<longleftrightarrow> l = j \<or> l < j \<and> bit (neighbor_routeLog (nb_table nb) i) j"
  by (auto simp: via_log_def bit_reset_below bit_set_bit_iff)

lemma direct_log_bits: "l < 16 \<Longrightarrow> bit (direct_log l) j \<longleftrightarrow> j = l"
  by (auto simp: direct_log_def bit_exp_iff)

lemma direct_entry_ok: "DiffBit address add = int l \<Longrightarrow> entry_ok address l (RoutingEntry_new add ident network hops etx (direct_log l) ifc)"
  using DiffBit_range(2) [of address add] by (auto simp: entry_ok_def RoutingEntry_new_def direct_log_bits)

lemma via_entry_ok:
  "DiffBit address (nb_address nb) = int l \<Longrightarrow> l < i \<Longrightarrow>
   entry_ok address i (RoutingEntry_new (nb_address nb) ident network hops etx (via_log nb i l) ifc)"
  using DiffBit_range(2) [of address "nb_address nb"] by (auto simp: entry_ok_def RoutingEntry_new_def via_log_bits)

subsection \<open>One update keeps the invariant\<close>

lemma setUpdate_direct_ok:
  "table_ok address t \<Longrightarrow> DiffBit address (nb_address nb) = int l \<Longrightarrow> table_ok address (setUpdate_direct if_direct etx nb l t)"
  using DiffBit_range(2) [of address "nb_address nb"]
  by (auto simp: setUpdate_direct_def Let_def intro!: addEntry_ok direct_entry_ok)

lemma setUpdate_level_ok:
  assumes "table_ok address t" "DiffBit address (nb_address nb) = int l" "l < i" "i < ADDR_SIZE" "setUpdate_level if_via etx nb l i t = Some t'"
  shows "table_ok address t'"
proof -
  have add: "table_ok address (addEntry i (nb_address nb) ident network hops m (via_log nb i l) ifc t)" for ident network hops m ifc
    by (rule addEntry_ok [OF assms(1,4) via_entry_ok [OF assms(2,3)]])
  show ?thesis using assms(5) assms(1) add
    by (auto simp: setUpdate_level_def bind_eq_Some_conv dest: clear_level_ok [OF assms(1)] split: if_splits)
qed

lemma setUpdate_levels_ok:
  "table_ok address t \<Longrightarrow> DiffBit address (nb_address nb) = int l \<Longrightarrow> n \<le> ADDR_SIZE \<Longrightarrow> setUpdate_levels if_via etx nb l n t = Some t' \<Longrightarrow>
   table_ok address t'"
  by (induction n arbitrary: t) (auto simp: bind_eq_Some_conv split: if_splits dest!: setUpdate_level_ok [rotated -1])

lemma setUpdate_ok:
  assumes "table_ok address t" "setUpdate if_direct if_via etx address nb t = Some t'"
  shows "table_ok address t'"
proof (cases "DiffBit address (nb_address nb) = - 1")
  case False
  then have l: "DiffBit address (nb_address nb) = int (nat (DiffBit address (nb_address nb)))" using DiffBit_range(1) [of address "nb_address nb"] by simp
  show ?thesis
    using setUpdate_levels_ok [OF setUpdate_direct_ok [OF assms(1) l] l order_refl] assms(2) False by (simp add: setUpdate_def Let_def)
qed (use assms in \<open>simp add: setUpdate_def\<close>)

end
