(* ===== verification/Aspu_Routing.thy ===== *)
theory Aspu_Routing
  imports Aspu_Table
begin

section \<open>What the routing table of ASPU guarantees\<close>

text \<open>
  The choice of the next hop is a scan for an entry that no other one beats, a contract of its own (\<open>scan_order\<close>), which the two
  metrics satisfy. Above it are the facts on \<open>getEntry\<close>, \<open>DAGetEntry\<close>, \<open>macFailed\<close> and \<open>setUpdate\<close>.
\<close>

subsection \<open>Scans\<close>

fun scan_step :: "('a \<Rightarrow> 'a \<Rightarrow> bool) \<Rightarrow> 'a \<Rightarrow> 'a option \<Rightarrow> 'a option" where
  "scan_step wins x None = Some x"
| "scan_step wins x (Some y) = (if wins x y then Some x else Some y)"

locale scan_order =
  fixes wins :: "'a \<Rightarrow> 'a \<Rightarrow> bool"
  assumes wins_irrefl: "\<not> wins x x"
    and wins_trans: "wins x y \<Longrightarrow> wins y z \<Longrightarrow> wins x z"
begin

lemma scan_none: "fold (scan_step wins) xs None = None \<longleftrightarrow> xs = []"
proof -
  have "fold (scan_step wins) ys (Some y) \<noteq> None" for ys y by (induction ys arbitrary: y) simp_all
  then show ?thesis by (cases xs) simp_all
qed

lemma scan_unbeaten: "fold (scan_step wins) xs None = Some b \<Longrightarrow> b \<in> set xs \<and> (\<forall>x \<in> set xs. \<not> wins x b)"
proof (induction xs arbitrary: b rule: rev_induct)
  case (snoc x xs)
  show ?case
  proof (cases "fold (scan_step wins) xs None")
    case None
    then show ?thesis using snoc.prems scan_none [of xs] wins_irrefl by simp
  next
    case (Some a)
    note a = snoc.IH [OF Some]
    show ?thesis
    proof (cases "wins x a")
      case True
      then have "\<not> wins y x" if "y \<in> set xs" for y using that a wins_trans by blast
      then show ?thesis using snoc.prems Some True wins_irrefl by simp
    next
      case False
      then show ?thesis using snoc.prems Some a by simp
    qed
  qed
qed simp

end

subsection \<open>The scan of one level\<close>

abbreviation usable :: "RoutingEntry \<Rightarrow> bool" where "usable e \<equiv> \<not> re_macFailed e"

definition beats :: "int \<Rightarrow> nsaddr \<Rightarrow> RoutingEntry \<Rightarrow> RoutingEntry \<Rightarrow> bool" where
  "beats etx dst x y \<longleftrightarrow>
     DiffBit dst (nextHopAdd x) < DiffBit dst (nextHopAdd y) \<or>
     DiffBit dst (nextHopAdd x) = DiffBit dst (nextHopAdd y) \<and>
       (if etx = 1 then re_etxMetric x < re_etxMetric y else re_interface x < MAXINTERF \<and> re_hopNumber x < re_hopNumber y)"

interpretation routes: scan_order "beats etx dst" for etx dst
  by unfold_locales (auto simp: beats_def split: if_splits)

fun selected :: "nsaddr \<Rightarrow> RoutingEntry option \<Rightarrow> selection" where
  "selected dst None = no_selection"
| "selected dst (Some e) =
     \<lparr>sel_level = DiffBit dst (nextHopAdd e), sel_id = nextHopId e, sel_hops = re_hopNumber e, sel_etx = re_etxMetric e\<rparr>"

lemma better_none: "etx = 0 \<or> etx = 1 \<Longrightarrow> better etx dst e (selected dst None) \<longleftrightarrow> usable e"
  using DiffBit_range(2) [of dst "nextHopAdd e"] by (auto simp: better_def no_selection_def)

lemma better_some: "etx = 0 \<or> etx = 1 \<Longrightarrow> better etx dst e (selected dst (Some b)) \<longleftrightarrow> usable e \<and> beats etx dst e b"
  by (auto simp: better_def beats_def)

lemma select_scan:
  assumes "etx = 0 \<or> etx = 1"
  shows "fold (select_entry etx dst) es (selected dst b) = selected dst (fold (scan_step (beats etx dst)) (filter usable es) b)"
proof (induction es arbitrary: b)
  case (Cons e es)
  have "select_entry etx dst e (selected dst b) = selected dst (if usable e then scan_step (beats etx dst) e b else b)"
    using better_none [OF assms] better_some [OF assms] by (cases b) (auto simp: select_entry_def)
  then show ?case using Cons.IH by simp
qed simp

definition best_entry :: "int \<Rightarrow> nsaddr \<Rightarrow> RoutingEntry list \<Rightarrow> RoutingEntry \<Rightarrow> bool" where
  "best_entry etx dst es e \<longleftrightarrow> e \<in> set es \<and> usable e \<and> (\<forall>x \<in> set es. usable x \<longrightarrow> \<not> beats etx dst x e)"

lemma select_level:
  assumes "etx = 0 \<or> etx = 1"
  obtains "\<forall>e \<in> set es. re_macFailed e" "fold (select_entry etx dst) es no_selection = no_selection"
  | e where "best_entry etx dst es e" "fold (select_entry etx dst) es no_selection = selected dst (Some e)"
proof -
  have eq: "fold (select_entry etx dst) es no_selection = selected dst (fold (scan_step (beats etx dst)) (filter usable es) None)"
    using select_scan [OF assms, of dst es None] by simp
  show ?thesis
  proof (cases "fold (scan_step (beats etx dst)) (filter usable es) None")
    case None
    then have "filter usable es = []" using routes.scan_none by blast
    then show ?thesis using that(1) eq None by (simp add: filter_empty_conv)
  next
    case (Some e)
    then show ?thesis using that(2) [of e] eq routes.scan_unbeaten [OF Some] by (simp add: best_entry_def)
  qed
qed

lemma best_closest: "best_entry etx dst es e \<Longrightarrow> x \<in> set es \<Longrightarrow> usable x \<Longrightarrow> DiffBit dst (nextHopAdd e) \<le> DiffBit dst (nextHopAdd x)"
  by (force simp: best_entry_def beats_def)

subsection \<open>The scan of the levels\<close>

definition known_ids :: "rtable \<Rightarrow> bool" where
  "known_ids t \<longleftrightarrow> (\<forall>es \<in> set t. \<forall>e \<in> set es. nextHopId e \<noteq> IP_BROADCAST)"

lemma select_levels_first:
  assumes "etx = 0 \<or> etx = 1" "known_ids t"
  shows "(\<forall>es \<in> set t. \<forall>e \<in> set es. re_macFailed e) \<and> select_levels etx dst t no_selection = IP_BROADCAST \<or>
         (\<exists>i < length t. \<exists>e. (\<forall>j < i. \<forall>x \<in> set (t ! j). re_macFailed x) \<and> best_entry etx dst (t ! i) e \<and>
            select_levels etx dst t no_selection = nextHopId e)"
  using assms(2)
proof (induction t)
  case Nil
  then show ?case by (simp add: no_selection_def)
next
  case (Cons es t)
  have ids: "known_ids t" "\<And>e. e \<in> set es \<Longrightarrow> nextHopId e \<noteq> IP_BROADCAST" using Cons.prems by (auto simp: known_ids_def)
  show ?case
  proof (rule select_level [OF assms(1), of es dst])
    assume failed: "\<forall>e \<in> set es. re_macFailed e" and s: "fold (select_entry etx dst) es no_selection = no_selection"
    have eq: "select_levels etx dst (es # t) no_selection = select_levels etx dst t no_selection"
      unfolding select_levels.simps s by (simp add: no_selection_def)
    have "?case" if i: "i < length t" "\<forall>j < i. \<forall>x \<in> set (t ! j). re_macFailed x" "best_entry etx dst (t ! i) e"
      "select_levels etx dst t no_selection = nextHopId e" for i e
    proof (intro disjI2 exI [of _ "Suc i"] exI [of _ e] conjI)
      show "\<forall>j < Suc i. \<forall>x \<in> set ((es # t) ! j). re_macFailed x" using i(2) failed by (auto simp: less_Suc_eq_0_disj)
    qed (use i eq in auto)
    note later = this
    show ?case using Cons.IH [OF ids(1)]
    proof (elim disjE exE conjE)
      assume "\<forall>es \<in> set t. \<forall>e \<in> set es. re_macFailed e" "select_levels etx dst t no_selection = IP_BROADCAST"
      then show ?case using failed eq by simp
    qed (rule later, assumption+)
  next
    fix e assume e: "best_entry etx dst es e" and s: "fold (select_entry etx dst) es no_selection = selected dst (Some e)"
    have "select_levels etx dst (es # t) no_selection = nextHopId e"
      using ids(2) [of e] e unfolding select_levels.simps s by (simp add: best_entry_def)
    then show ?case using e by (intro disjI2 exI [of _ 0] exI [of _ e] conjI) simp_all
  qed
qed

subsection \<open>Next hops\<close>

definition dead :: "rtable \<Rightarrow> nat \<Rightarrow> bool" where
  "dead t i \<longleftrightarrow> (\<forall>x \<in> set (t ! i). re_macFailed x)"

definition first_live :: "rtable \<Rightarrow> nat \<Rightarrow> nat \<Rightarrow> bool" where
  "first_live t l i \<longleftrightarrow> l \<le> i \<and> i < ADDR_SIZE \<and> \<not> dead t i \<and> (\<forall>j \<in> {l..<i}. dead t j)"

lemma first_live_unique: "first_live t l i \<Longrightarrow> first_live t l j \<Longrightarrow> i = j"
  by (rule ccontr) (auto simp: first_live_def nat_neq_iff)

lemma best_not_dead: "best_entry etx dst (t ! i) e \<Longrightarrow> \<not> dead t i"
  by (auto simp: best_entry_def dead_def)

lemma known_ids_nth: "known_ids t \<Longrightarrow> i < length t \<Longrightarrow> e \<in> set (t ! i) \<Longrightarrow> nextHopId e \<noteq> IP_BROADCAST"
  using nth_mem [of i t] by (auto simp: known_ids_def)

lemma getEntry_cases:
  assumes "length t = ADDR_SIZE" "known_ids t" "etx = 0 \<or> etx = 1" "DiffBit address dst = int l"
  obtains "\<forall>i \<in> {l..<ADDR_SIZE}. dead t i" "getEntry etx address dst t = IP_BROADCAST"
  | i e where "first_live t l i" "best_entry etx dst (t ! i) e" "getEntry etx address dst t = nextHopId e" "nextHopId e \<noteq> IP_BROADCAST"
proof -
  have l: "l < 16" using DiffBit_range(2) [of address dst] assms(4) by simp
  have ids: "known_ids (drop l t)" using assms(2) by (auto simp: known_ids_def dest: in_set_dropD)
  have nth: "drop l t ! k = t ! (l + k)" for k using l assms(1) by simp
  have get: "getEntry etx address dst t = select_levels etx dst (drop l t) no_selection" by (simp add: getEntry_def assms(4))
  from select_levels_first [OF assms(3) ids, of dst] show ?thesis
  proof (elim disjE exE conjE)
    assume all: "\<forall>es \<in> set (drop l t). \<forall>e \<in> set es. re_macFailed e" and s: "select_levels etx dst (drop l t) no_selection = IP_BROADCAST"
    have "dead t i" if "i \<in> {l..<ADDR_SIZE}" for i
    proof -
      have "t ! i \<in> set (drop l t)" using nth_mem [of "i - l" "drop l t"] nth [of "i - l"] that assms(1) by (simp add: diff_less_mono)
      then show ?thesis using all by (simp add: dead_def)
    qed
    then show ?thesis using that(1) s get by simp
  next
    fix k e
    assume k: "k < length (drop l t)" "\<forall>j < k. \<forall>x \<in> set (drop l t ! j). re_macFailed x" "best_entry etx dst (drop l t ! k) e"
      "select_levels etx dst (drop l t) no_selection = nextHopId e"
    have best: "best_entry etx dst (t ! (l + k)) e" using k(3) nth by simp
    have "dead t j" if "j \<in> {l..<l + k}" for j 
    proof -
      have "j - l < k" using that by auto
      then show ?thesis using k(2) nth [of "j - l"] that by (simp add: dead_def)
    qed
    then have "first_live t l (l + k)" using k(1) assms(1) best_not_dead [OF best] by (simp add: first_live_def)
    moreover have "nextHopId e \<noteq> IP_BROADCAST" using known_ids_nth [OF assms(2), of "l + k" e] best k(1) assms(1) by (simp add: best_entry_def)
    ultimately show ?thesis using that(2) best k(4) get by simp
  qed
qed

lemma DAGetEntry_cases:
  assumes "length t = ADDR_SIZE" "known_ids t" "etx = 0 \<or> etx = 1" "DiffBit address dst = int l"
  shows "DAGetEntry etx address dst t = (if dead t l then IP_BROADCAST else getEntry etx address dst t)"
proof -
  have l: "l < 16" using DiffBit_range(2) [of address dst] assms(4) by simp
  have da: "DAGetEntry etx address dst t = sel_id (fold (select_entry etx dst) (t ! l) no_selection)" by (simp add: DAGetEntry_def assms(4))
  have get: "getEntry etx address dst t =
    (let s = fold (select_entry etx dst) (t ! l) no_selection in if sel_id s \<noteq> IP_BROADCAST then sel_id s else select_levels etx dst (drop (Suc l) t) s)"
    using l assms(1) by (simp add: getEntry_def assms(4) Cons_nth_drop_Suc [symmetric])
  show ?thesis
  proof (rule select_level [OF assms(3), of "t ! l" dst])
    assume "\<forall>e \<in> set (t ! l). re_macFailed e" "fold (select_entry etx dst) (t ! l) no_selection = no_selection"
    then show ?thesis using da by (simp add: dead_def no_selection_def)
  next
    fix e assume e: "best_entry etx dst (t ! l) e" "fold (select_entry etx dst) (t ! l) no_selection = selected dst (Some e)"
    then have "nextHopId e \<noteq> IP_BROADCAST" using known_ids_nth [OF assms(2), of l e] l assms(1) by (simp add: best_entry_def)
    then show ?thesis using da get e best_not_dead [OF e(1)] by simp
  qed
qed

text \<open>C10. The next hop for a destination comes from the first level, counted from the one where the address and the destination differ, that
  has an entry whose transmissions did not fail, and it is an entry no other one of that level beats: nearest to the destination, then with the better metric. There
  is none exactly when no level from there on has such an entry. The address search takes the same entry, but only of that one level.\<close>

theorem get_entry_correct:
  assumes "length t = ADDR_SIZE" "known_ids t" "etx = 0 \<or> etx = 1" "DiffBit address dst = int l"
  shows "(getEntry etx address dst t = IP_BROADCAST \<longleftrightarrow> (\<forall>i \<in> {l..<ADDR_SIZE}. dead t i)) \<and>
         (first_live t l i \<longrightarrow> (\<exists>e. best_entry etx dst (t ! i) e \<and> getEntry etx address dst t = nextHopId e)) \<and>
         DAGetEntry etx address dst t = (if dead t l then IP_BROADCAST else getEntry etx address dst t)"
proof (rule getEntry_cases [OF assms])
  assume "\<forall>i \<in> {l..<ADDR_SIZE}. dead t i" "getEntry etx address dst t = IP_BROADCAST"
  then show ?thesis using DAGetEntry_cases [OF assms] by (auto simp: first_live_def)
next
  fix k e
  assume k: "first_live t l k" "best_entry etx dst (t ! k) e" "getEntry etx address dst t = nextHopId e" "nextHopId e \<noteq> IP_BROADCAST"
  have "\<not> (\<forall>i \<in> {l..<ADDR_SIZE}. dead t i)" using k(1) by (auto simp: first_live_def)
  moreover have "\<exists>e. best_entry etx dst (t ! i) e \<and> getEntry etx address dst t = nextHopId e" if "first_live t l i"
    using first_live_unique [OF k(1) that] k(2,3) by blast
  ultimately show ?thesis using k(3,4) DAGetEntry_cases [OF assms] by simp
qed

text \<open>Packets get nearer: when the level at which the address and the destination differ has a usable entry, the next hop is in
  no larger a subtree with the destination than the node, and in a smaller one when a neighbour inside the sibling subtree is usable.\<close>

lemma next_hop_progress:
  assumes "table_ok address t" "known_ids t" "etx = 0 \<or> etx = 1" "DiffBit address dst = int l" "\<not> dead t l"
  shows "\<exists>e \<in> set (t ! l). getEntry etx address dst t = nextHopId e \<and> usable e \<and> DiffBit dst (nextHopAdd e) \<le> int l \<and>
           ((\<exists>x \<in> set (t ! l). usable x \<and> DiffBit address (nextHopAdd x) = int l) \<longrightarrow> DiffBit dst (nextHopAdd e) < int l)"
proof -
  have len: "length t = ADDR_SIZE" using assms(1) by (simp add: table_ok_def)
  have l: "l < 16" using DiffBit_range(2) [of address dst] assms(4) by simp
  have first: "first_live t l l" using l assms(5) by (simp add: first_live_def)
  show ?thesis
  proof (rule getEntry_cases [OF len assms(2-4)])
    assume "\<forall>i \<in> {l..<ADDR_SIZE}. dead t i"
    then show ?thesis using assms(5) l by simp
  next
    fix k e
    assume "first_live t l k" "best_entry etx dst (t ! k) e" "getEntry etx address dst t = nextHopId e"
    then have e: "best_entry etx dst (t ! l) e" "getEntry etx address dst t = nextHopId e" using first_live_unique [OF first] by auto
    then have "e \<in> set (t ! l)" "usable e" by (simp_all add: best_entry_def)
    moreover have "DiffBit dst (nextHopAdd e) \<le> int l"
    proof -
      have "DiffBit address (nextHopAdd e) \<le> int l" using assms(1) l \<open>e \<in> set (t ! l)\<close> by (auto simp: table_ok_def entry_ok_def Let_def)
      then show ?thesis using DiffBit_ultrametric [of dst "nextHopAdd e" address] assms(4) by (simp add: DiffBit_sym [of dst address])
    qed
    moreover have "DiffBit dst (nextHopAdd e) < int l" if "x \<in> set (t ! l)" "usable x" "DiffBit address (nextHopAdd x) = int l" for x
      using DiffBit_sibling [OF assms(4) that(3)] best_closest [OF e(1) that(1,2)] by simp
    ultimately show ?thesis using e(2) by blast
  qed
qed

subsection \<open>Routes through a network\<close>

text \<open>The nodes that a packet for the address \<open>dst\<close> visits: each one hands it to the next hop of its own table, until one has the address.\<close>

fun route :: "(nsaddr \<Rightarrow> nsaddr) \<Rightarrow> (nsaddr \<Rightarrow> rtable) \<Rightarrow> int \<Rightarrow> nsaddr \<Rightarrow> nat \<Rightarrow> nsaddr \<Rightarrow> nsaddr" where
  "route addr tab etx dst 0 n = n"
| "route addr tab etx dst (Suc k) n =
     (if DiffBit (addr n) dst = - 1 then n else route addr tab etx dst k (getEntry etx (addr n) dst (tab n)))"

text \<open>The tables of the nodes of \<open>N\<close> are right, and a node has a usable neighbour in every sibling subtree that has a node.\<close>

definition sibling_routes :: "(nsaddr \<Rightarrow> nsaddr) \<Rightarrow> (nsaddr \<Rightarrow> rtable) \<Rightarrow> nsaddr set \<Rightarrow> bool" where
  "sibling_routes addr tab N \<longleftrightarrow>
     (\<forall>n \<in> N. table_ok (addr n) (tab n) \<and> known_ids (tab n) \<and>
        (\<forall>es \<in> set (tab n). \<forall>e \<in> set es. nextHopId e \<in> N \<and> nextHopAdd e = addr (nextHopId e)) \<and>
        (\<forall>m \<in> N. \<forall>l. DiffBit (addr n) (addr m) = int l \<longrightarrow>
           (\<exists>x \<in> set (tab n ! l). usable x \<and> DiffBit (addr n) (nextHopAdd x) = int l)))"

lemma hop_nearer:
  assumes "sibling_routes addr tab N" "n \<in> N" "m \<in> N" "etx = 0 \<or> etx = 1" "DiffBit (addr n) (addr m) = int l"
  shows "getEntry etx (addr n) (addr m) (tab n) \<in> N \<and> DiffBit (addr (getEntry etx (addr n) (addr m) (tab n))) (addr m) < int l"
proof -
  have ok: "table_ok (addr n) (tab n)" "known_ids (tab n)" using assms(1,2) by (simp_all add: sibling_routes_def)
  have "\<forall>m \<in> N. \<forall>l. DiffBit (addr n) (addr m) = int l \<longrightarrow> (\<exists>x \<in> set (tab n ! l). usable x \<and> DiffBit (addr n) (nextHopAdd x) = int l)"
    using assms(1,2) by (simp add: sibling_routes_def)
  then obtain x where x: "x \<in> set (tab n ! l)" "usable x" "DiffBit (addr n) (nextHopAdd x) = int l"
    using assms(3,5) by blast
  then have "\<not> dead (tab n) l" by (auto simp: dead_def)
  then obtain e where e: "e \<in> set (tab n ! l)" "getEntry etx (addr n) (addr m) (tab n) = nextHopId e" "DiffBit (addr m) (nextHopAdd e) < int l"
    using next_hop_progress [OF ok assms(4,5)] x by blast
  have "tab n ! l \<in> set (tab n)"
    using nth_mem [of l "tab n"] ok(1) DiffBit_range(2) [of "addr n" "addr m"] assms(5) by (simp add: table_ok_def)
  then have "nextHopId e \<in> N" "nextHopAdd e = addr (nextHopId e)" using assms(1,2) e(1) by (auto simp: sibling_routes_def)
  then show ?thesis using e(2,3) DiffBit_sym [of "addr m"] by simp
qed

lemma route_arrives:
  assumes "sibling_routes addr tab N" "m \<in> N" "etx = 0 \<or> etx = 1"
  shows "n \<in> N \<Longrightarrow> DiffBit (addr n) (addr m) < int k \<Longrightarrow>
    route addr tab etx (addr m) k n \<in> N \<and> DiffBit (addr (route addr tab etx (addr m) k n)) (addr m) = - 1"
proof (induction k arbitrary: n)
  case 0
  then show ?case using DiffBit_range(1) [of "addr n" "addr m"] by simp
next
  case (Suc k)
  show ?case
  proof (cases "DiffBit (addr n) (addr m)")
    case (nonneg l)
    note h = hop_nearer [OF assms(1) Suc.prems(1) assms(2,3) nonneg]
    then have "DiffBit (addr (getEntry etx (addr n) (addr m) (tab n))) (addr m) < int k" using Suc.prems(2) nonneg by simp
    then show ?thesis using Suc.IH h nonneg by simp
  next
    case (neg l)
    then have "DiffBit (addr n) (addr m) = - 1" using DiffBit_range(1) [of "addr n" "addr m"] by simp
    then show ?thesis using Suc.prems(1) by simp
  qed
qed

text \<open>C11. A packet reaches its destination within 16 hops, whichever metric is used: with a usable neighbour in every sibling subtree that has a node, the
  tables of the nodes lead from every node to the one with the destination's address, without a loop.\<close>

theorem packets_arrive:
  assumes "sibling_routes addr tab N" "n \<in> N" "m \<in> N" "etx = 0 \<or> etx = 1"
    "\<And>i j. i \<in> N \<Longrightarrow> j \<in> N \<Longrightarrow> take_bit ADDR_SIZE (addr i) = take_bit ADDR_SIZE (addr j) \<Longrightarrow> i = j"
  shows "route addr tab etx (addr m) 16 n = m"
proof -
  have "DiffBit (addr n) (addr m) < int 16" using DiffBit_range(2) [of "addr n" "addr m"] by simp
  then have r: "route addr tab etx (addr m) 16 n \<in> N" "DiffBit (addr (route addr tab etx (addr m) 16 n)) (addr m) = - 1"
    using route_arrives [OF assms(1,3,4,2)] by blast+
  then show ?thesis using assms(3) assms(5) [of "route addr tab etx (addr m) 16 n" m] DiffBit_none by simp
qed

subsection \<open>Failed transmissions\<close>

lemma mark_failed_simps:
  "nextHopId (mark_failed ident e) = nextHopId e" "nextHopAdd (mark_failed ident e) = nextHopAdd e"
  "re_routeLog (mark_failed ident e) = re_routeLog e" "nextHopId e = ident \<Longrightarrow> re_macFailed (mark_failed ident e)"
  by (simp_all add: mark_failed_def)

lemma macFailed_level: "i < length t \<Longrightarrow> table_macFailed ident t ! i = map (mark_failed ident) (t ! i)"
  by (simp add: table_macFailed_def)

lemma macFailed_dead: "i < length t \<Longrightarrow> e \<in> set (table_macFailed ident t ! i) \<Longrightarrow> nextHopId e = ident \<Longrightarrow> re_macFailed e"
  by (auto simp: macFailed_level) (metis mark_failed_simps(1,4))

lemma known_ids_macFailed: "known_ids t \<Longrightarrow> known_ids (table_macFailed ident t)"
  by (auto simp: known_ids_def table_macFailed_def mark_failed_simps)

lemma macFailed_ok: "table_ok address t \<Longrightarrow> table_ok address (table_macFailed ident t)"
proof -
  have "setCompare (mark_failed ident x) (mark_failed ident y) = setCompare x y" for x y
    by (simp add: setCompare_def mark_failed_simps)
  then have "sorted_wrt setCompare (map (mark_failed ident) es) = sorted_wrt setCompare es" for es
    by (simp add: sorted_wrt_map)
  moreover have "entry_ok address l (mark_failed ident e) = entry_ok address l e" for l e
    by (simp add: entry_ok_def mark_failed_simps)
  moreover assume "table_ok address t"
  ultimately show ?thesis by (auto simp: table_ok_def macFailed_level) (auto simp: table_macFailed_def)
qed

text \<open>A next hop whose transmission failed is not chosen again.\<close>

lemma failed_hop_avoided:
  assumes "table_ok address t" "known_ids t" "etx = 0 \<or> etx = 1" "ident \<noteq> IP_BROADCAST"
  shows "getEntry etx address dst (table_macFailed ident t) \<noteq> ident \<and> table_ok address (table_macFailed ident t)"
proof
  show ok: "table_ok address (table_macFailed ident t)" by (rule macFailed_ok [OF assms(1)])
  show "getEntry etx address dst (table_macFailed ident t) \<noteq> ident"
  proof (cases "DiffBit address dst < 0")
    case False
    then have d: "DiffBit address dst = int (nat (DiffBit address dst))" by simp
    have len: "length (table_macFailed ident t) = ADDR_SIZE" "length t = ADDR_SIZE" using ok assms(1) by (simp_all add: table_ok_def)
    show ?thesis
    proof (rule getEntry_cases [OF len(1) known_ids_macFailed [OF assms(2)] assms(3) d])
      fix i e
      assume "first_live (table_macFailed ident t) (nat (DiffBit address dst)) i"
        "best_entry etx dst (table_macFailed ident t ! i) e" "getEntry etx address dst (table_macFailed ident t) = nextHopId e"
      then show ?thesis using macFailed_dead [of i t e ident] len(2) by (auto simp: first_live_def best_entry_def)
    qed (use assms(4) in simp)
  qed (use assms(4) in \<open>simp add: getEntry_def\<close>)
qed

subsection \<open>Updates\<close>

lemma le_networkId: "m \<le> table_networkId t l \<longleftrightarrow> m \<le> INFINITO \<and> (\<forall>e \<in> set (t ! l). m \<le> re_networkId e)"
proof -
  have "m \<le> fold (\<lambda>e m. if re_networkId e < m then re_networkId e else m) es a \<longleftrightarrow> m \<le> a \<and> (\<forall>e \<in> set es. m \<le> re_networkId e)" for es a
    by (induction es arbitrary: a) auto
  then show ?thesis by (simp add: table_networkId_def)
qed

lemma networkId_mono: "set (t ! l) \<subseteq> set (t' ! l) \<Longrightarrow> table_networkId t' l \<le> table_networkId t l"
  using le_networkId [of "table_networkId t' l" t' l] le_networkId [of "table_networkId t' l" t l] by auto

text \<open>What a step may do to a level: keep it, or insert one entry of the neighbour.\<close>

definition grows :: "Neighbor \<Rightarrow> RoutingEntry list \<Rightarrow> RoutingEntry list \<Rightarrow> bool" where
  "grows nb es es' \<longleftrightarrow> set es \<subseteq> set es' \<and> (\<forall>e \<in> set es' - set es. nextHopId e = nb_id nb \<and> nextHopAdd e = nb_address nb \<and> usable e)"

lemma grows_refl: "grows nb es es"
  by (simp add: grows_def)

lemma grows_insert: "grows nb es (std_insert setCompare (RoutingEntry_new (nb_address nb) (nb_id nb) network hops etx lg ifc) es)"
  using entry_order.set_insert_subset [of _ es] entry_order.set_insert_keeps [of es] by (fastforce simp: grows_def RoutingEntry_new_def)

lemma grows_single: "grows nb [] [RoutingEntry_new (nb_address nb) (nb_id nb) network hops etx lg ifc]"
  using grows_insert [of nb "[]"] by simp

lemma setUpdate_direct_levels:
  "l < length t \<Longrightarrow> i < length t \<Longrightarrow> (i \<noteq> l \<longrightarrow> setUpdate_direct if_direct etx nb l t ! i = t ! i) \<and>
   grows nb (t ! i) (setUpdate_direct if_direct etx nb l t ! i) \<and> length (setUpdate_direct if_direct etx nb l t) = length t"
  by (auto simp: setUpdate_direct_def Let_def addEntry_def nth_list_update grows_refl grows_insert)

lemma clear_level_iff: "table_clear_level l t = (if t ! l = [] then Some t else None)"
  using list_update_id [of t l] by (cases "t ! l") (auto simp: table_clear_level_def)

definition update_clears :: "Neighbor \<Rightarrow> nat \<Rightarrow> rtable \<Rightarrow> nat \<Rightarrow> bool" where
  "update_clears nb l t i \<longleftrightarrow>
     \<not> bit (neighbor_routeLog (nb_table nb) i) l \<and> entryPresent (nb_table nb) i \<and>
     neighbor_networkId (nb_table nb) i < table_networkId t i \<and> t ! i \<noteq> []"

lemma setUpdate_level_None: "setUpdate_level if_via etx nb l i t = None \<longleftrightarrow> update_clears nb l t i"
  by (auto simp: setUpdate_level_def update_clears_def clear_level_iff)

lemma setUpdate_level_levels:
  "setUpdate_level if_via etx nb l i t = Some t' \<Longrightarrow> i < length t \<Longrightarrow> j < length t \<Longrightarrow>
   length t' = length t \<and> grows nb (t ! j) (t' ! j) \<and> (j \<noteq> i \<longrightarrow> t' ! j = t ! j)"
  by (auto simp: setUpdate_level_def clear_level_iff addEntry_def nth_list_update grows_refl grows_insert grows_single split: if_splits)

lemma update_clears_cong: "t' ! i = t ! i \<Longrightarrow> update_clears nb l t' i = update_clears nb l t i"
  by (simp add: update_clears_def table_networkId_def)

lemma setUpdate_levels_levels:
  assumes "setUpdate_levels if_via etx nb l n t = Some t'" "n \<le> length t" "j < length t"
  shows "length t' = length t \<and> grows nb (t ! j) (t' ! j) \<and> (j \<le> l \<or> n \<le> j \<longrightarrow> t' ! j = t ! j)"
  using assms
proof (induction n arbitrary: t)
  case (Suc n)
  show ?case
  proof (cases "l < n")
    case True
    then obtain u where u: "setUpdate_level if_via etx nb l n t = Some u" "setUpdate_levels if_via etx nb l n u = Some t'"
      using Suc.prems(1) by (auto simp: bind_eq_Some_conv)
    note a = setUpdate_level_levels [OF u(1), of j] and b = Suc.IH [OF u(2)]
    show ?thesis using a b Suc.prems(2,3) True by (cases "j = n") auto
  qed (use Suc.prems in \<open>auto simp: grows_refl\<close>)
qed (auto simp: grows_refl)

lemma setUpdate_levels_None:
  "n \<le> length t \<Longrightarrow> setUpdate_levels if_via etx nb l n t = None \<longleftrightarrow> (\<exists>i. l < i \<and> i < n \<and> update_clears nb l t i)"
proof (induction n arbitrary: t)
  case (Suc n)
  show ?case
  proof (cases "l < n")
    case True
    show ?thesis
    proof (cases "setUpdate_level if_via etx nb l n t")
      case None
      then show ?thesis using True setUpdate_level_None [of if_via etx nb l n t] by auto
    next
      case (Some u)
      have "length u = length t" "\<And>i. i < n \<Longrightarrow> u ! i = t ! i" using setUpdate_level_levels [OF Some, of n] setUpdate_level_levels [OF Some] Suc.prems by auto
      moreover have "\<not> update_clears nb l t n" using Some setUpdate_level_None [of if_via etx nb l n t] by simp
      ultimately show ?thesis using True Some Suc.IH [of u] Suc.prems update_clears_cong [of u _ t nb l] by (auto simp: less_Suc_eq)
    qed
  qed auto
qed simp

lemma setUpdate_nat:
  assumes "DiffBit address (nb_address nb) = int l"
  shows "setUpdate if_direct if_via etx address nb t = setUpdate_levels if_via etx nb l ADDR_SIZE (setUpdate_direct if_direct etx nb l t)"
  by (simp add: setUpdate_def assms)

text \<open>C12. An update with a neighbour keeps the invariant of the table. It removes nothing, only adds entries through the neighbour, at its level or
  above, and no smallest identifier of a level grows. It is undefined exactly when it has to clear a level that has entries.\<close>

theorem set_update_correct:
  assumes "table_ok address t" "i < ADDR_SIZE" "DiffBit address (nb_address nb) = int l"
  shows "case setUpdate if_direct if_via etx address nb t of
           Some t' \<Rightarrow> table_ok address t' \<and> grows nb (t ! i) (t' ! i) \<and> table_networkId t' i \<le> table_networkId t i \<and>
             (i < l \<longrightarrow> t' ! i = t ! i) \<and> (\<forall>j \<in> {l<..<ADDR_SIZE}. \<not> update_clears nb l t j)
         | None \<Rightarrow> \<exists>j \<in> {l<..<ADDR_SIZE}. update_clears nb l t j"
proof -
  define u where "u = setUpdate_direct if_direct etx nb l t"
  have l: "l < length t" "length t = ADDR_SIZE" "l < ADDR_SIZE"
    using assms(1,3) DiffBit_range(2) [of address "nb_address nb"] by (simp_all add: table_ok_def)
  have u: "length u = ADDR_SIZE" "\<And>j. j < ADDR_SIZE \<Longrightarrow> j \<noteq> l \<Longrightarrow> u ! j = t ! j" "\<And>j. j < ADDR_SIZE \<Longrightarrow> grows nb (t ! j) (u ! j)"
    using setUpdate_direct_levels [OF l(1), of _ if_direct etx nb] l by (auto simp: u_def)
  have clears: "update_clears nb l u j = update_clears nb l t j" if "j \<in> {l<..<ADDR_SIZE}" for j
    using u(2) that by (intro update_clears_cong) simp
  note eq = setUpdate_nat [OF assms(3), of if_direct if_via etx t, folded u_def]
  note none = setUpdate_levels_None [of ADDR_SIZE u if_via etx nb l]
  show ?thesis
  proof (cases "setUpdate if_direct if_via etx address nb t")
    case None
    then have "setUpdate_levels if_via etx nb l ADDR_SIZE u = None" using eq by simp
    then obtain j where "l < j" "j < ADDR_SIZE" "update_clears nb l u j" using none u(1) by auto
    then show ?thesis using clears [of j] None by auto
  next
    case (Some t')
    then have some: "setUpdate_levels if_via etx nb l ADDR_SIZE u = Some t'" using eq by simp
    note lev = setUpdate_levels_levels [OF some, of i]
    have g: "grows nb (t ! i) (t' ! i)"
    proof (cases "i \<le> l")
      case True
      then show ?thesis using lev u(1,3) assms(2) by simp
    next
      case False
      then have "u ! i = t ! i" using u(2) assms(2) by simp
      then show ?thesis using lev u(1) assms(2) by simp
    qed
    moreover have "i < l \<longrightarrow> t' ! i = t ! i" using lev u(1,2) assms(2) by simp
    moreover have "\<not> update_clears nb l t j" if "j \<in> {l<..<ADDR_SIZE}" for j
      using none some u(1) clears [OF that] that by auto
    ultimately show ?thesis using setUpdate_ok [OF assms(1) Some] networkId_mono [of t i t'] Some by (auto simp: grows_def)
  qed
qed

subsection \<open>An example\<close>

text \<open>The node with the address 1 has a neighbour with the address 9 and the identifier 7.\<close>

definition example_neighbor :: Neighbor where
  "example_neighbor =
     \<lparr>forLinkQuality = 1, nb_address = 9, nb_id = 7, nb_expire = 0,
      nb_table = \<lparr>networkIds = \<lambda>_. 0, hopNumbers = \<lambda>_. NO_HOPS, etxMetrics = \<lambda>_. RTR_ETX_MAX, interfaces = \<lambda>_. 255, routeLogs = \<lambda>_. 0\<rparr>,
      helloVector = []\<rparr>"

definition example_table :: rtable where
  "example_table = addEntry 3 9 7 7 1 1 (direct_log 3) 0 empty_table"

lemma example_levels: "DiffBit 1 9 = 3" "DiffBit 1 10 = 3"
  by code_simp+

lemma example_table_nth: "example_table ! 3 = [RoutingEntry_new 9 7 7 1 1 (direct_log 3) 0]" "known_ids example_table" "\<not> dead example_table 3"
  by (simp_all add: example_table_def addEntry_def empty_table_def known_ids_def RoutingEntry_new_def dead_def numeral_eq_Suc)

lemma example_table_ok: "table_ok 1 example_table"
  unfolding example_table_def by (intro addEntry_ok empty_table_ok direct_entry_ok) (simp_all add: example_levels)

theorem get_entry_correct_witness: "getEntry 0 1 10 example_table = 7 \<and> DAGetEntry 0 1 10 example_table = 7"
proof -
  have "length example_table = ADDR_SIZE" using example_table_ok by (simp add: table_ok_def)
  from get_entry_correct [OF this example_table_nth(2), of 0 1 10 3 3] show ?thesis
    using example_table_nth(1,3) by (auto simp: example_levels first_live_def best_entry_def RoutingEntry_new_def)
qed

definition example_addresses :: "nsaddr \<Rightarrow> nsaddr" where
  "example_addresses i = (if i = 7 then 9 else 1)"

definition example_tables2 :: "nsaddr \<Rightarrow> rtable" where
  "example_tables2 i = (if i = 7 then addEntry 3 1 5 5 1 1 (direct_log 3) 0 empty_table else example_table)"

lemma example_levels_back: "DiffBit 9 1 = 3" "DiffBit 1 1 = - 1" "DiffBit 9 9 = - 1"
  by code_simp+

lemma one_entry_node:
  assumes "DiffBit self a = 3" "i \<noteq> IP_BROADCAST" and t: "t = addEntry 3 a i i 1 1 (direct_log 3) 0 empty_table"
  shows "table_ok self t" "known_ids t" "\<forall>es \<in> set t. \<forall>e \<in> set es. nextHopId e = i \<and> nextHopAdd e = a"
    "\<exists>x \<in> set (t ! 3). usable x \<and> DiffBit self (nextHopAdd x) = 3"
proof -
  have eq: "t = (replicate ADDR_SIZE [])[3 := [RoutingEntry_new a i i 1 1 (direct_log 3) 0]]"
    by (simp add: t addEntry_def empty_table_def)
  show "table_ok self t" unfolding t by (intro addEntry_ok empty_table_ok direct_entry_ok) (simp_all add: assms(1))
  have "set t \<subseteq> {[RoutingEntry_new a i i 1 1 (direct_log 3) 0], []}"
    using set_update_subset_insert [of "replicate ADDR_SIZE []" 3 "[RoutingEntry_new a i i 1 1 (direct_log 3) 0]"] unfolding eq by auto
  then show "known_ids t" "\<forall>es \<in> set t. \<forall>e \<in> set es. nextHopId e = i \<and> nextHopAdd e = a"
    using assms(2) by (auto simp: known_ids_def RoutingEntry_new_def)
  have "t ! 3 = [RoutingEntry_new a i i 1 1 (direct_log 3) 0]" by (simp add: eq)
  then show "\<exists>x \<in> set (t ! 3). usable x \<and> DiffBit self (nextHopAdd x) = 3" by (simp add: RoutingEntry_new_def assms(1))
qed

lemma example_sibling_routes: "sibling_routes example_addresses example_tables2 {5, 7}"
proof -
  define t where "t = addEntry 3 1 5 5 1 1 (direct_log 3) 0 empty_table"
  have five: "table_ok 1 example_table" "known_ids example_table" "\<forall>es \<in> set example_table. \<forall>e \<in> set es. nextHopId e = 7 \<and> nextHopAdd e = 9"
    "\<exists>x \<in> set (example_table ! 3). usable x \<and> DiffBit 1 (nextHopAdd x) = 3"
    using one_entry_node [OF example_levels(1) _ example_table_def] by simp_all
  have seven: "table_ok 9 t" "known_ids t" "\<forall>es \<in> set t. \<forall>e \<in> set es. nextHopId e = 5 \<and> nextHopAdd e = 1"
    "\<exists>x \<in> set (t ! 3). usable x \<and> DiffBit 9 (nextHopAdd x) = 3"
    using one_entry_node [OF example_levels_back(1) _ t_def] by simp_all
  have level: "l = 3" if "DiffBit (example_addresses n) (example_addresses m) = int l" for n m l
    using that by (simp add: example_addresses_def example_levels example_levels_back split: if_splits)
  have tabs: "example_tables2 5 = example_table" "example_tables2 7 = t" "example_addresses 5 = 1" "example_addresses 7 = 9"
    by (simp_all add: example_tables2_def t_def example_addresses_def)
  have sib: "\<exists>x \<in> set (example_tables2 n ! l). usable x \<and> DiffBit (example_addresses n) (nextHopAdd x) = int l"
    if "n \<in> {5, 7}" "DiffBit (example_addresses n) (example_addresses m) = int l" for n m l
    using that(1) five(4) seven(4) unfolding level [OF that(2)] by (auto simp: tabs)
  have node: "table_ok (example_addresses n) (example_tables2 n) \<and> known_ids (example_tables2 n) \<and>
      (\<forall>es \<in> set (example_tables2 n). \<forall>e \<in> set es. nextHopId e \<in> {5, 7} \<and> nextHopAdd e = example_addresses (nextHopId e))" if "n \<in> {5, 7}" for n
    using that five(1-3) seven(1-3) by (elim insertE emptyE) (simp_all add: tabs)
  show ?thesis unfolding sibling_routes_def using node sib by blast
qed

theorem packets_arrive_witness: "route example_addresses example_tables2 0 (example_addresses 7) 16 5 = 7"
proof (rule packets_arrive [OF example_sibling_routes])
  show "i = j" if "i \<in> {5, 7}" "j \<in> {5, 7}" "take_bit ADDR_SIZE (example_addresses i) = take_bit ADDR_SIZE (example_addresses j)" for i j
    using that by (auto simp: example_addresses_def split: if_splits)
qed simp_all

theorem set_update_correct_witness:
  "case setUpdate 0 (\<lambda>_. 0) 0 1 example_neighbor empty_table of
     Some t' \<Rightarrow> table_ok 1 t' \<and> grows example_neighbor (empty_table ! 4) (t' ! 4)
   | None \<Rightarrow> \<exists>j \<in> {3<..<ADDR_SIZE}. update_clears example_neighbor 3 empty_table j"
  using set_update_correct [OF empty_table_ok, of 4 1 example_neighbor 3 0 "\<lambda>_. 0" 0]
  by (simp add: example_neighbor_def example_levels split: option.splits)

end
