(* ===== verification/Aspu_Lookup.thy ===== *)
theory Aspu_Lookup
  imports Aspu_Routing "HOL-Library.Multiset"
begin

section \<open>Address lookup and forwarding in ASPU (\<open>src/aspu.cc\<close>)\<close>

text \<open>
  Packets name their destination by its identifier. A node keeps the addresses it has heard of in a table (\<open>DHT\<close>); a packet whose destination has
  no known address waits in a queue while a request goes to the node that stores the address. Learning an address sends the packets that
  wait for it, and sending a packet learns the addresses in its header, so the two call each other.

  A node is the record \<open>aspu\<close>. What it gives to other objects is the list \<open>outs\<close>: packets and messages it transmits, packets for the
  local applications and those it drops. The source branches on a number of interfaces that is not declared there; the model has the
  branch for none, which sends to the one target.
\<close>

subsection \<open>State\<close>

record data_packet =
  pk_uid :: nat
  pk_up :: bool
  pk_forwards :: int
  pk_saddr :: nsaddr
  pk_daddr :: nsaddr
  pk_ttl :: int
  pk_size :: int
  pk_next_hop :: nsaddr
  pk_ts :: real
  srcId :: nsaddr
  srcAdd :: nsaddr
  forId :: nsaddr
  forAdd :: nsaddr
  dstId :: nsaddr
  dstAdd :: nsaddr
  pk_lifetime :: real
  txCount :: u32
  darqCount :: u32

record message =
  m_srcId :: nsaddr
  m_srcAdd :: nsaddr
  m_forId :: nsaddr
  m_forAdd :: nsaddr
  m_dstId :: nsaddr
  m_dstAdd :: nsaddr
  m_reqId :: nsaddr
  m_reqAdd :: nsaddr
  m_seqNum :: u32

datatype kind = DARQ | DARP | DAUP | DABR

datatype effect =
    Transmit data_packet
  | Deliver data_packet
  | Dropped string data_packet
  | Control kind nsaddr message
  | Dropped_Control string kind message

record DHT_Entry =
  dht_ptr :: nat
  dht_id :: nsaddr
  dht_address :: nsaddr
  dht_expire :: real

record aspu =
  now :: real
  ident :: nsaddr
  address :: nsaddr
  oldAddress :: nsaddr
  macFailed_flag :: int
  etxMetric :: int
  rtable :: rtable
  dht :: "DHT_Entry list"
  heap :: "nat \<Rightarrow> nat"
  allocs :: nat
  waiting :: "data_packet list"
  pckSeqNum :: u32
  outs :: "effect list"

abbreviation ASPU_QUEUE_LEN :: nat where "ASPU_QUEUE_LEN \<equiv> 64"
abbreviation ASPU_QUEUE_TIMEOUT :: real where "ASPU_QUEUE_TIMEOUT \<equiv> 30"
abbreviation ADP_DARQ_TIMEOUT :: real where "ADP_DARQ_TIMEOUT \<equiv> 5"
abbreviation ADP_DARQ_EB_TIMEOUT :: real where "ADP_DARQ_EB_TIMEOUT \<equiv> 5"
abbreviation ASPU_DHT_ENTRY_TIMEOUT :: real where "ASPU_DHT_ENTRY_TIMEOUT \<equiv> 50"
abbreviation MAC_FAILED_ALLOWED_LOSS :: u32 where "MAC_FAILED_ALLOWED_LOSS \<equiv> 5"

definition emit :: "effect \<Rightarrow> aspu \<Rightarrow> aspu" where
  "emit x s = s\<lparr>outs := outs s @ [x]\<rparr>"

subsection \<open>The table of addresses\<close>

text \<open>
  A \<open>std::set\<close> of pointers, which has its entries in the order of their addresses in memory, the field \<open>dht_ptr\<close>. Which addresses \<open>new\<close> returns is
  not for the program to say: the \<open>n\<close>-th entry that a node makes is at \<open>heap s n\<close>, for any \<open>heap\<close>. An identifier occurs only once, but several
  identifiers can have one address, and which of them \<open>findId\<close> returns depends on that order.
\<close>

definition findAdd :: "nsaddr \<Rightarrow> DHT_Entry list \<Rightarrow> nsaddr" where
  "findAdd i es = (case find (\<lambda>e. dht_id e = i) es of None \<Rightarrow> IP_BROADCAST | Some e \<Rightarrow> dht_address e)"

definition findId :: "nsaddr \<Rightarrow> DHT_Entry list \<Rightarrow> nsaddr" where
  "findId a es = (case find (\<lambda>e. dht_address e = a) es of None \<Rightarrow> IP_BROADCAST | Some e \<Rightarrow> dht_id e)"

definition dht_getEntry :: "nsaddr \<Rightarrow> DHT_Entry list \<Rightarrow> DHT_Entry option" where
  "dht_getEntry i es = find (\<lambda>e. dht_id e = i) es"

definition ptr_less :: "DHT_Entry \<Rightarrow> DHT_Entry \<Rightarrow> bool" where
  "ptr_less x y \<longleftrightarrow> dht_ptr x < dht_ptr y"

text \<open>\<open>ptr\<close> is the address of a new entry; an entry that is there keeps its own.\<close>

definition dht_addEntry :: "nat \<Rightarrow> nsaddr \<Rightarrow> nsaddr \<Rightarrow> real \<Rightarrow> DHT_Entry list \<Rightarrow> DHT_Entry list" where
  "dht_addEntry ptr i a expire es =
     (case dht_getEntry i es of
        None \<Rightarrow> std_insert ptr_less \<lparr>dht_ptr = ptr, dht_id = i, dht_address = a, dht_expire = expire\<rparr> es
      | Some x \<Rightarrow> map (\<lambda>e. if dht_ptr e = dht_ptr x then e\<lparr>dht_address := a, dht_expire := expire\<rparr> else e) es)"

text \<open>An expired entry is erased and then deleted through the erased iterator, which is undefined; \<open>removeEntry\<close> and \<open>clear\<close> do the same.\<close>

fun dht_purge :: "real \<Rightarrow> DHT_Entry list \<Rightarrow> DHT_Entry list option" where
  "dht_purge t [] = Some []"
| "dht_purge t (e # es) = (if dht_expire e < t then None else map_option ((#) e) (dht_purge t es))"

fun dht_removeEntry :: "nsaddr \<Rightarrow> DHT_Entry list \<Rightarrow> DHT_Entry list option" where
  "dht_removeEntry i [] = Some []"
| "dht_removeEntry i (e # es) = (if dht_id e = i then None else map_option ((#) e) (dht_removeEntry i es))"

fun dht_clear :: "DHT_Entry list \<Rightarrow> DHT_Entry list option" where
  "dht_clear [] = Some []"
| "dht_clear (e # es) = None"

definition learn :: "nsaddr \<Rightarrow> nsaddr \<Rightarrow> aspu \<Rightarrow> aspu" where
  "learn i a s =
     s\<lparr>dht := dht_addEntry (heap s (allocs s)) i a (now s + ASPU_DHT_ENTRY_TIMEOUT) (dht s),
       allocs := (if dht_getEntry i (dht s) = None then allocs s + 1 else allocs s)\<rparr>"

subsection \<open>What the table of addresses knows\<close>

interpretation ptr_order: std_order ptr_less
  by unfold_locales (auto simp: ptr_less_def)

text \<open>The entries are in the order of distinct addresses that \<open>new\<close> has returned, and no identifier occurs twice.\<close>

definition dht_ok :: "aspu \<Rightarrow> bool" where
  "dht_ok s \<longleftrightarrow> inj (heap s) \<and> sorted_wrt ptr_less (dht s) \<and> dht_ptr ` set (dht s) \<subseteq> heap s ` {..<allocs s} \<and>
     inj_on dht_id (set (dht s))"

lemma getEntry_some: "dht_getEntry i es = Some e \<Longrightarrow> e \<in> set es \<and> dht_id e = i"
  by (auto simp: dht_getEntry_def find_Some_iff)

lemma getEntry_none: "dht_getEntry i es = None \<longleftrightarrow> (\<forall>e \<in> set es. dht_id e \<noteq> i)"
  by (auto simp: dht_getEntry_def find_None_iff)

lemma findAdd_member:
  assumes "inj_on dht_id (set es)" "e \<in> set es"
  shows "findAdd (dht_id e) es = dht_address e"
proof -
  obtain x where x: "dht_getEntry (dht_id e) es = Some x" using assms(2) getEntry_none [of "dht_id e" es] by (cases "dht_getEntry (dht_id e) es") auto
  then have "x = e" using getEntry_some [OF x] assms inj_onD by metis
  then show ?thesis using x by (simp add: findAdd_def dht_getEntry_def)
qed

lemma learn_new:
  assumes ok: "dht_ok s" and new: "dht_getEntry i (dht s) = None"
  shows "dht_ok (learn i a s) \<and> findAdd i (dht (learn i a s)) = a"
proof -
  let ?e = "\<lparr>dht_ptr = heap s (allocs s), dht_id = i, dht_address = a, dht_expire = now s + ASPU_DHT_ENTRY_TIMEOUT\<rparr>"
  have fresh: "dht_ptr e \<noteq> heap s (allocs s)" if "e \<in> set (dht s)" for e
  proof -
    have "dht_ptr e \<in> heap s ` {..<allocs s}" using ok that unfolding dht_ok_def by blast
    then show ?thesis using ok by (auto simp: dht_ok_def dest: injD)
  qed
  have dht: "dht (learn i a s) = std_insert ptr_less ?e (dht s)" using new by (simp add: learn_def dht_addEntry_def)
  have set: "set (dht (learn i a s)) = insert ?e (set (dht s))"
    unfolding dht by (rule ptr_order.set_insert_new) (use fresh in \<open>auto simp: ptr_less_def not_less_iff_gr_or_eq\<close>)
  have ids: "inj_on dht_id (set (dht (learn i a s)))"
    using ok new unfolding set by (auto simp: dht_ok_def getEntry_none inj_on_insert)
  have "dht_ptr ` set (dht (learn i a s)) \<subseteq> heap s ` {..<Suc (allocs s)}" using ok unfolding set by (auto simp: dht_ok_def lessThan_Suc)
  then have "dht_ok (learn i a s)"
    using ok ids ptr_order.sorted_insert [of "dht s" ?e] new dht by (simp add: dht_ok_def learn_def)
  moreover have "findAdd i (dht (learn i a s)) = a" using findAdd_member [OF ids, of ?e] set by simp
  ultimately show ?thesis ..
qed

lemma inj_on_map_same: "(\<And>e. k (f e) = k e) \<Longrightarrow> inj_on k (set xs) \<Longrightarrow> inj_on k (set (map f xs))"
  by (auto simp: inj_on_def)

lemma learn_known:
  assumes ok: "dht_ok s" and known: "dht_getEntry i (dht s) = Some x"
  shows "dht_ok (learn i a s) \<and> findAdd i (dht (learn i a s)) = a"
proof -
  let ?f = "\<lambda>e. if dht_ptr e = dht_ptr x then e\<lparr>dht_address := a, dht_expire := now s + ASPU_DHT_ENTRY_TIMEOUT\<rparr> else e"
  have x: "x \<in> set (dht s)" "dht_id x = i" using getEntry_some [OF known] by simp_all
  have f: "dht_ptr (?f e) = dht_ptr e" "dht_id (?f e) = dht_id e" for e by simp_all
  have dht: "dht (learn i a s) = map ?f (dht s)" using known by (simp add: learn_def dht_addEntry_def)
  have "sorted_wrt ptr_less (map ?f (dht s)) = sorted_wrt ptr_less (dht s)" by (simp only: sorted_wrt_map ptr_less_def [abs_def] f)
  moreover have ids: "inj_on dht_id (set (map ?f (dht s)))"
    by (rule inj_on_map_same [of dht_id ?f "dht s", OF f(2)]) (use ok in \<open>simp add: dht_ok_def\<close>)
  moreover have "dht_ptr ` set (map ?f (dht s)) = dht_ptr ` set (dht s)" by (simp only: set_map image_image f)
  ultimately have "dht_ok (learn i a s)" using ok known unfolding dht_ok_def dht by (simp add: learn_def)
  moreover have "?f x \<in> set (map ?f (dht s))" unfolding set_map using imageI [OF x(1), of ?f] .
  from findAdd_member [OF ids this] have "findAdd i (dht (learn i a s)) = a" using x(2) dht by simp
  ultimately show ?thesis ..
qed

text \<open>What was learned last is what is found, whatever the addresses in memory are.\<close>

lemma learn_finds: "dht_ok s \<Longrightarrow> dht_ok (learn i a s) \<and> findAdd i (dht (learn i a s)) = a"
  using learn_new learn_known by (cases "dht_getEntry i (dht s)") blast+

text \<open>Of several identifiers with one address, \<open>findId\<close> returns the one whose entry is lowest in memory.\<close>

lemma findId_lowest:
  assumes "sorted_wrt ptr_less es" "e \<in> set es" "dht_address e = a"
    "\<And>x. x \<in> set es \<Longrightarrow> dht_address x = a \<Longrightarrow> dht_ptr e \<le> dht_ptr x"
  shows "findId a es = dht_id e"
  using assms
proof (induction es)
  case (Cons y ys)
  show ?case
  proof (cases "y = e")
    case False
    then have "e \<in> set ys" "dht_ptr y < dht_ptr e" using Cons.prems(1,2) by (auto simp: ptr_less_def)
    moreover from this have "dht_address y \<noteq> a" using Cons.prems(4) [of y] by auto
    ultimately show ?thesis using Cons by (simp add: findId_def)
  qed (use Cons.prems in \<open>simp add: findId_def\<close>)
qed simp

text \<open>It is the program's own choice only up to the addresses in memory: with the two entries the other way round it returns the other identifier.\<close>

lemma findId_depends_on_memory:
  "findId 9 (dht_addEntry 200 8 9 0 (dht_addEntry 100 7 9 0 [])) = 7"
  "findId 9 (dht_addEntry 100 8 9 0 (dht_addEntry 200 7 9 0 [])) = 8"
  by (simp_all add: findId_def dht_addEntry_def dht_getEntry_def ptr_less_def)

subsection \<open>The queue of waiting packets\<close>

definition removeHead :: "aspu \<Rightarrow> aspu" where
  "removeHead s =
     (case waiting s of
        [] \<Rightarrow> s
      | p # ps \<Rightarrow> emit (Dropped (if pk_ts p \<le> now s then ''TOUT'' else ''IFQ'') p) (s\<lparr>waiting := ps\<rparr>))"

text \<open>\<open>ADP_DARP_EB\<close>, which the source tests here, is not defined (\<open>ADP_DARQ_EB\<close> is).\<close>

definition enque :: "data_packet \<Rightarrow> aspu \<Rightarrow> aspu" where
  "enque p s =
     (let s = (if length (waiting s) \<ge> ASPU_QUEUE_LEN then removeHead s else s)
      in s\<lparr>waiting := waiting s @ [p\<lparr>pk_ts := now s + ASPU_QUEUE_TIMEOUT, pk_lifetime := now s + ADP_DARQ_TIMEOUT\<rparr>]\<rparr>)"

fun deque :: "data_packet list \<Rightarrow> (data_packet \<times> data_packet list) option" where
  "deque [] = None"
| "deque (p # ps) = Some (p, ps)"

fun deque_for :: "nsaddr \<Rightarrow> data_packet list \<Rightarrow> (data_packet \<times> data_packet list) option" where
  "deque_for d [] = None"
| "deque_for d (p # ps) = (if pk_daddr p = d then Some (p, ps) else map_option (\<lambda>(q, qs). (q, p # qs)) (deque_for d ps))"

text \<open>\<open>at\<close> throws for a position that is not in the queue: \<open>None\<close>. The test of the source lets the length itself pass.\<close>

definition isExpired :: "real \<Rightarrow> int \<Rightarrow> data_packet list \<Rightarrow> (bool \<times> data_packet list) option" where
  "isExpired t pos ps =
     (if pos \<le> int (length ps)
      then if 0 \<le> pos \<and> pos < int (length ps)
           then let p = ps ! nat pos in
                if pk_lifetime p \<le> t
                then Some (True, ps[nat pos := p\<lparr>pk_lifetime := t + real (unat (darqCount p)) * ADP_DARQ_EB_TIMEOUT, darqCount := darqCount p + 1\<rparr>])
                else Some (False, ps)
           else None
      else Some (False, ps))"

subsection \<open>Forwarding\<close>

text \<open>\<open>add\<close> is \<open>ADP::addEntry\<close>, which is called for the three addresses of the header (\<open>ADP_DATA_CACHING\<close>).\<close>

definition forward_with :: "(nsaddr \<Rightarrow> nsaddr \<Rightarrow> aspu \<Rightarrow> aspu option) \<Rightarrow> data_packet \<Rightarrow> aspu \<Rightarrow> aspu option" where
  "forward_with add p s =
     (if pk_up p \<and> (pk_daddr p = IP_BROADCAST \<or> pk_daddr p = ident s) then Some (emit (Deliver p) s)
      else let p = p\<lparr>pk_up := False\<rparr> in
      if pk_daddr p = IP_BROADCAST then Some (emit (Dropped ''DROP_IP_BROADCAST'' p) s)
      else do {
        s \<leftarrow> add (dstId p) (dstAdd p) s;
        s \<leftarrow> add (srcId p) (srcAdd p) s;
        s \<leftarrow> add (forId p) (forAdd p) s;
        Some (if dstAdd p = address s then emit (Dropped ''DROP_RTR_DADD'' p) s
              else let nextHop = getEntry (etxMetric s) (address s) (dstAdd p) (rtable s) in
              if nextHop = IP_BROADCAST then emit (Dropped ''DROP_RTR_ADPNRT'' p) s
              else emit (Transmit (p\<lparr>pk_next_hop := nextHop, forAdd := address s, forId := ident s\<rparr>)) s)
      })"

text \<open>The loop of \<open>ADP::addEntry\<close>; every round takes a packet from the queue, so that its length is enough fuel.\<close>

fun drain :: "nat \<Rightarrow> nsaddr \<Rightarrow> aspu \<Rightarrow> aspu option" where
  "drain 0 i s = None"
| "drain (Suc n) i s =
     (case deque_for i (waiting s) of
        None \<Rightarrow> Some s
      | Some (p, ps) \<Rightarrow>
          forward_with (\<lambda>j a s. drain n j (learn j a s)) (p\<lparr>dstAdd := findAdd i (dht s)\<rparr>) (s\<lparr>waiting := ps\<rparr>) \<bind> drain n i)"

definition adp_addEntry :: "nsaddr \<Rightarrow> nsaddr \<Rightarrow> aspu \<Rightarrow> aspu option" where
  "adp_addEntry i a s = drain (Suc (length (waiting s))) i (learn i a s)"

definition forward :: "data_packet \<Rightarrow> aspu \<Rightarrow> aspu option" where
  "forward p s = forward_with adp_addEntry p s"

subsection \<open>The loop ends and loses no packet\<close>

fun packet_of :: "effect \<Rightarrow> nat list" where
  "packet_of (Transmit p) = [pk_uid p]"
| "packet_of (Deliver p) = [pk_uid p]"
| "packet_of (Dropped r p) = [pk_uid p]"
| "packet_of (Control k h m) = []"
| "packet_of (Dropped_Control r k m) = []"

text \<open>The packets a node has or has had, by their numbers.\<close>

definition packets_of :: "aspu \<Rightarrow> nat multiset" where
  "packets_of s = mset (map pk_uid (waiting s)) + mset (concat (map packet_of (outs s)))"

text \<open>What a node may do to a packet it forwards.\<close>

fun sound :: "aspu \<Rightarrow> effect \<Rightarrow> bool" where
  "sound s (Transmit p) \<longleftrightarrow> pk_next_hop p = getEntry (etxMetric s) (address s) (dstAdd p) (rtable s) \<and> pk_next_hop p \<noteq> IP_BROADCAST \<and>
     pk_daddr p \<noteq> IP_BROADCAST \<and> dstAdd p \<noteq> address s \<and> forId p = ident s \<and> forAdd p = address s"
| "sound s (Deliver p) \<longleftrightarrow> pk_daddr p = IP_BROADCAST \<or> pk_daddr p = ident s"
| "sound s (Dropped r p) \<longleftrightarrow> r \<in> {''DROP_IP_BROADCAST'', ''DROP_RTR_DADD'', ''DROP_RTR_ADPNRT''}"
| "sound s (Control k h m) \<longleftrightarrow> False"
| "sound s (Dropped_Control r k m) \<longleftrightarrow> False"

definition same_node :: "aspu \<Rightarrow> aspu \<Rightarrow> bool" where
  "same_node s r \<longleftrightarrow> now r = now s \<and> ident r = ident s \<and> address r = address s \<and> oldAddress r = oldAddress s \<and>
     macFailed_flag r = macFailed_flag s \<and> etxMetric r = etxMetric s \<and> rtable r = rtable s \<and> pckSeqNum r = pckSeqNum s \<and> heap r = heap s"

definition passes_on :: "aspu \<Rightarrow> aspu \<Rightarrow> bool" where
  "passes_on s r \<longleftrightarrow> same_node s r \<and> length (waiting r) \<le> length (waiting s) \<and> (\<exists>xs. outs r = outs s @ xs \<and> (\<forall>x \<in> set xs. sound s x))"

lemma sound_cong: "same_node s r \<Longrightarrow> sound r x = sound s x"
  by (cases x) (simp_all add: same_node_def)

lemma passes_refl: "passes_on s s"
  by (simp add: passes_on_def same_node_def)

lemma passes_trans: "passes_on s r \<Longrightarrow> passes_on r q \<Longrightarrow> passes_on s q"
proof -
  assume a: "passes_on s r" "passes_on r q"
  then obtain xs ys where xs: "outs r = outs s @ xs" "\<forall>x \<in> set xs. sound s x" and ys: "outs q = outs r @ ys" "\<forall>x \<in> set ys. sound r x"
    by (auto simp: passes_on_def)
  have same: "same_node s r" "same_node r q" using a by (simp_all add: passes_on_def)
  then have "same_node s q" by (simp add: same_node_def)
  moreover have "outs q = outs s @ (xs @ ys)" using xs(1) ys(1) by simp
  moreover have "\<forall>x \<in> set (xs @ ys). sound s x" using xs(2) ys(2) sound_cong [OF same(1)] by auto
  ultimately show ?thesis using a unfolding passes_on_def by (meson order_trans)
qed

lemma passes_learn: "passes_on s (learn i a s) \<and> packets_of (learn i a s) = packets_of s"
  by (simp add: passes_on_def same_node_def learn_def packets_of_def)

lemma packets_emit: "packets_of (emit x s) = packets_of s + mset (packet_of x)"
  by (simp add: packets_of_def emit_def)

lemma passes_emit: "passes_on s r \<Longrightarrow> sound s x \<Longrightarrow> passes_on s (emit x r)"
  by (auto simp: passes_on_def same_node_def emit_def)

lemma deque_for_some:
  "deque_for d ps = Some (p, qs) \<Longrightarrow> pk_daddr p = d \<and> p \<in> set ps \<and> length ps = Suc (length qs) \<and> mset ps = add_mset p (mset qs)"
  by (induction ps arbitrary: p qs) (auto split: if_splits)

lemma deque_for_none: "deque_for d ps = None \<longleftrightarrow> (\<forall>p \<in> set ps. pk_daddr p \<noteq> d)"
  by (induction ps) auto

text \<open>The step: with an \<open>add\<close> that ends, forwarding ends and passes on the one packet.\<close>

lemma forward_with_step:
  assumes add: "\<And>j a r. length (waiting r) \<le> length (waiting s) \<Longrightarrow> \<exists>q. add j a r = Some q \<and> passes_on r q \<and> packets_of q = packets_of r"
  shows "\<exists>r. forward_with add p s = Some r \<and> passes_on s r \<and> packets_of r = add_mset (pk_uid p) (packets_of s)"
proof (cases "pk_up p \<and> (pk_daddr p = IP_BROADCAST \<or> pk_daddr p = ident s) \<or> pk_daddr p = IP_BROADCAST")
  case True
  then show ?thesis using passes_emit [OF passes_refl] packets_emit by (auto simp: forward_with_def)
next
  case False
  obtain r1 where r1: "add (dstId p) (dstAdd p) s = Some r1" "passes_on s r1" "packets_of r1 = packets_of s" using add by blast
  obtain r2 where r2: "add (srcId p) (srcAdd p) r1 = Some r2" "passes_on r1 r2" "packets_of r2 = packets_of r1" using add r1(2) by (metis passes_on_def)
  have s2: "passes_on s r2" by (rule passes_trans [OF r1(2) r2(2)])
  obtain r3 where r3: "add (forId p) (forAdd p) r2 = Some r3" "passes_on r2 r3" "packets_of r3 = packets_of r2" using add s2 by (metis passes_on_def)
  have s3: "passes_on s r3" by (rule passes_trans [OF s2 r3(2)])
  then have same: "address r3 = address s" "ident r3 = ident s" "etxMetric r3 = etxMetric s" "rtable r3 = rtable s"
    by (simp_all add: passes_on_def same_node_def)
  show ?thesis
    using False r1 r2 r3 s3 passes_emit [OF s3] packets_emit same by (auto simp: forward_with_def Let_def)
qed

lemma drain_sends:
  "length (waiting s) < n \<Longrightarrow> \<exists>r. drain n i s = Some r \<and> passes_on s r \<and> packets_of r = packets_of s \<and> deque_for i (waiting r) = None"
proof (induction n arbitrary: i s)
  case (Suc n)
  show ?case
  proof (cases "deque_for i (waiting s)")
    case None
    then show ?thesis using passes_refl by simp
  next
    case (Some pq)
    obtain p ps where pq: "pq = (p, ps)" by (cases pq)
    note d = deque_for_some [OF Some [unfolded pq]]
    define u where "u = s\<lparr>waiting := ps\<rparr>"
    have u: "passes_on s u" "packets_of s = add_mset (pk_uid p) (packets_of u)" "length (waiting u) < n"
      using d Suc.prems by (auto simp: u_def passes_on_def same_node_def packets_of_def)
    have "\<exists>q. drain n j (learn j a r) = Some q \<and> passes_on r q \<and> packets_of q = packets_of r" if "length (waiting r) \<le> length (waiting u)" for j a r
      using Suc.IH [of "learn j a r" j] that u(3) passes_learn [of r j a] passes_trans by (fastforce simp: learn_def)
    from forward_with_step [of u "\<lambda>j a s. drain n j (learn j a s)" "p\<lparr>dstAdd := findAdd i (dht s)\<rparr>", OF this]
    obtain r where r: "forward_with (\<lambda>j a s. drain n j (learn j a s)) (p\<lparr>dstAdd := findAdd i (dht s)\<rparr>) u = Some r" "passes_on u r"
      "packets_of r = add_mset (pk_uid p) (packets_of u)" by auto
    have "length (waiting r) < n" using r(2) u(3) by (simp add: passes_on_def)
    from Suc.IH [OF this, of i] obtain q where q: "drain n i r = Some q" "passes_on r q" "packets_of q = packets_of r" "deque_for i (waiting q) = None" by blast
    have "drain (Suc n) i s = Some q" using Some pq r(1) q(1) by (simp add: u_def)
    moreover have "passes_on s q" by (rule passes_trans [OF u(1) passes_trans [OF r(2) q(2)]])
    ultimately show ?thesis using q(3,4) r(3) u(2) by simp
  qed
qed simp

lemma adp_addEntry_sends: "\<exists>q. adp_addEntry j a r = Some q \<and> passes_on r q \<and> packets_of q = packets_of r"
  using drain_sends [of "learn j a r" "Suc (length (waiting r))" j] passes_learn [of r j a] passes_trans
  by (fastforce simp: adp_addEntry_def learn_def)

subsection \<open>The fuel does not matter\<close>

lemma forward_with_mono:
  assumes "\<And>j a r q. add j a r = Some q \<Longrightarrow> add' j a r = Some q" "forward_with add p s = Some r"
  shows "forward_with add' p s = Some r"
  using assms(2) by (auto simp: forward_with_def Let_def bind_eq_Some_conv split: if_splits dest!: assms(1))

lemma drain_mono: "drain n i s = Some r \<Longrightarrow> n \<le> m \<Longrightarrow> drain m i s = Some r"
proof (induction n arbitrary: m i s r)
  case (Suc n)
  from Suc.prems(2) obtain k where m: "m = Suc k" "n \<le> k" by (cases m) auto
  show ?case
  proof (cases "deque_for i (waiting s)")
    case (Some pq)
    obtain p ps where pq: "pq = (p, ps)" by (cases pq)
    obtain q where q: "forward_with (\<lambda>j a s. drain n j (learn j a s)) (p\<lparr>dstAdd := findAdd i (dht s)\<rparr>) (s\<lparr>waiting := ps\<rparr>) = Some q" "drain n i q = Some r"
      using Suc.prems(1) Some pq by (auto simp: bind_eq_Some_conv)
    have "forward_with (\<lambda>j a s. drain k j (learn j a s)) (p\<lparr>dstAdd := findAdd i (dht s)\<rparr>) (s\<lparr>waiting := ps\<rparr>) = Some q"
      by (rule forward_with_mono [OF _ q(1)]) (rule Suc.IH [OF _ m(2)])
    then show ?thesis using Some pq m Suc.IH [OF q(2) m(2)] by simp
  qed (use Suc.prems m in simp)
qed simp

lemma drain_enough:
  assumes "length (waiting s) < n"
  shows "drain n i s = drain (Suc (length (waiting s))) i s"
proof -
  obtain r where "drain (Suc (length (waiting s))) i s = Some r" using drain_sends [of s "Suc (length (waiting s))" i] by auto
  then show ?thesis using drain_mono [of "Suc (length (waiting s))" i s r n] assms by simp
qed

lemma drain_own_fuel:
  assumes "drain n i s = Some q"
  shows "drain (Suc (length (waiting s))) i s = Some q"
proof -
  obtain r where r: "drain (Suc (length (waiting s))) i s = Some r" using drain_sends [of s "Suc (length (waiting s))" i] by blast
  have "drain (n + Suc (length (waiting s))) i s = Some r" by (rule drain_mono [OF r]) linarith
  moreover have "drain (n + Suc (length (waiting s))) i s = Some q" by (rule drain_mono [OF assms]) linarith
  ultimately show ?thesis using r by simp
qed

lemma waiting_learn: "waiting (learn i a s) = waiting s"
  by (simp add: learn_def)

definition send_waiting :: "nsaddr \<Rightarrow> aspu \<Rightarrow> aspu option" where
  "send_waiting i s = drain (Suc (length (waiting s))) i s"

lemma adp_addEntry_eq: "adp_addEntry i a s = send_waiting i (learn i a s)"
  by (simp add: adp_addEntry_def send_waiting_def learn_def)

text \<open>The loop as the source has it, and with it the mutual recursion of \<open>addEntry\<close> and \<open>forward\<close>.\<close>

lemma send_waiting_loop:
  "send_waiting i s =
     (case deque_for i (waiting s) of
        None \<Rightarrow> Some s
      | Some (p, ps) \<Rightarrow> forward (p\<lparr>dstAdd := findAdd i (dht s)\<rparr>) (s\<lparr>waiting := ps\<rparr>) \<bind> send_waiting i)"
proof (cases "deque_for i (waiting s)")
  case (Some pq)
  obtain p ps where pq: "pq = (p, ps)" by (cases pq)
  note d = deque_for_some [OF Some [unfolded pq]]
  define u where "u = s\<lparr>waiting := ps\<rparr>"
  define p' where "p' = p\<lparr>dstAdd := findAdd i (dht s)\<rparr>"
  have len: "length (waiting u) < length (waiting s)" using d by (simp add: u_def)
  have "\<exists>q. drain (length (waiting s)) j (learn j a v) = Some q \<and> passes_on v q \<and> packets_of q = packets_of v"
    if "length (waiting v) \<le> length (waiting u)" for j a v
  proof -
    have "length (waiting (learn j a v)) < length (waiting s)" using that len by (simp add: learn_def)
    from drain_sends [OF this, of j] show ?thesis using passes_learn [of v j a] passes_trans by fastforce
  qed
  from forward_with_step [of u "\<lambda>j a s'. drain (length (waiting s)) j (learn j a s')", OF this, of p'] obtain r where
    r: "forward_with (\<lambda>j a s'. drain (length (waiting s)) j (learn j a s')) p' u = Some r" "passes_on u r" by blast
  have fwd: "forward p' u = Some r"
    unfolding forward_def adp_addEntry_def
    by (rule forward_with_mono [OF _ r(1)]) (metis drain_own_fuel learn_def waiting_learn)
  have "send_waiting i s = drain (length (waiting s)) i r" using Some pq r(1) by (simp add: send_waiting_def u_def p'_def)
  also have "\<dots> = send_waiting i r" using drain_enough [of r "length (waiting s)" i] len r(2) by (simp add: send_waiting_def passes_on_def)
  finally show ?thesis using Some pq fwd by (simp add: u_def p'_def)
qed (simp add: send_waiting_def)

text \<open>C13. Learning an address ends, although it sends packets and sending packets learns addresses. Afterwards no packet for the identifier
  waits, every packet that left the queue was transmitted, delivered or dropped exactly once, and what was transmitted went to the next hop of the routing table.\<close>

theorem learning_an_address_ends:
  "\<exists>r. adp_addEntry i a s = Some r \<and> (\<forall>p \<in> set (waiting r). pk_daddr p \<noteq> i) \<and> packets_of r = packets_of s \<and> passes_on s r"
proof -
  obtain r where r: "drain (Suc (length (waiting s))) i (learn i a s) = Some r" "passes_on (learn i a s) r" "packets_of r = packets_of (learn i a s)"
    "deque_for i (waiting r) = None"
    using drain_sends [of "learn i a s" "Suc (length (waiting s))" i] by (auto simp: learn_def)
  then show ?thesis using passes_learn [of s i a] passes_trans deque_for_none by (fastforce simp: adp_addEntry_def)
qed

subsection \<open>Expired packets\<close>

text \<open>The first expiry of a packet, whose count \<open>enque\<close> leaves at 0, is followed by a second one at the same time; only then the packet waits five seconds.\<close>

lemma first_expiry_repeats:
  assumes "pk_lifetime p \<le> t" "darqCount p = 0"
  shows "\<exists>q r. isExpired t 0 [p] = Some (True, [q]) \<and> isExpired t 0 [q] = Some (True, [r]) \<and> pk_lifetime r = t + 5 \<and> darqCount r = 2"
  using assms by (simp add: isExpired_def Let_def)

lemma expired_at_end: "isExpired t (int (length ps)) ps = None"
  by (simp add: isExpired_def)

subsection \<open>An example\<close>

definition example_data_packet :: data_packet where
  "example_data_packet =
     \<lparr>pk_uid = 1, pk_up = False, pk_forwards = 0, pk_saddr = 5, pk_daddr = 7, pk_ttl = 32, pk_size = 100, pk_next_hop = 7, pk_ts = 0,
      srcId = 5, srcAdd = 1, forId = 5, forAdd = 1, dstId = 7, dstAdd = IP_BROADCAST, pk_lifetime = 0, txCount = 0, darqCount = 0\<rparr>"

definition example_node :: "rtable \<Rightarrow> aspu" where
  "example_node t =
     \<lparr>now = 1, ident = 5, address = 1, oldAddress = 0, macFailed_flag = 1, etxMetric = 0, rtable = t, dht = [], heap = (\<lambda>n. 4096 + 64 * n), allocs = 0, waiting = [example_data_packet],
      pckSeqNum = 0, outs = []\<rparr>"

theorem learning_an_address_ends_witness:
  "\<exists>r. adp_addEntry 7 9 (example_node example_table) = Some r \<and> (\<forall>p \<in> set (waiting r). pk_daddr p \<noteq> 7)"
  using learning_an_address_ends [of 7 9 "example_node example_table"] by blast

end
