(* ===== verification/Aspu_Protocol.thy ===== *)
theory Aspu_Protocol
  imports Aspu_Lookup
begin

section \<open>Address requests of ASPU and its packets_of (\<open>src/aspu.cc\<close>)\<close>

text \<open>
  The address of a node is stored at the node whose own address is nearest to the hash of its identifier: requests and updates that
  find no way to that address clear its low bits, one after the other, until they do. The contents of \<open>DABR\<close> messages and their reception are not modelled.
\<close>

subsection \<open>The search for an address\<close>

text \<open>\<open>k\<close> counts the rounds left of the 16 that the condition \<open>i < ADDR_SIZE\<close> allows.\<close>

fun search_loop :: "(nsaddr \<Rightarrow> bool) \<Rightarrow> nat \<Rightarrow> nat \<Rightarrow> nsaddr \<Rightarrow> nsaddr \<Rightarrow> nsaddr" where
  "search_loop again 0 i old dst = dst"
| "search_loop again (Suc k) i old dst =
     (if again dst then let old = unset_bit i old in search_loop again k (i + 1) old old else dst)"

definition address_search :: "(nsaddr \<Rightarrow> bool) \<Rightarrow> nsaddr \<Rightarrow> nsaddr" where
  "address_search again dst = search_loop again ADDR_SIZE 0 (take_bit ADDR_SIZE dst) dst"

definition da_next :: "aspu \<Rightarrow> nsaddr \<Rightarrow> nsaddr" where
  "da_next s dst = DAGetEntry (etxMetric s) (address s) dst (rtable s)"

definition no_route :: "aspu \<Rightarrow> nsaddr \<Rightarrow> bool" where
  "no_route s dst \<longleftrightarrow> da_next s dst = IP_BROADCAST"

subsection \<open>Requests\<close>

definition darq_message :: "nsaddr \<Rightarrow> nsaddr \<Rightarrow> aspu \<Rightarrow> message" where
  "darq_message req dst s =
     \<lparr>m_srcId = ident s, m_srcAdd = address s, m_forId = ident s, m_forAdd = address s, m_dstId = findId dst (dht s), m_dstAdd = dst,
      m_reqId = req, m_reqAdd = 0, m_seqNum = pckSeqNum s\<rparr>"

definition sendDarq :: "nsaddr \<Rightarrow> aspu \<Rightarrow> aspu" where
  "sendDarq req s =
     (let dst = hash req in
      if dst = address s then s
      else let dst = address_search (no_route s) dst in
      if no_route s dst then s
      else emit (Control DARQ (da_next s dst) (darq_message req dst s)) (s\<lparr>pckSeqNum := pckSeqNum s + 1\<rparr>))"

definition sendDarp :: "message \<Rightarrow> aspu \<Rightarrow> aspu" where
  "sendDarp m s =
     emit (Control DARP (getEntry (etxMetric s) (address s) (m_srcAdd m) (rtable s))
            \<lparr>m_srcId = ident s, m_srcAdd = address s, m_forId = ident s, m_forAdd = address s, m_dstId = m_srcId m, m_dstAdd = m_srcAdd m,
             m_reqId = m_reqId m, m_reqAdd = findAdd (m_reqId m) (dht s), m_seqNum = pckSeqNum s\<rparr>) (s\<lparr>pckSeqNum := pckSeqNum s + 1\<rparr>)"

text \<open>The search of a node that passes a message on also avoids the neighbour the message came from.\<close>

definition relay :: "kind \<Rightarrow> string \<Rightarrow> message \<Rightarrow> aspu \<Rightarrow> (string \<times> message) + aspu" where
  "relay k loop m s =
     (let change = no_route s (m_dstAdd m);
          dst = (if change then address_search (\<lambda>d. da_next s d = m_forId m \<or> no_route s d) (m_dstAdd m) else m_dstAdd m)
      in if change \<and> no_route s dst then Inl (''DROP_RTR_ADPNRT'', m\<lparr>m_dstAdd := dst\<rparr>)
         else if da_next s dst = m_forId m \<and> \<not> change then Inl (loop, m)
         else Inr (emit (Control k (da_next s dst) (m\<lparr>m_forId := ident s, m_forAdd := address s, m_dstId := findId dst (dht s), m_dstAdd := dst\<rparr>)) s))"

definition recvDarq :: "message \<Rightarrow> aspu \<Rightarrow> aspu option" where
  "recvDarq m s = do {
     s \<leftarrow> adp_addEntry (m_srcId m) (m_srcAdd m) s;
     s \<leftarrow> adp_addEntry (m_forId m) (m_forAdd m) s;
     Some (if findAdd (m_reqId m) (dht s) \<noteq> IP_BROADCAST then sendDarp m s
           else if m_dstAdd m = address s then emit (Dropped_Control ''DROP_RTR_ADPMISS'' DARQ m) s
           else case relay DARQ ''DROP_RTR_ADPNRT'' m s of Inl (r, m) \<Rightarrow> emit (Dropped_Control r DARQ m) s | Inr s \<Rightarrow> s)
   }"

definition recvDarp :: "message \<Rightarrow> aspu \<Rightarrow> aspu option" where
  "recvDarp m s = do {
     s \<leftarrow> adp_addEntry (m_srcId m) (m_srcAdd m) s;
     s \<leftarrow> adp_addEntry (m_forId m) (m_forAdd m) s;
     s \<leftarrow> adp_addEntry (m_dstId m) (m_dstAdd m) s;
     s \<leftarrow> adp_addEntry (m_reqId m) (m_reqAdd m) s;
     if m_dstAdd m = address s then adp_addEntry (m_reqId m) (m_reqAdd m) s
     else let nextHop = getEntry (etxMetric s) (address s) (m_dstAdd m) (rtable s) in
     Some (if nextHop = IP_BROADCAST \<or> nextHop = m_forId m then s
           else emit (Control DARP nextHop (m\<lparr>m_forId := ident s, m_forAdd := address s\<rparr>)) s)
   }"

subsection \<open>Updates of the own address\<close>

definition sendDaup :: "aspu \<Rightarrow> aspu option" where
  "sendDaup s =
     (let dst = hash (ident s) in
      if dst = address s then adp_addEntry (ident s) (address s) s
      else let dst = address_search (no_route s) dst in
      if no_route s dst then adp_addEntry (ident s) (address s) s
      else Some (emit (Control DAUP (da_next s dst)
                  \<lparr>m_srcId = ident s, m_srcAdd = address s, m_forId = ident s, m_forAdd = address s, m_dstId = IP_BROADCAST, m_dstAdd = dst,
                   m_reqId = 0, m_reqAdd = 0, m_seqNum = pckSeqNum s\<rparr>) (s\<lparr>pckSeqNum := pckSeqNum s + 1\<rparr>)))"

definition recvDaup :: "message \<Rightarrow> aspu \<Rightarrow> aspu option" where
  "recvDaup m s = do {
     s \<leftarrow> adp_addEntry (m_srcId m) (m_srcAdd m) s;
     s \<leftarrow> adp_addEntry (m_forId m) (m_forAdd m) s;
     if m_dstAdd m = address s then adp_addEntry (m_srcId m) (m_srcAdd m) s
     else case relay DAUP ''DROP_RTR_ADPLOOP'' m s of
            Inl (r, m) \<Rightarrow> map_option (emit (Dropped_Control r DAUP m)) (adp_addEntry (m_srcId m) (m_srcAdd m) s)
          | Inr s \<Rightarrow> Some s
   }"

definition updateAdd :: "aspu \<Rightarrow> aspu option" where
  "updateAdd s = do {
     s \<leftarrow> adp_addEntry (ident s) (address s) s;
     Some (if dht s \<noteq> [] then emit (Control DABR IP_BROADCAST
              \<lparr>m_srcId = ident s, m_srcAdd = address s, m_forId = 0, m_forAdd = 0, m_dstId = 0, m_dstAdd = IP_BROADCAST, m_reqId = 0,
               m_reqAdd = 0, m_seqNum = 0\<rparr>) s else s)
   }"

subsection \<open>Packets of the applications\<close>

text \<open>The packet is marked as expired and its count goes up before the request; \<open>None\<close> is the exception of \<open>at\<close>.\<close>

fun checkDarq_from :: "nat \<Rightarrow> nat \<Rightarrow> aspu \<Rightarrow> aspu option" where
  "checkDarq_from 0 i s = Some s"
| "checkDarq_from (Suc k) i s = do {
     (expired, ps) \<leftarrow> isExpired (now s) (int i) (waiting s);
     let s = s\<lparr>waiting := ps\<rparr>;
     checkDarq_from k (i + 1) (if expired then sendDarq (pk_daddr (ps ! i)) s else s)
   }"

definition checkDarq :: "aspu \<Rightarrow> aspu option" where
  "checkDarq s = checkDarq_from (length (waiting s)) 0 s"

definition format_packet :: "data_packet \<Rightarrow> aspu \<Rightarrow> aspu option" where
  "format_packet p s =
     (let dst = findAdd (pk_daddr p) (dht s);
          p = p\<lparr>dstAdd := dst, dstId := pk_daddr p, srcAdd := address s, srcId := ident s\<rparr>
      in if dst = IP_BROADCAST then Some (sendDarq (pk_daddr p) (enque p s)) else forward p s)"

definition recv_data :: "data_packet \<Rightarrow> aspu \<Rightarrow> aspu option" where
  "recv_data p s =
     (if pk_saddr p = ident s \<and> pk_forwards p \<noteq> 0 then Some (emit (Dropped ''LOOP'' p) s)
      else if pk_saddr p \<noteq> ident s \<and> pk_ttl p - 1 = 0 then Some (emit (Dropped ''TTL'' (p\<lparr>pk_ttl := pk_ttl p - 1\<rparr>)) s)
      else let p = (if pk_saddr p = ident s then p\<lparr>pk_size := pk_size p + 20\<rparr> else p\<lparr>pk_ttl := pk_ttl p - 1\<rparr>)
      in if pk_forwards p = 0 then format_packet p s else forward p s)"

definition aspu_macFailed :: "data_packet \<Rightarrow> aspu \<Rightarrow> aspu option" where
  "aspu_macFailed p s =
     (if macFailed_flag s = 1
      then let s = s\<lparr>rtable := table_macFailed (pk_next_hop p) (rtable s)\<rparr>;
               retry = (txCount p < MAC_FAILED_ALLOWED_LOSS);
               p = p\<lparr>txCount := txCount p + 1\<rparr>
           in if retry then forward p s else Some (emit (Dropped ''DROP_RTR_TX_COUNT'' p) s)
      else Some (emit (Dropped ''CBK'' p) s))"

subsection \<open>The search finds the nearest address\<close>

definition clear_low :: "nat \<Rightarrow> nsaddr \<Rightarrow> nsaddr" where
  "clear_low k a = push_bit k (drop_bit k (take_bit ADDR_SIZE a))"

lemma bit_clear_low: "bit (clear_low k a) n \<longleftrightarrow> k \<le> n \<and> n < ADDR_SIZE \<and> bit a n"
  by (auto simp: clear_low_def bit_push_bit_iff bit_drop_bit_eq bit_take_bit_iff)

lemma clear_low_Suc: "clear_low (Suc k) a = unset_bit k (clear_low k a)"
  by (rule bit_eqI) (auto simp: bit_clear_low bit_unset_bit_iff)

lemma search_loop_result:
  "\<exists>j \<le> k. search_loop again k i (clear_low i a) (clear_low i a) = clear_low (i + j) a \<and> (\<forall>n < j. again (clear_low (i + n) a)) \<and>
     (j < k \<longrightarrow> \<not> again (clear_low (i + j) a))"
proof (induction k arbitrary: i)
  case (Suc k)
  show ?case
  proof (cases "again (clear_low i a)")
    case True
    from Suc.IH [of "Suc i"] obtain j where j: "j \<le> k"
      "search_loop again k (Suc i) (clear_low (Suc i) a) (clear_low (Suc i) a) = clear_low (Suc i + j) a"
      "\<forall>n < j. again (clear_low (Suc i + n) a)" "j < k \<longrightarrow> \<not> again (clear_low (Suc i + j) a)" by blast
    have "again (clear_low (i + n) a)" if "n < Suc j" for n using that j(3) True by (cases n) auto
    then show ?thesis using j True by (intro exI [of _ "Suc j"]) (simp add: clear_low_Suc [symmetric] Let_def)
  qed (auto intro!: exI [of _ 0])
qed auto

lemma clear_low_0: "clear_low 0 (hash x) = hash x"
  using hash_bounds [of x] by (simp add: clear_low_def take_bit_int_eq_self)

lemma address_search_hash:
  "\<exists>k \<le> ADDR_SIZE. address_search again (hash x) = clear_low k (hash x) \<and> (\<forall>n < k. again (clear_low n (hash x))) \<and>
     (k < ADDR_SIZE \<longrightarrow> \<not> again (clear_low k (hash x)))"
proof -
  have "address_search again (hash x) = search_loop again ADDR_SIZE 0 (clear_low 0 (hash x)) (clear_low 0 (hash x))"
    using hash_bounds [of x] by (simp add: address_search_def clear_low_0 take_bit_int_eq_self)
  then show ?thesis using search_loop_result [of ADDR_SIZE again 0 "hash x"] by simp
qed

text \<open>C14. A request for the address of an identifier goes to the address nearest to the hash: the hash itself or, if there is no way to it, the hash
  with the fewest low bits cleared that there is a way to. Nothing is sent exactly when the hash is the node's own address or there is no way to any of them.\<close>

theorem request_reaches_nearest:
  "if hash req = address s \<or> (\<forall>k \<in> {0..ADDR_SIZE}. no_route s (clear_low k (hash req))) then sendDarq req s = s
   else \<exists>k \<in> {0..ADDR_SIZE}. \<not> no_route s (clear_low k (hash req)) \<and> (\<forall>n \<in> {0..<k}. no_route s (clear_low n (hash req))) \<and>
          sendDarq req s = emit (Control DARQ (da_next s (clear_low k (hash req))) (darq_message req (clear_low k (hash req)) s))
            (s\<lparr>pckSeqNum := pckSeqNum s + 1\<rparr>)"
proof -
  obtain k where k: "k \<le> ADDR_SIZE" "address_search (no_route s) (hash req) = clear_low k (hash req)" "\<forall>n < k. no_route s (clear_low n (hash req))"
    "k < ADDR_SIZE \<longrightarrow> \<not> no_route s (clear_low k (hash req))"
    using address_search_hash [of "no_route s" req] by blast
  show ?thesis
  proof (cases "no_route s (clear_low k (hash req))")
    case True
    then have "k = ADDR_SIZE" using k(1,4) by (meson le_neq_implies_less)
    then have "no_route s (clear_low n (hash req))" if "n \<le> ADDR_SIZE" for n using k(3) True that by (cases "n = k") auto
    then show ?thesis using k(2) True by (simp add: sendDarq_def Let_def)
  next
    case False
    show ?thesis
    proof (cases "hash req = address s")
      case own: False
      have "\<not> (\<forall>k \<in> {0..ADDR_SIZE}. no_route s (clear_low k (hash req)))" using False k(1) by auto
      moreover have "sendDarq req s = emit (Control DARQ (da_next s (clear_low k (hash req))) (darq_message req (clear_low k (hash req)) s))
            (s\<lparr>pckSeqNum := pckSeqNum s + 1\<rparr>)"
        using own k(2) False by (simp add: sendDarq_def Let_def)
      ultimately show ?thesis using own False k(1,3) by (auto intro!: bexI [of _ k])
    qed (simp add: sendDarq_def)
  qed
qed

subsection \<open>No packet is lost\<close>

lemma forward_sends: "\<exists>r. forward p s = Some r \<and> passes_on s r \<and> packets_of r = add_mset (pk_uid p) (packets_of s)"
  unfolding forward_def by (intro forward_with_step adp_addEntry_sends)

lemma packets_removeHead: "packets_of (removeHead s) = packets_of s"
  by (cases "waiting s") (simp_all add: removeHead_def packets_emit, simp add: packets_of_def)

lemma enque_packets: "packets_of (enque p s) = add_mset (pk_uid p) (packets_of s)"
  using packets_removeHead [of s] by (simp add: enque_def Let_def packets_of_def)

lemma enque_length: "length (waiting s) \<le> ASPU_QUEUE_LEN \<Longrightarrow> length (waiting (enque p s)) \<le> ASPU_QUEUE_LEN"
  by (cases "waiting s") (auto simp: enque_def Let_def removeHead_def emit_def)

lemma sendDarq_keeps: "packets_of (sendDarq i s) = packets_of s" "waiting (sendDarq i s) = waiting s"
  by (simp_all add: sendDarq_def Let_def packets_emit) (simp_all add: packets_of_def emit_def)

text \<open>C15. A packet that comes from an application or from another node is not lost and not duplicated: it is transmitted, delivered, dropped or put
  into the queue, as are the packets it sets free, and the queue never has more than 64. No reception ends in an exception or does not end.\<close>

theorem no_packet_lost:
  assumes "length (waiting s) \<le> ASPU_QUEUE_LEN"
  shows "\<exists>r. recv_data p s = Some r \<and> packets_of r = add_mset (pk_uid p) (packets_of s) \<and> length (waiting r) \<le> ASPU_QUEUE_LEN"
proof -
  have fwd: "\<exists>r. forward q s = Some r \<and> packets_of r = add_mset (pk_uid q) (packets_of s) \<and> length (waiting r) \<le> ASPU_QUEUE_LEN" for q
    using forward_sends [of q s] assms by (auto simp: passes_on_def intro: order_trans)
  have drop: "\<exists>r. Some (emit (Dropped c q) s) = Some r \<and> packets_of r = add_mset (pk_uid q) (packets_of s) \<and> length (waiting r) \<le> ASPU_QUEUE_LEN" for c q
    using packets_emit assms by (simp add: emit_def)
  have fmt: "\<exists>r. format_packet q s = Some r \<and> packets_of r = add_mset (pk_uid q) (packets_of s) \<and> length (waiting r) \<le> ASPU_QUEUE_LEN" for q
    using fwd [of "q\<lparr>dstAdd := findAdd (pk_daddr q) (dht s), dstId := pk_daddr q, srcAdd := address s, srcId := ident s\<rparr>"]
      enque_packets enque_length [OF assms] sendDarq_keeps by (simp add: format_packet_def Let_def)
  define q where "q = (if pk_saddr p = ident s then p\<lparr>pk_size := pk_size p + 20\<rparr> else p\<lparr>pk_ttl := pk_ttl p - 1\<rparr>)"
  have uid: "pk_uid q = pk_uid p" "pk_uid (p\<lparr>pk_ttl := pk_ttl p - 1\<rparr>) = pk_uid p" by (simp_all add: q_def)
  have "recv_data p s \<in> {Some (emit (Dropped ''LOOP'' p) s), Some (emit (Dropped ''TTL'' (p\<lparr>pk_ttl := pk_ttl p - 1\<rparr>)) s),
      format_packet q s, forward q s}"
    by (simp add: recv_data_def q_def Let_def)
  then show ?thesis
    using drop [of "''LOOP''" p] drop [of "''TTL''" "p\<lparr>pk_ttl := pk_ttl p - 1\<rparr>"] fmt [of q] fwd [of q]
    unfolding uid by (elim insertE emptyE) simp_all
qed

text \<open>
  The count of a packet goes with it, so that the failures are also counted that it has at the nodes that take it next. \<open>resent\<close> is the
  packet as it is transmitted again, and in \<open>resent_in_turn\<close> each failure is one of the packet that the failure before has sent again.
\<close>

fun effect_packet :: "effect \<Rightarrow> data_packet option" where
  "effect_packet (Transmit p) = Some p"
| "effect_packet (Deliver p) = Some p"
| "effect_packet (Dropped r p) = Some p"
| "effect_packet (Control k h m) = None"
| "effect_packet (Dropped_Control r k m) = None"

definition resent :: "data_packet \<Rightarrow> aspu \<Rightarrow> data_packet option" where
  "resent p s =
     (case aspu_macFailed p s of
        None \<Rightarrow> None
      | Some r \<Rightarrow> (case rev (outs r) of Transmit q # _ \<Rightarrow> Some q | _ \<Rightarrow> None))"

fun resent_in_turn :: "(data_packet \<times> aspu) list \<Rightarrow> bool" where
  "resent_in_turn [] \<longleftrightarrow> True"
| "resent_in_turn ((p, s) # fs) \<longleftrightarrow>
     (case resent p s of
        None \<Rightarrow> False
      | Some q \<Rightarrow> (case fs of [] \<Rightarrow> True | (p', s') # _ \<Rightarrow> pk_uid p' = pk_uid q \<and> txCount p' = txCount q) \<and> resent_in_turn fs)"

text \<open>The last thing that forwarding does is to pass on the packet itself.\<close>

lemma forward_last:
  assumes "forward p s = Some r"
  shows "\<exists>xs x q. outs r = outs s @ xs @ [x] \<and> effect_packet x = Some q \<and> pk_uid q = pk_uid p \<and> txCount q = txCount p"
proof -
  have emits: "\<exists>xs y q. outs (emit x u) = outs s @ xs @ [y] \<and> effect_packet y = Some q \<and> pk_uid q = pk_uid p \<and> txCount q = txCount p"
    if "passes_on s u" "effect_packet x = Some q" "pk_uid q = pk_uid p" "txCount q = txCount p" for x u q
    using that by (auto simp: passes_on_def emit_def)
  show ?thesis
  proof (cases "pk_up p \<and> (pk_daddr p = IP_BROADCAST \<or> pk_daddr p = ident s) \<or> pk_daddr p = IP_BROADCAST")
    case True
    then have "\<exists>x q. r = emit x s \<and> effect_packet x = Some q \<and> pk_uid q = pk_uid p \<and> txCount q = txCount p"
      using assms by (auto simp: forward_def forward_with_def Let_def split: if_splits)
    then show ?thesis using emits [OF passes_refl] by blast
  next
    case False
    then obtain r1 r2 r3 where add: "adp_addEntry (dstId p) (dstAdd p) s = Some r1" "adp_addEntry (srcId p) (srcAdd p) r1 = Some r2"
      "adp_addEntry (forId p) (forAdd p) r2 = Some r3"
      and r: "r = (if dstAdd p = address r3 then emit (Dropped ''DROP_RTR_DADD'' (p\<lparr>pk_up := False\<rparr>)) r3
        else let nextHop = getEntry (etxMetric r3) (address r3) (dstAdd p) (rtable r3) in
          if nextHop = IP_BROADCAST then emit (Dropped ''DROP_RTR_ADPNRT'' (p\<lparr>pk_up := False\<rparr>)) r3
          else emit (Transmit (p\<lparr>pk_up := False, pk_next_hop := nextHop, forAdd := address r3, forId := ident r3\<rparr>)) r3)"
      using assms by (auto simp: forward_def forward_with_def Let_def bind_eq_Some_conv)
    have r: "\<exists>x q. r = emit x r3 \<and> effect_packet x = Some q \<and> pk_uid q = pk_uid p \<and> txCount q = txCount p"
      by (cases "dstAdd p = address r3"; cases "getEntry (etxMetric r3) (address r3) (dstAdd p) (rtable r3) = IP_BROADCAST")
        (auto simp: r Let_def)
    have step: "passes_on u v" if "adp_addEntry i a u = Some v" for i a u v using adp_addEntry_sends [of i a u] that by auto
    have "passes_on s r3" by (rule passes_trans [OF step [OF add(1)] passes_trans [OF step [OF add(2)] step [OF add(3)]]])
    then show ?thesis using r emits by blast
  qed
qed

lemma macFailed_counts:
  assumes "aspu_macFailed p s = Some r" "macFailed_flag s = 1" "txCount p < 5"
  shows "\<exists>xs x q. outs r = outs s @ xs @ [x] \<and> effect_packet x = Some q \<and> pk_uid q = pk_uid p \<and> txCount q = txCount p + 1"
  using assms forward_last [of "p\<lparr>txCount := txCount p + 1\<rparr>" "s\<lparr>rtable := table_macFailed (pk_next_hop p) (rtable s)\<rparr>" r]
  by (simp add: aspu_macFailed_def Let_def)

lemma resent_counts:
  assumes "resent p s = Some q"
  shows "txCount p < 5 \<and> txCount q = txCount p + 1 \<and> pk_uid q = pk_uid p"
proof -
  obtain r ys where r: "aspu_macFailed p s = Some r" "rev (outs r) = Transmit q # ys"
    using assms by (auto simp: resent_def split: option.splits list.splits effect.splits)
  then have outs: "outs r = rev ys @ [Transmit q]" by (metis rev.simps(2) rev_rev_ident)
  have "macFailed_flag s = 1" "txCount p < 5"
    using r outs by (auto simp: aspu_macFailed_def Let_def emit_def split: if_splits)
  then show ?thesis using macFailed_counts [OF r(1)] outs by auto
qed

lemma resent_at_most:
  "resent_in_turn fs \<Longrightarrow> fs \<noteq> [] \<Longrightarrow> length fs + unat (txCount (fst (hd fs))) \<le> 5"
proof (induction fs rule: resent_in_turn.induct)
  case (2 p s fs)
  then obtain q where q: "resent p s = Some q" "resent_in_turn fs" by (auto split: option.splits)
  have lt: "unat (txCount p) < 5" using resent_counts [OF q(1)] by (simp add: word_less_nat_alt)
  moreover have "unat (txCount q) = unat (txCount p) + 1" using resent_counts [OF q(1)] lt by (simp add: unat_word_ariths)
  moreover have "fs \<noteq> [] \<Longrightarrow> txCount (fst (hd fs)) = txCount q" using 2 q(1) by (cases fs) auto
  ultimately show ?case using 2 q by (cases "fs = []") auto
qed simp

text \<open>C16. In a node that reacts to failures, has a routing table in order and uses one of the two metrics: when the link layer reports that a packet
  did not reach its next hop, the packet is forwarded again with its count one higher, unless it has failed five times before, when it is dropped; in a sequence of failures of a packet, each time sent again and failing once more, it is sent
  again at most five times. Neither it nor the packets it sets free go through that neighbour, and none of them is lost.\<close>

theorem mac_failure_reroutes:
  assumes "macFailed_flag s = 1" "table_ok (address s) (rtable s)" "known_ids (rtable s)" "etxMetric s = 0 \<or> etxMetric s = 1"
    "pk_next_hop p \<noteq> IP_BROADCAST"
  shows "\<exists>r xs. aspu_macFailed p s = Some r \<and> packets_of r = add_mset (pk_uid p) (packets_of s) \<and> outs r = outs s @ xs \<and>
           (\<forall>q. Transmit q \<in> set xs \<longrightarrow> pk_next_hop q \<noteq> pk_next_hop p) \<and>
           (5 \<le> txCount p \<longrightarrow> xs = [Dropped ''DROP_RTR_TX_COUNT'' (p\<lparr>txCount := txCount p + 1\<rparr>)]) \<and>
           (txCount p < 5 \<longrightarrow> (\<exists>ys x q. xs = ys @ [x] \<and> effect_packet x = Some q \<and> pk_uid q = pk_uid p \<and> txCount q = txCount p + 1)) \<and>
           (resent_in_turn fs \<longrightarrow> length fs \<le> 5)"
proof -
  define u where "u = s\<lparr>rtable := table_macFailed (pk_next_hop p) (rtable s)\<rparr>"
  have u: "packets_of u = packets_of s" "outs u = outs s" by (simp_all add: u_def packets_of_def)
  have turns: "resent_in_turn fs \<longrightarrow> length fs \<le> 5" using resent_at_most [of fs] by (cases "fs = []") auto
  show ?thesis
  proof (cases "txCount p < 5")
    case True
    obtain r where r: "forward (p\<lparr>txCount := txCount p + 1\<rparr>) u = Some r" "passes_on u r" "packets_of r = add_mset (pk_uid p) (packets_of u)"
      using forward_sends [of "p\<lparr>txCount := txCount p + 1\<rparr>" u] by auto
    then obtain xs where xs: "outs r = outs u @ xs" "\<forall>x \<in> set xs. sound u x" by (auto simp: passes_on_def)
    have "pk_next_hop q \<noteq> pk_next_hop p" if "Transmit q \<in> set xs" for q
      using xs(2) that failed_hop_avoided [OF assms(2,3,4,5), of "dstAdd q"] by (fastforce simp: u_def)
    moreover have "\<not> 5 \<le> txCount p" using True by simp
    moreover have mac: "aspu_macFailed p s = Some r" using r(1) assms(1) True by (simp add: aspu_macFailed_def Let_def u_def [symmetric])
    moreover have "outs r = outs s @ xs" using xs(1) u(2) by simp
    moreover from this have "\<exists>ys x q. xs = ys @ [x] \<and> effect_packet x = Some q \<and> pk_uid q = pk_uid p \<and> txCount q = txCount p + 1"
      using macFailed_counts [OF mac assms(1) True] by auto
    ultimately show ?thesis using r(3) u(1) turns by (intro exI [of _ r] exI [of _ xs]) simp
  next
    case False
    then show ?thesis using assms(1) u turns packets_emit [of _ u] by (simp add: aspu_macFailed_def Let_def u_def [symmetric]) (simp add: emit_def)
  qed
qed

text \<open>A node at address 1 that has the way to a neighbour with address 0, the nearest to the hash of 7 when its lowest 15 bits are cleared.\<close>

definition example_routes :: rtable where
  "example_routes = addEntry 0 0 7 7 1 1 (direct_log 0) 0 empty_table"

lemma example_hash:
  "hash 7 \<noteq> address (example_node example_routes)" "\<not> no_route (example_node example_routes) (clear_low 15 (hash 7))"
  by code_simp+

theorem request_reaches_nearest_witness:
  "\<exists>k m. outs (sendDarq 7 (example_node example_routes)) = [Control DARQ (da_next (example_node example_routes) (clear_low k (hash 7))) m] \<and>
     m_reqId m = 7 \<and> \<not> no_route (example_node example_routes) (clear_low k (hash 7))"
proof -
  have "\<not> (\<forall>k \<in> {0..ADDR_SIZE}. no_route (example_node example_routes) (clear_low k (hash 7)))"
    using example_hash(2) by (auto intro!: bexI [of _ 15])
  then obtain k where k: "\<not> no_route (example_node example_routes) (clear_low k (hash 7))"
    "sendDarq 7 (example_node example_routes) =
       emit (Control DARQ (da_next (example_node example_routes) (clear_low k (hash 7)))
               (darq_message 7 (clear_low k (hash 7)) (example_node example_routes)))
         (example_node example_routes\<lparr>pckSeqNum := pckSeqNum (example_node example_routes) + 1\<rparr>)"
    using request_reaches_nearest [of 7 "example_node example_routes"] example_hash(1) by (auto split: if_splits)
  have "outs (example_node example_routes) = []" by (simp add: example_node_def)
  then show ?thesis using k(1) unfolding k(2) by (intro exI [of _ k]) (simp add: emit_def darq_message_def)
qed

theorem no_packet_lost_witness:
  "\<exists>r. recv_data (example_data_packet\<lparr>pk_uid := 2\<rparr>) (example_node example_table) = Some r \<and> packets_of r = {#1, 2#} \<and> length (waiting r) \<le> 64"
  using no_packet_lost [of "example_node example_table" "example_data_packet\<lparr>pk_uid := 2\<rparr>"]
  by (auto simp: example_node_def packets_of_def example_data_packet_def)

theorem mac_failure_reroutes_witness:
  "\<exists>r xs. aspu_macFailed example_data_packet (example_node example_table) = Some r \<and> outs r = xs \<and>
     (\<forall>q. Transmit q \<in> set xs \<longrightarrow> pk_next_hop q \<noteq> 7) \<and> (\<exists>ys x q. xs = ys @ [x] \<and> effect_packet x = Some q \<and> txCount q = 1)"
  using mac_failure_reroutes [of "example_node example_table" example_data_packet "[]"] example_table_ok example_table_nth(2)
  by (auto simp: example_node_def example_data_packet_def)

end
