(* ===== verification/Aspu_Ndp.thy ===== *)
theory Aspu_Ndp
  imports Aspu_Protocol
begin

section \<open>Address allocation in ASPU (\<open>NDP\<close> in \<open>src/aspu.cc\<close>)\<close>

text \<open>
  In every round a node checks its address against the hello messages of its neighbours, takes another one if it is not valid, clears its routing
  table and fills it again. The list \<open>nbs\<close> has the neighbours in the order of the iteration through their set, whose key changes while they are in it.
\<close>

subsection \<open>Operations\<close>

definition good_link :: "int \<Rightarrow> Neighbor \<Rightarrow> bool" where
  "good_link etx nb \<longleftrightarrow> etx = 1 \<and> linkQuality nb \<ge> LQE_THRESHOLD \<or> etx = 0"

definition conflict :: "aspu \<Rightarrow> Neighbor \<Rightarrow> bool" where
  "conflict s nb \<longleftrightarrow>
     (let l = DiffBit (address s) (nb_address nb) in
      if l = - 1 then nb_id nb < ident s
      else entryPresent (nb_table nb) (nat l) \<and> neighbor_networkId (nb_table nb) (nat l) < table_levelId (ident s) (rtable s) (l - 1))"

fun validateAddress :: "Neighbor list \<Rightarrow> aspu \<Rightarrow> bool" where
  "validateAddress [] s = True"
| "validateAddress (nb # nbs) s = (if good_link (etxMetric s) nb \<and> conflict s nb then False else validateAddress nbs s)"

definition update_table :: "u8 \<Rightarrow> (nat \<Rightarrow> u8) \<Rightarrow> Neighbor \<Rightarrow> aspu \<Rightarrow> aspu option" where
  "update_table if_direct if_via nb s =
     map_option (\<lambda>t. s\<lparr>rtable := t\<rparr>) (setUpdate if_direct if_via (etxMetric s) (address s) nb (rtable s))"

definition clear_table :: "aspu \<Rightarrow> aspu option" where
  "clear_table s = map_option (\<lambda>t. s\<lparr>rtable := t\<rparr>) (table_clear (rtable s))"

fun updateRoutingTable :: "u8 \<Rightarrow> (nat \<Rightarrow> u8) \<Rightarrow> Neighbor list \<Rightarrow> aspu \<Rightarrow> aspu option" where
  "updateRoutingTable if_direct if_via [] s = Some s"
| "updateRoutingTable if_direct if_via (nb # nbs) s = do {
     s \<leftarrow> if good_link (etxMetric s) nb then update_table if_direct if_via nb s else Some s;
     updateRoutingTable if_direct if_via nbs s
   }"

text \<open>The levels of one neighbour, from its insertion point down; the result tells whether an address was found.\<close>

fun try_levels :: "u8 \<Rightarrow> (nat \<Rightarrow> u8) \<Rightarrow> Neighbor list \<Rightarrow> Neighbor \<Rightarrow> nat \<Rightarrow> aspu \<Rightarrow> (bool \<times> aspu) option" where
  "try_levels if_direct if_via nbs nb 0 s = Some (False, s)"
| "try_levels if_direct if_via nbs nb (Suc i) s = do {
     s \<leftarrow> update_table if_direct if_via nb (s\<lparr>address := flip_bit i (take_bit ADDR_SIZE (nb_address nb))\<rparr>);
     if validateAddress nbs s then map_option (Pair True) (updateAdd s)
     else do {
       s \<leftarrow> clear_table (s\<lparr>address := oldAddress s\<rparr>);
       try_levels if_direct if_via nbs nb i s
     }
   }"

fun try_neighbors :: "u8 \<Rightarrow> (nat \<Rightarrow> u8) \<Rightarrow> Neighbor list \<Rightarrow> Neighbor list \<Rightarrow> aspu \<Rightarrow> aspu option" where
  "try_neighbors if_direct if_via nbs [] s = Some s"
| "try_neighbors if_direct if_via nbs (nb # rest) s =
     (if etxMetric s = 1 \<and> linkQuality nb > LQE_THRESHOLD \<or> etxMetric s = 0
      then do {
        (found, s) \<leftarrow> try_levels if_direct if_via nbs nb (nat (insertionPoint (nb_table nb) + 1)) s;
        if found then Some s else try_neighbors if_direct if_via nbs rest s
      }
      else try_neighbors if_direct if_via nbs rest s)"

definition selectAddress :: "u8 \<Rightarrow> (nat \<Rightarrow> u8) \<Rightarrow> Neighbor list \<Rightarrow> aspu \<Rightarrow> aspu option" where
  "selectAddress if_direct if_via nbs s = try_neighbors if_direct if_via nbs nbs s"

definition aspu_validateAddress :: "u8 \<Rightarrow> (nat \<Rightarrow> u8) \<Rightarrow> Neighbor list \<Rightarrow> aspu \<Rightarrow> aspu option" where
  "aspu_validateAddress if_direct if_via nbs s = do {
     s \<leftarrow> if validateAddress nbs s then Some s
          else do {
            s \<leftarrow> clear_table s;
            selectAddress if_direct if_via nbs (s\<lparr>oldAddress := address s\<rparr>)
          };
     clear_table s
   }"

text \<open>A round of \<open>ASPUTimer::handle\<close>, after the neighbours that expired are gone.\<close>

definition maintenance :: "u8 \<Rightarrow> (nat \<Rightarrow> u8) \<Rightarrow> Neighbor list \<Rightarrow> aspu \<Rightarrow> aspu option" where
  "maintenance if_direct if_via nbs s = aspu_validateAddress if_direct if_via nbs s \<bind> updateRoutingTable if_direct if_via nbs"

subsection \<open>Facts\<close>

definition no_entries :: "rtable \<Rightarrow> bool" where
  "no_entries t \<longleftrightarrow> (\<forall>es \<in> set t. es = [])"

lemma clear_entries_iff: "clear_entries es = (if es = [] then Some [] else None)"
  by (cases es) simp_all

lemma table_clear_iff: "table_clear t = (if no_entries t then Some t else None)"
  unfolding table_clear_def by (induction t) (auto simp: no_entries_def clear_entries_iff)

lemma clear_table_iff: "clear_table s = (if no_entries (rtable s) then Some s else None)"
  by (simp add: clear_table_def table_clear_iff)

lemma validateAddress_iff: "validateAddress nbs s \<longleftrightarrow> (\<forall>nb \<in> set nbs. good_link (etxMetric s) nb \<longrightarrow> \<not> conflict s nb)"
  by (induction nbs) auto

lemma validateAddress_cong:
  "address r = address s \<Longrightarrow> ident r = ident s \<Longrightarrow> etxMetric r = etxMetric s \<Longrightarrow> rtable r = rtable s \<Longrightarrow> validateAddress nbs r = validateAddress nbs s"
  by (simp add: validateAddress_iff conflict_def)

lemma no_entries_grow: "no_entries t' \<Longrightarrow> length t' = length t \<Longrightarrow> \<forall>j < length t. grows nb (t ! j) (t' ! j) \<Longrightarrow> t' = t"
  by (intro nth_equalityI) (auto simp: no_entries_def grows_def all_set_conv_all_nth)

lemma setUpdate_grows:
  assumes "setUpdate if_direct if_via etx a nb t = Some t'" "length t = ADDR_SIZE"
  shows "length t' = ADDR_SIZE \<and> (\<forall>j < ADDR_SIZE. set (t ! j) \<subseteq> set (t' ! j)) \<and> (no_entries t' \<longrightarrow> t' = t)"
proof (cases "DiffBit a (nb_address nb) = - 1")
  case True
  then show ?thesis using assms by (simp add: setUpdate_def)
next
  case False
  then obtain l where l: "DiffBit a (nb_address nb) = int l" "l < 16"
    using DiffBit_range [of a "nb_address nb"] by (cases "DiffBit a (nb_address nb)") auto
  define u where "u = setUpdate_direct if_direct etx nb l t"
  have u: "length u = ADDR_SIZE" "\<And>j. j < ADDR_SIZE \<Longrightarrow> grows nb (t ! j) (u ! j)"
    using setUpdate_direct_levels [of l t _ if_direct etx nb] l(2) assms(2) by (auto simp: u_def)
  have some: "setUpdate_levels if_via etx nb l ADDR_SIZE u = Some t'" using assms(1) setUpdate_nat [OF l(1)] by (simp add: u_def)
  have t': "length t' = ADDR_SIZE" "\<And>j. j < ADDR_SIZE \<Longrightarrow> grows nb (u ! j) (t' ! j)"
    using setUpdate_levels_levels [OF some] setUpdate_levels_levels [OF some, of 0] u(1) by auto
  have "t' = t" if "no_entries t'"
  proof -
    have "t' = u" using no_entries_grow [OF that, of u nb] t' u(1) by simp
    then show ?thesis using no_entries_grow [of u t nb] that u assms(2) by simp
  qed
  then show ?thesis using t' u(2) by (fastforce simp: grows_def)
qed

text \<open>Of two neighbours with the same address at most one keeps it: whichever way their tables are, the one with the larger identifier finds its
  address not valid.\<close>

lemma duplicate_addresses_resolved:
  assumes "DiffBit (address s) (nb_address b) = - 1" "nb_id b < ident s" "b \<in> set nbs" "good_link (etxMetric s) b"
  shows "\<not> validateAddress nbs s"
  using assms by (auto simp: validateAddress_iff conflict_def)

subsection \<open>The choice of an address\<close>

definition sibling_of :: "aspu \<Rightarrow> Neighbor \<Rightarrow> bool" where
  "sibling_of r nb \<longleftrightarrow> 0 \<le> DiffBit (address r) (nb_address nb) \<and> DiffBit (address r) (nb_address nb) \<le> insertionPoint (nb_table nb)"

lemma DiffBit_flip:
  assumes "i < 16"
  shows "DiffBit (flip_bit i (take_bit ADDR_SIZE a)) a = int i"
proof -
  have "same_above (int i) (flip_bit i (take_bit ADDR_SIZE a)) a"
    by (auto simp: same_above_def bit_flip_bit_iff bit_take_bit_iff)
  then have "DiffBit (flip_bit i (take_bit ADDR_SIZE a)) a \<le> int i" by (rule DiffBit_least) simp
  moreover have "bit (flip_bit i (take_bit ADDR_SIZE a)) i \<noteq> bit a i" using assms by (simp add: bit_flip_bit_iff bit_take_bit_iff)
  then have "\<not> DiffBit (flip_bit i (take_bit ADDR_SIZE a)) a < int i"
    using DiffBit_above [of "flip_bit i (take_bit ADDR_SIZE a)" a] assms by (auto simp: same_above_def)
  ultimately show ?thesis by simp
qed

lemma updateAdd_node: "updateAdd s = Some r \<Longrightarrow> same_node s r"
  using adp_addEntry_sends [of "ident s" "address s" s]
  by (auto simp: updateAdd_def bind_eq_Some_conv passes_on_def same_node_def emit_def split: if_splits)

lemma try_levels_result:
  assumes "try_levels if_direct if_via nbs nb n s = Some (found, r)" "length (rtable s) = ADDR_SIZE" "n \<le> 16"
  shows "ident r = ident s \<and> etxMetric r = etxMetric s \<and> oldAddress r = oldAddress s \<and> length (rtable r) = ADDR_SIZE \<and>
         (if found then validateAddress nbs r \<and> (\<exists>i < n. DiffBit (address r) (nb_address nb) = int i)
          else address r \<in> {address s, oldAddress s} \<and> rtable r = rtable s)"
  using assms
proof (induction n arbitrary: s)
  case (Suc n)
  define u where "u = s\<lparr>address := flip_bit n (take_bit ADDR_SIZE (nb_address nb))\<rparr>"
  obtain v where v: "update_table if_direct if_via nb u = Some v"
    and rest: "(if validateAddress nbs v then map_option (Pair True) (updateAdd v)
      else clear_table (v\<lparr>address := oldAddress v\<rparr>) \<bind> try_levels if_direct if_via nbs nb n) = Some (found, r)"
    using Suc.prems(1) by (auto simp: u_def bind_eq_Some_conv split: if_splits)
  obtain t where t: "setUpdate if_direct if_via (etxMetric u) (address u) nb (rtable u) = Some t" "v = u\<lparr>rtable := t\<rparr>"
    using v by (auto simp: update_table_def)
  note g = setUpdate_grows [OF t(1)]
  show ?case
  proof (cases "validateAddress nbs v")
    case True
    then obtain w where w: "updateAdd v = Some r" "found" using rest by auto
    note same = updateAdd_node [OF w(1), unfolded same_node_def]
    have "DiffBit (address r) (nb_address nb) = int n" using same t(2) DiffBit_flip [of n] Suc.prems(3) by (simp add: u_def)
    then show ?thesis using same t(2) g Suc.prems(2) w(2) True validateAddress_cong [of r v nbs] by (auto simp: u_def)
  next
    case False
    then have none: "no_entries t" and again: "try_levels if_direct if_via nbs nb n (v\<lparr>address := oldAddress v\<rparr>) = Some (found, r)"
      using rest t(2) by (auto simp: clear_table_iff split: if_splits)
    have "t = rtable s" using g none Suc.prems(2) by (simp add: u_def)
    then show ?thesis using Suc.IH [OF again] Suc.prems(2,3) t(2) by (auto simp: u_def less_Suc_eq split: if_splits)
  qed
qed auto

lemma try_neighbors_result:
  assumes "try_neighbors if_direct if_via nbs rest s = Some r" "length (rtable s) = ADDR_SIZE"
  shows "validateAddress nbs r \<and> (\<exists>nb \<in> set rest. sibling_of r nb) \<or> address r \<in> {address s, oldAddress s} \<and> rtable r = rtable s"
  using assms
proof (induction rest arbitrary: s)
  case (Cons nb rest)
  show ?case
  proof (cases "etxMetric s = 1 \<and> linkQuality nb > LQE_THRESHOLD \<or> etxMetric s = 0")
    case True
    then obtain found u where u: "try_levels if_direct if_via nbs nb (nat (insertionPoint (nb_table nb) + 1)) s = Some (found, u)"
      "(if found then Some u else try_neighbors if_direct if_via nbs rest u) = Some r"
      using Cons.prems(1) by (auto simp: bind_eq_Some_conv)
    have n: "nat (insertionPoint (nb_table nb) + 1) \<le> 16" using insertionPoint_range(2) [of "nb_table nb"] by linarith
    note res = try_levels_result [OF u(1) Cons.prems(2) n]
    show ?thesis
    proof (cases found)
      case True
      then show ?thesis using res u(2) by (auto simp: sibling_of_def)
    next
      case False
      then have "try_neighbors if_direct if_via nbs rest u = Some r" using u(2) by simp
      from Cons.IH [OF this] show ?thesis using res False by auto
    qed
  next
    case False
    then have "try_neighbors if_direct if_via nbs rest s = Some r" using Cons.prems(1) by auto
    from Cons.IH [OF this Cons.prems(2)] show ?thesis by auto
  qed
qed simp

text \<open>C17. When a node chooses an address, it is valid and a sibling of the address of a neighbour, at a level that is not above the neighbour's
  free one; or else none was, and the node has its old address and the table it had.\<close>

theorem select_address_correct:
  assumes "selectAddress if_direct if_via nbs s = Some r" "length (rtable s) = ADDR_SIZE"
  shows "validateAddress nbs r \<and> (\<exists>nb \<in> set nbs. sibling_of r nb) \<or> address r \<in> {address s, oldAddress s} \<and> rtable r = rtable s"
  using try_neighbors_result [OF assms [unfolded selectAddress_def]] .

subsection \<open>Two rounds\<close>

lemma validate_has_entries: "\<not> no_entries (rtable s) \<Longrightarrow> aspu_validateAddress if_direct if_via nbs s = None"
  by (simp add: aspu_validateAddress_def clear_table_iff)

text \<open>A link that is good enough has a cost the table can use, whichever of the two metrics the node has.\<close>

lemma good_link_usable: "good_link etx nb \<Longrightarrow> metric_usable etx (link_etxMetric nb + 1)"
proof -
  assume g: "good_link etx nb"
  have "link_etxMetric nb + 1 < RTR_ETX_MAX" if q: "LQE_THRESHOLD \<le> linkQuality nb"
  proof -
    have "1 / linkQuality nb \<le> 1 / LQE_THRESHOLD" using q by (intro divide_left_mono) simp_all
    then show ?thesis using q by (simp add: link_etxMetric_def Let_def)
  qed
  then show ?thesis using g by (auto simp: good_link_def metric_usable_def)
qed

lemma setUpdate_adds:
  assumes "setUpdate if_direct if_via etx a nb t = Some t'" "length t = ADDR_SIZE" "DiffBit a (nb_address nb) = int l" "nb_id nb \<le> INFINITO"
    "good_link etx nb"
  shows "t' ! l \<noteq> []"
proof -
  have l: "l < 16" using DiffBit_range(2) [of a "nb_address nb"] assms(3) by simp
  define u where "u = setUpdate_direct if_direct etx nb l t"
  have "u ! l \<noteq> []"
  proof (cases "t ! l")
    case Nil
    have "neighbor_levelId (nb_table nb) (int l - 1) (nb_id nb) \<le> INFINITO" using neighbor_levelId_le [of "nb_table nb" "int l - 1" "nb_id nb"] assms(4) by simp
    then show ?thesis using Nil l assms(2) good_link_usable [OF assms(5)] by (simp add: u_def setUpdate_direct_def table_networkId_def addEntry_def)
  next
    case (Cons e es)
    then show ?thesis using setUpdate_direct_levels [of l t l if_direct etx nb] l assms(2) by (auto simp: u_def grows_def)
  qed
  moreover have "setUpdate_levels if_via etx nb l ADDR_SIZE u = Some t'" using assms(1) setUpdate_nat [OF assms(3)] by (simp add: u_def)
  moreover have "length u = ADDR_SIZE" using setUpdate_direct_levels [of l t l if_direct etx nb] l assms(2) by (simp add: u_def)
  ultimately show ?thesis using setUpdate_levels_levels [of if_via etx nb l ADDR_SIZE u t' l] l by simp
qed

lemma updateRoutingTable_grows:
  "updateRoutingTable if_direct if_via nbs s = Some r \<Longrightarrow> length (rtable s) = ADDR_SIZE \<Longrightarrow>
   length (rtable r) = ADDR_SIZE \<and> (no_entries (rtable r) \<longrightarrow> rtable r = rtable s)"
proof (induction nbs arbitrary: s)
  case (Cons nb nbs)
  then obtain u where u: "(if good_link (etxMetric s) nb then update_table if_direct if_via nb s else Some s) = Some u"
    "updateRoutingTable if_direct if_via nbs u = Some r" by (auto simp: bind_eq_Some_conv split: if_splits)
  have "length (rtable u) = ADDR_SIZE \<and> (no_entries (rtable u) \<longrightarrow> rtable u = rtable s)"
    using u(1) setUpdate_grows [OF _ Cons.prems(2)] Cons.prems(2) by (auto simp: update_table_def split: if_splits)
  then show ?case using Cons.IH [OF u(2)] by auto
qed simp

lemma updateRoutingTable_adds:
  assumes "updateRoutingTable if_direct if_via nbs s = Some r" "length (rtable s) = ADDR_SIZE" "nb \<in> set nbs" "good_link (etxMetric s) nb"
    "DiffBit (address s) (nb_address nb) = int l" "nb_id nb \<le> INFINITO"
  shows "\<not> no_entries (rtable r)"
  using assms
proof (induction nbs arbitrary: s)
  case (Cons x nbs)
  obtain u where u: "(if good_link (etxMetric s) x then update_table if_direct if_via x s else Some s) = Some u"
    and rest: "updateRoutingTable if_direct if_via nbs u = Some r"
    using Cons.prems(1) by (auto simp: bind_eq_Some_conv split: if_splits)
  have len: "length (rtable u) = ADDR_SIZE" and same: "address u = address s" "etxMetric u = etxMetric s"
    using u setUpdate_grows [OF _ Cons.prems(2)] Cons.prems(2) by (auto simp: update_table_def split: if_splits)
  show ?case
  proof (cases "x = nb")
    case True
    then have "setUpdate if_direct if_via (etxMetric s) (address s) nb (rtable s) = Some (rtable u)"
      using u Cons.prems(4) by (auto simp: update_table_def)
    from setUpdate_adds [OF this Cons.prems(2,5,6,4)] have "rtable u ! l \<noteq> []" .
    moreover have "l < length (rtable u)" using len DiffBit_range(2) [of "address s" "nb_address nb"] Cons.prems(5) by simp
    ultimately have "\<not> no_entries (rtable u)" using nth_mem [of l "rtable u"] by (auto simp: no_entries_def)
    then show ?thesis using updateRoutingTable_grows [OF rest] len by auto
  next
    case False
    then show ?thesis using Cons.IH [OF rest] Cons.prems len same by simp
  qed
qed simp

text \<open>C18. The rounds of a node do not go on. When a round with a valid address ends, in which the node had a neighbour with a good enough link
  (any, with the metric of hops), another address and an identifier of at most \<open>INFINITO\<close>, the table has an entry, and the next round,
  whatever the node has heard until then, has to clear it, which is undefined.\<close>

theorem second_round_undefined:
  assumes "maintenance if_direct if_via nbs s = Some r" "validateAddress nbs s" "length (rtable s) = ADDR_SIZE" "nb \<in> set nbs"
    "good_link (etxMetric s) nb" "0 \<le> DiffBit (address s) (nb_address nb)" "nb_id nb \<le> INFINITO"
  shows "\<not> no_entries (rtable r) \<and>
    maintenance if_direct if_via nbs' (r\<lparr>now := t, dht := d, allocs := n, waiting := w\<rparr>) = None"
proof -
  obtain l where l: "DiffBit (address s) (nb_address nb) = int l" using assms(6) nonneg_int_cases by blast
  have "updateRoutingTable if_direct if_via nbs s = Some r"
    using assms(1,2) by (simp add: maintenance_def aspu_validateAddress_def clear_table_iff split: if_splits)
  then have "\<not> no_entries (rtable r)" using updateRoutingTable_adds [OF _ assms(3,4,5) l assms(7)] by blast
  then show ?thesis
    using validate_has_entries [of "r\<lparr>now := t, dht := d, allocs := n, waiting := w\<rparr>" if_direct if_via nbs'] by (simp add: maintenance_def)
qed

lemma example_select: "selectAddress 0 (\<lambda>_. 0) [example_neighbor] (example_node empty_table) \<noteq> None"
  by code_simp

theorem select_address_correct_witness:
  "\<exists>r. selectAddress 0 (\<lambda>_. 0) [example_neighbor] (example_node empty_table) = Some r \<and>
       (validateAddress [example_neighbor] r \<and> sibling_of r example_neighbor \<or> address r \<in> {1, 0} \<and> rtable r = empty_table)"
proof -
  obtain r where r: "selectAddress 0 (\<lambda>_. 0) [example_neighbor] (example_node empty_table) = Some r" using example_select by blast
  then show ?thesis using select_address_correct [OF r] by (simp add: example_node_def empty_table_def)
qed

lemma example_round: "maintenance 0 (\<lambda>_. 0) [example_neighbor] (example_node empty_table) \<noteq> None"
  by code_simp

theorem second_round_undefined_witness:
  "\<exists>r. maintenance 0 (\<lambda>_. 0) [example_neighbor] (example_node empty_table) = Some r \<and> \<not> no_entries (rtable r) \<and>
     maintenance 0 (\<lambda>_. 0) [] (r\<lparr>now := 2, dht := [], allocs := 0, waiting := []\<rparr>) = None"
proof -
  obtain r where r: "maintenance 0 (\<lambda>_. 0) [example_neighbor] (example_node empty_table) = Some r" using example_round by blast
  have valid: "validateAddress [example_neighbor] (example_node empty_table)"
    by (simp add: validateAddress_iff conflict_def example_neighbor_def example_node_def entryPresent_def example_levels)
  have "good_link (etxMetric (example_node empty_table)) example_neighbor" "0 \<le> DiffBit (address (example_node empty_table)) (nb_address example_neighbor)"
    "nb_id example_neighbor \<le> INFINITO" "length (rtable (example_node empty_table)) = ADDR_SIZE"
    by (simp_all add: good_link_def example_neighbor_def example_node_def empty_table_def example_levels)
  then show ?thesis using second_round_undefined [OF r valid, where nb = example_neighbor and nbs' = "[]" and t = 2 and d = "[]" and n = 0 and w = "[]"] r by simp
qed

end
