(* ===== verification/Naive_Reno.thy ===== *)
theory Naive_Reno
  imports Reno
begin

section \<open>Naive Reno (\<open>tcp_naivereno.c\<close>)\<close>

text \<open>
  The example module of TCP-Linux: an increase of \<open>alpha\<close> packets per window and a decrease by
  \<open>1 / beta\<close>. The two module parameters can be set by the user; they are the record
  \<open>naive_reno_params\<close>. The lemmas give the decrease for every \<open>beta\<close> (it traps for 0), and the
  interface contract for the parameters the module starts with.
\<close>

record naive_reno_params =
  nr_alpha :: s32
  nr_beta :: s32

definition naive_reno_defaults :: naive_reno_params where
  "naive_reno_defaults = \<lparr>nr_alpha = 1, nr_beta = 2\<rparr>"

definition tcp_naive_reno_cong_avoid ::
  "naive_reno_params \<Rightarrow> kern \<Rightarrow> u32 \<Rightarrow> u32 \<Rightarrow> u32 \<Rightarrow> s32 \<Rightarrow> tcp_sock \<Rightarrow> tcp_sock" where
  "tcp_naive_reno_cong_avoid p k ack rtt in_flight flag tp =
     (if snd_cwnd tp < snd_ssthresh tp then tp\<lparr>snd_cwnd := snd_cwnd tp + 1\<rparr>
      else if snd_cwnd tp \<le> snd_cwnd_cnt tp
      then let w = snd_cwnd tp + nr_alpha p
           in tp\<lparr>snd_cwnd := (if snd_cwnd_clamp tp < w then snd_cwnd_clamp tp else w), snd_cwnd_cnt := 0\<rparr>
      else tp\<lparr>snd_cwnd_cnt := snd_cwnd_cnt tp + 1\<rparr>)"

definition tcp_naive_reno_ssthresh :: "naive_reno_params \<Rightarrow> tcp_sock \<Rightarrow> u32 option" where
  "tcp_naive_reno_ssthresh p tp = do {
     reduction \<leftarrow> cdiv (snd_cwnd tp) (nr_beta p);
     Some (max (snd_cwnd tp - reduction) 2)
   }"

definition tcp_naive_reno_min_cwnd :: "tcp_sock \<Rightarrow> u32" where
  "tcp_naive_reno_min_cwnd tp = snd_ssthresh tp"

definition tcp_naive_reno :: "naive_reno_params \<Rightarrow> unit tcp_congestion_ops" where
  "tcp_naive_reno p =
     \<lparr>op_flags = 0,
      op_name = ''naive_reno'',
      op_init = None,
      op_ssthresh = (\<lambda>k s. map_option (\<lambda>v. (v, s)) (tcp_naive_reno_ssthresh p (fst s))),
      op_min_cwnd = Some (\<lambda>k s. Some (tcp_naive_reno_min_cwnd (fst s))),
      op_cong_avoid = (\<lambda>k ack rtt in_flight flag s.
        Some (tcp_naive_reno_cong_avoid p k ack rtt in_flight flag (fst s), snd s)),
      op_rtt_sample = None,
      op_set_state = None,
      op_cwnd_event = None,
      op_undo_cwnd = None,
      op_pkts_acked = None\<rparr>"

subsection \<open>Lemmas\<close>

lemma naive_reno_ssthresh_value:
  "nr_beta p \<noteq> 0 \<Longrightarrow> \<exists>v. tcp_naive_reno_ssthresh p tp = Some v \<and>
     unat v = max (unat (snd_cwnd tp) - unat (snd_cwnd tp) div unat (nr_beta p)) 2"
  by (simp add: tcp_naive_reno_ssthresh_def unat_max unat_sub_le word_le_nat_alt unat_div_word)

lemma naive_reno_cong_avoid_base_ok:
  assumes "base_ok 2147483647 tp" "0 \<le> sint (nr_alpha p)"
  shows "base_ok 2147483647 (tcp_naive_reno_cong_avoid p k ack rtt in_flight flag tp)"
proof -
  have b: "snd_cwnd tp \<noteq> 0" "unat (snd_cwnd tp) \<le> 2147483647" "unat (snd_cwnd_clamp tp) \<le> 2147483647"
    "unat (snd_ssthresh tp) \<le> 2147483647"
    using assms(1) by (simp_all add: base_ok_def word_le_nat_alt)
  have "uint (nr_alpha p) < 2147483648"
    using uint_eq_sint [OF assms(2)] sint_less [of "nr_alpha p"] by simp
  then have "unat (nr_alpha p) < 2147483648"
    by (metis nat_uint_eq nat_less_iff nat_numeral uint_ge_0 of_nat_numeral)
  then have "unat (snd_cwnd tp + nr_alpha p) = unat (snd_cwnd tp) + unat (nr_alpha p)"
    using b(2) by (intro unat_add_nowrap) simp
  moreover have "unat (snd_cwnd tp + 1) = Suc (unat (snd_cwnd tp))"
    using b(2) by (intro unat_inc) simp
  ultimately show ?thesis
    using assms(1) b by (auto simp: base_ok_def tcp_naive_reno_cong_avoid_def Let_def word_as_nat)
qed

interpretation naive_reno: cong_module "tcp_naive_reno naive_reno_defaults" "\<lambda>_ _. True" "\<lambda>_. True" 2147483647
proof unfold_locales
  fix tp :: tcp_sock and ca :: unit and k
  assume tp: "base_ok 2147483647 tp"
  obtain v where "tcp_naive_reno_ssthresh naive_reno_defaults tp = Some v"
    "unat v = max (unat (snd_cwnd tp) - unat (snd_cwnd tp) div 2) 2"
    using naive_reno_ssthresh_value [of naive_reno_defaults tp] by (auto simp: naive_reno_defaults_def)
  then show "\<exists>v tp' ca'. op_ssthresh (tcp_naive_reno naive_reno_defaults) k (tp, ca) = Some (v, (tp', ca')) \<and>
      2 \<le> v \<and> v \<le> 2147483647 \<and> base_ok 2147483647 tp' \<and> True"
    using tp by (auto simp: tcp_naive_reno_def base_ok_def word_le_nat_alt)
next
  fix tp :: tcp_sock and ca :: unit and i ack in_flight flag
  assume "base_ok 2147483647 tp"
  then show "\<exists>tp' ca'. op_cong_avoid (tcp_naive_reno naive_reno_defaults) (in_kern i) ack (in_seq_rtt i)
      in_flight flag (tp, ca) = Some (tp', ca') \<and> base_ok 2147483647 tp' \<and> True"
    using naive_reno_cong_avoid_base_ok [of tp naive_reno_defaults]
    by (simp add: tcp_naive_reno_def naive_reno_defaults_def)
qed (auto simp: tcp_naive_reno_def tcp_naive_reno_min_cwnd_def base_ok_def two_le_neq_0)

subsection \<open>Properties\<close>

text \<open>
  The decrease of naive Reno for every value the user may give \<open>beta\<close>: 0 traps; otherwise the
  threshold is the window less its \<open>beta\<close>-th part, at least 2, and at most the larger of the window
  and 2 (a negative \<open>beta\<close> counts as the huge unsigned number C converts it to).
\<close>

theorem naive_reno_ssthresh_correct:
  "case tcp_naive_reno_ssthresh p tp of
     None \<Rightarrow> nr_beta p = 0
   | Some v \<Rightarrow> nr_beta p \<noteq> 0 \<and>
       unat v = max (unat (snd_cwnd tp) - unat (snd_cwnd tp) div unat (nr_beta p)) 2 \<and>
       v \<le> max (snd_cwnd tp) 2"
proof (cases "nr_beta p = 0")
  case True
  then show ?thesis by (simp add: tcp_naive_reno_ssthresh_def)
next
  case False
  then obtain v where "tcp_naive_reno_ssthresh p tp = Some v"
    "unat v = max (unat (snd_cwnd tp) - unat (snd_cwnd tp) div unat (nr_beta p)) 2"
    using naive_reno_ssthresh_value by blast
  with False show ?thesis by (auto simp: word_le_nat_alt unat_max)
qed

end
