(* ===== verification/Scalable.thy ===== *)
theory Scalable
  imports Reno
begin

section \<open>Scalable TCP (\<open>src/tcp_scalable.c\<close>)\<close>

text \<open>
  A fixed additive increase (one packet per 50 acknowledgements, or per window when that is
  smaller) and a decrease by an eighth. The lemmas count the acknowledgements of an increase and
  give the decrease exactly.
\<close>

definition TCP_SCALABLE_AI_CNT :: u32 where
  "TCP_SCALABLE_AI_CNT = 50"

definition TCP_SCALABLE_MD_SCALE :: nat where
  "TCP_SCALABLE_MD_SCALE = 3"

definition scalable_increase :: "tcp_sock \<Rightarrow> tcp_sock" where
  "scalable_increase tp =
     (let cnt = snd_cwnd_cnt tp + 1
      in if min (snd_cwnd tp) TCP_SCALABLE_AI_CNT < cnt
         then tp\<lparr>snd_cwnd := (if snd_cwnd tp < snd_cwnd_clamp tp then snd_cwnd tp + 1 else snd_cwnd tp),
                 snd_cwnd_cnt := 0\<rparr>
         else tp\<lparr>snd_cwnd_cnt := cnt\<rparr>)"

definition tcp_scalable_cong_avoid ::
  "kern \<Rightarrow> u32 \<Rightarrow> u32 \<Rightarrow> u32 \<Rightarrow> s32 \<Rightarrow> tcp_sock \<Rightarrow> tcp_sock option" where
  "tcp_scalable_cong_avoid k ack rtt in_flight flag tp =
     (if \<not> tcp_is_cwnd_limited tp in_flight then Some tp
      else if snd_cwnd tp \<le> snd_ssthresh tp then tcp_slow_start k tp
      else Some (scalable_increase tp))"

definition tcp_scalable_ssthresh :: "tcp_sock \<Rightarrow> u32" where
  "tcp_scalable_ssthresh tp = max (snd_cwnd tp - drop_bit TCP_SCALABLE_MD_SCALE (snd_cwnd tp)) 2"

definition tcp_scalable :: "unit tcp_congestion_ops" where
  "tcp_scalable =
     \<lparr>op_flags = 0,
      op_name = ''scalable'',
      op_init = None,
      op_ssthresh = (\<lambda>k s. Some (tcp_scalable_ssthresh (fst s), s)),
      op_min_cwnd = Some (\<lambda>k s. Some (tcp_reno_min_cwnd (fst s))),
      op_cong_avoid = (\<lambda>k ack rtt in_flight flag. on_sock (tcp_scalable_cong_avoid k ack rtt in_flight flag)),
      op_rtt_sample = None,
      op_set_state = None,
      op_cwnd_event = None,
      op_undo_cwnd = None,
      op_pkts_acked = None\<rparr>"

subsection \<open>Lemmas\<close>

lemma scalable_increase_grown: "window_grown tp (scalable_increase tp)"
  by (auto simp: window_grown_def scalable_increase_def Let_def word_as_nat unat_Suc_less unat_max)

lemma scalable_cong_avoid_total:
  "snd_cwnd tp \<noteq> 0 \<Longrightarrow>
   \<exists>tp'. tcp_scalable_cong_avoid k ack rtt in_flight flag tp = Some tp' \<and> window_grown tp tp'"
  using tcp_slow_start_total [of tp k] scalable_increase_grown by (simp add: tcp_scalable_cong_avoid_def)

lemma scalable_ssthresh_value:
  "unat (tcp_scalable_ssthresh tp) = max (unat (snd_cwnd tp) - unat (snd_cwnd tp) div 8) 2"
  by (simp add: tcp_scalable_ssthresh_def TCP_SCALABLE_MD_SCALE_def unat_ops unat_sub_le word_le_nat_alt)

lemma scalable_ssthresh_ge: "2 \<le> tcp_scalable_ssthresh tp"
  by (simp only: tcp_scalable_ssthresh_def max.cobounded2)

interpretation scalable: cong_module tcp_scalable "\<lambda>_ _. True" "\<lambda>_. True" "- 1"
proof unfold_locales
  fix tp ca i ack in_flight flag
  assume tp: "base_ok (- 1) tp"
  then obtain tp' where "tcp_scalable_cong_avoid (in_kern i) ack (in_seq_rtt i) in_flight flag tp = Some tp'"
    "window_grown tp tp'"
    using scalable_cong_avoid_total [OF base_ok_cwnd [OF tp]] by blast
  then show "\<exists>tp' ca'. op_cong_avoid tcp_scalable (in_kern i) ack (in_seq_rtt i) in_flight flag (tp, ca) =
      Some (tp', ca') \<and> base_ok (- 1) tp' \<and> True"
    using tp window_grown_base_ok by (simp add: tcp_scalable_def)
qed (simp_all add: tcp_scalable_def scalable_ssthresh_ge, fastforce simp: base_ok_def tcp_reno_min_cwnd_neq_0)

subsection \<open>Properties\<close>

text \<open>
  Scalable TCP above its threshold: from a zero counter, the window grows by exactly one packet after
  \<open>min w 50 + 1\<close> acknowledgements, all but the last of which only count; after a loss the
  threshold is the window less its eighth (at least 2).
\<close>

theorem scalable_increase_decrease:
  assumes "snd_cwnd_cnt tp = 0" "snd_ssthresh tp < snd_cwnd tp" "snd_cwnd tp < snd_cwnd_clamp tp"
    and "snd_cwnd tp \<le> in_flight"
  shows "run_opt (min (unat (snd_cwnd tp)) 50) (tcp_scalable_cong_avoid k ack rtt in_flight flag) tp =
      Some (tp\<lparr>snd_cwnd_cnt := min (snd_cwnd tp) 50\<rparr>) \<and>
    run_opt (min (unat (snd_cwnd tp)) 50 + 1) (tcp_scalable_cong_avoid k ack rtt in_flight flag) tp =
      Some (tp\<lparr>snd_cwnd := snd_cwnd tp + 1\<rparr>) \<and>
    unat (tcp_scalable_ssthresh tp) = max (unat (snd_cwnd tp) - unat (snd_cwnd tp) div 8) 2"
proof -
  let ?f = "tcp_scalable_cong_avoid k ack rtt in_flight flag"
  let ?g = "\<lambda>i. tp\<lparr>snd_cwnd_cnt := of_nat i\<rparr>"
  let ?n = "min (unat (snd_cwnd tp)) 50"
  have ss: "\<not> snd_cwnd tp \<le> snd_ssthresh tp" using assms(2) by simp
  have un: "unat (min (snd_cwnd tp) 50 :: u32) = ?n" by (simp add: unat_min)
  have step: "?f (?g i) = Some (?g (Suc i))" if "i < ?n" for i
  proof -
    have "unat (of_nat i :: u32) = i" "unat (of_nat i + 1 :: u32) = Suc i"
      using that by (simp_all add: unsigned_of_nat take_bit_nat_eq_self unat_inc)
    then have "\<not> min (snd_cwnd tp) TCP_SCALABLE_AI_CNT < of_nat i + 1"
      using that by (auto simp: word_less_nat_alt TCP_SCALABLE_AI_CNT_def unat_min)
    then show ?thesis
      using assms ss
      by (simp add: tcp_scalable_cong_avoid_def tcp_is_cwnd_limited_def scalable_increase_def Let_def add.commute)
  qed
  have g: "?g 0 = tp" "(of_nat ?n :: u32) = min (snd_cwnd tp) 50"
    using assms(1) un by (simp_all flip: un)
  then have run: "run_opt ?n ?f tp = Some (tp\<lparr>snd_cwnd_cnt := min (snd_cwnd tp) 50\<rparr>)"
    using run_opt_states [of ?n ?f ?g] step by simp
  have "unat (min (snd_cwnd tp) 50 + 1) = Suc ?n"
    using un by (simp add: unat_inc)
  then have "min (snd_cwnd tp) TCP_SCALABLE_AI_CNT < min (snd_cwnd tp) 50 + 1"
    using un by (simp add: word_less_nat_alt TCP_SCALABLE_AI_CNT_def)
  then have "?f (tp\<lparr>snd_cwnd_cnt := min (snd_cwnd tp) 50\<rparr>) = Some (tp\<lparr>snd_cwnd := snd_cwnd tp + 1\<rparr>)"
    using assms ss
    by (simp add: tcp_scalable_cong_avoid_def tcp_is_cwnd_limited_def scalable_increase_def Let_def)
  with run show ?thesis
    using run_opt_add [of ?n 1 ?f tp] scalable_ssthresh_value by simp
qed

theorem scalable_increase_decrease_witness:
  "run_opt (min (unat (4 :: u32)) 50 + 1) (tcp_scalable_cong_avoid example_kern 1 0 4 0) (example_sock 2) =
     Some ((example_sock 2)\<lparr>snd_cwnd := 4 + 1\<rparr>)"
  using scalable_increase_decrease [of "example_sock 2" 4 example_kern 1 0 0] by (simp add: word_less_nat_alt)

end
