(* ===== verification/Highspeed.thy ===== *)
theory Highspeed
  imports Reno
begin

section \<open>High Speed TCP (\<open>src/tcp_highspeed.c\<close>)\<close>

text \<open>
  Increase and decrease of the window come from the AIMD table of RFC 3649, read at an index the
  module keeps in its private area and moves with the window. A read outside of the table is
  undefined in C and \<open>None\<close> here. The lemmas say that the index never leaves the table, that
  the two loops establish the relation between window and index the comment in the code asks for,
  and that the multiplicative decrease does not overflow below the clamp \<open>init\<close> sets.
\<close>

definition hstcp_aimd_vals :: "(u32 \<times> u32) list" where
  "hstcp_aimd_vals =
    [(38, 128), (118, 112), (221, 104), (347, 98), (495, 93), (663, 89),
     (851, 86), (1058, 83), (1284, 81), (1529, 78), (1793, 76), (2076, 74),
     (2378, 72), (2699, 71), (3039, 69), (3399, 68), (3778, 66), (4177, 65),
     (4596, 64), (5036, 62), (5497, 61), (5979, 60), (6483, 59), (7009, 58),
     (7558, 57), (8130, 56), (8726, 55), (9346, 54), (9991, 53), (10661, 52),
     (11358, 52), (12082, 51), (12834, 50), (13614, 49), (14424, 48), (15265, 48),
     (16137, 47), (17042, 46), (17981, 45), (18955, 45), (19965, 44), (21013, 43),
     (22101, 43), (23230, 42), (24402, 41), (25618, 41), (26881, 40), (28193, 39),
     (29557, 39), (30975, 38), (32450, 38), (33986, 37), (35586, 36), (37253, 36),
     (38992, 35), (40808, 35), (42707, 34), (44694, 33), (46776, 33), (48961, 32),
     (51258, 32), (53677, 31), (56230, 30), (58932, 30), (61799, 29), (64851, 28),
     (68113, 28), (71617, 27), (75401, 26), (79517, 26), (84035, 25), (89053, 24)]"

definition HSTCP_AIMD_MAX :: u32 where
  "HSTCP_AIMD_MAX = 72"

record hstcp =
  hs_ai :: u32

definition aimd_entry :: "u32 \<Rightarrow> (u32 \<times> u32) option" where
  "aimd_entry i = (if unat i < length hstcp_aimd_vals then Some (hstcp_aimd_vals ! unat i) else None)"

definition aimd_cwnd :: "u32 \<Rightarrow> u32 option" where
  "aimd_cwnd i = map_option fst (aimd_entry i)"

definition hstcp_init :: "kern \<Rightarrow> hstcp sock \<Rightarrow> hstcp sock option" where
  "hstcp_init k s =
     Some ((fst s)\<lparr>snd_cwnd_clamp := min (snd_cwnd_clamp (fst s)) (0xffffffff div 128)\<rparr>,
           (snd s)\<lparr>hs_ai := 0\<rparr>)"

text \<open>The two loops that move the index.\<close>

function hstcp_up :: "u32 \<Rightarrow> u32 \<Rightarrow> u32 option" where
  "hstcp_up w ai =
     (case aimd_cwnd ai of
        None \<Rightarrow> None
      | Some c \<Rightarrow> if c < w \<and> ai < HSTCP_AIMD_MAX - 1 then hstcp_up w (ai + 1) else Some ai)"
  by pat_completeness auto
termination
  by (relation "measure (\<lambda>(w, ai). 72 - unat ai)")
    (auto simp: HSTCP_AIMD_MAX_def unat_inc word_less_nat_alt)

function hstcp_down :: "u32 \<Rightarrow> u32 \<Rightarrow> u32 option" where
  "hstcp_down w ai =
     (if ai = 0 then Some ai
      else case aimd_cwnd (ai - 1) of
             None \<Rightarrow> None
           | Some c \<Rightarrow> if w \<le> c then hstcp_down w (ai - 1) else Some ai)"
  by pat_completeness auto
termination
  by (relation "measure (\<lambda>(w, ai). unat ai)") (auto simp: unat_gt_0 unat_sub_le word_le_nat_alt Suc_le_eq)

declare hstcp_up.simps [simp del] hstcp_down.simps [simp del]

definition hstcp_index :: "u32 \<Rightarrow> u32 \<Rightarrow> u32 option" where
  "hstcp_index w ai = do {
     c \<leftarrow> aimd_cwnd ai;
     if c < w then hstcp_up w ai else hstcp_down w ai
   }"

definition hstcp_increase :: "u32 \<Rightarrow> tcp_sock \<Rightarrow> tcp_sock" where
  "hstcp_increase ai tp =
     (if snd_cwnd tp < snd_cwnd_clamp tp
      then let cnt = snd_cwnd_cnt tp + (ai + 1)
           in if snd_cwnd tp \<le> cnt
              then tp\<lparr>snd_cwnd_cnt := cnt - snd_cwnd tp, snd_cwnd := snd_cwnd tp + 1\<rparr>
              else tp\<lparr>snd_cwnd_cnt := cnt\<rparr>
      else tp)"

definition hstcp_cong_avoid ::
  "kern \<Rightarrow> u32 \<Rightarrow> u32 \<Rightarrow> u32 \<Rightarrow> s32 \<Rightarrow> hstcp sock \<Rightarrow> hstcp sock option" where
  "hstcp_cong_avoid k adk rtt in_flight data_acked s =
     (if \<not> tcp_is_cwnd_limited (fst s) in_flight then Some s
      else if snd_cwnd (fst s) \<le> snd_ssthresh (fst s) then on_sock (tcp_slow_start k) s
      else do {
        ai \<leftarrow> hstcp_index (snd_cwnd (fst s)) (hs_ai (snd s));
        Some (hstcp_increase ai (fst s), (snd s)\<lparr>hs_ai := ai\<rparr>)
      })"

definition hstcp_ssthresh :: "hstcp sock \<Rightarrow> u32 option" where
  "hstcp_ssthresh s = do {
     e \<leftarrow> aimd_entry (hs_ai (snd s));
     Some (max (snd_cwnd (fst s) - drop_bit 8 (snd_cwnd (fst s) * snd e)) 2)
   }"

definition tcp_highspeed :: "hstcp tcp_congestion_ops" where
  "tcp_highspeed =
     \<lparr>op_flags = 0,
      op_name = ''highspeed'',
      op_init = Some hstcp_init,
      op_ssthresh = (\<lambda>k s. map_option (\<lambda>v. (v, s)) (hstcp_ssthresh s)),
      op_min_cwnd = Some (\<lambda>k s. Some (tcp_reno_min_cwnd (fst s))),
      op_cong_avoid = hstcp_cong_avoid,
      op_rtt_sample = None,
      op_set_state = None,
      op_cwnd_event = None,
      op_undo_cwnd = None,
      op_pkts_acked = None\<rparr>"

subsection \<open>The table\<close>

lemma hstcp_aimd_length [simp]: "length hstcp_aimd_vals = 72"
  by (simp add: hstcp_aimd_vals_def)

lemma hstcp_aimd_sorted: "sorted_wrt (<) (map fst hstcp_aimd_vals)"
  by code_simp

lemma hstcp_aimd_md: "list_all (\<lambda>e. 24 \<le> snd e \<and> snd e \<le> 128) hstcp_aimd_vals"
  by code_simp

lemma aimd_entry_Some: "unat i < 72 \<Longrightarrow> aimd_entry i = Some (hstcp_aimd_vals ! unat i)"
  by (simp add: aimd_entry_def)

lemma aimd_cwnd_Some: "unat i < 72 \<Longrightarrow> aimd_cwnd i = Some (fst (hstcp_aimd_vals ! unat i))"
  by (simp add: aimd_cwnd_def aimd_entry_Some)

lemma aimd_md_bounds:
  "unat i < 72 \<Longrightarrow> 24 \<le> snd (hstcp_aimd_vals ! unat i) \<and> snd (hstcp_aimd_vals ! unat i) \<le> 128"
  using hstcp_aimd_md by (simp add: list_all_length)

subsection \<open>The index\<close>

text \<open>The comment of \<open>hstcp_cong_avoid\<close>: the entry at the index is the first that reaches the window,
  or the last of the table.\<close>

definition aimd_at :: "u32 \<Rightarrow> u32 \<Rightarrow> bool" where
  "aimd_at w ai \<longleftrightarrow> unat ai < 72 \<and>
     (ai \<noteq> 0 \<longrightarrow> fst (hstcp_aimd_vals ! (unat ai - 1)) < w) \<and>
     (w \<le> fst (hstcp_aimd_vals ! unat ai) \<or> unat ai = 71)"

lemma hstcp_up_at:
  assumes "unat ai < 72" "ai \<noteq> 0 \<longrightarrow> fst (hstcp_aimd_vals ! (unat ai - 1)) < w"
  shows "\<exists>ai'. hstcp_up w ai = Some ai' \<and> aimd_at w ai'"
  using assms
proof (induction w ai rule: hstcp_up.induct)
  case (1 w ai)
  let ?c = "fst (hstcp_aimd_vals ! unat ai)"
  have c: "aimd_cwnd ai = Some ?c" using "1.prems"(1) by (rule aimd_cwnd_Some)
  show ?case
  proof (cases "?c < w \<and> ai < HSTCP_AIMD_MAX - 1")
    case True
    then have "unat (ai + 1) = Suc (unat ai)" "unat ai < 71"
      by (simp_all add: HSTCP_AIMD_MAX_def unat_inc word_less_nat_alt)
    then have "\<exists>ai'. hstcp_up w (ai + 1) = Some ai' \<and> aimd_at w ai'"
      using "1.IH" [OF c] True by simp
    then show ?thesis using True c by (simp add: hstcp_up.simps [of w ai])
  next
    case False
    then have "hstcp_up w ai = Some ai"
      using c by (subst hstcp_up.simps) auto
    moreover have "aimd_at w ai"
      using "1.prems" False by (auto simp: aimd_at_def HSTCP_AIMD_MAX_def word_as_nat)
    ultimately show ?thesis by simp
  qed
qed

lemma hstcp_down_at:
  assumes "unat ai < 72" "w \<le> fst (hstcp_aimd_vals ! unat ai)"
  shows "\<exists>ai'. hstcp_down w ai = Some ai' \<and> aimd_at w ai'"
  using assms
proof (induction w ai rule: hstcp_down.induct)
  case (1 w ai)
  show ?case
  proof (cases "ai = 0")
    case True
    then have "hstcp_down w ai = Some ai" by (subst hstcp_down.simps) simp
    then show ?thesis using "1.prems" True by (simp add: aimd_at_def)
  next
    case False
    have ai: "unat (ai - 1) = unat ai - 1" "unat ai \<noteq> 0"
      using False by (simp_all add: unat_sub_le word_as_nat unat_eq_zero Suc_le_eq)
    let ?c = "fst (hstcp_aimd_vals ! (unat ai - 1))"
    have c: "aimd_cwnd (ai - 1) = Some ?c" using "1.prems"(1) ai by (simp add: aimd_cwnd_Some)
    show ?thesis
    proof (cases "w \<le> ?c")
      case True
      then have "\<exists>ai'. hstcp_down w (ai - 1) = Some ai' \<and> aimd_at w ai'"
        using "1.IH" [OF False c] "1.prems"(1) ai by simp
      then show ?thesis using False True c by (simp add: hstcp_down.simps [of w ai])
    next
      case less: False
      then have "hstcp_down w ai = Some ai" using False c by (simp add: hstcp_down.simps [of w ai])
      then show ?thesis using "1.prems" less by (simp add: aimd_at_def not_le)
    qed
  qed
qed

lemma hstcp_index_at:
  assumes "unat ai < 72"
  shows "\<exists>ai'. hstcp_index w ai = Some ai' \<and> aimd_at w ai'"
proof (cases "fst (hstcp_aimd_vals ! unat ai) < w")
  case True
  have "fst (hstcp_aimd_vals ! (unat ai - 1)) < w" if "ai \<noteq> 0"
  proof -
    have "0 < unat ai" using that by (simp add: word_neq_0_iff_unat)
    then have "fst (hstcp_aimd_vals ! (unat ai - 1)) < fst (hstcp_aimd_vals ! unat ai)"
      using sorted_wrt_nth_less [OF hstcp_aimd_sorted, of "unat ai - 1" "unat ai"] assms by simp
    then show ?thesis using True by simp
  qed
  then show ?thesis
    using hstcp_up_at [OF assms, of w] True assms by (simp add: hstcp_index_def aimd_cwnd_Some)
next
  case False
  then show ?thesis
    using hstcp_down_at [OF assms, of w] assms by (simp add: hstcp_index_def aimd_cwnd_Some)
qed

subsection \<open>The operations\<close>

lemma hstcp_increase_grown: "window_grown tp (hstcp_increase ai tp)"
  by (auto simp: window_grown_def hstcp_increase_def Let_def word_as_nat unat_Suc_less unat_max)

lemma hstcp_cong_avoid_total:
  assumes "snd_cwnd tp \<noteq> 0" "unat (hs_ai ca) < 72"
  shows "\<exists>tp' ca'. hstcp_cong_avoid k adk rtt in_flight data_acked (tp, ca) = Some (tp', ca') \<and>
    window_grown tp tp' \<and> unat (hs_ai ca') < 72 \<and>
    (snd_cwnd tp \<le> in_flight \<and> snd_ssthresh tp < snd_cwnd tp \<longrightarrow> aimd_at (snd_cwnd tp) (hs_ai ca'))"
proof -
  obtain ai where ai: "hstcp_index (snd_cwnd tp) (hs_ai ca) = Some ai" "aimd_at (snd_cwnd tp) ai"
    using hstcp_index_at assms(2) by blast
  obtain tp1 where "tcp_slow_start k tp = Some tp1" "window_grown tp tp1"
    using tcp_slow_start_total assms(1) by blast
  then show ?thesis
    using ai assms(2) hstcp_increase_grown
    by (auto simp: hstcp_cong_avoid_def tcp_is_cwnd_limited_def aimd_at_def not_less [symmetric])
qed

lemma hstcp_ssthresh_value:
  assumes "unat (hs_ai ca) < 72" "unat (snd_cwnd tp) \<le> 33554431"
  shows "\<exists>v. hstcp_ssthresh (tp, ca) = Some v \<and>
    unat v = max (unat (snd_cwnd tp) - unat (snd_cwnd tp) * unat (snd (hstcp_aimd_vals ! unat (hs_ai ca))) div 256) 2"
proof -
  let ?w = "snd_cwnd tp" and ?m = "snd (hstcp_aimd_vals ! unat (hs_ai ca))"
  have m: "unat ?m \<le> 128" using aimd_md_bounds [OF assms(1)] by (simp add: word_le_nat_alt)
  then have "unat ?w * unat ?m \<le> 33554431 * 128" using assms(2) by (intro mult_le_mono)
  then have mul: "unat (?w * ?m) = unat ?w * unat ?m" by (intro unat_mult_nowrap) simp
  then have d: "unat (drop_bit 8 (?w * ?m)) = unat ?w * unat ?m div 256" by (simp add: unat_drop_bit_div)
  have "unat ?w * unat ?m div 256 \<le> unat ?w * 128 div 256"
    using m by (intro div_le_mono mult_le_mono2)
  also have "\<dots> \<le> unat ?w" by simp
  finally have "drop_bit 8 (?w * ?m) \<le> ?w" by (simp add: word_le_nat_alt d)
  then have "unat (?w - drop_bit 8 (?w * ?m)) = unat ?w - unat ?w * unat ?m div 256"
    by (simp add: unat_sub_le d)
  then show ?thesis using assms(1) by (simp add: hstcp_ssthresh_def aimd_entry_Some unat_max)
qed

lemma hstcp_ssthresh_bounds:
  assumes "unat (hs_ai ca) < 72" "unat (snd_cwnd tp) \<le> 33554431"
  shows "\<exists>v. hstcp_ssthresh (tp, ca) = Some v \<and> 2 \<le> v \<and> v \<le> max (snd_cwnd tp) 2"
  using hstcp_ssthresh_value [OF assms] by (auto simp: word_le_nat_alt unat_max)

interpretation highspeed: cong_module tcp_highspeed "\<lambda>_ ca. unat (hs_ai ca) < 72" "\<lambda>_. True" 33554431
proof unfold_locales
  fix tp :: tcp_sock and ca :: hstcp and k
  assume tp: "base_ok 33554431 tp" and ca: "unat (hs_ai ca) < 72"
  then have "unat (snd_cwnd tp) \<le> 33554431" by (simp add: base_ok_def word_le_nat_alt)
  then obtain v where "hstcp_ssthresh (tp, ca) = Some v" "2 \<le> v" "v \<le> max (snd_cwnd tp) 2"
    using hstcp_ssthresh_bounds ca by blast
  moreover from this tp have "v \<le> 33554431"
    by (auto simp: base_ok_def word_le_nat_alt unat_max)
  ultimately show "\<exists>v tp' ca'. op_ssthresh tcp_highspeed k (tp, ca) = Some (v, (tp', ca')) \<and> 2 \<le> v \<and>
      v \<le> 33554431 \<and> base_ok 33554431 tp' \<and> unat (hs_ai ca') < 72"
    using tp ca by (simp add: tcp_highspeed_def)
next
  fix f :: "kern \<Rightarrow> hstcp sock \<Rightarrow> u32 option" and tp ca k
  assume "op_min_cwnd tcp_highspeed = Some f" "base_ok 33554431 tp"
  then show "\<exists>w. f k (tp, ca) = Some w \<and> w \<noteq> 0 \<and> w \<le> 33554431"
    by (auto simp: tcp_highspeed_def base_ok_def tcp_reno_min_cwnd_neq_0 tcp_reno_min_cwnd_le)
next
  fix tp :: tcp_sock and ca :: hstcp and i ack in_flight flag
  assume tp: "base_ok 33554431 tp" and ca: "unat (hs_ai ca) < 72"
  then obtain tp' ca' where "hstcp_cong_avoid (in_kern i) ack (in_seq_rtt i) in_flight flag (tp, ca) = Some (tp', ca')"
    "window_grown tp tp'" "unat (hs_ai ca') < 72"
    using hstcp_cong_avoid_total unfolding base_ok_def by blast
  then show "\<exists>tp' ca'. op_cong_avoid tcp_highspeed (in_kern i) ack (in_seq_rtt i) in_flight flag (tp, ca) =
      Some (tp', ca') \<and> base_ok 33554431 tp' \<and> unat (hs_ai ca') < 72"
    using tp window_grown_base_ok by (auto simp: tcp_highspeed_def)
qed (auto simp: tcp_highspeed_def hstcp_init_def base_ok_def ack_frame_def word_as_nat unat_min)

subsection \<open>Properties\<close>

text \<open>
  C23. In congestion avoidance, from any index within the table, the module returns without reading
  outside of the table, and leaves the index that the comment in the code asks for: the entry before it
  is below the window, and the entry itself reaches the window or is the last one. The window
  grows by at most the additive increase, up to the clamp.
\<close>

theorem hstcp_index_correct:
  assumes "unat (hs_ai ca) < 72" "snd_ssthresh tp < snd_cwnd tp" "snd_cwnd tp \<le> in_flight"
  shows "\<exists>tp' ca'. hstcp_cong_avoid k adk rtt in_flight flag (tp, ca) = Some (tp', ca') \<and>
    unat (hs_ai ca') < length hstcp_aimd_vals \<and>
    (hs_ai ca' = 0 \<or> fst (hstcp_aimd_vals ! (unat (hs_ai ca') - 1)) < snd_cwnd tp) \<and>
    (snd_cwnd tp \<le> fst (hstcp_aimd_vals ! unat (hs_ai ca')) \<or> unat (hs_ai ca') = 71) \<and>
    tp' = hstcp_increase (hs_ai ca') tp"
proof -
  obtain ai where ai: "hstcp_index (snd_cwnd tp) (hs_ai ca) = Some ai" "aimd_at (snd_cwnd tp) ai"
    using hstcp_index_at assms(1) by blast
  then show ?thesis
    using assms by (auto simp: hstcp_cong_avoid_def tcp_is_cwnd_limited_def aimd_at_def not_le [symmetric])
qed

theorem hstcp_index_correct_witness:
  "\<exists>tp' ca'. hstcp_cong_avoid example_kern 1 0 4 0 (example_sock 2, \<lparr>hs_ai = 7\<rparr>) = Some (tp', ca') \<and>
     unat (hs_ai ca') < length hstcp_aimd_vals"
  using hstcp_index_correct [of "\<lparr>hs_ai = 7\<rparr>" "example_sock 2" 4 example_kern 1 0 0]
  by auto

text \<open>
  After a loss, for a window within the clamp that \<open>init\<close> sets, the decrease of High Speed TCP is
  computed without overflow: the threshold is \<open>w - w * md / 256\<close> for the table's \<open>md\<close>
  (never below 2), which is at least half of the window and at most the window.
\<close>

theorem hstcp_ssthresh_correct:
  assumes "unat (hs_ai ca) < 72" "unat (snd_cwnd tp) \<le> 33554431"
  shows "\<exists>v. hstcp_ssthresh (tp, ca) = Some v \<and>
    unat v = max (unat (snd_cwnd tp) - unat (snd_cwnd tp) * unat (snd (hstcp_aimd_vals ! unat (hs_ai ca))) div 256) 2 \<and>
    unat (snd_cwnd tp) div 2 \<le> unat v"
proof -
  have m: "unat (snd (hstcp_aimd_vals ! unat (hs_ai ca))) \<le> 128"
    using aimd_md_bounds [OF assms(1)] by (simp add: word_le_nat_alt)
  have "unat (snd_cwnd tp) * unat (snd (hstcp_aimd_vals ! unat (hs_ai ca))) div 256 \<le> unat (snd_cwnd tp) * 128 div 256"
    using m by (intro div_le_mono mult_le_mono2)
  then show ?thesis using hstcp_ssthresh_value [OF assms] by auto
qed

theorem hstcp_ssthresh_correct_witness:
  "\<exists>v. hstcp_ssthresh (example_sock 2, \<lparr>hs_ai = 0\<rparr>) = Some v \<and> 2 \<le> unat v"
  using hstcp_ssthresh_correct [of "\<lparr>hs_ai = 0\<rparr>" "example_sock 2"] by auto

end
