(* ===== verification/Hybla.thy ===== *)
theory Hybla
  imports Reno
begin

section \<open>TCP Hybla (\<open>src/tcp_hybla.c\<close>)\<close>

text \<open>
  Hybla makes the growth of the window independent of the round-trip time: \<open>rho\<close> is the ratio of
  the round-trip time to a reference \<open>rtt0\<close>, and the increments \<open>2 ^ rho - 1\<close> (slow start) and
  \<open>rho ^ 2 / w\<close> are kept in 128ths of a packet, the fraction in \<open>snd_cwnd_cents\<close>. A shift
  \<open>1 << rho\<close> of 32 or more is undefined and \<open>None\<close> here. The lemmas say that the fraction stays
  below a packet and that nothing is lost in the carry, that the window stays within the clamp (and
  the threshold in slow start), and for which round-trip times the shift is defined.
\<close>

record hybla =
  hybla_en :: u8
  snd_cwnd_cents :: u32
  rho :: u32
  rho2 :: u32
  rho_3ls :: u32
  rho2_7ls :: u32
  hy_minrtt :: u32

text \<open>The default of the module parameter \<open>rtt0\<close> in milliseconds.\<close>

definition hybla_rtt0 :: s32 where
  "hybla_rtt0 = 25"

definition hybla_recalc_param :: "s32 \<Rightarrow> u32 \<Rightarrow> hybla \<Rightarrow> hybla option" where
  "hybla_recalc_param rtt0 srtt8 ca = do {
     q \<leftarrow> cdiv srtt8 (msecs_to_jiffies rtt0);
     let r3 = max q 8; r7 = push_bit 1 (r3 * r3) in
     Some (ca\<lparr>rho_3ls := r3, rho := drop_bit 3 r3, rho2_7ls := r7, rho2 := drop_bit 7 r7\<rparr>)
   }"

definition hybla_init :: "s32 \<Rightarrow> kern \<Rightarrow> hybla sock \<Rightarrow> hybla sock option" where
  "hybla_init rtt0 k s = do {
     let ca = (snd s)\<lparr>rho := 0, rho2 := 0, rho_3ls := 0, rho2_7ls := 0, snd_cwnd_cents := 0, hybla_en := 1\<rparr>;
         tp = (fst s)\<lparr>snd_cwnd := 2, snd_cwnd_clamp := 65535\<rparr> in
     do {
       ca \<leftarrow> hybla_recalc_param rtt0 (srtt tp) ca;
       Some (tp\<lparr>snd_cwnd := rho ca\<rparr>, ca\<lparr>hy_minrtt := srtt tp\<rparr>)
     }
   }"

definition hybla_state :: "kern \<Rightarrow> u8 \<Rightarrow> hybla sock \<Rightarrow> hybla sock option" where
  "hybla_state k ca_state s =
     Some (fst s, (snd s)\<lparr>hybla_en := (if ca_state = TCP_CA_Open then 1 else 0)\<rparr>)"

definition hybla_fraction :: "u32 \<Rightarrow> u32" where
  "hybla_fraction odds =
     (let fractions = [128, 139, 152, 165, 181, 197, 215, 234]
      in if unat odds < length fractions then fractions ! unat odds else 128)"

text \<open>The slow-start increment, in 128ths: \<open>((1 << rho) * fraction) - 128\<close>.\<close>

definition hybla_ss_increment :: "hybla \<Rightarrow> u32 option" where
  "hybla_ss_increment ca =
     (if unat (rho ca) < 32
      then Some (push_bit (unat (rho ca)) 1 * hybla_fraction (rho_3ls ca - push_bit 3 (rho ca)) - 128)
      else None)"

text \<open>\<open>while (cents >= 128) { cwnd++; cents -= 128; cwnd_cnt = 0; }\<close>\<close>

function hybla_carry :: "u32 \<Rightarrow> u16 \<Rightarrow> u32 \<Rightarrow> u32 \<times> u16 \<times> u32" where
  "hybla_carry w cnt cents =
     (if 128 \<le> cents then hybla_carry (w + 1) 0 (cents - 128) else (w, cnt, cents))"
  by pat_completeness auto
termination
  by (relation "measure (\<lambda>(w, cnt, cents). unat cents)") (auto simp: unat_sub_le word_le_nat_alt)

declare hybla_carry.simps [simp del]

definition hybla_min_rtt :: "s32 \<Rightarrow> tcp_sock \<Rightarrow> hybla \<Rightarrow> hybla option" where
  "hybla_min_rtt rtt0 tp ca =
     (if srtt tp < hy_minrtt ca
      then map_option (\<lambda>ca. ca\<lparr>hy_minrtt := srtt tp\<rparr>) (hybla_recalc_param rtt0 (srtt tp) ca)
      else Some ca)"

definition hybla_raise :: "tcp_sock \<Rightarrow> hybla \<Rightarrow> hybla sock option" where
  "hybla_raise tp ca = do {
     let is_slowstart = snd_cwnd tp < snd_ssthresh tp in
     do {
       (increment, cnt) \<leftarrow>
         (if is_slowstart then map_option (\<lambda>i. (i, snd_cwnd_cnt tp)) (hybla_ss_increment ca)
          else do {
            i \<leftarrow> cdiv (rho2_7ls ca) (snd_cwnd tp);
            Some (i, if i < 128 then snd_cwnd_cnt tp + 1 else snd_cwnd_cnt tp)
          });
       let (w, cnt, cents) = hybla_carry (snd_cwnd tp + drop_bit 7 increment) cnt
                               (snd_cwnd_cents ca + increment mod 128);
           w = (if is_slowstart then min w (snd_ssthresh tp) else w) in
       Some (tp\<lparr>snd_cwnd := min w (snd_cwnd_clamp tp), snd_cwnd_cnt := cnt\<rparr>, ca\<lparr>snd_cwnd_cents := cents\<rparr>)
     }
   }"

definition hybla_cong_avoid ::
  "s32 \<Rightarrow> kern \<Rightarrow> u32 \<Rightarrow> u32 \<Rightarrow> u32 \<Rightarrow> s32 \<Rightarrow> hybla sock \<Rightarrow> hybla sock option" where
  "hybla_cong_avoid rtt0 k ack rtt in_flight flag s = do {
     ca \<leftarrow> hybla_min_rtt rtt0 (fst s) (snd s);
     if \<not> tcp_is_cwnd_limited (fst s) in_flight then Some (fst s, ca)
     else if hybla_en ca = 0 then on_sock (tcp_reno_cong_avoid k ack rtt in_flight flag) (fst s, ca)
     else do {
       ca \<leftarrow> (if rho ca = 0 then hybla_recalc_param rtt0 (srtt (fst s)) ca else Some ca);
       hybla_raise (fst s) ca
     }
   }"

definition tcp_hybla :: "s32 \<Rightarrow> hybla tcp_congestion_ops" where
  "tcp_hybla rtt0 =
     \<lparr>op_flags = 0,
      op_name = ''hybla'',
      op_init = Some (hybla_init rtt0),
      op_ssthresh = (\<lambda>k s. Some (tcp_reno_ssthresh (fst s), s)),
      op_min_cwnd = Some (\<lambda>k s. Some (tcp_reno_min_cwnd (fst s))),
      op_cong_avoid = hybla_cong_avoid rtt0,
      op_rtt_sample = None,
      op_set_state = Some hybla_state,
      op_cwnd_event = None,
      op_undo_cwnd = None,
      op_pkts_acked = None\<rparr>"

subsection \<open>The parameters\<close>

lemma rtt0_jiffies: "msecs_to_jiffies hybla_rtt0 = 25"
  by (simp add: msecs_to_jiffies_def hybla_rtt0_def)

lemma hybla_recalc_rho:
  assumes "srtt8 < 6400"
  shows "\<exists>r3 r r7 r2. hybla_recalc_param hybla_rtt0 srtt8 ca =
      Some (ca\<lparr>rho_3ls := r3, rho := r, rho2_7ls := r7, rho2 := r2\<rparr>) \<and> 0 < unat r \<and> unat r < 32"
proof -
  let ?r = "drop_bit 3 (max (srtt8 div 25) 8) :: u32"
  have "unat ?r = max (unat srtt8 div 25) 8 div 8"
    by (simp add: unat_ops)
  moreover have "unat srtt8 < 6400" using assms by (simp add: word_less_nat_alt)
  ultimately have "0 < unat ?r" "unat ?r < 32" by (simp_all add: div_less_iff_less_mult less_eq_div_iff_mult_less_eq)
  then show ?thesis
    unfolding hybla_recalc_param_def rtt0_jiffies Let_def by auto
qed

lemma hybla_recalc_rho_large:
  assumes "6400 \<le> srtt8"
  shows "\<exists>ca'. hybla_recalc_param hybla_rtt0 srtt8 ca = Some ca' \<and> 32 \<le> unat (rho ca') \<and> unat (rho ca') < 2 ^ 25 \<and>
    hybla_en ca' = hybla_en ca"
proof -
  let ?r = "drop_bit 3 (max (srtt8 div 25) 8) :: u32"
  have r: "unat ?r = max (unat srtt8 div 25) 8 div 8"
    by (simp add: unat_ops)
  have s: "6400 \<le> unat srtt8" using assms by (simp add: word_le_nat_alt)
  have "32 \<le> unat ?r" unfolding r using s by (simp add: less_eq_div_iff_mult_less_eq max_def)
  moreover have "unat srtt8 div 25 < 268435456" using unat_lt_u32 [of srtt8] by (simp add: div_less_iff_less_mult)
  then have "unat ?r < 2 ^ 25" unfolding r by (simp add: div_less_iff_less_mult)
  ultimately show ?thesis
    unfolding hybla_recalc_param_def rtt0_jiffies Let_def by simp
qed

subsection \<open>The carry\<close>

lemma hybla_carry_small: "unat cents < 128 \<Longrightarrow> hybla_carry w cnt cents = (w, cnt, cents)"
  by (subst hybla_carry.simps) (simp add: word_le_nat_alt)

lemma hybla_carry_one:
  assumes "128 \<le> unat cents" "unat cents < 256"
  shows "hybla_carry w cnt cents = (w + 1, 0, cents - 128)"
proof -
  have "unat (cents - 128) = unat cents - 128"
    using assms by (simp add: unat_sub_le word_le_nat_alt)
  then have "hybla_carry (w + 1) 0 (cents - 128) = (w + 1, 0, cents - 128)"
    using assms by (intro hybla_carry_small) simp
  then show ?thesis using assms by (subst hybla_carry.simps) (simp add: word_le_nat_alt)
qed

text \<open>The carry keeps the sum of the window and the fraction, in 128ths.\<close>

lemma hybla_carry_sum:
  assumes "unat c < 128" "unat i < 2 ^ 32" "unat w < 2 ^ 31"
  shows "\<exists>w' cnt' c'. hybla_carry (w + drop_bit 7 i) cnt (c + i mod 128) = (w', cnt', c') \<and> unat c' < 128 \<and>
    128 * unat w' + unat c' = 128 * unat w + unat c + unat i \<and> unat w \<le> unat w'"
proof -
  have d: "unat (drop_bit 7 i) = unat i div 128" by (simp add: unat_drop_bit_div)
  have "unat i div 128 < 2 ^ 25" using unat_lt_u32 [of i] by (simp add: div_less_iff_less_mult)
  then have w: "unat (w + drop_bit 7 i) = unat w + unat i div 128" "unat w + unat i div 128 < 4294967295"
    using assms(3) d unat_add_nowrap [of w "drop_bit 7 i"] by simp_all
  have c: "unat (c + i mod 128) = unat c + unat i mod 128"
    using assms(1) unat_add_nowrap [of c "i mod 128"] by (simp add: unat_mod)
  have split: "unat i = 128 * (unat i div 128) + unat i mod 128" by simp
  show ?thesis
  proof (cases "unat (c + i mod 128) < 128")
    case True
    then show ?thesis using w c split by (simp add: hybla_carry_small)
  next
    case False
    moreover have "unat (c + i mod 128) < 256"
      unfolding c using assms(1) mod_less_divisor [of 128 "unat i"] by simp
    ultimately have "hybla_carry (w + drop_bit 7 i) cnt (c + i mod 128) =
        (w + drop_bit 7 i + 1, 0, c + i mod 128 - 128)"
      by (intro hybla_carry_one) simp_all
    moreover have "unat (c + i mod 128 - 128) = unat c + unat i mod 128 - 128"
      using False c by (simp add: unat_sub_le word_le_nat_alt)
    moreover have "unat (w + drop_bit 7 i + 1) = unat w + unat i div 128 + 1"
      using w by (simp add: unat_inc)
    ultimately show ?thesis
      using False \<open>unat (c + i mod 128) < 256\<close> c split by simp
  qed
qed

subsection \<open>The operations\<close>

text \<open>What holds after \<open>init\<close>: less than a packet of fraction, and a defined shift.\<close>

definition hybla_inv :: "bool \<Rightarrow> hybla \<Rightarrow> bool" where
  "hybla_inv b ca \<longleftrightarrow> (b \<longrightarrow> unat (snd_cwnd_cents ca) < 128 \<and> unat (rho ca) < 32)"

lemma hybla_raise_spec:
  assumes "snd_cwnd tp \<noteq> 0" "unat (snd_cwnd tp) < 2 ^ 31" "unat (snd_cwnd_cents ca) < 128" "unat (rho ca) < 32"
  shows "\<exists>i w cnt c. hybla_raise tp ca =
      Some (tp\<lparr>snd_cwnd := min (if snd_cwnd tp < snd_ssthresh tp then min w (snd_ssthresh tp) else w) (snd_cwnd_clamp tp),
               snd_cwnd_cnt := cnt\<rparr>, ca\<lparr>snd_cwnd_cents := c\<rparr>) \<and>
    unat c < 128 \<and> 128 * unat w + unat c = 128 * unat (snd_cwnd tp) + unat (snd_cwnd_cents ca) + unat i \<and>
    snd_cwnd tp \<le> w \<and> (\<not> snd_cwnd tp < snd_ssthresh tp \<longrightarrow> i = rho2_7ls ca div snd_cwnd tp)"
proof (cases "snd_cwnd tp < snd_ssthresh tp")
  case True
  obtain i where i: "hybla_ss_increment ca = Some i" using assms(4) by (simp add: hybla_ss_increment_def)
  obtain w cnt c where "hybla_carry (snd_cwnd tp + drop_bit 7 i) (snd_cwnd_cnt tp) (snd_cwnd_cents ca + i mod 128) = (w, cnt, c)"
    "unat c < 128" "128 * unat w + unat c = 128 * unat (snd_cwnd tp) + unat (snd_cwnd_cents ca) + unat i"
    "unat (snd_cwnd tp) \<le> unat w"
    using hybla_carry_sum [OF assms(3) _ assms(2), of i "snd_cwnd_cnt tp"] unat_lt_u32 [of i] by auto
  moreover from this(1) have "hybla_raise tp ca =
      Some (tp\<lparr>snd_cwnd := min (min w (snd_ssthresh tp)) (snd_cwnd_clamp tp), snd_cwnd_cnt := cnt\<rparr>,
        ca\<lparr>snd_cwnd_cents := c\<rparr>)"
    using True i by (simp add: hybla_raise_def)
  ultimately show ?thesis
    unfolding if_P [OF True] word_le_nat_alt using True by blast
next
  case False
  define i where "i = rho2_7ls ca div snd_cwnd tp"
  define cnt0 where "cnt0 = (if i < 128 then snd_cwnd_cnt tp + 1 else snd_cwnd_cnt tp)"
  obtain w cnt c where "hybla_carry (snd_cwnd tp + drop_bit 7 i) cnt0 (snd_cwnd_cents ca + i mod 128) = (w, cnt, c)"
    "unat c < 128" "128 * unat w + unat c = 128 * unat (snd_cwnd tp) + unat (snd_cwnd_cents ca) + unat i"
    "unat (snd_cwnd tp) \<le> unat w"
    using hybla_carry_sum [OF assms(3) _ assms(2), of i cnt0] unat_lt_u32 [of i] by auto
  moreover from this(1) have "hybla_raise tp ca =
      Some (tp\<lparr>snd_cwnd := min w (snd_cwnd_clamp tp), snd_cwnd_cnt := cnt\<rparr>, ca\<lparr>snd_cwnd_cents := c\<rparr>)"
    using False assms(1) by (simp add: hybla_raise_def cnt0_def i_def)
  ultimately show ?thesis
    unfolding if_not_P [OF False] word_le_nat_alt using i_def by blast
qed

lemma hybla_raise_total:
  assumes tp: "base_ok 2147483647 tp" and ca: "unat (snd_cwnd_cents ca) < 128" "unat (rho ca) < 32"
  shows "\<exists>tp' ca'. hybla_raise tp ca = Some (tp', ca') \<and> base_ok 2147483647 tp' \<and> hybla_inv True ca' \<and>
    snd_cwnd tp' \<le> snd_cwnd_clamp tp \<and> (snd_cwnd tp < snd_ssthresh tp \<longrightarrow> snd_cwnd tp' \<le> snd_ssthresh tp) \<and>
    min (snd_cwnd tp) (snd_cwnd_clamp tp) \<le> snd_cwnd tp'"
proof -
  have b: "snd_cwnd tp \<noteq> 0" "unat (snd_cwnd tp) < 2 ^ 31" "2 \<le> unat (snd_ssthresh tp)"
    "0 < unat (snd_cwnd_clamp tp)" "unat (snd_cwnd_clamp tp) \<le> 2147483647"
    using tp by (simp_all add: base_ok_def word_le_nat_alt unat_gt_0)
  obtain w cnt c where *: "hybla_raise tp ca =
      Some (tp\<lparr>snd_cwnd := min (if snd_cwnd tp < snd_ssthresh tp then min w (snd_ssthresh tp) else w) (snd_cwnd_clamp tp),
               snd_cwnd_cnt := cnt\<rparr>, ca\<lparr>snd_cwnd_cents := c\<rparr>)"
    "unat c < 128" "snd_cwnd tp \<le> w"
    using hybla_raise_spec [OF b(1,2) ca] by blast
  define w' where "w' = min (if snd_cwnd tp < snd_ssthresh tp then min w (snd_ssthresh tp) else w) (snd_cwnd_clamp tp)"
  have "0 < unat (snd_cwnd tp)" using b(1) by (simp add: unat_gt_0)
  then have w': "0 < unat w'" "w' \<le> snd_cwnd_clamp tp" "snd_cwnd tp < snd_ssthresh tp \<longrightarrow> w' \<le> snd_ssthresh tp"
    "min (snd_cwnd tp) (snd_cwnd_clamp tp) \<le> w'"
    using *(3) b(3,4) by (auto simp: w'_def word_as_nat unat_min)
  then have "w' \<noteq> 0" "w' \<le> 2147483647" using b(5) by (auto simp: word_le_nat_alt)
  with w' * tp ca show ?thesis
    by (simp add: base_ok_def hybla_inv_def flip: w'_def)
qed

lemma hybla_min_rtt_total:
  assumes "unat (snd_cwnd_cents ca) < 128" "unat (rho ca) < 32" "srtt tp < 6400"
  shows "\<exists>ca'. hybla_min_rtt hybla_rtt0 tp ca = Some ca' \<and> hybla_inv True ca'"
proof (cases "srtt tp < hy_minrtt ca")
  case True
  obtain r3 r r7 r2 where "hybla_recalc_param hybla_rtt0 (srtt tp) ca =
      Some (ca\<lparr>rho_3ls := r3, rho := r, rho2_7ls := r7, rho2 := r2\<rparr>)" "unat r < 32"
    using hybla_recalc_rho [OF assms(3)] by blast
  then show ?thesis using True assms by (simp add: hybla_min_rtt_def hybla_inv_def)
next
  case False
  then show ?thesis using assms by (simp add: hybla_min_rtt_def hybla_inv_def)
qed

lemma hybla_cong_avoid_total:
  assumes tp: "base_ok 2147483647 tp" and ca: "hybla_inv True ca" and rtt: "srtt tp < 6400"
  shows "\<exists>tp' ca'. hybla_cong_avoid hybla_rtt0 k ack rtt in_flight flag (tp, ca) = Some (tp', ca') \<and>
    base_ok 2147483647 tp' \<and> hybla_inv True ca'"
proof -
  obtain c1 where c1: "hybla_min_rtt hybla_rtt0 tp ca = Some c1" "hybla_inv True c1"
    using hybla_min_rtt_total ca rtt unfolding hybla_inv_def by blast
  obtain c2 where c2: "(if rho c1 = 0 then hybla_recalc_param hybla_rtt0 (srtt tp) c1 else Some c1) = Some c2"
    "unat (snd_cwnd_cents c2) < 128" "unat (rho c2) < 32"
  proof (cases "rho c1 = 0")
    case True
    then show ?thesis using that hybla_recalc_rho [OF rtt, of c1] c1(2) by (auto simp: hybla_inv_def)
  next
    case False
    then show ?thesis using that [of c1] c1(2) by (auto simp: hybla_inv_def)
  qed
  obtain tp1 where "tcp_reno_cong_avoid k ack rtt in_flight flag tp = Some tp1" "window_grown tp tp1"
    using tcp_reno_cong_avoid_total [OF base_ok_cwnd [OF tp]] by blast
  moreover obtain tp2 ca2 where "hybla_raise tp c2 = Some (tp2, ca2)" "base_ok 2147483647 tp2" "hybla_inv True ca2"
    using hybla_raise_total [OF tp c2(2,3)] by blast
  ultimately show ?thesis
    using c1 c2(1) tp window_grown_base_ok
    by (cases "rho c1 = 0") (simp_all add: hybla_cong_avoid_def)
qed

lemma hybla_init_ok:
  assumes "base_ok 2147483647 tp" "srtt tp < 6400"
  shows "\<exists>tp' ca'. hybla_init hybla_rtt0 k (tp, ca) = Some (tp', ca') \<and> base_ok 2147483647 tp' \<and>
    ack_frame tp tp' \<and> hybla_inv True ca'"
proof -
  let ?ca = "ca\<lparr>rho := 0, rho2 := 0, rho_3ls := 0, rho2_7ls := 0, snd_cwnd_cents := 0, hybla_en := 1\<rparr>"
  obtain r3 r r7 r2 where r: "hybla_recalc_param hybla_rtt0 (srtt tp) ?ca =
      Some (?ca\<lparr>rho_3ls := r3, rho := r, rho2_7ls := r7, rho2 := r2\<rparr>)" "0 < unat r" "unat r < 32"
    using hybla_recalc_rho [OF assms(2), of ?ca] by blast
  have "r \<noteq> 0" "r \<le> 2147483647" using r(2,3) by (auto simp: word_le_nat_alt)
  then show ?thesis using r assms(1) by (simp add: hybla_init_def base_ok_def hybla_inv_def word_le_nat_alt ack_frame_def)
qed

interpretation hybla: cong_module "tcp_hybla hybla_rtt0" hybla_inv "\<lambda>i. in_srtt i < 6400" 2147483647
proof unfold_locales
  fix tp :: tcp_sock and ca i ack in_flight flag
  assume "base_ok 2147483647 tp" "hybla_inv True ca" "in_srtt i < 6400" "ack_seen i tp"
  then show "\<exists>tp' ca'. op_cong_avoid (tcp_hybla hybla_rtt0) (in_kern i) ack (in_seq_rtt i) in_flight flag (tp, ca) =
      Some (tp', ca') \<and> base_ok 2147483647 tp' \<and> hybla_inv True ca'"
    using hybla_cong_avoid_total by (simp add: tcp_hybla_def ack_seen_def)
next
  fix tp :: tcp_sock and ca g i
  assume "op_init (tcp_hybla hybla_rtt0) = Some g" "base_ok 2147483647 tp" "in_srtt i < 6400" "ack_seen i tp"
  then show "\<exists>tp' ca'. g (in_kern i) (tp, ca) = Some (tp', ca') \<and> base_ok 2147483647 tp' \<and> ack_frame tp tp' \<and>
      hybla_inv True ca'"
    using hybla_init_ok [of tp "in_kern i" ca] by (auto simp: tcp_hybla_def ack_seen_def)
next
  fix tp :: tcp_sock and b ca k
  assume "base_ok 2147483647 tp" "hybla_inv b ca"
  then show "\<exists>v tp' ca'. op_ssthresh (tcp_hybla hybla_rtt0) k (tp, ca) = Some (v, (tp', ca')) \<and> 2 \<le> v \<and>
      v \<le> 2147483647 \<and> base_ok 2147483647 tp' \<and> hybla_inv b ca'"
    using tcp_reno_ssthresh_ge tcp_reno_ssthresh_le [of 2147483647 tp] by (simp add: tcp_hybla_def base_ok_def)
next
  fix f :: "kern \<Rightarrow> hybla sock \<Rightarrow> u32 option" and tp ca k
  assume "op_min_cwnd (tcp_hybla hybla_rtt0) = Some f" "base_ok 2147483647 tp"
  then show "\<exists>w. f k (tp, ca) = Some w \<and> w \<noteq> 0 \<and> w \<le> 2147483647"
    by (auto simp: tcp_hybla_def base_ok_def tcp_reno_min_cwnd_neq_0 tcp_reno_min_cwnd_le)
next
  fix h and tp :: tcp_sock and b ca k st
  assume "op_set_state (tcp_hybla hybla_rtt0) = Some h" "base_ok 2147483647 tp" "hybla_inv b ca"
  then show "\<exists>tp' ca'. h k st (tp, ca) = Some (tp', ca') \<and> base_ok 2147483647 tp' \<and> hybla_inv b ca'"
    by (auto simp: tcp_hybla_def hybla_state_def hybla_inv_def)
qed (simp_all add: tcp_hybla_def)

subsection \<open>Properties\<close>

text \<open>
  In congestion avoidance Hybla adds \<open>rho ^ 2 / w\<close> in 128ths of a packet and loses nothing: the
  window and the fraction together grow by exactly that increment (here before the clamp applies), the
  fraction stays below one packet, and the new window is capped by the clamp only.
\<close>

theorem hybla_increment_exact:
  assumes "snd_cwnd tp \<noteq> 0" "unat (snd_cwnd tp) < 2 ^ 31" "snd_ssthresh tp \<le> snd_cwnd tp"
    and "unat (snd_cwnd_cents ca) < 128" "0 < unat (rho ca)" "unat (rho ca) < 32"
    and "snd_cwnd tp \<le> in_flight" "hybla_en ca \<noteq> 0" "hy_minrtt ca \<le> srtt tp"
  shows "\<exists>w tp' ca'. hybla_cong_avoid rtt0 k ack rtt in_flight flag (tp, ca) = Some (tp', ca') \<and>
    128 * unat w + unat (snd_cwnd_cents ca') =
      128 * unat (snd_cwnd tp) + unat (snd_cwnd_cents ca) + unat (rho2_7ls ca) div unat (snd_cwnd tp) \<and>
    unat (snd_cwnd_cents ca') < 128 \<and> snd_cwnd tp' = min w (snd_cwnd_clamp tp)"
proof -
  have ss: "\<not> snd_cwnd tp < snd_ssthresh tp" "\<not> srtt tp < hy_minrtt ca" "rho ca \<noteq> 0"
    using assms(3,5,9) by auto
  obtain w cnt c where *: "hybla_raise tp ca =
      Some (tp\<lparr>snd_cwnd := min w (snd_cwnd_clamp tp), snd_cwnd_cnt := cnt\<rparr>, ca\<lparr>snd_cwnd_cents := c\<rparr>)"
    "unat c < 128"
    "128 * unat w + unat c = 128 * unat (snd_cwnd tp) + unat (snd_cwnd_cents ca) + unat (rho2_7ls ca div snd_cwnd tp)"
    using hybla_raise_spec [OF assms(1,2,4,6)] ss(1) by auto
  have "hybla_cong_avoid rtt0 k ack rtt in_flight flag (tp, ca) =
      Some (tp\<lparr>snd_cwnd := min w (snd_cwnd_clamp tp), snd_cwnd_cnt := cnt\<rparr>, ca\<lparr>snd_cwnd_cents := c\<rparr>)"
    using *(1) ss assms(7,8) by (simp add: hybla_cong_avoid_def hybla_min_rtt_def tcp_is_cwnd_limited_def)
  then show ?thesis using *(2,3) by (intro exI [of _ w]) (simp add: unat_div_word)
qed

definition example_hybla :: hybla where
  "example_hybla = \<lparr>hybla_en = 1, snd_cwnd_cents = 100, rho = 4, rho2 = 16, rho_3ls = 32,
     rho2_7ls = 2048, hy_minrtt = 800\<rparr>"

theorem hybla_increment_exact_witness:
  "\<exists>(w :: u32) tp' ca'. hybla_cong_avoid 25 example_kern 1 0 4 0 (example_sock 2, example_hybla) = Some (tp', ca') \<and>
     128 * unat w + unat (snd_cwnd_cents ca') = 128 * 4 + 100 + 512"
  using hybla_increment_exact [of "example_sock 2" example_hybla 4 25 example_kern 1 0 0]
  by (simp add: example_hybla_def) blast

text \<open>
  The window Hybla leaves is positive, not below the old one (up to the clamp), within the clamp, and in
  slow start within the threshold, whatever the increment, provided \<open>rho\<close> is below 32.
\<close>

theorem hybla_window_bounds:
  assumes "base_ok 2147483647 tp" "unat (snd_cwnd_cents ca) < 128" "unat (rho ca) < 32" "rho ca \<noteq> 0"
    and "snd_cwnd tp \<le> in_flight" "hybla_en ca \<noteq> 0" "hy_minrtt ca \<le> srtt tp"
  shows "\<exists>tp' ca'. hybla_cong_avoid rtt0 k ack rtt in_flight flag (tp, ca) = Some (tp', ca') \<and>
    snd_cwnd tp' \<noteq> 0 \<and> min (snd_cwnd tp) (snd_cwnd_clamp tp) \<le> snd_cwnd tp' \<and>
    snd_cwnd tp' \<le> snd_cwnd_clamp tp \<and>
    (if snd_cwnd tp < snd_ssthresh tp then snd_cwnd tp' \<le> snd_ssthresh tp else True)"
proof -
  obtain tp' ca' where "hybla_raise tp ca = Some (tp', ca')" "base_ok 2147483647 tp'"
    "snd_cwnd tp' \<le> snd_cwnd_clamp tp" "snd_cwnd tp < snd_ssthresh tp \<longrightarrow> snd_cwnd tp' \<le> snd_ssthresh tp"
    "min (snd_cwnd tp) (snd_cwnd_clamp tp) \<le> snd_cwnd tp'"
    using hybla_raise_total [OF assms(1-3)] by blast
  moreover have "\<not> srtt tp < hy_minrtt ca" using assms(7) by simp
  ultimately show ?thesis
    using assms(4-6) by (simp add: hybla_cong_avoid_def hybla_min_rtt_def tcp_is_cwnd_limited_def base_ok_def)
qed

theorem hybla_window_bounds_witness:
  "\<exists>tp' ca'. hybla_cong_avoid 25 example_kern 1 0 4 0 (example_sock 9, example_hybla) = Some (tp', ca') \<and>
     snd_cwnd tp' \<le> 9"
proof -
  have "base_ok 2147483647 (example_sock 9)" by (simp add: base_ok_def)
  then show ?thesis
    using hybla_window_bounds [of "example_sock 9" example_hybla 4 25 example_kern 1 0 0]
    by (auto simp: example_hybla_def)
qed

text \<open>
  On a path with a round-trip time of 800 ms or more (\<open>srtt\<close> of 6400 eighths of a millisecond) and the
  default reference of 25 ms, \<open>init\<close> computes a \<open>rho\<close> of at least 32 and sets the window to it; the
  first acknowledgement in slow start then evaluates \<open>1 << rho\<close>, a shift by the width of the type or
  more, which C leaves undefined.
\<close>

theorem hybla_shift_undefined:
  assumes "6400 \<le> srtt tp"
  shows "\<exists>tp1 ca1. hybla_init hybla_rtt0 k (tp, ca) = Some (tp1, ca1) \<and> 32 \<le> unat (snd_cwnd tp1) \<and>
    hybla_cong_avoid hybla_rtt0 k ack rtt (snd_cwnd tp1) flag (tp1\<lparr>snd_ssthresh := snd_cwnd tp1 + 1\<rparr>, ca1) = None"
proof -
  let ?ca = "ca\<lparr>rho := 0, rho2 := 0, rho_3ls := 0, rho2_7ls := 0, snd_cwnd_cents := 0, hybla_en := 1\<rparr>"
  obtain c where c: "hybla_recalc_param hybla_rtt0 (srtt tp) ?ca = Some c" "32 \<le> unat (rho c)"
    "unat (rho c) < 2 ^ 25" "hybla_en c = 1"
    using hybla_recalc_rho_large [OF assms, of ?ca] by auto
  have init: "hybla_init hybla_rtt0 k (tp, ca) =
      Some (tp\<lparr>snd_cwnd := rho c, snd_cwnd_clamp := 65535\<rparr>, c\<lparr>hy_minrtt := srtt tp\<rparr>)"
    using c(1) by (simp add: hybla_init_def)
  have "rho c \<noteq> 0" "rho c < rho c + 1" using c(2,3) by (auto simp: word_less_nat_alt unat_inc)
  then show ?thesis
    using c(2,4) unfolding init
    by (simp add: hybla_cong_avoid_def hybla_min_rtt_def tcp_is_cwnd_limited_def hybla_raise_def hybla_ss_increment_def)
qed

theorem hybla_shift_undefined_witness:
  "\<exists>tp1 ca1. hybla_init hybla_rtt0 example_kern ((example_sock 9)\<lparr>srtt := 6400\<rparr>, example_hybla) = Some (tp1, ca1) \<and>
     32 \<le> unat (snd_cwnd tp1)"
proof -
  have "6400 \<le> srtt ((example_sock 9)\<lparr>srtt := 6400\<rparr>)" by simp
  from hybla_shift_undefined [OF this, of example_kern example_hybla 1 0 0] show ?thesis by blast
qed

end
