(* ===== verification/Bic.thy ===== *)
theory Bic
  imports Reno
begin

section \<open>BIC TCP (\<open>src/tcp_bic.c\<close>)\<close>

text \<open>
  Binary increase: below the window of the last loss BIC searches it by bisection, beyond it probes
  for more, and turns the step into \<open>cnt\<close>, the number of acknowledgements per packet of growth. The
  module parameters are the record \<open>bic_params\<close>. The lemmas bound \<open>cnt\<close> in every region (so the
  growth per window lies between \<open>4 / smooth_part\<close> and \<open>max_increment\<close> packets), show that no
  division of \<open>bictcp_update\<close> traps, and give the decrease and the average of the delayed
  acknowledgements.
\<close>

record bic_params =
  bic_fast_convergence :: s32
  bic_max_increment :: s32
  bic_low_window :: s32
  bic_beta :: s32
  bic_initial_ssthresh :: s32
  bic_smooth_part :: s32

definition bic_defaults :: bic_params where
  "bic_defaults = \<lparr>bic_fast_convergence = 1, bic_max_increment = 16, bic_low_window = 14,
     bic_beta = 819, bic_initial_ssthresh = 0, bic_smooth_part = 20\<rparr>"

abbreviation (input) BICTCP_BETA_SCALE :: u32 where "BICTCP_BETA_SCALE \<equiv> 1024"
abbreviation (input) BICTCP_B :: u32 where "BICTCP_B \<equiv> 4"

record bictcp =
  bic_cnt :: u32
  bic_last_max_cwnd :: u32
  bic_loss_cwnd :: u32
  bic_last_cwnd :: u32
  bic_last_time :: u32
  bic_epoch_start :: u32
  bic_delayed_ack :: u32

definition bictcp_reset :: "bictcp \<Rightarrow> bictcp" where
  "bictcp_reset ca =
     ca\<lparr>bic_cnt := 0, bic_last_max_cwnd := 0, bic_loss_cwnd := 0, bic_last_cwnd := 0, bic_last_time := 0,
        bic_epoch_start := 0, bic_delayed_ack := push_bit 4 2\<rparr>"

definition bictcp_init :: "bic_params \<Rightarrow> kern \<Rightarrow> bictcp sock \<Rightarrow> bictcp sock option" where
  "bictcp_init p k s =
     Some ((if bic_initial_ssthresh p \<noteq> 0 then (fst s)\<lparr>snd_ssthresh := bic_initial_ssthresh p\<rparr> else fst s),
           bictcp_reset (snd s))"

text \<open>The step of the search, as acknowledgements per packet: the regions below the last maximum
  and beyond it.\<close>

definition bic_search_cnt :: "bic_params \<Rightarrow> u32 \<Rightarrow> u32 \<Rightarrow> u32 option" where
  "bic_search_cnt p last_max cwnd =
     (if cwnd < last_max
      then let dist = (last_max - cwnd) div BICTCP_B in
           if bic_max_increment p < dist then cdiv cwnd (bic_max_increment p)
           else if dist \<le> 1 then Some ((cwnd * bic_smooth_part p) div BICTCP_B)
           else cdiv cwnd dist
      else if cwnd < last_max + BICTCP_B then Some ((cwnd * bic_smooth_part p) div BICTCP_B)
      else if cwnd < last_max + bic_max_increment p * (BICTCP_B - 1)
      then cdiv (cwnd * (BICTCP_B - 1)) (cwnd - last_max)
      else cdiv cwnd (bic_max_increment p))"

definition bictcp_update :: "bic_params \<Rightarrow> kern \<Rightarrow> u32 \<Rightarrow> bictcp \<Rightarrow> bictcp option" where
  "bictcp_update p k cwnd ca =
     (if bic_last_cwnd ca = cwnd \<and> sint (tcp_time_stamp k - bic_last_time ca) \<le> 31 then Some ca
      else let ca = ca\<lparr>bic_last_cwnd := cwnd, bic_last_time := tcp_time_stamp k,
                       bic_epoch_start := (if bic_epoch_start ca = 0 then tcp_time_stamp k else bic_epoch_start ca)\<rparr> in
           if cwnd \<le> bic_low_window p then Some (ca\<lparr>bic_cnt := cwnd\<rparr>)
           else do {
             cnt \<leftarrow> bic_search_cnt p (bic_last_max_cwnd ca) cwnd;
             let cnt = (if bic_loss_cwnd ca = 0 \<and> 20 < cnt then 20 else cnt) in
             do {
               cnt \<leftarrow> cdiv (push_bit 4 cnt) (bic_delayed_ack ca);
               Some (ca\<lparr>bic_cnt := (if cnt = 0 then 1 else cnt)\<rparr>)
             }
           })"

definition bictcp_cong_avoid ::
  "bic_params \<Rightarrow> kern \<Rightarrow> u32 \<Rightarrow> u32 \<Rightarrow> u32 \<Rightarrow> s32 \<Rightarrow> bictcp sock \<Rightarrow> bictcp sock option" where
  "bictcp_cong_avoid p k ack seq_rtt in_flight data_acked s =
     (if \<not> tcp_is_cwnd_limited (fst s) in_flight then Some s
      else if snd_cwnd (fst s) \<le> snd_ssthresh (fst s) then on_sock (tcp_slow_start k) s
      else do {
        ca \<leftarrow> bictcp_update p k (snd_cwnd (fst s)) (snd s);
        Some (ai_step (bic_cnt ca) (fst s), ca)
      })"

definition bictcp_recalc_ssthresh :: "bic_params \<Rightarrow> bictcp sock \<Rightarrow> u32 \<times> bictcp sock" where
  "bictcp_recalc_ssthresh p s =
     (let w = snd_cwnd (fst s); ca = snd s;
          last_max = (if w < bic_last_max_cwnd ca \<and> bic_fast_convergence p \<noteq> 0
                      then (w * (BICTCP_BETA_SCALE + bic_beta p)) div (2 * BICTCP_BETA_SCALE)
                      else w)
      in (if w \<le> bic_low_window p then max (drop_bit 1 w) 2
          else max ((w * bic_beta p) div BICTCP_BETA_SCALE) 2,
          (fst s, ca\<lparr>bic_epoch_start := 0, bic_last_max_cwnd := last_max, bic_loss_cwnd := w\<rparr>)))"

definition bictcp_undo_cwnd :: "bictcp sock \<Rightarrow> u32" where
  "bictcp_undo_cwnd s = max (snd_cwnd (fst s)) (bic_last_max_cwnd (snd s))"

definition bictcp_state :: "kern \<Rightarrow> u8 \<Rightarrow> bictcp sock \<Rightarrow> bictcp sock option" where
  "bictcp_state k new_state s =
     Some (if new_state = TCP_CA_Loss then (fst s, bictcp_reset (snd s)) else s)"

definition bictcp_acked :: "kern \<Rightarrow> u32 \<Rightarrow> s64 \<Rightarrow> bictcp sock \<Rightarrow> bictcp sock option" where
  "bictcp_acked k cnt last_t s =
     Some (if 0 < cnt \<and> icsk_ca_state (fst s) = TCP_CA_Open
           then (fst s, (snd s)\<lparr>bic_delayed_ack := bic_delayed_ack (snd s) + (cnt - drop_bit 4 (bic_delayed_ack (snd s)))\<rparr>)
           else s)"

definition bictcp_ops :: "bic_params \<Rightarrow> bictcp tcp_congestion_ops" where
  "bictcp_ops p =
     \<lparr>op_flags = 0,
      op_name = ''bic'',
      op_init = Some (bictcp_init p),
      op_ssthresh = (\<lambda>k s. Some (bictcp_recalc_ssthresh p s)),
      op_min_cwnd = None,
      op_cong_avoid = bictcp_cong_avoid p,
      op_rtt_sample = None,
      op_set_state = Some bictcp_state,
      op_cwnd_event = None,
      op_undo_cwnd = Some (\<lambda>k s. Some (bictcp_undo_cwnd s, s)),
      op_pkts_acked = Some bictcp_acked\<rparr>"

subsection \<open>The count\<close>

lemma bic_defaults_simps [simp]:
  "bic_fast_convergence bic_defaults = 1" "bic_max_increment bic_defaults = 16"
  "bic_low_window bic_defaults = 14" "bic_beta bic_defaults = 819"
  "bic_initial_ssthresh bic_defaults = 0" "bic_smooth_part bic_defaults = 20"
  by (simp_all add: bic_defaults_def)

text \<open>No division of the search traps, whatever the window, below \<open>2 ^ 31\<close>.\<close>

lemma bic_search_cnt_total:
  assumes "unat last_max < 2 ^ 31"
  shows "\<exists>c. bic_search_cnt bic_defaults last_max cwnd = Some c"
proof -
  have "unat (last_max + 4) = unat last_max + 4"
    using assms unat_add_nowrap [of last_max 4] by simp
  then have "cwnd - last_max \<noteq> 0" if "\<not> cwnd < last_max + 4"
    using that by (auto simp: word_less_nat_alt)
  moreover have "d \<noteq> 0" if "\<not> d \<le> 1" for d :: u32
    using that by auto
  ultimately show ?thesis
    by (auto simp: bic_search_cnt_def Let_def)
qed

text \<open>The growth per window of acknowledgements is at most 16 packets and at least a fifth of one.\<close>

lemma bic_search_cnt_bounds:
  assumes w: "unat cwnd \<le> 214748364" and m: "unat last_max < 2 ^ 31"
    and c: "bic_search_cnt bic_defaults last_max cwnd = Some c"
  shows "unat cwnd div 16 \<le> unat c \<and> unat c \<le> 5 * unat cwnd"
proof -
  let ?w = "unat cwnd" and ?m = "unat last_max"
  have mul: "unat (cwnd * 20) = ?w * 20" "unat (cwnd * 3) = ?w * 3"
    using w unat_mult_nowrap [of cwnd 20] unat_mult_nowrap [of cwnd 3] by simp_all
  have add: "unat (last_max + 4) = ?m + 4" "unat (last_max + 48) = ?m + 48"
    using m unat_add_nowrap [of last_max 4] unat_add_nowrap [of last_max 48] by simp_all
  have *: "unat (cwnd div 16) = ?w div 16" "unat (cwnd * 20 div 4) = ?w * 20 div 4"
    using mul by (simp_all add: unat_div_word)
  consider "cwnd < last_max" "c = cwnd div 16" | "cwnd < last_max" "c = cwnd * 20 div 4"
    | "cwnd < last_max" "\<not> 16 < (last_max - cwnd) div 4" "\<not> (last_max - cwnd) div 4 \<le> 1"
      "c = cwnd div ((last_max - cwnd) div 4)"
    | "\<not> cwnd < last_max" "c = cwnd * 20 div 4" | "\<not> cwnd < last_max" "c = cwnd div 16"
    | "\<not> cwnd < last_max" "\<not> cwnd < last_max + 4" "cwnd < last_max + 48"
      "c = cwnd * 3 div (cwnd - last_max)"
    using c by (auto simp: bic_search_cnt_def Let_def cdiv_eq_Some_iff split: if_splits)
  then show ?thesis
  proof cases
    case 3
    define d where "d = unat ((last_max - cwnd) div 4)"
    have d: "2 \<le> d" "d \<le> 16"
      using 3(2,3) by (simp_all add: d_def word_le_nat_alt word_less_nat_alt)
    have "unat c = ?w div d" using 3(4) by (simp add: d_def unat_div_word)
    moreover have "?w div 16 \<le> ?w div d" using d by (intro div_le_mono2) simp_all
    moreover have "?w div d \<le> ?w" by simp
    ultimately show ?thesis by linarith
  next
    case 6
    define d where "d = unat (cwnd - last_max)"
    have "d = ?w - ?m" using 6(1) by (simp add: d_def unat_sub_le not_less)
    then have d: "4 \<le> d" "d \<le> 48"
      using 6(2,3) add by (simp_all add: word_less_nat_alt)
    have "unat c = ?w * 3 div d" using 6(4) mul by (simp add: d_def unat_div_word)
    moreover have "?w * 3 div 48 \<le> ?w * 3 div d" using d by (intro div_le_mono2) simp_all
    moreover have "?w * 3 div d \<le> ?w * 3" by simp
    moreover have "?w * 3 div 48 = ?w div 16" using div_mult_mult2 [of 3 ?w 16] by simp
    ultimately show ?thesis by linarith
  qed (use * in auto)
qed

subsection \<open>The operations\<close>

text \<open>The last maximum stays a window; once \<open>init\<close> has run, the average of packets per
  acknowledgement is positive and bounded, for samples of at most \<open>2 ^ 27\<close> packets.\<close>

definition bic_inv :: "bool \<Rightarrow> bictcp \<Rightarrow> bool" where
  "bic_inv b ca \<longleftrightarrow> unat (bic_last_max_cwnd ca) < 2 ^ 31 \<and>
     (b \<longrightarrow> 0 < unat (bic_delayed_ack ca) \<and> unat (bic_delayed_ack ca) \<le> 2 ^ 31)"

lemma bictcp_reset_inv: "bic_inv b (bictcp_reset ca)"
  by (simp add: bic_inv_def bictcp_reset_def)

lemma bictcp_update_total:
  assumes "bic_inv True ca"
  shows "\<exists>ca'. bictcp_update bic_defaults k cwnd ca = Some ca' \<and> bic_inv True ca'"
proof -
  obtain c where c: "bic_search_cnt bic_defaults (bic_last_max_cwnd ca) cwnd = Some c"
    using bic_search_cnt_total assms unfolding bic_inv_def by blast
  have "bic_delayed_ack ca \<noteq> 0" using assms by (simp add: bic_inv_def word_neq_0_iff_unat)
  then show ?thesis
    using c assms by (auto simp: bictcp_update_def Let_def bic_inv_def)
qed

lemma bictcp_cong_avoid_total:
  assumes tp: "base_ok cap tp" and ca: "bic_inv True ca"
  shows "\<exists>tp' ca'. bictcp_cong_avoid bic_defaults k ack rtt in_flight flag (tp, ca) = Some (tp', ca') \<and>
    base_ok cap tp' \<and> bic_inv True ca'"
proof -
  obtain tp1 where "tcp_slow_start k tp = Some tp1" "window_grown tp tp1"
    using tcp_slow_start_total [OF base_ok_cwnd [OF tp]] by blast
  moreover obtain ca1 where "bictcp_update bic_defaults k (snd_cwnd tp) ca = Some ca1" "bic_inv True ca1"
    using bictcp_update_total [OF ca] by blast
  ultimately show ?thesis
    using tp ca window_grown_base_ok ai_step_base_ok by (simp add: bictcp_cong_avoid_def)
qed

lemma bictcp_recalc_bounds:
  assumes "unat (snd_cwnd tp) < 2 ^ 31"
  shows "\<exists>v ca'. bictcp_recalc_ssthresh bic_defaults (tp, ca) = (v, (tp, ca')) \<and> 2 \<le> v \<and> unat v < 2 ^ 31 \<and>
    bic_delayed_ack ca' = bic_delayed_ack ca \<and> unat (bic_last_max_cwnd ca') < 2 ^ 31"
proof -
  let ?w = "snd_cwnd tp"
  have "unat (?w * 1843 div 2048) < 2 ^ 31" "unat (?w * 819 div 1024) < 2 ^ 31"
    using unat_lt_u32 [of "?w * 1843"] unat_lt_u32 [of "?w * 819"]
    by (simp_all add: unat_div_word div_less_iff_less_mult)
  moreover have "unat (drop_bit 1 ?w) < 2 ^ 31"
    using assms by (simp add: unat_drop_bit_div)
  moreover have "2 \<le> max (drop_bit 1 ?w) 2" "2 \<le> max (?w * 819 div 1024) 2"
    by (rule max.cobounded2)+
  ultimately show ?thesis
    using assms by (simp add: bictcp_recalc_ssthresh_def Let_def unat_max)
qed

lemma bictcp_acked_inv:
  assumes "bic_inv True ca" "unat cnt \<le> 2 ^ 27"
  shows "\<exists>ca'. bictcp_acked k cnt t (tp, ca) = Some (tp, ca') \<and> bic_inv True ca'"
proof (cases "0 < cnt \<and> icsk_ca_state tp = TCP_CA_Open")
  case True
  have "0 < unat cnt" using True by (simp add: word_less_nat_alt)
  then show ?thesis
    using True assms delayed_ack_average [of "bic_delayed_ack ca" "2 ^ 27" cnt]
    by (simp add: bictcp_acked_def bic_inv_def)
next
  case False
  then show ?thesis using assms by (auto simp: bictcp_acked_def)
qed

interpretation bic: cong_module "bictcp_ops bic_defaults" bic_inv "\<lambda>i. unat (in_acked i) \<le> 2 ^ 27" 2147483647
proof unfold_locales
  fix tp :: tcp_sock and b ca k
  assume tp: "base_ok 2147483647 tp" and ca: "bic_inv b ca"
  then have "unat (snd_cwnd tp) < 2 ^ 31" by (simp add: base_ok_def word_le_nat_alt)
  then show "\<exists>v tp' ca'. op_ssthresh (bictcp_ops bic_defaults) k (tp, ca) = Some (v, (tp', ca')) \<and> 2 \<le> v \<and>
      v \<le> 2147483647 \<and> base_ok 2147483647 tp' \<and> bic_inv b ca'"
    using tp ca bictcp_recalc_bounds [of tp ca] by (auto simp: bictcp_ops_def bic_inv_def word_le_nat_alt)
next
  fix tp :: tcp_sock and ca i ack in_flight flag
  assume "base_ok 2147483647 tp" "bic_inv True ca"
  then show "\<exists>tp' ca'. op_cong_avoid (bictcp_ops bic_defaults) (in_kern i) ack (in_seq_rtt i) in_flight flag (tp, ca) =
      Some (tp', ca') \<and> base_ok 2147483647 tp' \<and> bic_inv True ca'"
    using bictcp_cong_avoid_total by (simp add: bictcp_ops_def)
next
  fix tp :: tcp_sock and ca i p
  assume "op_pkts_acked (bictcp_ops bic_defaults) = Some p" "base_ok 2147483647 tp" "bic_inv True ca"
    "unat (in_acked i) \<le> 2 ^ 27"
  then show "\<exists>tp' ca'. p (in_kern i) (in_acked i) (in_last_ackt i) (tp, ca) = Some (tp', ca') \<and>
      base_ok 2147483647 tp' \<and> ack_frame tp tp' \<and> bic_inv True ca'"
    using bictcp_acked_inv [of ca "in_acked i" "in_kern i" "in_last_ackt i" tp] by (auto simp: bictcp_ops_def)
next
  fix tp :: tcp_sock and ca i g
  assume "op_init (bictcp_ops bic_defaults) = Some g" "base_ok 2147483647 tp"
  then show "\<exists>tp' ca'. g (in_kern i) (tp, ca) = Some (tp', ca') \<and> base_ok 2147483647 tp' \<and> ack_frame tp tp' \<and>
      bic_inv True ca'"
    by (auto simp: bictcp_ops_def bictcp_init_def bictcp_reset_inv)
next
  fix h and tp :: tcp_sock and b ca k st
  assume "op_set_state (bictcp_ops bic_defaults) = Some h" "base_ok 2147483647 tp" "bic_inv b ca"
  then show "\<exists>tp' ca'. h k st (tp, ca) = Some (tp', ca') \<and> base_ok 2147483647 tp' \<and> bic_inv b ca'"
    by (auto simp: bictcp_ops_def bictcp_state_def bictcp_reset_inv)
qed (simp_all add: bictcp_ops_def)

subsection \<open>Properties\<close>

text \<open>
  An update of BIC above the low window always yields a positive count: the step of the search
  (between \<open>w / 16\<close> and \<open>5 w\<close> acknowledgements per packet), at most 20 before the first loss,
  scaled by the average of packets per acknowledgement and never 0.
\<close>

theorem bictcp_update_cnt:
  assumes "14 < unat cwnd" "unat cwnd \<le> 53687091" "unat (bic_last_max_cwnd ca) < 2 ^ 31" "bic_delayed_ack ca \<noteq> 0"
    and "bic_last_cwnd ca \<noteq> cwnd"
  shows "\<exists>ca' c. bictcp_update bic_defaults k cwnd ca = Some ca' \<and>
    bic_search_cnt bic_defaults (bic_last_max_cwnd ca) cwnd = Some c \<and>
    unat cwnd div 16 \<le> unat c \<and> unat c \<le> 5 * unat cwnd \<and>
    unat (bic_cnt ca') =
      max 1 ((if bic_loss_cwnd ca = 0 then min (unat c) 20 else unat c) * 16 div unat (bic_delayed_ack ca))"
proof -
  obtain c where c: "bic_search_cnt bic_defaults (bic_last_max_cwnd ca) cwnd = Some c"
    using bic_search_cnt_total [OF assms(3)] by blast
  have b: "unat cwnd div 16 \<le> unat c \<and> unat c \<le> 5 * unat cwnd"
    using bic_search_cnt_bounds [OF _ assms(3) c] assms(2) by simp
  define c1 where "c1 = (if bic_loss_cwnd ca = 0 \<and> 20 < c then 20 else c)"
  have c1: "unat c1 = (if bic_loss_cwnd ca = 0 then min (unat c) 20 else unat c)"
    by (auto simp: c1_def word_less_nat_alt)
  have "push_bit 4 c1 = c1 * 16" by (simp add: push_bit_eq_mult)
  moreover have "unat (c1 * 16) = unat c1 * 16"
    using b c1 assms(2) unat_mult_nowrap [of c1 16] by auto
  ultimately have q: "unat (push_bit 4 c1 div bic_delayed_ack ca) = unat c1 * 16 div unat (bic_delayed_ack ca)"
    by (simp add: unat_div_word)
  have "\<not> cwnd \<le> 14" using assms(1) by (simp add: word_le_nat_alt)
  then obtain ca' where "bictcp_update bic_defaults k cwnd ca = Some ca'"
    "bic_cnt ca' = (if push_bit 4 c1 div bic_delayed_ack ca = 0 then 1 else push_bit 4 c1 div bic_delayed_ack ca)"
    using assms(4,5) c by (simp add: bictcp_update_def Let_def c1_def)
  moreover from this(2) have "unat (bic_cnt ca') = max 1 (unat c1 * 16 div unat (bic_delayed_ack ca))"
    using q by (metis max_def nat_neq_iff less_one linorder_not_less unat_eq_zero unat_1 not_less_eq_eq One_nat_def)
  ultimately show ?thesis using c b c1 by auto
qed

definition example_bic :: bictcp where
  "example_bic = \<lparr>bic_cnt = 0, bic_last_max_cwnd = 200, bic_loss_cwnd = 200, bic_last_cwnd = 0,
     bic_last_time = 0, bic_epoch_start = 0, bic_delayed_ack = 32\<rparr>"

theorem bictcp_update_cnt_witness:
  "\<exists>ca' c. bictcp_update bic_defaults example_kern 100 example_bic = Some ca' \<and>
     bic_search_cnt bic_defaults 200 100 = Some c \<and> unat c \<le> 500 \<and>
     unat (bic_cnt ca') = max 1 (unat c * 16 div 32)"
  using bictcp_update_cnt [of 100 example_bic example_kern] by (auto simp: example_bic_def)

text \<open>
  BIC after a loss, for windows up to \<open>2 ^ 21\<close>: Reno's half up to the low window of 14 packets, and
  \<open>819 / 1024\<close> of the window above it; the maximum it will search for is the window, or
  \<open>1843 / 2048\<close> of it when the window had not reached the last maximum (fast convergence). The
  threshold is within 2 and the window.
\<close>

theorem bictcp_recalc_ssthresh_correct:
  assumes "unat (snd_cwnd tp) \<le> 2 ^ 21"
  shows "\<exists>v ca'. bictcp_recalc_ssthresh bic_defaults (tp, ca) = (v, (tp, ca')) \<and>
    unat v = (if unat (snd_cwnd tp) \<le> 14 then max (unat (snd_cwnd tp) div 2) 2 else unat (snd_cwnd tp) * 819 div 1024) \<and>
    2 \<le> unat v \<and> unat v \<le> max (unat (snd_cwnd tp)) 2 \<and>
    unat (bic_last_max_cwnd ca') =
      (if snd_cwnd tp < bic_last_max_cwnd ca then unat (snd_cwnd tp) * 1843 div 2048 else unat (snd_cwnd tp)) \<and>
    bic_loss_cwnd ca' = snd_cwnd tp \<and> bic_epoch_start ca' = 0"
proof -
  let ?w = "snd_cwnd tp"
  have m: "unat (?w * 1843) = unat ?w * 1843" "unat (?w * 819) = unat ?w * 819"
    using assms unat_mult_nowrap [of ?w 1843] unat_mult_nowrap [of ?w 819] by simp_all
  have le: "unat ?w * 819 div 1024 \<le> unat ?w"
  proof -
    have "unat ?w * 819 div 1024 \<le> unat ?w * 1024 div 1024" by (intro div_le_mono) simp
    then show ?thesis by simp
  qed
  have ge: "3 \<le> unat ?w * 819 div 1024" if "14 < unat ?w"
    using that by (simp add: less_eq_div_iff_mult_less_eq)
  have v: "unat (if ?w \<le> 14 then max (drop_bit 1 ?w) 2 else max (?w * 819 div 1024) 2) =
      (if unat ?w \<le> 14 then max (unat ?w div 2) 2 else unat ?w * 819 div 1024)"
  proof (cases "unat ?w \<le> 14")
    case True
    then show ?thesis by (simp add: word_le_nat_alt unat_ops)
  next
    case False
    then show ?thesis using ge m by (simp add: word_le_nat_alt unat_ops)
  qed
  have l: "unat (if ?w < bic_last_max_cwnd ca then ?w * 1843 div 2048 else ?w) =
      (if ?w < bic_last_max_cwnd ca then unat ?w * 1843 div 2048 else unat ?w)"
    using m by (simp add: unat_div_word)
  have "2 \<le> unat (if ?w \<le> 14 then max (drop_bit 1 ?w) 2 else max (?w * 819 div 1024) 2)"
    "unat (if ?w \<le> 14 then max (drop_bit 1 ?w) 2 else max (?w * 819 div 1024) 2) \<le> max (unat ?w) 2"
    unfolding v using le ge by (cases "unat ?w \<le> 14"; force)+
  note facts = this v l
  obtain u ca' where e: "bictcp_recalc_ssthresh bic_defaults (tp, ca) = (u, (tp, ca'))"
    "u = (if ?w \<le> 14 then max (drop_bit 1 ?w) 2 else max (?w * 819 div 1024) 2)"
    "bic_last_max_cwnd ca' = (if ?w < bic_last_max_cwnd ca then ?w * 1843 div 2048 else ?w)"
    "bic_loss_cwnd ca' = ?w" "bic_epoch_start ca' = 0"
    by (simp add: bictcp_recalc_ssthresh_def Let_def)
  show ?thesis using e(1,4,5) facts [folded e(2,3)] by blast
qed

theorem bictcp_recalc_ssthresh_correct_witness:
  "\<exists>v ca'. bictcp_recalc_ssthresh bic_defaults ((example_sock 2)\<lparr>snd_cwnd := 100\<rparr>, example_bic) =
       (v, ((example_sock 2)\<lparr>snd_cwnd := 100\<rparr>, ca')) \<and> unat v = 79 \<and> unat (bic_last_max_cwnd ca') = 89"
  using bictcp_recalc_ssthresh_correct [of "(example_sock 2)\<lparr>snd_cwnd := 100\<rparr>" example_bic]
  by (auto simp: example_bic_def)

end
