(* ===== verification/Kernel_Util.thy ===== *)
theory Kernel_Util
  imports Tcp_Sock
begin

section \<open>Bit scanning and 64-bit division (\<open>ns-linux-c.c\<close>)\<close>

text \<open>
  \<open>fls\<close> (find last set bit), \<open>fls64\<close>, the \<open>do_div\<close> macro and \<open>div64_64\<close>, a
  64-bit division by way of a 32-bit one. The lemmas say that \<open>fls\<close> is the bit length of its
  argument, that \<open>div64_64\<close> is exact for divisors below \<open>2 ^ 32\<close>, and how far off it is
  for larger ones.
\<close>

text \<open>One \<open>if (!(x & mask)) { x <<= k; r -= k; }\<close> of \<open>fls\<close>.\<close>

definition fls_step :: "u32 \<Rightarrow> nat \<Rightarrow> u32 \<times> int \<Rightarrow> u32 \<times> int" where
  "fls_step msk k xr =
     (if fst xr AND msk = 0 then (push_bit k (fst xr), snd xr - int k) else xr)"

definition fls :: "s32 \<Rightarrow> int" where
  "fls x =
     (if x = 0 then 0
      else snd (fls_step 0x80000000 1 (fls_step 0xc0000000 2 (fls_step 0xf0000000 4
        (fls_step 0xff000000 8 (fls_step 0xffff0000 16 (x, 32)))))))"

definition fls64 :: "u64 \<Rightarrow> int" where
  "fls64 x =
     (let h = ucast (drop_bit 32 x) :: u32
      in if h \<noteq> 0 then fls h + 32 else fls (ucast x))"

text \<open>
  \<open>do_div(n, base)\<close> converts the base to 32 bits and divides; it traps when the converted
  base is 0. \<open>Some\<close> of the quotient, which the macro stores back into \<open>n\<close>.
\<close>

definition do_div :: "u64 \<Rightarrow> u32 \<Rightarrow> u64 option" where
  "do_div n base = cdiv n (ucast base)"

definition div64_64 :: "u64 \<Rightarrow> u64 \<Rightarrow> u64 option" where
  "div64_64 dividend divisor =
     (let high = ucast (drop_bit 32 divisor) :: u32
      in if high \<noteq> 0
         then (let shift = nat (fls high);
                   d = ucast (drop_bit shift divisor) :: u32
               in do_div (drop_bit shift dividend) d)
         else do_div dividend (ucast divisor))"

subsection \<open>\<open>fls\<close> is the bit length\<close>

lemma and_high_mask:
  "(x :: u32) AND NOT (mask n) = 0 \<longleftrightarrow> unat x < 2 ^ n"
proof -
  have "x AND NOT (mask n) = 0 \<longleftrightarrow> take_bit n x = x"
    by (auto simp: bit_eq_iff bit_simps)
  also have "\<dots> \<longleftrightarrow> unat (take_bit n x) = unat x"
    by (simp add: word_unat_eq_iff)
  also have "\<dots> \<longleftrightarrow> unat x < 2 ^ n"
    by (simp add: unsigned_take_bit_eq take_bit_nat_eq_self_iff)
  finally show ?thesis .
qed

lemma fls_masks:
  "(0xffff0000 :: u32) = NOT (mask 16)"
  "(0xff000000 :: u32) = NOT (mask 24)"
  "(0xf0000000 :: u32) = NOT (mask 28)"
  "(0xc0000000 :: u32) = NOT (mask 30)"
  "(0x80000000 :: u32) = NOT (mask 31)"
  by (simp_all add: mask_eq_exp_minus_1 not_eq_complement)

text \<open>
  What the shifts keep: the shifted value is the argument times a power of two, and after the
  step of width \<open>k\<close> it is at least \<open>2 ^ (32 - k)\<close>.
\<close>

definition fls_inv :: "u32 \<Rightarrow> nat \<Rightarrow> u32 \<times> int \<Rightarrow> bool" where
  "fls_inv x0 j xr \<longleftrightarrow> 0 < snd xr \<and> snd xr \<le> 32 \<and> 2 ^ j \<le> unat (fst xr) \<and>
     unat (fst xr) = unat x0 * 2 ^ nat (32 - snd xr)"

lemma fls_step_inv:
  assumes inv: "fls_inv x0 (32 - 2 * k) xr" and k: "0 < k" "k \<le> 16"
    and msk: "msk = NOT (mask (32 - k))"
  shows "fls_inv x0 (32 - k) (fls_step msk k xr)"
proof (cases "unat (fst xr) < 2 ^ (32 - k)")
  case True
  obtain x r where xr: "xr = (x, r)" by (cases xr)
  have x: "unat x = unat x0 * 2 ^ nat (32 - r)" "0 < r" "r \<le> 32" "2 ^ (32 - 2 * k) \<le> unat x"
    using inv by (simp_all add: fls_inv_def xr)
  have "0 < unat x" using x(4) by (meson less_le_trans zero_less_numeral zero_less_power)
  then have "1 \<le> unat x0" using x(1) by (cases "unat x0") auto
  then have "2 ^ nat (32 - r) \<le> unat x" using x(1) by simp
  also have "unat x < 2 ^ (32 - k)" using True by (simp add: xr)
  finally have "nat (32 - r) < 32 - k" by simp
  then have r: "int k < r" using k by (simp add: nat_less_iff)
  have shift: "unat x * 2 ^ k < 2 ^ 32"
  proof -
    have "unat x * 2 ^ k < 2 ^ (32 - k) * 2 ^ k" using True by (simp add: xr)
    then show ?thesis using k by (simp flip: power_add)
  qed
  have px: "unat (push_bit k x) = unat x * 2 ^ k"
    using shift by (intro unat_push_bit_nowrap) simp
  have "(2 :: nat) ^ (32 - k) = 2 ^ (32 - 2 * k) * 2 ^ k" using k by (simp flip: power_add)
  then have "2 ^ (32 - k) \<le> unat x * 2 ^ k" using x(4) by simp
  moreover have "unat x * 2 ^ k = unat x0 * 2 ^ nat (32 - (r - int k))"
  proof -
    have "nat (32 - (r - int k)) = nat (32 - r) + k" using x(3) by simp
    then show ?thesis by (simp add: x(1) power_add)
  qed
  ultimately show ?thesis
    using True r x(3) by (simp add: fls_inv_def fls_step_def xr msk and_high_mask px)
next
  case False
  then show ?thesis
    using inv by (simp add: fls_inv_def fls_step_def msk and_high_mask)
qed

lemma fls_bit_length:
  "unat x < 2 ^ nat (fls x) \<and> (x = 0 \<and> fls x = 0 \<or> 0 < fls x \<and> fls x \<le> 32 \<and> 2 ^ nat (fls x - 1) \<le> unat x)"
proof (cases "x = 0")
  case True
  then show ?thesis by (simp add: fls_def)
next
  case False
  then have "fls_inv x 0 (x, 32)"
    by (simp add: fls_inv_def Suc_le_eq unat_gt_0)
  then have "fls_inv x 16 (fls_step 0xffff0000 16 (x, 32))"
    using fls_step_inv [of x 16] fls_masks(1) by simp
  then have "fls_inv x 24 (fls_step 0xff000000 8 (fls_step 0xffff0000 16 (x, 32)))"
    using fls_step_inv [of x 8] fls_masks(2) by simp
  then have "fls_inv x 28 (fls_step 0xf0000000 4 (fls_step 0xff000000 8
      (fls_step 0xffff0000 16 (x, 32))))"
    using fls_step_inv [of x 4] fls_masks(3) by simp
  then have "fls_inv x 30 (fls_step 0xc0000000 2 (fls_step 0xf0000000 4 (fls_step 0xff000000 8
      (fls_step 0xffff0000 16 (x, 32)))))"
    using fls_step_inv [of x 2] fls_masks(4) by simp
  then have *: "fls_inv x 31 (fls_step 0x80000000 1 (fls_step 0xc0000000 2 (fls_step 0xf0000000 4
      (fls_step 0xff000000 8 (fls_step 0xffff0000 16 (x, 32))))))"
    using fls_step_inv [of x 1] fls_masks(5) by simp
  define yr where "yr = fls_step 0x80000000 1 (fls_step 0xc0000000 2 (fls_step 0xf0000000 4
      (fls_step 0xff000000 8 (fls_step 0xffff0000 16 (x, 32)))))"
  define r where "r = snd yr"
  have fls: "fls x = r" using False by (simp add: fls_def r_def yr_def)
  have r: "0 < r" "r \<le> 32" "2 ^ 31 \<le> unat x * 2 ^ nat (32 - r)" "unat x * 2 ^ nat (32 - r) < 2 ^ 32"
    using * unsigned_less [of "fst yr", where 'a = nat] by (simp_all add: fls_inv_def yr_def r_def)
  have p32: "(2 :: nat) ^ 32 = 2 ^ nat r * 2 ^ nat (32 - r)"
    and p31: "(2 :: nat) ^ 31 = 2 ^ nat (r - 1) * 2 ^ nat (32 - r)"
    using r(1,2) by (simp_all flip: power_add nat_add_distrib)
  have "unat x < 2 ^ nat r" using r(4) unfolding p32 by simp
  moreover have "2 ^ nat (r - 1) \<le> unat x" using r(3) unfolding p31 by simp
  ultimately show ?thesis using r(1,2) by (simp add: fls)
qed

subsection \<open>\<open>fls64\<close>\<close>

lemma unat_high_half: "unat (ucast (drop_bit 32 (x :: u64)) :: u32) = unat x div 2 ^ 32"
proof -
  have "unat x div 2 ^ 32 < 2 ^ 32"
    using unat_lt_u64 [of x] by (simp add: less_mult_imp_div_less)
  then show ?thesis
    by (simp add: unsigned_ucast_eq unat_drop_bit_div take_bit_nat_eq_self)
qed

lemma unat_low_half:
  "unat (x :: u64) < 2 ^ 32 \<Longrightarrow> unat (ucast x :: u32) = unat x"
  by (simp add: unsigned_ucast_eq take_bit_nat_eq_self)

lemma high_half_eq_0_iff:
  "ucast (drop_bit 32 (x :: u64)) = (0 :: u32) \<longleftrightarrow> unat x < 2 ^ 32"
  by (metis unat_high_half unat_eq_zero div_eq_0_iff zero_neq_numeral power_eq_0_iff)

lemma fls64_bit_length:
  "unat x < 2 ^ nat (fls64 x) \<and>
   (x = 0 \<and> fls64 x = 0 \<or> 0 < fls64 x \<and> fls64 x \<le> 64 \<and> 2 ^ nat (fls64 x - 1) \<le> unat x)"
proof (cases "unat x < 2 ^ 32")
  case True
  define y where "y = (ucast x :: u32)"
  have y: "unat y = unat x" "y = 0 \<longleftrightarrow> x = 0"
    using unat_low_half [OF True] unat_eq_zero [of x] unat_eq_zero [of y] by (simp_all add: y_def)
  have "fls64 x = fls y"
    using True by (simp add: fls64_def Let_def high_half_eq_0_iff y_def)
  then show ?thesis using fls_bit_length [of y] y by auto
next
  case False
  define h where "h = (ucast (drop_bit 32 x) :: u32)"
  have h: "h \<noteq> 0" "unat h = unat x div 2 ^ 32"
    using False by (simp_all add: h_def high_half_eq_0_iff unat_high_half)
  then have f: "fls64 x = fls h + 32"
    by (simp add: fls64_def Let_def h_def)
  have b: "unat h < 2 ^ nat (fls h)" "0 < fls h" "fls h \<le> 32" "2 ^ nat (fls h - 1) \<le> unat h"
    using fls_bit_length [of h] h(1) by auto
  have "unat x < 2 ^ nat (fls h) * 2 ^ 32"
    using b(1) unfolding h(2) by (simp add: div_less_iff_less_mult)
  moreover have "2 ^ nat (fls h - 1) * 2 ^ 32 \<le> unat x"
    using b(4) unfolding h(2) by (simp add: less_eq_div_iff_mult_less_eq)
  moreover have "nat (fls h + 32) = nat (fls h) + 32" "nat (31 + fls h) = nat (fls h - 1) + 32"
    using b(2) by simp_all
  ultimately show ?thesis
    using b(2,3) by (simp add: f power_add)
qed

subsection \<open>\<open>div64_64\<close>: exact below \<open>2 ^ 32\<close>, at most one too large above\<close>

lemma do_div_Some: "base \<noteq> 0 \<Longrightarrow> do_div n base = Some (n div ucast base)"
  by (simp add: do_div_def)

lemma do_div_eq_None_iff: "do_div n base = None \<longleftrightarrow> base = 0"
  by (simp add: do_div_def cdiv_eq_None_iff)

lemma shifted_div_bound:
  fixes N D E d' :: nat
  assumes N: "N < 2 ^ 64" and s: "1 \<le> s" "s \<le> 32" and E: "E = d' * 2 ^ s" and d': "2 ^ 31 \<le> d'"
    and D: "E \<le> D" "D < E + 2 ^ s"
  shows "N div E \<le> N div D + 1"
proof -
  define Q where "Q = N div D"
  have Epos: "2 ^ (31 + s) \<le> E" using d' by (simp add: E power_add)
  then have "0 < E" by (meson less_le_trans zero_less_numeral zero_less_power)
  then have Dpos: "0 < D" using D(1) by simp
  have pow: "(2 :: nat) ^ 64 = 2 ^ (33 - s) * 2 ^ (31 + s)"
    using s by (simp flip: power_add)
  have "N < 2 ^ (33 - s) * D"
    using N Epos D(1) unfolding pow by (meson less_le_trans mult_le_mono2 order_trans)
  then have Q: "Q + 1 \<le> 2 ^ (33 - s)"
    using Dpos by (simp add: Q_def Suc_le_eq div_less_iff_less_mult)
  have "(Q + 1) * (D - E) \<le> E"
  proof (cases "s = 1")
    case True
    then have "(Q + 1) * (D - E) \<le> 2 ^ 32 * 1"
      using Q D by (intro mult_le_mono) auto
    then show ?thesis using Epos True by simp
  next
    case False
    have "(Q + 1) * (D - E) \<le> 2 ^ (33 - s) * 2 ^ s"
      using Q D by (intro mult_le_mono) auto
    also have "\<dots> = 2 ^ 33" using s by (simp flip: power_add)
    also have "\<dots> \<le> 2 ^ (31 + s)" using s False by (intro power_increasing) auto
    finally show ?thesis using Epos by simp
  qed
  moreover have "N < (Q + 1) * D"
    using Dpos by (simp add: Q_def dividend_less_div_times add.commute)
  moreover have "(Q + 1) * D = (Q + 1) * E + (Q + 1) * (D - E)"
    using D(1) by (simp flip: distrib_left)
  ultimately have "N < (Q + 2) * E" by simp
  then have "N div E < Q + 2" using \<open>0 < E\<close> by (simp add: div_less_iff_less_mult)
  then show ?thesis by (simp add: Q_def)
qed

lemma div64_64_small:
  assumes "d \<noteq> 0" "unat d < 2 ^ 32"
  shows "div64_64 n d = Some (n div d)"
proof -
  have "(ucast (ucast d :: u32) :: u64) = d"
    using assms(2) by (simp add: word_unat_eq_iff unat_ucast_u64 unat_ucast_u32)
  moreover from this have "(ucast d :: u32) \<noteq> 0"
    using assms(1) by (metis unsigned_0)
  ultimately show ?thesis
    using assms(2) by (simp add: div64_64_def Let_def high_half_eq_0_iff do_div_Some)
qed

lemma div64_64_large:
  assumes "2 ^ 32 \<le> unat d"
  shows "\<exists>q. div64_64 n d = Some q \<and> unat n div unat d \<le> unat q \<and> unat q \<le> unat n div unat d + 1"
proof -
  define h where "h = (ucast (drop_bit 32 d) :: u32)"
  define s where "s = nat (fls h)"
  define d' where "d' = unat d div 2 ^ s"
  have h: "h \<noteq> 0" "unat h = unat d div 2 ^ 32"
    using assms by (simp_all add: h_def high_half_eq_0_iff unat_high_half)
  have b: "unat h < 2 ^ s" "1 \<le> s" "s \<le> 32" "2 ^ (s - 1) \<le> unat h"
    using fls_bit_length [of h] h(1) by (auto simp: s_def nat_diff_distrib' )
  have "2 ^ (s - 1) * 2 ^ 32 \<le> unat d"
    using b(4) unfolding h(2) by (simp add: less_eq_div_iff_mult_less_eq)
  also have "(2 :: nat) ^ (s - 1) * 2 ^ 32 = 2 ^ 31 * 2 ^ s"
    using b(2) by (cases s) simp_all
  finally have d'_ge: "2 ^ 31 \<le> d'"
    by (simp add: d'_def less_eq_div_iff_mult_less_eq)
  have "unat d < 2 ^ s * 2 ^ 32"
    using b(1) unfolding h(2) by (simp add: div_less_iff_less_mult)
  then have d'_less: "d' < 2 ^ 32"
    by (simp add: d'_def div_less_iff_less_mult mult.commute)
  define w where "w = (ucast (drop_bit s d) :: u32)"
  have w: "unat w = d'"
    using d'_less by (simp add: w_def unat_ucast_u32 unat_drop_bit_div d'_def)
  then have "w \<noteq> 0" using d'_ge by auto
  define q where "q = drop_bit s n div ucast w"
  have q: "div64_64 n d = Some q"
    using h(1) \<open>w \<noteq> 0\<close>
    by (simp add: div64_64_def Let_def do_div_Some q_def flip: h_def s_def w_def)
  have "unat q = (unat n div 2 ^ s) div d'"
    by (simp add: q_def unat_div_word unat_drop_bit_div unat_ucast_u64 w)
  then have uq: "unat q = unat n div (d' * 2 ^ s)"
    by (simp add: div_mult2_eq mult.commute [of d'])
  have D: "d' * 2 ^ s \<le> unat d" "unat d < d' * 2 ^ s + 2 ^ s"
    using dividend_less_div_times [of "2 ^ s" "unat d"] by (simp_all add: d'_def add.commute)
  have "unat q \<le> unat n div unat d + 1"
    unfolding uq
    by (rule shifted_div_bound [OF _ b(2,3) refl d'_ge D]) (use unat_lt_u64 [of n] in simp)
  moreover have "unat n div unat d \<le> unat q"
    unfolding uq using D(1) d'_ge by (intro div_le_mono2) auto
  ultimately show ?thesis using q by blast
qed

lemma div64_64_total: "d \<noteq> 0 \<Longrightarrow> \<exists>q. div64_64 n d = Some q"
  using div64_64_small [of d n] div64_64_large [of d n] by (cases "unat d < 2 ^ 32") auto

subsection \<open>Properties\<close>

text \<open>
  \<open>fls\<close> and \<open>fls64\<close> return the bit length of their argument: 0 for 0, and
  otherwise the \<open>r\<close> with \<open>2 ^ (r - 1) \<le> x < 2 ^ r\<close>.
\<close>

theorem fls_correct:
  "unat x < 2 ^ nat (fls x) \<and> (if x = 0 then fls x = 0 else 0 < fls x \<and> 2 ^ nat (fls x - 1) \<le> unat x) \<and>
   unat y < 2 ^ nat (fls64 y) \<and> (if y = 0 then fls64 y = 0 else 0 < fls64 y \<and> 2 ^ nat (fls64 y - 1) \<le> unat y)"
proof -
  have "fls 0 = 0" "fls64 0 = 0" by (simp_all add: fls_def fls64_def)
  then show ?thesis using fls_bit_length [of x] fls64_bit_length [of y] by auto
qed

text \<open>
  \<open>div64_64\<close> traps exactly for the divisor 0; for a divisor below \<open>2 ^ 32\<close> it is the
  integer quotient, and for a larger one it is the quotient or one more.
\<close>

theorem div64_64_correct:
  "case div64_64 n d of
     None \<Rightarrow> d = 0
   | Some q \<Rightarrow> d \<noteq> 0 \<and> unat n div unat d \<le> unat q \<and>
       unat q \<le> unat n div unat d + (if unat d < 2 ^ 32 then 0 else 1)"
proof (cases "unat d < 2 ^ 32")
  case True
  then show ?thesis
    using div64_64_small [of d n]
    by (cases "d = 0") (simp_all add: div64_64_def do_div_def unat_div_word)
next
  case False
  then obtain q where "div64_64 n d = Some q" "unat n div unat d \<le> unat q"
    "unat q \<le> unat n div unat d + 1"
    using div64_64_large [of d n] by auto
  moreover have "d \<noteq> 0" using False by auto
  ultimately show ?thesis using False by simp
qed

end
