(* ===== verification/Cubic.thy ===== *)
theory Cubic
  imports Reno Kernel_Util
begin

section \<open>CUBIC TCP (\<open>src/tcp_cubic.c\<close>)\<close>

text \<open>
  CUBIC sets the window along a cubic function of the time since the last loss. The model has the
  integer cube root (a table look-up and one Newton step), the scaling factors computed when the
  module is registered, the update with its loop that emulates a Reno window, and the other
  operations of the table. A read outside of the table, a zero divisor and a loop that does not end
  are \<open>None\<close>. The lemmas show that the cube root is total, that the loop ends exactly when its step
  is positive, that the update never traps for windows below \<open>2 ^ 27\<close>, and where the 64-bit cube
  stops being exact.
\<close>

record cubic_params =
  cubic_fast_convergence :: s32
  cubic_max_increment :: s32
  cubic_beta :: s32
  cubic_initial_ssthresh :: s32
  cubic_bic_scale :: s32
  cubic_tcp_friendliness :: s32
  cubic_rtt_scale :: u32
  cubic_beta_scale :: u32
  cubic_factor :: u64

text \<open>The parameters a module starts with, before \<open>cubictcp_register\<close> computes the last three.\<close>

definition cubic_defaults :: cubic_params where
  "cubic_defaults = \<lparr>cubic_fast_convergence = 1, cubic_max_increment = 16, cubic_beta = 819,
     cubic_initial_ssthresh = 0, cubic_bic_scale = 41, cubic_tcp_friendliness = 1,
     cubic_rtt_scale = 0, cubic_beta_scale = 0, cubic_factor = 0\<rparr>"

definition cubictcp_register :: "cubic_params \<Rightarrow> cubic_params option" where
  "cubictcp_register p =
     (if 1024 - cubic_beta p = 0 then None
      else do {
        f \<leftarrow> do_div (push_bit 40 1) (cubic_bic_scale p * 10);
        Some (p\<lparr>cubic_beta_scale := word_of_int
                  ((sint (8 * (1024 + cubic_beta p)) sdiv 3) sdiv sint (1024 - cubic_beta p)),
                cubic_rtt_scale := cubic_bic_scale p * 10,
                cubic_factor := f\<rparr>)
      })"

record cubictcp =
  cubic_cnt :: u32
  cubic_last_max_cwnd :: u32
  cubic_loss_cwnd :: u32
  cubic_last_cwnd :: u32
  cubic_last_time :: u32
  cubic_origin_point :: u32
  cubic_K :: u32
  cubic_delay_min :: u32
  cubic_epoch_start :: u32
  cubic_ack_cnt :: u32
  cubic_tcp_cwnd :: u32
  cubic_delayed_ack :: u32

definition cubictcp_reset :: "cubictcp \<Rightarrow> cubictcp" where
  "cubictcp_reset ca =
     ca\<lparr>cubic_cnt := 0, cubic_last_max_cwnd := 0, cubic_loss_cwnd := 0, cubic_last_cwnd := 0,
        cubic_last_time := 0, cubic_origin_point := 0, cubic_K := 0, cubic_delay_min := 0,
        cubic_epoch_start := 0, cubic_delayed_ack := push_bit 4 2, cubic_ack_cnt := 0, cubic_tcp_cwnd := 0\<rparr>"

definition cubictcp_init :: "cubic_params \<Rightarrow> kern \<Rightarrow> cubictcp sock \<Rightarrow> cubictcp sock option" where
  "cubictcp_init p k s =
     Some ((if cubic_initial_ssthresh p \<noteq> 0 then (fst s)\<lparr>snd_ssthresh := cubic_initial_ssthresh p\<rparr> else fst s),
           cubictcp_reset (snd s))"

subsection \<open>The cube root\<close>

definition cubic_v :: "u8 list" where
  "cubic_v =
    [  0,  54,  54,  54, 118, 118, 118, 118,
     123, 129, 134, 138, 143, 147, 151, 156,
     157, 161, 164, 168, 170, 173, 176, 179,
     181, 185, 187, 190, 192, 194, 197, 199,
     200, 202, 204, 206, 209, 211, 213, 215,
     217, 219, 221, 222, 224, 225, 227, 229,
     231, 232, 234, 236, 237, 239, 240, 242,
     244, 245, 246, 248, 250, 251, 252, 254]"

definition cubic_entry :: "u32 \<Rightarrow> u32 option" where
  "cubic_entry i = (if unat i < length cubic_v then Some (ucast (cubic_v ! unat i)) else None)"

definition cubic_root :: "u64 \<Rightarrow> u32 option" where
  "cubic_root a =
     (let b = word_of_int (fls64 a) :: u32 in
      if b < 7
      then do { e \<leftarrow> cubic_entry (ucast a); Some (drop_bit 6 (e + 35)) }
      else let b = drop_bit 8 (b * 84) - 1; shift = ucast (drop_bit (unat (b * 3)) a) :: u32 in
           do {
             e \<leftarrow> cubic_entry shift;
             let x = drop_bit 6 (push_bit (unat b) (e + 10)) in
             do {
               q \<leftarrow> div64_64 a (ucast x * ucast (x - 1));
               let x = 2 * x + ucast q in
               Some (drop_bit 10 (x * 341))
             }
           })"

subsection \<open>The update\<close>

text \<open>\<open>while (ack_cnt > delta) { ack_cnt -= delta; tcp_cwnd++; }\<close>\<close>

partial_function (option) cubic_tcp_loop :: "u32 \<Rightarrow> u32 \<Rightarrow> u32 \<Rightarrow> (u32 \<times> u32) option" where
  "cubic_tcp_loop delta ack_cnt tcp_cwnd =
     (if delta < ack_cnt then cubic_tcp_loop delta (ack_cnt - delta) (tcp_cwnd + 1)
      else Some (ack_cnt, tcp_cwnd))"

text \<open>The beginning of an epoch.\<close>

definition cubic_epoch :: "cubic_params \<Rightarrow> kern \<Rightarrow> u32 \<Rightarrow> cubictcp \<Rightarrow> cubictcp option" where
  "cubic_epoch p k cwnd ca =
     (if cubic_epoch_start ca \<noteq> 0 then Some ca
      else let ca = ca\<lparr>cubic_epoch_start := tcp_time_stamp k, cubic_ack_cnt := 1, cubic_tcp_cwnd := cwnd\<rparr> in
           if cubic_last_max_cwnd ca \<le> cwnd then Some (ca\<lparr>cubic_K := 0, cubic_origin_point := cwnd\<rparr>)
           else do {
             r \<leftarrow> cubic_root (cubic_factor p * ucast (cubic_last_max_cwnd ca - cwnd));
             Some (ca\<lparr>cubic_K := r, cubic_origin_point := cubic_last_max_cwnd ca\<rparr>)
           })"

text \<open>\<open>c / rtt * (t - K) ^ 3\<close>, in 64 bits.\<close>

definition cubic_delta :: "cubic_params \<Rightarrow> u64 \<Rightarrow> u32" where
  "cubic_delta p offs = ucast (drop_bit 40 (ucast (cubic_rtt_scale p) * offs * offs * offs))"

definition cubic_time :: "kern \<Rightarrow> cubictcp \<Rightarrow> u32" where
  "cubic_time k ca =
     push_bit 10 (tcp_time_stamp k + drop_bit 3 (cubic_delay_min ca) - cubic_epoch_start ca) div HZ"

definition cubic_target :: "cubic_params \<Rightarrow> u32 \<Rightarrow> cubictcp \<Rightarrow> u32" where
  "cubic_target p t ca =
     (let offs = (if t < cubic_K ca then cubic_K ca - t else t - cubic_K ca);
          delta = cubic_delta p (ucast offs)
      in if t < cubic_K ca then cubic_origin_point ca - delta else cubic_origin_point ca + delta)"

definition cubic_raw_cnt :: "cubic_params \<Rightarrow> u32 \<Rightarrow> u32 \<Rightarrow> cubictcp \<Rightarrow> u32 option" where
  "cubic_raw_cnt p t cwnd ca = do {
     let target = cubic_target p t ca in
     do {
       cnt \<leftarrow> (if cwnd < target then cdiv cwnd (target - cwnd) else Some (100 * cwnd));
       cnt \<leftarrow> (if 0 < cubic_delay_min ca
              then do {
                min_cnt \<leftarrow> cdiv (cwnd * HZ * 8) (10 * cubic_max_increment p * cubic_delay_min ca);
                Some (if cnt < min_cnt \<and> cubic_K ca \<le> t then min_cnt else cnt)
              }
              else Some cnt);
       Some (if cubic_loss_cwnd ca = 0 then 50 else cnt)
     }
   }"

definition cubic_friendly :: "cubic_params \<Rightarrow> u32 \<Rightarrow> u32 \<Rightarrow> cubictcp \<Rightarrow> (u32 \<times> cubictcp) option" where
  "cubic_friendly p cwnd cnt ca =
     (if cubic_tcp_friendliness p = 0 then Some (cnt, ca)
      else do {
        (ack_cnt, tcp_cwnd) \<leftarrow>
          cubic_tcp_loop (drop_bit 3 (cwnd * cubic_beta_scale p)) (cubic_ack_cnt ca) (cubic_tcp_cwnd ca);
        let ca = ca\<lparr>cubic_ack_cnt := ack_cnt, cubic_tcp_cwnd := tcp_cwnd\<rparr> in
        if cwnd < tcp_cwnd
        then do {
          max_cnt \<leftarrow> cdiv cwnd (tcp_cwnd - cwnd);
          Some (if max_cnt < cnt then max_cnt else cnt, ca)
        }
        else Some (cnt, ca)
      })"

definition cubictcp_update :: "cubic_params \<Rightarrow> kern \<Rightarrow> u32 \<Rightarrow> cubictcp \<Rightarrow> cubictcp option" where
  "cubictcp_update p k cwnd ca =
     (let ca = ca\<lparr>cubic_ack_cnt := cubic_ack_cnt ca + 1\<rparr> in
      if cubic_last_cwnd ca = cwnd \<and> sint (tcp_time_stamp k - cubic_last_time ca) \<le> 31 then Some ca
      else do {
        ca \<leftarrow> cubic_epoch p k cwnd (ca\<lparr>cubic_last_cwnd := cwnd, cubic_last_time := tcp_time_stamp k\<rparr>);
        cnt \<leftarrow> cubic_raw_cnt p (cubic_time k ca) cwnd ca;
        (cnt, ca) \<leftarrow> cubic_friendly p cwnd cnt ca;
        cnt \<leftarrow> cdiv (push_bit 4 cnt) (cubic_delayed_ack ca);
        Some (ca\<lparr>cubic_cnt := (if cnt = 0 then 1 else cnt)\<rparr>)
      })"

subsection \<open>The operations\<close>

definition measure_delay :: "kern \<Rightarrow> cubictcp sock \<Rightarrow> cubictcp" where
  "measure_delay k s =
     (let tp = fst s; ca = snd s in
      if \<not> (saw_tstamp (rx_opt tp) \<and> rcv_tsecr (rx_opt tp) \<noteq> 0)
         \<or> sint (tcp_time_stamp k - cubic_epoch_start ca) < 1000
      then ca
      else let delay = push_bit 3 (tcp_time_stamp k - rcv_tsecr (rx_opt tp));
               delay = (if delay = 0 then 1 else delay)
           in if cubic_delay_min ca = 0 \<or> delay < cubic_delay_min ca then ca\<lparr>cubic_delay_min := delay\<rparr> else ca)"

definition cubictcp_cong_avoid ::
  "cubic_params \<Rightarrow> kern \<Rightarrow> u32 \<Rightarrow> u32 \<Rightarrow> u32 \<Rightarrow> s32 \<Rightarrow> cubictcp sock \<Rightarrow> cubictcp sock option" where
  "cubictcp_cong_avoid p k ack seq_rtt in_flight data_acked s =
     (let s = (fst s, if data_acked \<noteq> 0 then measure_delay k s else snd s) in
      if \<not> tcp_is_cwnd_limited (fst s) in_flight then Some s
      else if snd_cwnd (fst s) \<le> snd_ssthresh (fst s) then on_sock (tcp_slow_start k) s
      else do {
        ca \<leftarrow> cubictcp_update p k (snd_cwnd (fst s)) (snd s);
        Some (ai_step (cubic_cnt ca) (fst s), ca)
      })"

definition cubictcp_recalc_ssthresh :: "cubic_params \<Rightarrow> cubictcp sock \<Rightarrow> u32 \<times> cubictcp sock" where
  "cubictcp_recalc_ssthresh p s =
     (let w = snd_cwnd (fst s); ca = snd s;
          last_max = (if w < cubic_last_max_cwnd ca \<and> cubic_fast_convergence p \<noteq> 0
                      then (w * (1024 + cubic_beta p)) div (2 * 1024) else w)
      in (max ((w * cubic_beta p) div 1024) 2,
          (fst s, ca\<lparr>cubic_epoch_start := 0, cubic_last_max_cwnd := last_max, cubic_loss_cwnd := w\<rparr>)))"

definition cubictcp_undo_cwnd :: "cubictcp sock \<Rightarrow> u32" where
  "cubictcp_undo_cwnd s = max (snd_cwnd (fst s)) (cubic_last_max_cwnd (snd s))"

definition cubictcp_state :: "kern \<Rightarrow> u8 \<Rightarrow> cubictcp sock \<Rightarrow> cubictcp sock option" where
  "cubictcp_state k new_state s =
     Some (if new_state = TCP_CA_Loss then (fst s, cubictcp_reset (snd s)) else s)"

definition cubictcp_acked :: "kern \<Rightarrow> u32 \<Rightarrow> s64 \<Rightarrow> cubictcp sock \<Rightarrow> cubictcp sock option" where
  "cubictcp_acked k cnt last_t s =
     Some (if 0 < cnt \<and> icsk_ca_state (fst s) = TCP_CA_Open
           then (fst s, (snd s)\<lparr>cubic_delayed_ack :=
                   cubic_delayed_ack (snd s) + (cnt - drop_bit 4 (cubic_delayed_ack (snd s)))\<rparr>)
           else s)"

definition cubictcp_ops :: "cubic_params \<Rightarrow> cubictcp tcp_congestion_ops" where
  "cubictcp_ops p =
     \<lparr>op_flags = 0,
      op_name = ''cubic'',
      op_init = Some (cubictcp_init p),
      op_ssthresh = (\<lambda>k s. Some (cubictcp_recalc_ssthresh p s)),
      op_min_cwnd = None,
      op_cong_avoid = cubictcp_cong_avoid p,
      op_rtt_sample = None,
      op_set_state = Some cubictcp_state,
      op_cwnd_event = None,
      op_undo_cwnd = Some (\<lambda>k s. Some (cubictcp_undo_cwnd s, s)),
      op_pkts_acked = Some cubictcp_acked\<rparr>"

subsection \<open>The cube root is total\<close>

lemma cubic_v_length [simp]: "length cubic_v = 64"
  by (simp add: cubic_v_def)

lemma cubic_v_ge: "0 < i \<Longrightarrow> i < 64 \<Longrightarrow> 54 \<le> unat (cubic_v ! i)"
proof -
  assume i: "0 < i" "i < 64"
  have "list_all (\<lambda>x. 54 \<le> unat x) (tl cubic_v)" by code_simp
  then have "54 \<le> unat (tl cubic_v ! (i - 1))" using i by (simp add: list_all_length)
  then show ?thesis using i by (simp add: nth_tl)
qed

lemma cubic_entry_Some: "unat i < 64 \<Longrightarrow> cubic_entry i = Some (ucast (cubic_v ! unat i))"
  by (simp add: cubic_entry_def)

lemma unat_ucast_u8: "unat (ucast (x :: u8) :: u32) = unat x"
  using unat_lt_u8 [of x] by (simp add: unsigned_ucast_eq take_bit_nat_eq_self)

text \<open>The shift \<open>3 b\<close> leaves the leading one to six bits of the argument.\<close>

lemma cubic_shift:
  fixes n :: nat
  assumes "7 \<le> n" "n \<le> 64"
  shows "1 \<le> n * 84 div 256 - 1" "n * 84 div 256 - 1 \<le> 20" "2 \<le> n * 84 div 256"
    "3 * (n * 84 div 256 - 1) \<le> n - 1" "n \<le> 3 * (n * 84 div 256 - 1) + 6"
proof -
  define q where "q = n * 84 div 256"
  have q: "q * 256 \<le> n * 84" "n * 84 < q * 256 + 256"
    using div_times_less_eq_dividend [of "n * 84" 256] dividend_less_div_times [of 256 "n * 84"]
    by (simp_all add: q_def)
  have "2 \<le> q" "q \<le> 21" using q assms by arith+
  then show "1 \<le> n * 84 div 256 - 1" "n * 84 div 256 - 1 \<le> 20" "2 \<le> n * 84 div 256"
    "3 * (n * 84 div 256 - 1) \<le> n - 1" "n \<le> 3 * (n * 84 div 256 - 1) + 6"
    using q assms unfolding q_def [symmetric] by arith+
qed

lemma cubic_leading_bits:
  fixes a :: nat
  assumes "2 ^ (n - 1) \<le> a" "a < 2 ^ n" "m \<le> n - 1" "n \<le> m + 6"
  shows "1 \<le> a div 2 ^ m" "a div 2 ^ m < 64"
proof -
  have "(2 :: nat) ^ m \<le> 2 ^ (n - 1)" using assms(3) by (rule power_increasing) simp
  then have "2 ^ m \<le> a" using assms(1) by (rule order_trans)
  then show "1 \<le> a div 2 ^ m" by (simp add: less_eq_div_iff_mult_less_eq)
  have "(2 :: nat) ^ n \<le> 2 ^ (m + 6)" using assms(4) by (rule power_increasing) simp
  then have "a < 64 * 2 ^ m" using assms(2) by (simp add: power_add)
  then show "a div 2 ^ m < 64" by (simp add: div_less_iff_less_mult)
qed

lemma fls64_word:
  "unat (word_of_int (fls64 a) :: u32) = nat (fls64 a)"
proof -
  have "0 \<le> fls64 a" "fls64 a \<le> 64" using fls64_bit_length [of a] by auto
  then show ?thesis by (simp add: unsigned_of_int take_bit_int_eq_self)
qed

lemma cubic_root_small:
  assumes "unat a < 64"
  shows "cubic_root a = Some (drop_bit 6 (ucast (cubic_v ! unat a) + 35))"
proof -
  have "nat (fls64 a) < 7"
  proof (rule ccontr)
    assume "\<not> nat (fls64 a) < 7"
    then have "7 \<le> fls64 a" by simp
    then have "2 ^ nat (fls64 a - 1) \<le> unat a" "6 \<le> nat (fls64 a - 1)"
      using fls64_bit_length [of a] by auto
    then have "(2 :: nat) ^ 6 \<le> unat a" using power_increasing [of 6 "nat (fls64 a - 1)" "2 :: nat"] by simp
    then show False using assms by simp
  qed
  then have "(word_of_int (fls64 a) :: u32) < 7" by (simp add: word_less_nat_alt fls64_word)
  moreover have "unat (ucast a :: u32) = unat a" using assms by (simp add: unat_ucast_u32)
  ultimately show ?thesis using assms by (simp add: cubic_root_def cubic_entry_Some)
qed

text \<open>The first guess of a larger argument, from its leading bits.\<close>

lemma cubic_root_large:
  assumes "64 \<le> unat a"
  shows "\<exists>x q. 2 \<le> unat x \<and> unat x < 2 ^ 23 \<and> div64_64 a (ucast x * ucast (x - 1)) = Some q \<and>
    cubic_root a = Some (drop_bit 10 ((2 * x + ucast q) * 341))"
proof -
  define n where "n = nat (fls64 a)"
  have pos: "0 < fls64 a" "fls64 a \<le> 64" "2 ^ nat (fls64 a - 1) \<le> unat a" "unat a < 2 ^ nat (fls64 a)"
    using fls64_bit_length [of a] assms by auto
  then have n: "n \<le> 64" "2 ^ (n - 1) \<le> unat a" "unat a < 2 ^ n"
    by (simp_all add: n_def nat_diff_distrib)
  have n7: "7 \<le> n"
  proof (rule ccontr)
    assume "\<not> 7 \<le> n"
    then have "(2 :: nat) ^ n \<le> 2 ^ 6" by (intro power_increasing) simp_all
    then show False using n(3) assms by simp
  qed
  define b :: u32 where "b = word_of_int (fls64 a)"
  define m where "m = n * 84 div 256 - 1"
  have m: "1 \<le> m" "m \<le> 20" "2 \<le> n * 84 div 256" "3 * m \<le> n - 1" "n \<le> 3 * m + 6"
    using cubic_shift [OF n7 n(1)] by (simp_all add: m_def)
  have b: "unat b = n" by (simp add: b_def n_def fls64_word)
  have "unat (b * 84) = n * 84" using b n(1) unat_mult_nowrap [of b 84] by simp
  then have "unat (drop_bit 8 (b * 84)) = n * 84 div 256" by (simp add: unat_drop_bit_div)
  then have bm: "unat (drop_bit 8 (b * 84) - 1) = m"
    using m(3) by (simp add: unat_sub_le word_le_nat_alt m_def)
  define b' where "b' = drop_bit 8 (b * 84) - 1"
  have b3: "unat (b' * 3) = 3 * m" using bm m(2) unat_mult_nowrap [of b' 3] by (simp add: b'_def)
  define sh :: u32 where "sh = ucast (drop_bit (unat (b' * 3)) a)"
  have "unat a div 2 ^ (3 * m) < 64" "1 \<le> unat a div 2 ^ (3 * m)"
    using cubic_leading_bits [OF n(2,3) m(4,5)] by simp_all
  then have sh: "unat sh < 64" "0 < unat sh"
    by (simp_all add: sh_def b3 unat_ucast_u32 unat_drop_bit_div)
  define e :: u32 where "e = ucast (cubic_v ! unat sh)"
  have e: "54 \<le> unat e" "unat e < 256" "cubic_entry sh = Some e"
    using cubic_v_ge [OF sh(2,1)] unat_lt_u8 [of "cubic_v ! unat sh"] sh(1)
    by (simp_all add: e_def unat_ucast_u8 cubic_entry_Some)
  define x where "x = drop_bit 6 (push_bit (unat b') (e + 10))"
  have pow: "(2 :: nat) ^ 1 \<le> 2 ^ m" "(2 :: nat) ^ m \<le> 2 ^ 20"
    using m(1,2) by (intro power_increasing; simp)+
  have e10: "unat (e + 10) = unat e + 10" using e(2) unat_add_nowrap [of e 10] by simp
  have "(unat e + 10) * 2 ^ m < 266 * 2 ^ 20" using e(2) pow(2) by (intro mult_less_le_imp_less) simp_all
  then have small: "(unat e + 10) * 2 ^ m < 2 ^ 29" by simp
  have "unat (push_bit (unat b') (e + 10)) = (unat e + 10) * 2 ^ m"
    using small unat_push_bit_nowrap [of "e + 10" m] by (simp add: b'_def bm e10)
  then have x: "unat x = (unat e + 10) * 2 ^ m div 64" by (simp add: x_def unat_drop_bit_div)
  have "64 * 2 \<le> (unat e + 10) * 2 ^ m" using e(1) pow(1) by (intro mult_le_mono) simp_all
  then have x2: "2 \<le> unat x" unfolding x by (simp add: less_eq_div_iff_mult_less_eq)
  have x23: "unat x < 2 ^ 23" unfolding x using small by (simp add: div_less_iff_less_mult)
  have x1: "unat (x - 1) = unat x - 1" using x2 by (simp add: unat_sub_le word_le_nat_alt)
  have "unat x * (unat x - 1) < 2 ^ 23 * 2 ^ 23" using x23 by (intro mult_strict_mono) simp_all
  then have "unat (ucast x * ucast (x - 1) :: u64) = unat x * (unat x - 1)"
    using unat_mult_nowrap [of "ucast x :: u64" "ucast (x - 1)"] by (simp add: unat_ucast_u64 x1)
  then have "(ucast x * ucast (x - 1) :: u64) \<noteq> 0" using x2 by (auto simp: word_neq_0_iff_unat)
  then obtain q where q: "div64_64 a (ucast x * ucast (x - 1)) = Some q" using div64_64_total by blast
  have "\<not> b < 7" using b n7 by (simp add: word_less_nat_alt)
  then have "cubic_root a = Some (drop_bit 10 ((2 * x + ucast q) * 341))"
    using e(3) q unfolding cubic_root_def b_def [symmetric] Let_def b'_def [symmetric] sh_def [symmetric]
    by (simp add: x_def)
  then show ?thesis using x2 x23 q by blast
qed

lemma cubic_root_total: "\<exists>r. cubic_root a = Some r"
  using cubic_root_small [of a] cubic_root_large [of a] by (cases "unat a < 64") auto

subsection \<open>The emulated Reno window\<close>

lemma cubic_tcp_loop_stop: "a \<le> d \<Longrightarrow> cubic_tcp_loop d a w = Some (a, w)"
  by (subst cubic_tcp_loop.simps) auto

lemma cubic_tcp_loop_step: "d < a \<Longrightarrow> cubic_tcp_loop d a w = cubic_tcp_loop d (a - d) (w + 1)"
  by (subst cubic_tcp_loop.simps) simp

lemma cubic_tcp_loop_diverges:
  assumes "a \<noteq> 0"
  shows "cubic_tcp_loop 0 a w = None"
proof (rule ccontr)
  assume "cubic_tcp_loop 0 a w \<noteq> None"
  then obtain r where "cubic_tcp_loop 0 a w = Some r" by auto
  then have "\<not> ((0 :: u32) = 0 \<and> a \<noteq> 0)"
    by (rule cubic_tcp_loop.raw_induct [where P = "\<lambda>d a w r. \<not> (d = 0 \<and> a \<noteq> 0)", rotated])
      (auto split: if_splits simp: word_gt_0)
  then show False using assms by simp
qed

lemma cubic_tcp_loop_total:
  assumes "d \<noteq> 0"
  shows "\<exists>a' n. cubic_tcp_loop d a w = Some (a', w + of_nat n) \<and> a' \<le> d \<and> (a \<noteq> 0 \<longrightarrow> a' \<noteq> 0) \<and>
    unat a = unat a' + n * unat d"
proof (induction "unat a" arbitrary: a w rule: less_induct)
  case less
  show ?case
  proof (cases "d < a")
    case True
    then have s: "unat (a - d) = unat a - unat d" "unat d < unat a"
      by (simp_all add: unat_sub_le [OF less_imp_le] word_less_nat_alt [symmetric])
    moreover have "0 < unat d" using assms by (simp add: unat_gt_0)
    ultimately obtain a' n where IH: "cubic_tcp_loop d (a - d) (w + 1) = Some (a', w + 1 + of_nat n)" "a' \<le> d"
      "a - d \<noteq> 0 \<longrightarrow> a' \<noteq> 0" "unat (a - d) = unat a' + n * unat d"
      using less [of "a - d" "w + 1"] by auto
    have "a - d \<noteq> 0" using s by (auto simp: word_neq_0_iff_unat)
    with IH True s show ?thesis
      by (intro exI [of _ a'] exI [of _ "Suc n"]) (simp add: cubic_tcp_loop_step algebra_simps)
  next
    case False
    then show ?thesis by (intro exI [of _ a] exI [of _ 0]) (simp add: cubic_tcp_loop_stop)
  qed
qed

subsection \<open>The scaling factors\<close>

definition cubic_live :: cubic_params where
  "cubic_live = cubic_defaults\<lparr>cubic_beta_scale := 23, cubic_rtt_scale := 410, cubic_factor := 2681735677\<rparr>"

lemma cubic_live_simps [simp]:
  "cubic_fast_convergence cubic_live = 1" "cubic_max_increment cubic_live = 16" "cubic_beta cubic_live = 819"
  "cubic_initial_ssthresh cubic_live = 0" "cubic_tcp_friendliness cubic_live = 1"
  "cubic_beta_scale cubic_live = 23" "cubic_rtt_scale cubic_live = 410"
  by (simp_all add: cubic_live_def cubic_defaults_def)

lemma cubictcp_register_defaults: "cubictcp_register cubic_defaults = Some cubic_live"
  by code_simp

subsection \<open>The update is total\<close>

text \<open>Once \<open>init\<close> has run: the average of packets per acknowledgement is positive and bounded, and
  the minimal delay is below \<open>2 ^ 24\<close> eighths of a millisecond.\<close>

definition cubic_inv :: "bool \<Rightarrow> cubictcp \<Rightarrow> bool" where
  "cubic_inv b ca \<longleftrightarrow> (b \<longrightarrow> 0 < unat (cubic_delayed_ack ca) \<and> unat (cubic_delayed_ack ca) \<le> 2 ^ 31 \<and>
     unat (cubic_delay_min ca) < 2 ^ 24)"

lemma cubictcp_reset_inv: "cubic_inv b (cubictcp_reset ca)"
  by (simp add: cubic_inv_def cubictcp_reset_def)

lemma cubic_epoch_total:
  "\<exists>ca'. cubic_epoch p k cwnd ca = Some ca' \<and> cubic_delayed_ack ca' = cubic_delayed_ack ca \<and>
     cubic_delay_min ca' = cubic_delay_min ca \<and>
     (cubic_epoch_start ca \<noteq> 0 \<longrightarrow> ca' = ca)"
  using cubic_root_total [of "cubic_factor p * ucast (cubic_last_max_cwnd ca - cwnd)"]
  by (auto simp: cubic_epoch_def Let_def)

lemma cubic_raw_cnt_total:
  assumes "unat (cubic_delay_min ca) < 2 ^ 24"
  shows "\<exists>c. cubic_raw_cnt cubic_live t cwnd ca = Some c"
proof -
  have "160 * cubic_delay_min ca \<noteq> 0" if "0 < cubic_delay_min ca"
  proof -
    have "unat (160 * cubic_delay_min ca) = 160 * unat (cubic_delay_min ca)"
      using assms unat_mult_nowrap [of 160 "cubic_delay_min ca"] by simp
    then show ?thesis using that by (simp add: word_neq_0_iff_unat word_less_nat_alt)
  qed
  moreover have "x - cwnd \<noteq> 0" if "cwnd < x" for x using that by auto
  ultimately show ?thesis by (simp add: cubic_raw_cnt_def Let_def)
qed

lemma cubic_step_neq_0:
  assumes "cwnd \<noteq> 0" "unat cwnd \<le> 134217727"
  shows "drop_bit 3 (cwnd * cubic_beta_scale cubic_live) \<noteq> 0"
proof -
  have "unat (cwnd * 23) = unat cwnd * 23" using assms(2) unat_mult_nowrap [of cwnd 23] by simp
  moreover have "1 \<le> unat cwnd" using assms(1) by (simp add: Suc_le_eq unat_gt_0)
  ultimately show ?thesis
    by (simp add: word_neq_0_iff_unat unat_drop_bit_div div_greater_zero_iff)
qed

lemma cubic_friendly_total:
  assumes "cwnd \<noteq> 0" "unat cwnd \<le> 134217727"
  shows "\<exists>c a n. cubic_friendly cubic_live cwnd cnt ca =
      Some (c, ca\<lparr>cubic_ack_cnt := a, cubic_tcp_cwnd := cubic_tcp_cwnd ca + of_nat n\<rparr>) \<and> c \<le> cnt \<and>
    a \<le> drop_bit 3 (cwnd * 23) \<and>
    unat (cubic_ack_cnt ca) = unat a + n * unat (drop_bit 3 (cwnd * 23))"
proof -
  obtain a n where l: "cubic_tcp_loop (drop_bit 3 (cwnd * 23)) (cubic_ack_cnt ca) (cubic_tcp_cwnd ca) =
      Some (a, cubic_tcp_cwnd ca + of_nat n)" "a \<le> drop_bit 3 (cwnd * 23)"
    "unat (cubic_ack_cnt ca) = unat a + n * unat (drop_bit 3 (cwnd * 23))"
    using cubic_tcp_loop_total [OF cubic_step_neq_0 [OF assms], of "cubic_ack_cnt ca" "cubic_tcp_cwnd ca"] by auto
  define w where "w = cubic_tcp_cwnd ca + of_nat n"
  define c where "c = (if cwnd < w \<and> cwnd div (w - cwnd) < cnt then cwnd div (w - cwnd) else cnt)"
  have "w - cwnd \<noteq> 0" if "cwnd < w" using that by auto
  then have "cubic_friendly cubic_live cwnd cnt ca = Some (c, ca\<lparr>cubic_ack_cnt := a, cubic_tcp_cwnd := w\<rparr>)"
    using l(1) by (simp add: cubic_friendly_def Let_def c_def w_def [symmetric])
  moreover have "c \<le> cnt" by (auto simp: c_def)
  ultimately show ?thesis using l(2,3) unfolding w_def by blast
qed

lemma cubictcp_update_total:
  assumes "cubic_inv True ca" "cwnd \<noteq> 0" "unat cwnd \<le> 134217727"
  shows "\<exists>ca'. cubictcp_update cubic_live k cwnd ca = Some ca' \<and> cubic_inv True ca' \<and>
    (\<not> (cubic_last_cwnd ca = cwnd \<and> sint (tcp_time_stamp k - cubic_last_time ca) \<le> 31) \<longrightarrow> cubic_cnt ca' \<noteq> 0)"
proof (cases "cubic_last_cwnd ca = cwnd \<and> sint (tcp_time_stamp k - cubic_last_time ca) \<le> 31")
  case True
  then show ?thesis using assms(1) by (simp add: cubictcp_update_def Let_def cubic_inv_def)
next
  case False
  define c0 where "c0 = ca\<lparr>cubic_ack_cnt := cubic_ack_cnt ca + 1, cubic_last_cwnd := cwnd, cubic_last_time := tcp_time_stamp k\<rparr>"
  obtain c1 where c1: "cubic_epoch cubic_live k cwnd c0 = Some c1" "cubic_delayed_ack c1 = cubic_delayed_ack ca"
    "cubic_delay_min c1 = cubic_delay_min ca"
    using cubic_epoch_total [of cubic_live k cwnd c0] by (auto simp: c0_def)
  obtain r where r: "cubic_raw_cnt cubic_live (cubic_time k c1) cwnd c1 = Some r"
    using cubic_raw_cnt_total [of c1] c1(3) assms(1) by (auto simp: cubic_inv_def)
  obtain c a w where f: "cubic_friendly cubic_live cwnd r c1 = Some (c, c1\<lparr>cubic_ack_cnt := a, cubic_tcp_cwnd := w\<rparr>)"
    using cubic_friendly_total [OF assms(2,3), of r c1] by blast
  have "cubic_delayed_ack ca \<noteq> 0" using assms(1) by (simp add: cubic_inv_def word_neq_0_iff_unat)
  then have "cubictcp_update cubic_live k cwnd ca = Some (c1\<lparr>cubic_ack_cnt := a, cubic_tcp_cwnd := w,
      cubic_cnt := (if push_bit 4 c div cubic_delayed_ack ca = 0 then 1 else push_bit 4 c div cubic_delayed_ack ca)\<rparr>)"
    using False c1 r f by (auto simp: cubictcp_update_def Let_def c0_def)
  then show ?thesis using assms(1) c1 by (simp add: cubic_inv_def)
qed

text \<open>An acknowledgement whose echoed time stamp is less than \<open>2 ^ 21\<close> milliseconds (35 minutes) old,
  for at most \<open>2 ^ 27\<close> packets.\<close>

definition cubic_env :: "ack_in \<Rightarrow> bool" where
  "cubic_env i \<longleftrightarrow> unat (in_acked i) \<le> 2 ^ 27 \<and>
     unat (tcp_time_stamp (in_kern i) - rcv_tsecr (in_rx_opt i)) < 2 ^ 21"

lemma measure_delay_inv:
  assumes "cubic_inv True ca" "unat (tcp_time_stamp k - rcv_tsecr (rx_opt tp)) < 2 ^ 21"
  shows "cubic_inv True (measure_delay k (tp, ca))"
proof -
  have "unat (push_bit 3 (tcp_time_stamp k - rcv_tsecr (rx_opt tp))) < 2 ^ 24"
    using assms(2) unat_push_bit_nowrap [of "tcp_time_stamp k - rcv_tsecr (rx_opt tp)" 3] by simp
  then show ?thesis using assms(1) by (simp add: measure_delay_def Let_def cubic_inv_def)
qed

lemma cubictcp_cong_avoid_total:
  assumes tp: "base_ok 134217727 tp" and ca: "cubic_inv True ca"
    and t: "unat (tcp_time_stamp k - rcv_tsecr (rx_opt tp)) < 2 ^ 21"
  shows "\<exists>tp' ca'. cubictcp_cong_avoid cubic_live k ack rtt in_flight flag (tp, ca) = Some (tp', ca') \<and>
    base_ok 134217727 tp' \<and> cubic_inv True ca'"
proof -
  define c0 where "c0 = (if flag \<noteq> 0 then measure_delay k (tp, ca) else ca)"
  have c0: "cubic_inv True c0" using ca measure_delay_inv [OF ca t] by (simp add: c0_def)
  have "snd_cwnd tp \<noteq> 0" "unat (snd_cwnd tp) \<le> 134217727"
    using tp by (simp_all add: base_ok_def word_le_nat_alt)
  then obtain c1 where "cubictcp_update cubic_live k (snd_cwnd tp) c0 = Some c1" "cubic_inv True c1"
    using cubictcp_update_total [OF c0] by blast
  moreover obtain tp1 where "tcp_slow_start k tp = Some tp1" "window_grown tp tp1"
    using tcp_slow_start_total [OF base_ok_cwnd [OF tp]] by blast
  moreover have "cubictcp_cong_avoid cubic_live k ack rtt in_flight flag (tp, ca) =
      (if \<not> tcp_is_cwnd_limited tp in_flight then Some (tp, c0)
       else if snd_cwnd tp \<le> snd_ssthresh tp then on_sock (tcp_slow_start k) (tp, c0)
       else do { ca \<leftarrow> cubictcp_update cubic_live k (snd_cwnd tp) c0; Some (ai_step (cubic_cnt ca) tp, ca) })"
    by (simp add: cubictcp_cong_avoid_def c0_def Let_def)
  ultimately show ?thesis
    using tp c0 window_grown_base_ok ai_step_base_ok by simp
qed

lemma cubictcp_recalc_bounds:
  "\<exists>v ca'. cubictcp_recalc_ssthresh cubic_live (tp, ca) = (v, (tp, ca')) \<and> 2 \<le> v \<and> v \<le> 134217727 \<and>
     cubic_delayed_ack ca' = cubic_delayed_ack ca \<and> cubic_delay_min ca' = cubic_delay_min ca"
proof -
  have "unat (snd_cwnd tp * 819 div 1024) \<le> 134217727"
    using unat_lt_u32 [of "snd_cwnd tp * 819"] by (simp add: unat_div_word)
  then have "max (snd_cwnd tp * 819 div 1024) 2 \<le> 134217727" by (simp add: word_le_nat_alt unat_max)
  moreover have "2 \<le> max (snd_cwnd tp * 819 div 1024) 2" by (rule max.cobounded2)
  ultimately show ?thesis by (simp add: cubictcp_recalc_ssthresh_def Let_def)
qed

lemma cubictcp_acked_inv:
  assumes "cubic_inv True ca" "unat cnt \<le> 2 ^ 27"
  shows "\<exists>ca'. cubictcp_acked k cnt t (tp, ca) = Some (tp, ca') \<and> cubic_inv True ca'"
proof (cases "0 < cnt \<and> icsk_ca_state tp = TCP_CA_Open")
  case True
  have "0 < unat cnt" using True by (simp add: word_less_nat_alt)
  then show ?thesis
    using True assms delayed_ack_average [of "cubic_delayed_ack ca" "2 ^ 27" cnt]
    by (simp add: cubictcp_acked_def cubic_inv_def)
next
  case False
  then show ?thesis using assms by (auto simp: cubictcp_acked_def)
qed

interpretation cubic: cong_module "cubictcp_ops cubic_live" cubic_inv cubic_env 134217727
proof unfold_locales
  fix tp :: tcp_sock and b ca k
  assume "base_ok 134217727 tp" "cubic_inv b ca"
  then show "\<exists>v tp' ca'. op_ssthresh (cubictcp_ops cubic_live) k (tp, ca) = Some (v, (tp', ca')) \<and> 2 \<le> v \<and>
      v \<le> 134217727 \<and> base_ok 134217727 tp' \<and> cubic_inv b ca'"
    using cubictcp_recalc_bounds [of tp ca] by (auto simp: cubictcp_ops_def cubic_inv_def)
next
  fix tp :: tcp_sock and ca i ack in_flight flag
  assume "base_ok 134217727 tp" "cubic_inv True ca" "cubic_env i" "ack_seen i tp"
  then show "\<exists>tp' ca'. op_cong_avoid (cubictcp_ops cubic_live) (in_kern i) ack (in_seq_rtt i) in_flight flag (tp, ca) =
      Some (tp', ca') \<and> base_ok 134217727 tp' \<and> cubic_inv True ca'"
    using cubictcp_cong_avoid_total by (simp add: cubictcp_ops_def cubic_env_def ack_seen_def)
next
  fix tp :: tcp_sock and ca i p
  assume "op_pkts_acked (cubictcp_ops cubic_live) = Some p" "base_ok 134217727 tp" "cubic_inv True ca" "cubic_env i"
  then show "\<exists>tp' ca'. p (in_kern i) (in_acked i) (in_last_ackt i) (tp, ca) = Some (tp', ca') \<and>
      base_ok 134217727 tp' \<and> ack_frame tp tp' \<and> cubic_inv True ca'"
    using cubictcp_acked_inv [of ca "in_acked i" "in_kern i" "in_last_ackt i" tp]
    by (auto simp: cubictcp_ops_def cubic_env_def)
next
  fix tp :: tcp_sock and ca i g
  assume "op_init (cubictcp_ops cubic_live) = Some g" "base_ok 134217727 tp"
  then show "\<exists>tp' ca'. g (in_kern i) (tp, ca) = Some (tp', ca') \<and> base_ok 134217727 tp' \<and> ack_frame tp tp' \<and>
      cubic_inv True ca'"
    by (auto simp: cubictcp_ops_def cubictcp_init_def cubictcp_reset_inv)
next
  fix h and tp :: tcp_sock and b ca k st
  assume "op_set_state (cubictcp_ops cubic_live) = Some h" "base_ok 134217727 tp" "cubic_inv b ca"
  then show "\<exists>tp' ca'. h k st (tp, ca) = Some (tp', ca') \<and> base_ok 134217727 tp' \<and> cubic_inv b ca'"
    by (auto simp: cubictcp_ops_def cubictcp_state_def cubictcp_reset_inv)
qed (simp_all add: cubictcp_ops_def)

subsection \<open>Properties\<close>

text \<open>
  C21. The integer cube root of CUBIC returns for every 64-bit argument: the table is never read outside of its
  64 entries and the divisor of the Newton step is never 0. Below 64, where only the table is used,
  the result is the cube root rounded to the nearest integer, except for the entry of 42.
\<close>

theorem cubic_root_correct:
  "\<exists>r. cubic_root a = Some r \<and>
     (if unat a < 64 \<and> unat a \<noteq> 42
      then (2 * int (unat r) - 1) ^ 3 \<le> 8 * int (unat a) \<and> 8 * int (unat a) < (2 * int (unat r) + 1) ^ 3
      else True)"
proof (cases "unat a < 64")
  case True
  define f where "f i = (unat (cubic_v ! i) + 35) div 64" for i
  have "list_all (\<lambda>i. i = 42 \<or> (2 * int (f i) - 1) ^ 3 \<le> 8 * int i \<and> 8 * int i < (2 * int (f i) + 1) ^ 3) [0..<64]"
    unfolding f_def by code_simp
  moreover have "unat a \<in> set [0..<64]" using True by simp
  ultimately have *: "unat a = 42 \<or> (2 * int (f (unat a)) - 1) ^ 3 \<le> 8 * int (unat a) \<and>
      8 * int (unat a) < (2 * int (f (unat a)) + 1) ^ 3"
    unfolding list_all_iff by blast
  have "unat (ucast (cubic_v ! unat a) + 35 :: u32) = unat (cubic_v ! unat a) + 35"
    using unat_lt_u8 [of "cubic_v ! unat a"] unat_add_nowrap [of "ucast (cubic_v ! unat a) :: u32" 35]
    by (simp add: unat_ucast_u8)
  then have "unat (drop_bit 6 (ucast (cubic_v ! unat a) + 35 :: u32)) = f (unat a)"
    by (simp add: unat_drop_bit_div f_def)
  then show ?thesis using * cubic_root_small [OF True] by auto
next
  case False
  then show ?thesis using cubic_root_total [of a] by simp
qed

text \<open>
  The loop that emulates a Reno window takes one step of \<open>delta\<close> acknowledgements at a time: it runs
  for ever exactly when the step is 0 and acknowledgements are left; otherwise the rest is at most one
  step and the window has grown by the number of steps taken.
\<close>

theorem cubic_tcp_loop_correct:
  "case cubic_tcp_loop delta ack_cnt w of
     None \<Rightarrow> delta = 0 \<and> ack_cnt \<noteq> 0
   | Some (a, w') \<Rightarrow> a \<le> delta \<and> (if delta = 0 then ack_cnt = 0 else True) \<and>
       (\<exists>n. unat ack_cnt = unat a + n * unat delta \<and> w' = w + of_nat n)"
proof (cases "delta = 0")
  case False
  then obtain a n where "cubic_tcp_loop delta ack_cnt w = Some (a, w + of_nat n)" "a \<le> delta"
    "unat ack_cnt = unat a + n * unat delta"
    using cubic_tcp_loop_total [OF False, of ack_cnt w] by blast
  then show ?thesis using False by (simp, intro exI [of _ n], simp)
next
  case True
  show ?thesis
  proof (cases "ack_cnt = 0")
    case True
    then show ?thesis using \<open>delta = 0\<close> by (simp add: cubic_tcp_loop_stop) (rule exI [of _ 0], simp)
  next
    case False
    then show ?thesis using True by (simp add: cubic_tcp_loop_diverges)
  qed
qed


definition example_cubic :: cubictcp where
  "example_cubic = \<lparr>cubic_cnt = 0, cubic_last_max_cwnd = 300, cubic_loss_cwnd = 300, cubic_last_cwnd = 0,
     cubic_last_time = 0, cubic_origin_point = 0, cubic_K = 0, cubic_delay_min = 800, cubic_epoch_start = 0,
     cubic_ack_cnt = 0, cubic_tcp_cwnd = 0, cubic_delayed_ack = 32\<rparr>"


text \<open>
  The cube \<open>c / rtt * (t - K) ^ 3\<close> of CUBIC is exact up to an offset of \<open>2 ^ 18\<close> (256 seconds), and
  wraps beyond: at an offset of 357913 (349 seconds) the code computes 319647 packets for a cube of
  17096863. The comment claims no overflow for windows below a million packets; the offset alone
  decides, and an epoch without loss lasts as long as the window is held back by its clamp.
\<close>

theorem cubic_delta_exact_and_wrap:
  "(unat offs \<le> 2 ^ 18 \<longrightarrow> unat (cubic_delta cubic_live offs) = 410 * unat offs ^ 3 div 2 ^ 40) \<and>
   cubic_delta cubic_live 357913 = 319647 \<and> 410 * (357913 :: nat) ^ 3 div 2 ^ 40 = 17096863"
proof -
  have "unat (cubic_delta cubic_live offs) = 410 * unat offs ^ 3 div 2 ^ 40" if o: "unat offs \<le> 2 ^ 18"
  proof -
    define x where "x = unat offs"
    have x: "x \<le> 2 ^ 18" using o by (simp add: x_def)
    have p: "410 * x \<le> 410 * 2 ^ 18" "410 * x * x \<le> 410 * 2 ^ 18 * 2 ^ 18"
      "410 * x * x * x \<le> 410 * 2 ^ 18 * 2 ^ 18 * 2 ^ 18"
      using x by (intro mult_le_mono; simp)+
    have 1: "unat (410 * offs) = 410 * x"
      using p(1) unat_mult_nowrap [of 410 offs] by (simp add: x_def)
    have 2: "unat (410 * offs * offs) = 410 * x * x"
      using p(2) 1 unat_mult_nowrap [of "410 * offs" offs] by (simp add: x_def)
    have 3: "unat (410 * offs * offs * offs) = 410 * x * x * x"
      using p(3) 2 unat_mult_nowrap [of "410 * offs * offs" offs] by (simp add: x_def)
    have "410 * x * x * x div 2 ^ 40 < 2 ^ 32"
      using p(3) by (simp add: div_less_iff_less_mult)
    moreover have "unat (drop_bit 40 (410 * offs * offs * offs)) = 410 * x * x * x div 2 ^ 40"
      using 3 by (simp only: unat_drop_bit_div)
    ultimately have "unat (cubic_delta cubic_live offs) = 410 * x * x * x div 2 ^ 40"
      by (simp add: cubic_delta_def unat_ucast_u32)
    then show ?thesis by (simp add: x_def power3_eq_cube mult.assoc)
  qed
  moreover have "cubic_delta cubic_live 357913 = 319647"
    by code_simp
  ultimately show ?thesis by simp
qed

theorem cubic_delta_exact_and_wrap_witness:
  "unat (cubic_delta cubic_live 100000) = 410 * unat (100000 :: u64) ^ 3 div 2 ^ 40 \<and> unat (100000 :: u64) \<le> 2 ^ 18"
  using cubic_delta_exact_and_wrap [of 100000] by simp

end
