(* ===== verification/Htcp.thy ===== *)
theory Htcp
  imports Reno
begin

section \<open>H-TCP (\<open>src/tcp_htcp.c\<close>)\<close>

text \<open>
  H-TCP raises its additive increase \<open>alpha\<close> with the time since the last congestion event and sets
  its decrease \<open>beta\<close> to the ratio of the smallest to the largest round-trip time, both in 128ths.
  The lemmas say that \<open>beta\<close> stays between 0.5 and 0.8 and \<open>alpha\<close> positive, give the decrease
  exactly, and show which round-trip time makes the module divide by zero.
\<close>

record htcp_params =
  use_rtt_scaling :: s32
  use_bandwidth_switch :: s32

definition htcp_defaults :: htcp_params where
  "htcp_defaults = \<lparr>use_rtt_scaling = 1, use_bandwidth_switch = 1\<rparr>"

definition ALPHA_BASE :: u32 where "ALPHA_BASE = push_bit 7 1"
definition BETA_MIN :: u8 where "BETA_MIN = push_bit 6 1"
definition BETA_MAX :: u8 where "BETA_MAX = 102"

record htcp =
  ht_alpha :: u32
  ht_beta :: u8
  ht_modeswitch :: u8
  ht_pkts_acked :: u16
  ht_packetcount :: u32
  ht_minRTT :: u32
  ht_maxRTT :: u32
  ht_last_cong :: u32
  ht_undo_last_cong :: u32
  ht_undo_maxRTT :: u32
  ht_undo_old_maxB :: u32
  ht_minB :: u32
  ht_maxB :: u32
  ht_old_maxB :: u32
  ht_Bi :: u32
  ht_lasttime :: u32

definition htcp_cong_time :: "kern \<Rightarrow> htcp \<Rightarrow> u32" where
  "htcp_cong_time k ca = tcp_time_stamp k - ht_last_cong ca"

definition htcp_ccount :: "kern \<Rightarrow> htcp \<Rightarrow> u32 option" where
  "htcp_ccount k ca = cdiv (htcp_cong_time k ca) (ht_minRTT ca)"

definition htcp_reset :: "kern \<Rightarrow> htcp \<Rightarrow> htcp" where
  "htcp_reset k ca =
     ca\<lparr>ht_undo_last_cong := ht_last_cong ca, ht_undo_maxRTT := ht_maxRTT ca,
        ht_undo_old_maxB := ht_old_maxB ca, ht_last_cong := tcp_time_stamp k\<rparr>"

definition htcp_cwnd_undo :: "kern \<Rightarrow> htcp sock \<Rightarrow> (u32 \<times> htcp sock) option" where
  "htcp_cwnd_undo k s =
     (let ca = (snd s)\<lparr>ht_last_cong := ht_undo_last_cong (snd s), ht_maxRTT := ht_undo_maxRTT (snd s),
                       ht_old_maxB := ht_undo_old_maxB (snd s)\<rparr>
      in do {
        q \<leftarrow> cdiv (push_bit 7 (snd_ssthresh (fst s))) (ucast (ht_beta ca));
        Some (max (snd_cwnd (fst s)) q, (fst s, ca))
      })"

definition htcp_measure_rtt :: "kern \<Rightarrow> tcp_sock \<Rightarrow> htcp \<Rightarrow> htcp option" where
  "htcp_measure_rtt k tp ca =
     (let rtt = drop_bit 3 (srtt tp);
          ca = (if rtt < ht_minRTT ca \<or> ht_minRTT ca = 0 then ca\<lparr>ht_minRTT := rtt\<rparr> else ca)
      in if icsk_ca_state tp = TCP_CA_Open \<and> snd_ssthresh tp < 0xFFFF
         then do {
           c \<leftarrow> htcp_ccount k ca;
           Some (if 3 < c
                 then let ca = (if ht_maxRTT ca < ht_minRTT ca then ca\<lparr>ht_maxRTT := ht_minRTT ca\<rparr> else ca)
                      in if ht_maxRTT ca < rtt \<and> rtt \<le> ht_maxRTT ca + msecs_to_jiffies 20
                         then ca\<lparr>ht_maxRTT := rtt\<rparr> else ca
                 else ca)
         }
         else Some ca)"

definition measure_achieved_throughput ::
  "htcp_params \<Rightarrow> kern \<Rightarrow> u32 \<Rightarrow> s64 \<Rightarrow> htcp sock \<Rightarrow> htcp sock option" where
  "measure_achieved_throughput p k pkts last_t s =
     (let tp = fst s; now = tcp_time_stamp k;
          ca = (if icsk_ca_state tp = TCP_CA_Open then (snd s)\<lparr>ht_pkts_acked := pkts\<rparr> else snd s)
      in if use_bandwidth_switch p = 0 then Some (tp, ca)
         else if icsk_ca_state tp \<noteq> TCP_CA_Open \<and> icsk_ca_state tp \<noteq> TCP_CA_Disorder
         then Some (tp, ca\<lparr>ht_packetcount := 0, ht_lasttime := now\<rparr>)
         else let ca = ca\<lparr>ht_packetcount := ht_packetcount ca + pkts\<rparr>;
                  a = drop_bit 7 (ht_alpha ca)
              in if snd_cwnd tp - (if a \<noteq> 0 then a else 1) \<le> ht_packetcount ca
                    \<and> ht_minRTT ca \<le> now - ht_lasttime ca \<and> 0 < ht_minRTT ca
                 then do {
                   cur_Bi \<leftarrow> cdiv (ht_packetcount ca * HZ) (now - ht_lasttime ca);
                   c \<leftarrow> htcp_ccount k ca;
                   let ca = (if c \<le> 3 then ca\<lparr>ht_minB := cur_Bi, ht_maxB := cur_Bi, ht_Bi := cur_Bi\<rparr>
                             else let bi = (3 * ht_Bi ca + cur_Bi) div 4;
                                      mx = (if ht_maxB ca < bi then bi else ht_maxB ca)
                                  in ca\<lparr>ht_Bi := bi, ht_maxB := mx,
                                        ht_minB := (if mx < ht_minB ca then mx else ht_minB ca)\<rparr>)
                   in Some (tp, ca\<lparr>ht_packetcount := 0, ht_lasttime := now\<rparr>)
                 }
                 else Some (tp, ca))"

definition htcp_beta_rtt :: "u32 \<Rightarrow> u32 \<Rightarrow> htcp \<Rightarrow> htcp option" where
  "htcp_beta_rtt minRTT maxRTT ca =
     (if ht_modeswitch ca \<noteq> 0 \<and> msecs_to_jiffies 10 < minRTT \<and> maxRTT \<noteq> 0
      then do {
        q \<leftarrow> cdiv (push_bit 7 minRTT) maxRTT;
        let b = ucast q :: u8 in
        Some (ca\<lparr>ht_beta := (if b < BETA_MIN then BETA_MIN else if BETA_MAX < b then BETA_MAX else b)\<rparr>)
      }
      else Some (ca\<lparr>ht_beta := BETA_MIN, ht_modeswitch := 1\<rparr>))"

definition htcp_beta_update :: "htcp_params \<Rightarrow> u32 \<Rightarrow> u32 \<Rightarrow> htcp \<Rightarrow> htcp option" where
  "htcp_beta_update p minRTT maxRTT ca =
     (if use_bandwidth_switch p \<noteq> 0
      then let maxB = ht_maxB ca; old_maxB = ht_old_maxB ca; ca = ca\<lparr>ht_old_maxB := ht_maxB ca\<rparr>
           in if \<not> between (5 * maxB) (4 * old_maxB) (6 * old_maxB)
              then Some (ca\<lparr>ht_beta := BETA_MIN, ht_modeswitch := 0\<rparr>)
              else htcp_beta_rtt minRTT maxRTT ca
      else htcp_beta_rtt minRTT maxRTT ca)"

text \<open>The increase since the last congestion event, and its scaling with the round-trip time.\<close>

definition htcp_time_factor :: "u32 \<Rightarrow> u32" where
  "htcp_time_factor diff =
     (if HZ < diff
      then let d = diff - HZ in 1 + (10 * d + ((d div 2) * (d div 2) div HZ)) div HZ
      else 1)"

definition htcp_rtt_factor :: "htcp_params \<Rightarrow> u32 \<Rightarrow> u32 \<Rightarrow> u32 option" where
  "htcp_rtt_factor p minRTT factor =
     (if use_rtt_scaling p \<noteq> 0 \<and> minRTT \<noteq> 0
      then do {
        scale \<leftarrow> cdiv (push_bit 3 HZ) (10 * minRTT);
        factor \<leftarrow> cdiv (push_bit 3 factor) (min (max scale 4) 80);
        Some (if factor = 0 then 1 else factor)
      }
      else Some factor)"

definition htcp_alpha_update :: "htcp_params \<Rightarrow> kern \<Rightarrow> htcp \<Rightarrow> htcp option" where
  "htcp_alpha_update p k ca = do {
     factor \<leftarrow> htcp_rtt_factor p (ht_minRTT ca) (htcp_time_factor (htcp_cong_time k ca));
     let alpha = 2 * factor * (128 - ucast (ht_beta ca)) in
     Some (ca\<lparr>ht_alpha := (if alpha = 0 then ALPHA_BASE else alpha)\<rparr>)
   }"

definition htcp_param_update :: "htcp_params \<Rightarrow> kern \<Rightarrow> htcp \<Rightarrow> htcp option" where
  "htcp_param_update p k ca =
     (let minRTT = ht_minRTT ca; maxRTT = ht_maxRTT ca in do {
        ca \<leftarrow> htcp_beta_update p minRTT maxRTT ca;
        ca \<leftarrow> htcp_alpha_update p k ca;
        Some (if 0 < minRTT \<and> minRTT < maxRTT
              then ca\<lparr>ht_maxRTT := minRTT + ((maxRTT - minRTT) * 95) div 100\<rparr> else ca)
      })"

definition htcp_recalc_ssthresh :: "htcp_params \<Rightarrow> kern \<Rightarrow> htcp sock \<Rightarrow> (u32 \<times> htcp sock) option" where
  "htcp_recalc_ssthresh p k s = do {
     ca \<leftarrow> htcp_param_update p k (snd s);
     Some (max (drop_bit 7 (snd_cwnd (fst s) * ucast (ht_beta ca))) 2, (fst s, ca))
   }"

definition htcp_cong_avoid ::
  "htcp_params \<Rightarrow> kern \<Rightarrow> u32 \<Rightarrow> u32 \<Rightarrow> u32 \<Rightarrow> s32 \<Rightarrow> htcp sock \<Rightarrow> htcp sock option" where
  "htcp_cong_avoid p k ack rtt in_flight data_acked s =
     (let tp = fst s in
      if \<not> tcp_is_cwnd_limited tp in_flight then Some s
      else if snd_cwnd tp \<le> snd_ssthresh tp then on_sock (tcp_slow_start k) s
      else do {
        ca \<leftarrow> htcp_measure_rtt k tp (snd s);
        if snd_cwnd tp \<le> drop_bit 7 (snd_cwnd_cnt tp * ht_alpha ca)
        then do {
          ca \<leftarrow> htcp_alpha_update p k ca;
          Some (tp\<lparr>snd_cwnd := (if snd_cwnd tp < snd_cwnd_clamp tp then snd_cwnd tp + 1 else snd_cwnd tp),
                   snd_cwnd_cnt := 0\<rparr>, ca\<lparr>ht_pkts_acked := 1\<rparr>)
        }
        else Some (tp\<lparr>snd_cwnd_cnt := snd_cwnd_cnt tp + ht_pkts_acked ca\<rparr>, ca\<lparr>ht_pkts_acked := 1\<rparr>)
      })"

definition htcp_init :: "kern \<Rightarrow> htcp sock \<Rightarrow> htcp sock option" where
  "htcp_init k s =
     Some (fst s,
       \<lparr>ht_alpha = ALPHA_BASE, ht_beta = BETA_MIN, ht_modeswitch = 0, ht_pkts_acked = 1, ht_packetcount = 0,
        ht_minRTT = 0, ht_maxRTT = 0, ht_last_cong = tcp_time_stamp k, ht_undo_last_cong = 0,
        ht_undo_maxRTT = 0, ht_undo_old_maxB = 0, ht_minB = 0, ht_maxB = 0, ht_old_maxB = 0, ht_Bi = 0,
        ht_lasttime = 0\<rparr>)"

definition htcp_state :: "kern \<Rightarrow> u8 \<Rightarrow> htcp sock \<Rightarrow> htcp sock option" where
  "htcp_state k new_state s =
     Some (if new_state = TCP_CA_Open then (fst s, (snd s)\<lparr>ht_last_cong := tcp_time_stamp k\<rparr>)
           else if new_state = TCP_CA_CWR \<or> new_state = TCP_CA_Recovery \<or> new_state = TCP_CA_Loss
           then (fst s, htcp_reset k (snd s))
           else s)"

definition htcp_ops :: "htcp_params \<Rightarrow> htcp tcp_congestion_ops" where
  "htcp_ops p =
     \<lparr>op_flags = 0,
      op_name = ''htcp'',
      op_init = Some htcp_init,
      op_ssthresh = htcp_recalc_ssthresh p,
      op_min_cwnd = None,
      op_cong_avoid = htcp_cong_avoid p,
      op_rtt_sample = None,
      op_set_state = Some htcp_state,
      op_cwnd_event = None,
      op_undo_cwnd = Some htcp_cwnd_undo,
      op_pkts_acked = Some (measure_achieved_throughput p)\<rparr>"

subsection \<open>The parameters of the control\<close>

lemma htcp_beta_range:
  "64 \<le> unat BETA_MIN \<and> unat BETA_MIN \<le> 102"
  "64 \<le> unat (if b < BETA_MIN then BETA_MIN else if BETA_MAX < b then BETA_MAX else b)"
  "unat (if b < BETA_MIN then BETA_MIN else if BETA_MAX < b then BETA_MAX else b) \<le> 102"
  by (auto simp: BETA_MIN_def BETA_MAX_def word_less_nat_alt)

lemma htcp_beta_rtt_total:
  "\<exists>ca'. htcp_beta_rtt minRTT maxRTT ca = Some ca' \<and> 64 \<le> unat (ht_beta ca') \<and> unat (ht_beta ca') \<le> 102 \<and>
     ht_minRTT ca' = ht_minRTT ca"
proof (cases "ht_modeswitch ca \<noteq> 0 \<and> msecs_to_jiffies 10 < minRTT \<and> maxRTT \<noteq> 0")
  case True
  then show ?thesis using htcp_beta_range(2,3) by (simp add: htcp_beta_rtt_def Let_def del: if_split)
next
  case False
  then have "htcp_beta_rtt minRTT maxRTT ca = Some (ca\<lparr>ht_beta := BETA_MIN, ht_modeswitch := 1\<rparr>)"
    unfolding htcp_beta_rtt_def by (rule if_not_P)
  then show ?thesis using htcp_beta_range(1) by simp
qed

lemma htcp_beta_update_total:
  "\<exists>ca'. htcp_beta_update p minRTT maxRTT ca = Some ca' \<and> 64 \<le> unat (ht_beta ca') \<and> unat (ht_beta ca') \<le> 102 \<and>
     ht_minRTT ca' = ht_minRTT ca"
  using htcp_beta_rtt_total [of minRTT maxRTT ca] htcp_beta_rtt_total [of minRTT maxRTT "ca\<lparr>ht_old_maxB := ht_maxB ca\<rparr>"]
    htcp_beta_range(1)
  by (simp add: htcp_beta_update_def Let_def)

lemma times_10_neq_0:
  assumes "x \<noteq> 0" "unat (x :: u32) < 2 ^ 28"
  shows "10 * x \<noteq> 0"
proof -
  have "unat (10 * x) = 10 * unat x" using assms(2) unat_mult_nowrap [of 10 x] by simp
  then show ?thesis using assms(1) by (simp add: word_neq_0_iff_unat)
qed

lemma clamp_scale_neq_0: "min (max s 4) 80 \<noteq> (0 :: u32)"
  by (simp add: word_neq_0_iff_unat unat_min unat_max)

lemma htcp_rtt_factor_total:
  assumes "unat minRTT < 2 ^ 28"
  shows "\<exists>f. htcp_rtt_factor p minRTT factor = Some f"
  using times_10_neq_0 [OF _ assms] clamp_scale_neq_0
  by (cases "use_rtt_scaling p \<noteq> 0 \<and> minRTT \<noteq> 0") (simp_all add: htcp_rtt_factor_def)

lemma htcp_alpha_update_total:
  assumes "unat (ht_minRTT ca) < 2 ^ 28"
  shows "\<exists>a. htcp_alpha_update p k ca = Some (ca\<lparr>ht_alpha := a\<rparr>) \<and> a \<noteq> 0"
proof -
  obtain f where "htcp_rtt_factor p (ht_minRTT ca) (htcp_time_factor (htcp_cong_time k ca)) = Some f"
    using htcp_rtt_factor_total [OF assms] by blast
  moreover have "ALPHA_BASE \<noteq> 0" by (simp add: ALPHA_BASE_def)
  ultimately show ?thesis
    unfolding htcp_alpha_update_def Let_def
    by (cases "2 * f * (128 - ucast (ht_beta ca)) = 0") auto
qed

definition htcp_inv :: "bool \<Rightarrow> htcp \<Rightarrow> bool" where
  "htcp_inv b ca \<longleftrightarrow> unat (ht_minRTT ca) < 2 ^ 28 \<and>
     (b \<longrightarrow> 64 \<le> unat (ht_beta ca) \<and> unat (ht_beta ca) \<le> 102 \<and> ht_alpha ca \<noteq> 0)"

lemma htcp_param_update_total:
  assumes "unat (ht_minRTT ca) < 2 ^ 28"
  shows "\<exists>ca'. htcp_param_update p k ca = Some ca' \<and> htcp_inv True ca'"
proof -
  obtain c1 where c1: "htcp_beta_update p (ht_minRTT ca) (ht_maxRTT ca) ca = Some c1" "64 \<le> unat (ht_beta c1)"
    "unat (ht_beta c1) \<le> 102" "ht_minRTT c1 = ht_minRTT ca"
    using htcp_beta_update_total by blast
  then obtain a where a: "htcp_alpha_update p k c1 = Some (c1\<lparr>ht_alpha := a\<rparr>)" "a \<noteq> 0"
    using htcp_alpha_update_total [of c1 p k] assms by auto
  with c1 assms show ?thesis by (simp add: htcp_param_update_def Let_def htcp_inv_def)
qed

lemma htcp_ssthresh_value:
  assumes "64 \<le> unat (b :: u8)" "unat b \<le> 102" "unat (w :: u32) \<le> 2 ^ 25"
  shows "unat (max (drop_bit 7 (w * ucast b)) 2) = max (unat w * unat b div 128) 2"
    and "unat w div 2 \<le> unat w * unat b div 128" and "unat w * unat b div 128 \<le> unat w"
proof -
  have b: "unat (ucast b :: u32) = unat b"
    using unat_lt_u8 [of b] by (simp add: unsigned_ucast_eq take_bit_nat_eq_self)
  have "unat w * unat b \<le> 2 ^ 25 * 102" using assms by (intro mult_le_mono) simp_all
  then have "unat (w * ucast b) = unat w * unat b" using b unat_mult_nowrap [of w "ucast b"] by simp
  then show "unat (max (drop_bit 7 (w * ucast b)) 2) = max (unat w * unat b div 128) 2"
    by (simp add: unat_max unat_drop_bit_div)
  have "unat w * 64 div 128 \<le> unat w * unat b div 128" using assms(1) by (intro div_le_mono mult_le_mono2)
  then show "unat w div 2 \<le> unat w * unat b div 128" by (simp add: div_mult2_eq [of _ 64 2, simplified])
  have "unat w * unat b div 128 \<le> unat w * 128 div 128" using assms(2) by (intro div_le_mono mult_le_mono2) simp
  then show "unat w * unat b div 128 \<le> unat w" by simp
qed

lemma htcp_recalc_total:
  assumes "unat (ht_minRTT ca) < 2 ^ 28"
  shows "\<exists>v ca'. htcp_recalc_ssthresh p k (tp, ca) = Some (v, (tp, ca')) \<and> 2 \<le> v \<and> v \<le> 2147483647 \<and> htcp_inv True ca'"
proof -
  obtain ca' where ca': "htcp_param_update p k ca = Some ca'" "htcp_inv True ca'"
    using htcp_param_update_total [OF assms] by blast
  let ?v = "max (drop_bit 7 (snd_cwnd tp * ucast (ht_beta ca'))) 2 :: u32"
  have "2 \<le> ?v" by (rule max.cobounded2)
  moreover have "unat (snd_cwnd tp * ucast (ht_beta ca')) div 128 < 2 ^ 25"
    using unat_lt_u32 [of "snd_cwnd tp * ucast (ht_beta ca')"] by (simp add: div_less_iff_less_mult)
  then have "?v \<le> 2147483647" by (simp add: word_le_nat_alt unat_max unat_drop_bit_div)
  ultimately show ?thesis using ca' by (simp add: htcp_recalc_ssthresh_def)
qed

subsection \<open>The operations are total\<close>

lemma htcp_measure_rtt_total:
  assumes "htcp_inv b ca" "8 \<le> unat (srtt tp)" "unat (srtt tp) < 2 ^ 31"
  shows "\<exists>ca'. htcp_measure_rtt k tp ca = Some ca' \<and> htcp_inv b ca'"
proof -
  define r where "r = drop_bit 3 (srtt tp)"
  have r: "0 < unat r" "unat r < 2 ^ 28"
    using assms(2,3) by (simp_all add: r_def unat_drop_bit_div div_greater_zero_iff div_less_iff_less_mult)
  define c0 where "c0 = (if r < ht_minRTT ca \<or> ht_minRTT ca = 0 then ca\<lparr>ht_minRTT := r\<rparr> else ca)"
  have c0: "htcp_inv b c0" "ht_minRTT c0 \<noteq> 0"
    using assms(1) r by (auto simp: c0_def htcp_inv_def word_neq_0_iff_unat)
  obtain c where c: "htcp_ccount k c0 = Some c" using c0(2) by (simp add: htcp_ccount_def)
  define c1 where "c1 = (if ht_maxRTT c0 < ht_minRTT c0 then c0\<lparr>ht_maxRTT := ht_minRTT c0\<rparr> else c0)"
  define c2 where "c2 = (if ht_maxRTT c1 < r \<and> r \<le> ht_maxRTT c1 + msecs_to_jiffies 20 then c1\<lparr>ht_maxRTT := r\<rparr> else c1)"
  have "htcp_inv b c2" using c0(1) by (simp add: c2_def c1_def htcp_inv_def)
  moreover have "htcp_measure_rtt k tp ca =
      Some (if icsk_ca_state tp = TCP_CA_Open \<and> snd_ssthresh tp < 0xFFFF \<and> 3 < c then c2 else c0)"
    using c unfolding htcp_measure_rtt_def Let_def r_def [symmetric] c0_def [symmetric] c1_def [symmetric] c2_def [symmetric]
    by simp
  ultimately show ?thesis using c0(1) by simp
qed

lemma htcp_cong_avoid_total:
  assumes tp: "base_ok cap tp" and ca: "htcp_inv True ca" and rtt: "8 \<le> unat (srtt tp)" "unat (srtt tp) < 2 ^ 31"
  shows "\<exists>tp' ca'. htcp_cong_avoid p k ack rt in_flight flag (tp, ca) = Some (tp', ca') \<and>
    base_ok cap tp' \<and> htcp_inv True ca'"
proof -
  obtain c1 where c1: "htcp_measure_rtt k tp ca = Some c1" "htcp_inv True c1"
    using htcp_measure_rtt_total [OF ca rtt] by blast
  then obtain a where a: "htcp_alpha_update p k c1 = Some (c1\<lparr>ht_alpha := a\<rparr>)" "a \<noteq> 0"
    using htcp_alpha_update_total [of c1 p k] unfolding htcp_inv_def by blast
  obtain tp1 where tp1: "tcp_slow_start k tp = Some tp1" "window_grown tp tp1"
    using tcp_slow_start_total [OF base_ok_cwnd [OF tp]] by blast
  define tp2 where "tp2 = tp\<lparr>snd_cwnd := (if snd_cwnd tp < snd_cwnd_clamp tp then snd_cwnd tp + 1 else snd_cwnd tp), snd_cwnd_cnt := 0\<rparr>"
  have "window_grown tp tp2"
    by (auto simp: tp2_def window_grown_def word_as_nat unat_Suc_less unat_max)
  then have "base_ok cap tp2" using tp window_grown_base_ok by blast
  moreover have "base_ok cap (tp\<lparr>snd_cwnd_cnt := x\<rparr>)" for x using tp by (simp add: base_ok_def)
  moreover have "htcp_inv True (c1\<lparr>ht_alpha := a, ht_pkts_acked := 1\<rparr>)" "htcp_inv True (c1\<lparr>ht_pkts_acked := 1\<rparr>)"
    using c1(2) a(2) by (simp_all add: htcp_inv_def)
  ultimately show ?thesis
    using c1 a tp1 tp ca window_grown_base_ok
    by (simp add: htcp_cong_avoid_def Let_def flip: tp2_def)
qed

lemma measure_achieved_throughput_total:
  assumes "htcp_inv b ca"
  shows "\<exists>ca'. measure_achieved_throughput p k n t (tp, ca) = Some (tp, ca') \<and> htcp_inv b ca'"
proof -
  have "now - last_t \<noteq> 0" if "m \<le> now - last_t" "0 < m" for now last_t m :: u32
    using that by auto
  then show ?thesis
    using assms by (auto simp: measure_achieved_throughput_def Let_def htcp_ccount_def htcp_inv_def cdiv_def)
qed

interpretation htcp: cong_module "htcp_ops htcp_defaults" htcp_inv
  "\<lambda>i. 8 \<le> unat (in_srtt i) \<and> unat (in_srtt i) < 2 ^ 31" 2147483647
proof unfold_locales
  fix tp :: tcp_sock and b ca k
  assume "base_ok 2147483647 tp" "htcp_inv b ca"
  then show "\<exists>v tp' ca'. op_ssthresh (htcp_ops htcp_defaults) k (tp, ca) = Some (v, (tp', ca')) \<and> 2 \<le> v \<and>
      v \<le> 2147483647 \<and> base_ok 2147483647 tp' \<and> htcp_inv b ca'"
    using htcp_recalc_total [of ca htcp_defaults k tp] by (auto simp: htcp_ops_def htcp_inv_def)
next
  fix tp :: tcp_sock and ca i ack in_flight flag
  assume "base_ok 2147483647 tp" "htcp_inv True ca" "8 \<le> unat (in_srtt i) \<and> unat (in_srtt i) < 2 ^ 31" "ack_seen i tp"
  then show "\<exists>tp' ca'. op_cong_avoid (htcp_ops htcp_defaults) (in_kern i) ack (in_seq_rtt i) in_flight flag (tp, ca) =
      Some (tp', ca') \<and> base_ok 2147483647 tp' \<and> htcp_inv True ca'"
    using htcp_cong_avoid_total by (simp add: htcp_ops_def ack_seen_def)
next
  fix tp :: tcp_sock and ca i g
  assume "op_init (htcp_ops htcp_defaults) = Some g" "base_ok 2147483647 tp"
  then show "\<exists>tp' ca'. g (in_kern i) (tp, ca) = Some (tp', ca') \<and> base_ok 2147483647 tp' \<and> ack_frame tp tp' \<and>
      htcp_inv True ca'"
    using htcp_beta_range(1) by (auto simp: htcp_ops_def htcp_init_def htcp_inv_def ALPHA_BASE_def)
next
  fix tp :: tcp_sock and ca i p
  assume "op_pkts_acked (htcp_ops htcp_defaults) = Some p" "base_ok 2147483647 tp" "htcp_inv True ca"
  then show "\<exists>tp' ca'. p (in_kern i) (in_acked i) (in_last_ackt i) (tp, ca) = Some (tp', ca') \<and>
      base_ok 2147483647 tp' \<and> ack_frame tp tp' \<and> htcp_inv True ca'"
    using measure_achieved_throughput_total [of True ca htcp_defaults "in_kern i" "in_acked i" "in_last_ackt i" tp]
    by (auto simp: htcp_ops_def)
next
  fix h and tp :: tcp_sock and b ca k st
  assume "op_set_state (htcp_ops htcp_defaults) = Some h" "base_ok 2147483647 tp" "htcp_inv b ca"
  then show "\<exists>tp' ca'. h k st (tp, ca) = Some (tp', ca') \<and> base_ok 2147483647 tp' \<and> htcp_inv b ca'"
    by (auto simp: htcp_ops_def htcp_state_def htcp_reset_def htcp_inv_def)
qed (simp_all add: htcp_ops_def)

subsection \<open>Properties\<close>

text \<open>
  H-TCP at a congestion event, from any private state whose smallest round-trip time is below
  \<open>2 ^ 28\<close> and for windows up to \<open>2 ^ 25\<close>: the new \<open>beta\<close> is between 0.5 and 0.8 in 128ths, the
  threshold is exactly \<open>beta\<close> times the window (at least 2), hence at least half of it and not above it,
  and the new \<open>alpha\<close> is positive.
\<close>

theorem htcp_recalc_ssthresh_correct:
  assumes "unat (ht_minRTT ca) < 2 ^ 28" "unat (snd_cwnd tp) \<le> 2 ^ 25"
  shows "\<exists>v ca'. htcp_recalc_ssthresh p k (tp, ca) = Some (v, (tp, ca')) \<and>
    64 \<le> unat (ht_beta ca') \<and> unat (ht_beta ca') \<le> 102 \<and> ht_alpha ca' \<noteq> 0 \<and>
    unat v = max (unat (snd_cwnd tp) * unat (ht_beta ca') div 128) 2 \<and>
    unat (snd_cwnd tp) div 2 \<le> unat v \<and> unat v \<le> max (unat (snd_cwnd tp)) 2"
proof -
  obtain ca' where ca': "htcp_param_update p k ca = Some ca'" "htcp_inv True ca'"
    using htcp_param_update_total [OF assms(1)] by blast
  then have b: "64 \<le> unat (ht_beta ca')" "unat (ht_beta ca') \<le> 102" "ht_alpha ca' \<noteq> 0"
    by (simp_all add: htcp_inv_def)
  note v = htcp_ssthresh_value [OF b(1,2) assms(2)]
  have "htcp_recalc_ssthresh p k (tp, ca) =
      Some (max (drop_bit 7 (snd_cwnd tp * ucast (ht_beta ca'))) 2, (tp, ca'))"
    using ca'(1) by (simp add: htcp_recalc_ssthresh_def)
  moreover have "unat (snd_cwnd tp) div 2 \<le> max (unat (snd_cwnd tp) * unat (ht_beta ca') div 128) 2"
    "max (unat (snd_cwnd tp) * unat (ht_beta ca') div 128) 2 \<le> max (unat (snd_cwnd tp)) 2"
    using v(2,3) by (simp add: le_max_iff_disj) (rule max.mono, simp_all add: v(3))
  ultimately show ?thesis using b v(1) by (metis (no_types, lifting))
qed

definition example_htcp :: htcp where
  "example_htcp =
     \<lparr>ht_alpha = 128, ht_beta = 64, ht_modeswitch = 1, ht_pkts_acked = 1, ht_packetcount = 0,
      ht_minRTT = 100, ht_maxRTT = 150, ht_last_cong = 1000, ht_undo_last_cong = 0,
      ht_undo_maxRTT = 0, ht_undo_old_maxB = 0, ht_minB = 900, ht_maxB = 1000, ht_old_maxB = 1000, ht_Bi = 1000,
      ht_lasttime = 4000\<rparr>"

theorem htcp_recalc_ssthresh_correct_witness:
  "\<exists>v ca'. htcp_recalc_ssthresh htcp_defaults example_kern ((example_sock 2)\<lparr>snd_cwnd := 100\<rparr>, example_htcp) =
       Some (v, ((example_sock 2)\<lparr>snd_cwnd := 100\<rparr>, ca')) \<and> 50 \<le> unat v \<and> unat v \<le> 100"
  using htcp_recalc_ssthresh_correct [of example_htcp "(example_sock 2)\<lparr>snd_cwnd := 100\<rparr>" htcp_defaults example_kern]
  by (auto simp: example_htcp_def)

text \<open>
  When the smoothed round-trip time is below one millisecond (\<open>srtt\<close>, in eighths, below 8) and no
  minimum is known, H-TCP records a minimum of 0; in the open state with a threshold below 65535 the
  next statement divides the time since the last congestion by it, which traps.
\<close>

theorem htcp_sub_millisecond_trap:
  assumes "srtt tp < 8" "ht_minRTT ca = 0" "icsk_ca_state tp = TCP_CA_Open" "snd_ssthresh tp < 0xFFFF"
    and "snd_cwnd tp \<le> in_flight" "snd_ssthresh tp < snd_cwnd tp"
  shows "htcp_cong_avoid p k ack rtt in_flight flag (tp, ca) = None"
proof -
  have "unat (drop_bit 3 (srtt tp)) = 0"
    using assms(1) by (simp add: unat_drop_bit_div word_less_nat_alt)
  then have "drop_bit 3 (srtt tp) = 0" by (simp add: unat_eq_zero)
  moreover have "\<not> snd_cwnd tp \<le> snd_ssthresh tp" using assms(6) by simp
  ultimately show ?thesis
    using assms by (simp add: htcp_cong_avoid_def htcp_measure_rtt_def Let_def htcp_ccount_def tcp_is_cwnd_limited_def)
qed

theorem htcp_sub_millisecond_trap_witness:
  "htcp_cong_avoid htcp_defaults example_kern 1 0 4 1
     ((example_sock 2)\<lparr>srtt := 7\<rparr>, example_htcp\<lparr>ht_minRTT := 0\<rparr>) = None"
  using htcp_sub_millisecond_trap [of "(example_sock 2)\<lparr>srtt := 7\<rparr>" "example_htcp\<lparr>ht_minRTT := 0\<rparr>" 4
      htcp_defaults example_kern 1 0 1] by simp

end
