(* ===== verification/Delay_Based.thy ===== *)
theory Delay_Based
  imports Reno
begin

section \<open>What the delay-based modules share\<close>

text \<open>
  Vegas, Veno, YeAH, Illinois and Compound read the round-trip time from the time stamp of the
  acknowledged packet in the same way, and the first three and Compound estimate the queue of the
  connection from the ratio of the base round-trip time to the current one. The lemmas give the sample in
  microseconds, the queue estimate without wrap-around, and the clamping at the end of the
  adjustment.
\<close>

text \<open>The sample in microseconds, plus one.\<close>

definition delay_sample :: "kern \<Rightarrow> s64 \<Rightarrow> u32" where
  "delay_sample k last_t = ucast (ktime_to_us (net_timedelta k last_t) + 1)"

text \<open>A sample taken after the packet left and within 71 minutes of it.\<close>

definition sample_env :: "ack_in \<Rightarrow> bool" where
  "sample_env i \<longleftrightarrow> 0 \<le> sint (net_timedelta (in_kern i) (in_last_ackt i)) \<and>
     sint (net_timedelta (in_kern i) (in_last_ackt i)) < 4294967295000"

lemma sdiv_nonneg: "0 \<le> (a :: int) \<Longrightarrow> a sdiv 1000 = a div 1000"
  by (simp add: signed_divide_int_def sgn_if abs_if)

lemma delay_sample_value:
  assumes "0 \<le> sint (net_timedelta k t)" "sint (net_timedelta k t) < 4294967295000"
  shows "int (unat (delay_sample k t)) = sint (net_timedelta k t) div 1000 + 1"
proof -
  define d where "d = sint (net_timedelta k t) div 1000"
  have d: "0 \<le> d" "d < 4294967295" using assms by (simp_all add: d_def)
  have "delay_sample k t = ucast (word_of_int d + 1 :: s64)"
    using assms(1) by (simp add: delay_sample_def ktime_to_us_def sdiv_nonneg d_def)
  also have "\<dots> = (ucast (word_of_int (d + 1) :: s64) :: u32)" by simp
  finally have v: "delay_sample k t = ucast (word_of_int (d + 1) :: s64)" .
  have "uint (word_of_int (d + 1) :: s64) = d + 1"
    unfolding uint_word_of_int_eq using d by (simp add: take_bit_int_eq_self)
  then have "uint (delay_sample k t) = d + 1"
    unfolding v using d by (simp add: unsigned_ucast_eq take_bit_int_eq_self)
  then show ?thesis by (simp add: d_def)
qed

lemma delay_sample_neq_0:
  assumes "0 \<le> sint (net_timedelta k t)" "sint (net_timedelta k t) < 4294967295000"
  shows "delay_sample k t \<noteq> 0"
proof -
  have "0 \<le> sint (net_timedelta k t) div 1000" using assms(1) by simp
  then have "0 < unat (delay_sample k t)" using delay_sample_value [OF assms] by linarith
  then show ?thesis by (simp add: word_neq_0_iff_unat)
qed

definition step_towards :: "u32 \<Rightarrow> u32 \<Rightarrow> u32" where
  "step_towards target w = (if w < target then w + 1 else if target < w then w - 1 else w)"

text \<open>The end of the adjustment keeps the window between 2 and the clamp.\<close>

definition clamp_window :: "tcp_sock \<Rightarrow> u32" where
  "clamp_window tp =
     (if snd_cwnd tp < 2 then 2 else if snd_cwnd_clamp tp < snd_cwnd tp then snd_cwnd_clamp tp else snd_cwnd tp)"

lemma base_min_div:
  fixes w b m :: nat
  assumes "b \<le> m" "0 < m"
  shows "2 * (w * b) div m \<le> 2 * w"
proof -
  have "2 * (w * b) div m \<le> 2 * (w * m) div m" using assms(1) by (intro div_le_mono) simp
  then show ?thesis using assms(2) by (simp add: mult.assoc [symmetric])
qed

text \<open>The queue estimate of a window \<open>w\<close>, in half packets: with the base round-trip time \<open>b\<close> at most
  the current one \<open>m\<close> it does not underflow, and it is exact while \<open>w * b\<close> fits in 31 bits.\<close>

lemma queue_estimate:
  fixes w b m :: u32
  assumes "b \<noteq> 0" "b \<le> m" "unat w * unat b < 2 ^ 31"
  shows "m \<noteq> 0 \<and> unat (push_bit 1 (w * b) div m) = 2 * (unat w * unat b) div unat m \<and>
    unat (push_bit 1 w - push_bit 1 (w * b) div m) = 2 * unat w - 2 * (unat w * unat b) div unat m"
proof -
  define T where "T = push_bit 1 (w * b) div m"
  define P where "P = push_bit 1 w"
  have bm: "0 < unat b" "unat b \<le> unat m" using assms(1,2) by (simp_all add: word_as_nat)
  then have "m \<noteq> 0" by (simp add: word_neq_0_iff_unat)
  define n where "n = unat w * unat b"
  have n: "n < 2 ^ 31" using assms(3) by (simp only: n_def)
  have mul: "unat (w * b) = n" using assms(3) unfolding n_def by (intro unat_mult_nowrap) simp
  have "unat (push_bit 1 (w * b)) = unat (w * b) * 2 ^ 1"
    by (rule unat_push_bit_nowrap) (use n mul in simp)
  then have "unat (push_bit 1 (w * b)) = unat w * unat b * 2"
    by (simp only: mul n_def power_one_right)
  then have t: "unat T = 2 * (unat w * unat b) div unat m"
    by (simp only: T_def unat_div_word mult.commute [of _ 2])
  have "unat w * 1 \<le> unat w * unat b" using bm(1) by (intro mult_le_mono) simp_all
  then have "unat w < 2 ^ 31" using assms(3) by linarith
  then have w2: "unat P = 2 * unat w"
    unfolding P_def by (subst unat_push_bit_nowrap) simp_all
  have "2 * (unat w * unat b) div unat m \<le> 2 * unat w" using bm by (intro base_min_div) simp_all
  then have "T \<le> P" by (simp add: word_le_nat_alt t w2)
  then have "unat (P - T) = 2 * unat w - 2 * (unat w * unat b) div unat m"
    by (simp add: unat_sub_le t w2)
  then show ?thesis using t \<open>m \<noteq> 0\<close> unfolding T_def P_def by blast
qed

lemma clamp_window_base_ok:
  assumes "2 \<le> cap" "snd_cwnd_clamp tp \<noteq> 0" "snd_cwnd_clamp tp \<le> cap" "2 \<le> snd_ssthresh tp" "snd_ssthresh tp \<le> cap"
    and "mss_cache tp \<noteq> 0"
  shows "base_ok cap (tp\<lparr>snd_cwnd := clamp_window tp\<rparr>)"
proof -
  have "clamp_window tp \<noteq> 0" "clamp_window tp \<le> cap"
    using assms by (auto simp: clamp_window_def)
  then show ?thesis using assms by (simp add: base_ok_def)
qed

lemma clamp_window_range: "2 \<le> snd_cwnd_clamp tp \<Longrightarrow> 2 \<le> clamp_window tp \<and> clamp_window tp \<le> snd_cwnd_clamp tp"
  by (auto simp: clamp_window_def)

lemma target_half_neq_0: "drop_bit 1 (t :: u32) + 1 \<noteq> 0"
proof -
  have "unat (drop_bit 1 t) < 2 ^ 31" using unat_lt_u32 [of t] by (simp add: unat_drop_bit_div)
  then have "unat (drop_bit 1 t + 1) = Suc (unat (drop_bit 1 t))" by (intro unat_inc) simp
  then show ?thesis by (simp only: word_neq_0_iff_unat)
qed

end
