(* ===== verification/Vegas.thy ===== *)
theory Vegas
  imports Delay_Based
begin

section \<open>TCP Vegas (\<open>src/tcp_vegas.c\<close>, \<open>src/tcp_vegas.h\<close>)\<close>

text \<open>
  Vegas estimates, once per round trip, how many packets the connection keeps in the queues of the
  network, \<open>diff = old_wnd - old_wnd * baseRTT / minRTT\<close> (with one fractional bit), and moves the
  window by at most one packet to keep it between \<open>alpha\<close> and \<open>beta\<close>. The lemmas say that the
  base round-trip time never exceeds the minimum of the round (so \<open>diff\<close> does not underflow), that no
  division traps, that the window stays between 2 and the clamp, and up to which product of window and
  base round-trip time the 32-bit target is exact.
\<close>

record vegas_params =
  vg_alpha :: s32
  vg_beta :: s32
  vg_gamma :: s32

definition vegas_defaults :: vegas_params where
  "vegas_defaults = \<lparr>vg_alpha = push_bit 1 2, vg_beta = push_bit 1 4, vg_gamma = push_bit 1 1\<rparr>"

record vegas =
  beg_snd_nxt :: u32
  beg_snd_una :: u32
  beg_snd_cwnd :: u32
  doing_vegas_now :: u8
  cntRTT :: u16
  minRTT :: u32
  baseRTT :: u32

definition vegas_enable :: "tcp_sock \<Rightarrow> vegas \<Rightarrow> vegas" where
  "vegas_enable tp v =
     v\<lparr>doing_vegas_now := 1, beg_snd_nxt := snd_nxt tp, cntRTT := 0, minRTT := 0x7fffffff\<rparr>"

definition vegas_disable :: "vegas \<Rightarrow> vegas" where
  "vegas_disable v = v\<lparr>doing_vegas_now := 0\<rparr>"

definition tcp_vegas_init :: "tcp_sock \<Rightarrow> vegas \<Rightarrow> vegas" where
  "tcp_vegas_init tp v = vegas_enable tp (v\<lparr>baseRTT := 0x7fffffff\<rparr>)"

definition tcp_vegas_pkts_acked :: "kern \<Rightarrow> u32 \<Rightarrow> s64 \<Rightarrow> vegas \<Rightarrow> vegas" where
  "tcp_vegas_pkts_acked k cnt last_t v =
     (if ktime_equal last_t net_invalid_timestamp then v
      else let vrtt = delay_sample k last_t in
           v\<lparr>baseRTT := (if vrtt < baseRTT v then vrtt else baseRTT v),
             minRTT := min (minRTT v) vrtt, cntRTT := cntRTT v + 1\<rparr>)"

definition tcp_vegas_state :: "u8 \<Rightarrow> tcp_sock \<Rightarrow> vegas \<Rightarrow> vegas" where
  "tcp_vegas_state ca_state tp v =
     (if ca_state = TCP_CA_Open then vegas_enable tp v else vegas_disable v)"

definition tcp_vegas_cwnd_event :: "tcp_ca_event \<Rightarrow> tcp_sock \<Rightarrow> vegas \<Rightarrow> vegas" where
  "tcp_vegas_cwnd_event ev tp v =
     (if ev = CA_EVENT_CWND_RESTART \<or> ev = CA_EVENT_TX_START then tcp_vegas_init tp v else v)"

text \<open>\<open>next_snd_cwnd\<close>, and the step of one packet towards it.\<close>

definition vegas_next_cwnd :: "vegas_params \<Rightarrow> u32 \<Rightarrow> u32 \<Rightarrow> u32" where
  "vegas_next_cwnd p old_snd_cwnd diff =
     (if vg_beta p < diff then old_snd_cwnd - 1
      else if diff < vg_alpha p then old_snd_cwnd + 1
      else old_snd_cwnd)"

definition vegas_target :: "u32 \<Rightarrow> vegas \<Rightarrow> u32 option" where
  "vegas_target old_wnd v = cdiv (push_bit 1 (old_wnd * baseRTT v)) (minRTT v)"

text \<open>Slow start that goes too fast ends, at the window of the actual rate.\<close>

definition vegas_slow_down :: "vegas_params \<Rightarrow> u32 \<Rightarrow> u32 \<Rightarrow> tcp_sock \<Rightarrow> tcp_sock" where
  "vegas_slow_down p diff target tp =
     (if vg_gamma p < diff
      then tp\<lparr>snd_ssthresh := 2, snd_cwnd := min (snd_cwnd tp) (drop_bit 1 target + 1)\<rparr>
      else tp)"

text \<open>The once-per-round adjustment, with enough samples.\<close>

definition vegas_adjust ::
  "vegas_params \<Rightarrow> kern \<Rightarrow> u32 \<Rightarrow> u32 \<Rightarrow> vegas \<Rightarrow> tcp_sock \<Rightarrow> tcp_sock option" where
  "vegas_adjust p k old_wnd old_snd_cwnd v tp = do {
     target \<leftarrow> vegas_target old_wnd v;
     let diff = push_bit 1 old_wnd - target in
     do {
       tp \<leftarrow> (if snd_cwnd tp \<le> snd_ssthresh tp then tcp_slow_start k (vegas_slow_down p diff target tp)
             else Some (tp\<lparr>snd_cwnd := step_towards (vegas_next_cwnd p old_snd_cwnd diff) (snd_cwnd tp)\<rparr>));
       Some (tp\<lparr>snd_cwnd := clamp_window tp\<rparr>)
     }
   }"

definition tcp_vegas_cong_avoid ::
  "vegas_params \<Rightarrow> kern \<Rightarrow> u32 \<Rightarrow> u32 \<Rightarrow> u32 \<Rightarrow> s32 \<Rightarrow> vegas sock \<Rightarrow> vegas sock option" where
  "tcp_vegas_cong_avoid p k ack seq_rtt in_flight flag s =
     (let tp = fst s; v = snd s in
      if doing_vegas_now v = 0 then on_sock (tcp_reno_cong_avoid k ack seq_rtt in_flight flag) s
      else if after ack (beg_snd_nxt v)
      then do {
        old_wnd \<leftarrow> cdiv (beg_snd_nxt v - beg_snd_una v) (mss_cache tp);
        let old_snd_cwnd = beg_snd_cwnd v;
            v = v\<lparr>beg_snd_una := beg_snd_nxt v, beg_snd_nxt := snd_nxt tp, beg_snd_cwnd := snd_cwnd tp\<rparr> in
        do {
          tp \<leftarrow> (if cntRTT v \<le> 2 then tcp_reno_cong_avoid k ack seq_rtt in_flight flag tp
                else vegas_adjust p k old_wnd old_snd_cwnd v tp);
          Some (tp, v\<lparr>cntRTT := 0, minRTT := 0x7fffffff\<rparr>)
        }
      }
      else if snd_cwnd tp \<le> snd_ssthresh tp then on_sock (tcp_slow_start k) s
      else Some s)"

text \<open>The body of \<open>tcp_vegas_get_info\<close> is a comment: it does nothing.\<close>

definition tcp_vegas_get_info :: "vegas sock \<Rightarrow> vegas sock" where
  "tcp_vegas_get_info s = s"

definition tcp_vegas :: "vegas_params \<Rightarrow> vegas tcp_congestion_ops" where
  "tcp_vegas p =
     \<lparr>op_flags = TCP_CONG_RTT_STAMP,
      op_name = ''vegas'',
      op_init = Some (\<lambda>k s. Some (fst s, tcp_vegas_init (fst s) (snd s))),
      op_ssthresh = (\<lambda>k s. Some (tcp_reno_ssthresh (fst s), s)),
      op_min_cwnd = Some (\<lambda>k s. Some (tcp_reno_min_cwnd (fst s))),
      op_cong_avoid = tcp_vegas_cong_avoid p,
      op_rtt_sample = None,
      op_set_state = Some (\<lambda>k st s. Some (fst s, tcp_vegas_state st (fst s) (snd s))),
      op_cwnd_event = Some (\<lambda>k ev s. Some (fst s, tcp_vegas_cwnd_event ev (fst s) (snd s))),
      op_undo_cwnd = None,
      op_pkts_acked = Some (\<lambda>k n t s. Some (fst s, tcp_vegas_pkts_acked k n t (snd s)))\<rparr>"

subsection \<open>The samples\<close>

text \<open>After \<open>init\<close>: the base is positive and at most the minimum of the round.\<close>

definition vegas_inv :: "bool \<Rightarrow> vegas \<Rightarrow> bool" where
  "vegas_inv b v \<longleftrightarrow> (b \<longrightarrow> baseRTT v \<noteq> 0 \<and> baseRTT v \<le> 0x7fffffff \<and> baseRTT v \<le> minRTT v)"

lemma vegas_pkts_acked_inv:
  assumes "vegas_inv True v" "delay_sample k t \<noteq> 0"
  shows "vegas_inv True (tcp_vegas_pkts_acked k n t v)"
  using assms by (auto simp: vegas_inv_def tcp_vegas_pkts_acked_def Let_def)

lemma vegas_init_inv: "vegas_inv b (tcp_vegas_init tp v)"
  by (simp add: vegas_inv_def tcp_vegas_init_def vegas_enable_def)

lemma vegas_state_inv: "vegas_inv b v \<Longrightarrow> vegas_inv b (tcp_vegas_state st tp v)"
  by (simp add: vegas_inv_def tcp_vegas_state_def vegas_enable_def vegas_disable_def)

lemma vegas_event_inv: "vegas_inv b v \<Longrightarrow> vegas_inv b (tcp_vegas_cwnd_event ev tp v)"
  by (simp add: tcp_vegas_cwnd_event_def vegas_init_inv)

subsection \<open>The target\<close>

lemma vegas_target_total:
  "minRTT v \<noteq> 0 \<Longrightarrow> \<exists>t. vegas_target old_wnd v = Some t"
  by (simp add: vegas_target_def)

lemma vegas_target_exact:
  assumes "baseRTT v \<noteq> 0" "baseRTT v \<le> minRTT v" "unat w * unat (baseRTT v) < 2 ^ 31"
  shows "\<exists>t. vegas_target w v = Some t \<and> unat t = 2 * (unat w * unat (baseRTT v)) div unat (minRTT v) \<and>
    unat (push_bit 1 w - t) = 2 * unat w - 2 * (unat w * unat (baseRTT v)) div unat (minRTT v)"
  using queue_estimate [OF assms] assms(1,2) by (auto simp: vegas_target_def cdiv_eq_Some_iff)

subsection \<open>The window\<close>

lemma vegas_adjust_total:
  assumes tp: "base_ok cap tp" and v: "minRTT v \<noteq> 0" and cap: "2 \<le> cap"
  shows "\<exists>tp1. vegas_adjust p k old_wnd old_snd_cwnd v tp = Some (tp1\<lparr>snd_cwnd := clamp_window tp1\<rparr>) \<and>
    snd_cwnd_clamp tp1 = snd_cwnd_clamp tp \<and> base_ok cap (tp1\<lparr>snd_cwnd := clamp_window tp1\<rparr>)"
proof -
  obtain t where t: "vegas_target old_wnd v = Some t" using vegas_target_total [OF v] by blast
  define diff where "diff = push_bit 1 old_wnd - t"
  define tp0 where "tp0 = vegas_slow_down p diff t tp"
  have b: "snd_cwnd_clamp tp \<noteq> 0" "snd_cwnd_clamp tp \<le> cap" "2 \<le> snd_ssthresh tp" "snd_ssthresh tp \<le> cap"
    "mss_cache tp \<noteq> 0" "snd_cwnd tp \<noteq> 0"
    using tp by (simp_all add: base_ok_def)
  have "snd_cwnd tp0 \<noteq> 0" using b(6) target_half_neq_0 [of t] by (simp add: tp0_def vegas_slow_down_def min_def)
  then obtain tps where tps: "tcp_slow_start k tp0 = Some tps" "window_grown tp0 tps"
    using tcp_slow_start_total by blast
  define tpa where "tpa = tp\<lparr>snd_cwnd := step_towards (vegas_next_cwnd p old_snd_cwnd diff) (snd_cwnd tp)\<rparr>"
  define tp1 where "tp1 = (if snd_cwnd tp \<le> snd_ssthresh tp then tps else tpa)"
  have f: "snd_cwnd_clamp tp1 = snd_cwnd_clamp tp" "mss_cache tp1 = mss_cache tp" "2 \<le> snd_ssthresh tp1"
    "snd_ssthresh tp1 \<le> cap"
    using b(3,4) cap by (simp_all add: tp1_def tpa_def window_grown_frame [OF tps(2)] tp0_def vegas_slow_down_def)
  have "vegas_adjust p k old_wnd old_snd_cwnd v tp = Some (tp1\<lparr>snd_cwnd := clamp_window tp1\<rparr>)"
    using t tps(1)
    by (cases "snd_cwnd tp \<le> snd_ssthresh tp")
      (simp_all add: vegas_adjust_def Let_def tp1_def tp0_def tpa_def diff_def)
  moreover have "base_ok cap (tp1\<lparr>snd_cwnd := clamp_window tp1\<rparr>)"
    using f b by (intro clamp_window_base_ok [OF cap]) simp_all
  ultimately show ?thesis using f(1) by blast
qed

lemma vegas_cong_avoid_total:
  assumes tp: "base_ok cap tp" and v: "vegas_inv True v" and cap: "2 \<le> cap"
  shows "\<exists>tp' v'. tcp_vegas_cong_avoid p k ack rtt in_flight flag (tp, v) = Some (tp', v') \<and> base_ok cap tp' \<and> vegas_inv True v'"
proof -
  define v1 where "v1 = v\<lparr>beg_snd_una := beg_snd_nxt v, beg_snd_nxt := snd_nxt tp, beg_snd_cwnd := snd_cwnd tp\<rparr>"
  define w where "w = (beg_snd_nxt v - beg_snd_una v) div mss_cache tp"
  have "minRTT v1 \<noteq> 0" using v by (auto simp: v1_def vegas_inv_def)
  then obtain tpa where tpa: "vegas_adjust p k w (beg_snd_cwnd v) v1 tp = Some tpa" "base_ok cap tpa"
    using vegas_adjust_total [OF tp _ cap] by blast
  obtain tpr where tpr: "tcp_reno_cong_avoid k ack rtt in_flight flag tp = Some tpr" "window_grown tp tpr"
    using tcp_reno_cong_avoid_total [OF base_ok_cwnd [OF tp]] by blast
  obtain tps where tps: "tcp_slow_start k tp = Some tps" "window_grown tp tps"
    using tcp_slow_start_total [OF base_ok_cwnd [OF tp]] by blast
  have "mss_cache tp \<noteq> 0" using tp by (simp add: base_ok_def)
  moreover have "vegas_inv True (v1\<lparr>cntRTT := 0, minRTT := 0x7fffffff\<rparr>)"
    using v by (simp add: v1_def vegas_inv_def)
  ultimately show ?thesis
    using tpa tpr tps tp v window_grown_base_ok
    by (simp add: tcp_vegas_cong_avoid_def Let_def flip: v1_def w_def)
qed

text \<open>The same without the bounds on threshold and clamp.\<close>

lemma vegas_cong_avoid_inv:
  assumes v: "vegas_inv True v" and tp: "mss_cache tp \<noteq> 0" "snd_cwnd tp \<noteq> 0"
  shows "\<exists>tp' v'. tcp_vegas_cong_avoid p k ack rtt in_flight flag (tp, v) = Some (tp', v') \<and> vegas_inv True v'"
proof -
  have ss: "\<exists>tps. tcp_slow_start k (vegas_slow_down p d t tp) = Some tps" for d t
  proof -
    have "snd_cwnd (vegas_slow_down p d t tp) \<noteq> 0"
      using tp(2) target_half_neq_0 [of t] by (simp add: vegas_slow_down_def min_def)
    then show ?thesis using tcp_slow_start_total by blast
  qed
  have adj: "\<exists>tpa. vegas_adjust p k w o1 u tp = Some tpa" if u: "minRTT u \<noteq> 0" for w o1 u
  proof -
    obtain t where "vegas_target w u = Some t" using vegas_target_total [OF u] by blast
    then show ?thesis using ss [of "push_bit 1 w - t" t] by (auto simp: vegas_adjust_def Let_def)
  qed
  define v1 where "v1 = v\<lparr>beg_snd_una := beg_snd_nxt v, beg_snd_nxt := snd_nxt tp, beg_snd_cwnd := snd_cwnd tp\<rparr>"
  define w where "w = (beg_snd_nxt v - beg_snd_una v) div mss_cache tp"
  have "minRTT v1 \<noteq> 0" using v by (auto simp: v1_def vegas_inv_def)
  then obtain tpa where "vegas_adjust p k w (beg_snd_cwnd v) v1 tp = Some tpa" using adj by blast
  moreover obtain tpr tps where "tcp_reno_cong_avoid k ack rtt in_flight flag tp = Some tpr" "tcp_slow_start k tp = Some tps"
    using tcp_reno_cong_avoid_total [OF tp(2)] tcp_slow_start_total [OF tp(2)] by blast
  moreover have "vegas_inv True (v1\<lparr>cntRTT := 0, minRTT := 0x7fffffff\<rparr>)"
    using v by (simp add: v1_def vegas_inv_def)
  ultimately show ?thesis
    using tp v by (simp add: tcp_vegas_cong_avoid_def Let_def flip: v1_def w_def)
qed

interpretation vegas: cong_module "tcp_vegas vegas_defaults" vegas_inv sample_env "- 1"
proof unfold_locales
  fix tp :: tcp_sock and v i ack in_flight flag
  assume "base_ok (- 1) tp" "vegas_inv True v"
  then show "\<exists>tp' v'. op_cong_avoid (tcp_vegas vegas_defaults) (in_kern i) ack (in_seq_rtt i) in_flight flag (tp, v) =
      Some (tp', v') \<and> base_ok (- 1) tp' \<and> vegas_inv True v'"
    using vegas_cong_avoid_total by (simp add: tcp_vegas_def)
next
  fix f :: "kern \<Rightarrow> vegas sock \<Rightarrow> u32 option" and tp v k
  assume f: "op_min_cwnd (tcp_vegas vegas_defaults) = Some f" and tp: "base_ok (- 1) tp"
  have "f = (\<lambda>k s. Some (tcp_reno_min_cwnd (fst s)))" using f by (simp add: tcp_vegas_def)
  moreover have "tcp_reno_min_cwnd tp \<noteq> 0"
    using tp by (intro tcp_reno_min_cwnd_neq_0) (simp add: base_ok_def)
  ultimately show "\<exists>w. f k (tp, v) = Some w \<and> w \<noteq> 0 \<and> w \<le> - 1"
    by simp
next
  fix tp :: tcp_sock and v i p
  assume "op_pkts_acked (tcp_vegas vegas_defaults) = Some p" "base_ok (- 1) tp" "vegas_inv True v" "sample_env i"
  then show "\<exists>tp' v'. p (in_kern i) (in_acked i) (in_last_ackt i) (tp, v) = Some (tp', v') \<and>
      base_ok (- 1) tp' \<and> ack_frame tp tp' \<and> vegas_inv True v'"
    using vegas_pkts_acked_inv delay_sample_neq_0 by (auto simp: tcp_vegas_def sample_env_def)
next
  fix h and tp :: tcp_sock and b v k st
  assume "op_set_state (tcp_vegas vegas_defaults) = Some h" "base_ok (- 1) tp" "vegas_inv b v"
  then show "\<exists>tp' v'. h k st (tp, v) = Some (tp', v') \<and> base_ok (- 1) tp' \<and> vegas_inv b v'"
    by (auto simp: tcp_vegas_def vegas_state_inv)
next
  fix e and tp :: tcp_sock and b v k ev
  assume "op_cwnd_event (tcp_vegas vegas_defaults) = Some e" "base_ok (- 1) tp" "vegas_inv b v"
  then show "\<exists>tp' v'. e k ev (tp, v) = Some (tp', v') \<and> base_ok (- 1) tp' \<and> ack_frame tp tp' \<and> vegas_inv b v'"
    by (auto simp: tcp_vegas_def vegas_event_inv)
next
  fix tp :: tcp_sock and v i g
  assume "op_init (tcp_vegas vegas_defaults) = Some g" "base_ok (- 1) tp"
  then show "\<exists>tp' v'. g (in_kern i) (tp, v) = Some (tp', v') \<and> base_ok (- 1) tp' \<and> ack_frame tp tp' \<and> vegas_inv True v'"
    by (auto simp: tcp_vegas_def vegas_init_inv)
qed (simp_all add: tcp_vegas_def tcp_reno_ssthresh_ge)

subsection \<open>Properties\<close>

text \<open>
  C40. The once-per-round step of Vegas in congestion avoidance (a window above the threshold), with more than two samples: with the base
  round-trip time at most the minimum of the round, and its product with the window of the last round below \<open>2 ^ 31\<close>, the module estimates the packets queued in the network,
  \<open>old_wnd - old_wnd * baseRTT / minRTT\<close> in halves, without wrap-around, and moves the window
  by at most one packet: towards one less than the window of the last round above \<open>beta\<close> (4 packets),
  towards one more below \<open>alpha\<close> (2 packets), towards it in between; the result is kept between 2 and
  the clamp.
\<close>

theorem vegas_once_per_round:
  assumes "doing_vegas_now v \<noteq> 0" "beg_snd_nxt v < ack" "2 < cntRTT v" "snd_ssthresh tp < snd_cwnd tp"
    and "mss_cache tp \<noteq> 0" "baseRTT v \<noteq> 0" "baseRTT v \<le> minRTT v"
    and w: "w = (beg_snd_nxt v - beg_snd_una v) div mss_cache tp" "unat w * unat (baseRTT v) < 2 ^ 31"
    and d: "d = 2 * unat w - 2 * (unat w * unat (baseRTT v)) div unat (minRTT v)"
  shows "\<exists>tp' v'. tcp_vegas_cong_avoid vegas_defaults k ack rtt in_flight flag (tp, v) = Some (tp', v') \<and>
    tp' = tp\<lparr>snd_cwnd := snd_cwnd tp'\<rparr> \<and>
    snd_cwnd tp' = clamp_window (tp\<lparr>snd_cwnd := step_towards
      (if 8 < d then beg_snd_cwnd v - 1 else if d < 4 then beg_snd_cwnd v + 1 else beg_snd_cwnd v) (snd_cwnd tp)\<rparr>) \<and>
    (if 2 \<le> snd_cwnd_clamp tp then 2 \<le> snd_cwnd tp' \<and> snd_cwnd tp' \<le> snd_cwnd_clamp tp else True)"
proof -
  let ?v = "v\<lparr>beg_snd_una := beg_snd_nxt v, beg_snd_nxt := snd_nxt tp, beg_snd_cwnd := snd_cwnd tp\<rparr>"
  obtain t where t: "vegas_target w ?v = Some t" "unat (push_bit 1 w - t) = d"
    using vegas_target_exact [of ?v w] assms(6,7) w(2) d by auto
  define n where "n = (if 8 < d then beg_snd_cwnd v - 1 else if d < 4 then beg_snd_cwnd v + 1 else beg_snd_cwnd v)"
  define tp1 where "tp1 = tp\<lparr>snd_cwnd := step_towards n (snd_cwnd tp)\<rparr>"
  have n: "vegas_next_cwnd vegas_defaults (beg_snd_cwnd v) (push_bit 1 w - t) = n"
    unfolding vegas_next_cwnd_def n_def t(2) [symmetric] by (simp add: vegas_defaults_def word_less_nat_alt)
  have ss: "\<not> snd_cwnd tp \<le> snd_ssthresh tp" "\<not> cntRTT v \<le> 2" using assms(3,4) by simp_all
  have "vegas_adjust vegas_defaults k w (beg_snd_cwnd v) ?v tp = Some (tp1\<lparr>snd_cwnd := clamp_window tp1\<rparr>)"
    unfolding vegas_adjust_def t(1) Let_def bind.simps n if_not_P [OF ss(1)] tp1_def by (rule refl)
  then have "tcp_vegas_cong_avoid vegas_defaults k ack rtt in_flight flag (tp, v) =
      Some (tp1\<lparr>snd_cwnd := clamp_window tp1\<rparr>, ?v\<lparr>cntRTT := 0, minRTT := 0x7fffffff\<rparr>)"
    using assms(1,2,5) ss(2) by (simp add: tcp_vegas_cong_avoid_def Let_def after_def w(1))
  then show ?thesis
    using clamp_window_range [of tp1] by (simp add: n_def tp1_def)
qed

definition example_vegas :: vegas where
  "example_vegas = \<lparr>beg_snd_nxt = 14500, beg_snd_una = 7000, beg_snd_cwnd = 5, doing_vegas_now = 1, cntRTT = 4,
     minRTT = 100000, baseRTT = 90000\<rparr>"

theorem vegas_once_per_round_witness:
  "\<exists>tp' v'. tcp_vegas_cong_avoid vegas_defaults example_kern 15000 0 4 1 (example_sock 2, example_vegas) = Some (tp', v') \<and>
     snd_cwnd tp' = 5"
proof -
  have "\<exists>tp' v'. tcp_vegas_cong_avoid vegas_defaults example_kern 15000 0 4 1 (example_sock 2, example_vegas) = Some (tp', v') \<and>
      tp' = (example_sock 2)\<lparr>snd_cwnd := snd_cwnd tp'\<rparr> \<and>
      snd_cwnd tp' = clamp_window ((example_sock 2)\<lparr>snd_cwnd := step_towards
        (if (8 :: nat) < 1 then beg_snd_cwnd example_vegas - 1 else if (1 :: nat) < 4 then beg_snd_cwnd example_vegas + 1
         else beg_snd_cwnd example_vegas) (snd_cwnd (example_sock 2))\<rparr>) \<and>
      (if 2 \<le> snd_cwnd_clamp (example_sock 2) then 2 \<le> snd_cwnd tp' \<and> snd_cwnd tp' \<le> snd_cwnd_clamp (example_sock 2) else True)"
    by (rule vegas_once_per_round [where w = 5]) (simp_all add: example_vegas_def)
  moreover have "clamp_window ((example_sock 2)\<lparr>snd_cwnd := step_towards (beg_snd_cwnd example_vegas + 1) 4\<rparr>) = 5"
    by (simp add: clamp_window_def step_towards_def example_vegas_def)
  ultimately show ?thesis by auto
qed

text \<open>
  The 32-bit target of Vegas is exact while the window times the base round-trip time (in
  microseconds) is below \<open>2 ^ 31\<close>; beyond it wraps. A connection of 21475 packets with a constant
  round-trip time of 100 ms has nothing queued, but the code computes a target of 0 and takes the whole
  window for queued packets.
\<close>

theorem vegas_target_exact_and_wrap:
  "(if baseRTT v \<noteq> 0 \<and> baseRTT v \<le> minRTT v \<and> unat w * unat (baseRTT v) < 2 ^ 31
    then map_option unat (vegas_target w v) = Some (2 * (unat w * unat (baseRTT v)) div unat (minRTT v))
    else True) \<and>
   vegas_target 21475 (v\<lparr>baseRTT := 100000, minRTT := 100000\<rparr>) = Some 0"
proof -
  have "vegas_target 21475 (v\<lparr>baseRTT := 100000, minRTT := 100000\<rparr>) = Some 0"
    by (simp add: vegas_target_def)
  then show ?thesis using vegas_target_exact [of v w] by auto
qed

text \<open>
  ``Never allow zero rtt or baseRTT'': from \<open>init\<close> on, every operation of Vegas keeps the base
  round-trip time positive and at most the minimum of the round, for samples taken within 71 minutes of
  the departure of their packet, and no division of \<open>cong_avoid\<close> traps.
\<close>

theorem vegas_rtt_invariant:
  assumes "vegas_inv True v" "mss_cache tp \<noteq> 0" "snd_cwnd tp \<noteq> 0"
    and "0 \<le> sint (net_timedelta k t)" "sint (net_timedelta k t) < 4294967295000"
  shows "vegas_inv True (tcp_vegas_init tp u) \<and> vegas_inv True (tcp_vegas_pkts_acked k n t v) \<and>
    vegas_inv True (tcp_vegas_state st tp v) \<and> vegas_inv True (tcp_vegas_cwnd_event ev tp v) \<and>
    (case tcp_vegas_cong_avoid vegas_defaults k ack rtt in_flight flag (tp, v) of
       None \<Rightarrow> False | Some (tp', v') \<Rightarrow> vegas_inv True v')"
proof -
  have "\<exists>tp' v'. tcp_vegas_cong_avoid vegas_defaults k ack rtt in_flight flag (tp, v) = Some (tp', v') \<and> vegas_inv True v'"
    using vegas_cong_avoid_inv [OF assms(1-3)] by blast
  then show ?thesis
    using vegas_init_inv vegas_pkts_acked_inv [OF assms(1) delay_sample_neq_0 [OF assms(4,5)]]
      vegas_state_inv [OF assms(1)] vegas_event_inv [OF assms(1)] by auto
qed

theorem vegas_rtt_invariant_witness:
  "case tcp_vegas_cong_avoid vegas_defaults example_kern 15000 0 4 1 (example_sock 2, example_vegas) of
     None \<Rightarrow> False | Some (tp', v') \<Rightarrow> vegas_inv True v'"
  using vegas_rtt_invariant [of example_vegas "example_sock 2" example_kern 4900000000]
  by (simp add: vegas_inv_def example_vegas_def net_timedelta_def)

end
