(* ===== verification/Veno.thy ===== *)
theory Veno
  imports Delay_Based
begin

section \<open>TCP Veno (\<open>src/tcp_veno.c\<close>)\<close>

text \<open>
  Veno is Reno with Vegas's queue estimate: with less than three packets queued a loss is taken for a
  random one and costs a fifth of the window, otherwise the window grows every other round and a loss
  halves it. The lemmas give the estimate without wrap-around, the decrease of both states, the
  alternating growth, and the lifetime of the round-trip minimum, which is one acknowledgement.
\<close>

definition veno_beta :: s32 where
  "veno_beta = push_bit 1 3"

record veno =
  doing_veno_now :: u8
  vn_cntrtt :: u16
  vn_minrtt :: u32
  vn_basertt :: u32
  vn_inc :: u32
  vn_diff :: u32

definition veno_enable :: "veno \<Rightarrow> veno" where
  "veno_enable v = v\<lparr>doing_veno_now := 1, vn_minrtt := 0x7fffffff\<rparr>"

definition veno_disable :: "veno \<Rightarrow> veno" where
  "veno_disable v = v\<lparr>doing_veno_now := 0\<rparr>"

definition tcp_veno_init :: "veno \<Rightarrow> veno" where
  "tcp_veno_init v = veno_enable (v\<lparr>vn_basertt := 0x7fffffff, vn_inc := 1\<rparr>)"

definition tcp_veno_pkts_acked :: "kern \<Rightarrow> u32 \<Rightarrow> s64 \<Rightarrow> veno \<Rightarrow> veno" where
  "tcp_veno_pkts_acked k cnt last_t v =
     (if ktime_equal last_t net_invalid_timestamp then v
      else let vrtt = delay_sample k last_t in
           v\<lparr>vn_basertt := (if vrtt < vn_basertt v then vrtt else vn_basertt v),
             vn_minrtt := min (vn_minrtt v) vrtt, vn_cntrtt := vn_cntrtt v + 1\<rparr>)"

definition tcp_veno_state :: "u8 \<Rightarrow> veno \<Rightarrow> veno" where
  "tcp_veno_state ca_state v = (if ca_state = TCP_CA_Open then veno_enable v else veno_disable v)"

definition tcp_veno_cwnd_event :: "tcp_ca_event \<Rightarrow> veno \<Rightarrow> veno" where
  "tcp_veno_cwnd_event ev v =
     (if ev = CA_EVENT_CWND_RESTART \<or> ev = CA_EVENT_TX_START then tcp_veno_init v else v)"

text \<open>Congestion avoidance in the congestive state: every other round.\<close>

definition veno_slow_increase :: "tcp_sock \<Rightarrow> veno \<Rightarrow> veno sock" where
  "veno_slow_increase tp v =
     (if snd_cwnd tp \<le> snd_cwnd_cnt tp
      then if vn_inc v \<noteq> 0 \<and> snd_cwnd tp < snd_cwnd_clamp tp
           then (tp\<lparr>snd_cwnd := snd_cwnd tp + 1, snd_cwnd_cnt := 0\<rparr>, v\<lparr>vn_inc := 0\<rparr>)
           else (tp\<lparr>snd_cwnd_cnt := 0\<rparr>, v\<lparr>vn_inc := 1\<rparr>)
      else (tp\<lparr>snd_cwnd_cnt := snd_cwnd_cnt tp + 1\<rparr>, v))"

definition veno_adjust :: "kern \<Rightarrow> veno sock \<Rightarrow> veno sock option" where
  "veno_adjust k s = (let tp = fst s; v = snd s in do {
     target \<leftarrow> cdiv (push_bit 1 (snd_cwnd tp * vn_basertt v)) (vn_minrtt v);
     let v = v\<lparr>vn_diff := push_bit 1 (snd_cwnd tp) - target\<rparr> in
     do {
       (tp, v) \<leftarrow> (if snd_cwnd tp \<le> snd_ssthresh tp then on_sock (tcp_slow_start k) (tp, v)
                  else if vn_diff v < veno_beta then Some (ai_step (snd_cwnd tp) tp, v)
                  else Some (veno_slow_increase tp v));
       Some (tp\<lparr>snd_cwnd := clamp_window tp\<rparr>, v)
     }
   })"

definition tcp_veno_cong_avoid ::
  "kern \<Rightarrow> u32 \<Rightarrow> u32 \<Rightarrow> u32 \<Rightarrow> s32 \<Rightarrow> veno sock \<Rightarrow> veno sock option" where
  "tcp_veno_cong_avoid k ack seq_rtt in_flight flag s =
     (if doing_veno_now (snd s) = 0 then on_sock (tcp_reno_cong_avoid k ack seq_rtt in_flight flag) s
      else if \<not> tcp_is_cwnd_limited (fst s) in_flight then Some s
      else do {
        (tp, v) \<leftarrow> (if vn_cntrtt (snd s) \<le> 2 then on_sock (tcp_reno_cong_avoid k ack seq_rtt in_flight flag) s
                   else veno_adjust k s);
        Some (tp, v\<lparr>vn_minrtt := 0x7fffffff\<rparr>)
      })"

definition tcp_veno_ssthresh :: "veno sock \<Rightarrow> u32" where
  "tcp_veno_ssthresh s =
     (if vn_diff (snd s) < veno_beta then max (snd_cwnd (fst s) * 4 div 5) 2
      else max (drop_bit 1 (snd_cwnd (fst s))) 2)"

definition tcp_veno :: "veno tcp_congestion_ops" where
  "tcp_veno =
     \<lparr>op_flags = TCP_CONG_RTT_STAMP,
      op_name = ''veno'',
      op_init = Some (\<lambda>k s. Some (fst s, tcp_veno_init (snd s))),
      op_ssthresh = (\<lambda>k s. Some (tcp_veno_ssthresh s, s)),
      op_min_cwnd = None,
      op_cong_avoid = tcp_veno_cong_avoid,
      op_rtt_sample = None,
      op_set_state = Some (\<lambda>k st s. Some (fst s, tcp_veno_state st (snd s))),
      op_cwnd_event = Some (\<lambda>k ev s. Some (fst s, tcp_veno_cwnd_event ev (snd s))),
      op_undo_cwnd = None,
      op_pkts_acked = Some (\<lambda>k n t s. Some (fst s, tcp_veno_pkts_acked k n t (snd s)))\<rparr>"

subsection \<open>Lemmas\<close>

definition veno_inv :: "bool \<Rightarrow> veno \<Rightarrow> bool" where
  "veno_inv b v \<longleftrightarrow> (b \<longrightarrow> vn_basertt v \<noteq> 0 \<and> vn_basertt v \<le> 0x7fffffff \<and> vn_basertt v \<le> vn_minrtt v)"

lemma veno_pkts_acked_inv:
  assumes "veno_inv True v" "delay_sample k t \<noteq> 0"
  shows "veno_inv True (tcp_veno_pkts_acked k n t v)"
  using assms by (auto simp: veno_inv_def tcp_veno_pkts_acked_def Let_def)

lemma veno_init_inv: "veno_inv b (tcp_veno_init v)"
  by (simp add: veno_inv_def tcp_veno_init_def veno_enable_def)

lemma veno_state_inv: "veno_inv b v \<Longrightarrow> veno_inv b (tcp_veno_state st v)"
  by (simp add: veno_inv_def tcp_veno_state_def veno_enable_def veno_disable_def)

lemma veno_event_inv: "veno_inv b v \<Longrightarrow> veno_inv b (tcp_veno_cwnd_event ev v)"
  by (simp add: tcp_veno_cwnd_event_def veno_init_inv)

lemma veno_slow_increase_grown: "window_grown tp (fst (veno_slow_increase tp v))"
  by (auto simp: window_grown_def veno_slow_increase_def word_as_nat unat_Suc_less unat_max)

lemma veno_slow_increase_frame:
  "vn_basertt (snd (veno_slow_increase tp v)) = vn_basertt v" "vn_minrtt (snd (veno_slow_increase tp v)) = vn_minrtt v"
  "vn_diff (snd (veno_slow_increase tp v)) = vn_diff v"
  by (simp_all add: veno_slow_increase_def)

text \<open>The adjustment, with the queue estimate it leaves.\<close>

lemma veno_adjust_total:
  assumes tp: "snd_cwnd tp \<noteq> 0" and v: "vn_minrtt v \<noteq> 0"
  shows "\<exists>tp1 v1. veno_adjust k (tp, v) = Some (tp1\<lparr>snd_cwnd := clamp_window tp1\<rparr>, v1) \<and> window_grown tp tp1 \<and>
    vn_basertt v1 = vn_basertt v \<and>
    vn_diff v1 = push_bit 1 (snd_cwnd tp) - push_bit 1 (snd_cwnd tp * vn_basertt v) div vn_minrtt v"
proof -
  define d where "d = push_bit 1 (snd_cwnd tp) - push_bit 1 (snd_cwnd tp * vn_basertt v) div vn_minrtt v"
  define v0 where "v0 = v\<lparr>vn_diff := d\<rparr>"
  obtain tps where tps: "tcp_slow_start k tp = Some tps" "window_grown tp tps"
    using tcp_slow_start_total [OF tp] by blast
  define s1 where "s1 = (if snd_cwnd tp \<le> snd_ssthresh tp then (tps, v0)
    else if d < veno_beta then (ai_step (snd_cwnd tp) tp, v0) else veno_slow_increase tp v0)"
  have s1: "window_grown tp (fst s1)" "vn_basertt (snd s1) = vn_basertt v" "vn_diff (snd s1) = d"
    using tps(2) ai_step_grown veno_slow_increase_grown veno_slow_increase_frame
    by (simp_all add: s1_def v0_def)
  have "veno_adjust k (tp, v) = Some ((fst s1)\<lparr>snd_cwnd := clamp_window (fst s1)\<rparr>, snd s1)"
    unfolding veno_adjust_def Let_def fst_conv snd_conv cdiv_Some [OF v] bind.simps d_def [symmetric] v0_def [symmetric]
    using tps(1) by (simp add: s1_def v0_def split: prod.split)
  then show ?thesis using s1 unfolding d_def by blast
qed

lemma window_grown_clamp_base_ok:
  assumes "base_ok cap tp" "window_grown tp tp1" "2 \<le> cap"
  shows "base_ok cap (tp1\<lparr>snd_cwnd := clamp_window tp1\<rparr>)"
  using assms by (intro clamp_window_base_ok) (simp_all add: window_grown_frame [OF assms(2)] base_ok_def)

lemma veno_cong_avoid_total:
  assumes tp: "base_ok cap tp" and v: "veno_inv True v" and cap: "2 \<le> cap"
  shows "\<exists>tp' v'. tcp_veno_cong_avoid k ack rtt in_flight flag (tp, v) = Some (tp', v') \<and> base_ok cap tp' \<and> veno_inv True v'"
proof -
  have "vn_minrtt v \<noteq> 0" using v by (auto simp: veno_inv_def)
  then obtain tp1 v1 where a: "veno_adjust k (tp, v) = Some (tp1\<lparr>snd_cwnd := clamp_window tp1\<rparr>, v1)" "window_grown tp tp1"
    "vn_basertt v1 = vn_basertt v"
    using veno_adjust_total [OF base_ok_cwnd [OF tp]] by blast
  obtain tpr where r: "tcp_reno_cong_avoid k ack rtt in_flight flag tp = Some tpr" "window_grown tp tpr"
    using tcp_reno_cong_avoid_total [OF base_ok_cwnd [OF tp]] by blast
  show ?thesis
    using a r tp v window_grown_base_ok window_grown_clamp_base_ok [OF tp a(2) cap]
    by (simp add: tcp_veno_cong_avoid_def veno_inv_def)
qed

lemma veno_ssthresh_bounds:
  assumes "snd_cwnd tp \<le> 2147483647"
  shows "2 \<le> tcp_veno_ssthresh (tp, v) \<and> tcp_veno_ssthresh (tp, v) \<le> 2147483647"
proof -
  have "unat (snd_cwnd tp * 4 div 5) \<le> 2147483647"
    using unat_lt_u32 [of "snd_cwnd tp * 4"] by (simp add: unat_div_word)
  moreover have "unat (drop_bit 1 (snd_cwnd tp)) \<le> 2147483647"
    using assms by (simp add: unat_drop_bit_div word_le_nat_alt)
  ultimately show ?thesis by (simp add: tcp_veno_ssthresh_def word_le_nat_alt unat_max)
qed

interpretation veno: cong_module tcp_veno veno_inv sample_env 2147483647
proof unfold_locales
  fix tp :: tcp_sock and b v k
  assume "base_ok 2147483647 tp" "veno_inv b v"
  then show "\<exists>u tp' v'. op_ssthresh tcp_veno k (tp, v) = Some (u, (tp', v')) \<and> 2 \<le> u \<and>
      u \<le> 2147483647 \<and> base_ok 2147483647 tp' \<and> veno_inv b v'"
    using veno_ssthresh_bounds [of tp v] by (simp add: tcp_veno_def base_ok_def)
next
  fix tp :: tcp_sock and v i ack in_flight flag
  assume "base_ok 2147483647 tp" "veno_inv True v"
  then show "\<exists>tp' v'. op_cong_avoid tcp_veno (in_kern i) ack (in_seq_rtt i) in_flight flag (tp, v) =
      Some (tp', v') \<and> base_ok 2147483647 tp' \<and> veno_inv True v'"
    using veno_cong_avoid_total by (simp add: tcp_veno_def)
next
  fix tp :: tcp_sock and v i p
  assume "op_pkts_acked tcp_veno = Some p" "base_ok 2147483647 tp" "veno_inv True v" "sample_env i"
  then show "\<exists>tp' v'. p (in_kern i) (in_acked i) (in_last_ackt i) (tp, v) = Some (tp', v') \<and>
      base_ok 2147483647 tp' \<and> ack_frame tp tp' \<and> veno_inv True v'"
    using veno_pkts_acked_inv delay_sample_neq_0 by (auto simp: tcp_veno_def sample_env_def)
next
  fix h and tp :: tcp_sock and b v k st
  assume "op_set_state tcp_veno = Some h" "base_ok 2147483647 tp" "veno_inv b v"
  then show "\<exists>tp' v'. h k st (tp, v) = Some (tp', v') \<and> base_ok 2147483647 tp' \<and> veno_inv b v'"
    by (auto simp: tcp_veno_def veno_state_inv)
next
  fix e and tp :: tcp_sock and b v k ev
  assume "op_cwnd_event tcp_veno = Some e" "base_ok 2147483647 tp" "veno_inv b v"
  then show "\<exists>tp' v'. e k ev (tp, v) = Some (tp', v') \<and> base_ok 2147483647 tp' \<and> ack_frame tp tp' \<and> veno_inv b v'"
    by (auto simp: tcp_veno_def veno_event_inv)
next
  fix tp :: tcp_sock and v i g
  assume "op_init tcp_veno = Some g" "base_ok 2147483647 tp"
  then show "\<exists>tp' v'. g (in_kern i) (tp, v) = Some (tp', v') \<and> base_ok 2147483647 tp' \<and> ack_frame tp tp' \<and> veno_inv True v'"
    by (auto simp: tcp_veno_def veno_init_inv)
qed (simp_all add: tcp_veno_def)

subsection \<open>Properties\<close>

text \<open>
  An acknowledgement on a full window in Veno leaves the queue estimate
  \<open>w - w * basertt / minrtt\<close> (in halves, without wrap-around while \<open>w * basertt\<close> is below
  \<open>2 ^ 31\<close>), and a loss right after it costs a fifth of the window when fewer than three packets are
  queued, and half of it otherwise.
\<close>

theorem veno_loss_response:
  assumes "doing_veno_now v \<noteq> 0" "2 < vn_cntrtt v" "snd_cwnd tp \<noteq> 0" "snd_cwnd tp \<le> in_flight"
    and "vn_basertt v \<noteq> 0" "vn_basertt v \<le> vn_minrtt v" "unat (snd_cwnd tp) * unat (vn_basertt v) < 2 ^ 31"
    and d: "d = 2 * unat (snd_cwnd tp) - 2 * (unat (snd_cwnd tp) * unat (vn_basertt v)) div unat (vn_minrtt v)"
  shows "\<exists>tp' v'. tcp_veno_cong_avoid k ack rtt in_flight flag (tp, v) = Some (tp', v') \<and> unat (vn_diff v') = d \<and>
    (if unat (snd_cwnd tp') < 2 ^ 30
     then unat (tcp_veno_ssthresh (tp', v')) =
       max (if d < 6 then unat (snd_cwnd tp') * 4 div 5 else unat (snd_cwnd tp') div 2) 2
     else True)"
proof -
  note q = queue_estimate [OF assms(5-7)]
  obtain tp1 v1 where a: "veno_adjust k (tp, v) = Some (tp1\<lparr>snd_cwnd := clamp_window tp1\<rparr>, v1)"
    "vn_diff v1 = push_bit 1 (snd_cwnd tp) - push_bit 1 (snd_cwnd tp * vn_basertt v) div vn_minrtt v"
    using veno_adjust_total [OF assms(3), of v k] q by blast
  have diff: "unat (vn_diff v1) = d" unfolding a(2) d using q by blast
  define tp' where "tp' = tp1\<lparr>snd_cwnd := clamp_window tp1\<rparr>"
  define v' where "v' = v1\<lparr>vn_minrtt := 0x7fffffff\<rparr>"
  have "\<not> vn_cntrtt v \<le> 2" using assms(2) by simp
  then have "tcp_veno_cong_avoid k ack rtt in_flight flag (tp, v) = Some (tp', v')"
    using assms(1,4) a(1) by (simp add: tcp_veno_cong_avoid_def tcp_is_cwnd_limited_def tp'_def v'_def)
  moreover have "unat (tcp_veno_ssthresh (tp', v')) =
      max (if d < 6 then unat (snd_cwnd tp') * 4 div 5 else unat (snd_cwnd tp') div 2) 2"
    if w: "unat (snd_cwnd tp') < 2 ^ 30"
  proof -
    have "unat (snd_cwnd tp' * 4) = unat (snd_cwnd tp') * 4"
      using w unat_mult_nowrap [of "snd_cwnd tp'" 4] by simp
    moreover have "vn_diff v' < veno_beta \<longleftrightarrow> d < 6"
      using diff by (simp add: v'_def veno_beta_def word_less_nat_alt)
    ultimately show ?thesis by (simp add: tcp_veno_ssthresh_def unat_ops)
  qed
  moreover have "unat (vn_diff v') = d" using diff by (simp add: v'_def)
  ultimately show ?thesis by auto
qed

definition example_veno :: veno where
  "example_veno = \<lparr>doing_veno_now = 1, vn_cntrtt = 4, vn_minrtt = 100000, vn_basertt = 90000, vn_inc = 1, vn_diff = 0\<rparr>"

theorem veno_loss_response_witness:
  "\<exists>tp' v'. tcp_veno_cong_avoid example_kern 1 0 4 1 (example_sock 2, example_veno) = Some (tp', v') \<and>
     unat (vn_diff v') = 1"
  using veno_loss_response [of example_veno "example_sock 2" 4 1 example_kern 1 0 1]
  by (auto simp: example_veno_def)

text \<open>
  The minimum round-trip time of Veno lives for one acknowledgement: \<open>cong_avoid\<close> resets it on every
  acknowledgement of a full window, so after the next sample it is that sample alone, where the comments
  speak of the minimum within the last round trip.
\<close>

theorem veno_minrtt_last_sample:
  assumes "doing_veno_now v \<noteq> 0" "snd_cwnd tp \<noteq> 0" "snd_cwnd tp \<le> in_flight" "vn_minrtt v \<noteq> 0"
    and "t \<noteq> net_invalid_timestamp" "delay_sample k2 t \<le> 0x7fffffff"
  shows "\<exists>tp' v'. tcp_veno_cong_avoid k ack rtt in_flight flag (tp, v) = Some (tp', v') \<and>
    vn_minrtt (tcp_veno_pkts_acked k2 n t v') = delay_sample k2 t"
proof -
  obtain tp1 v1 where a: "veno_adjust k (tp, v) = Some (tp1\<lparr>snd_cwnd := clamp_window tp1\<rparr>, v1)"
    using veno_adjust_total [OF assms(2,4)] by blast
  obtain tpr where "tcp_reno_cong_avoid k ack rtt in_flight flag tp = Some tpr"
    using tcp_reno_cong_avoid_total [OF assms(2)] by blast
  then obtain tp' v' where "tcp_veno_cong_avoid k ack rtt in_flight flag (tp, v) = Some (tp', v'\<lparr>vn_minrtt := 0x7fffffff\<rparr>)"
    using assms(1,3) a by (cases "vn_cntrtt v \<le> 2") (simp_all add: tcp_veno_cong_avoid_def tcp_is_cwnd_limited_def)
  then show ?thesis
    using assms(5,6) by (simp add: tcp_veno_pkts_acked_def ktime_equal_def Let_def min_def)
qed

theorem veno_minrtt_last_sample_witness:
  "\<exists>tp' v'. tcp_veno_cong_avoid example_kern 1 0 4 1 (example_sock 2, example_veno) = Some (tp', v') \<and>
     vn_minrtt (tcp_veno_pkts_acked example_kern 1 4900000000 v') = delay_sample example_kern 4900000000"
  using veno_minrtt_last_sample [of example_veno "example_sock 2" 4 4900000000 example_kern example_kern 1 0 1 1]
  by (simp add: example_veno_def net_invalid_timestamp_def delay_sample_def net_timedelta_def ktime_to_us_def)

end
