(* ===== verification/Westwood.thy ===== *)
theory Westwood
  imports Reno
begin

section \<open>TCP Westwood+ (\<open>src/tcp_westwood.c\<close>)\<close>

text \<open>
  Westwood+ probes like Reno and sets the threshold after a loss from an estimate of the bandwidth: the
  bytes acknowledged in a measurement window of at least a round-trip time and 50 ms, through a low-pass
  filter, times the minimum round-trip time. The lemmas show that the division of the filter never
  traps, that the filter is exact and a convex combination, and which bytes the accounting of
  duplicate and delayed acknowledgements counts.
\<close>

record westwood =
  bw_ns_est :: u32
  bw_est :: u32
  rtt_win_sx :: u32
  bk :: u32
  ww_snd_una :: u32
  cumul_ack :: u32
  accounted :: u32
  ww_rtt :: u32
  ww_rtt_min :: u32
  first_ack :: u8
  reset_rtt_min :: u8

definition TCP_WESTWOOD_RTT_MIN :: u32 where
  "TCP_WESTWOOD_RTT_MIN = HZ div 20"

definition TCP_WESTWOOD_INIT_RTT :: u32 where
  "TCP_WESTWOOD_INIT_RTT = 20 * HZ"

definition tcp_westwood_init :: "kern \<Rightarrow> tcp_sock \<Rightarrow> westwood \<Rightarrow> westwood" where
  "tcp_westwood_init k tp w =
     w\<lparr>bk := 0, bw_ns_est := 0, bw_est := 0, accounted := 0, cumul_ack := 0, reset_rtt_min := 1,
       ww_rtt := TCP_WESTWOOD_INIT_RTT, ww_rtt_min := TCP_WESTWOOD_INIT_RTT,
       rtt_win_sx := tcp_time_stamp k, ww_snd_una := snd_una tp, first_ack := 1\<rparr>"

definition westwood_do_filter :: "u32 \<Rightarrow> u32 \<Rightarrow> u32" where
  "westwood_do_filter a b = drop_bit 3 (7 * a + b)"

definition westwood_filter :: "u32 \<Rightarrow> westwood \<Rightarrow> westwood option" where
  "westwood_filter delta w = do {
     q \<leftarrow> cdiv (bk w) delta;
     Some (if bw_ns_est w = 0 \<and> bw_est w = 0 then w\<lparr>bw_ns_est := q, bw_est := q\<rparr>
           else let ns = westwood_do_filter (bw_ns_est w) q
                in w\<lparr>bw_ns_est := ns, bw_est := westwood_do_filter (bw_est w) ns\<rparr>)
   }"

definition tcp_westwood_pkts_acked :: "u32 \<Rightarrow> tcp_sock \<Rightarrow> westwood \<Rightarrow> westwood" where
  "tcp_westwood_pkts_acked cnt tp w = (if 0 < cnt then w\<lparr>ww_rtt := drop_bit 3 (srtt tp)\<rparr> else w)"

text \<open>The elapsed time is a signed variable, but the comparison with an unsigned maximum is unsigned.\<close>

definition westwood_update_window :: "kern \<Rightarrow> tcp_sock \<Rightarrow> westwood \<Rightarrow> westwood option" where
  "westwood_update_window k tp w =
     (let delta = tcp_time_stamp k - rtt_win_sx w;
          w = (if first_ack w \<noteq> 0 then w\<lparr>ww_snd_una := snd_una tp, first_ack := 0\<rparr> else w)
      in if ww_rtt w \<noteq> 0 \<and> max (ww_rtt w) TCP_WESTWOOD_RTT_MIN < delta
         then do {
           w \<leftarrow> westwood_filter delta w;
           Some (w\<lparr>bk := 0, rtt_win_sx := tcp_time_stamp k\<rparr>)
         }
         else Some w)"

definition update_rtt_min :: "westwood \<Rightarrow> westwood" where
  "update_rtt_min w =
     (if reset_rtt_min w \<noteq> 0 then w\<lparr>ww_rtt_min := ww_rtt w, reset_rtt_min := 0\<rparr>
      else w\<lparr>ww_rtt_min := min (ww_rtt w) (ww_rtt_min w)\<rparr>)"

definition westwood_fast_bw :: "kern \<Rightarrow> tcp_sock \<Rightarrow> westwood \<Rightarrow> westwood option" where
  "westwood_fast_bw k tp w = do {
     w \<leftarrow> westwood_update_window k tp w;
     Some (update_rtt_min (w\<lparr>bk := bk w + (snd_una tp - ww_snd_una w), ww_snd_una := snd_una tp\<rparr>))
   }"

definition westwood_acked_count :: "tcp_sock \<Rightarrow> westwood \<Rightarrow> u32 \<times> westwood" where
  "westwood_acked_count tp w =
     (let w = w\<lparr>cumul_ack := snd_una tp - ww_snd_una w\<rparr>;
          w = (if cumul_ack w = 0
               then w\<lparr>accounted := accounted w + mss_cache tp, cumul_ack := mss_cache tp\<rparr> else w);
          w = (if mss_cache tp < cumul_ack w
               then if cumul_ack w \<le> accounted w
                    then w\<lparr>accounted := accounted w - cumul_ack w, cumul_ack := mss_cache tp\<rparr>
                    else w\<lparr>cumul_ack := cumul_ack w - accounted w, accounted := 0\<rparr>
               else w);
          w = w\<lparr>ww_snd_una := snd_una tp\<rparr>
      in (cumul_ack w, w))"

definition tcp_westwood_bw_rttmin :: "westwood sock \<Rightarrow> u32 option" where
  "tcp_westwood_bw_rttmin s = do {
     q \<leftarrow> cdiv (bw_est (snd s) * ww_rtt_min (snd s)) (mss_cache (fst s));
     Some (max q 2)
   }"

definition westwood_slow_bw :: "kern \<Rightarrow> tcp_sock \<Rightarrow> westwood \<Rightarrow> westwood option" where
  "westwood_slow_bw k tp w = do {
     w \<leftarrow> westwood_update_window k tp w;
     let (n, w') = westwood_acked_count tp w;
     Some (update_rtt_min (w'\<lparr>bk := bk w' + n\<rparr>))
   }"

definition tcp_westwood_event :: "kern \<Rightarrow> tcp_ca_event \<Rightarrow> westwood sock \<Rightarrow> westwood sock option" where
  "tcp_westwood_event k ev s = (let tp = fst s; w = snd s in
     case ev of
       CA_EVENT_FAST_ACK \<Rightarrow> map_option (Pair tp) (westwood_fast_bw k tp w)
     | CA_EVENT_COMPLETE_CWR \<Rightarrow> do {
         v \<leftarrow> tcp_westwood_bw_rttmin s;
         Some (tp\<lparr>snd_ssthresh := v, snd_cwnd := v\<rparr>, w)
       }
     | CA_EVENT_FRTO \<Rightarrow> do {
         v \<leftarrow> tcp_westwood_bw_rttmin s;
         Some (tp\<lparr>snd_ssthresh := v\<rparr>, w\<lparr>reset_rtt_min := 1\<rparr>)
       }
     | CA_EVENT_SLOW_ACK \<Rightarrow> map_option (Pair tp) (westwood_slow_bw k tp w)
     | _ \<Rightarrow> Some s)"

text \<open>The body of \<open>tcp_westwood_info\<close> is a comment: it does nothing.\<close>

definition tcp_westwood_info :: "westwood sock \<Rightarrow> westwood sock" where
  "tcp_westwood_info s = s"

definition tcp_westwood :: "westwood tcp_congestion_ops" where
  "tcp_westwood =
     \<lparr>op_flags = 0,
      op_name = ''westwood'',
      op_init = Some (\<lambda>k s. Some (fst s, tcp_westwood_init k (fst s) (snd s))),
      op_ssthresh = (\<lambda>k s. Some (tcp_reno_ssthresh (fst s), s)),
      op_min_cwnd = Some (\<lambda>k s. tcp_westwood_bw_rttmin s),
      op_cong_avoid = (\<lambda>k ack rtt in_flight flag. on_sock (tcp_reno_cong_avoid k ack rtt in_flight flag)),
      op_rtt_sample = None,
      op_set_state = None,
      op_cwnd_event = Some tcp_westwood_event,
      op_undo_cwnd = None,
      op_pkts_acked = Some (\<lambda>k n t s. Some (fst s, tcp_westwood_pkts_acked n (fst s) (snd s)))\<rparr>"

subsection \<open>Lemmas\<close>

text \<open>The filter is exact below \<open>2 ^ 29\<close>, and its result lies between its two arguments.\<close>

lemma westwood_do_filter_exact:
  assumes "unat a < 2 ^ 29" "unat b < 2 ^ 29"
  shows "unat (westwood_do_filter a b) = (7 * unat a + unat b) div 8"
proof -
  have "unat (7 * a) = 7 * unat a" using assms(1) unat_mult_nowrap [of 7 a] by simp
  then have "unat (7 * a + b) = 7 * unat a + unat b"
    using assms by (subst unat_add_nowrap) simp_all
  then show ?thesis by (simp add: westwood_do_filter_def unat_drop_bit_div)
qed

lemma weighted_mean_range:
  "min x y \<le> (7 * x + y) div 8" "(7 * x + y) div 8 \<le> max x (y :: nat)"
  by (auto simp: min_def max_def)

lemma westwood_window_total: "\<exists>w'. westwood_update_window k tp w = Some w'"
proof -
  define d where "d = tcp_time_stamp k - rtt_win_sx w"
  define w1 where "w1 = (if first_ack w \<noteq> 0 then w\<lparr>ww_snd_una := snd_una tp, first_ack := 0\<rparr> else w)"
  have up: "westwood_update_window k tp w =
      (if ww_rtt w1 \<noteq> 0 \<and> max (ww_rtt w1) TCP_WESTWOOD_RTT_MIN < d
       then do { w \<leftarrow> westwood_filter d w1; Some (w\<lparr>bk := 0, rtt_win_sx := tcp_time_stamp k\<rparr>) } else Some w1)"
    by (simp only: westwood_update_window_def Let_def d_def w1_def)
  show ?thesis
  proof (cases "max (ww_rtt w1) TCP_WESTWOOD_RTT_MIN < d")
    case True
    then have "d \<noteq> 0" by (auto simp: word_less_nat_alt)
    then show ?thesis by (simp add: up westwood_filter_def)
  qed (auto simp: up)
qed

lemma westwood_bw_rttmin_total:
  "mss_cache tp \<noteq> 0 \<Longrightarrow> \<exists>v. tcp_westwood_bw_rttmin (tp, w) = Some v \<and> 2 \<le> v \<and> v \<noteq> 0"
  by (simp add: tcp_westwood_bw_rttmin_def)

lemma westwood_event_total:
  assumes "base_ok (-1) tp"
  shows "\<exists>tp' w'. tcp_westwood_event k ev (tp, w) = Some (tp', w') \<and> base_ok (-1) tp' \<and> ack_frame tp tp'"
proof -
  obtain v where v: "tcp_westwood_bw_rttmin (tp, w) = Some v" "2 \<le> v" "v \<noteq> 0"
    using westwood_bw_rttmin_total assms unfolding base_ok_def by blast
  obtain w1 where "westwood_update_window k tp w = Some w1"
    using westwood_window_total by blast
  then have "\<exists>w2. westwood_fast_bw k tp w = Some w2" "\<exists>w3. westwood_slow_bw k tp w = Some w3"
    by (simp_all add: westwood_fast_bw_def westwood_slow_bw_def split: prod.split)
  then show ?thesis
    using v assms by (cases ev) (auto simp: tcp_westwood_event_def base_ok_def ack_frame_def)
qed

interpretation westwood: cong_module tcp_westwood "\<lambda>_ _. True" "\<lambda>_. True" "-1"
proof unfold_locales
  fix tp :: tcp_sock and ca :: westwood and k
  assume "base_ok (-1) tp"
  then show "\<exists>v tp' ca'. op_ssthresh tcp_westwood k (tp, ca) = Some (v, (tp', ca')) \<and> 2 \<le> v \<and> v \<le> -1 \<and>
      base_ok (-1) tp' \<and> True"
    by (simp add: tcp_westwood_def tcp_reno_ssthresh_def)
next
  fix f :: "kern \<Rightarrow> westwood sock \<Rightarrow> u32 option" and tp ca k
  assume "op_min_cwnd tcp_westwood = Some f" "base_ok (-1) tp"
  then show "\<exists>w. f k (tp, ca) = Some w \<and> w \<noteq> 0 \<and> w \<le> -1"
    using westwood_bw_rttmin_total [of tp ca] by (auto simp: tcp_westwood_def base_ok_def)
next
  fix tp :: tcp_sock and ca :: westwood and i ack in_flight flag
  assume tp: "base_ok (-1) tp"
  obtain tp' where "tcp_reno_cong_avoid (in_kern i) ack (in_seq_rtt i) in_flight flag tp = Some tp'" "base_ok (-1) tp'"
    using tcp_reno_cong_avoid_total [OF base_ok_cwnd [OF tp]] window_grown_base_ok [OF _ tp] by blast
  then show "\<exists>tp' ca'. op_cong_avoid tcp_westwood (in_kern i) ack (in_seq_rtt i) in_flight flag (tp, ca) =
      Some (tp', ca') \<and> base_ok (-1) tp' \<and> True"
    by (simp add: tcp_westwood_def)
next
  fix e and tp :: tcp_sock and ca :: westwood and k ev
  assume "op_cwnd_event tcp_westwood = Some e" "base_ok (-1) tp"
  then show "\<exists>tp' ca'. e k ev (tp, ca) = Some (tp', ca') \<and> base_ok (-1) tp' \<and> ack_frame tp tp' \<and> True"
    using westwood_event_total by (auto simp: tcp_westwood_def)
qed (auto simp: tcp_westwood_def)

subsection \<open>Properties\<close>

text \<open>
  The bandwidth estimate of Westwood+. When more than the round-trip time and 50 ms have passed since
  the measurement window began, the window is closed: the sample is the bytes counted per millisecond
  (the division never traps), each of the two estimates becomes \<open>(7 a + b) / 8\<close> without wrap-around
  while the values fit in 29 bits, so it stays between its old value and its input, and the count is
  cleared. Otherwise the window goes on and the estimates stay.
\<close>

theorem westwood_bandwidth_estimate:
  assumes "first_ack w = 0" "unat (bw_ns_est w) < 2 ^ 29" "unat (bw_est w) < 2 ^ 29"
    and "bw_ns_est w \<noteq> 0" and d: "delta = tcp_time_stamp k - rtt_win_sx w"
    and q: "q = unat (bk w) div unat delta" "q < 2 ^ 29"
  shows "(if ww_rtt w \<noteq> 0 \<and> max (ww_rtt w) 50 < delta
     then \<exists>w'. westwood_update_window k tp w = Some w' \<and> bk w' = 0 \<and> rtt_win_sx w' = tcp_time_stamp k \<and>
       unat (bw_ns_est w') = (7 * unat (bw_ns_est w) + q) div 8 \<and>
       min (unat (bw_ns_est w)) q \<le> unat (bw_ns_est w') \<and> unat (bw_ns_est w') \<le> max (unat (bw_ns_est w)) q \<and>
       unat (bw_est w') = (7 * unat (bw_est w) + unat (bw_ns_est w')) div 8 \<and>
       min (unat (bw_est w)) (unat (bw_ns_est w')) \<le> unat (bw_est w') \<and>
       unat (bw_est w') \<le> max (unat (bw_est w)) (unat (bw_ns_est w'))
     else westwood_update_window k tp w = Some w)"
proof (cases "ww_rtt w \<noteq> 0 \<and> max (ww_rtt w) 50 < delta")
  case True
  define ns where "ns = westwood_do_filter (bw_ns_est w) (bk w div delta)"
  define est where "est = westwood_do_filter (bw_est w) ns"
  have "delta \<noteq> 0" using True by (auto simp: word_less_nat_alt)
  then have up: "westwood_update_window k tp w =
      Some (w\<lparr>bw_ns_est := ns, bw_est := est, bk := 0, rtt_win_sx := tcp_time_stamp k\<rparr>)"
    using True assms(1,4) by (simp add: westwood_update_window_def westwood_filter_def TCP_WESTWOOD_RTT_MIN_def Let_def
        ns_def est_def flip: d)
  have sample: "unat (bk w div delta) = q" by (simp add: unat_div_word q)
  have ns: "unat ns = (7 * unat (bw_ns_est w) + q) div 8"
    unfolding ns_def using westwood_do_filter_exact [of "bw_ns_est w" "bk w div delta"] assms(2) q(2) sample by simp
  have "unat ns < 2 ^ 29" using assms(2) q(2) by (simp add: ns)
  then have est: "unat est = (7 * unat (bw_est w) + unat ns) div 8"
    unfolding est_def using westwood_do_filter_exact [of "bw_est w" ns] assms(3) by simp
  define w' where "w' = w\<lparr>bw_ns_est := ns, bw_est := est, bk := 0, rtt_win_sx := tcp_time_stamp k\<rparr>"
  have w': "bk w' = 0" "rtt_win_sx w' = tcp_time_stamp k" "bw_ns_est w' = ns" "bw_est w' = est"
    by (simp_all add: w'_def)
  have "min (unat (bw_ns_est w)) q \<le> unat ns" "unat ns \<le> max (unat (bw_ns_est w)) q"
    unfolding ns by (rule weighted_mean_range)+
  moreover have "min (unat (bw_est w)) (unat ns) \<le> unat est" "unat est \<le> max (unat (bw_est w)) (unat ns)"
    unfolding est by (rule weighted_mean_range)+
  ultimately have "\<exists>w'. westwood_update_window k tp w = Some w' \<and> bk w' = 0 \<and> rtt_win_sx w' = tcp_time_stamp k \<and>
       unat (bw_ns_est w') = (7 * unat (bw_ns_est w) + q) div 8 \<and>
       min (unat (bw_ns_est w)) q \<le> unat (bw_ns_est w') \<and> unat (bw_ns_est w') \<le> max (unat (bw_ns_est w)) q \<and>
       unat (bw_est w') = (7 * unat (bw_est w) + unat (bw_ns_est w')) div 8 \<and>
       min (unat (bw_est w)) (unat (bw_ns_est w')) \<le> unat (bw_est w') \<and>
       unat (bw_est w') \<le> max (unat (bw_est w)) (unat (bw_ns_est w'))"
    using up ns est w' unfolding w'_def [symmetric] by metis
  then show ?thesis using True by (simp only: if_True simp_thms)
next
  case False
  have "westwood_update_window k tp w = Some w"
    unfolding westwood_update_window_def Let_def d [symmetric] TCP_WESTWOOD_RTT_MIN_def
    using False assms(1) by auto
  then show ?thesis using False by (simp only: if_False)
qed

definition example_westwood :: westwood where
  "example_westwood = \<lparr>bw_ns_est = 60, bw_est = 60, rtt_win_sx = 4800, bk = 20000, ww_snd_una = 10000, cumul_ack = 0,
     accounted = 3000, ww_rtt = 100, ww_rtt_min = 90, first_ack = 0, reset_rtt_min = 0\<rparr>"

theorem westwood_bandwidth_estimate_witness:
  "\<exists>w'. westwood_update_window example_kern (example_sock 2) example_westwood = Some w' \<and> unat (bw_ns_est w') = 65"
  using westwood_bandwidth_estimate [of example_westwood 200 example_kern 100 "example_sock 2"]
  by (auto simp: example_westwood_def word_less_nat_alt)

text \<open>
  The accounting of Westwood+ conserves bytes: over an acknowledgement, what is counted plus what was
  already accounted for equals the advance of \<open>snd_una\<close> plus what is accounted for now, modulo
  \<open>2 ^ 32\<close>. A duplicate counts as one segment in advance, which a later cumulative
  acknowledgement gives back; only when more has been accounted than the later one acknowledges is
  one segment counted on top.
\<close>

theorem westwood_accounting:
  "case westwood_acked_count tp w of (n, w') \<Rightarrow>
     n + accounted w = (snd_una tp - ww_snd_una w) + accounted w' +
       (if mss_cache tp < snd_una tp - ww_snd_una w \<and> snd_una tp - ww_snd_una w \<le> accounted w
        then mss_cache tp else 0) \<and>
     ww_snd_una w' = snd_una tp"
  by (simp add: westwood_acked_count_def Let_def)

end
