(* ===== verification/Yeah.thy ===== *)
theory Yeah
  imports Vegas
begin

section \<open>YeAH TCP (\<open>src/tcp_yeah.c\<close>)\<close>

text \<open>
  YeAH increases like Scalable while the queue it causes is short and like Reno otherwise, and removes
  the queue itself (precautionary decongestion) when it is longer than 80 packets. Its private area
  begins with Vegas's, whose sampling it uses. The lemmas give the queue estimate, exact in 64 bits,
  the decongestion rule and the decrease on loss, with what it does to windows below four packets.
\<close>

record yeah =
  yh_vegas :: vegas
  lastQ :: u32
  doing_reno_now :: u32
  reno_count :: u32
  fast_count :: u32
  yh_pkts_acked :: u32

abbreviation (input) TCP_YEAH_ALPHA :: u32 where "TCP_YEAH_ALPHA \<equiv> 80"
abbreviation (input) TCP_YEAH_GAMMA :: u32 where "TCP_YEAH_GAMMA \<equiv> 1"
abbreviation (input) TCP_YEAH_DELTA :: nat where "TCP_YEAH_DELTA \<equiv> 3"
abbreviation (input) TCP_YEAH_EPSILON :: nat where "TCP_YEAH_EPSILON \<equiv> 1"
abbreviation (input) TCP_YEAH_PHY :: u32 where "TCP_YEAH_PHY \<equiv> 8"
abbreviation (input) TCP_YEAH_RHO :: u32 where "TCP_YEAH_RHO \<equiv> 16"
abbreviation (input) TCP_YEAH_ZETA :: u32 where "TCP_YEAH_ZETA \<equiv> 50"

definition tcp_yeah_init :: "yeah sock \<Rightarrow> yeah sock" where
  "tcp_yeah_init s =
     ((fst s)\<lparr>snd_cwnd_clamp := min (snd_cwnd_clamp (fst s)) (0xffffffff div 128)\<rparr>,
      (snd s)\<lparr>yh_vegas := tcp_vegas_init (fst s) (yh_vegas (snd s)),
        doing_reno_now := 0, lastQ := 0, reno_count := 2\<rparr>)"

definition tcp_yeah_pkts_acked :: "kern \<Rightarrow> u32 \<Rightarrow> s64 \<Rightarrow> yeah sock \<Rightarrow> yeah sock" where
  "tcp_yeah_pkts_acked k n last_t s =
     (let y = (if icsk_ca_state (fst s) = TCP_CA_Open then (snd s)\<lparr>yh_pkts_acked := n\<rparr> else snd s)
      in (fst s, y\<lparr>yh_vegas := tcp_vegas_pkts_acked k n last_t (yh_vegas y)\<rparr>))"

text \<open>The growth of the window: slow start, Scalable or Reno.\<close>

definition yeah_scalable :: "yeah sock \<Rightarrow> yeah sock" where
  "yeah_scalable s =
     (let tp = (fst s)\<lparr>snd_cwnd_cnt := snd_cwnd_cnt (fst s) + yh_pkts_acked (snd s)\<rparr>
      in (if min (snd_cwnd tp) 100 < snd_cwnd_cnt tp
          then tp\<lparr>snd_cwnd := (if snd_cwnd tp < snd_cwnd_clamp tp then snd_cwnd tp + 1 else snd_cwnd tp),
                  snd_cwnd_cnt := 0\<rparr>
          else tp,
          (snd s)\<lparr>yh_pkts_acked := 1\<rparr>))"

definition yeah_reno :: "tcp_sock \<Rightarrow> tcp_sock" where
  "yeah_reno tp =
     (let tp = (if snd_cwnd_cnt tp < snd_cwnd tp then tp\<lparr>snd_cwnd_cnt := snd_cwnd_cnt tp + 1\<rparr> else tp)
      in if snd_cwnd tp \<le> snd_cwnd_cnt tp then tp\<lparr>snd_cwnd := snd_cwnd tp + 1, snd_cwnd_cnt := 0\<rparr> else tp)"

definition yeah_grow :: "kern \<Rightarrow> yeah sock \<Rightarrow> yeah sock option" where
  "yeah_grow k s =
     (if snd_cwnd (fst s) \<le> snd_ssthresh (fst s) then on_sock (tcp_slow_start k) s
      else if doing_reno_now (snd s) = 0 then Some (yeah_scalable s)
      else Some (yeah_reno (fst s), snd s))"

text \<open>The queue in packets: a 64-bit product, divided by the round-trip time.\<close>

definition yeah_queue :: "u32 \<Rightarrow> vegas \<Rightarrow> u32 option" where
  "yeah_queue w v = do {
     bw \<leftarrow> cdiv (ucast w * ucast (minRTT v - baseRTT v) :: u64) (ucast (minRTT v));
     Some (ucast bw)
   }"

text \<open>What is done with the queue at the end of a round.\<close>

definition yeah_decongest :: "u32 \<Rightarrow> yeah \<Rightarrow> tcp_sock \<Rightarrow> tcp_sock" where
  "yeah_decongest q y tp =
     (if TCP_YEAH_ALPHA < q \<and> reno_count y < snd_cwnd tp
      then let reduction = min (q div TCP_YEAH_GAMMA) (drop_bit TCP_YEAH_EPSILON (snd_cwnd tp));
               w = max (snd_cwnd tp - reduction) (reno_count y)
           in tp\<lparr>snd_cwnd := w, snd_ssthresh := w\<rparr>
      else tp)"

definition yeah_mode :: "u32 \<Rightarrow> yeah sock \<Rightarrow> yeah sock" where
  "yeah_mode q s = (let tp = fst s; y = snd s; v = yh_vegas y in
     if TCP_YEAH_ALPHA < q \<or> baseRTT v div TCP_YEAH_PHY < minRTT v - baseRTT v
     then let tp = yeah_decongest q y tp
          in (tp, y\<lparr>reno_count := (if reno_count y \<le> 2 then max (drop_bit 1 (snd_cwnd tp)) 2 else reno_count y + 1),
                   doing_reno_now := min (doing_reno_now y + 1) 0xffffff\<rparr>)
     else let y = y\<lparr>fast_count := fast_count y + 1\<rparr>;
              y = (if TCP_YEAH_ZETA < fast_count y then y\<lparr>reno_count := 2, fast_count := 0\<rparr> else y)
          in (tp, y\<lparr>doing_reno_now := 0\<rparr>))"

definition yeah_end_round :: "yeah sock \<Rightarrow> yeah sock option" where
  "yeah_end_round s = do {
     (tp, y) \<leftarrow> (if 2 < cntRTT (yh_vegas (snd s))
                then do {
                  q \<leftarrow> yeah_queue (snd_cwnd (fst s)) (yh_vegas (snd s));
                  let (tp, y) = yeah_mode q s;
                  Some (tp, y\<lparr>lastQ := q\<rparr>)
                }
                else Some s);
     Some (tp, y\<lparr>yh_vegas := (yh_vegas y)\<lparr>beg_snd_una := beg_snd_nxt (yh_vegas y), beg_snd_nxt := snd_nxt tp,
       beg_snd_cwnd := snd_cwnd tp, cntRTT := 0, minRTT := 0x7fffffff\<rparr>\<rparr>)
   }"

definition tcp_yeah_cong_avoid ::
  "kern \<Rightarrow> u32 \<Rightarrow> u32 \<Rightarrow> u32 \<Rightarrow> s32 \<Rightarrow> yeah sock \<Rightarrow> yeah sock option" where
  "tcp_yeah_cong_avoid k ack seq_rtt in_flight flag s =
     (if \<not> tcp_is_cwnd_limited (fst s) in_flight then Some s
      else do {
        s \<leftarrow> yeah_grow k s;
        if after ack (beg_snd_nxt (yh_vegas (snd s))) then yeah_end_round s else Some s
      })"

definition tcp_yeah_ssthresh :: "yeah sock \<Rightarrow> u32 \<times> yeah sock" where
  "tcp_yeah_ssthresh s = (let w = snd_cwnd (fst s); y = snd s;
     reduction = (if doing_reno_now y < TCP_YEAH_RHO
                  then max (min (lastQ y) (max (drop_bit 1 w) 2)) (drop_bit TCP_YEAH_DELTA w)
                  else max (drop_bit 1 w) 2)
     in (w - reduction, (fst s, y\<lparr>fast_count := 0, reno_count := max (drop_bit 1 (reno_count y)) 2\<rparr>)))"

definition tcp_yeah :: "yeah tcp_congestion_ops" where
  "tcp_yeah =
     \<lparr>op_flags = TCP_CONG_RTT_STAMP,
      op_name = ''yeah'',
      op_init = Some (\<lambda>k s. Some (tcp_yeah_init s)),
      op_ssthresh = (\<lambda>k s. Some (tcp_yeah_ssthresh s)),
      op_min_cwnd = Some (\<lambda>k s. Some (tcp_reno_min_cwnd (fst s))),
      op_cong_avoid = tcp_yeah_cong_avoid,
      op_rtt_sample = None,
      op_set_state = Some (\<lambda>k st s. Some (fst s, (snd s)\<lparr>yh_vegas := tcp_vegas_state st (fst s) (yh_vegas (snd s))\<rparr>)),
      op_cwnd_event = Some (\<lambda>k ev s. Some (fst s, (snd s)\<lparr>yh_vegas := tcp_vegas_cwnd_event ev (fst s) (yh_vegas (snd s))\<rparr>)),
      op_undo_cwnd = None,
      op_pkts_acked = Some (\<lambda>k n t s. Some (tcp_yeah_pkts_acked k n t s))\<rparr>"

subsection \<open>Lemmas\<close>

text \<open>The queue estimate is exact, and at most the window.\<close>

lemma yeah_queue_exact:
  assumes "minRTT v \<noteq> 0" "baseRTT v \<le> minRTT v"
  shows "\<exists>q. yeah_queue w v = Some q \<and>
    unat q = unat w * (unat (minRTT v) - unat (baseRTT v)) div unat (minRTT v) \<and> unat q \<le> unat w"
proof -
  define d where "d = unat (minRTT v) - unat (baseRTT v)"
  define m where "m = unat (minRTT v)"
  have m: "0 < m" "d \<le> m" using assms(1) by (simp_all add: m_def d_def word_neq_0_iff_unat)
  have d: "unat (minRTT v - baseRTT v) = d" using assms(2) by (simp add: unat_sub_le d_def)
  have "unat w * d \<le> 4294967295 * 4294967295"
    using unat_lt_u32 [of w] unat_lt_u32 [of "minRTT v"] by (intro mult_le_mono) (simp_all add: d_def)
  then have "unat w * d < 18446744073709551616" by simp
  then have p: "unat (ucast w * ucast (minRTT v - baseRTT v) :: u64) = unat w * d"
    by (subst unat_mult_nowrap) (simp_all add: unat_ucast_u64 d)
  define bw where "bw = (ucast w * ucast (minRTT v - baseRTT v) :: u64) div ucast (minRTT v)"
  have bw: "unat bw = unat w * d div m" by (simp add: bw_def unat_div_word p unat_ucast_u64 m_def)
  have "unat w * d div m \<le> unat w * m div m" using m(2) by (intro div_le_mono mult_le_mono) simp_all
  then have le: "unat w * d div m \<le> unat w" using m(1) by simp
  then have "unat bw < 4294967296" using bw unat_lt_u32 [of w] by simp
  then have "unat (ucast bw :: u32) = unat w * d div m" using bw by (simp add: unat_ucast_u32)
  moreover have "yeah_queue w v = Some (ucast bw)"
    using assms(1) by (simp add: yeah_queue_def bw_def)
  ultimately show ?thesis using le by (simp add: d_def m_def)
qed

lemma yeah_decongest_window:
  "unat (snd_cwnd (yeah_decongest q y tp)) =
     (if 80 < unat q \<and> unat (reno_count y) < unat (snd_cwnd tp)
      then max (unat (snd_cwnd tp) - min (unat q) (unat (snd_cwnd tp) div 2)) (unat (reno_count y))
      else unat (snd_cwnd tp))"
proof -
  define r where "r = min q (drop_bit 1 (snd_cwnd tp))"
  have r: "unat r = min (unat q) (unat (snd_cwnd tp) div 2)" by (simp add: r_def unat_ops)
  then have "r \<le> snd_cwnd tp" by (simp add: word_le_nat_alt)
  then have "unat (snd_cwnd tp - r) = unat (snd_cwnd tp) - unat r" by (rule unat_sub_le)
  then show ?thesis
    by (simp add: yeah_decongest_def Let_def word_less_nat_alt unat_max r r_def unat_ops)
qed

text \<open>The decrease on a loss, in three ranges of the window.\<close>

lemma yeah_ssthresh_value:
  assumes "4 \<le> unat (snd_cwnd tp)"
  shows "unat (fst (tcp_yeah_ssthresh (tp, y))) = unat (snd_cwnd tp) -
      (if doing_reno_now y < 16 then max (min (unat (lastQ y)) (unat (snd_cwnd tp) div 2)) (unat (snd_cwnd tp) div 8)
       else unat (snd_cwnd tp) div 2)"
proof -
  define w where "w = snd_cwnd tp"
  define r where "r = (if doing_reno_now y < 16 then max (min (lastQ y) (max (drop_bit 1 w) 2)) (drop_bit 3 w)
    else max (drop_bit 1 w) 2)"
  have "unat (max (drop_bit 1 w) 2) = max (unat w div 2 ^ 1) 2" by (simp only: unat_ops unat_numeral) simp
  then have h: "unat (max (drop_bit 1 w) 2) = unat w div 2" "unat (drop_bit 3 w) = unat w div 8"
    using assms by (simp_all only: w_def unat_ops) simp_all
  have r: "unat r = (if doing_reno_now y < 16 then max (min (unat (lastQ y)) (unat w div 2)) (unat w div 8) else unat w div 2)"
    by (simp only: r_def unat_max [of "min _ _"] unat_min h split: if_split) simp
  then have "r \<le> w" by (auto simp: word_le_nat_alt max_def min_def split: if_splits)
  then have "unat (w - r) = unat w - unat r" by (rule unat_sub_le)
  moreover have "fst (tcp_yeah_ssthresh (tp, y)) = w - r"
    by (simp only: tcp_yeah_ssthresh_def Let_def fst_conv snd_conv w_def r_def)
  ultimately show ?thesis using r by (simp add: w_def)
qed

lemma yeah_ssthresh_small:
  assumes "16 \<le> doing_reno_now y \<or> 2 \<le> lastQ y"
  shows "snd_cwnd tp = 1 \<Longrightarrow> fst (tcp_yeah_ssthresh (tp, y)) = - 1"
    "snd_cwnd tp = 2 \<Longrightarrow> fst (tcp_yeah_ssthresh (tp, y)) = 0"
    "snd_cwnd tp = 3 \<Longrightarrow> fst (tcp_yeah_ssthresh (tp, y)) = 1"
proof -
  have red: "(if doing_reno_now y < 16 then max (min (lastQ y) (max (drop_bit 1 w) 2)) (drop_bit 3 w)
      else max (drop_bit 1 w) 2) = 2" if "unat w < 4" for w :: u32
  proof -
    have "unat (drop_bit 1 w) \<le> 2" "unat (drop_bit 3 w) = 0" using that by (simp_all add: unat_drop_bit_div)
    then have "max (drop_bit 1 w) 2 = 2" "drop_bit 3 w = 0"
      by (simp_all add: word_unat_eq_iff unat_max)
    then show ?thesis using assms by (auto simp: min_def)
  qed
  have v: "fst (tcp_yeah_ssthresh (tp, y)) = snd_cwnd tp - 2" if "unat (snd_cwnd tp) < 4"
    using red [OF that] by (simp only: tcp_yeah_ssthresh_def Let_def fst_conv snd_conv)
  show "snd_cwnd tp = 1 \<Longrightarrow> fst (tcp_yeah_ssthresh (tp, y)) = - 1"
    "snd_cwnd tp = 2 \<Longrightarrow> fst (tcp_yeah_ssthresh (tp, y)) = 0"
    "snd_cwnd tp = 3 \<Longrightarrow> fst (tcp_yeah_ssthresh (tp, y)) = 1"
    using v by simp_all
qed

subsection \<open>Properties\<close>

definition example_yeah :: yeah where
  "example_yeah =
     \<lparr>yh_vegas = \<lparr>beg_snd_nxt = 0, beg_snd_una = 0, beg_snd_cwnd = 4, doing_vegas_now = 1, cntRTT = 4,
        minRTT = 120000, baseRTT = 90000\<rparr>, lastQ = 5, doing_reno_now = 0, reno_count = 2, fast_count = 0, yh_pkts_acked = 1\<rparr>"

text \<open>
  The end of a YeAH round with enough samples: the queue is \<open>w * (rtt - base) / rtt\<close>, exact by the 64-bit
  product, and at most the window \<open>w\<close>. A queue above 80 packets with \<open>w\<close> above \<open>reno_count\<close> is removed
  from the window, up to half of it and not below \<open>reno_count\<close>, and the threshold follows; otherwise window and
  threshold stay. In every case at least half of the window is left.
\<close>

theorem yeah_decongestion:
  assumes "2 < cntRTT (yh_vegas y)" "minRTT (yh_vegas y) \<noteq> 0" "baseRTT (yh_vegas y) \<le> minRTT (yh_vegas y)"
    and Q: "Q = unat (snd_cwnd tp) * (unat (minRTT (yh_vegas y)) - unat (baseRTT (yh_vegas y))) div unat (minRTT (yh_vegas y))"
  shows "\<exists>tp' y'. yeah_end_round (tp, y) = Some (tp', y') \<and> unat (lastQ y') = Q \<and> Q \<le> unat (snd_cwnd tp) \<and>
    (if 80 < Q \<and> unat (reno_count y) < unat (snd_cwnd tp)
     then unat (snd_cwnd tp') = max (unat (snd_cwnd tp) - min Q (unat (snd_cwnd tp) div 2)) (unat (reno_count y)) \<and>
       snd_ssthresh tp' = snd_cwnd tp'
     else tp' = tp) \<and>
    unat (snd_cwnd tp) \<le> 2 * unat (snd_cwnd tp') \<and> unat (snd_cwnd tp') \<le> unat (snd_cwnd tp)"
proof -
  obtain q where q: "yeah_queue (snd_cwnd tp) (yh_vegas y) = Some q" "unat q = Q" "Q \<le> unat (snd_cwnd tp)"
    using yeah_queue_exact [OF assms(2,3), of "snd_cwnd tp"] Q by auto
  obtain tp' y1 where m: "yeah_mode q (tp, y) = (tp', y1)" by (cases "yeah_mode q (tp, y)")
  then obtain y' where y': "yeah_end_round (tp, y) = Some (tp', y')" "lastQ y' = q"
    using assms(1) q(1) by (simp add: yeah_end_round_def)
  have tp': "tp' = yeah_decongest q y tp"
    using m by (auto simp: yeah_mode_def yeah_decongest_def Let_def split: if_splits)
  have w: "unat (snd_cwnd tp') = (if 80 < Q \<and> unat (reno_count y) < unat (snd_cwnd tp)
      then max (unat (snd_cwnd tp) - min Q (unat (snd_cwnd tp) div 2)) (unat (reno_count y)) else unat (snd_cwnd tp))"
    unfolding tp' yeah_decongest_window q(2) ..
  have frame: "if 80 < Q \<and> unat (reno_count y) < unat (snd_cwnd tp) then snd_ssthresh tp' = snd_cwnd tp' else tp' = tp"
    unfolding tp' by (simp add: yeah_decongest_def Let_def word_less_nat_alt q(2))
  have "unat (snd_cwnd tp) \<le> 2 * unat (snd_cwnd tp') \<and> unat (snd_cwnd tp') \<le> unat (snd_cwnd tp)"
    unfolding w by auto
  moreover have "unat (lastQ y') = Q" by (simp only: y'(2) q(2))
  ultimately show ?thesis using y'(1) q(3) w frame by auto
qed

theorem yeah_decongestion_witness:
  "\<exists>tp' y'. yeah_end_round ((example_sock 2)\<lparr>snd_cwnd := 400\<rparr>, example_yeah) = Some (tp', y') \<and>
     unat (snd_cwnd tp') = 300"
  using yeah_decongestion [of example_yeah 100 "(example_sock 2)\<lparr>snd_cwnd := 400\<rparr>"]
  by (auto simp: example_yeah_def)

text \<open>
  The decrease of YeAH has no lower bound. From windows of four packets on, it removes the queue, at least an
  eighth and at most half of the window. But a loss at a window of 2 or 3 packets, in Reno mode or after a queue of 2 packets,
  gives the threshold 0 or 1, and the agent's fast recovery then sets the window to 0 packets.
\<close>

theorem yeah_loss_small_window:
  assumes "16 \<le> doing_reno_now (priv a) \<or> 2 \<le> lastQ (priv a)"
  shows "(if 4 \<le> unat (snd_cwnd (linux a))
     then unat (snd_cwnd (linux a)) \<le> 2 * unat (fst (tcp_yeah_ssthresh (agent_sock a))) \<and>
       unat (fst (tcp_yeah_ssthresh (agent_sock a))) \<le> unat (snd_cwnd (linux a)) - unat (snd_cwnd (linux a)) div 8
     else if snd_cwnd (linux a) = 2 \<or> snd_cwnd (linux a) = 3
     then \<exists>a'. enter_recovery tcp_yeah k a = Some a' \<and> snd_ssthresh (linux a') = snd_cwnd (linux a) - 2 \<and>
       snd_cwnd (linux a') = 0
     else True)"
proof -
  define w where "w = unat (snd_cwnd (linux a))"
  have big: "w \<le> 2 * unat (fst (tcp_yeah_ssthresh (agent_sock a))) \<and>
      unat (fst (tcp_yeah_ssthresh (agent_sock a))) \<le> w - w div 8" if "4 \<le> w"
  proof -
    define x where "x = (if doing_reno_now (priv a) < 16 then max (min (unat (lastQ (priv a))) (w div 2)) (w div 8) else w div 2)"
    have "unat (fst (tcp_yeah_ssthresh (agent_sock a))) = w - x"
      using yeah_ssthresh_value [of "linux a" "priv a"] that by (simp only: agent_sock_def w_def x_def)
    moreover have "w div 8 \<le> x" "x \<le> w div 2" by (auto simp: x_def)
    ultimately show ?thesis by auto
  qed
  have small: "\<exists>a'. enter_recovery tcp_yeah k a = Some a' \<and> snd_ssthresh (linux a') = snd_cwnd (linux a) - 2 \<and>
      snd_cwnd (linux a') = 0" if c: "snd_cwnd (linux a) = 2 \<or> snd_cwnd (linux a) = 3"
  proof -
    define tp where "tp = touch_cwnd k (linux a)"
    obtain v y where s: "tcp_yeah_ssthresh (tp, priv a) = (v, (tp, y))"
      by (simp add: tcp_yeah_ssthresh_def Let_def)
    have tpw: "snd_cwnd tp = snd_cwnd (linux a)" by (simp add: tp_def touch_cwnd_def)
    have "v = 0 \<and> snd_cwnd (linux a) = 2 \<or> v = 1 \<and> snd_cwnd (linux a) = 3"
      using yeah_ssthresh_small(2,3) [OF assms, of tp] c s tpw by auto
    then have v: "v = snd_cwnd (linux a) - 2" "v div 2 = 0" by auto
    show ?thesis
      using s v by (simp add: enter_recovery_def tcp_yeah_def agent_sock_def set_agent_sock_def min_cwnd_call_def
          tcp_reno_min_cwnd_def tcp_set_ca_state_def flip: tp_def)
  qed
  show ?thesis using big small unfolding w_def by auto
qed

theorem yeah_loss_small_window_witness:
  "\<exists>a'. enter_recovery tcp_yeah example_kern ((example_agent example_yeah)\<lparr>linux := (example_sock 2)\<lparr>snd_cwnd := 2\<rparr>\<rparr>) =
     Some a' \<and> snd_cwnd (linux a') = 0"
  using yeah_loss_small_window [of "(example_agent example_yeah)\<lparr>linux := (example_sock 2)\<lparr>snd_cwnd := 2\<rparr>\<rparr>" example_kern]
  by (auto simp: example_agent_def example_yeah_def)

end
