(* ===== verification/Illinois.thy ===== *)
theory Illinois
  imports Kernel_Util Delay_Based
begin

section \<open>TCP Illinois (\<open>src/tcp_illinois.c\<close>)\<close>

text \<open>
  Illinois is Reno with an additive increase \<open>alpha\<close> (in 128ths of a packet, between 0.3 and 10)
  and a multiplicative decrease \<open>beta\<close> (in 64ths, between 1/8 and 1/2) computed once per round trip
  from the average queueing delay. The lemmas show that the samples bound the average, so that the
  32-bit arithmetic of both curves is exact and the curves stay in their ranges, that no division of
  the acknowledgement path traps while the sample counter does not wrap, and what the diagnostic
  operation \<open>get_info\<close> does on a fresh round.
\<close>

subsection \<open>Model\<close>

abbreviation (input) ILLINOIS_ALPHA_MIN :: u32 where "ILLINOIS_ALPHA_MIN \<equiv> 38"
abbreviation (input) ILLINOIS_ALPHA_MAX :: u32 where "ILLINOIS_ALPHA_MAX \<equiv> 1280"
abbreviation (input) ILLINOIS_ALPHA_BASE :: u32 where "ILLINOIS_ALPHA_BASE \<equiv> 128"
abbreviation (input) ILLINOIS_BETA_MIN :: u32 where "ILLINOIS_BETA_MIN \<equiv> 8"
abbreviation (input) ILLINOIS_BETA_MAX :: u32 where "ILLINOIS_BETA_MAX \<equiv> 32"

text \<open>\<open>U32_MAX / ALPHA_MAX\<close>\<close>

definition illinois_RTT_MAX :: u32 where
  "illinois_RTT_MAX = 0xffffffff div 1280"

record illinois_params =
  win_thresh :: s32
  illinois_theta :: s32

definition illinois_defaults :: illinois_params where
  "illinois_defaults = \<lparr>win_thresh = 15, illinois_theta = 5\<rparr>"

record illinois =
  sum_rtt :: u64
  il_cnt_rtt :: u16
  il_base_rtt :: u32
  il_max_rtt :: u32
  il_end_seq :: u32
  il_alpha :: u32
  il_beta :: u32
  il_acked :: u16
  rtt_above :: u8
  rtt_low :: u8

definition illinois_rtt_reset :: "tcp_sock \<Rightarrow> illinois \<Rightarrow> illinois" where
  "illinois_rtt_reset tp ca = ca\<lparr>il_end_seq := snd_nxt tp, il_cnt_rtt := 0, sum_rtt := 0\<rparr>"

definition tcp_illinois_init :: "tcp_sock \<Rightarrow> illinois \<Rightarrow> illinois" where
  "tcp_illinois_init tp ca =
     illinois_rtt_reset tp (ca\<lparr>il_alpha := ILLINOIS_ALPHA_MAX, il_beta := ILLINOIS_BETA_MAX,
       il_base_rtt := 0x7fffffff, il_max_rtt := 0, il_acked := 0, rtt_low := 0, rtt_above := 0\<rparr>)"

text \<open>The sample in microseconds, cut off at \<open>RTT_MAX\<close>.\<close>

definition illinois_sample :: "kern \<Rightarrow> s64 \<Rightarrow> u32" where
  "illinois_sample k last_t =
     (let rtt = ucast (ktime_to_us (net_timedelta k last_t)) :: u32
      in if illinois_RTT_MAX < rtt then illinois_RTT_MAX else rtt)"

definition tcp_illinois_acked :: "kern \<Rightarrow> u32 \<Rightarrow> s64 \<Rightarrow> illinois \<Rightarrow> illinois" where
  "tcp_illinois_acked k pkts_acked last_t ca =
     (let ca = ca\<lparr>il_acked := pkts_acked\<rparr> in
      if ktime_equal last_t net_invalid_timestamp then ca
      else let rtt = illinois_sample k last_t
           in ca\<lparr>il_base_rtt := (if rtt < il_base_rtt ca then rtt else il_base_rtt ca),
                 il_max_rtt := (if il_max_rtt ca < rtt then rtt else il_max_rtt ca),
                 il_cnt_rtt := il_cnt_rtt ca + 1,
                 sum_rtt := sum_rtt ca + ucast rtt\<rparr>)"

definition max_delay :: "illinois \<Rightarrow> u32" where
  "max_delay ca = il_max_rtt ca - il_base_rtt ca"

definition avg_delay :: "illinois \<Rightarrow> u32 option" where
  "avg_delay ca = do {
     t \<leftarrow> do_div (sum_rtt ca) (il_cnt_rtt ca);
     Some (ucast (t - ucast (il_base_rtt ca)))
   }"

definition illinois_alpha :: "illinois_params \<Rightarrow> illinois \<Rightarrow> u32 \<Rightarrow> u32 \<Rightarrow> (u32 \<times> illinois) option" where
  "illinois_alpha p ca da dm =
     (let d1 = dm div 100 in
      if da \<le> d1
      then if rtt_above ca = 0 then Some (ILLINOIS_ALPHA_MAX, ca)
           else let ca = ca\<lparr>rtt_low := rtt_low ca + 1\<rparr> in
                if uint (rtt_low ca) < sint (illinois_theta p) then Some (il_alpha ca, ca)
                else Some (ILLINOIS_ALPHA_MAX, ca\<lparr>rtt_low := 0, rtt_above := 0\<rparr>)
      else let ca = ca\<lparr>rtt_above := 1\<rparr>; dm = dm - d1; da = da - d1 in do {
             a \<leftarrow> cdiv (dm * ILLINOIS_ALPHA_MAX)
                       (dm + (da * (ILLINOIS_ALPHA_MAX - ILLINOIS_ALPHA_MIN)) div ILLINOIS_ALPHA_MIN);
             Some (a, ca)
           })"

definition illinois_beta :: "u32 \<Rightarrow> u32 \<Rightarrow> u32 option" where
  "illinois_beta da dm =
     (let d2 = dm div 10; d3 = (8 * dm) div 10 in
      if da \<le> d2 then Some ILLINOIS_BETA_MIN
      else if d3 \<le> da \<or> d3 \<le> d2 then Some ILLINOIS_BETA_MAX
      else cdiv (ILLINOIS_BETA_MIN * d3 - ILLINOIS_BETA_MAX * d2 + (ILLINOIS_BETA_MAX - ILLINOIS_BETA_MIN) * da)
             (d3 - d2))"

definition illinois_update_params :: "illinois_params \<Rightarrow> illinois sock \<Rightarrow> illinois sock option" where
  "illinois_update_params p s = (let tp = fst s; ca = snd s in do {
     ca \<leftarrow> (if snd_cwnd tp < win_thresh p
            then Some (ca\<lparr>il_alpha := ILLINOIS_ALPHA_BASE, il_beta := ILLINOIS_BETA_MAX\<rparr>)
            else if 0 < il_cnt_rtt ca
            then do {
              let dm = max_delay ca;
              da \<leftarrow> avg_delay ca;
              (a, ca) \<leftarrow> illinois_alpha p ca da dm;
              let ca = ca\<lparr>il_alpha := a\<rparr>;
              b \<leftarrow> illinois_beta da dm;
              Some (ca\<lparr>il_beta := b\<rparr>)
            }
            else Some ca);
     Some (tp, illinois_rtt_reset tp ca)
   })"

definition tcp_illinois_state :: "u8 \<Rightarrow> tcp_sock \<Rightarrow> illinois \<Rightarrow> illinois" where
  "tcp_illinois_state new_state tp ca =
     (if new_state = TCP_CA_Loss
      then illinois_rtt_reset tp (ca\<lparr>il_alpha := ILLINOIS_ALPHA_BASE, il_beta := ILLINOIS_BETA_MAX,
             rtt_low := 0, rtt_above := 0\<rparr>)
      else ca)"

definition illinois_increase :: "illinois sock \<Rightarrow> illinois sock option" where
  "illinois_increase s = (let tp = (fst s)\<lparr>snd_cwnd_cnt := snd_cwnd_cnt (fst s) + il_acked (snd s)\<rparr>;
       ca = (snd s)\<lparr>il_acked := 1\<rparr>;
       delta = drop_bit 7 (snd_cwnd_cnt tp * il_alpha ca) in
     if snd_cwnd tp \<le> delta
     then do {
       q \<leftarrow> cdiv delta (snd_cwnd tp);
       Some (tp\<lparr>snd_cwnd := min (snd_cwnd tp + q) (snd_cwnd_clamp tp), snd_cwnd_cnt := 0\<rparr>, ca)
     }
     else Some (tp, ca))"

definition tcp_illinois_cong_avoid ::
  "illinois_params \<Rightarrow> kern \<Rightarrow> u32 \<Rightarrow> u32 \<Rightarrow> u32 \<Rightarrow> s32 \<Rightarrow> illinois sock \<Rightarrow> illinois sock option" where
  "tcp_illinois_cong_avoid p k ack rtt in_flight flag s = do {
     s \<leftarrow> (if after ack (il_end_seq (snd s)) then illinois_update_params p s else Some s);
     if \<not> tcp_is_cwnd_limited (fst s) in_flight then Some s
     else if snd_cwnd (fst s) \<le> snd_ssthresh (fst s) then on_sock (tcp_slow_start k) s
     else illinois_increase s
   }"

definition tcp_illinois_ssthresh :: "illinois sock \<Rightarrow> u32" where
  "tcp_illinois_ssthresh s = max (drop_bit 6 (snd_cwnd (fst s) * il_beta (snd s))) 2"

text \<open>
  \<open>get_info\<close>: the count and minimum (\<open>tcpv_rttcnt\<close>, \<open>tcpv_minrtt\<close>) and the average
  \<open>tcpv_rtt\<close>, put into the reply when \<open>INET_DIAG_VEGASINFO\<close> is asked for. The inner
  option is the reply, the outer one the trap.
\<close>

record tcpvegas_info =
  tcpv_enabled :: u32
  tcpv_rttcnt :: u32
  tcpv_rtt :: u32
  tcpv_minrtt :: u32

definition tcp_illinois_info :: "u32 \<Rightarrow> illinois \<Rightarrow> tcpvegas_info option option" where
  "tcp_illinois_info ext ca =
     (if ext AND push_bit (1 - 1) 1 = 0 then Some None
      else do {
        t \<leftarrow> do_div (sum_rtt ca) (il_cnt_rtt ca);
        Some (Some \<lparr>tcpv_enabled = 1, tcpv_rttcnt = il_cnt_rtt ca, tcpv_rtt = ucast t, tcpv_minrtt = il_base_rtt ca\<rparr>)
      })"

definition tcp_illinois :: "illinois_params \<Rightarrow> illinois tcp_congestion_ops" where
  "tcp_illinois p =
     \<lparr>op_flags = TCP_CONG_RTT_STAMP,
      op_name = ''illinois'',
      op_init = Some (\<lambda>k s. Some (fst s, tcp_illinois_init (fst s) (snd s))),
      op_ssthresh = (\<lambda>k s. Some (tcp_illinois_ssthresh s, s)),
      op_min_cwnd = Some (\<lambda>k s. Some (tcp_reno_min_cwnd (fst s))),
      op_cong_avoid = tcp_illinois_cong_avoid p,
      op_rtt_sample = None,
      op_set_state = Some (\<lambda>k st s. Some (fst s, tcp_illinois_state st (fst s) (snd s))),
      op_cwnd_event = None,
      op_undo_cwnd = None,
      op_pkts_acked = Some (\<lambda>k n t s. Some (fst s, tcp_illinois_acked k n t (snd s)))\<rparr>"

subsection \<open>The samples of a round\<close>

text \<open>The sum of the samples lies between \<open>cnt\<close> times the minimum and \<open>cnt\<close> times the
  maximum, and no sample is above \<open>RTT_MAX\<close>.\<close>

definition illinois_samples :: "illinois \<Rightarrow> bool" where
  "illinois_samples ca \<longleftrightarrow>
     unat (il_max_rtt ca) \<le> 3355443 \<and>
     unat (il_cnt_rtt ca) * unat (il_base_rtt ca) \<le> unat (sum_rtt ca) \<and>
     unat (sum_rtt ca) \<le> unat (il_cnt_rtt ca) * unat (il_max_rtt ca)"

lemma illinois_samples_reset: "unat (il_max_rtt ca) \<le> 3355443 \<Longrightarrow> illinois_samples (illinois_rtt_reset tp ca)"
  by (simp add: illinois_samples_def illinois_rtt_reset_def)

lemma illinois_samples_acked:
  assumes "illinois_samples ca" "Suc (unat (il_cnt_rtt ca)) < 4294967296"
  shows "illinois_samples (tcp_illinois_acked k n t ca)"
proof -
  define r where "r = illinois_sample k t"
  define c where "c = unat (il_cnt_rtt ca)"
  have r: "unat r \<le> 3355443"
    by (auto simp: r_def illinois_sample_def Let_def illinois_RTT_MAX_def word_less_nat_alt not_less)
  have cnt: "unat (il_cnt_rtt ca + 1) = Suc c"
    unfolding c_def using assms(2) by (intro unat_inc) simp
  have s: "unat (sum_rtt ca) \<le> c * unat (il_max_rtt ca)" "c * unat (il_base_rtt ca) \<le> unat (sum_rtt ca)"
    and m: "unat (il_max_rtt ca) \<le> 3355443"
    using assms(1) by (simp_all add: illinois_samples_def c_def)
  have "c * unat (il_max_rtt ca) \<le> 4294967296 * 3355443"
    using m assms(2) by (intro mult_le_mono) (simp_all add: c_def)
  then have sum: "unat (sum_rtt ca + ucast r) = unat (sum_rtt ca) + unat r"
    using s(1) r by (subst unat_add_nowrap) (simp_all add: unat_ucast_u64)
  define b where "b = (if r < il_base_rtt ca then r else il_base_rtt ca)"
  define x where "x = (if il_max_rtt ca < r then r else il_max_rtt ca)"
  have b: "unat b \<le> unat r" "unat b \<le> unat (il_base_rtt ca)"
    and x: "unat r \<le> unat x" "unat (il_max_rtt ca) \<le> unat x" "unat x \<le> 3355443"
    using r m by (auto simp: b_def x_def word_less_nat_alt)
  have "unat b + c * unat b \<le> unat (sum_rtt ca) + unat r"
    using s(2) b mult_le_mono2 [OF b(2), of c] by linarith
  moreover have "unat (sum_rtt ca) + unat r \<le> unat x + c * unat x"
    using s(1) x mult_le_mono2 [OF x(2), of c] by linarith
  ultimately have "illinois_samples (ca\<lparr>il_acked := n, il_base_rtt := b, il_max_rtt := x,
      il_cnt_rtt := il_cnt_rtt ca + 1, sum_rtt := sum_rtt ca + ucast r\<rparr>)"
    using x(3) by (simp add: illinois_samples_def cnt sum)
  moreover have "illinois_samples (ca\<lparr>il_acked := n\<rparr>)"
    using assms(1) by (simp add: illinois_samples_def)
  ultimately show ?thesis
    unfolding b_def x_def r_def
    by (cases "ktime_equal t net_invalid_timestamp") (simp_all add: tcp_illinois_acked_def Let_def cong: if_cong split del: if_split)
qed

text \<open>With a sample in the round the average delay is defined, exact and at most the maximum one.\<close>

lemma illinois_delays:
  assumes "illinois_samples ca" "il_cnt_rtt ca \<noteq> 0"
  shows "\<exists>da. avg_delay ca = Some da \<and>
    unat da = unat (sum_rtt ca) div unat (il_cnt_rtt ca) - unat (il_base_rtt ca) \<and>
    unat (max_delay ca) = unat (il_max_rtt ca) - unat (il_base_rtt ca) \<and>
    unat da \<le> unat (max_delay ca) \<and> unat (max_delay ca) \<le> 3355443"
proof -
  define c where "c = unat (il_cnt_rtt ca)"
  define q where "q = unat (sum_rtt ca) div c"
  have c: "0 < c" using assms(2) by (simp add: c_def word_neq_0_iff_unat)
  have q: "unat (il_base_rtt ca) \<le> q" "q \<le> unat (il_max_rtt ca)" and m: "unat (il_max_rtt ca) \<le> 3355443"
  proof -
    have "c * unat (il_base_rtt ca) div c \<le> q"
      unfolding q_def using assms(1) by (intro div_le_mono) (simp add: illinois_samples_def c_def)
    then show "unat (il_base_rtt ca) \<le> q" using c by simp
    have "q \<le> c * unat (il_max_rtt ca) div c"
      unfolding q_def using assms(1) by (intro div_le_mono) (simp add: illinois_samples_def c_def)
    then show "q \<le> unat (il_max_rtt ca)" using c by simp
  qed (use assms(1) in \<open>simp add: illinois_samples_def\<close>)
  define t where "t = sum_rtt ca div ucast (il_cnt_rtt ca)"
  have t: "unat t = q" by (simp add: t_def q_def c_def unat_div_word unat_ucast_u64)
  have d: "unat (t - ucast (il_base_rtt ca)) = q - unat (il_base_rtt ca)"
    using q(1) t by (subst unat_sub_le) (simp_all add: word_le_nat_alt unat_ucast_u64)
  define da where "da = (ucast (t - ucast (il_base_rtt ca)) :: u32)"
  have "unat da = q - unat (il_base_rtt ca)"
    unfolding da_def using d q m by (subst unat_ucast_u32) simp_all
  moreover have "avg_delay ca = Some da"
    using assms(2) by (simp add: avg_delay_def do_div_def t_def da_def)
  moreover have "unat (max_delay ca) = unat (il_max_rtt ca) - unat (il_base_rtt ca)"
    unfolding max_delay_def using q by (intro unat_sub_le) (simp add: word_le_nat_alt)
  ultimately show ?thesis using q m by (auto simp: q_def c_def)
qed

subsection \<open>The curves\<close>

lemma illinois_alpha_quotient:
  fixes x y :: nat
  assumes "y \<le> x" "0 < x"
  shows "38 \<le> x * 1280 div (x + y * 1242 div 38) \<and> x * 1280 div (x + y * 1242 div 38) \<le> 1280"
proof -
  define z where "z = x + y * 1242 div 38"
  have "38 * (y * 1242 div 38) \<le> y * 1242" by simp
  then have "38 * z \<le> x * 1280" using assms(1) by (simp add: z_def)
  then have "38 \<le> x * 1280 div z" using assms(2) by (simp add: z_def less_eq_div_iff_mult_less_eq)
  moreover have "x * 1280 div z \<le> x * 1280 div x"
    using assms(2) by (intro div_le_mono2) (simp_all add: z_def)
  ultimately show ?thesis using assms(2) by (simp add: z_def)
qed

lemma illinois_alpha_curve:
  assumes "unat da \<le> unat dm" "unat dm \<le> 3355443" "unat dm div 100 < unat da"
  shows "\<exists>a. illinois_alpha p ca da dm = Some (a, ca\<lparr>rtt_above := 1\<rparr>) \<and>
    unat a = (unat dm - unat dm div 100) * 1280 div
      ((unat dm - unat dm div 100) + (unat da - unat dm div 100) * 1242 div 38)"
proof -
  define d1 where "d1 = dm div 100"
  define x y where "x = unat dm - unat d1" and "y = unat da - unat d1"
  have d1: "unat d1 = unat dm div 100" by (simp add: d1_def unat_div_word)
  have le: "d1 \<le> da" "d1 \<le> dm" "\<not> da \<le> d1" using assms by (simp_all add: word_le_nat_alt d1)
  then have x: "unat (dm - d1) = x" and y: "unat (da - d1) = y" by (simp_all add: unat_sub_le x_def y_def)
  have b: "x \<le> 3355443" "y \<le> 3355443" "0 < x" using assms d1 by (simp_all add: x_def y_def)
  define X where "X = dm - d1"
  define Y where "Y = da - d1"
  note xy = x [folded X_def] y [folded Y_def]
  have 1: "unat (X * 1280) = x * 1280"
    using b xy by (subst unat_mult_nowrap) simp_all
  have 2: "unat (Y * 1242 div 38) = y * 1242 div 38"
    using b xy unat_mult_nowrap [of Y 1242] by (simp add: unat_div_word)
  have "y * 1242 div 38 \<le> 3355443 * 1242 div 38" using b by (intro div_le_mono) simp
  then have 3: "unat (X + Y * 1242 div 38) = x + y * 1242 div 38"
    using b 2 xy by (subst unat_add_nowrap) simp_all
  then have "X + Y * 1242 div 38 \<noteq> 0" using b(3) by (simp only: word_neq_0_iff_unat)
  then have "illinois_alpha p ca da dm = Some (X * 1280 div (X + Y * 1242 div 38), ca\<lparr>rtt_above := 1\<rparr>)"
    using le(3) by (simp add: illinois_alpha_def d1_def Let_def X_def Y_def)
  then show ?thesis using 1 3 by (simp add: unat_div_word x_def y_def d1)
qed

lemma illinois_beta_curve:
  assumes "unat dm \<le> 3355443"
  shows "\<exists>b. illinois_beta da dm = Some b \<and> 8 \<le> unat b \<and> unat b \<le> 32 \<and>
    unat b = (if unat da \<le> unat dm div 10 then 8
      else if 8 * unat dm div 10 \<le> unat da then 32
      else (8 * (8 * unat dm div 10) + 24 * unat da - 32 * (unat dm div 10)) div (8 * unat dm div 10 - unat dm div 10))"
proof -
  define d2 d3 where "d2 = dm div 10" and "d3 = (8 * dm) div 10"
  have d2: "unat d2 = unat dm div 10" by (simp add: d2_def unat_div_word)
  have d3: "unat d3 = 8 * unat dm div 10"
    using assms unat_mult_nowrap [of 8 dm] by (simp add: d3_def unat_div_word)
  show ?thesis
  proof (cases "unat da \<le> unat d2 \<or> unat d3 \<le> unat da")
    case True
    then show ?thesis
      by (auto simp: illinois_beta_def Let_def word_le_nat_alt d2 d3 simp flip: d2_def d3_def)
  next
    case False
    define x y z where "x = unat d2" "y = unat d3" "z = unat da"
    have xyz: "x < z" "z < y" "8 * x \<le> y" "y \<le> 2684354" using False assms by (auto simp: x_y_z_def d2 d3)
    have 1: "unat (8 * d3) = 8 * y" "unat (32 * d2) = 32 * x" "unat (24 * da) = 24 * z"
      using xyz unat_mult_nowrap [of 8 d3] unat_mult_nowrap [of 32 d2] unat_mult_nowrap [of 24 da]
      by (simp_all add: x_y_z_def)
    have 2: "unat (8 * d3 - 32 * d2) = 8 * y - 32 * x"
      using xyz by (subst unat_sub_le) (simp_all add: word_le_nat_alt 1)
    have 3: "unat (8 * d3 - 32 * d2 + 24 * da) = 8 * y - 32 * x + 24 * z"
      using xyz by (subst unat_add_nowrap) (simp_all add: 1 2)
    have 4: "unat (d3 - d2) = y - x"
      using xyz unat_sub_le [of d2 d3] by (simp add: word_le_nat_alt x_y_z_def)
    have "0 < unat (d3 - d2)" using xyz 4 by simp
    then have "d3 - d2 \<noteq> 0" by (simp only: word_neq_0_iff_unat)
    moreover have "\<not> da \<le> d2" "\<not> d3 \<le> da" "\<not> d3 \<le> d2" using xyz by (simp_all add: word_le_nat_alt x_y_z_def)
    ultimately have "illinois_beta da dm = Some ((8 * d3 - 32 * d2 + 24 * da) div (d3 - d2))"
      by (simp add: illinois_beta_def Let_def d2_def d3_def)
    moreover have "unat ((8 * d3 - 32 * d2 + 24 * da) div (d3 - d2)) = (8 * y + 24 * z - 32 * x) div (y - x)"
      using xyz by (simp add: unat_div_word 3 4)
    moreover have "8 \<le> (8 * y + 24 * z - 32 * x) div (y - x)"
      using xyz by (simp add: less_eq_div_iff_mult_less_eq)
    moreover have "(8 * y + 24 * z - 32 * x) div (y - x) \<le> 32"
    proof -
      have "(8 * y + 24 * z - 32 * x) div (y - x) \<le> (32 * (y - x)) div (y - x)"
        using xyz by (intro div_le_mono) simp
      then show ?thesis using xyz by simp
    qed
    ultimately show ?thesis using xyz False by (simp add: x_y_z_def d2 d3)
  qed
qed

subsection \<open>The operations keep the invariant\<close>

text \<open>The coefficients are in their ranges, the samples bound their sum, and the counter of samples
  does not wrap in the next \<open>n\<close> acknowledgements.\<close>

definition illinois_inv :: "nat \<Rightarrow> bool \<Rightarrow> illinois \<Rightarrow> bool" where
  "illinois_inv n b ca \<longleftrightarrow> n < 4294967296 \<and>
     (b \<longrightarrow> unat (il_cnt_rtt ca) + n < 4294967296 \<and> illinois_samples ca \<and>
       38 \<le> unat (il_alpha ca) \<and> unat (il_alpha ca) \<le> 1280 \<and> 8 \<le> unat (il_beta ca) \<and> unat (il_beta ca) \<le> 32)"

lemma illinois_init_inv: "n < 4294967296 \<Longrightarrow> illinois_inv n b (tcp_illinois_init tp ca)"
  by (simp add: illinois_inv_def tcp_illinois_init_def illinois_rtt_reset_def illinois_samples_def)

lemma illinois_state_inv: "illinois_inv n b ca \<Longrightarrow> illinois_inv n b (tcp_illinois_state st tp ca)"
  by (auto simp: illinois_inv_def tcp_illinois_state_def illinois_rtt_reset_def illinois_samples_def)

lemma illinois_acked_frame:
  "il_alpha (tcp_illinois_acked k m t ca) = il_alpha ca" "il_beta (tcp_illinois_acked k m t ca) = il_beta ca"
  "il_cnt_rtt (tcp_illinois_acked k m t ca) = il_cnt_rtt ca \<or>
     il_cnt_rtt (tcp_illinois_acked k m t ca) = il_cnt_rtt ca + 1"
  by (auto simp: tcp_illinois_acked_def Let_def)

lemma illinois_acked_inv:
  assumes "illinois_inv (Suc n) True ca"
  shows "illinois_inv n True (tcp_illinois_acked k m t ca)"
proof -
  have n: "unat (il_cnt_rtt ca) + Suc n < 4294967296" "illinois_samples ca"
    using assms by (simp_all add: illinois_inv_def)
  then have "illinois_samples (tcp_illinois_acked k m t ca)"
    by (intro illinois_samples_acked) simp_all
  moreover have "unat (il_cnt_rtt ca + 1) = Suc (unat (il_cnt_rtt ca))"
    using n(1) by (intro unat_inc) simp
  then have "unat (il_cnt_rtt (tcp_illinois_acked k m t ca)) + n < 4294967296"
    using illinois_acked_frame(3) [of k m t ca] n(1) by auto
  ultimately show ?thesis
    using assms by (simp add: illinois_inv_def illinois_acked_frame)
qed

text \<open>Both coefficients for delays in range.\<close>

lemma illinois_alpha_total:
  assumes "unat da \<le> unat dm" "unat dm \<le> 3355443" "38 \<le> unat (il_alpha ca)" "unat (il_alpha ca) \<le> 1280"
  shows "\<exists>a ca'. illinois_alpha p ca da dm = Some (a, ca') \<and> 38 \<le> unat a \<and> unat a \<le> 1280 \<and>
    il_max_rtt ca' = il_max_rtt ca"
proof (cases "unat dm div 100 < unat da")
  case True
  obtain a where a: "illinois_alpha p ca da dm = Some (a, ca\<lparr>rtt_above := 1\<rparr>)"
    "unat a = (unat dm - unat dm div 100) * 1280 div
      ((unat dm - unat dm div 100) + (unat da - unat dm div 100) * 1242 div 38)"
    using illinois_alpha_curve [OF assms(1,2) True] by blast
  have "38 \<le> unat a \<and> unat a \<le> 1280"
    unfolding a(2) using assms(1) True by (intro illinois_alpha_quotient) linarith+
  then show ?thesis using a(1) by simp
next
  case False
  then have "da \<le> dm div 100" by (simp add: word_le_nat_alt unat_div_word)
  then show ?thesis using assms(3,4) by (simp add: illinois_alpha_def Let_def)
qed

lemma illinois_update_total:
  assumes "illinois_inv n True ca"
  shows "\<exists>ca'. illinois_update_params p (tp, ca) = Some (tp, ca') \<and> illinois_inv n True ca'"
proof -
  have n: "n < 4294967296" "illinois_samples ca" using assms by (simp_all add: illinois_inv_def)
  have m: "unat (il_max_rtt ca) \<le> 3355443" using n(2) by (simp add: illinois_samples_def)
  consider (small) "snd_cwnd tp < win_thresh p" | (none) "\<not> snd_cwnd tp < win_thresh p" "il_cnt_rtt ca = 0"
    | (delay) "\<not> snd_cwnd tp < win_thresh p" "il_cnt_rtt ca \<noteq> 0" by blast
  then show ?thesis
  proof cases
    case small
    then show ?thesis
      using n m by (simp add: illinois_update_params_def illinois_inv_def illinois_rtt_reset_def illinois_samples_def)
  next
    case none
    then show ?thesis
      using assms m by (simp add: illinois_update_params_def illinois_inv_def illinois_rtt_reset_def illinois_samples_def)
  next
    case delay
    obtain da where da: "avg_delay ca = Some da" "unat da \<le> unat (max_delay ca)" "unat (max_delay ca) \<le> 3355443"
      using illinois_delays [OF n(2) delay(2)] by blast
    have al: "38 \<le> unat (il_alpha ca)" "unat (il_alpha ca) \<le> 1280" using assms by (simp_all add: illinois_inv_def)
    obtain a ca1 where a: "illinois_alpha p ca da (max_delay ca) = Some (a, ca1)"
      "38 \<le> unat a" "unat a \<le> 1280" "il_max_rtt ca1 = il_max_rtt ca"
      using illinois_alpha_total [OF da(2,3) al] by blast
    obtain b where b: "illinois_beta da (max_delay ca) = Some b" "8 \<le> unat b" "unat b \<le> 32"
      using illinois_beta_curve [OF da(3)] by blast
    have "0 < il_cnt_rtt ca" using delay(2) by (simp add: word_neq_0_iff_unat word_less_nat_alt)
    then have "illinois_update_params p (tp, ca) =
        Some (tp, illinois_rtt_reset tp (ca1\<lparr>il_alpha := a, il_beta := b\<rparr>))"
      using delay(1) da(1) a(1) b(1) by (simp add: illinois_update_params_def Let_def)
    then show ?thesis
      using n m a(2-4) b(2,3) by (simp add: illinois_inv_def illinois_rtt_reset_def illinois_samples_def)
  qed
qed

lemma illinois_increase_total:
  assumes "base_ok cap tp"
  shows "\<exists>tp' ca'. illinois_increase (tp, ca) = Some (tp', ca') \<and> base_ok cap tp' \<and> ca' = ca\<lparr>il_acked := 1\<rparr>"
proof -
  define d where "d = drop_bit 7 ((snd_cwnd_cnt tp + il_acked ca) * il_alpha ca)"
  define w where "w = min (snd_cwnd tp + d div snd_cwnd tp) (snd_cwnd_clamp tp)"
  have tp: "snd_cwnd tp \<noteq> 0" "snd_cwnd_clamp tp \<noteq> 0" "snd_cwnd_clamp tp \<le> cap"
    using assms by (simp_all add: base_ok_def)
  have d: "unat d < 2 ^ 25"
    using unat_lt_u32 [of "(snd_cwnd_cnt tp + il_acked ca) * il_alpha ca"] by (simp add: d_def unat_drop_bit_div)
  have "w \<noteq> 0" if "snd_cwnd tp \<le> d"
  proof -
    define q where "q = unat d div unat (snd_cwnd tp)"
    have "q \<le> unat d" by (simp add: q_def)
    then have "unat (snd_cwnd tp) + q < 4294967296" using that d by (simp add: word_le_nat_alt)
    then have "unat (snd_cwnd tp + d div snd_cwnd tp) = unat (snd_cwnd tp) + q"
      by (subst unat_add_nowrap) (simp_all add: unat_div_word q_def)
    then have "0 < unat w" using tp(1,2) by (simp add: w_def unat_min word_neq_0_iff_unat)
    then show ?thesis by (simp only: word_neq_0_iff_unat)
  qed
  moreover have "w \<le> cap" using tp(3) by (simp add: w_def min_le_iff_disj)
  moreover have "illinois_increase (tp, ca) = Some (if snd_cwnd tp \<le> d
      then tp\<lparr>snd_cwnd_cnt := 0, snd_cwnd := w\<rparr> else tp\<lparr>snd_cwnd_cnt := snd_cwnd_cnt tp + il_acked ca\<rparr>,
      ca\<lparr>il_acked := 1\<rparr>)"
    using tp(1) by (simp add: illinois_increase_def Let_def d_def w_def)
  ultimately show ?thesis using assms by (simp add: base_ok_def)
qed

lemma illinois_cong_avoid_total:
  assumes tp: "base_ok cap tp" and ca: "illinois_inv n True ca"
  shows "\<exists>tp' ca'. tcp_illinois_cong_avoid p k ack rtt in_flight flag (tp, ca) = Some (tp', ca') \<and>
    base_ok cap tp' \<and> illinois_inv n True ca'"
proof -
  obtain ca1 where 1: "(if after ack (il_end_seq ca) then illinois_update_params p (tp, ca) else Some (tp, ca)) =
      Some (tp, ca1)" "illinois_inv n True ca1"
    using illinois_update_total [OF ca] ca by (cases "after ack (il_end_seq ca)") auto
  obtain tps where s: "tcp_slow_start k tp = Some tps" "base_ok cap tps"
    using tcp_slow_start_total [OF base_ok_cwnd [OF tp]] window_grown_base_ok [OF _ tp] by blast
  obtain tpi where i: "illinois_increase (tp, ca1) = Some (tpi, ca1\<lparr>il_acked := 1\<rparr>)" "base_ok cap tpi"
    using illinois_increase_total [OF tp] by blast
  have "illinois_inv n True (ca1\<lparr>il_acked := 1\<rparr>)"
    using 1(2) by (simp add: illinois_inv_def illinois_samples_def)
  moreover have "tcp_illinois_cong_avoid p k ack rtt in_flight flag (tp, ca) =
      (if \<not> tcp_is_cwnd_limited tp in_flight then Some (tp, ca1)
       else if snd_cwnd tp \<le> snd_ssthresh tp then Some (tps, ca1) else Some (tpi, ca1\<lparr>il_acked := 1\<rparr>))"
    using 1(1) s(1) i(1) by (simp add: tcp_illinois_cong_avoid_def)
  ultimately show ?thesis using 1(2) s(2) i(2) tp by simp
qed

lemma illinois_ssthresh_bounds:
  "2 \<le> tcp_illinois_ssthresh s \<and> tcp_illinois_ssthresh s \<le> 134217727"
  using unat_lt_u32 [of "snd_cwnd (fst s) * il_beta (snd s)"]
  by (simp add: tcp_illinois_ssthresh_def word_le_nat_alt unat_max unat_drop_bit_div)

interpretation illinois: counted_module "tcp_illinois illinois_defaults" illinois_inv "\<lambda>_. True" 134217727
proof unfold_locales
  fix tp :: tcp_sock and ca n b k
  assume "base_ok 134217727 tp" "illinois_inv n b ca"
  then show "\<exists>v tp' ca'. op_ssthresh (tcp_illinois illinois_defaults) k (tp, ca) = Some (v, (tp', ca')) \<and>
      2 \<le> v \<and> v \<le> 134217727 \<and> base_ok 134217727 tp' \<and> illinois_inv n b ca'"
    using illinois_ssthresh_bounds by (simp add: tcp_illinois_def)
next
  fix f :: "kern \<Rightarrow> illinois sock \<Rightarrow> u32 option" and tp ca k
  assume "op_min_cwnd (tcp_illinois illinois_defaults) = Some f" "base_ok 134217727 tp"
  then show "\<exists>w. f k (tp, ca) = Some w \<and> w \<noteq> 0 \<and> w \<le> 134217727"
    by (auto simp: tcp_illinois_def base_ok_def tcp_reno_min_cwnd_neq_0 tcp_reno_min_cwnd_le)
next
  fix tp :: tcp_sock and ca n i ack in_flight flag
  assume "base_ok 134217727 tp" "illinois_inv n True ca"
  then show "\<exists>tp' ca'. op_cong_avoid (tcp_illinois illinois_defaults) (in_kern i) ack (in_seq_rtt i) in_flight flag (tp, ca) =
      Some (tp', ca') \<and> base_ok 134217727 tp' \<and> illinois_inv n True ca'"
    using illinois_cong_avoid_total by (simp add: tcp_illinois_def)
next
  fix g and tp :: tcp_sock and ca n i
  assume "op_init (tcp_illinois illinois_defaults) = Some g" "base_ok 134217727 tp" "illinois_inv n False ca"
  then show "\<exists>tp' ca'. g (in_kern i) (tp, ca) = Some (tp', ca') \<and> base_ok 134217727 tp' \<and> ack_frame tp tp' \<and>
      illinois_inv n True ca'"
    using illinois_init_inv by (auto simp: tcp_illinois_def illinois_inv_def)
next
  fix h and tp :: tcp_sock and ca n b k st
  assume "op_set_state (tcp_illinois illinois_defaults) = Some h" "base_ok 134217727 tp" "illinois_inv n b ca"
  then show "\<exists>tp' ca'. h k st (tp, ca) = Some (tp', ca') \<and> base_ok 134217727 tp' \<and> illinois_inv n b ca'"
    by (auto simp: tcp_illinois_def illinois_state_inv)
next
  fix q and tp :: tcp_sock and ca n i
  assume "op_pkts_acked (tcp_illinois illinois_defaults) = Some q" "base_ok 134217727 tp" "illinois_inv (Suc n) True ca"
  then show "\<exists>tp' ca'. q (in_kern i) (in_acked i) (in_last_ackt i) (tp, ca) = Some (tp', ca') \<and>
      base_ok 134217727 tp' \<and> ack_frame tp tp' \<and> illinois_inv n True ca'"
    by (auto simp: tcp_illinois_def illinois_acked_inv)
qed (auto simp: tcp_illinois_def illinois_inv_def)

subsection \<open>Properties\<close>

definition example_illinois :: illinois where
  "example_illinois = \<lparr>sum_rtt = 450000, il_cnt_rtt = 4, il_base_rtt = 100000, il_max_rtt = 120000, il_end_seq = 0,
     il_alpha = 1280, il_beta = 32, il_acked = 1, rtt_above = 0, rtt_low = 0\<rparr>"

text \<open>
  The once-per-round adaptation of Illinois. When the samples of the round bound their sum, the
  update of a window at or above \<open>win_thresh\<close> returns; with \<open>D\<close> the average queueing delay and
  \<open>M\<close> the maximum one (so \<open>D \<le> M\<close>), the decrease \<open>beta\<close> is 1/8 up to a tenth of \<open>M\<close>, 1/2
  from eight tenths on and linear between; above a hundredth of \<open>M\<close> the increase \<open>alpha\<close> is the
  hyperbola of the comment, and always lies between 0.3 and 10. No step of the 32-bit arithmetic wraps.
\<close>

theorem illinois_adaptation:
  assumes "illinois_samples ca" "38 \<le> unat (il_alpha ca)" "unat (il_alpha ca) \<le> 1280" "il_cnt_rtt ca \<noteq> 0"
    and "win_thresh p \<le> snd_cwnd tp"
    and D: "D = unat (sum_rtt ca) div unat (il_cnt_rtt ca) - unat (il_base_rtt ca)"
    and M: "M = unat (il_max_rtt ca) - unat (il_base_rtt ca)"
  shows "\<exists>ca'. illinois_update_params p (tp, ca) = Some (tp, ca') \<and> D \<le> M \<and>
    38 \<le> unat (il_alpha ca') \<and> unat (il_alpha ca') \<le> 1280 \<and>
    (if M div 100 < D
     then unat (il_alpha ca') = (M - M div 100) * 1280 div ((M - M div 100) + (D - M div 100) * 1242 div 38)
     else True) \<and>
    unat (il_beta ca') = (if D \<le> M div 10 then 8 else if 8 * M div 10 \<le> D then 32
      else (8 * (8 * M div 10) + 24 * D - 32 * (M div 10)) div (8 * M div 10 - M div 10))"
proof -
  obtain da where da: "avg_delay ca = Some da" "unat da = D" "unat (max_delay ca) = M" "D \<le> M" "M \<le> 3355443"
    using illinois_delays [OF assms(1,4)] unfolding D M by metis
  define dm where "dm = max_delay ca"
  have dm: "unat dm = M" by (simp add: dm_def da)
  obtain a ca1 where a: "illinois_alpha p ca da dm = Some (a, ca1)" "38 \<le> unat a" "unat a \<le> 1280"
    using illinois_alpha_total [of da dm ca p] assms(2,3) da dm by auto
  obtain b where b: "illinois_beta da dm = Some b" "unat b = (if D \<le> M div 10 then 8 else if 8 * M div 10 \<le> D then 32
      else (8 * (8 * M div 10) + 24 * D - 32 * (M div 10)) div (8 * M div 10 - M div 10))"
    using illinois_beta_curve [of dm da] da(2,5) dm by auto
  have curve: "unat a = (M - M div 100) * 1280 div ((M - M div 100) + (D - M div 100) * 1242 div 38)" if "M div 100 < D"
    using illinois_alpha_curve [of da dm p ca] that da dm a(1) by auto
  define ca' where "ca' = illinois_rtt_reset tp (ca1\<lparr>il_alpha := a, il_beta := b\<rparr>)"
  have "0 < il_cnt_rtt ca" using assms(4) by (simp add: word_neq_0_iff_unat word_less_nat_alt)
  then have "illinois_update_params p (tp, ca) = Some (tp, ca')"
    using assms(5) da(1) a(1) b(1) by (simp add: illinois_update_params_def Let_def dm_def ca'_def)
  moreover have "il_alpha ca' = a" "il_beta ca' = b" by (simp_all add: ca'_def illinois_rtt_reset_def)
  ultimately show ?thesis using a(2,3) b(2) curve da(4) by simp
qed

theorem illinois_adaptation_witness:
  "\<exists>ca'. illinois_update_params illinois_defaults ((example_sock 2)\<lparr>snd_cwnd := 20\<rparr>, example_illinois) =
     Some ((example_sock 2)\<lparr>snd_cwnd := 20\<rparr>, ca') \<and> unat (il_alpha ca') = 60 \<and> unat (il_beta ca') = 26"
  using illinois_adaptation [of example_illinois illinois_defaults "(example_sock 2)\<lparr>snd_cwnd := 20\<rparr>" 12500 20000]
  by (auto simp: example_illinois_def illinois_samples_def illinois_defaults_def)

text \<open>
  The window rules of Illinois. Within a round, above the threshold and with the window full, an
  acknowledgement adds the packets acknowledged to the counter \<open>c\<close>; once \<open>c * alpha / 128\<close>
  reaches the window \<open>w\<close>, the window is raised by its quotient by \<open>w\<close>, up to the clamp, and the counter
  is cleared. A loss reduces the window to \<open>w * beta / 64\<close>, but not below 2.
\<close>

theorem illinois_window_rules:
  assumes "ack \<le> il_end_seq ca" "snd_cwnd tp \<le> in_flight" "snd_ssthresh tp < snd_cwnd tp"
    and c: "c = unat (snd_cwnd_cnt tp) + unat (il_acked ca)" "c * unat (il_alpha ca) < 2 ^ 32"
      "0 < unat (il_alpha ca)" "unat (snd_cwnd tp) * unat (il_beta ca) < 2 ^ 32"
  shows "unat (tcp_illinois_ssthresh (tp, ca)) = max (unat (snd_cwnd tp) * unat (il_beta ca) div 64) 2 \<and>
    (\<exists>tp'. tcp_illinois_cong_avoid p k ack rtt in_flight flag (tp, ca) = Some (tp', ca\<lparr>il_acked := 1\<rparr>) \<and>
      (unat (snd_cwnd tp'), unat (snd_cwnd_cnt tp')) =
        (if unat (snd_cwnd tp) \<le> c * unat (il_alpha ca) div 128
         then (min (unat (snd_cwnd tp) + c * unat (il_alpha ca) div 128 div unat (snd_cwnd tp)) (unat (snd_cwnd_clamp tp)), 0)
         else (unat (snd_cwnd tp), c)))"
proof -
  define d where "d = drop_bit 7 ((snd_cwnd_cnt tp + il_acked ca) * il_alpha ca)"
  define e where "e = c * unat (il_alpha ca) div 128"
  have w: "snd_cwnd tp \<noteq> 0" using assms(3) by (simp add: word_less_nat_alt word_neq_0_iff_unat)
  have "c * 1 \<le> c * unat (il_alpha ca)" using c(3) by (intro mult_le_mono) simp_all
  then have "c < 2 ^ 32" using c(2) by linarith
  then have cnt: "unat (snd_cwnd_cnt tp + il_acked ca) = c"
    unfolding c(1) by (intro unat_add_nowrap) simp
  then have d: "unat d = e"
    using c(2) by (simp add: d_def e_def unat_drop_bit_div unat_mult_nowrap)
  have e: "e < 33554432" using c(2) by (simp add: e_def)
  have sum: "unat (snd_cwnd tp + d div snd_cwnd tp) = unat (snd_cwnd tp) + e div unat (snd_cwnd tp)" if "snd_cwnd tp \<le> d"
  proof -
    have "e div unat (snd_cwnd tp) \<le> e" by (rule div_le_dividend)
    moreover have "unat (snd_cwnd tp) \<le> e" using that d by (simp add: word_le_nat_alt)
    ultimately have "unat (snd_cwnd tp) + e div unat (snd_cwnd tp) < 4294967296" using e by linarith
    then show ?thesis by (subst unat_add_nowrap) (simp_all add: unat_div_word d)
  qed
  define tp' where "tp' = (if snd_cwnd tp \<le> d
    then tp\<lparr>snd_cwnd_cnt := 0, snd_cwnd := min (snd_cwnd tp + d div snd_cwnd tp) (snd_cwnd_clamp tp)\<rparr>
    else tp\<lparr>snd_cwnd_cnt := snd_cwnd_cnt tp + il_acked ca\<rparr>)"
  have "\<not> snd_cwnd tp \<le> snd_ssthresh tp" "\<not> il_end_seq ca < ack" using assms(1,3) by simp_all
  then have "tcp_illinois_cong_avoid p k ack rtt in_flight flag (tp, ca) = Some (tp', ca\<lparr>il_acked := 1\<rparr>)"
    using assms(2) w
    by (simp add: tcp_illinois_cong_avoid_def after_def tcp_is_cwnd_limited_def illinois_increase_def Let_def d_def tp'_def)
  moreover have "(unat (snd_cwnd tp'), unat (snd_cwnd_cnt tp')) =
      (if unat (snd_cwnd tp) \<le> e then (min (unat (snd_cwnd tp) + e div unat (snd_cwnd tp)) (unat (snd_cwnd_clamp tp)), 0)
       else (unat (snd_cwnd tp), c))"
    using sum cnt by (simp add: tp'_def word_le_nat_alt d unat_min)
  moreover have "unat (tcp_illinois_ssthresh (tp, ca)) = max (unat (snd_cwnd tp) * unat (il_beta ca) div 64) 2"
    using c(4) by (simp add: tcp_illinois_ssthresh_def unat_ops unat_mult_nowrap)
  ultimately show ?thesis unfolding e_def by blast
qed

theorem illinois_window_rules_witness:
  "\<exists>tp'. tcp_illinois_cong_avoid illinois_defaults example_kern 0 0 4 1 (example_sock 2, example_illinois) =
     Some (tp', example_illinois\<lparr>il_acked := 1\<rparr>) \<and> unat (snd_cwnd tp') = 6"
  using illinois_window_rules [of 0 example_illinois "example_sock 2" 4 1 illinois_defaults example_kern 0 1]
  by (auto simp: example_illinois_def word_less_nat_alt)

text \<open>
  \<open>get_info\<close> of Illinois divides by the number of samples of the current round without a check. Right after
  a round's update, when there is none, asking for the diagnostic information traps; after the next
  valid sample it returns.
\<close>

theorem illinois_info_divides_by_zero:
  assumes "ext AND 1 \<noteq> 0" "illinois_inv n True ca" "t \<noteq> net_invalid_timestamp"
  shows "\<exists>ca'. illinois_update_params p (tp, ca) = Some (tp, ca') \<and> tcp_illinois_info ext ca' = None \<and>
    tcp_illinois_info ext (tcp_illinois_acked k m t ca') \<noteq> None"
proof -
  obtain ca' where ca': "illinois_update_params p (tp, ca) = Some (tp, ca')"
    using illinois_update_total [OF assms(2)] by blast
  then have "il_cnt_rtt ca' = 0"
    by (auto simp: illinois_update_params_def illinois_rtt_reset_def Let_def split: Option.bind_splits)
  then show ?thesis
    using ca' assms(1,3) by (simp add: tcp_illinois_info_def do_div_def tcp_illinois_acked_def ktime_equal_def Let_def)
qed

theorem illinois_info_divides_by_zero_witness:
  "\<exists>ca'. illinois_update_params illinois_defaults (example_sock 2, example_illinois) = Some (example_sock 2, ca') \<and>
     tcp_illinois_info 1 ca' = None"
proof -
  have "illinois_inv 1 True example_illinois"
    by (simp add: illinois_inv_def illinois_samples_def example_illinois_def)
  then show ?thesis
    using illinois_info_divides_by_zero [of 1 1 example_illinois 5 illinois_defaults "example_sock 2"]
    by (auto simp: net_invalid_timestamp_def)
qed

end
