(* ===== verification/Lp.thy ===== *)
theory Lp
  imports Reno
begin

section \<open>TCP Low Priority (\<open>src/tcp_lp.c\<close>)\<close>

text \<open>
  TCP-LP is Reno that backs off when the one-way delay, estimated from the time stamps of both ends,
  leaves 15 percent of its range. The estimate mixes 32-bit unsigned time stamps with 64-bit signed
  variables. The lemmas show that no division traps, give the reaction to an early congestion indication
  in all its cases, and show that the difference of the time stamps is never negative where the
  code takes its absolute value.
\<close>

abbreviation (input) LP_RESOL :: u32 where "LP_RESOL \<equiv> 1000"
abbreviation (input) LP_VALID_RHZ :: u32 where "LP_VALID_RHZ \<equiv> 1"
abbreviation (input) LP_VALID_OWD :: u32 where "LP_VALID_OWD \<equiv> 2"
abbreviation (input) LP_WITHIN_THR :: u32 where "LP_WITHIN_THR \<equiv> 8"
abbreviation (input) LP_WITHIN_INF :: u32 where "LP_WITHIN_INF \<equiv> 16"

record lp =
  lp_flag :: u32
  sowd :: u32
  owd_min :: u32
  owd_max :: u32
  owd_max_rsv :: u32
  remote_hz :: u32
  remote_ref_time :: u32
  local_ref_time :: u32
  last_drop :: u32
  inference :: u32

definition tcp_lp_init :: "lp \<Rightarrow> lp" where
  "tcp_lp_init l =
     l\<lparr>lp_flag := 0, sowd := 0, owd_min := 0xffffffff, owd_max := 0, owd_max_rsv := 0, remote_hz := 0,
       remote_ref_time := 0, local_ref_time := 0, last_drop := 0, inference := 0\<rparr>"

definition tcp_lp_cong_avoid ::
  "kern \<Rightarrow> u32 \<Rightarrow> u32 \<Rightarrow> u32 \<Rightarrow> s32 \<Rightarrow> lp sock \<Rightarrow> lp sock option" where
  "tcp_lp_cong_avoid k ack rtt in_flight flag s =
     (if lp_flag (snd s) AND LP_WITHIN_INF = 0
      then on_sock (tcp_reno_cong_avoid k ack rtt in_flight flag) s else Some s)"

text \<open>\<open>flag |= m\<close> and \<open>flag &= ~m\<close>.\<close>

definition put_flag :: "u32 \<Rightarrow> bool \<Rightarrow> lp \<Rightarrow> lp" where
  "put_flag m b l = l\<lparr>lp_flag := (if b then lp_flag l OR m else lp_flag l AND NOT m)\<rparr>"

text \<open>
  The estimator of the remote clock rate: \<open>rhz\<close> and \<open>m\<close> are signed 64-bit variables, the quotient
  assigned to \<open>m\<close> is a 32-bit unsigned one, and \<open>rhz >> 6\<close> is an arithmetic shift.
\<close>

definition lp_remote_hz_estimate :: "tcp_options_received \<Rightarrow> lp \<Rightarrow> s64 option" where
  "lp_remote_hz_estimate rx l =
     (let rhz = ucast (push_bit 6 (remote_hz l)) :: s64 in
      if remote_ref_time l = 0 \<or> local_ref_time l = 0 then Some rhz
      else if rcv_tsval rx = remote_ref_time l \<or> rcv_tsecr rx = local_ref_time l then Some rhz
      else do {
        q \<leftarrow> cdiv (HZ * (rcv_tsval rx - remote_ref_time l)) (rcv_tsecr rx - local_ref_time l);
        let m = (ucast q :: s64);
        let m = (if sint m < 0 then - m else m);
        let rhz = (if 0 < sint rhz then rhz + (m - signed_drop_bit 6 rhz) else push_bit 6 m);
        Some rhz
      })"

definition tcp_lp_remote_hz_estimator :: "tcp_options_received \<Rightarrow> lp \<Rightarrow> (u32 \<times> lp) option" where
  "tcp_lp_remote_hz_estimator rx l = do {
     rhz \<leftarrow> lp_remote_hz_estimate rx l;
     let l = put_flag LP_VALID_RHZ (0 < sint (signed_drop_bit 6 rhz)) l;
     Some (ucast (signed_drop_bit 6 rhz), l\<lparr>remote_ref_time := rcv_tsval rx, local_ref_time := rcv_tsecr rx\<rparr>)
   }"

definition tcp_lp_owd_calculator :: "tcp_options_received \<Rightarrow> lp \<Rightarrow> (u32 \<times> lp) option" where
  "tcp_lp_owd_calculator rx l = do {
     (hz, l) \<leftarrow> tcp_lp_remote_hz_estimator rx l;
     let l = l\<lparr>remote_hz := hz\<rparr>;
     owd \<leftarrow> (if lp_flag l AND LP_VALID_RHZ = 0 then Some (0 :: s64)
             else do {
               u \<leftarrow> cdiv LP_RESOL (remote_hz l);
               let owd = (ucast (rcv_tsval rx * u - rcv_tsecr rx * (LP_RESOL div HZ)) :: s64);
               Some (if sint owd < 0 then - owd else owd)
             });
     Some (ucast owd, put_flag LP_VALID_OWD (0 < sint owd) l)
   }"

text \<open>The minimum, the forgetful maximum and the smoothed delay.\<close>

definition lp_owd_range :: "s64 \<Rightarrow> lp \<Rightarrow> lp" where
  "lp_owd_range mowd l =
     (let l = (if sint mowd < sint (ucast (owd_min l) :: s64) then l\<lparr>owd_min := ucast mowd\<rparr> else l)
      in if sint (ucast (owd_max l) :: s64) < sint mowd
         then if sint (ucast (owd_max_rsv l) :: s64) < sint mowd
              then l\<lparr>owd_max := (if owd_max_rsv l = 0 then ucast mowd else owd_max_rsv l), owd_max_rsv := ucast mowd\<rparr>
              else l\<lparr>owd_max := ucast mowd\<rparr>
         else l)"

definition lp_smooth_owd :: "s64 \<Rightarrow> lp \<Rightarrow> lp" where
  "lp_smooth_owd mowd l =
     (if sowd l \<noteq> 0
      then l\<lparr>sowd := ucast (ucast (sowd l) + (mowd - ucast (drop_bit 3 (sowd l))))\<rparr>
      else l\<lparr>sowd := ucast (push_bit 3 mowd)\<rparr>)"

definition tcp_lp_rtt_sample :: "tcp_options_received \<Rightarrow> lp \<Rightarrow> lp option" where
  "tcp_lp_rtt_sample rx l = do {
     (d, l) \<leftarrow> tcp_lp_owd_calculator rx l;
     let mowd = (ucast d :: s64);
     Some (if lp_flag l AND LP_VALID_RHZ = 0 \<or> lp_flag l AND LP_VALID_OWD = 0 then l
           else lp_smooth_owd mowd (lp_owd_range mowd l))
   }"

text \<open>Inference and threshold, then the reaction: the window to 1 or to its half.\<close>

definition lp_inference :: "kern \<Rightarrow> tcp_options_received \<Rightarrow> lp \<Rightarrow> lp" where
  "lp_inference k rx l =
     (let l = (if rcv_tsecr rx < tcp_time_stamp k
               then l\<lparr>inference := 3 * (tcp_time_stamp k - rcv_tsecr rx)\<rparr> else l)
      in put_flag LP_WITHIN_INF (last_drop l \<noteq> 0 \<and> tcp_time_stamp k - last_drop l < inference l) l)"

definition lp_threshold :: "lp \<Rightarrow> lp" where
  "lp_threshold l =
     put_flag LP_WITHIN_THR (drop_bit 3 (sowd l) < owd_min l + 15 * (owd_max l - owd_min l) div 100) l"

definition lp_back_off :: "kern \<Rightarrow> lp sock \<Rightarrow> lp sock" where
  "lp_back_off k s = (let tp = fst s; l = snd s in
     if lp_flag l AND LP_WITHIN_THR \<noteq> 0 then s
     else let l = l\<lparr>owd_min := drop_bit 3 (sowd l), owd_max := drop_bit 2 (sowd l), owd_max_rsv := drop_bit 2 (sowd l)\<rparr>
          in (tp\<lparr>snd_cwnd := (if lp_flag l AND LP_WITHIN_INF \<noteq> 0 then 1 else max (drop_bit 1 (snd_cwnd tp)) 1)\<rparr>,
              l\<lparr>last_drop := tcp_time_stamp k\<rparr>))"

definition tcp_lp_pkts_acked :: "kern \<Rightarrow> u32 \<Rightarrow> s64 \<Rightarrow> lp sock \<Rightarrow> lp sock option" where
  "tcp_lp_pkts_acked k num_acked last_t s = do {
     l \<leftarrow> (if ktime_equal last_t net_invalid_timestamp then Some (snd s)
           else tcp_lp_rtt_sample (rx_opt (fst s)) (snd s));
     Some (lp_back_off k (fst s, lp_threshold (lp_inference k (rx_opt (fst s)) l)))
   }"

definition tcp_lp :: "lp tcp_congestion_ops" where
  "tcp_lp =
     \<lparr>op_flags = TCP_CONG_RTT_STAMP,
      op_name = ''lp'',
      op_init = Some (\<lambda>k s. Some (fst s, tcp_lp_init (snd s))),
      op_ssthresh = (\<lambda>k s. Some (tcp_reno_ssthresh (fst s), s)),
      op_min_cwnd = Some (\<lambda>k s. Some (tcp_reno_min_cwnd (fst s))),
      op_cong_avoid = tcp_lp_cong_avoid,
      op_rtt_sample = None,
      op_set_state = None,
      op_cwnd_event = None,
      op_undo_cwnd = None,
      op_pkts_acked = Some tcp_lp_pkts_acked\<rparr>"

subsection \<open>The estimates do not trap\<close>

text \<open>The estimate is a small positive number, so its sixty-fourth part is 0 exactly when the
  validity flag is cleared.\<close>

lemma lp_estimate_total: "\<exists>rhz. lp_remote_hz_estimate rx l = Some rhz \<and> unat rhz < 2 ^ 38"
proof -
  define r0 where "r0 = (ucast (push_bit 6 (remote_hz l)) :: s64)"
  have r0: "unat r0 < 2 ^ 32" using unat_lt_u32 [of "push_bit 6 (remote_hz l)"] by (simp add: r0_def unat_ucast_u64)
  define d where "d = rcv_tsecr rx - local_ref_time l"
  define q where "q = HZ * (rcv_tsval rx - remote_ref_time l) div d"
  define m where "m = (ucast q :: s64)"
  have m: "unat m < 2 ^ 32" "\<not> sint m < 0"
    using unat_lt_u32 [of q] by (simp_all add: m_def unat_ucast_u64 sint_ucast_u32)
  have shift: "signed_drop_bit 6 r0 = drop_bit 6 r0" using r0 by (intro asr_nonneg) simp
  have "unat (r0 - drop_bit 6 r0) \<le> unat r0"
    by (subst unat_sub_le) (simp_all add: word_le_nat_alt unat_drop_bit_div)
  then have "unat (r0 - drop_bit 6 r0 + m) < 2 ^ 38"
    using r0 m(1) by (subst unat_add_nowrap) simp_all
  then have n: "unat (r0 + (m - signed_drop_bit 6 r0)) < 2 ^ 38"
    unfolding shift by (simp add: algebra_simps)
  have "unat (push_bit 6 m) = unat m * 2 ^ 6"
    using m(1) by (intro unat_push_bit_nowrap) simp
  then have p: "unat (push_bit 6 m) < 2 ^ 38" using m(1) by simp
  show ?thesis
  proof (cases "remote_ref_time l = 0 \<or> local_ref_time l = 0 \<or> rcv_tsval rx = remote_ref_time l \<or> rcv_tsecr rx = local_ref_time l")
    case True
    then have "lp_remote_hz_estimate rx l = Some r0"
      by (auto simp: lp_remote_hz_estimate_def Let_def r0_def)
    then show ?thesis using r0 by simp
  next
    case False
    then have d: "d \<noteq> 0" by (simp add: d_def)
    have "lp_remote_hz_estimate rx l = Some (if 0 < sint r0 then r0 + (m - signed_drop_bit 6 r0) else push_bit 6 m)"
      using False m(2) unfolding lp_remote_hz_estimate_def Let_def r0_def [symmetric] d_def [symmetric]
        cdiv_Some [OF d] bind.simps q_def [symmetric] m_def [symmetric] by simp
    then show ?thesis using n p by auto
  qed
qed

text \<open>A flag put is read back, and other flags are not touched.\<close>

lemma put_flag_same: "m \<noteq> 0 \<Longrightarrow> (lp_flag (put_flag m b l) AND m = 0) = (\<not> b)"
proof -
  have "(x AND NOT m) AND m = 0" "(x OR m) AND m = m" for x :: u32
    by (auto intro!: bit_word_eqI simp: bit_simps)
  then show "m \<noteq> 0 \<Longrightarrow> ?thesis" by (simp add: put_flag_def)
qed

lemma put_flag_other:
  assumes "m AND m' = 0"
  shows "lp_flag (put_flag m b l) AND m' = lp_flag l AND m'"
proof -
  have *: "\<not> (bit m n \<and> bit m' n)" for n using assms by (metis bit_0_eq bit_and_iff bot_apply bot_bool_def)
  have "(x AND NOT m) AND m' = x AND m'" "(x OR m) AND m' = x AND m'" for x :: u32
    using * by (auto intro!: bit_word_eqI simp: bit_simps)
  then show ?thesis by (simp add: put_flag_def)
qed

lemma put_flag_frame [simp]:
  "sowd (put_flag m b l) = sowd l" "owd_min (put_flag m b l) = owd_min l" "owd_max (put_flag m b l) = owd_max l"
  "remote_hz (put_flag m b l) = remote_hz l" "last_drop (put_flag m b l) = last_drop l"
  "inference (put_flag m b l) = inference l"
  by (simp_all add: put_flag_def)

lemma lp_hz_total:
  "\<exists>hz l'. tcp_lp_remote_hz_estimator rx l = Some (hz, l') \<and> (lp_flag l' AND LP_VALID_RHZ \<noteq> 0 \<longrightarrow> hz \<noteq> 0)"
proof -
  obtain rhz where e: "lp_remote_hz_estimate rx l = Some rhz" "unat rhz < 2 ^ 38"
    using lp_estimate_total by blast
  define h where "h = drop_bit 6 rhz"
  have h: "unat h < 4294967296" using e(2) by (simp add: h_def unat_drop_bit_div)
  have s: "signed_drop_bit 6 rhz = h" unfolding h_def using e(2) by (intro asr_nonneg) simp
  have "unat (ucast h :: u32) = unat h" using h by (rule unat_ucast_u32)
  then have "(ucast h :: u32) \<noteq> 0" if "0 < sint h"
  proof -
    have "h \<noteq> 0" using that by auto
    then have "0 < unat (ucast h :: u32)" unfolding \<open>unat (ucast h :: u32) = unat h\<close> by (simp only: word_neq_0_iff_unat)
    then show ?thesis by (simp only: word_neq_0_iff_unat)
  qed
  then show ?thesis
    using e(1) s put_flag_same [of 1 "0 < sint h" l] by (simp add: tcp_lp_remote_hz_estimator_def)
qed

text \<open>The one-way delay is a 32-bit difference; widened to 64 bits it is not negative.\<close>

lemma lp_owd_value:
  "\<exists>hz l1 l'. tcp_lp_remote_hz_estimator rx l = Some (hz, l1) \<and>
     tcp_lp_owd_calculator rx l = Some (if lp_flag l1 AND LP_VALID_RHZ = 0 then 0 else rcv_tsval rx * (1000 div hz) - rcv_tsecr rx, l')"
proof -
  obtain hz l1 where e: "tcp_lp_remote_hz_estimator rx l = Some (hz, l1)" "lp_flag l1 AND LP_VALID_RHZ \<noteq> 0 \<longrightarrow> hz \<noteq> 0"
    using lp_hz_total by blast
  define d where "d = rcv_tsval rx * (1000 div hz) - rcv_tsecr rx"
  have "\<not> sint (ucast d :: s64) < 0" "ucast (ucast d :: s64) = d"
    by (simp_all add: sint_ucast_u32 word_unat_eq_iff unat_ucast_u32 unat_ucast_u64 unat_lt_u32)
  then have "\<exists>l'. tcp_lp_owd_calculator rx l = Some (if lp_flag l1 AND LP_VALID_RHZ = 0 then 0 else d, l')"
    using e by (simp add: tcp_lp_owd_calculator_def d_def)
  then show ?thesis using e(1) unfolding d_def by blast
qed

lemma lp_rtt_sample_total: "\<exists>l'. tcp_lp_rtt_sample rx l = Some l'"
proof -
  obtain v l' where "tcp_lp_owd_calculator rx l = Some (v, l')" using lp_owd_value by blast
  then show ?thesis by (simp add: tcp_lp_rtt_sample_def Let_def)
qed

lemma lp_owd_frame:
  "last_drop (lp_smooth_owd m l) = last_drop l" "last_drop (lp_owd_range m l) = last_drop l"
  "tcp_lp_owd_calculator rx l = Some (v, l') \<Longrightarrow> last_drop l' = last_drop l"
  by (simp_all add: lp_smooth_owd_def lp_owd_range_def Let_def)
    (auto simp: tcp_lp_owd_calculator_def tcp_lp_remote_hz_estimator_def Let_def split: Option.bind_splits)

lemma lp_rtt_sample_frame: "tcp_lp_rtt_sample rx l = Some l' \<Longrightarrow> last_drop l' = last_drop l"
  by (auto simp: tcp_lp_rtt_sample_def Let_def lp_owd_frame split: Option.bind_splits)

lemma lp_pkts_acked_total:
  "\<exists>l1 l'. tcp_lp_pkts_acked k n t (tp, l) = Some (lp_back_off k (tp, l')) \<and>
     l' = lp_threshold (lp_inference k (rx_opt tp) l1)"
  using lp_rtt_sample_total [of "rx_opt tp" l] by (cases "ktime_equal t net_invalid_timestamp") (auto simp: tcp_lp_pkts_acked_def)

lemma lp_back_off_base_ok:
  assumes "base_ok cap tp"
  shows "\<exists>tp' l'. lp_back_off k (tp, l) = (tp', l') \<and> base_ok cap tp' \<and> ack_frame tp tp'"
proof -
  define h where "h = max (drop_bit 1 (snd_cwnd tp)) 1"
  have w: "0 < unat (snd_cwnd tp)" "unat (snd_cwnd tp) \<le> unat cap"
    using assms by (simp_all add: base_ok_def word_neq_0_iff_unat word_le_nat_alt)
  have h: "unat h = max (unat (snd_cwnd tp) div 2) 1"
    by (simp only: h_def unat_max unat_drop_bit_div) simp
  then have "0 < unat h" by simp
  then have "h \<noteq> 0" by (simp only: word_neq_0_iff_unat)
  moreover have "h \<le> cap" "1 \<le> cap" using w h by (simp_all add: word_le_nat_alt)
  ultimately show ?thesis
    using assms unfolding lp_back_off_def Let_def fst_conv snd_conv h_def [symmetric]
    by (simp add: base_ok_def ack_frame_def)
qed

interpretation lp: cong_module tcp_lp "\<lambda>_ _. True" "\<lambda>_. True" "-1"
proof unfold_locales
  fix tp :: tcp_sock and ca :: lp and k
  assume "base_ok (-1) tp"
  then show "\<exists>v tp' ca'. op_ssthresh tcp_lp k (tp, ca) = Some (v, (tp', ca')) \<and> 2 \<le> v \<and> v \<le> -1 \<and>
      base_ok (-1) tp' \<and> True"
    by (simp add: tcp_lp_def tcp_reno_ssthresh_def)
next
  fix f :: "kern \<Rightarrow> lp sock \<Rightarrow> u32 option" and tp ca k
  assume f: "op_min_cwnd tcp_lp = Some f" and tp: "base_ok (-1) tp"
  have "f = (\<lambda>k s. Some (tcp_reno_min_cwnd (fst s)))" using f by (simp add: tcp_lp_def)
  moreover have "tcp_reno_min_cwnd tp \<noteq> 0"
    using tp by (intro tcp_reno_min_cwnd_neq_0) (simp add: base_ok_def)
  ultimately show "\<exists>w. f k (tp, ca) = Some w \<and> w \<noteq> 0 \<and> w \<le> -1"
    by simp
next
  fix tp :: tcp_sock and ca :: lp and i ack in_flight flag
  assume tp: "base_ok (-1) tp"
  obtain tp' where "tcp_reno_cong_avoid (in_kern i) ack (in_seq_rtt i) in_flight flag tp = Some tp'" "base_ok (-1) tp'"
    using tcp_reno_cong_avoid_total [OF base_ok_cwnd [OF tp]] window_grown_base_ok [OF _ tp] by blast
  then show "\<exists>tp' ca'. op_cong_avoid tcp_lp (in_kern i) ack (in_seq_rtt i) in_flight flag (tp, ca) =
      Some (tp', ca') \<and> base_ok (-1) tp' \<and> True"
    using tp by (simp add: tcp_lp_def tcp_lp_cong_avoid_def)
next
  fix p and tp :: tcp_sock and ca :: lp and i
  assume "op_pkts_acked tcp_lp = Some p" "base_ok (-1) tp"
  then show "\<exists>tp' ca'. p (in_kern i) (in_acked i) (in_last_ackt i) (tp, ca) = Some (tp', ca') \<and>
      base_ok (-1) tp' \<and> ack_frame tp tp' \<and> True"
    using lp_pkts_acked_total [of "in_kern i" "in_acked i" "in_last_ackt i" tp ca] lp_back_off_base_ok
    by (fastforce simp: tcp_lp_def)
qed (auto simp: tcp_lp_def)

subsection \<open>Properties\<close>

text \<open>
  The reaction of TCP-LP to an acknowledgement always returns. With \<open>l'\<close> the state it leaves: within the
  threshold the window stays; outside it, it becomes 1 within the inference phase and half (at least 1) after it, the time of this
  drop is recorded and the delay range starts over. The inference phase is the three round-trip times after the last drop,
  and during it the window is not raised.
\<close>

theorem lp_early_congestion:
  "\<exists>tp' l'. tcp_lp_pkts_acked k n t (tp, l) = Some (tp', l') \<and>
     tp' = tp\<lparr>snd_cwnd := (if lp_flag l' AND LP_WITHIN_THR \<noteq> 0 then snd_cwnd tp
       else if lp_flag l' AND LP_WITHIN_INF \<noteq> 0 then 1 else max (drop_bit 1 (snd_cwnd tp)) 1)\<rparr> \<and>
     (if lp_flag l' AND LP_WITHIN_THR \<noteq> 0 then last_drop l' = last_drop l
      else last_drop l' = tcp_time_stamp k \<and> owd_min l' = drop_bit 3 (sowd l') \<and> owd_max l' = drop_bit 2 (sowd l')) \<and>
     (lp_flag l' AND LP_WITHIN_INF \<noteq> 0) = (last_drop l \<noteq> 0 \<and> tcp_time_stamp k - last_drop l < inference l') \<and>
     (if rcv_tsecr (rx_opt tp) < tcp_time_stamp k then inference l' = 3 * (tcp_time_stamp k - rcv_tsecr (rx_opt tp)) else True) \<and>
     (if lp_flag l' AND LP_WITHIN_INF \<noteq> 0 then tcp_lp_cong_avoid k ack rtt in_flight flag (tp', l') = Some (tp', l') else True)"
proof -
  obtain l1 where l1: "(if ktime_equal t net_invalid_timestamp then Some l else tcp_lp_rtt_sample (rx_opt tp) l) = Some l1"
    "last_drop l1 = last_drop l"
    using lp_rtt_sample_total [of "rx_opt tp" l] lp_rtt_sample_frame by (cases "ktime_equal t net_invalid_timestamp") auto
  define l2 where "l2 = lp_threshold (lp_inference k (rx_opt tp) l1)"
  obtain tp' l' where b: "lp_back_off k (tp, l2) = (tp', l')" by fastforce
  have run: "tcp_lp_pkts_acked k n t (tp, l) = Some (tp', l')"
    using b unfolding tcp_lp_pkts_acked_def fst_conv snd_conv l1(1) bind.simps l2_def by simp
  have f: "lp_flag l' = lp_flag l2" "sowd l' = sowd l2" "inference l' = inference l2"
    using b by (auto simp: lp_back_off_def Let_def split: if_splits)
  have l2: "last_drop l2 = last_drop l"
    "if rcv_tsecr (rx_opt tp) < tcp_time_stamp k then inference l2 = 3 * (tcp_time_stamp k - rcv_tsecr (rx_opt tp)) else True"
    using l1(2) by (simp_all add: l2_def lp_threshold_def lp_inference_def Let_def)
  have inf: "(lp_flag l2 AND 16 \<noteq> 0) = (last_drop l \<noteq> 0 \<and> tcp_time_stamp k - last_drop l < inference l2)"
    using l1(2) by (simp add: l2_def lp_threshold_def lp_inference_def Let_def put_flag_other put_flag_same)
  have w: "tp' = tp\<lparr>snd_cwnd := (if lp_flag l2 AND LP_WITHIN_THR \<noteq> 0 then snd_cwnd tp
      else if lp_flag l2 AND LP_WITHIN_INF \<noteq> 0 then 1 else max (drop_bit 1 (snd_cwnd tp)) 1)\<rparr>"
    "if lp_flag l2 AND LP_WITHIN_THR \<noteq> 0 then last_drop l' = last_drop l
     else last_drop l' = tcp_time_stamp k \<and> owd_min l' = drop_bit 3 (sowd l') \<and> owd_max l' = drop_bit 2 (sowd l')"
    using b l2(1) by (auto simp: lp_back_off_def Let_def split: if_splits)
  have c: "if lp_flag l' AND LP_WITHIN_INF \<noteq> 0 then tcp_lp_cong_avoid k ack rtt in_flight flag (tp', l') = Some (tp', l') else True"
    by (simp add: tcp_lp_cong_avoid_def)
  show ?thesis
    by (rule exI [of _ tp'], rule exI [of _ l'])
      (intro conjI run w [folded f] inf [folded f] l2(2) [folded f] c)
qed

text \<open>
  The one-way delay of TCP-LP is a difference of time stamps modulo \<open>2 ^ 32\<close>: the absolute value that the code
  takes of it in a 64-bit variable never applies. Where the scaled remote time stamp is behind the local
  one by \<open>e\<close>, the delay is not \<open>e\<close> but \<open>2 ^ 32 - e\<close>; and for an estimated remote clock above 1000 Hz the
  remote time stamp does not count at all.
\<close>

theorem lp_owd_never_negative:
  "\<exists>hz l1 owd l'. tcp_lp_remote_hz_estimator rx l = Some (hz, l1) \<and> tcp_lp_owd_calculator rx l = Some (owd, l') \<and>
     (if lp_flag l1 AND LP_VALID_RHZ = 0 then owd = 0
      else hz \<noteq> 0 \<and> uint owd = (uint (rcv_tsval rx * (1000 div hz)) - uint (rcv_tsecr rx)) mod 2 ^ 32 \<and>
        (if rcv_tsval rx * (1000 div hz) < rcv_tsecr rx
         then uint owd = 2 ^ 32 - (uint (rcv_tsecr rx) - uint (rcv_tsval rx * (1000 div hz))) else True) \<and>
        (if 1000 < hz then owd = - rcv_tsecr rx else True))"
proof -
  obtain hz l1 l' where v: "tcp_lp_remote_hz_estimator rx l = Some (hz, l1)"
    "tcp_lp_owd_calculator rx l = Some (if lp_flag l1 AND LP_VALID_RHZ = 0 then 0 else rcv_tsval rx * (1000 div hz) - rcv_tsecr rx, l')"
    using lp_owd_value by blast
  have hz: "hz \<noteq> 0" if "lp_flag l1 AND LP_VALID_RHZ \<noteq> 0"
    using lp_hz_total [of rx l] v(1) that by auto
  define a where "a = rcv_tsval rx * (1000 div hz)"
  define b where "b = rcv_tsecr rx"
  have u: "uint (a - b) = (uint a - uint b) mod 2 ^ 32"
    by (simp add: uint_word_ariths(2))
  have neg: "uint (a - b) = 2 ^ 32 - (uint b - uint a)" if "a < b"
  proof -
    have "0 \<le> uint a" by simp
    moreover have "uint a < uint b" "uint b < 2 ^ 32" using that uint_lt2p [of b] by (simp_all add: word_less_def)
    ultimately have "0 \<le> uint a - uint b + 2 ^ 32" "uint a - uint b + 2 ^ 32 < 2 ^ 32"
      by linarith+
    then have "(uint a - uint b + 2 ^ 32) mod 2 ^ 32 = uint a - uint b + 2 ^ 32" by (rule mod_pos_pos_trivial)
    then show ?thesis unfolding u by simp
  qed
  have fast: "a - b = - b" if "1000 < hz"
  proof -
    have "(1000 :: u32) div hz = 0" using that by (simp add: div_word_less)
    then show ?thesis by (simp add: a_def)
  qed
  show ?thesis
  proof (cases "lp_flag l1 AND LP_VALID_RHZ = 0")
    case True
    then show ?thesis using v by simp
  next
    case False
    then have owd: "tcp_lp_owd_calculator rx l = Some (a - b, l')" using v(2) by (simp add: a_def b_def)
    have n: "if a < b then uint (a - b) = 2 ^ 32 - (uint b - uint a) else True"
      by (cases "a < b") (simp_all only: neg if_True if_False)
    have f: "if 1000 < hz then a - b = - b else True"
      by (cases "1000 < hz") (simp_all only: fast if_True if_False)
    have "hz \<noteq> 0 \<and> uint (a - b) = (uint a - uint b) mod 2 ^ 32 \<and>
        (if a < b then uint (a - b) = 2 ^ 32 - (uint b - uint a) else True) \<and> (if 1000 < hz then a - b = - b else True)"
      by (intro conjI hz [OF False] u n f)
    then have "if lp_flag l1 AND LP_VALID_RHZ = 0 then a - b = 0
      else hz \<noteq> 0 \<and> uint (a - b) = (uint a - uint b) mod 2 ^ 32 \<and>
        (if a < b then uint (a - b) = 2 ^ 32 - (uint b - uint a) else True) \<and> (if 1000 < hz then a - b = - b else True)"
      unfolding if_not_P [OF False] .
    then show ?thesis using v(1) owd unfolding a_def b_def by blast
  qed
qed

end
