(* ===== verification/Newton_Root.thy ===== *)
theory Newton_Root
  imports Main
begin

section \<open>The Newton step for the fourth root, on natural numbers\<close>

text \<open>
  The arithmetic behind \<open>qroot\<close> of Compound TCP. A step takes \<open>x\<close> to
  \<open>(3 x + q) / 4\<close>, where \<open>q\<close> is the quotient of \<open>a\<close> by \<open>x\<close> cubed or one more. With
  \<open>r\<close> the integer fourth root of \<open>a\<close>: no step falls below \<open>r\<close> (the inequality of the means), a step from
  above \<open>r\<close> does not rise, a step that falls onto \<open>r\<close> by two or more is followed by one that stays within 1, and a
  step that moves by at most 1 ends at most 2 above \<open>r\<close>.
\<close>

lemma quartic_identity: "(s :: int) ^ 4 - (4 * s - 3 * x) * x ^ 3 = (s - x) ^ 2 * (s ^ 2 + 2 * s * x + 3 * x ^ 2)"
  by (simp add: algebra_simps power2_eq_square power3_eq_cube power4_eq_xxxx)

lemma quartic_mean: "(4 * r - 3 * x) * x ^ 3 \<le> (r :: nat) ^ 4"
proof (cases "3 * x \<le> 4 * r")
  case True
  have "0 \<le> (int r - int x) ^ 2 * (int r ^ 2 + 2 * int r * int x + 3 * int x ^ 2)"
    by (intro mult_nonneg_nonneg add_nonneg_nonneg) simp_all
  then have "(4 * int r - 3 * int x) * int x ^ 3 \<le> int r ^ 4"
    using quartic_identity [of "int r" "int x"] by linarith
  moreover have "int (4 * r - 3 * x) = 4 * int r - 3 * int x" using True by (simp add: of_nat_diff)
  then have "int ((4 * r - 3 * x) * x ^ 3) = (4 * int r - 3 * int x) * int x ^ 3" by (simp only: of_nat_mult of_nat_power)
  ultimately have "int ((4 * r - 3 * x) * x ^ 3) \<le> int (r ^ 4)" by (simp only: of_nat_power)
  then show ?thesis by (simp only: of_nat_le_iff)
qed simp

lemma newton_lower:
  assumes "r ^ 4 \<le> a" "0 < x" "a div x ^ 3 \<le> (q :: nat)"
  shows "r \<le> (3 * x + q) div 4"
proof -
  have "(4 * r - 3 * x) * x ^ 3 \<le> a" using quartic_mean [of r x] assms(1) by (rule order_trans)
  then have "4 * r - 3 * x \<le> a div x ^ 3" using assms(2) by (simp add: less_eq_div_iff_mult_less_eq)
  then show ?thesis using assms(3) by simp
qed

lemma newton_quotient:
  assumes "a < (r + 1) ^ 4" "r + 1 \<le> x"
  shows "a div x ^ 3 < (x :: nat)"
proof -
  have "a < x ^ 4" using assms(1) power_mono [OF assms(2), of 4] by (rule order_less_le_trans) simp
  then have "a < x * x ^ 3" by (simp add: power4_eq_xxxx power3_eq_cube mult.assoc)
  then show ?thesis using assms(2) by (intro less_mult_imp_div_less)
qed

lemma newton_upper:
  assumes "a < (r + 1) ^ 4" "r + 1 \<le> x" "q \<le> a div x ^ 3 + 1"
  shows "(3 * x + q) div 4 \<le> (x :: nat)"
  using newton_quotient [OF assms(1,2)] assms(3) by simp

lemma newton_at_root:
  assumes "0 < r" "r + 2 \<le> x" "(3 * x + q) div 4 = r" "a div x ^ 3 \<le> q" "p \<le> a div r ^ 3 + 1"
  shows "(3 * r + p) div 4 \<le> (r + 1 :: nat)"
proof -
  define s where "s = int (r + 1)"
  define X where "X = int x"
  have "3 * x + a div x ^ 3 + 1 \<le> 4 * r + 4" using assms(3,4) by linarith
  then have d: "a div x ^ 3 + 1 \<le> 4 * (r + 1) - 3 * x" and le: "3 * x \<le> 4 * (r + 1)"
    by (simp_all del: div_mult_self1)
  note d
  moreover have "a < (a div x ^ 3 + 1) * x ^ 3"
    using assms(2) dividend_less_div_times [of "x ^ 3" a] by (simp add: algebra_simps)
  ultimately have "a < (4 * (r + 1) - 3 * x) * x ^ 3"
    using mult_le_mono1 order_less_le_trans by blast
  then have "int a < int ((4 * (r + 1) - 3 * x) * x ^ 3)" by (simp only: of_nat_less_iff)
  moreover have "int (4 * (r + 1) - 3 * x) = 4 * s - 3 * X"
    using le by (simp add: s_def X_def of_nat_diff)
  ultimately have a: "int a < (4 * s - 3 * X) * X ^ 3" by (simp only: of_nat_mult of_nat_power X_def)
  have sX: "s + 1 \<le> X" "0 < s" using assms(2) by (simp_all add: s_def X_def)
  have "1 \<le> (s - X) ^ 2"
  proof -
    have "1 ^ 2 \<le> (X - s) ^ 2" using sX by (intro power_mono) simp_all
    then show ?thesis by (simp add: power2_commute)
  qed
  moreover have "s ^ 2 \<le> s * X" "s ^ 2 \<le> X ^ 2"
    using sX by (simp_all add: power2_eq_square mult_mono)
  then have "6 * s ^ 2 \<le> s ^ 2 + 2 * s * X + 3 * X ^ 2" by simp
  ultimately have "1 * (6 * s ^ 2) \<le> (s - X) ^ 2 * (s ^ 2 + 2 * s * X + 3 * X ^ 2)"
    by (intro mult_mono) simp_all
  then have "int a < s ^ 4 - 6 * s ^ 2" using a quartic_identity [of s X] by linarith
  also have "\<dots> < (int r + 4) * int r ^ 3"
    by (simp add: s_def algebra_simps power2_eq_square power3_eq_cube power4_eq_xxxx)
  finally have "int a < int ((r + 4) * r ^ 3)" by simp
  then have "a < (r + 4) * r ^ 3" by (simp only: of_nat_less_iff)
  then have "a div r ^ 3 < r + 4" using assms(1) by (intro less_mult_imp_div_less)
  then show ?thesis using assms(5) by simp
qed

lemma newton_exit:
  assumes a: "a < (r + 1) ^ 4" and r: "0 < r" "r + 1 \<le> x" and f: "x \<le> (3 * x + q) div 4 + 1"
    and q: "q \<le> a div x ^ 3 + (if x ^ 3 < 2 ^ 32 then 0 else 1)"
  shows "(3 * x + q) div 4 \<le> (r + 2 :: nat)"
proof (rule ccontr)
  define y where "y = (3 * x + q) div 4"
  define s where "s = r + 1"
  assume "\<not> (3 * x + q) div 4 \<le> r + 2"
  then have y: "s + 2 \<le> y" by (simp add: y_def s_def)
  have q1: "q \<le> a div x ^ 3 + 1" using q by (simp split: if_splits)
  then have yx: "y \<le> x" unfolding y_def by (rule newton_upper [OF a r(2)])
  have yq: "4 * y \<le> 3 * x + q" by (simp add: y_def)
  have as: "a < s ^ 4" using a by (simp only: s_def)
  have s: "2 \<le> s" using r(1) by (simp add: s_def)
  have mult: "k * x ^ 3 \<le> a" if "k \<le> a div x ^ 3" for k
    using that r(2) by (simp add: less_eq_div_iff_mult_less_eq)
  show False
  proof (cases "x = s + 2")
    case True
    then have "s + 1 \<le> a div x ^ 3" using y yx yq q1 by linarith
    then have "(s + 1) * (s + 2) ^ 3 \<le> a" using mult True by blast
    moreover have "s * s ^ 3 \<le> (s + 1) * (s + 2) ^ 3" by (intro mult_le_mono power_mono) simp_all
    moreover have "s ^ 4 = s * s ^ 3" by (simp add: power4_eq_xxxx power3_eq_cube)
    ultimately show False using as by linarith
  next
    case False
    then have x: "s + 3 \<le> x" using y yx by linarith
    have fx: "x \<le> y + 1" using f by (simp add: y_def)
    show False
    proof (cases "s = 2")
      case True
      then have "a < 16" using as by simp
      moreover have "5 ^ 3 \<le> x ^ 3" using x True by (intro power_mono) simp_all
      ultimately have "a div x ^ 3 = 0" by simp
      then have "x \<le> 5" "x ^ 3 < 2 ^ 32 \<longrightarrow> x \<le> 4" using q fx yq by (auto split: if_splits)
      moreover have "x ^ 3 \<le> 5 ^ 3" using \<open>x \<le> 5\<close> by (intro power_mono) simp_all
      ultimately show False using x True by simp
    next
      case False
      have "x - 5 \<le> a div x ^ 3" using fx yq q1 by linarith
      then have "(x - 5) * x ^ 3 \<le> a" by (rule mult)
      moreover have "(s - 2) * (s + 3) ^ 3 \<le> (x - 5) * x ^ 3" using x by (intro mult_le_mono power_mono) simp_all
      moreover have "s ^ 4 \<le> (s - 2) * (s + 3) ^ 3"
      proof -
        define t where "t = s - 3"
        have "s = t + 3" using False s by (simp add: t_def)
        then show ?thesis by (simp add: algebra_simps power3_eq_cube power4_eq_xxxx)
      qed
      ultimately show False using as by linarith
    qed
  qed
qed

end
