(* ===== verification/Compound.thy ===== *)
theory Compound
  imports Kernel_Util Delay_Based Newton_Root
begin

section \<open>Compound TCP (\<open>src/tcp_compound.c\<close>)\<close>

text \<open>
  Compound TCP adds to Reno's window a delay window \<open>dwnd\<close>, raised by the three-quarter power of the
  window while Vegas's queue estimate is short and lowered by it otherwise. The power is computed by a
  Newton iteration for the fourth root of a 64-bit number, over the kernel's approximate 64-bit division.
  The lemmas show that the iteration ends for every input and is at most two above the root, that an
  acknowledgement always returns, and that the delay window is not held by the clamp.
\<close>

abbreviation (input) TCP_COMPOUND_ALPHA :: nat where "TCP_COMPOUND_ALPHA \<equiv> 3"
abbreviation (input) TCP_COMPOUND_BETA :: u32 where "TCP_COMPOUND_BETA \<equiv> 1"
abbreviation (input) TCP_COMPOUND_GAMMA :: u32 where "TCP_COMPOUND_GAMMA \<equiv> 30"

record compound =
  cp_beg_snd_nxt :: u32
  cp_beg_snd_una :: u32
  cp_beg_snd_cwnd :: u32
  cp_doing_vegas_now :: u8
  cp_cntRTT :: u16
  cp_minRTT :: u32
  cp_baseRTT :: u32
  cp_cwnd :: u32
  cp_dwnd :: u32

definition cvegas_enable :: "tcp_sock \<Rightarrow> compound \<Rightarrow> compound" where
  "cvegas_enable tp v =
     v\<lparr>cp_doing_vegas_now := 1, cp_beg_snd_nxt := snd_nxt tp, cp_cntRTT := 0, cp_minRTT := 0x7fffffff\<rparr>"

definition cvegas_disable :: "compound \<Rightarrow> compound" where
  "cvegas_disable v = v\<lparr>cp_doing_vegas_now := 0\<rparr>"

definition tcp_compound_init :: "tcp_sock \<Rightarrow> compound \<Rightarrow> compound" where
  "tcp_compound_init tp v = (cvegas_enable tp (v\<lparr>cp_baseRTT := 0x7fffffff\<rparr>))\<lparr>cp_dwnd := 0, cp_cwnd := snd_cwnd tp\<rparr>"

definition tcp_compound_rtt_calc :: "u32 \<Rightarrow> compound \<Rightarrow> compound" where
  "tcp_compound_rtt_calc usrtt v =
     (let vrtt = usrtt + 1 in
      v\<lparr>cp_baseRTT := (if vrtt < cp_baseRTT v then vrtt else cp_baseRTT v),
        cp_minRTT := min (cp_minRTT v) vrtt, cp_cntRTT := cp_cntRTT v + 1\<rparr>)"

definition tcp_compound_state :: "u8 \<Rightarrow> tcp_sock \<Rightarrow> compound \<Rightarrow> compound" where
  "tcp_compound_state ca_state tp v = (if ca_state = TCP_CA_Open then cvegas_enable tp v else cvegas_disable v)"

text \<open>The module's own 64-bit division, which divides 32-bit numbers where the dividend is one.\<close>

definition cdiv64_64 :: "u64 \<Rightarrow> u64 \<Rightarrow> u64 option" where
  "cdiv64_64 dividend divisor =
     (let (n, d) = (if 0xffffffff < divisor
                    then let shift = nat (fls (ucast (drop_bit 32 divisor)))
                         in (drop_bit shift dividend, ucast (drop_bit shift divisor) :: u32)
                    else (dividend, ucast divisor))
      in if drop_bit 32 n \<noteq> 0 then do_div n d
         else map_option ucast (cdiv (ucast n :: u32) d))"

text \<open>The iteration of \<open>qroot\<close>; \<open>abs\<close> takes the 32-bit difference as an \<open>int\<close>.\<close>

partial_function (option) qroot_loop :: "u64 \<Rightarrow> u32 \<Rightarrow> u32 option" where
  "qroot_loop a x1 = do {
     q \<leftarrow> cdiv64_64 a (ucast x1 * ucast x1 * ucast x1);
     let x = (3 * x1 + ucast q) div 4;
     if 1 < \<bar>sint (x1 - x)\<bar> then qroot_loop a x else Some x
   }"

definition qroot :: "u64 \<Rightarrow> u32 option" where
  "qroot a = qroot_loop a (push_bit (nat (fls64 a) div 4) 1)"

definition tcp_compound_cwnd_event :: "tcp_ca_event \<Rightarrow> tcp_sock \<Rightarrow> compound \<Rightarrow> compound" where
  "tcp_compound_cwnd_event ev tp v =
     (if ev = CA_EVENT_CWND_RESTART \<or> ev = CA_EVENT_TX_START then tcp_compound_init tp v else v)"

text \<open>A window reduced by the agent is divided anew.\<close>

definition compound_reconcile :: "tcp_sock \<Rightarrow> compound \<Rightarrow> compound" where
  "compound_reconcile tp v =
     (if snd_cwnd tp < cp_cwnd v + cp_dwnd v
      then if snd_cwnd tp < cp_cwnd v \<or> snd_cwnd tp < cp_dwnd v
           then v\<lparr>cp_cwnd := snd_cwnd tp, cp_dwnd := 0\<rparr>
           else v\<lparr>cp_cwnd := snd_cwnd tp - cp_dwnd v\<rparr>
      else v)"

text \<open>The loss window: slow start or Reno.\<close>

definition compound_loss_window :: "compound sock \<Rightarrow> compound sock" where
  "compound_loss_window s =
     (let tp = fst s; v = snd s;
          inc = (cp_cwnd v \<le> snd_ssthresh tp);
          tp = (if \<not> inc \<and> snd_cwnd_cnt tp < snd_cwnd tp then tp\<lparr>snd_cwnd_cnt := snd_cwnd_cnt tp + 1\<rparr> else tp);
          full = (snd_cwnd tp \<le> snd_cwnd_cnt tp);
          tp = (if full then tp\<lparr>snd_cwnd_cnt := 0\<rparr> else tp)
      in (tp, if (inc \<or> full) \<and> snd_cwnd tp < snd_cwnd_clamp tp then v\<lparr>cp_cwnd := cp_cwnd v + 1\<rparr> else v))"

text \<open>The new delay window from the queue estimate.\<close>

definition compound_dwnd :: "u32 \<Rightarrow> u32 \<Rightarrow> u32 \<Rightarrow> u32 option" where
  "compound_dwnd old_wnd diff dwnd =
     (if diff < push_bit 1 TCP_COMPOUND_GAMMA
      then do {
        r \<leftarrow> qroot (ucast old_wnd * ucast old_wnd * ucast old_wnd);
        let x = (ucast (drop_bit TCP_COMPOUND_ALPHA r) :: u64);
        Some ((if 1 < x then ucast (x - 1) else 0) + dwnd)
      }
      else if push_bit 1 dwnd < diff * TCP_COMPOUND_BETA then Some 0
      else Some (drop_bit 1 (push_bit 1 dwnd - diff * TCP_COMPOUND_BETA)))"

text \<open>The end of a round; the flag says whether the end of the operation is reached (two guards
  return early).\<close>

definition compound_round :: "tcp_sock \<Rightarrow> compound \<Rightarrow> (compound \<times> bool) option" where
  "compound_round tp v =
     (if mss_cache tp = 0 then Some (v, False)
      else do {
        old_wnd \<leftarrow> cdiv (cp_beg_snd_nxt v - cp_beg_snd_una v) (mss_cache tp);
        let v = v\<lparr>cp_beg_snd_una := cp_beg_snd_nxt v, cp_beg_snd_nxt := snd_nxt tp, cp_beg_snd_cwnd := snd_cwnd tp\<rparr>;
        if cp_cntRTT v \<le> 2 then Some (v\<lparr>cp_cntRTT := 0, cp_minRTT := 0x7fffffff\<rparr>, True)
        else if cp_minRTT v = 0 then Some (v, False)
        else do {
          target \<leftarrow> cdiv (push_bit 1 (old_wnd * cp_baseRTT v)) (cp_minRTT v);
          d \<leftarrow> compound_dwnd old_wnd (push_bit 1 old_wnd - target) (cp_dwnd v);
          Some (v\<lparr>cp_dwnd := d, cp_cntRTT := 0, cp_minRTT := 0x7fffffff\<rparr>, True)
        }
      })"

definition tcp_compound_cong_avoid ::
  "kern \<Rightarrow> u32 \<Rightarrow> u32 \<Rightarrow> u32 \<Rightarrow> s32 \<Rightarrow> compound sock \<Rightarrow> compound sock option" where
  "tcp_compound_cong_avoid k ack seq_rtt in_flight flag s =
     (let tp = fst s; v = compound_reconcile tp (snd s) in
      if \<not> tcp_is_cwnd_limited tp in_flight then Some (tp, v)
      else let (tp, v) = compound_loss_window (tp, v) in
        do {
          (v, reached) \<leftarrow> (if after ack (cp_beg_snd_nxt v) then compound_round tp v else Some (v, True));
          Some (if reached then tp\<lparr>snd_cwnd := cp_cwnd v + cp_dwnd v\<rparr> else tp, v)
        })"

text \<open>
  \<open>get_info\<close> writes through \<open>RTA_DATA\<close>, which the simulator defines as a null pointer:
  \<open>None\<close> when the information is asked for.
\<close>

definition tcp_compound_get_info :: "u32 \<Rightarrow> compound sock \<Rightarrow> compound sock option" where
  "tcp_compound_get_info ext s = (if ext AND push_bit (1 - 1) 1 \<noteq> 0 then None else Some s)"

definition tcp_compound :: "compound tcp_congestion_ops" where
  "tcp_compound =
     \<lparr>op_flags = TCP_CONG_RTT_STAMP,
      op_name = ''compound'',
      op_init = Some (\<lambda>k s. Some (fst s, tcp_compound_init (fst s) (snd s))),
      op_ssthresh = (\<lambda>k s. Some (tcp_reno_ssthresh (fst s), s)),
      op_min_cwnd = Some (\<lambda>k s. Some (tcp_reno_min_cwnd (fst s))),
      op_cong_avoid = tcp_compound_cong_avoid,
      op_rtt_sample = Some (\<lambda>k us s. Some (fst s, tcp_compound_rtt_calc us (snd s))),
      op_set_state = Some (\<lambda>k st s. Some (fst s, tcp_compound_state st (fst s) (snd s))),
      op_cwnd_event = Some (\<lambda>k ev s. Some (fst s, tcp_compound_cwnd_event ev (fst s) (snd s))),
      op_undo_cwnd = None,
      op_pkts_acked = None\<rparr>"

subsection \<open>The division is the kernel's\<close>

lemma cdiv64_64_eq: "cdiv64_64 n d = div64_64 n d"
proof -
  have low: "(if drop_bit 32 m \<noteq> 0 then do_div m e else map_option ucast (cdiv (ucast m :: u32) e)) = do_div m e" for m :: u64 and e
  proof (cases "drop_bit 32 m = 0 \<and> e \<noteq> 0")
    case True
    have "unat m div 2 ^ 32 = unat (drop_bit 32 m)" by (simp only: unat_drop_bit_div)
    then have "unat m div 2 ^ 32 = 0" using True by simp
    then have m: "unat m < 4294967296" by (simp add: div_eq_0_iff)
    have "unat m div unat e \<le> unat m" by simp
    then have "unat (ucast (ucast m div e :: u32) :: u64) = unat (m div ucast e)"
      using m by (simp add: unat_ucast_u64 unat_div_word unat_ucast_u32)
    then have "ucast (ucast m div e :: u32) = (m div ucast e :: u64)" by (simp only: word_unat_eq_iff)
    then show ?thesis using True by (simp add: do_div_def)
  qed (auto simp: do_div_def)
  have big: "(0xffffffff < d) = ((ucast (drop_bit 32 d) :: u32) \<noteq> 0)"
    using high_half_eq_0_iff [of d] by (auto simp: word_less_nat_alt)
  show ?thesis by (simp add: cdiv64_64_def div64_64_def Let_def low big)
qed

subsection \<open>The fourth root\<close>

text \<open>One step of the loop on machine words, where nothing wraps: the quotient is that of the natural
  numbers, or one more when the divisor has more than 32 bits.\<close>

lemma qroot_step:
  assumes x: "0 < unat x" "unat x < 2 ^ 19" and q: "unat a div unat x ^ 3 < 2 ^ 20"
  shows "\<exists>Q y. unat a div unat x ^ 3 \<le> Q \<and> Q \<le> unat a div unat x ^ 3 + (if unat x ^ 3 < 2 ^ 32 then 0 else 1) \<and>
    unat y = (3 * unat x + Q) div 4 \<and>
    qroot_loop a x = (if 1 < \<bar>int (unat x) - int (unat y)\<bar> then qroot_loop a y else Some y)"
proof -
  define c where "c = (ucast x * ucast x * ucast x :: u64)"
  have "unat x * unat x < 2 ^ 19 * 2 ^ 19" using x(2) by (intro mult_strict_mono) simp_all
  moreover from this x(2) have "unat x * unat x * unat x < 2 ^ 19 * 2 ^ 19 * 2 ^ 19"
    by (intro mult_strict_mono) simp_all
  ultimately have "unat c = unat x * unat x * unat x"
    unfolding c_def by (simp add: unat_mult_nowrap unat_ucast_u64)
  then have c: "unat c = unat x ^ 3" by (simp add: power3_eq_cube)
  then have "0 < unat c" using x(1) by simp
  then have "c \<noteq> 0" by (simp only: word_neq_0_iff_unat)
  then obtain w where w: "div64_64 a c = Some w" "unat a div unat c \<le> unat w"
    "unat w \<le> unat a div unat c + (if unat c < 2 ^ 32 then 0 else 1)"
    using div64_64_small [of c a] div64_64_large [of c a] by (cases "unat c < 2 ^ 32") (auto simp: unat_div_word)
  define Q where "Q = unat w"
  have Q: "unat a div unat x ^ 3 \<le> Q" "Q \<le> unat a div unat x ^ 3 + (if unat x ^ 3 < 2 ^ 32 then 0 else 1)"
    using w(2,3) by (simp_all only: Q_def c)
  then have Qb: "Q \<le> 2 ^ 20" using q by (simp split: if_splits)
  have wq: "unat (ucast w :: u32) = Q" using Qb by (simp add: Q_def unat_ucast_u32)
  have "unat (3 * x) = 3 * unat x" using x(2) unat_mult_nowrap [of 3 x] by simp
  then have "unat (3 * x + ucast w) = 3 * unat x + Q"
    using x(2) Qb wq by (subst unat_add_nowrap) simp_all
  define y where "y = (3 * x + ucast w) div 4"
  have y: "unat y = (3 * unat x + Q) div 4"
    using \<open>unat (3 * x + ucast w) = 3 * unat x + Q\<close> by (simp add: y_def unat_div_word)
  have diff: "sint (x - y) = int (unat x) - int (unat y)"
  proof -
    define d where "d = int (unat x) - int (unat y)"
    have "unat y < 1048576" "unat x < 524288" using y x(2) Qb by simp_all
    then have d: "- 2147483648 \<le> d" "d < 2147483648" unfolding d_def by linarith+
    have "x - y = word_of_int d" by (simp add: d_def)
    then have "sint (x - y) = (d + 2147483648) mod 4294967296 - 2147483648" by (simp add: int_word_sint)
    also have "(d + 2147483648) mod 4294967296 = d + 2147483648" using d by (intro mod_pos_pos_trivial) simp_all
    finally show ?thesis by (simp add: d_def)
  qed
  have "qroot_loop a x = (if 1 < \<bar>int (unat x) - int (unat y)\<bar> then qroot_loop a y else Some y)"
    by (subst qroot_loop.simps) (simp add: cdiv64_64_eq w(1) diff flip: c_def y_def)
  then show ?thesis using Q y by blast
qed

text \<open>From above the root the loop descends to it; from the root itself it jumps at most once.\<close>

lemma root_quotient:
  assumes "a < (r + 1) ^ 4" "0 < r" "r \<le> x" "r < 2 ^ 16"
  shows "a div x ^ 3 < (2 ^ 20 :: nat)" "a div r ^ 3 \<le> 16 * r"
proof -
  have "(r + 1) ^ 4 \<le> (2 * r) ^ 4" using assms(2) by (intro power_mono) simp_all
  also have "(2 * r) ^ 4 = 16 * r * r ^ 3" by (simp add: power4_eq_xxxx power3_eq_cube)
  finally have "a < 16 * r * r ^ 3" using assms(1) by linarith
  then have r: "a div r ^ 3 < 16 * r" using assms(2) by (intro less_mult_imp_div_less)
  then show "a div r ^ 3 \<le> 16 * r" by simp
  have "a div x ^ 3 \<le> a div r ^ 3" using assms(2,3) by (intro div_le_mono2 power_mono) simp_all
  then show "a div x ^ 3 < 2 ^ 20" using r assms(4) by simp
qed

lemma qroot_descends:
  assumes a: "r ^ 4 \<le> unat a" "unat a < (r + 1) ^ 4" and r: "0 < r" "r < 2 ^ 16"
    and x: "r + 1 \<le> unat x" "unat x < 2 ^ 19"
  shows "\<exists>y. qroot_loop a x = Some y \<and> r \<le> unat y \<and> unat y \<le> r + 2"
  using x
proof (induction "unat x" arbitrary: x rule: less_induct)
  case less
  have "0 < unat x" "unat a div unat x ^ 3 < 2 ^ 20" using root_quotient(1) [OF a(2) r(1) _ r(2)] less.prems by simp_all
  then obtain Q y where s: "unat a div unat x ^ 3 \<le> Q" "Q \<le> unat a div unat x ^ 3 + (if unat x ^ 3 < 2 ^ 32 then 0 else 1)"
    "unat y = (3 * unat x + Q) div 4"
    "qroot_loop a x = (if 1 < \<bar>int (unat x) - int (unat y)\<bar> then qroot_loop a y else Some y)"
    using qroot_step [OF _ less.prems(2)] by blast
  have Q1: "Q \<le> unat a div unat x ^ 3 + 1" using s(2) by (simp split: if_splits)
  have lo: "r \<le> unat y" unfolding s(3) using less.prems by (intro newton_lower [OF a(1) _ s(1)]) simp
  have hi: "unat y \<le> unat x" unfolding s(3) by (rule newton_upper [OF a(2) less.prems(1) Q1])
  consider (exit) "unat x \<le> unat y + 1" | (above) "unat y + 2 \<le> unat x" "r + 1 \<le> unat y"
    | (root) "unat y + 2 \<le> unat x" "unat y = r"
    using lo by linarith
  then show ?case
  proof cases
    case exit
    then have "unat y \<le> r + 2"
      using newton_exit [OF a(2) r(1) less.prems(1) _ s(2)] by (simp add: s(3))
    moreover have "\<not> 1 < \<bar>int (unat x) - int (unat y)\<bar>" using exit hi by linarith
    then have "qroot_loop a x = Some y" unfolding s(4) by (simp only: if_False)
    ultimately show ?thesis using lo by blast
  next
    case above
    then have "unat y < unat x" "unat y < 2 ^ 19" using less.prems(2) by simp_all
    then obtain z where "qroot_loop a y = Some z" "r \<le> unat z" "unat z \<le> r + 2"
      using less.hyps above(2) by blast
    moreover have "1 < \<bar>int (unat x) - int (unat y)\<bar>" using above(1) by linarith
    ultimately show ?thesis using s(4) by (simp only: if_True) blast
  next
    case root
    have "0 < unat y" "unat y < 2 ^ 19" "unat a div unat y ^ 3 < 2 ^ 20"
      using root_quotient(1) [OF a(2) r(1) _ r(2)] root r by simp_all
    then obtain P z where z: "unat a div unat y ^ 3 \<le> P" "P \<le> unat a div unat y ^ 3 + (if unat y ^ 3 < 2 ^ 32 then 0 else 1)"
      "unat z = (3 * unat y + P) div 4"
      "qroot_loop a y = (if 1 < \<bar>int (unat y) - int (unat z)\<bar> then qroot_loop a z else Some z)"
      using qroot_step by blast
    have "r \<le> unat z" unfolding z(3) using root r by (intro newton_lower [OF a(1) _ z(1)]) simp
    have P1: "P \<le> unat a div r ^ 3 + 1" using z(2) root(2) by (simp split: if_splits)
    have "unat z \<le> r + 1"
      unfolding z(3) root(2) using root s(3) by (intro newton_at_root [OF r(1) _ _ s(1) P1]) simp_all
    then have "\<not> 1 < \<bar>int (unat y) - int (unat z)\<bar>" using \<open>r \<le> unat z\<close> root(2) by linarith
    moreover have "1 < \<bar>int (unat x) - int (unat y)\<bar>" using root(1) by linarith
    ultimately show ?thesis using s(4) z(4) \<open>r \<le> unat z\<close> \<open>unat z \<le> r + 1\<close> by simp
  qed
qed

lemma qroot_at_or_above:
  assumes a: "r ^ 4 \<le> unat a" "unat a < (r + 1) ^ 4" and r: "0 < r" "r < 2 ^ 16"
    and x: "r \<le> unat x" "unat x < 2 ^ 19"
  shows "\<exists>y. qroot_loop a x = Some y \<and> r \<le> unat y \<and> unat y \<le> r + 2"
proof (cases "unat x = r")
  case False
  then show ?thesis using qroot_descends [OF a r _ x(2)] x(1) by simp
next
  case True
  have q: "unat a div unat x ^ 3 \<le> 16 * r" using root_quotient(2) [OF a(2) r(1) x(1) r(2)] True by simp
  then have "0 < unat x" "unat a div unat x ^ 3 < 2 ^ 20" using True r by simp_all
  then obtain Q y where s: "unat a div unat x ^ 3 \<le> Q" "Q \<le> unat a div unat x ^ 3 + (if unat x ^ 3 < 2 ^ 32 then 0 else 1)"
    "unat y = (3 * unat x + Q) div 4"
    "qroot_loop a x = (if 1 < \<bar>int (unat x) - int (unat y)\<bar> then qroot_loop a y else Some y)"
    using qroot_step [OF _ x(2)] by blast
  have lo: "r \<le> unat y" unfolding s(3) using True r by (intro newton_lower [OF a(1) _ s(1)]) simp
  have "Q \<le> 16 * r + 1" using s(2) q by (simp split: if_splits)
  then have hi: "unat y < 2 ^ 19" using s(3) True r(2) by simp
  show ?thesis
  proof (cases "unat y \<le> r + 1")
    case True
    then have "\<not> 1 < \<bar>int (unat x) - int (unat y)\<bar>" using lo \<open>unat x = r\<close> by linarith
    then have "qroot_loop a x = Some y" unfolding s(4) by (simp only: if_False)
    then show ?thesis using True lo by simp
  next
    case False
    then have "1 < \<bar>int (unat x) - int (unat y)\<bar>" using \<open>unat x = r\<close> by linarith
    moreover obtain z where "qroot_loop a y = Some z" "r \<le> unat z" "unat z \<le> r + 2"
      using qroot_descends [OF a r _ hi] False by auto
    ultimately show ?thesis unfolding s(4) by (simp only: if_True) blast
  qed
qed

text \<open>The initial estimate \<open>2 ^ (L div 4)\<close> for a number of \<open>L\<close> bits.\<close>

lemma qroot_total:
  assumes a: "r ^ 4 \<le> unat a" "unat a < (r + 1) ^ 4" and "0 < r"
  shows "\<exists>y. qroot a = Some y \<and> r \<le> unat y \<and> unat y \<le> r + 2"
proof -
  have r: "r < 2 ^ 16"
  proof (rule ccontr)
    assume "\<not> r < 2 ^ 16"
    then have "(2 ^ 16) ^ 4 \<le> r ^ 4" by (intro power_mono) simp_all
    then show False using a(1) unat_lt_u64 [of a] by simp
  qed
  have "0 < r ^ 4" using assms(3) by simp
  then have "a \<noteq> 0" using a(1) by auto
  define L where "L = nat (fls64 a)"
  define m where "m = L div 4"
  have L: "unat a < 2 ^ L" "L \<le> 64"
    using fls64_bit_length [of a] by (auto simp: L_def)
  have m: "m \<le> 16" "L \<le> 4 * m + 3" using L(2) by (simp_all add: m_def)
  define x where "x = (push_bit m 1 :: u32)"
  have "(2 :: nat) ^ m \<le> 2 ^ 16" using m(1) by (intro power_increasing) simp_all
  then have x: "unat x = 2 ^ m" "unat x \<le> 2 ^ 16"
    using unat_push_bit_nowrap [of "1 :: u32" m] by (simp_all add: x_def)
  have "unat a < 2 ^ (4 * m + 3)"
    using L(1) power_increasing [OF m(2), of "2 :: nat"] by (rule order_less_le_trans) simp
  also have "\<dots> = 2 ^ (m + 3) * unat x ^ 3"
    by (simp only: x(1) power_mult [symmetric] power_add [symmetric]) simp
  finally have "unat a div unat x ^ 3 < 2 ^ (m + 3)"
    using x by (intro less_mult_imp_div_less)
  moreover have "(2 :: nat) ^ (m + 3) \<le> 2 ^ 19" using m(1) by (intro power_increasing) simp_all
  ultimately have q: "unat a div unat x ^ 3 < 2 ^ 19" by linarith
  have "0 < unat x" "unat x < 2 ^ 19" "unat a div unat x ^ 3 < 2 ^ 20" using x q by simp_all
  then obtain Q y where s: "unat a div unat x ^ 3 \<le> Q" "Q \<le> unat a div unat x ^ 3 + (if unat x ^ 3 < 2 ^ 32 then 0 else 1)"
    "unat y = (3 * unat x + Q) div 4"
    "qroot_loop a x = (if 1 < \<bar>int (unat x) - int (unat y)\<bar> then qroot_loop a y else Some y)"
    using qroot_step by blast
  have Q1: "Q \<le> unat a div unat x ^ 3 + 1" using s(2) by (simp split: if_splits)
  have lo: "r \<le> unat y" unfolding s(3) using x by (intro newton_lower [OF a(1) _ s(1)]) simp
  have hi: "unat y < 2 ^ 19" using s(3) Q1 q x(2) by simp
  have start: "qroot a = qroot_loop a x" by (simp add: qroot_def x_def m_def L_def)
  show ?thesis
  proof (cases "1 < \<bar>int (unat x) - int (unat y)\<bar>")
    case True
    obtain z where "qroot_loop a y = Some z" "r \<le> unat z" "unat z \<le> r + 2"
      using qroot_at_or_above [OF a assms(3) r lo hi] by blast
    then show ?thesis using True unfolding start s(4) by (simp only: if_True) blast
  next
    case False
    have "unat y \<le> r + 2"
    proof (cases "r + 1 \<le> unat x")
      case True
      have "unat x \<le> (3 * unat x + Q) div 4 + 1" using False s(3) by linarith
      then show ?thesis unfolding s(3) by (rule newton_exit [OF a(2) assms(3) True _ s(2)])
    qed (use False in linarith)
    moreover have "qroot_loop a x = Some y" unfolding s(4) using False by (simp only: if_False)
    ultimately show ?thesis using lo start by simp
  qed
qed

lemma qroot_0: "qroot 0 = Some 0"
proof -
  have "qroot_loop 0 1 = Some 0"
    by (subst qroot_loop.simps) (simp add: cdiv64_64_def do_div_def)
  then show ?thesis by (simp add: qroot_def fls64_def fls_def)
qed

lemma qroot_defined: "\<exists>y. qroot a = Some y"
proof (cases "a = 0")
  case True
  then show ?thesis using qroot_0 by simp
next
  case False
  then have pos: "0 < unat a" by (simp add: unat_gt_0)
  define r where "r = (GREATEST r. r ^ 4 \<le> unat a)"
  have bound: "y \<le> unat a" if "y ^ 4 \<le> unat a" for y
    using that self_le_power [of y 4] by (cases "y = 0") simp_all
  have r4: "r ^ 4 \<le> unat a" unfolding r_def by (rule GreatestI_nat [of _ 0]) (use bound in auto)
  have "1 \<le> r" unfolding r_def by (rule Greatest_le_nat [of _ 1]) (use pos bound in auto)
  moreover have "unat a < (r + 1) ^ 4"
  proof (rule ccontr)
    assume "\<not> unat a < (r + 1) ^ 4"
    then have "r + 1 \<le> r" unfolding r_def by (intro Greatest_le_nat [of _ _ "unat a"]) (use bound in auto)
    then show False by simp
  qed
  ultimately show ?thesis using qroot_total [OF r4] by auto
qed

subsection \<open>Acknowledgements\<close>

lemma compound_dwnd_total: "\<exists>d. compound_dwnd w diff dwnd = Some d"
  using qroot_defined [of "ucast w * ucast w * ucast w"] by (auto simp: compound_dwnd_def Let_def)

lemma compound_round_total:
  "\<exists>v' b. compound_round tp v = Some (v', b) \<and> cp_cwnd v' = cp_cwnd v \<and>
    (mss_cache tp \<noteq> 0 \<and> cp_minRTT v \<noteq> 0 \<longrightarrow> b)"
proof -
  define w where "w = (cp_beg_snd_nxt v - cp_beg_snd_una v) div mss_cache tp"
  obtain d where "compound_dwnd w (push_bit 1 w - push_bit 1 (w * cp_baseRTT v) div cp_minRTT v) (cp_dwnd v) = Some d"
    using compound_dwnd_total by blast
  then show ?thesis
    by (cases "mss_cache tp = 0"; cases "cp_cntRTT v \<le> 2"; cases "cp_minRTT v = 0")
      (simp_all add: compound_round_def Let_def exI [of _ True] exI [of _ False] flip: w_def)
qed

lemma compound_loss_window_sock:
  "fst (compound_loss_window (tp, v)) = tp\<lparr>snd_cwnd_cnt := snd_cwnd_cnt (fst (compound_loss_window (tp, v)))\<rparr>"
  by (simp add: compound_loss_window_def Let_def)

lemma compound_frame:
  "cp_minRTT (compound_reconcile tp v) = cp_minRTT v" "cp_minRTT (snd (compound_loss_window (tp, v))) = cp_minRTT v"
  by (simp_all add: compound_reconcile_def compound_loss_window_def Let_def)

subsection \<open>Properties\<close>

text \<open>
  C24. The fourth root of Compound TCP. For every 64-bit number the Newton iteration, which divides with the kernel's
  approximate 64-bit division, ends without a trap, and its result is at least the integer fourth root and at
  most two more; for 0 it is 0.
\<close>

theorem compound_qroot_correct:
  "\<exists>y. qroot a = Some y \<and>
     (\<forall>r. if 0 < r \<and> r ^ 4 \<le> unat a \<and> unat a < (r + 1) ^ 4 then r \<le> unat y \<and> unat y \<le> r + 2 else True) \<and>
     (if a = 0 then y = 0 else True)"
proof -
  obtain y where y: "qroot a = Some y" using qroot_defined by blast
  have "r \<le> unat y \<and> unat y \<le> r + 2" if "0 < r" "r ^ 4 \<le> unat a" "unat a < (r + 1) ^ 4" for r
    using qroot_total [OF that(2,3,1)] y by auto
  moreover have "y = 0" if "a = 0" using y qroot_0 that by simp
  ultimately show ?thesis using y by simp
qed

text \<open>
  An acknowledgement in Compound TCP returns from every state: each division is guarded, and the iteration ends.
  It changes only the window and its counter; on a full window, unless a guard returned early, the window is the sum of
  the loss and delay windows.
\<close>

theorem compound_ack_total:
  "\<exists>tp' v'. tcp_compound_cong_avoid k ack rtt in_flight flag (tp, v) = Some (tp', v') \<and>
     tp' = tp\<lparr>snd_cwnd := snd_cwnd tp', snd_cwnd_cnt := snd_cwnd_cnt tp'\<rparr> \<and>
     (if in_flight < snd_cwnd tp then tp' = tp
      else if mss_cache tp \<noteq> 0 \<and> cp_minRTT v \<noteq> 0 then snd_cwnd tp' = cp_cwnd v' + cp_dwnd v' else True)"
proof (cases "in_flight < snd_cwnd tp")
  case True
  then have "\<not> snd_cwnd tp \<le> in_flight" by simp
  then show ?thesis using True by (simp add: tcp_compound_cong_avoid_def tcp_is_cwnd_limited_def Let_def)
next
  case False
  define v0 where "v0 = compound_reconcile tp v"
  obtain tp1 v1 where 1: "compound_loss_window (tp, v0) = (tp1, v1)" by fastforce
  have tp1: "tp1 = tp\<lparr>snd_cwnd_cnt := snd_cwnd_cnt tp1\<rparr>" using compound_loss_window_sock [of tp v0] 1 by simp
  then have mss: "mss_cache tp1 = mss_cache tp" by (metis tcp_sock.select_convs(4) tcp_sock.surjective tcp_sock.update_convs(9))
  have rtt1: "cp_minRTT v1 = cp_minRTT v" using compound_frame [of tp v] compound_frame(2) [of tp v0] 1 by (simp add: v0_def)
  obtain v2 b where 2: "(if after ack (cp_beg_snd_nxt v1) then compound_round tp1 v1 else Some (v1, True)) = Some (v2, b)"
    "mss_cache tp \<noteq> 0 \<and> cp_minRTT v \<noteq> 0 \<longrightarrow> b"
    using compound_round_total [of tp1 v1] mss rtt1 by (cases "after ack (cp_beg_snd_nxt v1)") auto
  define tp' where "tp' = (if b then tp1\<lparr>snd_cwnd := cp_cwnd v2 + cp_dwnd v2\<rparr> else tp1)"
  have run: "tcp_compound_cong_avoid k ack rtt in_flight flag (tp, v) = Some (tp', v2)"
    using False 1 2(1) by (simp add: tcp_compound_cong_avoid_def tcp_is_cwnd_limited_def Let_def tp'_def flip: v0_def)
  have "tp' = tp\<lparr>snd_cwnd := snd_cwnd tp', snd_cwnd_cnt := snd_cwnd_cnt tp'\<rparr>"
    unfolding tp'_def by (subst tp1, subst (2) tp1, subst (3) tp1) simp
  moreover have "if mss_cache tp \<noteq> 0 \<and> cp_minRTT v \<noteq> 0 then snd_cwnd tp' = cp_cwnd v2 + cp_dwnd v2 else True"
    using 2(2) by (simp add: tp'_def)
  ultimately show ?thesis using run False by auto
qed

text \<open>
  The clamp does not hold the delay window. At the end of a round with a short queue, with a window that is
  already at or above its clamp, the window grows by \<open>y / 8 - 1\<close>, with \<open>y\<close> the computed fourth root of the cube of the last round's
  window \<open>w\<close> in packets; so from \<open>w\<close> at 41 on (\<open>16 \<le> r\<close>) it ends above the clamp.
\<close>

theorem compound_grows_past_clamp:
  assumes full: "snd_cwnd tp \<le> in_flight" "snd_cwnd_clamp tp \<le> snd_cwnd tp" "unat (snd_cwnd tp) < 2 ^ 31"
    and round: "cp_beg_snd_nxt v < ack" "mss_cache tp \<noteq> 0" "2 < cp_cntRTT v"
    and w: "w = (cp_beg_snd_nxt v - cp_beg_snd_una v) div mss_cache tp" "unat w < 2 ^ 21"
    and rtt: "cp_baseRTT v \<noteq> 0" "cp_baseRTT v \<le> cp_minRTT v" "unat w * unat (cp_baseRTT v) < 2 ^ 31"
    and short: "2 * unat w - 2 * (unat w * unat (cp_baseRTT v)) div unat (cp_minRTT v) < 60"
    and sum: "cp_cwnd v + cp_dwnd v = snd_cwnd tp"
    and r: "16 \<le> r" "r ^ 4 \<le> unat w ^ 3" "unat w ^ 3 < (r + 1) ^ 4"
  shows "\<exists>y tp' v'. qroot (ucast w * ucast w * ucast w) = Some y \<and> r \<le> unat y \<and> unat y \<le> r + 2 \<and>
    tcp_compound_cong_avoid k ack seq_rtt in_flight flag (tp, v) = Some (tp', v') \<and>
    unat (snd_cwnd tp') = unat (snd_cwnd tp) + (unat y div 8 - 1) \<and> snd_cwnd_clamp tp < snd_cwnd tp'"
proof -
  define c where "c = (ucast w * ucast w * ucast w :: u64)"
  have "unat w * unat w < 2 ^ 21 * 2 ^ 21" using w(2) by (intro mult_strict_mono) simp_all
  moreover from this w(2) have "unat w * unat w * unat w < 2 ^ 21 * 2 ^ 21 * 2 ^ 21"
    by (intro mult_strict_mono) simp_all
  ultimately have "unat c = unat w * unat w * unat w"
    unfolding c_def by (simp add: unat_mult_nowrap unat_ucast_u64)
  then have c: "unat c = unat w ^ 3" by (simp add: power3_eq_cube)
  obtain y where y: "qroot c = Some y" "r \<le> unat y" "unat y \<le> r + 2"
    using qroot_total [of r c] r c by auto
  have "r < 2 ^ 16"
  proof (rule ccontr)
    assume "\<not> r < 2 ^ 16"
    then have "(2 ^ 16) ^ 4 \<le> r ^ 4" by (intro power_mono) simp_all
    then show False using r(2) c unat_lt_u64 [of c] by simp
  qed
  then have yb: "2 \<le> unat y div 8" "unat y div 8 \<le> 2 ^ 14" using y r(1) by simp_all
  define x where "x = (ucast (drop_bit 3 y) :: u64)"
  have x: "unat x = unat y div 8" by (simp add: x_def unat_ucast_u64 unat_drop_bit_div)
  then have x1: "1 < x" "unat (x - 1) = unat y div 8 - 1"
    using yb by (simp_all add: word_less_nat_alt unat_sub_le word_le_nat_alt)
  define g where "g = (ucast (x - 1) :: u32)"
  have g: "unat g = unat y div 8 - 1" using x1 yb by (simp add: g_def unat_ucast_u32)
  define d where "d = push_bit 1 w - push_bit 1 (w * cp_baseRTT v) div cp_minRTT v"
  have d: "d < push_bit 1 30" "cp_minRTT v \<noteq> 0"
    using queue_estimate [OF rtt] short by (simp_all add: d_def word_less_nat_alt)
  have dw: "compound_dwnd w d (cp_dwnd v) = Some (g + cp_dwnd v)"
    using d(1) y(1) x1(1) by (simp add: compound_dwnd_def Let_def g_def flip: x_def c_def)
  have "\<not> snd_cwnd tp < snd_cwnd_clamp tp" "\<not> snd_cwnd tp < cp_cwnd v + cp_dwnd v" using full(2) sum by simp_all
  then have v0: "compound_reconcile tp v = v" and lw: "snd (compound_loss_window (tp, v)) = v"
    by (simp_all add: compound_reconcile_def compound_loss_window_def Let_def)
  define tp1 where "tp1 = fst (compound_loss_window (tp, v))"
  have tp1: "tp1 = tp\<lparr>snd_cwnd_cnt := snd_cwnd_cnt tp1\<rparr>" using compound_loss_window_sock [of tp v] by (simp add: tp1_def)
  then have mss: "mss_cache tp1 = mss_cache tp" by (metis tcp_sock.select_convs(4) tcp_sock.surjective tcp_sock.update_convs(9))
  have "\<not> cp_cntRTT v \<le> 2" using round(3) by simp
  then obtain v' where v': "compound_round tp1 v = Some (v', True)" "cp_cwnd v' = cp_cwnd v" "cp_dwnd v' = g + cp_dwnd v"
    using round(2) d(2) dw [unfolded d_def] mss by (simp add: compound_round_def Let_def w(1) [symmetric])
  define tp' where "tp' = tp1\<lparr>snd_cwnd := cp_cwnd v' + cp_dwnd v'\<rparr>"
  have "compound_loss_window (tp, v) = (tp1, v)" using lw by (simp add: tp1_def prod_eq_iff)
  then have run: "tcp_compound_cong_avoid k ack seq_rtt in_flight flag (tp, v) = Some (tp', v')"
    using full(1) round(1) v'(1) v0 by (simp add: tcp_compound_cong_avoid_def tcp_is_cwnd_limited_def Let_def after_def tp'_def)
  have "snd_cwnd tp' = snd_cwnd tp + g" using v'(2,3) sum by (simp add: tp'_def algebra_simps)
  then have win: "unat (snd_cwnd tp') = unat (snd_cwnd tp) + (unat y div 8 - 1)"
    using full(3) yb g by (simp add: unat_add_nowrap)
  moreover have "snd_cwnd_clamp tp < snd_cwnd tp'"
    using full(2) win yb(1) by (simp add: word_less_nat_alt word_le_nat_alt)
  ultimately show ?thesis using y run unfolding c_def by blast
qed

definition example_compound :: compound where
  "example_compound =
     \<lparr>cp_beg_snd_nxt = 150000, cp_beg_snd_una = 0, cp_beg_snd_cwnd = 100, cp_doing_vegas_now = 1, cp_cntRTT = 5,
      cp_minRTT = 120000, cp_baseRTT = 100000, cp_cwnd = 900, cp_dwnd = 100\<rparr>"

theorem compound_grows_past_clamp_witness:
  "\<exists>tp' v'. tcp_compound_cong_avoid example_kern 160000 0 1000 1 ((example_sock 2)\<lparr>snd_cwnd := 1000\<rparr>, example_compound) =
     Some (tp', v') \<and> 1000 < snd_cwnd tp'"
proof -
  define tp where "tp = (example_sock 2)\<lparr>snd_cwnd := 1000\<rparr>"
  have tp: "snd_cwnd tp = 1000" "snd_cwnd_clamp tp = 1000" "mss_cache tp = 1500" by (simp_all add: tp_def)
  have "\<exists>y tp' v'. qroot (ucast (100 :: u32) * ucast (100 :: u32) * ucast (100 :: u32)) = Some y \<and> 31 \<le> unat y \<and> unat y \<le> 31 + 2 \<and>
      tcp_compound_cong_avoid example_kern 160000 0 1000 1 (tp, example_compound) = Some (tp', v') \<and>
      unat (snd_cwnd tp') = unat (snd_cwnd tp) + (unat y div 8 - 1) \<and> snd_cwnd_clamp tp < snd_cwnd tp'"
    by (rule compound_grows_past_clamp [where r = 31 and w = 100])
      (simp_all add: example_compound_def tp word_less_nat_alt word_le_nat_alt)
  then show ?thesis unfolding tp_def [symmetric] tp by blast
qed

end
