(* ===== verification/Spec2Isabelle.thy ===== *)
theory Spec2Isabelle
  imports Cong_Manager Linux_Params Network Rtt_Estimator Simulator Map_Queue Aspu_Ndp Naive_Reno Scalable Highspeed Hybla Bic Cubic Htcp Vegas Veno Westwood Yeah Illinois Lp Compound
begin

text \<open>
  This library verifies TCP-Linux, the TCP sender of the network simulator ns-2.35 that runs the
  congestion-control modules of the Linux kernel (\<open>src/project/ns-2.35/tcp\<close>; the paths below are relative to it). A
  \<open>LinuxTcpAgent\<close> (\<open>tcp-linux.cc\<close>) receives acknowledgements and timeouts, keeps a scoreboard of the packets
  in flight (\<open>scoreboard1.cc\<close>), calls the operations of the installed module through a table of function
  pointers (\<open>linux/src/tcp_*.c\<close>), and sends lost and new packets while the window has room. Modules register
  themselves in a global list when the program starts (\<open>linux/src/tcp_cong.c\<close>, \<open>linux/ns-linux-c.h\<close>), the agent looks them
  up by name, and each module declares parameters that a connection can override. At the other end of a connection a sink
  (\<open>tcp-sink.cc\<close>) acknowledges what it has received, cumulatively and selectively. The agent measures round-trip times from the
  acknowledgements and sets its retransmission timer from them (\<open>tcp-linux.cc\<close>, \<open>tcp.cc\<close>). Everything in the simulator happens in
  events, which a scheduler (\<open>../common/scheduler.cc\<close>) numbers, keeps in a queue and dispatches in the order of their times; there are five queues to
  choose from. The repository adds a routing protocol of its own, ASPU (\<open>src/aspu.cc\<close>, \<open>src/aspu_rtable.cc\<close>): a node takes an address in a binary
  tree of addresses, keeps a routing table with one set of entries for each level of the tree, and finds the address of a destination by its identifier
  through the node whose address is nearest to the identifier's hash.

  The build is the 32-bit one of the distribution: \<open>u32\<close> is 32 bits wide, and \<open>u16\<close> is an \<open>unsigned int\<close> of 32 bits,
  as \<open>linux/ns-linux-util.h\<close> has it; \<open>u64\<close> and \<open>s64\<close> are 64 bits, \<open>HZ\<close> is 1000. Words wrap as they do in C.
  A division by zero, a failed assertion or a loop that does not end is the result \<open>None\<close>, so that a proof that a call returns
  \<open>Some\<close> excludes all of these.

  Theories, in the order of the imports:

  \<^item> \<open>Prelude\<close>: words, division that traps, iteration, the collections of simplification rules.
  \<^item> \<open>Tcp_Sock\<close>, \<open>Kernel_Util\<close>: the socket, the operations table and the globals (\<open>linux/ns-linux-util.h\<close>), and the arithmetic helpers
    of \<open>linux/ns-linux-c.c\<close>; \<open>fls\<close> is the bit length, \<open>div64_64\<close> is exact for divisors of 32 bits and its error is bounded otherwise.
  \<^item> \<open>Linux_Agent\<close>: the calls of a module in \<open>recv\<close>, \<open>tcp_fastretrans_alert\<close> and \<open>enter_loss\<close>. The locales \<open>cong_module\<close> and
    \<open>counted_module\<close> are the contract of a module: what the agent guarantees at each call (\<open>base_ok\<close>) and what the module must keep. Inside
    them every sequence of events is proved to run without a trap. The number in \<open>counted_module\<close> bounds the acknowledgements to come,
    for a module whose sample counter would wrap (\<open>Illinois\<close>).
  \<^item> \<open>Reno\<close> (the window rules of \<open>tcp_cong.c\<close>), \<open>Naive_Reno\<close>, \<open>Scalable\<close>, \<open>Highspeed\<close>, \<open>Hybla\<close>, \<open>Bic\<close>, \<open>Cubic\<close>, \<open>Htcp\<close>,
    \<open>Delay_Based\<close> and \<open>Vegas\<close>, \<open>Veno\<close>, \<open>Westwood\<close>, \<open>Yeah\<close>, \<open>Illinois\<close>, \<open>Lp\<close>, \<open>Newton_Root\<close> and \<open>Compound\<close>: one theory for each module, with its
    private area as a record, every operation, an interpretation of the contract (except for YeAH and Compound, which can bring the window
    to 0 and so do not satisfy it), and the properties of its window rules. The cube root of CUBIC and the fourth root of Compound are compared with the
    real roots; loops are \<open>partial_function\<close>s that are proved to end, or to end exactly under a condition.
  \<^item> \<open>Cong_List\<close>, \<open>Cong_Registry\<close>, \<open>Cong_Manager\<close>: the circular doubly linked list of modules as a heap of cells, the registry on it with all its
    error results, refined to a catalogue of distinct names, and the cache of the agent with its change flag.
  \<^item> \<open>Keyed_Store\<close>, \<open>Linux_Params\<close>: association lists, and the parameters on a byte memory (little endian).
  \<^item> \<open>Scoreboard\<close>, \<open>Scoreboard_Update\<close>, \<open>Scoreboard_Retransmit\<close>: the list of blocks of packets; the invariant \<open>board_ok\<close> says that the blocks
    cover an interval without gaps and that the counters are exact. The traversal is bounded by a measure over the blocks and the
    acknowledgements that are left.
  \<^item> \<open>Sender\<close>: \<open>send_much\<close> on the whole state of the sender, with the list of the packets handed to \<open>output\<close>.
  \<^item> \<open>Connection\<close>: \<open>recv\<close>, \<open>timeout\<close> and \<open>reset\<close> of the agent on the whole state. In the context of a module's contract every run
    of possible events is total, and keeps the invariants of the scoreboard, the sender and the module together.
  \<^item> \<open>Acker\<close>, \<open>Sack_Sink\<close>: the receive window, a ring of packet sizes that grows on demand, and the sinks with and without
    delayed acknowledgements. \<open>ring_ok b\<close> and \<open>sink_ok b\<close> say that the state is right for the packets \<open>b\<close> that have come. The locale
    \<open>receiver\<close> is the contract that a sender relies on, and both sinks satisfy it.
  \<^item> \<open>Network\<close>: a sender and a receiver inside their contracts, joined by a network that loses, repeats and reorders. The invariant
    is that what the sender takes as acknowledged has arrived.
  \<^item> \<open>Rtt_Estimator\<close>: the smoothed round-trip time, its variation and the timer, for the agent and for its base class.
  \<^item> \<open>Event_Queue\<close>: the table of operations of a queue of events (\<open>../common/scheduler.h\<close>), the queue on a sorted list, and the contract
    \<open>event_queue\<close>: with every sequence of operations a queue returns what the list returns. \<open>Heap_Queue\<close>, \<open>Splay_Queue\<close>, and \<open>Calendar_Queue\<close> with
    \<open>Calendar_Search\<close> satisfy it: a heap in an array (for \<open>2 ^ 32\<close> insertions), a splay tree, and the hashed buckets of the default
    scheduler, with the search for the next event and the changes of their number and width. \<open>Map_Queue\<close> has the queue on a
    \<open>std::set\<close> (\<open>Std_Set\<close>, with the contract of its comparison), which does not.
  \<^item> \<open>Simulator\<close>: \<open>schedule\<close>, \<open>dispatch\<close>, \<open>run\<close>, \<open>dumpq\<close> and the commands of a script over any of the queues, for any handlers.
  \<^item> \<open>Aspu_Address\<close>, \<open>Aspu_Neighbor\<close>, \<open>Aspu_Table\<close>: addresses and their distance, the tables of the neighbours and the routing table with
    its invariant \<open>table_ok\<close>. \<open>Aspu_Routing\<close>: the choice of the next hop as a scan (the locale \<open>scan_order\<close>), progress towards the destination and the arrival of packets in a network of such nodes, and what an update
    of the table may change. \<open>Aspu_Lookup\<close>: the table of addresses, a set of pointers in the order of their addresses in memory (any function \<open>heap\<close>),
    and forwarding and the learning of addresses, which call each other; the fuel is the length of the queue, and
    \<open>send_waiting_loop\<close> is the recursion without it. \<open>Aspu_Protocol\<close>: requests for addresses and what happens to a packet. \<open>Aspu_Ndp\<close>: the choice of an address and the round of
    the maintenance timer.
  \<^item> \<open>Spec2Isabelle\<close>: the properties that need all modules.

  The groups of lemmas follow the code: every operation has a lemma that it is total and keeps the invariant (\<open>_ok\<close>, \<open>_total\<close>), which the
  interpretation of a contract collects, and the properties, numbered C1 to C40, are stated at the end of the theory of their component. A
  property with hypotheses is followed by an instance of it.

  Bounds. No fuel is used, but for the loops of the scheduler, which take a number of rounds: a simulation may go on for ever. \<open>simulation_ends\<close> says
  how many rounds are enough. The loop of \<open>ADP::addEntry\<close> has the length of the queue as fuel, which is enough (\<open>drain_sends\<close>). Where a property bounds its input, the bound is the one at which the code stops being right, and a companion
  shows what happens beyond it: the cubic term (256 s), the target of Vegas (\<open>2 ^ 31\<close>), the shift of Hybla (800 ms), the division of H-TCP
  (1 ms), the second key of the heap (\<open>2 ^ 32\<close> insertions), the 16-bit difference of a sample to the smoothed round-trip time (32768 ticks), the doubling of
  the multiplier of the timer (a \<open>maxrto_\<close> of \<open>2 ^ 30\<close> times \<open>minrto_\<close>). Packet numbers are unbounded integers in the scoreboard and the sender; the code's are \<open>int\<close>, and TCP_MAXSEQ is \<open>2 ^ 30\<close>.

  Not modelled. In \<open>Connection\<close> and \<open>Network\<close> the clock and the estimate of the round-trip time are inputs of an acknowledgement, and a timer may
  expire at any time; \<open>Rtt_Estimator\<close> stands beside them and shows which estimates there are. Doubles are real numbers. An agent without
  a module (\<open>icsk_ca_ops\<close> null) runs the window rules of the base class, which are floating point. \<open>get_info\<close> of a module is modelled where it
  computes. Of the base class \<open>TcpAgent\<close> only what the Linux agent calls on the paths above is translated; Quick-Start, headers and tracing are left out. The exchange of the module of a
  running agent is left out, as it changes the type of the private area. Of the schedulers the one that follows the clock of the machine is left out. ASPU does not compile as it stands: a closing brace and a header are missing, a function is
  called with another number of arguments than it is declared with, and its code for several interfaces uses names that are not declared. What it leaves open is a parameter of
  the model, that code is left out, and so are the text of its messages, the set of neighbours and its timers. The
  rest of the repository is either third-party (Tcl, Tk, OTcl, TclCL, nam, xgraph, zlib, gt-itm) or the simulator core around the agent.
\<close>

section \<open>Properties that span the agent and the modules\<close>

text \<open>
  What the simulator supplies with an acknowledgement so that every module can take it: the
  agent's own conditions, a round-trip sample within 71 minutes, at most \<open>2 ^ 27\<close> packets per
  acknowledgement, a time stamp echoed within 35 minutes, and a smoothed round-trip time of at least one and
  less than 800 milliseconds (in eighths), the range in which H-TCP and Hybla are defined.
\<close>

definition wide_env :: "ack_in \<Rightarrow> bool" where
  "wide_env i \<longleftrightarrow> ack_in_ok i \<and> sample_env i \<and> cubic_env i \<and> 8 \<le> in_srtt i \<and> in_srtt i < 6400"

text \<open>The run of an agent from its construction ends without a trap, with a sound socket.\<close>

definition runs_ok :: "'ca tcp_congestion_ops \<Rightarrow> u32 \<Rightarrow> agent_event list \<Rightarrow> tcp_sock \<Rightarrow> 'ca \<Rightarrow> bool" where
  "runs_ok ops cap es tp ca =
     (case agent_run ops es (fresh_agent tp ca) of None \<Rightarrow> False | Some a \<Rightarrow> base_ok cap (linux a))"

text \<open>A module that keeps its contract in that range, with a private area from which \<open>n\<close> acknowledgements can come.\<close>

definition module_ready :: "'ca tcp_congestion_ops \<Rightarrow> u32 \<Rightarrow> nat \<Rightarrow> 'ca \<Rightarrow> bool" where
  "module_ready ops cap n ca \<longleftrightarrow>
     33554431 \<le> cap \<and> (\<exists>I env. counted_module ops I env cap \<and> I n False ca \<and> (\<forall>i. wide_env i \<longrightarrow> env i))"

lemma module_readyI:
  "counted_module ops I env cap \<Longrightarrow> 33554431 \<le> cap \<Longrightarrow> I n False ca \<Longrightarrow> (\<And>i. wide_env i \<Longrightarrow> env i) \<Longrightarrow>
     module_ready ops cap n ca"
  by (auto simp: module_ready_def)

lemma modules_ready:
  assumes n: "n < 2 ^ 32"
    and priv: "unat (hs_ai hs) < 72" "unat (bic_last_max_cwnd bi) < 2 ^ 31" "unat (ht_minRTT ht) < 2 ^ 28"
  shows "module_ready tcp_reno (- 1) n ()" "module_ready (tcp_naive_reno naive_reno_defaults) 2147483647 n ()"
    "module_ready tcp_scalable (- 1) n ()" "module_ready tcp_highspeed 33554431 n hs"
    "module_ready (tcp_hybla hybla_rtt0) 2147483647 n hy" "module_ready (bictcp_ops bic_defaults) 2147483647 n bi"
    "module_ready (cubictcp_ops cubic_live) 134217727 n cu" "module_ready (htcp_ops htcp_defaults) 2147483647 n ht"
    "module_ready (tcp_vegas vegas_defaults) (- 1) n ve" "module_ready tcp_veno 2147483647 n vn"
    "module_ready tcp_westwood (- 1) n ww" "module_ready (tcp_illinois illinois_defaults) 134217727 n il"
    "module_ready tcp_lp (- 1) n l"
proof -
  have w: "sample_env i" "cubic_env i" "unat (in_acked i) \<le> 2 ^ 27" "in_srtt i < 6400"
    "8 \<le> unat (in_srtt i)" "unat (in_srtt i) < 2 ^ 31" if "wide_env i" for i
    using that by (auto simp: wide_env_def cubic_env_def word_le_nat_alt word_less_nat_alt)
  show "module_ready tcp_reno (- 1) n ()" by (rule module_readyI [OF reno.counted.counted_module_axioms]) (use w in \<open>simp_all\<close>)
  show "module_ready (tcp_naive_reno naive_reno_defaults) 2147483647 n ()"
    by (rule module_readyI [OF naive_reno.counted.counted_module_axioms]) (use w in \<open>simp_all\<close>)
  show "module_ready tcp_scalable (- 1) n ()" by (rule module_readyI [OF scalable.counted.counted_module_axioms]) (use w in \<open>simp_all\<close>)
  show "module_ready tcp_highspeed 33554431 n hs"
    by (rule module_readyI [OF highspeed.counted.counted_module_axioms]) (use w priv in \<open>simp_all\<close>)
  show "module_ready (tcp_hybla hybla_rtt0) 2147483647 n hy"
    by (rule module_readyI [OF hybla.counted.counted_module_axioms]) (use w in \<open>simp_all add: hybla_inv_def\<close>)
  show "module_ready (bictcp_ops bic_defaults) 2147483647 n bi"
    by (rule module_readyI [OF bic.counted.counted_module_axioms]) (use w priv in \<open>simp_all add: bic_inv_def\<close>)
  show "module_ready (cubictcp_ops cubic_live) 134217727 n cu"
    by (rule module_readyI [OF cubic.counted.counted_module_axioms]) (use w in \<open>simp_all add: cubic_inv_def\<close>)
  show "module_ready (htcp_ops htcp_defaults) 2147483647 n ht"
    by (rule module_readyI [OF htcp.counted.counted_module_axioms]) (use w priv in \<open>simp_all add: htcp_inv_def\<close>)
  show "module_ready (tcp_vegas vegas_defaults) (- 1) n ve"
    by (rule module_readyI [OF vegas.counted.counted_module_axioms]) (use w in \<open>simp_all add: vegas_inv_def\<close>)
  show "module_ready tcp_veno 2147483647 n vn"
    by (rule module_readyI [OF veno.counted.counted_module_axioms]) (use w in \<open>simp_all add: veno_inv_def\<close>)
  show "module_ready tcp_westwood (- 1) n ww"
    by (rule module_readyI [OF westwood.counted.counted_module_axioms]) (use w in \<open>simp_all\<close>)
  show "module_ready (tcp_illinois illinois_defaults) 134217727 n il"
    by (rule module_readyI [OF illinois.counted_module_axioms]) (use w n in \<open>auto simp: illinois_inv_def word_le_nat_alt\<close>)
  show "module_ready tcp_lp (- 1) n l" by (rule module_readyI [OF lp.counted.counted_module_axioms]) (use w in \<open>simp_all\<close>)
qed

lemma fresh_base_ok:
  assumes "base_ok 33554431 tp" "33554431 \<le> cap"
  shows "base_ok cap (linux (fresh_agent tp ca))"
proof -
  have "(2 :: u32) \<le> cap" using assms(2) by (rule order_trans [rotated]) simp
  then show ?thesis
    using assms order_trans [OF _ assms(2)] by (simp add: base_ok_def fresh_agent_def)
qed

text \<open>From the contract of a module to its run.\<close>

lemma ready_runs:
  assumes "\<forall>i. Recv i \<in> set es \<longrightarrow> wide_env i" "base_ok 33554431 tp" "module_ready ops cap (length es) ca"
  shows "runs_ok ops cap es tp ca"
proof -
  obtain I env where m: "counted_module ops I env cap" "I (length es) False ca" "\<And>i. wide_env i \<Longrightarrow> env i" "33554431 \<le> cap"
    using assms(3) by (auto simp: module_ready_def)
  have a: "counted_module.agent_ok I cap (length es + 0) (fresh_agent tp ca)"
    using fresh_base_ok [OF assms(2) m(4)] m(2) by (simp add: counted_module.agent_ok_def [OF m(1)] fresh_agent_def)
  have "\<And>i. Recv i \<in> set es \<Longrightarrow> ack_in_ok i \<and> env i" using assms(1) m(3) by (auto simp: wide_env_def)
  from counted_module.run_total [OF m(1) a this] show ?thesis
    by (auto simp: runs_ok_def counted_module.agent_ok_def [OF m(1)])
qed

text \<open>
  C3. No sequence of fewer than \<open>2 ^ 32\<close> timeouts and acknowledgements in the range \<open>wide_env\<close> (a smoothed round-trip time of at least 1
  and less than 800 ms, samples within 71 minutes, stamps within 35 minutes, at most \<open>2 ^ 27\<close> packets for each) traps the agent, whichever of
  the thirteen modules below is installed, with a first socket and private area in range: from its construction on, the run is defined (no division by zero,
  no loop without end) and leaves a positive window, a positive clamp and a threshold of at least 2, all within
  the cap of the module. YeAH and Compound are not among them, as they can bring the window to 0.
\<close>

theorem agents_never_trap:
  assumes es: "\<forall>i. Recv i \<in> set es \<longrightarrow> wide_env i" "length es < 2 ^ 32" and tp: "base_ok 33554431 tp"
    and priv: "unat (hs_ai hs) < 72" "unat (bic_last_max_cwnd bi) < 2 ^ 31" "unat (ht_minRTT ht) < 2 ^ 28"
  shows "runs_ok tcp_reno (- 1) es tp () \<and> runs_ok (tcp_naive_reno naive_reno_defaults) 2147483647 es tp () \<and>
    runs_ok tcp_scalable (- 1) es tp () \<and> runs_ok tcp_highspeed 33554431 es tp hs \<and>
    runs_ok (tcp_hybla hybla_rtt0) 2147483647 es tp hy \<and> runs_ok (bictcp_ops bic_defaults) 2147483647 es tp bi \<and>
    runs_ok (cubictcp_ops cubic_live) 134217727 es tp cu \<and> runs_ok (htcp_ops htcp_defaults) 2147483647 es tp ht \<and>
    runs_ok (tcp_vegas vegas_defaults) (- 1) es tp ve \<and> runs_ok tcp_veno 2147483647 es tp vn \<and>
    runs_ok tcp_westwood (- 1) es tp ww \<and> runs_ok (tcp_illinois illinois_defaults) 134217727 es tp il \<and>
    runs_ok tcp_lp (- 1) es tp l"
  by (intro conjI ready_runs [OF es(1) tp]; rule modules_ready [OF es(2) priv])

lemma example_events_wide: "Recv i \<in> set example_events \<Longrightarrow> wide_env i"
  by (auto simp: example_events_def wide_env_def example_ack_def ack_in_ok_def sample_env_def net_timedelta_def
      cubic_env_def)

lemma example_sock_ok: "base_ok 33554431 (example_sock 2)"
  by (simp add: base_ok_def)

definition example_lp :: lp where
  "example_lp =
     \<lparr>lp_flag = 0, sowd = 0, owd_min = 0xffffffff, owd_max = 0, owd_max_rsv = 0, remote_hz = 0, remote_ref_time = 0,
      local_ref_time = 0, last_drop = 0, inference = 0\<rparr>"

theorem agents_never_trap_witness:
  "runs_ok tcp_reno (- 1) example_events (example_sock 2) () \<and>
   runs_ok (cubictcp_ops cubic_live) 134217727 example_events (example_sock 2) example_cubic \<and>
   runs_ok (htcp_ops htcp_defaults) 2147483647 example_events (example_sock 2) example_htcp \<and>
   runs_ok tcp_lp (- 1) example_events (example_sock 2) example_lp"
proof -
  have "length example_events < 2 ^ 32" by (simp add: example_events_def)
  moreover have "unat (hs_ai \<lparr>hs_ai = 0\<rparr>) < 72" by simp
  moreover have "unat (bic_last_max_cwnd example_bic) < 2 ^ 31" "unat (ht_minRTT example_htcp) < 2 ^ 28"
    by (simp_all add: example_bic_def example_htcp_def)
  ultimately show ?thesis
    using agents_never_trap [of example_events "example_sock 2" "\<lparr>hs_ai = 0\<rparr>" example_bic example_htcp example_hybla
        example_cubic example_vegas example_veno example_westwood example_illinois example_lp]
      example_events_wide example_sock_ok by blast
qed

subsection \<open>Whole connections\<close>

lemma config_ok_cap:
  assumes "config_ok 33554431 cf" "33554431 \<le> cap"
  shows "config_ok cap cf"
proof -
  have "uint (33554431 :: u32) \<le> uint cap" using assms(2) by (simp only: word_le_def)
  then show ?thesis using assms(1) by (simp add: config_ok_def)
qed

lemma ready_connection:
  assumes cf: "config_ok 33554431 cf" and m: "module_ready ops cap (length es) ca"
  shows "connection_sound ops cap wide_env cf es tp ca"
proof -
  obtain I env where m: "counted_module ops I env cap" "I (length es) False ca" "\<And>i. wide_env i \<Longrightarrow> env i" "33554431 \<le> cap"
    using assms(2) by (auto simp: module_ready_def)
  show ?thesis by (rule counted_module.connection_total [OF m(1) config_ok_cap [OF cf m(4)] m(2,3)])
qed

text \<open>
  C2. A connection from its construction does not trap in its range, whichever of thirteen modules it runs. The range is: settings (\<open>config_ok\<close>) and
  first private areas of the modules in range, fewer than \<open>2 ^ 32\<close> acknowledgements, timeouts and requests of the application, acknowledgements with times and sizes in
  \<open>wide_env\<close> (a smoothed round-trip time of at least 1 and less than 800 ms), and selective blocks that are not empty, lie in what was sent and do not
  start at the packet that is acknowledged cumulatively (\<open>run_possible\<close>). Every handler then ends without a failed assertion of the scoreboard,
  a division by zero or a loop without end. At the end the scoreboard is in order behind the cumulative acknowledgement, its counters are exact, the number of packets in
  flight is not negative, each packet below the next sequence number was sent and no other, and the window, its clamp and the threshold are within the
  range of the module.
\<close>

theorem connections_never_trap:
  assumes cf: "config_ok 33554431 cf" and es: "length es < 2 ^ 32"
    and priv: "unat (hs_ai hs) < 72" "unat (bic_last_max_cwnd bi) < 2 ^ 31" "unat (ht_minRTT ht) < 2 ^ 28"
  shows "connection_sound tcp_reno (- 1) wide_env cf es tp () \<and>
    connection_sound (tcp_naive_reno naive_reno_defaults) 2147483647 wide_env cf es tp () \<and>
    connection_sound tcp_scalable (- 1) wide_env cf es tp () \<and> connection_sound tcp_highspeed 33554431 wide_env cf es tp hs \<and>
    connection_sound (tcp_hybla hybla_rtt0) 2147483647 wide_env cf es tp hy \<and>
    connection_sound (bictcp_ops bic_defaults) 2147483647 wide_env cf es tp bi \<and>
    connection_sound (cubictcp_ops cubic_live) 134217727 wide_env cf es tp cu \<and>
    connection_sound (htcp_ops htcp_defaults) 2147483647 wide_env cf es tp ht \<and>
    connection_sound (tcp_vegas vegas_defaults) (- 1) wide_env cf es tp ve \<and>
    connection_sound tcp_veno 2147483647 wide_env cf es tp vn \<and> connection_sound tcp_westwood (- 1) wide_env cf es tp ww \<and>
    connection_sound (tcp_illinois illinois_defaults) 134217727 wide_env cf es tp il \<and>
    connection_sound tcp_lp (- 1) wide_env cf es tp l"
  by (intro conjI ready_connection [OF cf]; rule modules_ready [OF es priv])

lemma example_packet_possible:
  assumes "highest_ack s = - 1" "scb s = empty_board" "t_seqno s = 2"
  shows "pkt_possible wide_env example_packet s"
  using assms
  by (simp add: pkt_possible_def example_packet_def update_scoreboard_def empty_board_def ClearScoreBoard_def ack_of_def
      ack_flags_def Let_def wide_env_def ack_in_ok_def sample_env_def net_timedelta_def cubic_env_def)

theorem connections_never_trap_witness:
  "\<exists>s. conn_run tcp_reno example_config [Advance 3, Ack example_packet, Rto example_kern] example_start = Some s \<and>
     sender_ok s \<and> set (packets_sent s) = {0..<t_seqno s}"
proof -
  let ?es = "[Advance 3, Ack example_packet, Rto example_kern]"
  have "run_possible tcp_reno example_config wide_env ?es example_start"
    using first_flight example_packet_possible by (auto simp: example_config_def split: option.splits)
  moreover have "config_ok 33554431 example_config" by (simp add: config_ok_def example_config_def)
  moreover have "unat (hs_ai \<lparr>hs_ai = 0\<rparr>) < 72" "unat (bic_last_max_cwnd example_bic) < 2 ^ 31"
    "unat (ht_minRTT example_htcp) < 2 ^ 28" "length ?es < 2 ^ 32"
    by (simp_all add: example_bic_def example_htcp_def)
  ultimately show ?thesis
    using connections_never_trap [of example_config ?es "\<lparr>hs_ai = 0\<rparr>" example_bic example_htcp "example_sock 2" example_hybla
        example_cubic example_vegas example_veno example_westwood example_illinois example_lp]
    by (simp add: connection_sound_def example_start_def [symmetric] sent_exactly_def split: option.splits)
qed

subsection \<open>Connections and their receivers\<close>

text \<open>The verdict on a module with both sinks, which are bound to the Tcl variables of \<open>bound\<close>.\<close>

definition network_safe :: "'ca tcp_congestion_ops \<Rightarrow> config \<Rightarrow> net_event list \<Rightarrow> sink \<Rightarrow> tcp_sock \<Rightarrow> 'ca \<Rightarrow> bool" where
  "network_safe ops cf es bound tp ca \<longleftrightarrow>
     network_sound ops wide_env cf sink_recv (\<lambda>k. ([], k)) es tp ca (new_sink bound) \<and>
     network_sound ops wide_env cf delack_recv delack_timeout es tp ca (new_sink bound)"

lemma ready_network:
  assumes cf: "config_ok 33554431 cf" and sink: "\<not> generate_dsacks bound" and m: "module_ready ops cap (length es) ca"
  shows "network_safe ops cf es bound tp ca"
proof -
  obtain I env where m: "counted_module ops I env cap" "I (length es) False ca" "\<And>i. wide_env i \<Longrightarrow> env i" "33554431 \<le> cap"
    using m by (auto simp: module_ready_def)
  have start: "sink_holds False {} (new_sink bound)"
    using sink_holdsI [OF sink_ok_new, of "{}" bound False] sink by (simp add: new_sink_def set_max_sack_blocks_def)
  have "network_sound ops wide_env cf arrive expire es tp ca (new_sink bound)"
    if "receiver arrive expire sink_holds" for arrive expire
    by (rule counted_module.network_total [OF m(1) that start config_ok_cap [OF cf m(4)] m(2,3)])
  then show ?thesis
    unfolding network_safe_def using plain_sink.receiver_axioms delack_sink.receiver_axioms by blast
qed

text \<open>
  C1. A sender and a receiver never disagree. The agent with any of thirteen modules and a sink that does not report duplicates, with or without
  delayed acknowledgements, are joined by a network that loses, duplicates and reorders packets and acknowledgements at will. Over every run of
  fewer than \<open>2 ^ 32\<close> events in which the times and sizes that come with the acknowledgements are in the range \<open>wide_env\<close> (a smoothed round-trip
  time of at least 1 and less than 800 ms, samples within 71 minutes, stamps within 35 minutes, at most \<open>2 ^ 27\<close> packets for each), with settings and
  first private areas of the modules in range, no handler of either end traps, and at the end every packet that the sender takes as acknowledged, cumulatively
  or selectively, has arrived at the receiver, and every packet that has arrived was sent.
\<close>

theorem acknowledged_packets_arrived:
  assumes cf: "config_ok 33554431 cf" and es: "length es < 2 ^ 32" and sink: "\<not> generate_dsacks bound"
    and priv: "unat (hs_ai hs) < 72" "unat (bic_last_max_cwnd bi) < 2 ^ 31" "unat (ht_minRTT ht) < 2 ^ 28"
  shows "network_safe tcp_reno cf es bound tp () \<and> network_safe (tcp_naive_reno naive_reno_defaults) cf es bound tp () \<and>
    network_safe tcp_scalable cf es bound tp () \<and> network_safe tcp_highspeed cf es bound tp hs \<and>
    network_safe (tcp_hybla hybla_rtt0) cf es bound tp hy \<and> network_safe (bictcp_ops bic_defaults) cf es bound tp bi \<and>
    network_safe (cubictcp_ops cubic_live) cf es bound tp cu \<and> network_safe (htcp_ops htcp_defaults) cf es bound tp ht \<and>
    network_safe (tcp_vegas vegas_defaults) cf es bound tp ve \<and> network_safe tcp_veno cf es bound tp vn \<and>
    network_safe tcp_westwood cf es bound tp ww \<and> network_safe (tcp_illinois illinois_defaults) cf es bound tp il \<and>
    network_safe tcp_lp cf es bound tp l"
  by (intro conjI ready_network [OF cf sink]; rule modules_ready [OF es priv])

text \<open>The first packet arrives and is acknowledged.\<close>

lemma first_answer:
  assumes "sink_recv (example_data 0) example_sink = Some (hs, k)"
  shows "list_ex (answers example_packet) hs"
proof -
  have "sink_holds False {} example_sink" using sink_holdsI [OF example_sink_ok, of "{}" False] by simp
  from sink_recv_holds [OF this, of "example_data 0"] assms have true: "list_all (ack_truthful False {0}) hs" by auto
  obtain h k' where h: "hs = [h]" "sink_ok ((\<lambda>_. 0)(0 := 1000)) k'" "ah_seqno h = rcv_next (win k') - 1"
    using sink_recv_ok [OF example_sink_ok, of "example_data 0"] assms by auto
  have "ring_ok ((\<lambda>_. 0)(0 := 1000)) (win k')" using h(2) by (simp add: sink_ok_def)
  from ring_okD(1,5) [OF this] have "0 \<le> ah_seqno h" using h(3) by (auto split: if_splits)
  moreover have "{0..ah_seqno h} \<subseteq> {0}" using true h(1) by (simp add: ack_truthful_def)
  ultimately have ack: "ah_seqno h = 0" by auto
  have "x \<notin> set (ah_sacks h)" for x
  proof
    assume "x \<in> set (ah_sacks h)"
    then have "fst x < snd x" "{fst x..<snd x} \<subseteq> {0}" "1 < fst x" using true h(1) ack by (auto simp: ack_truthful_def list_all_iff)
    then have "fst x \<in> {0}" by auto
    then show False using \<open>1 < fst x\<close> by simp
  qed
  then have "ah_sacks h = []" by (cases "ah_sacks h") auto
  then show ?thesis using h(1) ack by (simp add: answers_def example_packet_def)
qed

theorem acknowledged_packets_arrived_witness:
  "\<exists>n. net_run tcp_reno example_config sink_recv (\<lambda>k. ([], k)) [App 3, Arrive (example_data 0), Answer example_packet]
       (network_start example_config (example_sock 2) () example_sink) = Some n \<and>
     acked (net_sender n) \<subseteq> set (net_arrived n)"
proof -
  let ?es = "[App 3, Arrive (example_data 0), Answer example_packet]"
    and ?n0 = "network_start example_config (example_sock 2) () example_sink"
  have start: "net_sender ?n0 = example_start" "net_sink ?n0 = example_sink" "net_acks ?n0 = []"
    "net_arrived ?n0 = []" by (simp_all add: network_start_def example_start_def)
  have burst: "cf_maxburst example_config = 0" by (simp add: example_config_def)
  have "net_run_possible tcp_reno example_config sink_recv (\<lambda>k. ([], k)) wide_env ?es ?n0"
  proof (cases "advanceby 0 3 example_start")
    case (Some s)
    note first = first_flight [OF Some]
    obtain hs k where k: "sink_recv (example_data 0) example_sink = Some (hs, k)"
      using sink_recv_ok [OF example_sink_ok, of "example_data 0"] by auto
    define n1 n2 where "n1 = ?n0\<lparr>net_sender := s\<rparr>" and "n2 = n1\<lparr>net_sink := k, net_acks := hs, net_arrived := [0]\<rparr>"
    have "net_possible wide_env (Answer example_packet) n2"
      using example_packet_possible [of s] first first_answer [OF k]
      by (auto simp: n1_def n2_def pkt_possible_def split: option.splits)
    moreover have "net_possible wide_env (Arrive (example_data 0)) n1" using first by (simp add: n1_def)
    moreover have "net_step tcp_reno example_config sink_recv (\<lambda>k. ([], k)) (App 3) ?n0 = Some n1"
      using Some by (simp add: start n1_def burst)
    moreover have "net_step tcp_reno example_config sink_recv (\<lambda>k. ([], k)) (Arrive (example_data 0)) n1 = Some n2"
      using k start by (simp add: n1_def n2_def)
    ultimately show ?thesis by (simp del: net_step.simps split: option.split)
  qed (simp add: start burst)
  moreover have "config_ok 33554431 example_config" by (simp add: config_ok_def example_config_def)
  moreover have "unat (hs_ai \<lparr>hs_ai = 0\<rparr>) < 72" "unat (bic_last_max_cwnd example_bic) < 2 ^ 31"
    "unat (ht_minRTT example_htcp) < 2 ^ 28" "length ?es < 2 ^ 32" "\<not> generate_dsacks example_sink"
    by (simp_all add: example_bic_def example_htcp_def)
  moreover have "new_sink example_sink = example_sink"
    by (simp add: example_sink_def new_sink_def set_max_sack_blocks_def)
  ultimately show ?thesis
    using acknowledged_packets_arrived [of example_config ?es example_sink "\<lparr>hs_ai = 0\<rparr>" example_bic example_htcp "example_sock 2"
        example_hybla example_cubic example_vegas example_veno example_westwood example_illinois example_lp]
    by (simp add: network_safe_def network_sound_def Let_def split: option.splits)
qed

end
